(* ===== verification/Js_Prelude.thy ===== *)
theory Js_Prelude
  imports
    Complex_Main
    "HOL-Library.AList"
    "HOL-Library.List_Lexorder"
    "HOL-Library.Char_ord"
    "HOL-Library.Multiset"
begin

text \<open>
  The prelude of the development: what the components share of JavaScript, and the generic
  lemmas their proofs rest on.

  \<^item> Values. A finite JavaScript number that is only compared, added or divided is a \<open>rat\<close>
    (every finite double is one); byte counts, times in ms and indices are \<open>int\<close> or \<open>nat\<close>.
    Rounding of doubles is not modelled: counts stay below \<open>2 ^ 53\<close> in the program.
    A string is a \<open>char list\<close>, one \<open>char\<close> per UTF-16 code unit, so the model covers the strings
    of code units below 256 (Latin-1), where \<open><\<close> on strings is the lexicographic order.
  \<^item> Objects used as dictionaries are association lists in insertion order; writing a property
    is \<open>AList.update\<close>. Reading one also finds what \<^verbatim>\<open>Object.prototype\<close> holds (\<open>js_get\<close>).
  \<^item> \<open>js_sort\<close> is \<^verbatim>\<open>Array.prototype.sort\<close> with a comparison function, which is stable since
    ES2019; the locale \<open>js_comparator\<close> holds what follows from a consistent comparison.
  \<^item> \<open>reach\<close> and the locale \<open>invariant_system\<close>: state machines and their invariants.
\<close>

named_theorems js_defs \<open>definitions of the JavaScript helpers, unfolded on concrete values\<close>

section \<open>Errors and objects\<close>

datatype js_error = TypeError | JsError string

type_synonym 'a result = "js_error + 'a"

text \<open>The names a plain object inherits: \<^verbatim>\<open>o[k]\<close> finds a function (or the prototype) under them
  even when \<^verbatim>\<open>o\<close> has no such property of its own.\<close>

definition object_prototype_names :: "string list" where
  "object_prototype_names =
     [''constructor'', ''__defineGetter__'', ''__defineSetter__'', ''hasOwnProperty'',
      ''__lookupGetter__'', ''__lookupSetter__'', ''isPrototypeOf'', ''propertyIsEnumerable'',
      ''toString'', ''valueOf'', ''__proto__'', ''toLocaleString'']"

datatype 'a js_lookup = Own 'a | Inherited | Undefined

type_synonym 'a jsobj = "(string \<times> 'a) list"

definition js_get :: "'a jsobj \<Rightarrow> string \<Rightarrow> 'a js_lookup" where
  "js_get ob k =
     (case map_of ob k of
        Some v \<Rightarrow> Own v
      | None \<Rightarrow> if k \<in> set object_prototype_names then Inherited else Undefined)"

definition plain_keys :: "'a jsobj \<Rightarrow> bool" where
  "plain_keys ob \<longleftrightarrow> (\<forall>k \<in> fst ` set ob. k \<notin> set object_prototype_names)"

lemma js_get_Own [simp]: "js_get ob k = Own v \<longleftrightarrow> map_of ob k = Some v"
  by (auto simp: js_get_def split: option.splits if_splits)

lemma js_get_plain:
  "k \<notin> set object_prototype_names \<Longrightarrow>
     js_get ob k = (case map_of ob k of Some v \<Rightarrow> Own v | None \<Rightarrow> Undefined)"
  by (auto simp: js_get_def split: option.splits)

lemma plain_keys_Nil [simp]: "plain_keys []"
  by (simp add: plain_keys_def)

lemma plain_keys_Cons [simp]:
  "plain_keys ((k, v) # ob) \<longleftrightarrow> k \<notin> set object_prototype_names \<and> plain_keys ob"
  by (auto simp: plain_keys_def)

lemma plain_keys_update [simp]:
  "k \<notin> set object_prototype_names \<Longrightarrow> plain_keys ob \<Longrightarrow> plain_keys (AList.update k v ob)"
  by (simp add: plain_keys_def dom_update)

lemmas map_of_update = update_conv'

text \<open>JSON as \<^verbatim>\<open>JSON.parse\<close> gives it; \<open>JNum None\<close> is a number that is not finite (\<^verbatim>\<open>1e999\<close>).\<close>

datatype json =
    JNull | JBool bool | JNum "rat option" | JStr string
  | JArr "json list" | JObj "(string \<times> json) list"

section \<open>Lists\<close>

text \<open>\<^verbatim>\<open>findIndex\<close>: \<open>None\<close> for -1.\<close>

fun find_index :: "('a \<Rightarrow> bool) \<Rightarrow> 'a list \<Rightarrow> nat option" where
  "find_index P [] = None"
| "find_index P (x # xs) = (if P x then Some 0 else map_option Suc (find_index P xs))"

lemma find_index_None_iff: "find_index P xs = None \<longleftrightarrow> (\<forall>x \<in> set xs. \<not> P x)"
  by (induction xs) auto

lemma find_index_SomeD:
  "find_index P xs = Some i \<Longrightarrow> i < length xs \<and> P (xs ! i) \<and> (\<forall>j < i. \<not> P (xs ! j))"
proof (induction xs arbitrary: i)
  case (Cons x xs)
  show ?case
  proof (cases "P x")
    case True
    with Cons.prems show ?thesis by simp
  next
    case False
    with Cons.prems obtain j where "find_index P xs = Some j" "i = Suc j" by auto
    with Cons.IH[of j] False show ?thesis by (auto simp: nth_Cons split: nat.splits)
  qed
qed simp

lemma find_index_length [dest]: "find_index P xs = Some i \<Longrightarrow> i < length xs"
  by (simp add: find_index_SomeD)

lemma find_eq_find_index:
  "List.find P xs = (case find_index P xs of None \<Rightarrow> None | Some i \<Rightarrow> Some (xs ! i))"
  by (induction xs) (auto split: option.splits)

lemma find_index_map [simp]: "find_index P (map f xs) = find_index (P \<circ> f) xs"
  by (induction xs) auto

text \<open>\<^verbatim>\<open>[next[i], next[j]] = [next[j], next[i]]\<close> with both indices in range.\<close>

definition swap_at :: "nat \<Rightarrow> nat \<Rightarrow> 'a list \<Rightarrow> 'a list" where
  "swap_at i j xs = xs[i := xs ! j, j := xs ! i]"

lemma length_swap_at [simp]: "length (swap_at i j xs) = length xs"
  by (simp add: swap_at_def)

lemma mset_swap_at [simp]:
  "i < length xs \<Longrightarrow> j < length xs \<Longrightarrow> mset (swap_at i j xs) = mset xs"
  unfolding swap_at_def by (rule mset_swap)

lemma nth_swap_at:
  "i < length xs \<Longrightarrow> j < length xs \<Longrightarrow> k < length xs \<Longrightarrow>
     swap_at i j xs ! k = (if k = i then xs ! j else if k = j then xs ! i else xs ! k)"
  by (auto simp: swap_at_def nth_list_update)

lemma map_swap_at_same:
  assumes "i < length xs" "j < length xs" "f (xs ! i) = f (xs ! j)"
  shows "map f (swap_at i j xs) = map f xs"
  using assms by (auto intro!: nth_equalityI simp: nth_swap_at)

lemma filter_update_neither:
  "i < length xs \<Longrightarrow> \<not> P (xs ! i) \<Longrightarrow> \<not> P x \<Longrightarrow> filter P (xs[i := x]) = filter P xs"
proof (induction xs arbitrary: i)
  case (Cons y ys)
  then show ?case by (cases i) auto
qed simp

text \<open>\<^verbatim>\<open>slice(0, i).concat(slice(i + 1))\<close>.\<close>

definition remove_at :: "nat \<Rightarrow> 'a list \<Rightarrow> 'a list" where
  "remove_at i xs = take i xs @ drop (Suc i) xs"

lemma length_remove_at [simp]: "i < length xs \<Longrightarrow> length (remove_at i xs) = length xs - 1"
  by (simp add: remove_at_def)

lemma mset_remove_at:
  "i < length xs \<Longrightarrow> mset xs = add_mset (xs ! i) (mset (remove_at i xs))"
  unfolding remove_at_def by (subst id_take_nth_drop[of i xs]) auto

lemma set_remove_at_subset: "set (remove_at i xs) \<subseteq> set xs"
  unfolding remove_at_def using set_take_subset set_drop_subset by fastforce

lemma distinct_map_remove_at:
  assumes "distinct (map f xs)"
  shows "distinct (map f (remove_at i xs))"
proof -
  have "distinct (take i (map f xs) @ drop (Suc i) (map f xs))"
    using assms set_take_disj_set_drop_if_distinct[of "map f xs" i "Suc i"] by auto
  then show ?thesis by (simp add: remove_at_def take_map drop_map)
qed

section \<open>Strings\<close>

text \<open>\<^verbatim>\<open>toLowerCase\<close> on Latin-1: the ASCII letters, and U+00C0 to U+00DE except U+00D7.\<close>

definition lower_char :: "char \<Rightarrow> char" where
  "lower_char c =
     (let n = of_char c :: nat in
      if 65 \<le> n \<and> n \<le> 90 \<or> 192 \<le> n \<and> n \<le> 222 \<and> n \<noteq> 215 then char_of (n + 32) else c)"

definition to_lower :: "string \<Rightarrow> string" where
  "to_lower = map lower_char"

definition is_digit :: "char \<Rightarrow> bool" where
  "is_digit c \<longleftrightarrow> (let n = of_char c :: nat in 48 \<le> n \<and> n \<le> 57)"

definition digit_value :: "char \<Rightarrow> nat" where
  "digit_value c = of_char c - 48"

text \<open>\<^verbatim>\<open>Number\<close> and \<^verbatim>\<open>parseInt(s, 10)\<close> on a run of decimal digits.\<close>

definition decimal :: "string \<Rightarrow> nat" where
  "decimal s = foldl (\<lambda>n c. 10 * n + digit_value c) 0 s"

definition starts_with :: "string \<Rightarrow> string \<Rightarrow> bool" where
  "starts_with p s \<longleftrightarrow> take (length p) s = p"

text \<open>\<^verbatim>\<open>indexOf\<close> of one character, and a number in decimal as template literals write it.\<close>

definition index_of :: "char \<Rightarrow> string \<Rightarrow> nat option" where
  "index_of c = find_index (\<lambda>x. x = c)"

fun show_nat :: "nat \<Rightarrow> string" where
  "show_nat n =
     (if n < 10 then [char_of (48 + n)] else show_nat (n div 10) @ [char_of (48 + n mod 10)])"

declare show_nat.simps [simp del]

text \<open>The UTF-8 bytes of a Latin-1 character: one below 128, two from there.\<close>

definition utf8_char :: "char \<Rightarrow> nat list" where
  "utf8_char c = (let n = of_char c in if n < 128 then [n] else [192 + n div 64, 128 + n mod 64])"

text \<open>\<^verbatim>\<open>trim\<close>: the white space of Latin-1.\<close>

definition is_space :: "char \<Rightarrow> bool" where
  "is_space c \<longleftrightarrow> (let n = of_char c :: nat in 9 \<le> n \<and> n \<le> 13 \<or> n = 32 \<or> n = 160)"

definition trim :: "string \<Rightarrow> string" where
  "trim s = rev (dropWhile is_space (rev (dropWhile is_space s)))"

definition ends_with :: "string \<Rightarrow> string \<Rightarrow> bool" where
  "ends_with p s \<longleftrightarrow> starts_with (rev p) (rev s)"

text \<open>\<^verbatim>\<open>s.includes(t)\<close>.\<close>

fun str_includes :: "string \<Rightarrow> string \<Rightarrow> bool" where
  "str_includes t [] = (t = [])"
| "str_includes t (c # s) = (starts_with t (c # s) \<or> str_includes t s)"

text \<open>\<^verbatim>\<open>s.split(sep)\<close> for a one-character separator.\<close>

fun split_on :: "char \<Rightarrow> string \<Rightarrow> string list" where
  "split_on d [] = [[]]"
| "split_on d (c # s) =
     (if c = d then [] # split_on d s
      else (case split_on d s of [] \<Rightarrow> [[c]] | w # ws \<Rightarrow> (c # w) # ws))"

lemmas string_defs =
  lower_char_def to_lower_def is_digit_def digit_value_def decimal_def starts_with_def
  index_of_def is_space_def trim_def ends_with_def Let_def

lemma starts_with_iff: "starts_with p s \<longleftrightarrow> (\<exists>t. s = p @ t)"
  by (metis starts_with_def append_eq_conv_conj append_take_drop_id)

lemma index_of_None_iff [simp]: "index_of c s = None \<longleftrightarrow> c \<notin> set s"
  by (auto simp: index_of_def find_index_None_iff)

lemma index_of_append [simp]: "c \<notin> set s \<Longrightarrow> index_of c (s @ c # t) = Some (length s)"
  by (induction s) (auto simp: index_of_def)

lemma index_of_Some_split: "index_of c s = Some i \<Longrightarrow> s = take i s @ c # drop (Suc i) s \<and> c \<notin> set (take i s)"
  unfolding index_of_def
  by (frule find_index_SomeD) (metis id_take_nth_drop in_set_conv_nth length_take min.absorb4 nth_take)

lemma take_index_of:
  "(case index_of c s of None \<Rightarrow> s | Some i \<Rightarrow> take i s) = takeWhile (\<lambda>x. x \<noteq> c) s"
  unfolding index_of_def by (induction s) (auto split: option.splits)

lemma show_nat_digits: "\<forall>c \<in> set (show_nat n). is_digit c"
proof (induction n rule: show_nat.induct)
  case (1 n)
  have "is_digit (char_of (48 + k))" if "k < 10" for k :: nat
    using that by (simp add: is_digit_def of_char_of Let_def)
  with 1 show ?case by (subst show_nat.simps) auto
qed

lemma is_digit_neq [simp]: "is_digit CHR '':'' = False" "is_digit CHR ''['' = False" "is_digit CHR '']'' = False"
  "is_digit CHR ''.'' = False" "is_digit CHR ''/'' = False"
  by (simp_all add: is_digit_def)

lemma show_nat_no [simp]: "\<not> is_digit c \<Longrightarrow> c \<notin> set (show_nat n)"
  using show_nat_digits by blast

lemma includes_iff: "str_includes t s \<longleftrightarrow> (\<exists>u v. s = u @ t @ v)"
proof (induction s)
  case (Cons c s)
  have "(\<exists>u v. c # s = u @ t @ v) \<longleftrightarrow>
      (\<exists>v. c # s = t @ v) \<or> (\<exists>u v. s = u @ t @ v)" (is "?l \<longleftrightarrow> ?r")
  proof
    assume ?l
    then obtain u v where uv: "c # s = u @ t @ v" by blast
    then show ?r by (cases u) auto
  next
    assume ?r
    then show ?l
    proof
      assume "\<exists>v. c # s = t @ v"
      then obtain v where "c # s = [] @ t @ v" by auto
      then show ?l by blast
    next
      assume "\<exists>u v. s = u @ t @ v"
      then obtain u v where "c # s = (c # u) @ t @ v" by auto
      then show ?l by blast
    qed
  qed
  with Cons.IH show ?case by (simp add: starts_with_iff)
qed simp

lemma split_on_not_Nil [simp]: "split_on d s \<noteq> []"
  by (induction s) (auto split: list.splits)

section \<open>Sorting with a comparison function\<close>

fun js_insert :: "('a \<Rightarrow> 'a \<Rightarrow> int) \<Rightarrow> 'a \<Rightarrow> 'a list \<Rightarrow> 'a list" where
  "js_insert cmp x [] = [x]"
| "js_insert cmp x (y # ys) = (if cmp x y \<le> 0 then x # y # ys else y # js_insert cmp x ys)"

definition js_sort :: "('a \<Rightarrow> 'a \<Rightarrow> int) \<Rightarrow> 'a list \<Rightarrow> 'a list" where
  "js_sort cmp xs = foldr (js_insert cmp) xs []"

lemma mset_js_insert [simp]: "mset (js_insert cmp x xs) = add_mset x (mset xs)"
  by (induction xs) auto

lemma js_sort_Nil [simp]: "js_sort cmp [] = []"
  and js_sort_Cons [simp]: "js_sort cmp (x # xs) = js_insert cmp x (js_sort cmp xs)"
  by (simp_all add: js_sort_def)

lemma mset_js_sort [simp]: "mset (js_sort cmp xs) = mset xs"
  by (induction xs) auto

lemma set_js_sort [simp]: "set (js_sort cmp xs) = set xs"
  by (metis mset_js_sort set_mset_mset)

lemma length_js_sort [simp]: "length (js_sort cmp xs) = length xs"
  by (metis mset_js_sort size_mset)

lemma set_js_insert [simp]: "set (js_insert cmp x xs) = insert x (set xs)"
  by (metis mset_js_insert set_mset_add_mset_insert set_mset_mset)

text \<open>What a consistent comparison function promises, and what the sort then gives.\<close>

locale js_comparator =
  fixes cmp :: "'a \<Rightarrow> 'a \<Rightarrow> int"
  assumes cmp_flip: "cmp a b < 0 \<longleftrightarrow> cmp b a > 0"
    and cmp_trans: "cmp a b \<le> 0 \<Longrightarrow> cmp b c \<le> 0 \<Longrightarrow> cmp a c \<le> 0"
begin

lemma cmp_refl: "cmp a a = 0"
  using cmp_flip[of a a] by linarith

lemma cmp_total: "cmp a b \<le> 0 \<or> cmp b a \<le> 0"
  using cmp_flip[of a b] cmp_flip[of b a] by linarith

lemma sorted_insert:
  "sorted_wrt (\<lambda>a b. cmp a b \<le> 0) xs \<Longrightarrow> sorted_wrt (\<lambda>a b. cmp a b \<le> 0) (js_insert cmp x xs)"
proof (induction xs)
  case (Cons y ys)
  show ?case
  proof (cases "cmp x y \<le> 0")
    case True
    with Cons.prems show ?thesis by (auto intro: cmp_trans)
  next
    case False
    then have "cmp y x \<le> 0" using cmp_total by blast
    with Cons False show ?thesis by auto
  qed
qed simp

lemma sorted_js_sort: "sorted_wrt (\<lambda>a b. cmp a b \<le> 0) (js_sort cmp xs)"
  by (induction xs) (simp_all add: sorted_insert)

text \<open>Stability: the elements that compare equal to \<open>k\<close> keep their order.\<close>

lemma stable_insert:
  "filter (\<lambda>a. cmp k a = 0) (js_insert cmp x xs) = filter (\<lambda>a. cmp k a = 0) (x # xs)"
proof (induction xs)
  case (Cons y ys)
  have "cmp x y \<le> 0" if "cmp k x = 0" "cmp k y = 0"
  proof -
    have "cmp x k \<le> 0" using that cmp_flip[of k x] by linarith
    with that show ?thesis using cmp_trans[of x k y] by simp
  qed
  with Cons show ?case by auto
qed simp

lemma stable_js_sort: "filter (\<lambda>a. cmp k a = 0) (js_sort cmp xs) = filter (\<lambda>a. cmp k a = 0) xs"
  by (induction xs) (simp_all add: stable_insert)

end

section \<open>State machines\<close>

inductive reach :: "('s \<Rightarrow> bool) \<Rightarrow> ('s \<Rightarrow> 's \<Rightarrow> bool) \<Rightarrow> 's \<Rightarrow> bool" for init step where
  reach_init: "init s \<Longrightarrow> reach init step s"
| reach_step: "reach init step s \<Longrightarrow> step s t \<Longrightarrow> reach init step t"

text \<open>An inductive invariant of a machine: it holds at the start and every step keeps it.\<close>

locale invariant_system =
  fixes init :: "'s \<Rightarrow> bool" and step :: "'s \<Rightarrow> 's \<Rightarrow> bool" and inv :: "'s \<Rightarrow> bool"
  assumes init_inv: "init s \<Longrightarrow> inv s"
    and step_inv: "inv s \<Longrightarrow> step s t \<Longrightarrow> inv t"
begin

lemma reach_inv: "reach init step s \<Longrightarrow> inv s"
  by (induction rule: reach.induct) (auto intro: init_inv step_inv)

end

text \<open>A detailed machine that implements an abstract one: under its invariant every step of it is a step of the
  abstract machine on the abstracted states, or none at all there.\<close>

locale simulation = invariant_system init step inv
  for init :: "'s \<Rightarrow> bool" and step :: "'s \<Rightarrow> 's \<Rightarrow> bool" and inv :: "'s \<Rightarrow> bool" +
  fixes ainit :: "'a \<Rightarrow> bool" and astep :: "'a \<Rightarrow> 'a \<Rightarrow> bool" and abst :: "'s \<Rightarrow> 'a"
  assumes init_abst: "init s \<Longrightarrow> ainit (abst s)"
    and step_abst: "inv s \<Longrightarrow> step s t \<Longrightarrow> abst t = abst s \<or> astep (abst s) (abst t)"
begin

lemma reach_abst: "reach init step s \<Longrightarrow> reach ainit astep (abst s)"
proof (induction rule: reach.induct)
  case (reach_init s)
  then show ?case by (simp add: init_abst reach.reach_init)
next
  case (reach_step s t)
  then show ?case using step_abst[OF reach_inv] by (metis reach.reach_step)
qed

end

text \<open>The same for a machine given as a function on events, run over a list of them.\<close>

locale event_machine =
  fixes step :: "'s \<Rightarrow> 'e \<Rightarrow> 's" and inv :: "'s \<Rightarrow> bool"
  assumes event_inv: "inv s \<Longrightarrow> inv (step s e)"
begin

lemma run_inv: "inv s \<Longrightarrow> inv (foldl step s es)"
  by (induction es arbitrary: s) (auto intro: event_inv)

end

end
