(* ===== verification/Mesh_Crdt.thy ===== *)
theory Mesh_Crdt
  imports Js_Prelude
begin

text \<open>
  The shared state of the devices (\<^verbatim>\<open>client/src/lib/meshCrdt.ts\<close>): a last-writer-wins map
  whose registers are stamped with hybrid logical clocks. Every function of the file is here:
  the order of stamps, the checks on a map read from elsewhere, the merge, the comparison, the
  clock and the pruning of old removals.

  The lemmas show that stamps are linearly ordered by \<open>cmpHlc\<close>, that the merge keeps per key the
  register with the higher stamp, and (through the locale \<open>lww_merge\<close>, interpreted on \<open>merge\<close>)
  that copies merged in any order and any number of times end up the same.
\<close>

section \<open>Stamps, registers, maps\<close>

datatype hlc = Hlc (hlc_t: rat) (hlc_c: rat) (hlc_d: string)

record reg =
  reg_v :: json
  reg_h :: hlc

type_synonym lww_map = "reg jsobj"

definition cmpHlc :: "hlc \<Rightarrow> hlc \<Rightarrow> int" where
  "cmpHlc a b =
     (if hlc_t a \<noteq> hlc_t b then (if hlc_t a < hlc_t b then -1 else 1)
      else if hlc_c a \<noteq> hlc_c b then (if hlc_c a < hlc_c b then -1 else 1)
      else if hlc_d a \<noteq> hlc_d b then (if hlc_d a < hlc_d b then -1 else 1)
      else 0)"

text \<open>Stamps as an instance of the library's linear orders; \<open>cmpHlc\<close> compares in it.\<close>

instantiation hlc :: linorder
begin

definition less_eq_hlc :: "hlc \<Rightarrow> hlc \<Rightarrow> bool" where
  "less_eq_hlc a b \<longleftrightarrow> cmpHlc a b \<le> 0"

definition less_hlc :: "hlc \<Rightarrow> hlc \<Rightarrow> bool" where
  "less_hlc a b \<longleftrightarrow> cmpHlc a b < 0"

instance
proof
  fix x y z :: hlc
  show "(x < y) = (x \<le> y \<and> \<not> y \<le> x)"
    by (auto simp: less_eq_hlc_def less_hlc_def cmpHlc_def split: if_splits)
  show "x \<le> x"
    by (simp add: less_eq_hlc_def cmpHlc_def)
  show "x \<le> y \<Longrightarrow> y \<le> z \<Longrightarrow> x \<le> z"
    by (auto simp: less_eq_hlc_def cmpHlc_def split: if_splits)
  show "x \<le> y \<Longrightarrow> y \<le> x \<Longrightarrow> x = y"
    by (cases x; cases y) (auto simp: less_eq_hlc_def cmpHlc_def split: if_splits)
  show "x \<le> y \<or> y \<le> x"
    by (auto simp: less_eq_hlc_def cmpHlc_def split: if_splits)
qed

end

lemma cmpHlc_pos_iff: "cmpHlc a b > 0 \<longleftrightarrow> b < a"
  by (auto simp: less_hlc_def cmpHlc_def split: if_splits)

lemma cmpHlc_zero_iff: "cmpHlc a b = 0 \<longleftrightarrow> a = b"
  by (cases a; cases b) (auto simp: cmpHlc_def)

lemma cmpHlc_range: "cmpHlc a b \<in> {-1, 0, 1}"
  by (simp add: cmpHlc_def)

interpretation hlc_cmp: js_comparator cmpHlc
proof
  fix a b c :: hlc
  show "cmpHlc a b < 0 \<longleftrightarrow> cmpHlc b a > 0"
    by (simp add: cmpHlc_pos_iff less_hlc_def)
  show "cmpHlc a b \<le> 0 \<Longrightarrow> cmpHlc b c \<le> 0 \<Longrightarrow> cmpHlc a c \<le> 0"
    using order_trans[of a b c] by (simp add: less_eq_hlc_def)
qed

section \<open>A map read from elsewhere\<close>

definition isHlc :: "json \<Rightarrow> bool" where
  "isHlc x =
     (case x of
        JObj h \<Rightarrow>
          (case (map_of h ''t'', map_of h ''c'', map_of h ''d'') of
             (Some (JNum (Some _)), Some (JNum (Some _)), Some (JStr _)) \<Rightarrow> True
           | _ \<Rightarrow> False)
      | _ \<Rightarrow> False)"

text \<open>\<^verbatim>\<open>{ t: reg.h.t, c: reg.h.c, d: reg.h.d }\<close> of a checked stamp.\<close>

definition read_hlc :: "json \<Rightarrow> hlc option" where
  "read_hlc x =
     (case x of
        JObj h \<Rightarrow>
          (case (map_of h ''t'', map_of h ''c'', map_of h ''d'') of
             (Some (JNum (Some t)), Some (JNum (Some c)), Some (JStr d)) \<Rightarrow> Some (Hlc t c d)
           | _ \<Rightarrow> None)
      | _ \<Rightarrow> None)"

lemma isHlc_iff_read: "isHlc x \<longleftrightarrow> read_hlc x \<noteq> None"
  by (auto simp: isHlc_def read_hlc_def split: json.splits option.splits)

text \<open>One entry of \<^verbatim>\<open>asMap\<close>'s loop; \<open>None\<close> where the code continues with the next.\<close>

definition read_reg :: "json \<Rightarrow> reg option" where
  "read_reg r =
     (case r of
        JObj f \<Rightarrow>
          (case (map_of f ''v'', map_of f ''h'') of
             (Some v, Some h) \<Rightarrow>
               (if isHlc h then map_option (\<lambda>st. \<lparr>reg_v = v, reg_h = st\<rparr>) (read_hlc h) else None)
           | _ \<Rightarrow> None)
      | _ \<Rightarrow> None)"

text \<open>\<open>None\<close> is \<^verbatim>\<open>undefined\<close>. Writing \<^verbatim>\<open>out["__proto__"]\<close> sets the prototype and no property.\<close>

definition asMap_step :: "string \<times> json \<Rightarrow> lww_map \<Rightarrow> lww_map" where
  "asMap_step e out =
     (case read_reg (snd e) of
        None \<Rightarrow> out
      | Some g \<Rightarrow> if fst e = ''__proto__'' then out else AList.update (fst e) g out)"

definition asMap :: "json option \<Rightarrow> lww_map" where
  "asMap raw = (case raw of Some (JObj es) \<Rightarrow> fold asMap_step es [] | _ \<Rightarrow> [])"

section \<open>Merging\<close>

definition merge_step :: "string \<Rightarrow> reg \<Rightarrow> lww_map \<Rightarrow> lww_map result" where
  "merge_step k r out =
     (case js_get out k of
        Undefined \<Rightarrow> Inr (AList.update k r out)
      | Inherited \<Rightarrow> Inl TypeError
      | Own cur \<Rightarrow> Inr (if cmpHlc (reg_h r) (reg_h cur) > 0 then AList.update k r out else out))"

fun merge_loop :: "lww_map \<Rightarrow> lww_map \<Rightarrow> lww_map result" where
  "merge_loop out [] = Inr out"
| "merge_loop out ((k, r) # es) =
     (case merge_step k r out of Inl e \<Rightarrow> Inl e | Inr out' \<Rightarrow> merge_loop out' es)"

definition merge :: "lww_map \<Rightarrow> lww_map \<Rightarrow> lww_map result" where
  "merge a b = merge_loop a b"

text \<open>\<^verbatim>\<open>JSON.stringify\<close> writes a number that is not finite as \<^verbatim>\<open>null\<close>; two values are written the
  same exactly when they agree after that.\<close>

fun json_norm :: "json \<Rightarrow> json" where
  "json_norm (JNum None) = JNull"
| "json_norm (JArr xs) = JArr (map json_norm xs)"
| "json_norm (JObj es) = JObj (map (\<lambda>(k, v). (k, json_norm v)) es)"
| "json_norm j = j"

definition same_json :: "json \<Rightarrow> json \<Rightarrow> bool" where
  "same_json x y \<longleftrightarrow> json_norm x = json_norm y"

fun sameMap_loop :: "lww_map \<Rightarrow> lww_map \<Rightarrow> bool result" where
  "sameMap_loop [] b = Inr True"
| "sameMap_loop ((k, x) # ks) b =
     (case js_get b k of
        Undefined \<Rightarrow> Inr False
      | Inherited \<Rightarrow> Inl TypeError
      | Own y \<Rightarrow>
          if cmpHlc (reg_h x) (reg_h y) \<noteq> 0 \<or> \<not> same_json (reg_v x) (reg_v y) then Inr False
          else sameMap_loop ks b)"

definition sameMap :: "lww_map \<Rightarrow> lww_map \<Rightarrow> bool result" where
  "sameMap a b = (if length a \<noteq> length b then Inr False else sameMap_loop a b)"

definition maxHlc :: "lww_map \<Rightarrow> hlc option" where
  "maxHlc m =
     fold (\<lambda>(k, r) best.
             case best of
               None \<Rightarrow> Some (reg_h r)
             | Some b \<Rightarrow> if cmpHlc (reg_h r) b > 0 then Some (reg_h r) else best)
       m None"

section \<open>The clock\<close>

record clock =
  device :: string
  last_t :: rat
  last_c :: rat

text \<open>\<open>w\<close> is what \<^verbatim>\<open>wall()\<close> returns.\<close>

definition clock_now :: "rat \<Rightarrow> clock \<Rightarrow> clock \<times> hlc" where
  "clock_now w c =
     (let c' = (if w > last_t c then c\<lparr>last_t := w, last_c := 0\<rparr>
                else c\<lparr>last_c := last_c c + 1\<rparr>)
      in (c', Hlc (last_t c') (last_c c') (device c')))"

definition clock_observe :: "hlc option \<Rightarrow> clock \<Rightarrow> clock" where
  "clock_observe h c =
     (case h of
        None \<Rightarrow> c
      | Some s \<Rightarrow>
          if hlc_t s > last_t c \<or> hlc_t s = last_t c \<and> hlc_c s > last_c c
          then c\<lparr>last_t := hlc_t s, last_c := hlc_c s\<rparr> else c)"

definition TOMBSTONE_TTL_MS :: rat where
  "TOMBSTONE_TTL_MS = 365 * 86400000"

definition pruneTombstones :: "lww_map \<Rightarrow> rat \<Rightarrow> lww_map" where
  "pruneTombstones m now =
     filter (\<lambda>(k, r). \<not> (reg_v r = JNull \<and> now - hlc_t (reg_h r) > TOMBSTONE_TTL_MS)) m"

section \<open>The merge as a semilattice\<close>

text \<open>The register a merge keeps of two: the one with the higher stamp, the first on a tie.\<close>

fun newer :: "('r \<Rightarrow> 's::linorder) \<Rightarrow> 'r option \<Rightarrow> 'r option \<Rightarrow> 'r option" where
  "newer st None y = y"
| "newer st (Some a) None = Some a"
| "newer st (Some a) (Some b) = (if st a < st b then Some b else Some a)"

text \<open>\<open>x\<close> is a register of \<open>R\<close> with the highest stamp (none when \<open>R\<close> is empty).\<close>

definition newest :: "('r \<Rightarrow> 's::linorder) \<Rightarrow> 'r set \<Rightarrow> 'r option \<Rightarrow> bool" where
  "newest st R x \<longleftrightarrow> (case x of None \<Rightarrow> R = {} | Some r \<Rightarrow> r \<in> R \<and> (\<forall>r' \<in> R. st r' \<le> st r))"

lemma newest_newer:
  "newest st A x \<Longrightarrow> newest st B y \<Longrightarrow> newest st (A \<union> B) (newer st x y)"
  by (cases x; cases y) (auto simp: newest_def)

lemma newest_unique:
  assumes "newest st R x" "newest st R y"
    and "\<And>r r'. r \<in> R \<Longrightarrow> r' \<in> R \<Longrightarrow> st r = st r' \<Longrightarrow> r = r'"
  shows "x = y"
proof (cases x; cases y)
  fix a b assume xy: "x = Some a" "y = Some b"
  with assms(1,2) have "a \<in> R" "b \<in> R" "st a = st b"
    by (auto simp: newest_def intro: antisym)
  with xy assms(3) show ?thesis by blast
qed (use assms(1,2) in \<open>auto simp: newest_def\<close>)

text \<open>How copies meet: every way to merge copies pairwise, in any order and any number of times.\<close>

datatype 'm sync = Copy 'm | Meet "'m sync" "'m sync"

primrec copies :: "'m sync \<Rightarrow> 'm set" where
  "copies (Copy m) = {m}"
| "copies (Meet s t) = copies s \<union> copies t"

primrec outcome :: "('m \<Rightarrow> 'm \<Rightarrow> 'e + 'm) \<Rightarrow> 'm sync \<Rightarrow> 'e + 'm" where
  "outcome mg (Copy m) = Inr m"
| "outcome mg (Meet s t) =
     (case outcome mg s of
        Inl e \<Rightarrow> Inl e
      | Inr a \<Rightarrow> (case outcome mg t of Inl e \<Rightarrow> Inl e | Inr b \<Rightarrow> mg a b))"

locale lww_merge =
  fixes mg :: "'m \<Rightarrow> 'm \<Rightarrow> 'e + 'm"
    and look :: "'m \<Rightarrow> 'k \<Rightarrow> 'r option"
    and st :: "'r \<Rightarrow> 's::linorder"
    and ok :: "'m \<Rightarrow> bool"
  assumes merge_law:
    "ok a \<Longrightarrow> ok b \<Longrightarrow>
       \<exists>m. mg a b = Inr m \<and> ok m \<and> (\<forall>k. look m k = newer st (look a k) (look b k))"
begin

lemma outcome_newest:
  assumes "\<forall>m \<in> copies s. ok m"
  shows "\<exists>m. outcome mg s = Inr m \<and> ok m \<and>
           (\<forall>k. newest st {r. \<exists>c \<in> copies s. look c k = Some r} (look m k))"
  using assms
proof (induction s)
  case (Copy m)
  have "newest st {r. \<exists>c \<in> copies (Copy m). look c k = Some r} (look m k)" for k
    by (cases "look m k") (auto simp: newest_def)
  with Copy show ?case by simp
next
  case (Meet s t)
  then obtain a b where a: "outcome mg s = Inr a" "ok a"
      "\<And>k. newest st {r. \<exists>c \<in> copies s. look c k = Some r} (look a k)"
    and b: "outcome mg t = Inr b" "ok b"
      "\<And>k. newest st {r. \<exists>c \<in> copies t. look c k = Some r} (look b k)"
    by auto
  obtain m where m: "mg a b = Inr m" "ok m" "\<And>k. look m k = newer st (look a k) (look b k)"
    using merge_law[OF a(2) b(2)] by blast
  have "{r. \<exists>c \<in> copies (Meet s t). look c k = Some r} =
        {r. \<exists>c \<in> copies s. look c k = Some r} \<union> {r. \<exists>c \<in> copies t. look c k = Some r}" for k
    by auto
  then have "newest st {r. \<exists>c \<in> copies (Meet s t). look c k = Some r} (look m k)" for k
    using newest_newer[OF a(3) b(3), of k k] m(3) by simp
  with a b m show ?case by simp
qed

text \<open>The copies agree where they carry the same stamp for the same key (a stamp names one change).\<close>

definition coherent :: "'m set \<Rightarrow> bool" where
  "coherent M \<longleftrightarrow>
     (\<forall>a \<in> M. \<forall>b \<in> M. \<forall>k r r'.
        look a k = Some r \<longrightarrow> look b k = Some r' \<longrightarrow> st r = st r' \<longrightarrow> r = r')"

lemma converge:
  assumes ok: "\<forall>m \<in> copies s. ok m" and same: "copies s = copies t" and coh: "coherent (copies s)"
  shows "\<exists>m n. outcome mg s = Inr m \<and> outcome mg t = Inr n \<and> look m = look n"
proof -
  obtain m where m: "outcome mg s = Inr m"
      "\<And>k. newest st {r. \<exists>c \<in> copies s. look c k = Some r} (look m k)"
    using outcome_newest[OF ok] by blast
  obtain n where n: "outcome mg t = Inr n"
      "\<And>k. newest st {r. \<exists>c \<in> copies s. look c k = Some r} (look n k)"
    using outcome_newest[of t] ok same by auto
  have "look m k = look n k" for k
  proof (rule newest_unique[OF m(2) n(2)])
    fix r r'
    assume "r \<in> {r. \<exists>c \<in> copies s. look c k = Some r}" "r' \<in> {r. \<exists>c \<in> copies s. look c k = Some r}"
      and "st r = st r'"
    with coh show "r = r'" unfolding coherent_def by blast
  qed
  with m(1) n(1) show ?thesis by blast
qed

end

section \<open>The code's merge keeps the contract\<close>

definition wf_map :: "lww_map \<Rightarrow> bool" where
  "wf_map m \<longleftrightarrow> distinct (map fst m) \<and> plain_keys m"

lemma wf_map_Cons:
  "wf_map ((k, r) # m) \<longleftrightarrow>
     k \<notin> fst ` set m \<and> k \<notin> set object_prototype_names \<and> wf_map m"
  by (auto simp: wf_map_def)

lemma merge_step_plain:
  assumes "k \<notin> set object_prototype_names" "wf_map out"
  shows "\<exists>m. merge_step k r out = Inr m \<and> wf_map m \<and>
           map_of m = (map_of out)(k := newer reg_h (map_of out k) (Some r))"
proof (cases "map_of out k")
  case None
  with assms have "merge_step k r out = Inr (AList.update k r out)"
    by (simp add: merge_step_def js_get_def)
  with None assms show ?thesis
    by (simp add: wf_map_def distinct_update map_of_update fun_upd_def)
next
  case (Some cur)
  then have "merge_step k r out =
      Inr (if reg_h cur < reg_h r then AList.update k r out else out)"
    by (simp add: merge_step_def js_get_def cmpHlc_pos_iff)
  with Some assms show ?thesis
    by (auto simp: wf_map_def distinct_update map_of_update fun_eq_iff)
qed

lemma merge_loop_plain:
  assumes "wf_map out" "wf_map es"
  shows "\<exists>m. merge_loop out es = Inr m \<and> wf_map m \<and>
           (\<forall>k. map_of m k = newer reg_h (map_of out k) (map_of es k))"
  using assms
proof (induction es arbitrary: out)
  case Nil
  have "newer reg_h x None = x" for x :: "reg option" by (cases x) auto
  with Nil show ?case by simp
next
  case (Cons e es)
  obtain k r where e: "e = (k, r)" by fastforce
  with Cons.prems have k: "k \<notin> set object_prototype_names" "k \<notin> fst ` set es" "wf_map es"
    by (auto simp: wf_map_Cons)
  obtain out' where o: "merge_step k r out = Inr out'" "wf_map out'"
      "map_of out' = (map_of out)(k := newer reg_h (map_of out k) (Some r))"
    using merge_step_plain[OF k(1) Cons.prems(1), of r] by blast
  obtain m where m: "merge_loop out' es = Inr m" "wf_map m"
      "\<And>k'. map_of m k' = newer reg_h (map_of out' k') (map_of es k')"
    using Cons.IH[OF o(2) k(3)] by blast
  have "map_of es k = None" using k(2) by (simp add: map_of_eq_None_iff)
  moreover have "newer reg_h x None = x" for x :: "reg option" by (cases x) auto
  ultimately have "map_of m k' = newer reg_h (map_of out k') (map_of (e # es) k')" for k'
    by (simp add: m(3) o(3) e)
  with m o e show ?case by simp
qed

lemma merge_plain:
  "wf_map a \<Longrightarrow> wf_map b \<Longrightarrow>
     \<exists>m. merge a b = Inr m \<and> wf_map m \<and> (\<forall>k. map_of m k = newer reg_h (map_of a k) (map_of b k))"
  unfolding merge_def by (rule merge_loop_plain)

interpretation mesh: lww_merge merge map_of reg_h wf_map
  by unfold_locales (rule merge_plain)

text \<open>Maps read from a document are well formed, so they may be merged, unless they hold a name a
  plain object inherits.\<close>

lemma asMap_step_keys: "fst ` set (asMap_step e out) \<subseteq> insert (fst e) (fst ` set out)"
  by (auto simp: asMap_step_def dom_update split: option.splits)

lemma asMap_fold_keys: "fst ` set (fold asMap_step es out) \<subseteq> fst ` set out \<union> fst ` set es"
proof (induction es arbitrary: out)
  case (Cons e es)
  show ?case using Cons.IH[of "asMap_step e out"] asMap_step_keys[of e out] by auto
qed simp

lemma asMap_fold_distinct:
  "distinct (map fst out) \<Longrightarrow> distinct (map fst (fold asMap_step es out))"
  by (induction es arbitrary: out) (auto simp: asMap_step_def distinct_update split: option.splits)

lemma asMap_distinct: "distinct (map fst (asMap raw))"
  unfolding asMap_def by (auto simp: asMap_fold_distinct split: option.splits json.splits)

lemma asMap_wf:
  assumes "\<forall>k \<in> fst ` set es. k \<notin> set object_prototype_names"
  shows "wf_map (asMap (Some (JObj es)))"
proof -
  have "fst ` set (asMap (Some (JObj es))) \<subseteq> fst ` set es"
    using asMap_fold_keys[of es "[]"] by (simp add: asMap_def)
  with assms asMap_distinct[of "Some (JObj es)"] show ?thesis
    unfolding wf_map_def plain_keys_def by blast
qed

section \<open>The clock\<close>

text \<open>What a clock is asked to do: make a stamp at wall time \<open>w\<close>, or move past one seen elsewhere.\<close>

datatype clock_event = Now rat | Observe "hlc option"

text \<open>Runs a clock; the stamps it made or saw are collected.\<close>

fun clock_run :: "clock \<Rightarrow> clock_event list \<Rightarrow> clock \<times> hlc list" where
  "clock_run c [] = (c, [])"
| "clock_run c (Now w # es) =
     (let (c', h) = clock_now w c; (c'', hs) = clock_run c' es in (c'', h # hs))"
| "clock_run c (Observe None # es) = clock_run (clock_observe None c) es"
| "clock_run c (Observe (Some h) # es) =
     (let (c'', hs) = clock_run (clock_observe (Some h) c) es in (c'', h # hs))"

definition before_clock :: "hlc \<Rightarrow> clock \<Rightarrow> bool" where
  "before_clock h c \<longleftrightarrow> hlc_t h < last_t c \<or> hlc_t h = last_t c \<and> hlc_c h \<le> last_c c"

lemmas clock_defs = clock_now_def clock_observe_def before_clock_def Let_def

lemma before_clock_now:
  "before_clock h c \<Longrightarrow> before_clock h (fst (clock_now w c))"
  by (auto simp: clock_defs)

lemma before_clock_observe: "before_clock h c \<Longrightarrow> before_clock h (clock_observe s c)"
  by (auto simp: clock_defs split: option.splits)

lemma before_clock_made: "before_clock (snd (clock_now w c)) (fst (clock_now w c))"
  by (auto simp: clock_defs)

lemma before_clock_seen: "before_clock h (clock_observe (Some h) c)"
  by (auto simp: clock_defs)

lemma now_after: "before_clock h c \<Longrightarrow> h < snd (clock_now w c)"
  by (auto simp: clock_defs less_hlc_def cmpHlc_def)

lemma clock_run_before:
  "clock_run c es = (c', hs) \<Longrightarrow>
     (\<forall>h. before_clock h c \<longrightarrow> before_clock h c') \<and> (\<forall>h \<in> set hs. before_clock h c')"
proof (induction c es arbitrary: c' hs rule: clock_run.induct)
  case (2 c w es)
  obtain d h where d: "clock_now w c = (d, h)" by fastforce
  then obtain hs' where r: "clock_run d es = (c', hs')" "hs = h # hs'"
    using "2.prems" by (auto split: prod.splits)
  show ?case
    using "2.IH"[OF d[symmetric] refl r(1)] before_clock_now[of _ c w] before_clock_made[of w c] d r(2)
    by auto
next
  case (4 c h es)
  then obtain hs' where r: "clock_run (clock_observe (Some h) c) es = (c', hs')" "hs = h # hs'"
    by (auto split: prod.splits)
  show ?case
    using "4.IH"[OF r(1)] before_clock_observe before_clock_seen r(2) by auto
qed (auto simp: before_clock_observe)

section \<open>Comparing, the highest stamp, pruning\<close>

lemma sameMap_loop_iff:
  "plain_keys a \<Longrightarrow> sameMap_loop a b =
     Inr (\<forall>(k, x) \<in> set a. \<exists>y. map_of b k = Some y \<and> reg_h x = reg_h y \<and> same_json (reg_v x) (reg_v y))"
proof (induction a)
  case (Cons e a)
  obtain k x where e: "e = (k, x)" by fastforce
  with Cons.prems have "k \<notin> set object_prototype_names" "plain_keys a" by auto
  with Cons.IH e show ?case
    by (auto simp: js_get_plain cmpHlc_zero_iff split: option.splits)
qed simp

text \<open>Two maps are the same when neither is longer and every register of the first has its equal in
  the second: then the second has no other key either.\<close>

lemma sameMap_iff:
  assumes "wf_map a" "wf_map b"
  shows "sameMap a b =
     Inr (\<forall>k. rel_option (\<lambda>x y. reg_h x = reg_h y \<and> same_json (reg_v x) (reg_v y)) (map_of a k) (map_of b k))"
    (is "_ = Inr ?R")
proof -
  have da: "distinct (map fst a)" and db: "distinct (map fst b)" and pa: "plain_keys a"
    using assms by (auto simp: wf_map_def)
  let ?E = "\<lambda>x y. reg_h x = reg_h y \<and> same_json (reg_v x) (reg_v y)"
  let ?L = "\<forall>(k, x) \<in> set a. \<exists>y. map_of b k = Some y \<and> ?E x y"
  have len: "length m = card (dom (map_of m))" if "distinct (map fst m)" for m :: lww_map
    using distinct_card[OF that] by (simp add: dom_map_of_conv_image_fst)
  have L: "?L \<longleftrightarrow> (\<forall>k x. map_of a k = Some x \<longrightarrow> (\<exists>y. map_of b k = Some y \<and> ?E x y))"
    using da by (auto simp: map_of_eq_Some_iff)
  have none: "rel_option ?E x y \<Longrightarrow> x = None \<longleftrightarrow> y = None" for x y by (cases x; cases y) auto
  have R1: "dom (map_of a) = dom (map_of b)" if "?R"
  proof (rule set_eqI)
    fix k show "k \<in> dom (map_of a) \<longleftrightarrow> k \<in> dom (map_of b)"
      using none[OF that[rule_format, of k]] by (simp add: domIff)
  qed
  have R2: "?L" if "?R"
    unfolding L
  proof (intro allI impI)
    fix k x assume "map_of a k = Some x"
    then show "\<exists>y. map_of b k = Some y \<and> ?E x y"
      using that[rule_format, of k] by (cases "map_of b k") auto
  qed
  have "?R" if l: "?L" and n: "length a = length b"
  proof
    fix k
    from l have l': "map_of a k = Some x \<Longrightarrow> \<exists>y. map_of b k = Some y \<and> ?E x y" for k x
      unfolding L by blast
    then have sub: "dom (map_of a) \<subseteq> dom (map_of b)" unfolding dom_def by fast
    moreover have "card (dom (map_of a)) = card (dom (map_of b))" using n len[OF da] len[OF db] by simp
    ultimately have "dom (map_of a) = dom (map_of b)" by (simp add: card_subset_eq finite_dom_map_of)
    then have "map_of a k = None \<longleftrightarrow> map_of b k = None" by (metis domIff)
    then show "rel_option ?E (map_of a k) (map_of b k)"
      using l'[of k] by (cases "map_of a k"; cases "map_of b k") auto
  qed
  then have "?R \<longleftrightarrow> length a = length b \<and> ?L"
    using R1 R2 len[OF da] len[OF db] by auto
  then show ?thesis
    using sameMap_loop_iff[OF pa, of b] by (simp add: sameMap_def)
qed

lemma maxHlc_newest: "newest id (reg_h ` snd ` set m) (maxHlc m)"
proof -
  let ?f = "\<lambda>(k :: string, r) best. case best of
              None \<Rightarrow> Some (reg_h r)
            | Some b \<Rightarrow> if cmpHlc (reg_h r) b > 0 then Some (reg_h r) else best"
  have step: "?f (k, r) b = newer id b (Some (reg_h r))" for k r b
    by (cases b) (auto simp: cmpHlc_pos_iff)
  have "newest id (S \<union> reg_h ` snd ` set m) (fold ?f m b)" if "newest id S b" for S b
    using that
  proof (induction m arbitrary: S b)
    case (Cons e m)
    obtain k r where e: "e = (k, r)" by fastforce
    have "newest id {reg_h r} (Some (reg_h r))" by (simp add: newest_def)
    then have "newest id (S \<union> {reg_h r}) (?f (k, r) b)"
      unfolding step by (rule newest_newer[OF Cons.prems])
    from Cons.IH[OF this] e show ?case by simp
  qed simp
  from this[of "{}" None] show ?thesis by (simp add: maxHlc_def newest_def)
qed

lemma map_of_pruneTombstones:
  assumes "distinct (map fst m)"
  shows "map_of (pruneTombstones m now) k =
     (case map_of m k of
        Some r \<Rightarrow> if reg_v r = JNull \<and> now - hlc_t (reg_h r) > TOMBSTONE_TTL_MS then None else Some r
      | None \<Rightarrow> None)"
  using assms
proof (induction m)
  case (Cons e m)
  obtain k' r where e: "e = (k', r)" by fastforce
  have "map_of (pruneTombstones m now) k' = None" if "k' \<notin> fst ` set m"
    using that by (auto simp: pruneTombstones_def map_of_eq_None_iff)
  with Cons e show ?case
    by (auto simp: pruneTombstones_def map_of_eq_None_iff split: option.splits)
qed (simp add: pruneTombstones_def)

lemma wf_pruneTombstones: "wf_map m \<Longrightarrow> wf_map (pruneTombstones m now)"
  unfolding wf_map_def pruneTombstones_def plain_keys_def
  by (auto simp: distinct_map_filter)

section \<open>Properties\<close>

text \<open>C4. Copies of the shared map converge: two devices (or consoles) that merged the same copies,
  in whatever order, however often and through however many others, hold the same register for
  every key. The copies carry one register per stamp (the clock never repeats a stamp) and no key
  that a plain JavaScript object inherits.\<close>

theorem merge_converges:
  assumes "\<forall>m \<in> copies s. wf_map m" and "copies s = copies t"
    and "\<forall>a \<in> copies s. \<forall>b \<in> copies s. \<forall>k r r'.
           map_of a k = Some r \<longrightarrow> map_of b k = Some r' \<longrightarrow> reg_h r = reg_h r' \<longrightarrow> r = r'"
  shows "\<exists>m n. outcome merge s = Inr m \<and> outcome merge t = Inr n \<and> map_of m = map_of n"
  by (rule mesh.converge[OF assms(1,2)]) (use assms(3) in \<open>simp add: mesh.coherent_def\<close>)

text \<open>Two devices changed the same setting; one of them merges twice.\<close>

definition example_a :: lww_map where
  "example_a = [(''p:theme'', \<lparr>reg_v = JStr ''dark'', reg_h = Hlc 5 0 ''A''\<rparr>)]"

definition example_b :: lww_map where
  "example_b =
     [(''p:theme'', \<lparr>reg_v = JNull, reg_h = Hlc 5 1 ''B''\<rparr>),
      (''c:10.0.0.2'', \<lparr>reg_v = JNum (Some 1), reg_h = Hlc 2 0 ''B''\<rparr>)]"

lemmas example_defs = example_a_def example_b_def wf_map_def object_prototype_names_def plain_keys_def

theorem merge_converges_witness:
  "\<exists>m n. outcome merge (Meet (Copy example_a) (Copy example_b)) = Inr m \<and>
         outcome merge (Meet (Copy example_b) (Meet (Copy example_a) (Copy example_a))) = Inr n \<and>
         map_of m = map_of n"
  by (rule merge_converges) (auto simp: example_defs split: if_splits)



text \<open>C5. A removal sticks: where every other copy's register of the key has an earlier stamp, every
  way of merging the copies keeps the removal, and pruning keeps it for \<open>TOMBSTONE_TTL_MS\<close> after
  its stamp and drops it after that.\<close>

theorem removal_sticks:
  assumes ok: "\<forall>c \<in> copies s. wf_map c" and a: "a \<in> copies s" "map_of a k = Some r"
    and null: "reg_v r = JNull"
    and latest: "\<forall>c \<in> copies s. \<forall>r'. map_of c k = Some r' \<longrightarrow> r' = r \<or> cmpHlc (reg_h r') (reg_h r) < 0"
  shows "\<exists>m. outcome merge s = Inr m \<and> map_of m k = Some r \<and>
           map_of (pruneTombstones m now) k =
             (if now - hlc_t (reg_h r) > TOMBSTONE_TTL_MS then None else Some r)"
proof -
  obtain m where m: "outcome merge s = Inr m" "wf_map m"
      "newest reg_h {q. \<exists>c \<in> copies s. map_of c k = Some q} (map_of m k)"
    using mesh.outcome_newest[OF ok] by blast
  from m(3) a obtain q c where q: "map_of m k = Some q" "c \<in> copies s" "map_of c k = Some q"
      "reg_h r \<le> reg_h q"
    by (auto simp: newest_def split: option.splits)
  then have "q = r" using latest by (force simp: less_hlc_def[symmetric])
  with q m null show ?thesis
    by (auto simp: map_of_pruneTombstones wf_map_def)
qed

theorem removal_sticks_witness:
  "\<exists>m. outcome merge (Meet (Copy example_a) (Copy example_b)) = Inr m \<and>
       map_of m ''p:theme'' = Some \<lparr>reg_v = JNull, reg_h = Hlc 5 1 ''B''\<rparr> \<and>
       map_of (pruneTombstones m 1000) ''p:theme'' = Some \<lparr>reg_v = JNull, reg_h = Hlc 5 1 ''B''\<rparr>"
  using removal_sticks[of "Meet (Copy example_a) (Copy example_b)" example_b "''p:theme''"
          "\<lparr>reg_v = JNull, reg_h = Hlc 5 1 ''B''\<rparr>" 1000]
  by (simp add: example_defs cmpHlc_def TOMBSTONE_TTL_MS_def)

text \<open>A register under a name that plain objects inherit makes the merge raise: the copy that
  lacks it finds the inherited function instead of \<^verbatim>\<open>undefined\<close> and reads the stamp of that.\<close>

theorem merge_inherited_name:
  assumes "k \<in> set object_prototype_names" and "map_of a k = None"
  shows "merge a [(k, r)] = Inl TypeError"
  using assms by (simp add: merge_def merge_step_def js_get_def)

theorem merge_inherited_name_witness:
  "merge [] [(''constructor'', \<lparr>reg_v = JNull, reg_h = Hlc 1 0 ''A''\<rparr>)] = Inl TypeError"
  by (rule merge_inherited_name) (simp_all add: object_prototype_names_def)

end
