(* ===== verification/Addr.thy ===== *)
theory Addr
  imports Js_Prelude
begin

text \<open>
  The addresses a console is known by (\<^verbatim>\<open>client/src/lib/addr.ts\<close>): the bare host of anything a
  caller holds, and the address the app sends. The queue, the sharing of settings and the console
  list key a console by \<open>hostOf\<close>, so the lemmas show that it is stable: taking the host of an
  address the app built gives the host it was built from.
\<close>

definition PS5_LOADER_PORT :: nat where
  "PS5_LOADER_PORT = 9021"

definition PAYLOAD_MANAGER_PORT :: nat where
  "PAYLOAD_MANAGER_PORT = 8084"

definition PS5_AVA1_PORT :: nat where
  "PS5_AVA1_PORT = 9120"

definition isBareIpv6 :: "string \<Rightarrow> bool" where
  "isBareIpv6 addr =
     (let colons = count_list addr CHR '':'' in
      if colons < 2 then False
      else CHR ''.'' \<notin> set addr \<or> str_includes ''::'' addr \<or> colons > 2)"

definition hostOf :: "string \<Rightarrow> string" where
  "hostOf addr =
     (if addr = [] then []
      else if starts_with ''['' addr then
        (case index_of CHR '']'' addr of
           Some e \<Rightarrow> if e > 0 then take (e - 1) (drop 1 addr) else drop 1 addr
         | None \<Rightarrow> drop 1 addr)
      else if isBareIpv6 addr then addr
      else (case index_of CHR '':'' addr of None \<Rightarrow> addr | Some i \<Rightarrow> take i addr))"

definition scheme_start :: "char \<Rightarrow> bool" where
  "scheme_start c \<longleftrightarrow> (let n = of_char (lower_char c) :: nat in of_char c < (128::nat) \<and> 97 \<le> n \<and> n \<le> 122)"

definition scheme_char :: "char \<Rightarrow> bool" where
  "scheme_char c \<longleftrightarrow> scheme_start c \<or> is_digit c \<or> c \<in> set ''+.-''"

text \<open>\<^verbatim>\<open>replace(/^[a-z][a-z0-9+.-]*:\/\//i, "")\<close>.\<close>

definition strip_scheme :: "string \<Rightarrow> string" where
  "strip_scheme s =
     (if s \<noteq> [] \<and> scheme_start (hd s) \<and> starts_with ''://'' (dropWhile scheme_char s)
      then drop 3 (dropWhile scheme_char s) else s)"

definition cleanConsoleAddress :: "string \<Rightarrow> string" where
  "cleanConsoleAddress raw =
     hostOf (takeWhile (\<lambda>c. c \<notin> set ''/?#'') (strip_scheme (trim raw)))"

definition withPort :: "string \<Rightarrow> nat \<Rightarrow> string" where
  "withPort host port =
     (let bare = hostOf host in
      if bare = [] then []
      else if CHR '':'' \<in> set bare \<and> \<not> starts_with ''['' bare
        then ''['' @ bare @ '']:'' @ show_nat port
        else bare @ '':'' @ show_nat port)"

definition consoleAddr :: "string \<Rightarrow> string" where
  "consoleAddr host =
     (let bare = hostOf host in
      if CHR '':'' \<in> set bare then withPort bare PS5_AVA1_PORT else bare)"

section \<open>Hosts\<close>

text \<open>A host the app can key a console by: a name or IPv4 address, or an IPv6 literal.\<close>

definition plain_host :: "string \<Rightarrow> bool" where
  "plain_host b \<longleftrightarrow>
     CHR ''['' \<notin> set b \<and> CHR '']'' \<notin> set b \<and> (CHR '':'' \<in> set b \<longrightarrow> isBareIpv6 b)"

lemma isBareIpv6_colon: "isBareIpv6 b \<Longrightarrow> CHR '':'' \<in> set b"
  by (rule ccontr) (simp add: isBareIpv6_def count_notin)

lemma hostOf_Nil [simp]: "hostOf [] = []"
  by (simp add: hostOf_def)

lemma starts_with_singleton: "starts_with [c] s \<longleftrightarrow> s \<noteq> [] \<and> hd s = c"
  by (cases s) (auto simp: starts_with_def)

lemma hostOf_unbracketed:
  "\<not> starts_with ''['' b \<Longrightarrow> hostOf b = (if isBareIpv6 b then b else takeWhile (\<lambda>x. x \<noteq> CHR '':'') b)"
  by (simp add: hostOf_def take_index_of)

lemma unbracketed: "CHR ''['' \<notin> set b \<Longrightarrow> \<not> starts_with ''['' b"
  by (cases b) (auto simp: starts_with_singleton)

lemma hostOf_plain [simp]: "plain_host b \<Longrightarrow> hostOf b = b"
  by (auto simp: plain_host_def hostOf_unbracketed unbracketed takeWhile_eq_all_conv)

lemma hostOf_bracketed [simp]:
  "CHR '']'' \<notin> set b \<Longrightarrow> hostOf (CHR ''['' # b @ CHR '']'' # t) = b"
  using index_of_append[of "CHR '']''" "CHR ''['' # b" t]
  by (simp add: hostOf_def starts_with_singleton)

lemma not_bare_one_colon:
  "CHR '':'' \<notin> set b \<Longrightarrow> CHR '':'' \<notin> set p \<Longrightarrow> \<not> isBareIpv6 (b @ CHR '':'' # p)"
  by (simp add: isBareIpv6_def count_notin)

lemma hostOf_with_port [simp]:
  assumes "b \<noteq> []" "CHR '':'' \<notin> set b" "CHR ''['' \<notin> set b" "CHR '':'' \<notin> set p"
  shows "hostOf (b @ CHR '':'' # p) = b"
proof -
  have "\<not> starts_with ''['' (b @ CHR '':'' # p)"
    using assms(1,3) by (cases b) (auto simp: starts_with_singleton)
  moreover have "takeWhile (\<lambda>x. x \<noteq> CHR '':'') (b @ CHR '':'' # p) = b"
    using assms(2) by (subst takeWhile_append2) auto
  ultimately show ?thesis
    using not_bare_one_colon[OF assms(2,4)] by (simp add: hostOf_unbracketed)
qed

lemma withPort_plain:
  "plain_host b \<Longrightarrow> b \<noteq> [] \<Longrightarrow>
     withPort b p = (if CHR '':'' \<in> set b then ''['' @ b @ '']:'' @ show_nat p else b @ '':'' @ show_nat p)"
  using unbracketed[of b] by (auto simp: withPort_def plain_host_def[of b])

lemma consoleAddr_plain:
  "plain_host b \<Longrightarrow>
     consoleAddr b = (if CHR '':'' \<in> set b then ''['' @ b @ '']:'' @ show_nat PS5_AVA1_PORT else b)"
  using withPort_plain[of b PS5_AVA1_PORT] by (cases "b = []") (auto simp: consoleAddr_def)

section \<open>Properties\<close>

text \<open>The address the app sends and the address with a port keep the host: for a caller's
  address whose host is a name, an IPv4 address or an IPv6 literal, \<open>hostOf\<close> of either gives that host
  back (so a queue keyed by host finds its console again), and building the address twice changes
  nothing.\<close>

theorem address_roundtrip:
  assumes "plain_host (hostOf h)"
  shows "hostOf (consoleAddr h) = hostOf h \<and> hostOf (withPort h p) = hostOf h \<and>
         consoleAddr (consoleAddr h) = consoleAddr h"
proof -
  let ?b = "hostOf h"
  have c: "consoleAddr h = consoleAddr ?b" "withPort h p = withPort ?b p"
    using assms by (simp_all add: consoleAddr_def withPort_def)
  have b: "CHR '']'' \<notin> set ?b" "CHR ''['' \<notin> set ?b" using assms by (auto simp: plain_host_def)
  have 1: "hostOf (consoleAddr h) = ?b"
    using assms b by (simp add: c consoleAddr_plain)
  moreover have "hostOf (withPort h p) = ?b"
  proof (cases "?b = []")
    case False
    with assms b show ?thesis by (simp add: c withPort_plain)
  qed (simp add: withPort_def)
  moreover have "consoleAddr (consoleAddr h) = consoleAddr h"
    using 1 by (simp add: consoleAddr_def)
  ultimately show ?thesis by blast
qed

theorem address_roundtrip_witness:
  "hostOf (consoleAddr ''[fe80::1]:9113'') = hostOf ''[fe80::1]:9113'' \<and>
   hostOf (withPort ''[fe80::1]:9113'' 9021) = hostOf ''[fe80::1]:9113'' \<and>
   consoleAddr (consoleAddr ''[fe80::1]:9113'') = consoleAddr ''[fe80::1]:9113''"
  by (rule address_roundtrip)
     (simp add: hostOf_def plain_host_def isBareIpv6_def index_of_def starts_with_def)

end
