(* ===== verification/Mesh_Share.thy ===== *)
theory Mesh_Share
  imports Mesh_Crdt Addr
begin

text \<open>
  Settings and the console list shared through the consoles (\<^verbatim>\<open>client/src/lib/meshShare.ts\<close>, the key
  list of \<^verbatim>\<open>lib/sharedPrefs.ts\<close>, and \<^verbatim>\<open>replaceShared\<close> of \<^verbatim>\<open>state/roster.ts\<close>): a device's values as
  keys of the shared map, the stamping of what changed here, the console list a map describes, what
  a device must change to match it, and one sync with a console (the reads, the rounds, the write
  and its retry).

  A console profile is a property list (\<open>None\<close> is \<^verbatim>\<open>undefined\<close>) whose \<^verbatim>\<open>host\<close> is a string, null or
  missing. The device's stored copy is the parsed JSON text; the wall clock's readings, the random
  ids and the console's replies are arguments. Keys of the map that these functions look up start
  with \<^verbatim>\<open>p:\<close> or \<^verbatim>\<open>c:\<close>, which no plain object inherits; \<^verbatim>\<open>adoptBaseline\<close> looks up any key.
\<close>

section \<open>Keys\<close>

definition SHARED_KEYS :: "string list" where
  "SHARED_KEYS = map ((@) ''ps5upload.'')
     [''desktop-sidebar.pinned.v1'', ''desktop-sidebar.hidden.v1'', ''desktop-sidebar.closed-sections.v1'',
      ''always_overwrite'', ''show_transfer_files'', ''bandwidth_cap_mbps'', ''auto_resume'',
      ''queue_auto_start'', ''wake_for_uploads'', ''keep_ps5_awake_mode'', ''keep_ps5_awake'',
      ''auto_bring_up'', ''system_file_read'', ''rest_after_upload'', ''register_after_upload'',
      ''auto_install_after_upload'', ''auto_remove_after_install'', ''auto_scan_external'',
      ''install_path_fallback'', ''link_install_mode'', ''link_install_insecure'',
      ''convert.compression'', ''convert.full_verify'', ''convert.image_compress'', ''convert.image_format'',
      ''convert.image_level'', ''convert.make'', ''convert.output_dir'', ''convert.verify_chunk_kib'',
      ''save_path'', ''auto_save_backup'', ''beta_features'', ''log_level'', ''notif_prune_days.v1'',
      ''screenshots.png_mode'', ''saved_searches.v1'',
      ''helperStopped'', ''minionOff'', ''c2c.routes.v1'']"

definition MESH_KEYS :: "string list" where
  "MESH_KEYS = filter (\<lambda>k.
     k \<noteq> ''ps5upload.bandwidth_cap_mbps'' \<and> k \<noteq> ''ps5upload.convert.output_dir'' \<and>
     k \<noteq> ''ps5upload.save_path'' \<and> k \<noteq> ''ps5upload.log_level'' \<and>
     k \<noteq> ''ps5upload.c2c.routes.v1'' \<and> k \<noteq> ''ps5upload.minionOff'') SHARED_KEYS"

definition LOCAL_FIELDS :: "string list" where
  "LOCAL_FIELDS = [''id'', ''last_seen_at'', ''last_seen_kernel'', ''last_seen_payload'']"

definition settingKey :: "string \<Rightarrow> string" where
  "settingKey k = ''p:'' @ k"

definition consoleKey :: "string \<Rightarrow> string" where
  "consoleKey host = ''c:'' @ hostOf host"

definition fieldKey :: "string \<Rightarrow> string \<Rightarrow> string" where
  "fieldKey host field = ''c:'' @ hostOf host @ '':'' @ field"

definition isConsoleKey :: "string \<Rightarrow> bool" where
  "isConsoleKey k \<longleftrightarrow> starts_with ''c:'' k \<and> CHR '':'' \<notin> set (drop 2 k)"

section \<open>This device's values\<close>

type_synonym profile = "(string \<times> json option) list"

definition orNull :: "json option \<Rightarrow> json" where
  "orNull v = (case v of None \<Rightarrow> JNull | Some j \<Rightarrow> j)"

definition p_field :: "profile \<Rightarrow> string \<Rightarrow> json" where
  "p_field p f = (case map_of p f of None \<Rightarrow> JNull | Some v \<Rightarrow> orNull v)"

definition p_host :: "profile \<Rightarrow> string" where
  "p_host p = (case p_field p ''host'' of JStr h \<Rightarrow> h | _ \<Rightarrow> [])"

definition view_profile :: "profile \<Rightarrow> json jsobj \<Rightarrow> json jsobj" where
  "view_profile p out =
     (if hostOf (p_host p) = [] then out
      else fold (\<lambda>(f, v) out. if f \<in> set LOCAL_FIELDS then out
                              else AList.update (fieldKey (p_host p) f) (orNull v) out)
             p (AList.update (consoleKey (p_host p)) (JNum (Some 1)) out))"

definition read_json :: "(string \<Rightarrow> string option) \<Rightarrow> string \<Rightarrow> json" where
  "read_json rd k = (case rd k of None \<Rightarrow> JNull | Some s \<Rightarrow> JStr s)"

definition localView :: "profile list \<Rightarrow> (string \<Rightarrow> string option) \<Rightarrow> json jsobj" where
  "localView profiles rd =
     fold view_profile profiles (fold (\<lambda>k. AList.update (settingKey k) (read_json rd k)) MESH_KEYS [])"

section \<open>Stamping what changed here\<close>

text \<open>A clock beside the number of times it has read the wall clock \<open>W\<close>.\<close>

type_synonym ticking = "clock \<times> nat"

definition tick :: "(nat \<Rightarrow> rat) \<Rightarrow> ticking \<Rightarrow> ticking \<times> hlc" where
  "tick W ck = (case clock_now (W (snd ck)) (fst ck) of (c, h) \<Rightarrow> ((c, Suc (snd ck)), h))"

definition is_added :: "lww_map \<Rightarrow> string \<Rightarrow> bool" where
  "is_added m k \<longleftrightarrow> isConsoleKey k \<and> (case map_of m k of None \<Rightarrow> True | Some r \<Rightarrow> reg_v r = JNull)"

definition ofAdded :: "string set \<Rightarrow> string \<Rightarrow> bool" where
  "ofAdded added k \<longleftrightarrow>
     (case index_of CHR '':'' (drop 2 k) of None \<Rightarrow> False | Some i \<Rightarrow> take (i + 2) k \<in> added)"

definition stamp_value ::
    "(nat \<Rightarrow> rat) \<Rightarrow> bool \<Rightarrow> string set \<Rightarrow> string \<times> json \<Rightarrow> ticking \<times> lww_map \<Rightarrow> ticking \<times> lww_map" where
  "stamp_value W baseline added kv s =
     (case (kv, s) of ((k, v), (ck, out)) \<Rightarrow>
        (case map_of out k of
           None \<Rightarrow>
             if v = JNull then (ck, out)
             else if baseline \<or> ofAdded added k
             then (ck, AList.update k \<lparr>reg_v = v, reg_h = Hlc 0 0 (device (fst ck))\<rparr> out)
             else (case tick W ck of (ck', h) \<Rightarrow> (ck', AList.update k \<lparr>reg_v = v, reg_h = h\<rparr> out))
         | Some cur \<Rightarrow>
             if \<not> same_json (reg_v cur) v
             then (case tick W ck of (ck', h) \<Rightarrow> (ck', AList.update k \<lparr>reg_v = v, reg_h = h\<rparr> out))
             else (ck, out)))"

definition stamp_gone ::
    "(nat \<Rightarrow> rat) \<Rightarrow> json jsobj \<Rightarrow> string \<times> reg \<Rightarrow> ticking \<times> lww_map \<Rightarrow> ticking \<times> lww_map" where
  "stamp_gone W view kr s =
     (case (kr, s) of ((k, r), (ck, out)) \<Rightarrow>
        if isConsoleKey k \<and> reg_v r \<noteq> JNull \<and> map_of view k = None
        then (case tick W ck of (ck', h) \<Rightarrow> (ck', AList.update k \<lparr>reg_v = JNull, reg_h = h\<rparr> out))
        else (ck, out))"

definition stampLocal ::
    "(nat \<Rightarrow> rat) \<Rightarrow> lww_map \<Rightarrow> json jsobj \<Rightarrow> ticking \<Rightarrow> bool \<Rightarrow> ticking \<times> lww_map" where
  "stampLocal W m view ck baseline =
     (let added = set (filter (is_added m) (map fst view))
      in fold (stamp_gone W view) m (fold (stamp_value W baseline added) view (ck, m)))"

section \<open>The console list a map describes\<close>

definition fieldsOf :: "lww_map \<Rightarrow> string \<Rightarrow> json jsobj" where
  "fieldsOf m hk =
     (let prefix = ''c:'' @ hk @ '':''
      in fold (\<lambda>(k, r) out. if starts_with prefix k then AList.update (drop (length prefix) k) (reg_v r) out else out)
           m [])"

text \<open>\<^verbatim>\<open>{ ...p, ...f }\<close>.\<close>

definition spread :: "profile \<Rightarrow> json jsobj \<Rightarrow> profile" where
  "spread p f = fold (\<lambda>(k, v). AList.update k (Some v)) f p"

definition listed_local :: "lww_map \<Rightarrow> profile \<Rightarrow> string list \<times> profile list \<Rightarrow> string list \<times> profile list" where
  "listed_local m p s =
     (case s of (seen, nxt) \<Rightarrow>
        let hk = hostOf (p_host p) in
        if hk = [] then (seen, nxt @ [p])
        else if hk \<in> set seen then s
        else if map_option reg_v (map_of m (''c:'' @ hk)) = Some JNull then s
        else (hk # seen, nxt @ [AList.update ''id'' (case map_of p ''id'' of None \<Rightarrow> None | Some v \<Rightarrow> v) (spread p (fieldsOf m hk))]))"

text \<open>\<open>str\<close> is \<^verbatim>\<open>String\<close> on a value that is not a string; \<open>ids\<close> the ids still to be generated.\<close>

definition text_of :: "(json \<Rightarrow> string) \<Rightarrow> json \<Rightarrow> string" where
  "text_of str j = (case j of JStr s \<Rightarrow> s | _ \<Rightarrow> str j)"

definition f_host :: "json jsobj \<Rightarrow> string option" where
  "f_host f = (case map_of f ''host'' of Some (JStr h) \<Rightarrow> (if h = [] then None else Some h) | _ \<Rightarrow> None)"

definition listed_elsewhere ::
    "(json \<Rightarrow> string) \<Rightarrow> (nat \<Rightarrow> string) \<Rightarrow> lww_map \<Rightarrow> string \<times> reg
      \<Rightarrow> nat \<times> string list \<times> profile list \<Rightarrow> nat \<times> string list \<times> profile list" where
  "listed_elsewhere str newId m kr s =
     (case (kr, s) of ((k, r), (n, seen, nxt)) \<Rightarrow>
        let hk = drop 2 k; f = fieldsOf m hk in
        if \<not> isConsoleKey k \<or> reg_v r = JNull \<or> hk \<in> set seen then s
        else (case f_host f of
                None \<Rightarrow> s
              | Some h \<Rightarrow>
                  let nm = (case map_of f ''name'' of None \<Rightarrow> JStr h | Some JNull \<Rightarrow> JStr h | Some v \<Rightarrow> v)
                  in (Suc n, hk # seen,
                      nxt @ [AList.update ''name'' (Some (JStr (text_of str nm)))
                               (AList.update ''id'' (Some (JStr (newId n))) (spread [] f))])))"

definition rosterFrom :: "(json \<Rightarrow> string) \<Rightarrow> (nat \<Rightarrow> string) \<Rightarrow> lww_map \<Rightarrow> profile list \<Rightarrow> profile list" where
  "rosterFrom str newId m profiles =
     (case fold (listed_local m) profiles ([], []) of (seen, nxt) \<Rightarrow>
        snd (snd (fold (listed_elsewhere str newId m) m (0, seen, nxt))))"

section \<open>What a device must change\<close>

record sync_plan =
  pl_settings :: "(string \<times> string option) list"
  pl_roster :: "profile list option"

definition plan_setting :: "lww_map \<Rightarrow> json jsobj \<Rightarrow> string \<Rightarrow> (string \<times> string option) list" where
  "plan_setting m view k =
     (case map_of m (settingKey k) of
        None \<Rightarrow> []
      | Some r \<Rightarrow>
          if \<not> same_json (reg_v r) (orNull (map_of view (settingKey k)))
          then [(k, case reg_v r of JStr s \<Rightarrow> Some s | _ \<Rightarrow> None)] else [])"

text \<open>What \<^verbatim>\<open>JSON.stringify\<close> writes of the list: no field that is \<^verbatim>\<open>undefined\<close>.\<close>

definition strip :: "profile list \<Rightarrow> json" where
  "strip l = JArr (map (\<lambda>p. JObj (concat (map (\<lambda>(f, v).
     if f \<notin> set LOCAL_FIELDS \<or> f = ''id'' then (case v of None \<Rightarrow> [] | Some j \<Rightarrow> [(f, j)]) else []) p))) l)"

definition plan ::
    "(json \<Rightarrow> string) \<Rightarrow> (nat \<Rightarrow> string) \<Rightarrow> lww_map \<Rightarrow> json jsobj \<Rightarrow> profile list \<Rightarrow> sync_plan" where
  "plan str newId m view profiles =
     (let roster = rosterFrom str newId m profiles
      in \<lparr>pl_settings = concat (map (plan_setting m view) MESH_KEYS),
          pl_roster = (if same_json (strip roster) (strip profiles) then None else Some roster)\<rparr>)"

section \<open>The stored copy\<close>

record persisted =
  st_device :: string
  st_t :: rat
  st_c :: rat
  st_m :: lww_map

definition hlc_json :: "hlc \<Rightarrow> json" where
  "hlc_json h = JObj [(''t'', JNum (Some (hlc_t h))), (''c'', JNum (Some (hlc_c h))), (''d'', JStr (hlc_d h))]"

definition map_json :: "lww_map \<Rightarrow> json" where
  "map_json m = JObj (map (\<lambda>(k, r). (k, JObj [(''v'', json_norm (reg_v r)), (''h'', hlc_json (reg_h r))])) m)"

text \<open>What is read back of the text that is stored.\<close>

definition saveState :: "persisted \<Rightarrow> json" where
  "saveState s =
     JObj [(''device'', JStr (st_device s)),
           (''clock'', JObj [(''t'', JNum (Some (st_t s))), (''c'', JNum (Some (st_c s)))]),
           (''m'', map_json (st_m s))]"

text \<open>A stored counter that is not a number is read as 0 here; \<open>saveState\<close> never stores one.\<close>

definition loadState :: "string \<Rightarrow> json option \<Rightarrow> persisted" where
  "loadState rand raw =
     (let fresh = \<lparr>st_device = rand, st_t = 0, st_c = 0, st_m = []\<rparr>
      in case raw of
           Some (JObj p) \<Rightarrow>
             (case (map_of p ''device'', map_of p ''clock'') of
                (Some (JStr d), Some (JObj c)) \<Rightarrow>
                  (case map_of c ''t'' of
                     Some (JNum (Some t)) \<Rightarrow>
                       if d = [] then fresh
                       else \<lparr>st_device = d, st_t = t,
                             st_c = (case map_of c ''c'' of Some (JNum (Some n)) \<Rightarrow> n | _ \<Rightarrow> 0),
                             st_m = asMap (map_of p ''m'')\<rparr>
                   | _ \<Rightarrow> fresh)
              | _ \<Rightarrow> fresh)
         | _ \<Rightarrow> fresh)"

definition st_clock :: "persisted \<Rightarrow> clock" where
  "st_clock s = \<lparr>device = st_device s, last_t = st_t s, last_c = st_c s\<rparr>"

section \<open>A sync\<close>

text \<open>A device: its stored copy, the id it would make up, its settings and its consoles.\<close>

record dev =
  dv_stored :: "json option"
  dv_rand :: string
  dv_read :: "string \<Rightarrow> string option"
  dv_profiles :: "profile list"

definition dv_view :: "dev \<Rightarrow> json jsobj" where
  "dv_view dv = localView (dv_profiles dv) (dv_read dv)"

definition stampNow :: "(nat \<Rightarrow> rat) \<Rightarrow> bool \<Rightarrow> dev \<Rightarrow> (dev \<times> persisted \<times> bool) result" where
  "stampNow W baseline dv =
     (let st = loadState (dv_rand dv) (dv_stored dv) in
      case stampLocal W (st_m st) (dv_view dv) (st_clock st, 0) baseline of
        ((c, _), m) \<Rightarrow>
          let st' = st\<lparr>st_t := last_t c, st_c := last_c c, st_m := m\<rparr>
          in case sameMap m (st_m st) of
               Inl e \<Rightarrow> Inl e
             | Inr eq \<Rightarrow> Inr (if eq then dv else dv\<lparr>dv_stored := Some (saveState st')\<rparr>, st', \<not> eq))"

text \<open>\<^verbatim>\<open>theirs && theirs.h.d !== r.h.d\<close>: an inherited function has no stamp.\<close>

definition adopt_key :: "lww_map \<Rightarrow> string \<times> reg \<Rightarrow> bool result" where
  "adopt_key remote kr =
     (if hlc_t (reg_h (snd kr)) \<noteq> 0 then Inr False
      else case js_get remote (fst kr) of
             Undefined \<Rightarrow> Inr False
           | Inherited \<Rightarrow> Inl TypeError
           | Own theirs \<Rightarrow> Inr (hlc_d (reg_h theirs) \<noteq> hlc_d (reg_h (snd kr))))"

fun adopt_loop :: "lww_map \<Rightarrow> lww_map \<Rightarrow> lww_map \<Rightarrow> lww_map result" where
  "adopt_loop remote [] out = Inr out"
| "adopt_loop remote (kr # es) out =
     (case adopt_key remote kr of
        Inl e \<Rightarrow> Inl e
      | Inr gone \<Rightarrow> adopt_loop remote es (if gone then AList.delete (fst kr) out else out))"

definition adoptBaseline :: "lww_map \<Rightarrow> lww_map \<Rightarrow> lww_map result" where
  "adoptBaseline loc remote = adopt_loop remote loc loc"

text \<open>\<^verbatim>\<open>replaceShared\<close>: the new list, with what this device saw of the consoles it knew.\<close>

definition keep_seen :: "profile list \<Rightarrow> profile \<Rightarrow> profile" where
  "keep_seen mine p =
     (let known = List.find (\<lambda>q. map_of q ''id'' = map_of p ''id'') (rev mine);
          seen = (\<lambda>f. case known of
                        None \<Rightarrow> JNull
                      | Some q \<Rightarrow> if hostOf (p_host q) = hostOf (p_host p) then p_field q f else JNull)
      in fold (\<lambda>f. AList.update f (Some (seen f))) [''last_seen_at'', ''last_seen_kernel'', ''last_seen_payload''] p)"

definition replaceShared :: "profile list \<Rightarrow> profile list \<Rightarrow> profile list" where
  "replaceShared mine incoming = map (keep_seen mine) incoming"

definition apply_plan :: "sync_plan \<Rightarrow> dev \<Rightarrow> dev" where
  "apply_plan todo dv =
     dv\<lparr>dv_read := fold (\<lambda>(k, v) rd. rd(k := v)) (pl_settings todo) (dv_read dv),
        dv_profiles := (case pl_roster todo of None \<Rightarrow> dv_profiles dv | Some r \<Rightarrow> replaceShared (dv_profiles dv) r)\<rparr>"

text \<open>One attempt: stamp, merge, apply, save.\<close>

record sync_env =
  e_wall :: "nat \<Rightarrow> rat"
  e_now :: rat
  e_str :: "json \<Rightarrow> string"
  e_newId :: "nat \<Rightarrow> string"

record sync_round =
  rd_dev :: dev
  rd_merged :: lww_map
  rd_written :: "string list"
  rd_same :: bool

definition merge_copies :: "lww_map \<Rightarrow> lww_map \<Rightarrow> rat \<Rightarrow> lww_map result" where
  "merge_copies loc remote now =
     (case adoptBaseline loc remote of
        Inl e \<Rightarrow> Inl e
      | Inr a \<Rightarrow> (case merge a remote of Inl e \<Rightarrow> Inl e | Inr m \<Rightarrow> Inr (pruneTombstones m now)))"

definition sync_attempt :: "sync_env \<Rightarrow> lww_map \<Rightarrow> dev \<Rightarrow> sync_round result" where
  "sync_attempt env remote dv =
     (case stampNow (e_wall env) False dv of
        Inl e \<Rightarrow> Inl e
      | Inr (dv1, st, _) \<Rightarrow>
          let c = clock_observe (maxHlc remote) (st_clock st) in
          case merge_copies (st_m st) remote (e_now env) of
            Inl e \<Rightarrow> Inl e
          | Inr merged \<Rightarrow>
              let todo = plan (e_str env) (e_newId env) merged (dv_view dv1) (dv_profiles dv1);
                  dv2 = (apply_plan todo dv1)
                          \<lparr>dv_stored := Some (saveState (st\<lparr>st_t := last_t c, st_c := last_c c, st_m := merged\<rparr>))\<rparr>
              in case sameMap merged remote of
                   Inl e \<Rightarrow> Inl e
                 | Inr eq \<Rightarrow> Inr \<lparr>rd_dev = dv2, rd_merged = merged,
                                  rd_written = map fst (pl_settings todo), rd_same = eq\<rparr>)"

text \<open>The console's replies, and the four attempts; \<open>chg n\<close> is what the person changes while the
  write of attempt \<open>n\<close> is out.\<close>

record put_reply =
  put_supported :: bool
  put_saved :: bool
  put_rev :: nat
  put_doc :: "json option"

datatype sync_end = Agreed | Unsupported | Saved nat lww_map | GaveUp

definition doc_map :: "json option \<Rightarrow> lww_map" where
  "doc_map doc = (case doc of Some (JObj d) \<Rightarrow> asMap (map_of d ''m'') | _ \<Rightarrow> [])"

fun sync_loop ::
    "(nat \<Rightarrow> sync_env) \<Rightarrow> (nat \<Rightarrow> nat \<Rightarrow> lww_map \<Rightarrow> put_reply) \<Rightarrow> (nat \<Rightarrow> dev \<Rightarrow> dev) \<Rightarrow> nat
      \<Rightarrow> nat \<Rightarrow> lww_map \<Rightarrow> dev \<Rightarrow> string list \<Rightarrow> (dev \<times> string list \<times> sync_end) result" where
  "sync_loop env put chg 0 rv remote dv written = Inr (dv, written, GaveUp)"
| "sync_loop env put chg (Suc n) rv remote dv written =
     (case sync_attempt (env n) remote dv of
        Inl e \<Rightarrow> Inl e
      | Inr rd \<Rightarrow>
          let w = written @ rd_written rd in
          if rd_same rd then Inr (rd_dev rd, w, Agreed)
          else let rep = put n rv (rd_merged rd); dv' = chg n (rd_dev rd) in
               if \<not> put_supported rep then Inr (dv', w, Unsupported)
               else if put_saved rep then Inr (dv', w, Saved rv (rd_merged rd))
               else sync_loop env put chg n (put_rev rep) (doc_map (put_doc rep)) dv' w)"

text \<open>The documents of 8.0.0, read when the console has no state document: \<open>prefs\<close> is the keys of
  the one, \<open>profiles\<close> the list of the other (\<open>None\<close> when the console does not have it).\<close>

definition legacy_pref :: "json jsobj \<Rightarrow> string \<Rightarrow> lww_map \<Rightarrow> lww_map" where
  "legacy_pref keys k out =
     (case map_of keys k of
        Some (JObj e) \<Rightarrow>
          (case map_of e ''at'' of
             Some (JNum (Some t)) \<Rightarrow>
               AList.update (settingKey k)
                 \<lparr>reg_v = (case map_of e ''v'' of Some (JStr s) \<Rightarrow> JStr s | _ \<Rightarrow> JNull),
                  reg_h = Hlc t 0 ''legacy''\<rparr> out
           | _ \<Rightarrow> out)
      | _ \<Rightarrow> out)"

definition legacy_console :: "json \<Rightarrow> lww_map \<Rightarrow> lww_map" where
  "legacy_console j out =
     (case j of
        JObj p \<Rightarrow>
          (case map_of p ''host'' of
             Some (JStr h) \<Rightarrow>
               if hostOf h = [] then out
               else fold (\<lambda>(f, v) out. if f \<in> set LOCAL_FIELDS then out
                            else AList.update (fieldKey h f) \<lparr>reg_v = v, reg_h = Hlc 0 0 ''legacy''\<rparr> out)
                      p (AList.update (consoleKey h) \<lparr>reg_v = JNum (Some 1), reg_h = Hlc 0 0 ''legacy''\<rparr> out)
           | _ \<Rightarrow> out)
      | _ \<Rightarrow> out)"

definition legacy :: "json option \<Rightarrow> json option \<Rightarrow> lww_map" where
  "legacy prefs profiles =
     (let out = (case prefs of Some (JObj keys) \<Rightarrow> fold (legacy_pref keys) MESH_KEYS [] | _ \<Rightarrow> [])
      in case profiles of Some (JArr l) \<Rightarrow> fold legacy_console l out | _ \<Rightarrow> out)"

record get_reply =
  got_supported :: bool
  got_rev :: nat
  got_doc :: "json option"

definition syncWith ::
    "(nat \<Rightarrow> sync_env) \<Rightarrow> (nat \<Rightarrow> nat \<Rightarrow> lww_map \<Rightarrow> put_reply) \<Rightarrow> (nat \<Rightarrow> dev \<Rightarrow> dev) \<Rightarrow> get_reply
      \<Rightarrow> json option \<Rightarrow> json option \<Rightarrow> dev \<Rightarrow> (dev \<times> string list \<times> sync_end) result" where
  "syncWith env put chg got prefs profiles dv =
     (if \<not> got_supported got then Inr (dv, [], Unsupported)
      else let remote = doc_map (got_doc got) in
           case (if got_rev got = 0 then merge (legacy prefs profiles) remote else Inr remote) of
             Inl e \<Rightarrow> Inl e
           | Inr remote' \<Rightarrow> sync_loop env put chg 4 (got_rev got) remote' dv [])"

section \<open>Keys and views\<close>

definition shared_key :: "string \<Rightarrow> bool" where
  "shared_key k \<longleftrightarrow> (\<exists>s. k = ''p:'' @ s \<or> k = ''c:'' @ s)"

lemma shared_keys [simp]: "shared_key (settingKey k)" "shared_key (consoleKey h)" "shared_key (fieldKey h f)"
  by (simp_all add: shared_key_def settingKey_def consoleKey_def fieldKey_def)

lemma shared_key_plain: "shared_key k \<Longrightarrow> k \<notin> set object_prototype_names"
  by (auto simp: shared_key_def object_prototype_names_def)

lemma console_key_shared: "isConsoleKey k \<Longrightarrow> shared_key k"
  by (auto simp: isConsoleKey_def shared_key_def starts_with_iff)

lemma settingKey_neq [simp]:
  "settingKey k \<noteq> consoleKey h" "settingKey k \<noteq> fieldKey h f"
  "consoleKey h \<noteq> settingKey k" "fieldKey h f \<noteq> settingKey k"
  by (simp_all add: settingKey_def consoleKey_def fieldKey_def)

lemma settingKey_inj [simp]: "settingKey k = settingKey k' \<longleftrightarrow> k = k'"
  by (simp add: settingKey_def)

text \<open>A view holds one value per key, only shared keys, and every shared setting.\<close>

definition is_view :: "(string \<Rightarrow> string option) \<Rightarrow> json jsobj \<Rightarrow> bool" where
  "is_view rd v \<longleftrightarrow>
     distinct (map fst v) \<and> (\<forall>k \<in> fst ` set v. shared_key k) \<and>
     (\<forall>k \<in> set MESH_KEYS. map_of v (settingKey k) = Some (read_json rd k))"

lemma is_view_update:
  "is_view rd v \<Longrightarrow> shared_key k \<Longrightarrow> (\<And>s. k \<noteq> settingKey s) \<Longrightarrow> is_view rd (AList.update k x v)"
  by (auto simp: is_view_def distinct_update dom_update map_of_update)

lemma is_view_fields:
  "is_view rd v \<Longrightarrow> is_view rd (fold (\<lambda>(f, x) out. if f \<in> set LOCAL_FIELDS then out
                              else AList.update (fieldKey h f) (orNull x) out) p v)"
  by (induction p arbitrary: v) (auto simp: is_view_update)

lemma is_view_profile: "is_view rd v \<Longrightarrow> is_view rd (view_profile p v)"
  unfolding view_profile_def by (auto intro!: is_view_fields is_view_update)

lemma settings_view:
  "distinct (map fst v) \<Longrightarrow> \<forall>k \<in> fst ` set v. shared_key k \<Longrightarrow>
   (let w = fold (\<lambda>k. AList.update (settingKey k) (read_json rd k)) ks v in
      distinct (map fst w) \<and> (\<forall>k \<in> fst ` set w. shared_key k) \<and>
      (\<forall>k. map_of w (settingKey k) = (if k \<in> set ks then Some (read_json rd k) else map_of v (settingKey k))))"
proof (induction ks arbitrary: v)
  case (Cons a ks)
  have "distinct (map fst (AList.update (settingKey a) (read_json rd a) v))"
    "\<forall>k \<in> fst ` set (AList.update (settingKey a) (read_json rd a) v). shared_key k"
    using Cons.prems by (auto simp: distinct_update dom_update)
  from Cons.IH[OF this] show ?case by (auto simp: map_of_update Let_def)
qed (simp add: Let_def)

lemma is_view_localView: "is_view rd (localView ps rd)"
proof -
  have "is_view rd (fold (\<lambda>k. AList.update (settingKey k) (read_json rd k)) MESH_KEYS [])"
    using settings_view[of "[]" rd MESH_KEYS] by (simp add: is_view_def Let_def)
  then have "is_view rd (fold view_profile ps (fold (\<lambda>k. AList.update (settingKey k) (read_json rd k)) MESH_KEYS []))"
    by (induction ps rule: rev_induct) (auto intro: is_view_profile)
  then show ?thesis by (simp add: localView_def)
qed

section \<open>What stamping does\<close>

text \<open>A fold whose steps each touch the entry of their own key only.\<close>

lemma fold_keyed:
  assumes "\<And>e s k. k \<noteq> fst e \<Longrightarrow> map_of (snd (f e s)) k = map_of (snd s) k"
    and "\<And>e s. P s \<Longrightarrow> P (f e s)" and "distinct (map fst xs)" and "P s"
  shows "P (fold f xs s) \<and>
    (case map_of xs k of
       None \<Rightarrow> map_of (snd (fold f xs s)) k = map_of (snd s) k
     | Some v \<Rightarrow> \<exists>s0. P s0 \<and> map_of (snd s0) k = map_of (snd s) k \<and>
                    map_of (snd (fold f xs s)) k = map_of (snd (f (k, v) s0)) k)"
  using assms(3,4)
proof (induction xs arbitrary: s)
  case (Cons e xs)
  obtain a b where e: "e = (a, b)" by fastforce
  have IH: "P (fold f xs (f e s)) \<and>
    (case map_of xs k of
       None \<Rightarrow> map_of (snd (fold f xs (f e s))) k = map_of (snd (f e s)) k
     | Some v \<Rightarrow> \<exists>s0. P s0 \<and> map_of (snd s0) k = map_of (snd (f e s)) k \<and>
                    map_of (snd (fold f xs (f e s))) k = map_of (snd (f (k, v) s0)) k)"
    using Cons.IH[of "f e s"] Cons.prems assms(2) by simp
  show ?case
  proof (cases "k = a")
    case True
    with Cons.prems e have "map_of xs k = None" by (simp add: map_of_eq_None_iff)
    with IH True e Cons.prems show ?thesis by (simp del: split_paired_Ex) blast
  next
    case False
    with IH assms(1)[of k e s] e show ?thesis by (auto split: option.splits)
  qed
qed simp

text \<open>The stamps of a map, and a stamp later than all of them.\<close>

definition after_all :: "lww_map \<Rightarrow> hlc \<Rightarrow> bool" where
  "after_all m h \<longleftrightarrow> (\<forall>(k, r) \<in> set m. reg_h r < h)"

definition seen_by :: "lww_map \<Rightarrow> clock \<Rightarrow> bool" where
  "seen_by m c \<longleftrightarrow> (\<forall>(k, r) \<in> set m. before_clock (reg_h r) c)"

lemma tick_seen:
  assumes "seen_by m (fst ck)" "tick W ck = (ck', h)"
  shows "seen_by m (fst ck')" and "after_all m h" and "device (fst ck') = device (fst ck)"
proof -
  obtain c n where ck: "ck = (c, n)" by fastforce
  have "ck' = (fst (clock_now (W n) c), Suc n)" "h = snd (clock_now (W n) c)"
    using assms(2) by (auto simp: tick_def ck split: prod.splits)
  moreover have "device (fst (clock_now (W n) c)) = device c" by (simp add: clock_now_def Let_def)
  ultimately show "seen_by m (fst ck')" "after_all m h" "device (fst ck') = device (fst ck)"
    using assms(1) by (auto simp: seen_by_def after_all_def ck intro: before_clock_now now_after)
qed

text \<open>What the stamped map holds for a key, given what the map and the device held for it.\<close>

definition stamped :: "lww_map \<Rightarrow> json jsobj \<Rightarrow> bool \<Rightarrow> string \<Rightarrow> string \<Rightarrow> reg option \<Rightarrow> bool" where
  "stamped m view baseline dev k y \<longleftrightarrow>
     (case (map_of m k, map_of view k) of
        (None, None) \<Rightarrow> y = None
      | (None, Some v) \<Rightarrow>
          if v = JNull then y = None
          else if baseline \<or> ofAdded (set (filter (is_added m) (map fst view))) k
          then y = Some \<lparr>reg_v = v, reg_h = Hlc 0 0 dev\<rparr>
          else (\<exists>h. y = Some \<lparr>reg_v = v, reg_h = h\<rparr> \<and> after_all m h)
      | (Some r, Some v) \<Rightarrow>
          if same_json (reg_v r) v then y = Some r
          else (\<exists>h. y = Some \<lparr>reg_v = v, reg_h = h\<rparr> \<and> after_all m h)
      | (Some r, None) \<Rightarrow>
          if isConsoleKey k \<and> reg_v r \<noteq> JNull
          then (\<exists>h. y = Some \<lparr>reg_v = JNull, reg_h = h\<rparr> \<and> after_all m h)
          else y = Some r)"

lemma stamp_value_own:
  assumes "seen_by m (fst (fst s))"
    and y: "y = map_of (snd (stamp_value W b A (k, v) s)) k"
  shows "case map_of (snd s) k of
      None \<Rightarrow>
        if v = JNull then y = None
        else if b \<or> ofAdded A k then y = Some \<lparr>reg_v = v, reg_h = Hlc 0 0 (device (fst (fst s)))\<rparr>
        else \<exists>h. y = Some \<lparr>reg_v = v, reg_h = h\<rparr> \<and> after_all m h
    | Some r \<Rightarrow>
        if same_json (reg_v r) v then y = Some r
        else \<exists>h. y = Some \<lparr>reg_v = v, reg_h = h\<rparr> \<and> after_all m h"
proof -
  obtain ck out where s: "s = (ck, out)" by fastforce
  obtain ck' h where t: "tick W ck = (ck', h)" by fastforce
  with assms(1) s have "after_all m h" using tick_seen(2)[of m ck W] by simp
  with s t show ?thesis by (auto simp: y stamp_value_def map_of_update split: option.splits)
qed

lemma stamp_gone_own:
  assumes "seen_by m (fst (fst s))"
    and y: "y = map_of (snd (stamp_gone W view (k, r) s)) k"
  shows "if isConsoleKey k \<and> reg_v r \<noteq> JNull \<and> map_of view k = None
         then \<exists>h. y = Some \<lparr>reg_v = JNull, reg_h = h\<rparr> \<and> after_all m h
         else y = map_of (snd s) k"
proof -
  obtain ck out where s: "s = (ck, out)" by fastforce
  obtain ck' h where t: "tick W ck = (ck', h)" by fastforce
  with assms(1) s have "after_all m h" using tick_seen(2)[of m ck W] by simp
  with s t show ?thesis by (auto simp: y stamp_gone_def map_of_update)
qed

lemma stamp_local_keys:
  assumes "distinct (map fst m)" "distinct (map fst view)" "seen_by m (fst ck)"
  shows "stamped m view b (device (fst ck)) k (map_of (snd (stampLocal W m view ck b)) k)"
proof -
  let ?P = "\<lambda>s. seen_by m (fst (fst s)) \<and> device (fst (fst s)) = device (fst ck)"
  define A where "A = set (filter (is_added m) (map fst view))"
  let ?f = "stamp_value W b A" and ?g = "stamp_gone W view"
  define s1 where "s1 = fold ?f view (ck, m)"
  note t = tick_seen
  have f: "\<And>e s k. k \<noteq> fst e \<Longrightarrow> map_of (snd (?f e s)) k = map_of (snd s) k" "\<And>e s. ?P s \<Longrightarrow> ?P (?f e s)"
    by (auto simp: stamp_value_def map_of_update split: prod.splits option.splits if_splits dest: t)
  have g: "\<And>e s k. k \<noteq> fst e \<Longrightarrow> map_of (snd (?g e s)) k = map_of (snd s) k" "\<And>e s. ?P s \<Longrightarrow> ?P (?g e s)"
    by (auto simp: stamp_gone_def map_of_update split: prod.splits option.splits if_splits dest: t)
  have F: "?P s1" "case map_of view k of
       None \<Rightarrow> map_of (snd s1) k = map_of m k
     | Some v \<Rightarrow> \<exists>s0. ?P s0 \<and> map_of (snd s0) k = map_of m k \<and> map_of (snd s1) k = map_of (snd (?f (k, v) s0)) k"
    using fold_keyed[of ?f ?P, OF f assms(2), of "(ck, m)" k] assms(3) unfolding s1_def fst_conv snd_conv by blast+
  have G: "case map_of m k of
       None \<Rightarrow> map_of (snd (fold ?g m s1)) k = map_of (snd s1) k
     | Some r \<Rightarrow> \<exists>s0. ?P s0 \<and> map_of (snd s0) k = map_of (snd s1) k \<and>
                    map_of (snd (fold ?g m s1)) k = map_of (snd (?g (k, r) s0)) k"
    using fold_keyed[of ?g ?P, OF g assms(1) F(1), of k] by simp
  have 1: "map_of (snd (stampLocal W m view ck b)) k = map_of (snd (fold ?g m s1)) k"
    by (simp only: stampLocal_def s1_def A_def Let_def)
  then show ?thesis
  proof (cases "map_of m k"; cases "map_of view k")
    fix v assume n: "map_of m k = None" and v: "map_of view k = Some v"
    with F(2) obtain s0 where "?P s0" "map_of (snd s0) k = None" "map_of (snd s1) k = map_of (snd (?f (k, v) s0)) k"
      by auto
    with stamp_value_own[OF _ refl, where m = m and s = s0 and k = k and v = v and W = W and b = b and A = A] n v G 1 show ?thesis
      by (auto simp: stamped_def A_def split: if_splits)
  next
    fix r v assume r: "map_of m k = Some r" and v: "map_of view k = Some v"
    with F(2) obtain s0 where s0: "?P s0" "map_of (snd s0) k = Some r"
        "map_of (snd s1) k = map_of (snd (?f (k, v) s0)) k" by auto
    from r G obtain s2 where s2: "?P s2" "map_of (snd s2) k = map_of (snd s1) k"
        "map_of (snd (fold ?g m s1)) k = map_of (snd (?g (k, r) s2)) k" by auto
    from stamp_value_own[OF _ refl, where m = m and s = s0 and k = k and v = v and W = W and b = b and A = A] stamp_gone_own[OF _ refl, where m = m and s = s2 and k = k and r = r and W = W and view = view] s0 s2 r v 1 show ?thesis
      by (simp add: stamped_def)
  next
    fix r assume r: "map_of m k = Some r" and v: "map_of view k = None"
    from r G obtain s2 where s2: "?P s2" "map_of (snd s2) k = map_of (snd s1) k"
        "map_of (snd (fold ?g m s1)) k = map_of (snd (?g (k, r) s2)) k" by auto
    with stamp_gone_own[OF _ refl, where m = m and s = s2 and k = k and r = r and W = W and view = view] F(2) r v 1 show ?thesis
      by (simp add: stamped_def)
  qed (use F(2) G in \<open>simp add: stamped_def\<close>)
qed

section \<open>Merging the two copies\<close>

text \<open>What the merge of a device's copy and the console's keeps of a key: a value from before sharing
  gives way to another device's, otherwise the higher stamp wins; an old removal is forgotten.\<close>

definition kept :: "reg option \<Rightarrow> reg option \<Rightarrow> reg option" where
  "kept x y =
     (case (x, y) of
        (Some a, Some b) \<Rightarrow>
          if hlc_t (reg_h a) = 0 \<and> hlc_d (reg_h b) \<noteq> hlc_d (reg_h a) then Some b else newer reg_h x y
      | _ \<Rightarrow> newer reg_h x y)"

definition pruned :: "rat \<Rightarrow> reg option \<Rightarrow> reg option" where
  "pruned now x =
     (case x of
        None \<Rightarrow> None
      | Some r \<Rightarrow> if reg_v r = JNull \<and> now - hlc_t (reg_h r) > TOMBSTONE_TTL_MS then None else Some r)"

definition gives_way :: "lww_map \<Rightarrow> string \<Rightarrow> reg \<Rightarrow> bool" where
  "gives_way remote k r \<longleftrightarrow>
     hlc_t (reg_h r) = 0 \<and> (\<exists>b. map_of remote k = Some b \<and> hlc_d (reg_h b) \<noteq> hlc_d (reg_h r))"

lemma adopt_key_plain:
  "k \<notin> set object_prototype_names \<Longrightarrow> adopt_key remote (k, r) = Inr (gives_way remote k r)"
  by (auto simp: adopt_key_def gives_way_def js_get_plain split: option.splits)

lemma adopt_loop_plain:
  assumes "wf_map es" "wf_map out"
  shows "\<exists>m. adopt_loop remote es out = Inr m \<and> wf_map m \<and>
    (\<forall>k. map_of m k = (case map_of es k of
                          Some r \<Rightarrow> if gives_way remote k r then None else map_of out k
                        | None \<Rightarrow> map_of out k))"
  using assms
proof (induction es arbitrary: out)
  case (Cons e es)
  obtain a r where e: "e = (a, r)" by fastforce
  with Cons.prems have a: "a \<notin> set object_prototype_names" "map_of es a = None" "wf_map es"
    by (auto simp: wf_map_Cons map_of_eq_None_iff)
  let ?o = "if gives_way remote a r then AList.delete a out else out"
  have "wf_map ?o" using Cons.prems(2)
    by (auto simp: wf_map_def plain_keys_def AList.delete_eq distinct_map_filter)
  from Cons.IH[OF a(3) this] obtain m where m: "adopt_loop remote es ?o = Inr m" "wf_map m"
      "\<And>k. map_of m k = (case map_of es k of Some r \<Rightarrow> if gives_way remote k r then None else map_of ?o k
                                          | None \<Rightarrow> map_of ?o k)" by blast
  have "map_of ?o k = (if k = a \<and> gives_way remote a r then None else map_of out k)" for k
    by (simp add: delete_conv')
  with m(3) a(2) have "map_of m k = (case map_of (e # es) k of
      Some r \<Rightarrow> if gives_way remote k r then None else map_of out k | None \<Rightarrow> map_of out k)" for k
    by (auto simp: e split: option.split)
  moreover have "adopt_loop remote (e # es) out = Inr m" using m(1) by (auto simp: e adopt_key_plain[OF a(1)] split: if_splits)
  ultimately show ?case using m(2) by blast
qed simp

lemma merge_copies_plain:
  assumes "wf_map loc" "wf_map remote"
  shows "\<exists>m. merge_copies loc remote now = Inr m \<and> wf_map m \<and>
           (\<forall>k. map_of m k = pruned now (kept (map_of loc k) (map_of remote k)))"
proof -
  obtain a where a: "adoptBaseline loc remote = Inr a" "wf_map a"
      "\<And>k. map_of a k = (case map_of loc k of
                          Some r \<Rightarrow> if gives_way remote k r then None else map_of loc k
                        | None \<Rightarrow> map_of loc k)"
    using adopt_loop_plain[OF assms(1,1), of remote] unfolding adoptBaseline_def by blast
  obtain m where m: "merge a remote = Inr m" "wf_map m" "\<And>k. map_of m k = newer reg_h (map_of a k) (map_of remote k)"
    using merge_plain[OF a(2) assms(2)] by blast
  have "map_of m k = kept (map_of loc k) (map_of remote k)" for k
    by (auto simp: m(3) a(3) kept_def gives_way_def split: option.splits)
  then have "map_of (pruneTombstones m now) k = pruned now (kept (map_of loc k) (map_of remote k))" for k
    using m(2) by (auto simp: map_of_pruneTombstones wf_map_def pruned_def split: option.splits)
  with a(1) m show ?thesis by (simp add: merge_copies_def wf_pruneTombstones)
qed

section \<open>The stored copy comes back\<close>

definition norm_reg :: "reg \<Rightarrow> reg" where
  "norm_reg r = r\<lparr>reg_v := json_norm (reg_v r)\<rparr>"

definition norm_map :: "lww_map \<Rightarrow> lww_map" where
  "norm_map m = map (\<lambda>(k, r). (k, norm_reg r)) m"

lemma update_new: "k \<notin> fst ` set m \<Longrightarrow> AList.update k v m = m @ [(k, v)]"
  by (induction m) auto

lemma read_reg_json: "read_reg (JObj [(''v'', v), (''h'', hlc_json h)]) = Some \<lparr>reg_v = v, reg_h = h\<rparr>"
  by (simp add: read_reg_def isHlc_iff_read read_hlc_def hlc_json_def)

lemma asMap_map_json:
  assumes "distinct (map fst m)" "''__proto__'' \<notin> fst ` set m"
  shows "asMap (Some (map_json m)) = norm_map m"
proof -
  have "distinct (map fst (acc @ m)) \<Longrightarrow>
      fold asMap_step (map (\<lambda>(k, r). (k, JObj [(''v'', json_norm (reg_v r)), (''h'', hlc_json (reg_h r))])) m) acc =
      acc @ norm_map m" for acc
    using assms(2)
  proof (induction m arbitrary: acc)
    case (Cons e m)
    obtain k r where e: "e = (k, r)" by fastforce
    have "asMap_step (k, JObj [(''v'', json_norm (reg_v r)), (''h'', hlc_json (reg_h r))]) acc = acc @ [(k, norm_reg r)]"
      using Cons.prems by (auto simp: e asMap_step_def read_reg_json update_new norm_reg_def)
    with Cons.IH[of "acc @ [(k, norm_reg r)]"] Cons.prems show ?case by (simp add: e norm_map_def)
  qed (simp add: norm_map_def)
  from this[of "[]"] assms(1) show ?thesis by (simp add: asMap_def map_json_def)
qed

lemma load_save:
  assumes "st_device s \<noteq> []" "distinct (map fst (st_m s))" "''__proto__'' \<notin> fst ` set (st_m s)"
  shows "loadState rand (Some (saveState s)) = s\<lparr>st_m := norm_map (st_m s)\<rparr>"
  using asMap_map_json[OF assms(2,3)] assms(1) by (simp add: loadState_def saveState_def)

lemma map_of_norm_map: "map_of (norm_map m) k = map_option norm_reg (map_of m k)"
  by (induction m) (auto simp: norm_map_def)

lemma wf_norm_map [simp]: "wf_map (norm_map m) = wf_map m"
proof -
  have "map fst (norm_map m) = map fst m" by (auto simp: norm_map_def)
  moreover from this have "fst ` set (norm_map m) = fst ` set m" by (metis list.set_map)
  ultimately show ?thesis by (simp add: wf_map_def plain_keys_def)
qed

lemma seen_by_norm [simp]: "seen_by (norm_map m) c = seen_by m c"
  by (auto simp: seen_by_def norm_map_def norm_reg_def)

section \<open>One attempt\<close>

lemma wf_update: "wf_map m \<Longrightarrow> shared_key k \<Longrightarrow> wf_map (AList.update k r m)"
  by (simp add: wf_map_def distinct_update shared_key_plain)

lemma wf_fold: "(\<And>e s. e \<in> set xs \<Longrightarrow> wf_map (snd s) \<Longrightarrow> wf_map (snd (f e s))) \<Longrightarrow> wf_map (snd s) \<Longrightarrow> wf_map (snd (fold f xs s))"
  by (induction xs arbitrary: s) auto

lemma wf_stampLocal:
  assumes "wf_map m" "\<forall>k \<in> fst ` set view. shared_key k"
  shows "wf_map (snd (stampLocal W m view ck b))"
  unfolding stampLocal_def Let_def
proof (intro wf_fold)
  fix e and s :: "ticking \<times> lww_map" assume "e \<in> set view" "wf_map (snd s)"
  with assms(2) show "wf_map (snd (stamp_value W b (set (filter (is_added m) (map fst view))) e s))"
    by (fastforce simp: stamp_value_def wf_update split: prod.splits option.splits)
next
  fix e and s :: "ticking \<times> lww_map" assume "e \<in> set m" "wf_map (snd s)"
  then show "wf_map (snd (stamp_gone W view e s))"
    by (auto simp: stamp_gone_def wf_update console_key_shared split: prod.splits)
qed (simp add: assms)

text \<open>A clock that has passed every stamp of a map, and the stamp of a value from before sharing.\<close>

definition ahead_of :: "lww_map \<Rightarrow> clock \<Rightarrow> bool" where
  "ahead_of m c \<longleftrightarrow> seen_by m c \<and> before_clock (Hlc 0 0 []) c"

lemma set_update_subset: "set (AList.update k v m) \<subseteq> insert (k, v) (set m)"
  by (induction m) auto

lemma ahead_of_update: "ahead_of m c \<Longrightarrow> before_clock (reg_h r) c \<Longrightarrow> ahead_of (AList.update k r m) c"
  using set_update_subset[of k r m] by (auto simp: ahead_of_def seen_by_def)

lemma tick_ahead:
  assumes "ahead_of m (fst ck)" "tick W ck = (ck', h)"
  shows "ahead_of m (fst ck')" and "before_clock h (fst ck')"
proof -
  have "fst ck' = fst (clock_now (W (snd ck)) (fst ck))" "h = snd (clock_now (W (snd ck)) (fst ck))"
    using assms(2) by (auto simp: tick_def split: prod.splits)
  with assms tick_seen(1)[OF _ assms(2), of m] show "ahead_of m (fst ck')" and "before_clock h (fst ck')"
    by (simp_all add: ahead_of_def before_clock_now before_clock_made)
qed

lemma stamp_value_cases:
  obtains "stamp_value W b A e s = s"
  | "stamp_value W b A e s =
      (fst s, AList.update (fst e) \<lparr>reg_v = snd e, reg_h = Hlc 0 0 (device (fst (fst s)))\<rparr> (snd s))"
  | ck' h where "tick W (fst s) = (ck', h)"
      "stamp_value W b A e s = (ck', AList.update (fst e) \<lparr>reg_v = snd e, reg_h = h\<rparr> (snd s))"
proof -
  obtain k v c out ck' h where es: "e = (k, v)" "s = (c, out)" "tick W c = (ck', h)" by (metis surj_pair)
  then have "stamp_value W b A e s \<in> {(c, out), (c, AList.update k \<lparr>reg_v = v, reg_h = Hlc 0 0 (device (fst c))\<rparr> out),
      (ck', AList.update k \<lparr>reg_v = v, reg_h = h\<rparr> out)}"
    by (simp add: stamp_value_def split: option.split)
  with es that show thesis by auto
qed

lemma stamp_gone_cases:
  obtains "stamp_gone W view e s = s"
  | ck' h where "tick W (fst s) = (ck', h)"
      "stamp_gone W view e s = (ck', AList.update (fst e) \<lparr>reg_v = JNull, reg_h = h\<rparr> (snd s))"
proof -
  obtain k r c out ck' h where es: "e = (k, r)" "s = (c, out)" "tick W c = (ck', h)" by (metis surj_pair)
  then have "stamp_gone W view e s \<in> {(c, out), (ck', AList.update k \<lparr>reg_v = JNull, reg_h = h\<rparr> out)}"
    by (simp add: stamp_gone_def)
  with es that show thesis by auto
qed

lemma before_zero: "before_clock (Hlc 0 0 d) c \<longleftrightarrow> before_clock (Hlc 0 0 []) c"
  by (simp add: before_clock_def)

lemma ahead_stampLocal:
  assumes "ahead_of m (fst ck)"
  shows "(case stampLocal W m view ck b of (ck', m') \<Rightarrow> ahead_of m' (fst ck') \<and> device (fst ck') = device (fst ck))"
proof -
  let ?P = "\<lambda>s :: ticking \<times> lww_map. ahead_of (snd s) (fst (fst s)) \<and> device (fst (fst s)) = device (fst ck)"
  have step: "?P (ck', AList.update k \<lparr>reg_v = v, reg_h = h\<rparr> (snd s))" if "?P s" "tick W (fst s) = (ck', h)" for s ck' h k v
    using that tick_ahead[of "snd s" "fst s" W ck' h] tick_seen(3)[of "snd s" "fst s" W ck' h]
    by (simp add: ahead_of_def[of "snd s" "fst (fst s)"] ahead_of_update)
  have 1: "?P (stamp_value W b A e s)" if P: "?P s" for A e s
  proof (cases rule: stamp_value_cases[of W b A e s])
    case 2
    have "before_clock (Hlc 0 0 d) (fst (fst s))" for d
      using P before_zero[of d] by (simp add: ahead_of_def)
    with 2 P show ?thesis by (simp add: ahead_of_update)
  next
    case (3 ck' h)
    from step[OF P 3(1)] 3(2) show ?thesis by simp
  qed (use P in simp)
  have 2: "?P (stamp_gone W view e s)" if P: "?P s" for e s
  proof (cases rule: stamp_gone_cases[of W view e s])
    case (2 ck' h)
    from step[OF P 2(1)] 2(2) show ?thesis by simp
  qed (use P in simp)
  have "?P (fold (stamp_value W b A) view (ck, m))" for A
    by (rule fold_invariant[where Q = "\<lambda>_. True" and P = ?P]) (use 1 assms in simp_all)
  then have "?P (stampLocal W m view ck b)" unfolding stampLocal_def Let_def
    by (intro fold_invariant[where Q = "\<lambda>_. True" and P = ?P and f = "stamp_gone W view"]) (use 2 in simp_all)
  then show ?thesis by (simp add: case_prod_beta)
qed

text \<open>A device whose copy may be merged and whose clock has passed every stamp in it.\<close>

definition dev_ok :: "dev \<Rightarrow> bool" where
  "dev_ok dv \<longleftrightarrow> (let st = loadState (dv_rand dv) (dv_stored dv)
                  in st_device st \<noteq> [] \<and> wf_map (st_m st) \<and> ahead_of (st_m st) (st_clock st))"

lemma ahead_observe:
  assumes "ahead_of m c"
  shows "ahead_of m (clock_observe (maxHlc remote) c)" and "seen_by remote (clock_observe (maxHlc remote) c)"
proof -
  show "ahead_of m (clock_observe (maxHlc remote) c)"
    using assms by (auto simp: ahead_of_def seen_by_def before_clock_observe)
  show "seen_by remote (clock_observe (maxHlc remote) c)"
  proof (cases "maxHlc remote")
    case None
    with maxHlc_newest[of remote] show ?thesis by (simp add: newest_def seen_by_def)
  next
    case (Some h)
    have "reg_h r \<le> h" if "(k, r) \<in> set remote" for k r
      using maxHlc_newest[of remote] that Some by (force simp: newest_def)
    moreover have "before_clock g d" if "g \<le> h" "before_clock h d" for g d
      using that by (auto simp: before_clock_def less_eq_hlc_def cmpHlc_def split: if_splits)
    ultimately show ?thesis using before_clock_seen[of h c] Some by (fastforce simp: seen_by_def)
  qed
qed

lemma kept_from: "kept x y = Some r \<Longrightarrow> x = Some r \<or> y = Some r"
  by (cases x; cases y) (auto simp: kept_def split: if_splits)

lemma pruned_from: "pruned now x = Some r \<Longrightarrow> x = Some r"
  by (cases x) (auto simp: pruned_def split: if_splits)

lemma map_of_settings: "map_of view k = Some v \<Longrightarrow> orNull (map_of view k) = v"
  by (simp add: orNull_def)

text \<open>The settings after the plan is carried out.\<close>

lemma fold_writes: "fold (\<lambda>(k, v) rd. rd(k := v)) ws rd k = (case map_of (rev ws) k of None \<Rightarrow> rd k | Some v \<Rightarrow> v)"
  by (induction ws rule: rev_induct) auto

lemma same_json_read:
  "same_json j (read_json rd k) \<Longrightarrow> rd k = (case j of JStr s \<Rightarrow> Some s | _ \<Rightarrow> None)"
  by (cases j rule: json_norm.cases) (auto simp: same_json_def read_json_def split: option.splits)

lemma settings_written:
  assumes v: "is_view rd view" and k: "k \<in> set MESH_KEYS" and r: "map_of m (settingKey k) = Some r"
  shows "fold (\<lambda>(k, v) rd. rd(k := v)) (concat (map (plan_setting m view) MESH_KEYS)) rd k =
         (case reg_v r of JStr s \<Rightarrow> Some s | _ \<Rightarrow> None)"
proof -
  let ?new = "case reg_v r of JStr s \<Rightarrow> Some s | _ \<Rightarrow> None" let ?ws = "concat (map (plan_setting m view) MESH_KEYS)"
  have vk: "map_of view (settingKey k) = Some (read_json rd k)" using v k by (simp add: is_view_def)
  have only: "w = ?new" if "(k, w) \<in> set ?ws" for w
    using that r by (auto simp: plan_setting_def split: option.splits if_splits)
  show ?thesis
  proof (cases "same_json (reg_v r) (read_json rd k)")
    case True
    have "(k, w) \<notin> set ?ws" for w using True r vk
      by (auto simp: plan_setting_def orNull_def split: option.splits if_splits)
    then have "map_of (rev ?ws) k = None" by (auto simp: map_of_eq_None_iff)
    with same_json_read[OF True] show ?thesis by (simp add: fold_writes)
  next
    case False
    then have "(k, ?new) \<in> set (plan_setting m view k)" using r vk by (simp add: plan_setting_def orNull_def)
    then have "(k, ?new) \<in> set ?ws" using k by auto
    then obtain w where "map_of (rev ?ws) k = Some w"
      by (metis image_eqI fst_conv map_of_eq_None_iff not_None_eq set_rev)
    moreover from this have "(k, w) \<in> set ?ws" by (metis map_of_SomeD set_rev)
    ultimately show ?thesis using only by (simp add: fold_writes)
  qed
qed

lemma wf_no_proto: "wf_map m \<Longrightarrow> ''__proto__'' \<notin> fst ` set m"
  unfolding wf_map_def plain_keys_def by (auto simp: object_prototype_names_def)

lemma stampNow_ok:
  assumes ok: "dev_ok dv" and st: "st = loadState (dv_rand dv) (dv_stored dv)"
  shows "\<exists>dv1 st1 ch. stampNow W b dv = Inr (dv1, st1, ch) \<and> dv_read dv1 = dv_read dv \<and> dv_profiles dv1 = dv_profiles dv \<and>
    dv_rand dv1 = dv_rand dv \<and>
    st_device st1 = st_device st \<and> wf_map (st_m st1) \<and> ahead_of (st_m st1) (st_clock st1) \<and>
    (\<forall>k. stamped (st_m st) (dv_view dv) b (st_device st) k (map_of (st_m st1) k))"
proof -
  obtain c n m where l: "stampLocal W (st_m st) (dv_view dv) (st_clock st, 0) b = ((c, n), m)" by (metis surj_pair)
  note o = ok[unfolded dev_ok_def Let_def, folded st]
  have v: "is_view (dv_read dv) (dv_view dv)" by (simp add: dv_view_def is_view_localView)
  have "wf_map m" using wf_stampLocal[of "st_m st" "dv_view dv" W "(st_clock st, 0)" b] l o v by (simp add: is_view_def)
  moreover have "ahead_of m c" "device c = st_device st"
    using ahead_stampLocal[of "st_m st" "(st_clock st, 0)" W "dv_view dv" b] l o by (simp_all add: st_clock_def)
  moreover have "stamped (st_m st) (dv_view dv) b (st_device st) k (map_of m k)" for k
    using stamp_local_keys[of "st_m st" "dv_view dv" "(st_clock st, 0)" b k W] l o v
    by (simp add: wf_map_def is_view_def ahead_of_def) (simp add: st_clock_def)
  moreover have "st_clock (st\<lparr>st_t := last_t c, st_c := last_c c, st_m := m\<rparr>) = c"
    using \<open>device c = st_device st\<close> by (simp add: st_clock_def)
  moreover obtain eq where "sameMap m (st_m st) = Inr eq" using sameMap_iff[OF \<open>wf_map m\<close>] o by blast
  ultimately show ?thesis by (simp add: stampNow_def Let_def st[symmetric] l)
qed

lemma sync_attempt_ok:
  assumes ok: "dev_ok dv" and w: "wf_map remote" and st: "st = loadState (dv_rand dv) (dv_stored dv)"
  shows "\<exists>rd loc. sync_attempt env remote dv = Inr rd \<and>
    (\<forall>k. stamped (st_m st) (dv_view dv) False (st_device st) k (map_of loc k)) \<and>
    (\<forall>k. map_of (rd_merged rd) k = pruned (e_now env) (kept (map_of loc k) (map_of remote k))) \<and>
    (\<forall>k \<in> set MESH_KEYS. \<forall>r. map_of (rd_merged rd) (settingKey k) = Some r \<longrightarrow>
       dv_read (rd_dev rd) k = (case reg_v r of JStr s \<Rightarrow> Some s | _ \<Rightarrow> None)) \<and>
    loadState (dv_rand dv) (dv_stored (rd_dev rd)) =
      (loadState (dv_rand dv) (dv_stored (rd_dev rd)))\<lparr>st_m := norm_map (rd_merged rd)\<rparr> \<and>
    dev_ok (rd_dev rd)"
proof -
  obtain dv1 st1 ch where s: "stampNow (e_wall env) False dv = Inr (dv1, st1, ch)"
      "dv_read dv1 = dv_read dv" "dv_profiles dv1 = dv_profiles dv" "dv_rand dv1 = dv_rand dv"
      "st_device st1 = st_device st" "wf_map (st_m st1)" "ahead_of (st_m st1) (st_clock st1)"
      "\<And>k. stamped (st_m st) (dv_view dv) False (st_device st) k (map_of (st_m st1) k)"
    using stampNow_ok[OF ok st] by blast
  define c where "c = clock_observe (maxHlc remote) (st_clock st1)"
  obtain mg where m: "merge_copies (st_m st1) remote (e_now env) = Inr mg" "wf_map mg"
      "\<And>k. map_of mg k = pruned (e_now env) (kept (map_of (st_m st1) k) (map_of remote k))"
    using merge_copies_plain[OF s(6) w] by blast
  obtain eq where eq: "sameMap mg remote = Inr eq" using sameMap_iff[OF m(2) w] by blast
  define st2 where "st2 = st1\<lparr>st_t := last_t c, st_c := last_c c, st_m := mg\<rparr>"
  define todo where "todo = plan (e_str env) (e_newId env) mg (dv_view dv1) (dv_profiles dv1)"
  define dv2 where "dv2 = (apply_plan todo dv1)\<lparr>dv_stored := Some (saveState st2)\<rparr>"
  have a: "sync_attempt env remote dv =
      Inr \<lparr>rd_dev = dv2, rd_merged = mg, rd_written = map fst (pl_settings todo), rd_same = eq\<rparr>"
    by (simp add: sync_attempt_def s(1) m(1) eq Let_def c_def st2_def todo_def dv2_def)
  have dev: "st_device st \<noteq> []" using ok st by (simp add: dev_ok_def Let_def)
  have ld: "loadState r (dv_stored dv2) = st2\<lparr>st_m := norm_map mg\<rparr>" for r
    using load_save[of st2 r] m(2) wf_no_proto[OF m(2)] s(5) dev by (simp add: dv2_def st2_def wf_map_def)
  have "seen_by mg c"
  proof -
    have "before_clock (reg_h r) c" if "(k, r) \<in> set mg" for k r
    proof -
      from that m(2) have "map_of mg k = Some r" by (simp add: wf_map_def)
      then have "map_of (st_m st1) k = Some r \<or> map_of remote k = Some r"
        using m(3) pruned_from kept_from by metis
      then show ?thesis using ahead_observe[OF s(7), of remote] unfolding c_def
        by (auto simp: ahead_of_def seen_by_def dest!: map_of_SomeD)
    qed
    then show ?thesis by (auto simp: seen_by_def)
  qed
  moreover have "st_clock (st2\<lparr>st_m := x\<rparr>) = c" for x
    by (simp add: st_clock_def st2_def c_def clock_observe_def split: option.split)
  moreover have "before_clock (Hlc 0 0 []) c" using ahead_observe(1)[OF s(7), of remote] by (simp add: c_def ahead_of_def)
  ultimately have "dev_ok dv2"
    unfolding dev_ok_def Let_def ld using m(2) s(5) dev by (simp add: ahead_of_def) (simp add: st2_def)
  moreover have "dv_read dv2 k = (case reg_v r of JStr s \<Rightarrow> Some s | _ \<Rightarrow> None)"
    if "k \<in> set MESH_KEYS" "map_of mg (settingKey k) = Some r" for k r
    using settings_written[OF _ that, of "dv_read dv1" "dv_view dv1"] is_view_localView
    by (simp add: dv2_def apply_plan_def todo_def plan_def Let_def dv_view_def)
  ultimately show ?thesis using a m(3) s(8) ld by (intro exI[of _ "\<lparr>rd_dev = dv2, rd_merged = mg,
        rd_written = map fst (pl_settings todo), rd_same = eq\<rparr>"] exI[of _ "st_m st1"]) simp
qed

section \<open>The console list\<close>

definition host_key :: "profile \<Rightarrow> string" where
  "host_key p = hostOf (p_host p)"

text \<open>The addresses of a list, entries without one left out.\<close>

definition hosts :: "profile list \<Rightarrow> string list" where
  "hosts l = filter (\<lambda>h. h \<noteq> []) (map host_key l)"

lemma hosts_simps [simp]: "hosts [] = []" "hosts (l @ [p]) = hosts l @ (if host_key p = [] then [] else [host_key p])"
  "set (hosts l) = host_key ` set l - {[]}"
  by (auto simp: hosts_def)

text \<open>The address kept in a console's own fields is the address it is listed under.\<close>

definition host_ok :: "lww_map \<Rightarrow> bool" where
  "host_ok m \<longleftrightarrow> (\<forall>(k, r) \<in> set m. starts_with ''c:'' k \<and> ends_with '':host'' k \<longrightarrow>
      (case reg_v r of JStr h \<Rightarrow> k = ''c:'' @ hostOf h @ '':host'' | _ \<Rightarrow> False))"

lemma host_okD:
  assumes "host_ok m" "map_of m (''c:'' @ hk @ '':host'') = Some r"
  shows "\<exists>h. reg_v r = JStr h \<and> hostOf h = hk"
proof -
  have "starts_with ''c:'' (''c:'' @ hk @ '':host'')" "ends_with '':host'' (''c:'' @ hk @ '':host'')"
    by (auto simp: ends_with_def starts_with_def)
  with bspec[OF assms(1)[unfolded host_ok_def] map_of_SomeD[OF assms(2)]] show ?thesis by (auto split: json.splits)
qed

lemma map_of_fieldsOf:
  assumes "distinct (map fst m)"
  shows "map_of (fieldsOf m hk) f = map_option reg_v (map_of m (''c:'' @ hk @ '':'' @ f))"
proof -
  let ?p = "''c:'' @ hk @ '':''"
  have "map_of (fold (\<lambda>(k, r) out. if starts_with ?p k then AList.update (drop (length ?p) k) (reg_v r) out else out) m acc) f =
      (case map_of m (?p @ f) of Some r \<Rightarrow> Some (reg_v r) | None \<Rightarrow> map_of acc f)" for acc
    using assms
  proof (induction m arbitrary: acc)
    case (Cons e m)
    obtain k r where e: "e = (k, r)" by fastforce
    have "starts_with ?p k \<Longrightarrow> k = ?p @ drop (length ?p) k"
      by (auto simp: starts_with_iff)
    moreover have "starts_with ?p (?p @ f)" by (auto simp: starts_with_iff)
    ultimately show ?case using Cons
      by (auto simp: e map_of_update map_of_eq_None_iff image_iff split: option.split)
  qed simp
  from this[of "[]"] show ?thesis unfolding fieldsOf_def Let_def
    by (cases "map_of m (?p @ f)") auto
qed

lemma distinct_fieldsOf: "distinct (map fst (fieldsOf m hk))"
proof -
  have "distinct (map fst acc) \<Longrightarrow> distinct (map fst (fold (\<lambda>(k, r) out. if starts_with p k
      then AList.update (drop (length p) k) (reg_v r) out else out) m acc))" for acc :: "json jsobj" and p
    by (induction m arbitrary: acc) (auto simp: distinct_update)
  then show ?thesis by (simp add: fieldsOf_def Let_def)
qed

lemma map_of_spread:
  "distinct (map fst f) \<Longrightarrow> map_of (spread p f) k = (case map_of f k of Some v \<Rightarrow> Some (Some v) | None \<Rightarrow> map_of p k)"
  unfolding spread_def
proof (induction f arbitrary: p)
  case (Cons e f)
  obtain a v where e: "e = (a, v)" by fastforce
  with Cons.prems have "map_of f a = None" by (simp add: map_of_eq_None_iff)
  with Cons.IH[of "AList.update a (Some v) p"] Cons.prems e show ?case
    by (cases "k = a") (auto simp: map_of_update split: option.split)
qed simp

lemma p_host_update: "k \<noteq> ''host'' \<Longrightarrow> p_host (AList.update k v p) = p_host p"
  by (simp add: p_host_def p_field_def map_of_update)

lemma p_host_spread:
  assumes "distinct (map fst m)" "host_ok m" "p = [] \<Longrightarrow> f_host (fieldsOf m hk) \<noteq> None"
    and "p \<noteq> [] \<Longrightarrow> host_key p = hk"
  shows "hostOf (p_host (spread p (fieldsOf m hk))) = hk"
proof -
  have F: "map_of (fieldsOf m hk) ''host'' = map_option reg_v (map_of m (''c:'' @ hk @ '':host''))"
    using map_of_fieldsOf[OF assms(1), of hk "''host''"] by simp
  show ?thesis
  proof (cases "map_of m (''c:'' @ hk @ '':host'')")
    case None
    with assms(3,4) F show ?thesis
      by (auto simp: p_host_def p_field_def map_of_spread distinct_fieldsOf f_host_def host_key_def)
  next
    case (Some r)
    with host_okD[OF assms(2)] obtain h where "reg_v r = JStr h" "hostOf h = hk" by blast
    with Some F show ?thesis by (simp add: p_host_def p_field_def map_of_spread distinct_fieldsOf orNull_def)
  qed
qed

definition removed :: "lww_map \<Rightarrow> string \<Rightarrow> bool" where
  "removed m hk \<longleftrightarrow> map_option reg_v (map_of m (''c:'' @ hk)) = Some JNull"

lemma listed_local_hosts:
  assumes "distinct (map fst m)" "host_ok m" "hosts nxt = rev seen" "distinct seen"
  shows "case listed_local m p (seen, nxt) of (seen', nxt') \<Rightarrow>
    hosts nxt' = rev seen' \<and> distinct seen' \<and>
    set seen' = set seen \<union> (if host_key p = [] \<or> removed m (host_key p) then {} else {host_key p})"
proof -
  have ne: "hk \<noteq> [] \<Longrightarrow> hostOf (p_host p) = hk \<Longrightarrow> p \<noteq> []" for hk
    by (auto simp: p_host_def p_field_def hostOf_def)
  have "host_key (AList.update ''id'' i (spread p (fieldsOf m (host_key p)))) = host_key p" if "host_key p \<noteq> []" for i
    using p_host_spread[OF assms(1,2), of p "host_key p"] ne[OF that] that
    by (auto simp: host_key_def p_host_update)
  then show ?thesis using assms(3,4)
    by (auto simp: listed_local_def Let_def host_key_def[symmetric] removed_def)
qed

lemma listed_elsewhere_hosts:
  assumes "distinct (map fst m)" "host_ok m" "hosts nxt = filter (\<lambda>h. h \<noteq> []) (rev seen)" "distinct seen"
  shows "case listed_elsewhere str newId m (k, r) (n, seen, nxt) of (n', seen', nxt') \<Rightarrow>
    hosts nxt' = filter (\<lambda>h. h \<noteq> []) (rev seen') \<and> distinct seen' \<and>
    set seen' = set seen \<union> (if isConsoleKey k \<and> reg_v r \<noteq> JNull \<and> f_host (fieldsOf m (drop 2 k)) \<noteq> None
                            then {drop 2 k} else {})"
proof -
  let ?hk = "drop 2 k"
  have "host_key (AList.update ''name'' a (AList.update ''id'' b (spread [] (fieldsOf m ?hk)))) = ?hk"
    if "f_host (fieldsOf m ?hk) \<noteq> None" for a b
    using p_host_spread[OF assms(1,2), of "[]" ?hk] that by (simp add: host_key_def p_host_update)
  then show ?thesis using assms(3,4)
    by (auto simp: listed_elsewhere_def Let_def split: option.split)
qed

lemma fold_local_hosts:
  assumes "distinct (map fst m)" "host_ok m" "hosts nxt = rev seen" "distinct seen"
  shows "case fold (listed_local m) ps (seen, nxt) of (seen', nxt') \<Rightarrow>
    hosts nxt' = rev seen' \<and> distinct seen' \<and>
    set seen' = set seen \<union> {hk \<in> host_key ` set ps. hk \<noteq> [] \<and> \<not> removed m hk}"
  using assms(3,4)
proof (induction ps arbitrary: seen nxt)
  case (Cons p ps)
  obtain seen1 nxt1 where 1: "listed_local m p (seen, nxt) = (seen1, nxt1)" by fastforce
  have "hosts nxt1 = rev seen1" "distinct seen1"
      "set seen1 = set seen \<union> (if host_key p = [] \<or> removed m (host_key p) then {} else {host_key p})"
    using listed_local_hosts[OF assms(1,2) Cons.prems, of p] 1 by auto
  with Cons.IH[of nxt1 seen1] show ?case by (auto simp: 1 split: if_splits)
qed simp

definition listed :: "lww_map \<Rightarrow> string \<times> reg \<Rightarrow> bool" where
  "listed m kr \<longleftrightarrow>
     isConsoleKey (fst kr) \<and> reg_v (snd kr) \<noteq> JNull \<and> f_host (fieldsOf m (drop 2 (fst kr))) \<noteq> None"

lemma fold_elsewhere_hosts:
  assumes "distinct (map fst m)" "host_ok m" "hosts nxt = filter (\<lambda>h. h \<noteq> []) (rev seen)" "distinct seen"
  shows "case fold (listed_elsewhere str newId m) es (n, seen, nxt) of (n', seen', nxt') \<Rightarrow>
    hosts nxt' = filter (\<lambda>h. h \<noteq> []) (rev seen') \<and> distinct seen' \<and>
    set seen' = set seen \<union> set (map (drop 2 \<circ> fst) (filter (listed m) es))"
  using assms(3,4)
proof (induction es arbitrary: n seen nxt)
  case (Cons e es)
  obtain k r where e: "e = (k, r)" by fastforce
  obtain n1 seen1 nxt1 where 1: "listed_elsewhere str newId m (k, r) (n, seen, nxt) = (n1, seen1, nxt1)"
    by (metis surj_pair)
  have "hosts nxt1 = filter (\<lambda>h. h \<noteq> []) (rev seen1)" "distinct seen1"
      "set seen1 = set seen \<union> (if listed m e then {drop 2 k} else {})"
    using listed_elsewhere_hosts[OF assms(1,2) Cons.prems, where str = str and newId = newId and k = k and r = r and n = n] 1 by (auto simp: e listed_def)
  with Cons.IH[of nxt1 seen1 n1] show ?case by (auto simp: 1 e split: if_splits)
qed simp

lemma roster_hosts:
  assumes "distinct (map fst m)" "host_ok m"
  shows "distinct (hosts (rosterFrom str newId m ps)) \<and>
    set (hosts (rosterFrom str newId m ps)) =
      {hk. hk \<noteq> [] \<and> (hk \<in> host_key ` set ps \<and> \<not> removed m hk \<or>
                     CHR '':'' \<notin> set hk \<and> (\<exists>r. map_of m (''c:'' @ hk) = Some r \<and> reg_v r \<noteq> JNull) \<and>
                     f_host (fieldsOf m hk) \<noteq> None)}"
proof -
  obtain seen nxt where 1: "fold (listed_local m) ps ([], []) = (seen, nxt)" by fastforce
  have s: "hosts nxt = rev seen" "distinct seen" "set seen = {hk \<in> host_key ` set ps. hk \<noteq> [] \<and> \<not> removed m hk}"
    using fold_local_hosts[OF assms, of "[]" "[]" ps] 1 by auto
  then have "hosts nxt = filter (\<lambda>h. h \<noteq> []) (rev seen)"
    by (metis (mono_tags, lifting) filter_True mem_Collect_eq set_rev)
  moreover obtain n seen2 nxt2 where 2: "fold (listed_elsewhere str newId m) m (0, seen, nxt) = (n, seen2, nxt2)"
    by (metis surj_pair)
  ultimately have t: "hosts nxt2 = filter (\<lambda>h. h \<noteq> []) (rev seen2)" "distinct seen2"
      "set seen2 = set seen \<union> set (map (drop 2 \<circ> fst) (filter (listed m) m))"
    using fold_elsewhere_hosts[OF assms _ s(2), where nxt = nxt and str = str and newId = newId and es = m and n = 0] by auto
  have "hk \<in> (drop 2 \<circ> fst) ` {kr \<in> set m. listed m kr} \<longleftrightarrow>
      CHR '':'' \<notin> set hk \<and> (\<exists>r. map_of m (''c:'' @ hk) = Some r \<and> reg_v r \<noteq> JNull) \<and> f_host (fieldsOf m hk) \<noteq> None" for hk
  proof -
    have "hk \<in> (drop 2 \<circ> fst) ` {kr \<in> set m. listed m kr} \<longleftrightarrow> (\<exists>r. (''c:'' @ hk, r) \<in> set m \<and> listed m (''c:'' @ hk, r))"
      by (force simp: listed_def isConsoleKey_def starts_with_iff image_iff)
    then show ?thesis using assms(1) by (auto simp: listed_def isConsoleKey_def starts_with_def)
  qed
  with t s show ?thesis by (auto simp: rosterFrom_def 1 2 t(1))
qed

section \<open>An example\<close>

text \<open>A device that had shared one setting and one console, and a console that another device has
  changed since.\<close>

definition share_profile :: profile where
  "share_profile = [(''id'', Some (JStr ''a1'')), (''host'', Some (JStr ''10.0.0.5'')), (''name'', Some (JStr ''Den''))]"

definition share_state :: persisted where
  "share_state = \<lparr>st_device = ''A'', st_t = 50, st_c = 0, st_m =
     [(''p:ps5upload.auto_resume'', \<lparr>reg_v = JStr ''1'', reg_h = Hlc 50 0 ''A''\<rparr>),
      (''c:10.0.0.5'', \<lparr>reg_v = JNum (Some 1), reg_h = Hlc 40 0 ''A''\<rparr>),
      (''c:10.0.0.5:host'', \<lparr>reg_v = JStr ''10.0.0.5'', reg_h = Hlc 40 0 ''A''\<rparr>)]\<rparr>"

definition share_dev :: dev where
  "share_dev = \<lparr>dv_stored = Some (saveState share_state), dv_rand = ''R'', dv_read = (\<lambda>_. None),
               dv_profiles = [share_profile]\<rparr>"

definition share_remote :: lww_map where
  "share_remote =
     [(''c:10.0.0.5:host'', \<lparr>reg_v = JStr ''10.0.0.5'', reg_h = Hlc 40 0 ''A''\<rparr>),
      (''c:fe80::1'', \<lparr>reg_v = JNum (Some 1), reg_h = Hlc 70 0 ''B''\<rparr>),
      (''c:fe80::1:host'', \<lparr>reg_v = JStr ''fe80::1'', reg_h = Hlc 70 0 ''B''\<rparr>),
      (''c:10.0.0.5'', \<lparr>reg_v = JNull, reg_h = Hlc 60 0 ''B''\<rparr>)]"

definition share_sync :: sync_env where
  "share_sync = \<lparr>e_wall = (\<lambda>_. 80), e_now = 81, e_str = (\<lambda>_. []), e_newId = (\<lambda>_. ''n'')\<rparr>"

lemma share_loaded: "loadState ''R'' (Some (saveState share_state)) = share_state"
  using load_save[of share_state "''R''"]
  by (simp add: share_state_def norm_map_def norm_reg_def)

lemma share_dev_ok: "dev_ok share_dev"
  by (simp add: dev_ok_def share_dev_def share_loaded Let_def)
     (simp add: share_state_def wf_map_def object_prototype_names_def ahead_of_def seen_by_def before_clock_def st_clock_def)

lemma share_remote_wf: "wf_map share_remote" "host_ok share_remote" "distinct (map fst share_remote)"
  by (simp_all add: share_remote_def wf_map_def object_prototype_names_def host_ok_def starts_with_def ends_with_def hostOf_def
      isBareIpv6_def index_of_def)

section \<open>Properties\<close>



text \<open>The console list a map describes has one entry per address: exactly the consoles of this
  device that no device removed, and the consoles other devices listed (with an address), each once.
  A console removed anywhere is in no list.\<close>

theorem roster_one_per_address:
  assumes "distinct (map fst m)" and "host_ok m"
  shows "distinct (hosts (rosterFrom str newId m ps)) \<and>
    (hk \<in> set (hosts (rosterFrom str newId m ps)) \<longleftrightarrow>
       hk \<noteq> [] \<and> \<not> removed m hk \<and>
       (hk \<in> host_key ` set ps \<or>
        CHR '':'' \<notin> set hk \<and> map_of m (''c:'' @ hk) \<noteq> None \<and> f_host (fieldsOf m hk) \<noteq> None))"
  unfolding removed_def using roster_hosts[OF assms, of str newId ps] by (auto simp: removed_def)

theorem roster_one_per_address_witness:
  "distinct (hosts (rosterFrom (\<lambda>_. []) (\<lambda>_. []) share_remote [share_profile])) \<and>
   ''10.0.0.5'' \<notin> set (hosts (rosterFrom (\<lambda>_. []) (\<lambda>_. []) share_remote [share_profile]))"
proof -
  have "removed share_remote ''10.0.0.5''" by (simp add: removed_def share_remote_def)
  with roster_one_per_address[OF share_remote_wf(3,2), where hk = "''10.0.0.5''" and str = "\<lambda>_. []" and newId = "\<lambda>_. []" and ps = "[share_profile]"]
  show ?thesis by blast
qed

text \<open>A console known by an IPv6 address is not shared: no other device lists it, whatever the map
  holds, and when it leaves a device's list no removal is stamped (its key is not taken for a
  console's, because the address itself holds a colon).\<close>

theorem ipv6_console_not_shared:
  assumes "CHR '':'' \<in> set hk" and "hk \<notin> host_key ` set ps" and "wf_map m" "host_ok m" and "is_view rd view"
    and "seen_by m (fst ck)" and "map_of m (''c:'' @ hk) = Some r" "map_of view (''c:'' @ hk) = None"
  shows "hk \<notin> set (hosts (rosterFrom str newId m ps)) \<and>
         map_of (snd (stampLocal W m view ck baseline)) (''c:'' @ hk) = Some r"
proof
  show "hk \<notin> set (hosts (rosterFrom str newId m ps))"
    using roster_hosts[OF _ assms(4), of str newId ps] assms(1-3) by (auto simp: wf_map_def)
  have "\<not> isConsoleKey (''c:'' @ hk)" using assms(1) by (simp add: isConsoleKey_def)
  with stamp_local_keys[of m view ck baseline "''c:'' @ hk" W] assms(3,5-8)
  show "map_of (snd (stampLocal W m view ck baseline)) (''c:'' @ hk) = Some r"
    by (simp add: stamped_def wf_map_def is_view_def)
qed

theorem ipv6_console_not_shared_witness:
  "''fe80::1'' \<notin> set (hosts (rosterFrom (\<lambda>_. []) (\<lambda>_. []) share_remote [])) \<and>
   map_of (snd (stampLocal (\<lambda>_. 80) share_remote (localView [] (\<lambda>_. None)) (\<lparr>device = ''B'', last_t = 75, last_c = 0\<rparr>, 0) False))
     (''c:'' @ ''fe80::1'') = Some \<lparr>reg_v = JNum (Some 1), reg_h = Hlc 70 0 ''B''\<rparr>"
proof (rule ipv6_console_not_shared[OF _ _ share_remote_wf(1,2) is_view_localView])
  have "map_of (localView [] (\<lambda>_. None)) (CHR ''c'' # s) = None" for s
  proof -
    have "map_of (fold (\<lambda>k. AList.update (settingKey k) (x k)) ks v) (CHR ''c'' # s) = map_of v (CHR ''c'' # s)" for x ks v
      by (induction ks arbitrary: v) (auto simp: map_of_update settingKey_def)
    from this[of "read_json (\<lambda>_. None)" MESH_KEYS "[]"] show ?thesis by (simp add: localView_def)
  qed
  then show "map_of (localView [] (\<lambda>_. None)) (''c:'' @ ''fe80::1'') = None" by simp
qed (simp_all add: share_remote_def seen_by_def before_clock_def)

text \<open>The device's copy survives being stored: what a later start reads is what was saved (with
  numbers that are not finite read as null).\<close>

theorem stored_copy_roundtrip:
  assumes "st_device s \<noteq> []" and "wf_map (st_m s)"
  shows "loadState rand (Some (saveState s)) = s\<lparr>st_m := norm_map (st_m s)\<rparr>"
  using load_save[OF assms(1)] assms(2) wf_no_proto by (simp add: wf_map_def)

theorem stored_copy_roundtrip_witness:
  "loadState ''R'' (Some (saveState share_state)) = share_state"
  using stored_copy_roundtrip[of share_state "''R''"]
  by (simp add: share_state_def norm_map_def norm_reg_def wf_map_def object_prototype_names_def)

end
