(* ===== verification/Task_Store.thy ===== *)
theory Task_Store
  imports Addr
begin

text \<open>
  The unified task list (\<^verbatim>\<open>client/src/state/tasks.ts\<close>): the task envelope, the bound on the history,
  the speed derived from byte samples, every action of the store with what it writes to storage, and
  what a restart makes of the stored list.

  The clock's readings and the new ids are arguments; \<^verbatim>\<open>createdAt\<close> is the instant its text writes. A
  field of a patch is \<open>None\<close> when the caller leaves it out. Speeds and times are rationals.

  The store is an \<open>event_machine\<close>; its lemmas give that no action loses running work, that the history
  stays bounded, and that the first end of a task is final.
\<close>

section \<open>Tasks\<close>

datatype TaskKind =
    UploadFile | UploadDir | UploadArchive | Download
  | FsDelete | FsCopy | FsMove | FsRename | FsUnpack | FsExtract
  | AppDump | PkgInstall | PkgDpiInstall
  | BackupSnapshot | BackupRestore | SaveBackup | SaveRestore
  | CheatDownload | IconFetch
  | LibraryMount | LibraryRegister | LibraryUnregister | LibraryLaunch | LibraryOp
  | FpkgConvert | FfpfscCompress
  | BackportPatch | FakelibScan | FakelibImport
  | InstallBatch | BugReport | LibraryMove | HelperSend | PayloadPlaylist | AppUpdate | ConsoleTask

datatype TaskStatus =
  TQueued | TRunning | TPaused | TAwaiting | TDone | TFailed | TCancelled | TUnverified | TInterrupted

datatype TaskProgressUnit = Bytes | Files | Items

record TaskProgress =
  pr_current :: rat
  pr_total :: rat
  pr_unit :: TaskProgressUnit

record TaskRate =
  bytesPerSec :: rat
  filesPerSec :: "rat option"

record TaskError =
  err_code :: string
  err_message :: string
  recoverable :: bool

datatype TaskControlRef =
    CtlTransfer string
  | CtlUploadQueue string string
  | CtlPkgInstall string
  | CtlFsBulk string
  | CtlLinkDownload string
  | CtlFpkgConvert
  | CtlRemoteFetch string
  | CtlBrowserStaging string
  | CtlConsoleTask string string bool

record Task =
  task_id :: string
  task_kind :: TaskKind
  task_origin :: string
  createdAt :: int
  task_status :: TaskStatus
  task_progress :: "TaskProgress option"
  task_rate :: "TaskRate option"
  task_eta :: "rat option"
  lastError :: "TaskError option"
  consoleId :: string
  task_consoleKey :: "string option"
  engineJobId :: "string option"
  task_control :: "TaskControlRef option"
  task_payload :: "json jsobj"
  task_label :: string
  task_detail :: "string option"
  task_stage :: "string option"
  updatedAtMs :: int
  endedAtMs :: "int option"

definition isTerminal :: "TaskStatus \<Rightarrow> bool" where
  "isTerminal s \<longleftrightarrow> s = TDone \<or> s = TFailed \<or> s = TCancelled \<or> s = TUnverified \<or> s = TInterrupted"

definition isActivatable :: "TaskStatus \<Rightarrow> bool" where
  "isActivatable s \<longleftrightarrow> s = TRunning \<or> s = TQueued \<or> s = TPaused \<or> s = TAwaiting"

abbreviation ended :: "Task \<Rightarrow> bool" where
  "ended t \<equiv> isTerminal (task_status t)"

section \<open>The bound on the history\<close>

definition MAX_TASK_HISTORY :: nat where
  "MAX_TASK_HISTORY = 200"

text \<open>The filter, with the slots left.\<close>

fun trim_slots :: "nat \<Rightarrow> Task list \<Rightarrow> Task list" where
  "trim_slots slots [] = []"
| "trim_slots slots (t # ts) =
     (if \<not> ended t then t # trim_slots slots ts
      else if slots = 0 then trim_slots slots ts
      else t # trim_slots (slots - 1) ts)"

definition trimTaskHistory :: "Task list \<Rightarrow> Task list" where
  "trimTaskHistory ts =
     (let activeCount = length (filter (\<lambda>t. \<not> ended t) ts)
      in trim_slots (MAX_TASK_HISTORY - activeCount) ts)"

section \<open>Speed and time left\<close>

record RateSample =
  smp_at :: int
  smp_current :: rat
  smp_bytesPerSec :: rat

definition MIN_SAMPLE_MS :: int where "MIN_SAMPLE_MS = 400"

definition RATE_ALPHA :: rat where "RATE_ALPHA = 3 / 10"

definition MIN_RATE :: rat where "MIN_RATE = 1"

definition FADED_RATE :: rat where "FADED_RATE = 1024"

type_synonym samples = "string \<rightharpoonup> RateSample"

definition withEta :: "rat \<Rightarrow> TaskProgress \<Rightarrow> TaskRate \<times> rat option" where
  "withEta bps p =
     (let left = max 0 (pr_total p - pr_current p)
      in (\<lparr>bytesPerSec = bps, filesPerSec = None\<rparr>, if pr_total p > 0 then Some (left / bps) else None))"

definition next_rate :: "RateSample \<Rightarrow> rat \<Rightarrow> int \<Rightarrow> rat" where
  "next_rate prev cur dt =
     (let instant = (cur - smp_current prev) * 1000 / of_int dt;
          bps = (if smp_bytesPerSec prev > 0
                 then smp_bytesPerSec prev + RATE_ALPHA * (instant - smp_bytesPerSec prev) else instant)
      in if bps < MIN_RATE \<or> instant = 0 \<and> bps < FADED_RATE then 0 else bps)"

definition deriveRate ::
    "samples \<Rightarrow> string \<Rightarrow> TaskProgress option \<Rightarrow> int \<Rightarrow> samples \<times> (TaskRate \<times> rat option) option" where
  "deriveRate samples i progress now =
     (case progress of
        None \<Rightarrow> (samples, None)
      | Some p \<Rightarrow>
          if pr_unit p \<noteq> Bytes then (samples, None)
          else case samples i of
                 None \<Rightarrow> (samples(i \<mapsto> \<lparr>smp_at = now, smp_current = pr_current p, smp_bytesPerSec = 0\<rparr>), None)
               | Some prev \<Rightarrow>
                   if pr_current p < smp_current prev
                   then (samples(i \<mapsto> \<lparr>smp_at = now, smp_current = pr_current p, smp_bytesPerSec = 0\<rparr>), None)
                   else if now - smp_at prev < MIN_SAMPLE_MS
                   then (samples, if smp_bytesPerSec prev > 0 then Some (withEta (smp_bytesPerSec prev) p) else None)
                   else let bps = next_rate prev (pr_current p) (now - smp_at prev)
                        in (samples(i \<mapsto> \<lparr>smp_at = now, smp_current = pr_current p, smp_bytesPerSec = bps\<rparr>),
                            if bps > 0 then Some (withEta bps p) else None))"

section \<open>The store\<close>

record task_patch =
  pt_label :: "string option"
  pt_progress :: "TaskProgress option option"
  pt_rate :: "TaskRate option option"
  pt_eta :: "rat option option"
  pt_status :: "TaskStatus option"
  pt_detail :: "string option option"
  pt_stage :: "string option option"
  pt_engineJobId :: "string option option"
  pt_lastError :: "TaskError option option"
  pt_control :: "TaskControlRef option option"
  pt_payload :: "json jsobj option"

definition or_keep :: "'a option \<Rightarrow> 'a \<Rightarrow> 'a" where
  "or_keep x y = (case x of None \<Rightarrow> y | Some v \<Rightarrow> v)"

text \<open>\<^verbatim>\<open>{ ...existing, ...patch }\<close>.\<close>

definition apply_patch :: "task_patch \<Rightarrow> Task \<Rightarrow> Task" where
  "apply_patch p t =
     t\<lparr>task_label := or_keep (pt_label p) (task_label t), task_progress := or_keep (pt_progress p) (task_progress t),
       task_rate := or_keep (pt_rate p) (task_rate t), task_eta := or_keep (pt_eta p) (task_eta t),
       task_status := or_keep (pt_status p) (task_status t), task_detail := or_keep (pt_detail p) (task_detail t),
       task_stage := or_keep (pt_stage p) (task_stage t), engineJobId := or_keep (pt_engineJobId p) (engineJobId t),
       lastError := or_keep (pt_lastError p) (lastError t), task_control := or_keep (pt_control p) (task_control t),
       task_payload := or_keep (pt_payload p) (task_payload t)\<rparr>"

definition sampleRate ::
    "samples \<Rightarrow> string \<Rightarrow> task_patch \<Rightarrow> int \<Rightarrow> samples \<times> (TaskRate \<times> rat option) option" where
  "sampleRate samples i p now =
     (if or_keep (pt_progress p) None = None \<or> or_keep (pt_rate p) None \<noteq> None then (samples, None)
      else deriveRate samples i (or_keep (pt_progress p) None) now)"

text \<open>Spreading the derived speed: a result without a time left leaves \<^verbatim>\<open>eta\<close> as it was.\<close>

definition apply_rate :: "(TaskRate \<times> rat option) option \<Rightarrow> Task \<Rightarrow> Task" where
  "apply_rate r t =
     (case r of
        None \<Rightarrow> t
      | Some (rate, eta) \<Rightarrow> t\<lparr>task_rate := Some rate, task_eta := (if eta = None then task_eta t else eta)\<rparr>)"

text \<open>The list, the speed samples, the list waiting to be written and whether its timer is set, and
  what is stored.\<close>

record task_state =
  tasks :: "Task list"
  rateSamples :: samples
  pendingPersist :: "Task list option"
  persistTimer :: bool
  stored :: "Task list option"

definition writeTasks :: "Task list \<Rightarrow> task_state \<Rightarrow> task_state" where
  "writeTasks ts s = s\<lparr>stored := Some (trimTaskHistory ts)\<rparr>"

definition flushPersist :: "task_state \<Rightarrow> task_state" where
  "flushPersist s =
     (let s' = s\<lparr>persistTimer := False\<rparr>
      in case pendingPersist s' of None \<Rightarrow> s' | Some ts \<Rightarrow> writeTasks ts (s'\<lparr>pendingPersist := None\<rparr>))"

definition persist :: "Task list \<Rightarrow> task_state \<Rightarrow> task_state" where
  "persist ts s = flushPersist (s\<lparr>pendingPersist := Some ts\<rparr>)"

definition persistProgress :: "Task list \<Rightarrow> task_state \<Rightarrow> task_state" where
  "persistProgress ts s = s\<lparr>pendingPersist := Some ts, persistTimer := True\<rparr>"

record task_init =
  init_kind :: TaskKind
  init_origin :: string
  init_label :: string
  init_detail :: "string option"
  init_consoleId :: string
  init_consoleKey :: "string option"
  init_payload :: "json jsobj option"
  init_engineJobId :: "string option"
  init_control :: "TaskControlRef option"
  init_status :: "TaskStatus option"
  init_progress :: "TaskProgress option"

definition new_task :: "(string \<Rightarrow> string option) \<Rightarrow> string \<Rightarrow> int \<Rightarrow> task_init \<Rightarrow> Task" where
  "new_task resolver i now ini =
     \<lparr>task_id = i, task_kind = init_kind ini, task_origin = init_origin ini, createdAt = now,
      task_status = or_keep (init_status ini) TRunning, task_progress = init_progress ini, task_rate = None,
      task_eta = None, lastError = None, consoleId = hostOf (init_consoleId ini),
      task_consoleKey = (case init_consoleKey ini of None \<Rightarrow> resolver (hostOf (init_consoleId ini)) | k \<Rightarrow> k),
      engineJobId = init_engineJobId ini, task_control = init_control ini,
      task_payload = or_keep (init_payload ini) [], task_label = init_label ini, task_detail = init_detail ini,
      task_stage = None, updatedAtMs = now, endedAtMs = None\<rparr>"

definition registerTask :: "(string \<Rightarrow> string option) \<Rightarrow> string \<Rightarrow> int \<Rightarrow> task_init \<Rightarrow> task_state \<Rightarrow> task_state" where
  "registerTask resolver i now ini s =
     (let ts = trimTaskHistory (new_task resolver i now ini # tasks s)
      in (persist ts s)\<lparr>tasks := ts\<rparr>)"

definition updateTask :: "string \<Rightarrow> task_patch \<Rightarrow> int \<Rightarrow> task_state \<Rightarrow> task_state" where
  "updateTask i p now s =
     (case find_index (\<lambda>t. task_id t = i) (tasks s) of
        None \<Rightarrow> s
      | Some idx \<Rightarrow>
          let existing = tasks s ! idx in
          if ended existing then s
          else case sampleRate (rateSamples s) i p now of
                 (smp, r) \<Rightarrow>
                   let updated = (apply_rate r (apply_patch p existing))\<lparr>updatedAtMs := now\<rparr>;
                       trimmed = trimTaskHistory ((tasks s)[idx := updated])
                   in (persistProgress trimmed (s\<lparr>rateSamples := smp\<rparr>))\<lparr>tasks := trimmed\<rparr>)"

record task_extras =
  ex_lastError :: "TaskError option option"
  ex_progress :: "TaskProgress option option"
  ex_detail :: "string option option"

definition finish_row :: "TaskStatus \<Rightarrow> task_extras \<Rightarrow> int \<Rightarrow> Task \<Rightarrow> Task" where
  "finish_row st ex now t =
     t\<lparr>lastError := or_keep (ex_lastError ex) (lastError t), task_progress := or_keep (ex_progress ex) (task_progress t),
       task_detail := or_keep (ex_detail ex) (task_detail t), task_status := st, endedAtMs := Some now, updatedAtMs := now\<rparr>"

definition finishTask :: "string \<Rightarrow> TaskStatus \<Rightarrow> task_extras \<Rightarrow> int \<Rightarrow> task_state \<Rightarrow> task_state" where
  "finishTask i st ex now s =
     (case find_index (\<lambda>t. task_id t = i) (tasks s) of
        None \<Rightarrow> s
      | Some idx \<Rightarrow>
          let existing = tasks s ! idx in
          if ended existing then s
          else let trimmed = trimTaskHistory ((tasks s)[idx := finish_row st ex now existing])
               in (persist trimmed (s\<lparr>rateSamples := (rateSamples s)(i := None)\<rparr>))\<lparr>tasks := trimmed\<rparr>)"

definition removeTask :: "string \<Rightarrow> task_state \<Rightarrow> task_state" where
  "removeTask i s =
     (case List.find (\<lambda>t. task_id t = i) (tasks s) of
        None \<Rightarrow> s
      | Some t \<Rightarrow>
          if \<not> ended t then s
          else let ts = filter (\<lambda>t. task_id t \<noteq> i) (tasks s) in (persist ts s)\<lparr>tasks := ts\<rparr>)"

definition clearFinished :: "task_state \<Rightarrow> task_state" where
  "clearFinished s = (let ts = filter (\<lambda>t. \<not> ended t) (tasks s) in (persist ts s)\<lparr>tasks := ts\<rparr>)"

definition getTask :: "string \<Rightarrow> task_state \<Rightarrow> Task option" where
  "getTask i s = List.find (\<lambda>t. task_id t = i) (tasks s)"

text \<open>A start of the app: the stored list (\<open>None\<close> when there is none that can be read), and the tasks it
  marks as interrupted.\<close>

definition load_row :: "Task \<Rightarrow> Task" where
  "load_row t = (if ended t then t else t\<lparr>task_status := TInterrupted, endedAtMs := Some (updatedAtMs t)\<rparr>)"

definition load_kept :: "Task list \<Rightarrow> Task list" where
  "load_kept ts = filter (\<lambda>t. task_kind t \<noteq> ConsoleTask \<or> ended t) ts"

definition loadInitial :: "Task list option \<Rightarrow> Task list" where
  "loadInitial raw = (case raw of None \<Rightarrow> [] | Some ts \<Rightarrow> map load_row (load_kept ts))"

definition interruptedAtLoad :: "Task list option \<Rightarrow> string list" where
  "interruptedAtLoad raw = (case raw of None \<Rightarrow> [] | Some ts \<Rightarrow> map task_id (filter (\<lambda>t. \<not> ended t) (load_kept ts)))"

section \<open>The store as a machine\<close>

datatype task_event =
    Register "string \<Rightarrow> string option" string int task_init
  | Update string task_patch int
  | Finish string TaskStatus task_extras int
  | Remove string
  | ClearFinished
  | Flush

fun task_step :: "task_state \<Rightarrow> task_event \<Rightarrow> task_state" where
  "task_step s (Register resolver i now ini) = registerTask resolver i now ini s"
| "task_step s (Update i p now) = updateTask i p now s"
| "task_step s (Finish i st ex now) = finishTask i st ex now s"
| "task_step s (Remove i) = removeTask i s"
| "task_step s ClearFinished = clearFinished s"
| "task_step s Flush = flushPersist s"

text \<open>The app as it starts.\<close>

definition task_start :: "Task list option \<Rightarrow> task_state" where
  "task_start raw = \<lparr>tasks = loadInitial raw, rateSamples = Map.empty, pendingPersist = None,
                     persistTimer = False, stored = raw\<rparr>"

section \<open>Trimming\<close>

lemma trim_slots_active [simp]: "filter (\<lambda>t. \<not> ended t) (trim_slots n ts) = filter (\<lambda>t. \<not> ended t) ts"
  by (induction n ts rule: trim_slots.induct) auto

lemma trim_slots_ended: "filter ended (trim_slots n ts) = take n (filter ended ts)"
  by (induction n ts rule: trim_slots.induct) (auto simp: take_Cons' gr0_conv_Suc)

lemma trim_slots_id: "length (filter ended ts) \<le> n \<Longrightarrow> trim_slots n ts = ts"
  by (induction n ts rule: trim_slots.induct) auto

lemma trim_slots_set: "set (trim_slots n ts) \<subseteq> set ts"
  by (induction n ts rule: trim_slots.induct) auto

lemma trim_slots_distinct: "distinct (map task_id ts) \<Longrightarrow> distinct (map task_id (trim_slots n ts))"
proof (induction n ts rule: trim_slots.induct)
  case (2 n t ts)
  have "task_id ` set (trim_slots k ts) \<subseteq> task_id ` set ts" for k using trim_slots_set by (rule image_mono)
  with 2 show ?case by auto
qed simp

lemma trim_set: "set (trimTaskHistory ts) \<subseteq> set ts"
  unfolding trimTaskHistory_def Let_def by (rule trim_slots_set)

lemma trim_active [simp]: "filter (\<lambda>t. \<not> ended t) (trimTaskHistory ts) = filter (\<lambda>t. \<not> ended t) ts"
  by (simp add: trimTaskHistory_def Let_def)

lemma trim_keeps_active: "t \<in> set ts \<Longrightarrow> \<not> ended t \<Longrightarrow> t \<in> set (trimTaskHistory ts)"
  using trim_active[of ts] by (metis (mono_tags, lifting) mem_Collect_eq set_filter)

lemma trim_distinct: "distinct (map task_id ts) \<Longrightarrow> distinct (map task_id (trimTaskHistory ts))"
  unfolding trimTaskHistory_def Let_def by (rule trim_slots_distinct)

definition bounded :: "Task list \<Rightarrow> bool" where
  "bounded ts \<longleftrightarrow> length (filter ended ts) \<le> MAX_TASK_HISTORY - length (filter (\<lambda>t. \<not> ended t) ts)"

lemma bounded_trim: "bounded (trimTaskHistory ts)"
  unfolding bounded_def trim_active by (simp add: trimTaskHistory_def Let_def trim_slots_ended)

lemma trim_bounded [simp]: "bounded ts \<Longrightarrow> trimTaskHistory ts = ts"
  by (simp add: bounded_def trimTaskHistory_def Let_def trim_slots_id)

lemma bounded_filter:
  assumes "bounded ts"
  shows "bounded (filter P ts)"
proof -
  have "length (filter Q (filter P ts)) \<le> length (filter Q ts)" for Q
    using length_filter_le[of P "filter Q ts"] by (simp add: conj_commute)
  from this[of ended] this[of "\<lambda>t. \<not> ended t"] assms show ?thesis by (simp add: bounded_def del: filter_filter)
qed

lemma bounded_short: "length ts \<le> MAX_TASK_HISTORY \<Longrightarrow> bounded ts"
  using sum_length_filter_compl[of ended ts] by (simp add: bounded_def)

section \<open>What every action does to the list\<close>

lemma flush_tasks [simp]: "tasks (flushPersist s) = tasks s" "rateSamples (flushPersist s) = rateSamples s"
  by (auto simp: flushPersist_def writeTasks_def Let_def split: option.split)

lemma persist_fields [simp]:
  "tasks (persist ts s) = tasks s" "pendingPersist (persist ts s) = None" "stored (persist ts s) = Some (trimTaskHistory ts)"
  "rateSamples (persist ts s) = rateSamples s" "persistTimer (persist ts s) = False"
  by (simp_all add: persist_def flushPersist_def writeTasks_def Let_def)

lemma patch_id [simp]: "task_id (apply_patch p t) = task_id t" "task_id (apply_rate r t) = task_id t"
  "task_id (finish_row st ex now t) = task_id t" "task_status (finish_row st ex now t) = st"
  "task_status (apply_rate r t) = task_status t" "task_status (apply_patch p t) = or_keep (pt_status p) (task_status t)"
  "task_id (new_task rs i now ini) = i"
  by (auto simp: apply_patch_def apply_rate_def finish_row_def new_task_def split: option.split)

text \<open>An update or an end changes one running task, and trims.\<close>

lemma update_cases:
  obtains "updateTask i p now s = s"
  | idx t u where "idx < length (tasks s)" "t = tasks s ! idx" "task_id t = i" "\<not> ended t" "task_id u = i"
      "task_status u = or_keep (pt_status p) (task_status t)"
      "tasks (updateTask i p now s) = trimTaskHistory ((tasks s)[idx := u])"
      "pendingPersist (updateTask i p now s) = Some (trimTaskHistory ((tasks s)[idx := u]))"
proof (cases "find_index (\<lambda>t. task_id t = i) (tasks s)")
  case None
  with that show thesis by (simp add: updateTask_def)
next
  case (Some idx)
  obtain smp r where r: "sampleRate (rateSamples s) i p now = (smp, r)" by fastforce
  let ?t = "tasks s ! idx"
  have f: "idx < length (tasks s)" "task_id ?t = i" using find_index_SomeD[OF Some] by auto
  show thesis
  proof (cases "ended ?t")
    case True
    with Some that(1) show thesis by (simp add: updateTask_def Let_def)
  next
    case False
    let ?u = "(apply_rate r (apply_patch p ?t))\<lparr>updatedAtMs := now\<rparr>"
    show thesis
      by (rule that(2)[of idx ?t ?u]) (use Some f False r in \<open>simp_all add: updateTask_def Let_def persistProgress_def\<close>)
  qed
qed

lemma finish_cases:
  obtains "finishTask i st ex now s = s"
  | idx t where "idx < length (tasks s)" "t = tasks s ! idx" "task_id t = i" "\<not> ended t"
      "tasks (finishTask i st ex now s) = trimTaskHistory ((tasks s)[idx := finish_row st ex now t])"
      "pendingPersist (finishTask i st ex now s) = None"
      "stored (finishTask i st ex now s) = Some (trimTaskHistory (trimTaskHistory ((tasks s)[idx := finish_row st ex now t])))"
proof (cases "find_index (\<lambda>t. task_id t = i) (tasks s)")
  case None
  with that show thesis by (simp add: finishTask_def)
next
  case (Some idx)
  let ?t = "tasks s ! idx"
  have f: "idx < length (tasks s)" "task_id ?t = i" using find_index_SomeD[OF Some] by auto
  show thesis
  proof (cases "ended ?t")
    case True
    with Some that(1) show thesis by (simp add: finishTask_def Let_def)
  next
    case False
    show thesis
      by (rule that(2)[of idx ?t]) (use Some f False in \<open>simp_all add: finishTask_def Let_def\<close>)
  qed
qed

section \<open>What a restart finds\<close>

definition saved :: "task_state \<Rightarrow> Task list option" where
  "saved s = (case pendingPersist s of None \<Rightarrow> stored s | Some ts \<Rightarrow> Some (trimTaskHistory ts))"

definition restarted :: "Task list \<Rightarrow> Task list" where
  "restarted ts = loadInitial (Some ts)"

definition task_inv :: "task_state \<Rightarrow> bool" where
  "task_inv s \<longleftrightarrow> bounded (tasks s) \<and> loadInitial (saved s) = restarted (tasks s)"

lemma ended_load_row [simp]: "ended (load_row t)"
  by (simp add: load_row_def isTerminal_def)

lemma restarted_loaded: "restarted (loadInitial raw) = loadInitial raw"
proof -
  have "load_row (load_row t) = load_row t" for t by (simp add: load_row_def isTerminal_def)
  then show ?thesis
    by (auto simp: restarted_def loadInitial_def load_kept_def filter_map comp_def intro!: map_cong filter_cong split: option.split)
qed

lemma inv_persisted: "bounded ts \<Longrightarrow> task_inv ((persist ts s)\<lparr>tasks := ts\<rparr>)"
  by (simp add: task_inv_def saved_def restarted_def)

lemma saved_flush: "saved (flushPersist s) = saved s"
  by (simp add: saved_def flushPersist_def writeTasks_def Let_def split: option.split)

lemma task_step_inv: "task_inv s \<Longrightarrow> task_inv (task_step s e)"
proof (cases e)
  case (Register rs i now ini)
  then show ?thesis by (simp add: registerTask_def Let_def inv_persisted bounded_trim)
next
  case (Update i p now)
  assume "task_inv s"
  then show ?thesis unfolding Update
    by (cases rule: update_cases[of i p now s]) (simp_all add: task_inv_def saved_def bounded_trim restarted_def)
next
  case (Finish i st ex now)
  assume "task_inv s"
  then show ?thesis unfolding Finish
    by (cases rule: finish_cases[of i st ex now s]) (simp_all add: task_inv_def saved_def bounded_trim restarted_def)
next
  case (Remove i)
  assume "task_inv s"
  then show ?thesis
    by (auto simp: Remove removeTask_def Let_def inv_persisted bounded_filter task_inv_def[of s] split: option.split)
next
  case ClearFinished
  assume "task_inv s"
  then show ?thesis by (simp add: ClearFinished clearFinished_def Let_def inv_persisted bounded_filter task_inv_def[of s])
next
  case Flush
  assume "task_inv s"
  then show ?thesis by (simp add: Flush task_inv_def saved_flush)
qed

interpretation task_list: event_machine task_step task_inv
  by unfold_locales (rule task_step_inv)

lemma task_inv_start:
  assumes "case raw of None \<Rightarrow> True | Some ts \<Rightarrow> length ts \<le> MAX_TASK_HISTORY"
  shows "task_inv (task_start raw)"
proof -
  have "length (loadInitial raw) \<le> MAX_TASK_HISTORY"
    using assms by (auto simp: loadInitial_def load_kept_def split: option.splits intro: order_trans[OF length_filter_le])
  then show ?thesis
    by (simp add: task_inv_def task_start_def saved_def restarted_loaded bounded_short)
qed

section \<open>Ended tasks\<close>

text \<open>The ids still to be given out.\<close>

fun new_ids :: "task_event list \<Rightarrow> string list" where
  "new_ids [] = []"
| "new_ids (Register rs i now ini # es) = i # new_ids es"
| "new_ids (e # es) = new_ids es"

definition tids :: "task_state \<Rightarrow> string list" where
  "tids s = map task_id (tasks s)"

lemma set_update_cases: "x \<in> set (xs[i := u]) \<Longrightarrow> x \<in> set xs \<or> x = u"
  using set_update_subset_insert[of xs i u] by blast

lemma replaced_ids:
  assumes "idx < length ts" "task_id u = task_id (ts ! idx)"
  shows "set (map task_id (trimTaskHistory (ts[idx := u]))) \<subseteq> set (map task_id ts) \<and>
    (distinct (map task_id ts) \<longrightarrow> distinct (map task_id (trimTaskHistory (ts[idx := u]))))"
proof -
  have m: "map task_id (ts[idx := u]) = map task_id ts" using assms by (metis list_update_id map_update)
  have "set (map task_id (trimTaskHistory (ts[idx := u]))) \<subseteq> set (map task_id (ts[idx := u]))"
    using image_mono[OF trim_set] by simp
  with trim_distinct[of "ts[idx := u]"] show ?thesis unfolding m by blast
qed

lemma task_step_ids:
  "set (tids (task_step s e)) \<subseteq> set (new_ids [e]) \<union> set (tids s) \<and>
   (distinct (new_ids [e] @ tids s) \<longrightarrow> distinct (tids (task_step s e)))"
proof -
  show ?thesis
  proof (cases e)
    case (Register rs i now ini)
    then show ?thesis using image_mono[OF trim_set[of "new_task rs i now ini # tasks s"], of task_id] trim_distinct[of "new_task rs i now ini # tasks s"]
      by (auto simp: registerTask_def Let_def tids_def)
  next
    case (Update i p now)
    show ?thesis
    proof (cases rule: update_cases[of i p now s])
      case (2 idx t u)
      with replaced_ids[of idx "tasks s" u] Update show ?thesis by (simp add: tids_def)
    qed (use Update in simp)
  next
    case (Finish i st ex now)
    show ?thesis
    proof (cases rule: finish_cases[of i st ex now s])
      case (2 idx t)
      with replaced_ids[of idx "tasks s" "finish_row st ex now t"] Finish show ?thesis by (simp add: tids_def)
    qed (use Finish in simp)
  next
    case (Remove i)
    then show ?thesis by (auto simp: removeTask_def tids_def Let_def distinct_map_filter split: option.split)
  next
    case ClearFinished
    then show ?thesis by (auto simp: clearFinished_def tids_def Let_def distinct_map_filter)
  qed (simp_all add: tids_def)
qed

lemma same_task: "distinct (tids s) \<Longrightarrow> t \<in> set (tasks s) \<Longrightarrow> u \<in> set (tasks s) \<Longrightarrow> task_id t = task_id u \<Longrightarrow> t = u"
  unfolding tids_def by (metis (mono_tags) distinct_map inj_onD)

text \<open>One action leaves an ended task as it is, or drops it.\<close>

lemma ended_step:
  assumes "distinct (new_ids [e] @ tids s)" "t \<in> set (tasks s)" "ended t" "t' \<in> set (tasks (task_step s e))" "task_id t' = task_id t"
  shows "t' = t"
proof -
  have d: "distinct (tids s)" using assms(1) by simp
  have old: "t' \<in> set (tasks s) \<Longrightarrow> t' = t" using same_task[OF d _ assms(2)] assms(5) by blast
  have upd: "t' = t" if "t' \<in> set (trimTaskHistory ((tasks s)[idx := u]))" "idx < length (tasks s)" "\<not> ended (tasks s ! idx)"
      "task_id u = task_id (tasks s ! idx)" for idx u
  proof -
    have "t' \<noteq> u"
    proof
      assume "t' = u"
      then have "task_id t = task_id (tasks s ! idx)" using assms(5) that(4) by (metis)
      then have "t = tasks s ! idx" using same_task[OF d assms(2) nth_mem[OF that(2)]] by blast
      with that(3) assms(3) show False by simp
    qed
    moreover have "t' \<in> set ((tasks s)[idx := u])" using that(1) trim_set by (rule rev_subsetD)
    ultimately show ?thesis using set_update_cases old by metis
  qed
  show ?thesis
  proof (cases e)
    case (Register rs i now ini)
    then have "t' \<in> insert (new_task rs i now ini) (set (tasks s))"
      using assms(4) trim_set[of "new_task rs i now ini # tasks s"] by (auto simp: registerTask_def Let_def)
    moreover have "t' \<noteq> new_task rs i now ini" using assms(1,2,5) Register by (auto simp: tids_def image_iff)
    ultimately show ?thesis using old by blast
  next
    case (Update i p now)
    show ?thesis by (cases rule: update_cases[of i p now s]) (use Update assms(4) old upd in auto)
  next
    case (Finish i st ex now)
    show ?thesis by (cases rule: finish_cases[of i st ex now s]) (use Finish assms(4) old upd in auto)
  next
    case (Remove i)
    with assms(4) old show ?thesis by (auto simp: removeTask_def Let_def split: option.splits if_splits)
  next
    case ClearFinished
    with assms(4) old show ?thesis by (simp add: clearFinished_def Let_def)
  qed (use assms(4) old in simp)
qed

lemma ended_run:
  assumes "distinct (new_ids es @ tids s)" "t \<in> set (tasks s)" "ended t"
    and "t' \<in> set (tasks (foldl task_step s es))" "task_id t' = task_id t"
  shows "t' = t"
proof -
  text \<open>While the task is in the list it stays; once gone, its id is never given out again.\<close>
  have "(\<forall>u \<in> set (tasks s). task_id u = task_id t \<longrightarrow> u = t) \<Longrightarrow> task_id t \<notin> set (new_ids es) \<Longrightarrow>
      distinct (new_ids es @ tids s) \<Longrightarrow> t' \<in> set (tasks (foldl task_step s es)) \<Longrightarrow> t' = t"
    using assms(3,5)
  proof (induction es arbitrary: s)
    case (Cons e es)
    have n: "new_ids (e # es) = new_ids [e] @ new_ids es" by (cases e) auto
    let ?s = "task_step s e"
    have d: "distinct (new_ids [e] @ tids s)" and ids: "set (tids ?s) \<subseteq> set (new_ids [e]) \<union> set (tids s)"
      using Cons.prems(3) task_step_ids[of s e] unfolding n by auto
    have "distinct (new_ids es @ tids ?s)"
      using Cons.prems(3) task_step_ids[of s e] ids unfolding n by auto
    moreover have "u = t" if u: "u \<in> set (tasks ?s)" "task_id u = task_id t" for u
    proof -
      have "task_id t \<in> set (tids ?s)" using u by (metis tids_def image_eqI set_map)
      with ids Cons.prems(2) have "task_id t \<in> set (tids s)" unfolding n by auto
      then obtain v where "v \<in> set (tasks s)" "task_id v = task_id t" by (auto simp: tids_def)
      with Cons.prems(1) have "t \<in> set (tasks s)" by auto
      from ended_step[OF d this Cons.prems(5) u] show ?thesis .
    qed
    ultimately show ?case using Cons.IH[of ?s] Cons.prems unfolding n by auto
  qed simp
  moreover have "u = t" if "u \<in> set (tasks s)" "task_id u = task_id t" for u
    using same_task[of s u t] that assms(1,2) by simp
  moreover have "task_id t \<notin> set (new_ids es)" using assms(1,2) by (auto simp: tids_def)
  ultimately show ?thesis using assms(1,4) by blast
qed

section \<open>Running tasks\<close>

text \<open>An action that may end task \<open>i\<close>.\<close>

fun ends_task :: "string \<Rightarrow> task_event \<Rightarrow> bool" where
  "ends_task i (Finish j st ex now) = (i = j)"
| "ends_task i (Update j p now) = (i = j \<and> isTerminal (or_keep (pt_status p) TRunning))"
| "ends_task i _ = False"

definition active :: "string \<Rightarrow> task_state \<Rightarrow> bool" where
  "active i s \<longleftrightarrow> (\<exists>t \<in> set (tasks s). task_id t = i \<and> \<not> ended t)"

lemma active_trim: "t \<in> set ts \<Longrightarrow> \<not> ended t \<Longrightarrow> tasks s = trimTaskHistory ts \<Longrightarrow> active (task_id t) s"
  by (auto simp: active_def intro: trim_keeps_active)

lemma active_step:
  assumes "active i s" "\<not> ends_task i e" "distinct (tids s)"
  shows "active i (task_step s e)"
proof -
  from assms(1) obtain t where t: "t \<in> set (tasks s)" "task_id t = i" "\<not> ended t" by (auto simp: active_def)
  show ?thesis
  proof (cases e)
    case (Register rs j now ini)
    with t active_trim[of t "new_task rs j now ini # tasks s" "task_step s e"] show ?thesis
      by (simp add: registerTask_def Let_def)
  next
    case (Update j p now)
    show ?thesis
    proof (cases rule: update_cases[of j p now s])
      case (2 idx x u)
      show ?thesis
      proof (cases "j = i")
        case True
        have "\<not> ended u" using 2 True assms(2) Update by (auto simp: or_keep_def split: option.splits)
        moreover have "u \<in> set ((tasks s)[idx := u])" using 2(1) by (rule set_update_memI)
        ultimately show ?thesis using active_trim[of u _ "task_step s e"] 2 True Update by simp
      next
        case False
        obtain k where k: "k < length (tasks s)" "tasks s ! k = t" using t(1) by (auto simp: in_set_conv_nth)
        with 2 t False have "(tasks s)[idx := u] ! k = t" by (cases "k = idx") auto
        with k have "t \<in> set ((tasks s)[idx := u])" by (metis length_list_update nth_mem)
        with active_trim[of t _ "task_step s e"] 2 t Update show ?thesis by simp
      qed
    qed (use assms Update in simp)
  next
    case (Finish j st ex now)
    show ?thesis
    proof (cases rule: finish_cases[of j st ex now s])
      case (2 idx x)
      obtain k where k: "k < length (tasks s)" "tasks s ! k = t" using t(1) by (auto simp: in_set_conv_nth)
      with 2 t assms(2) Finish have "(tasks s)[idx := finish_row st ex now x] ! k = t" by (cases "k = idx") auto
      with k have "t \<in> set ((tasks s)[idx := finish_row st ex now x])" by (metis length_list_update nth_mem)
      with active_trim[of t _ "task_step s e"] 2 t Finish show ?thesis by simp
    qed (use assms Finish in simp)
  next
    case (Remove j)
    show ?thesis
    proof (cases "List.find (\<lambda>t. task_id t = j) (tasks s)")
      case (Some x)
      then have "x \<in> set (tasks s)" "task_id x = j" by (auto simp: find_Some_iff)
      then have "j = i \<Longrightarrow> x = t" using same_task[OF assms(3) _ t(1)] t(2) by metis
      with Some t Remove show ?thesis by (auto simp: removeTask_def Let_def active_def)
    qed (use assms(1) Remove in \<open>simp add: removeTask_def\<close>)
  next
    case ClearFinished
    with t show ?thesis by (auto simp: clearFinished_def Let_def active_def)
  qed (use assms(1) in \<open>simp add: active_def\<close>)
qed

lemma active_run:
  "active i s \<Longrightarrow> \<forall>e \<in> set es. \<not> ends_task i e \<Longrightarrow> distinct (new_ids es @ tids s) \<Longrightarrow> active i (foldl task_step s es)"
proof (induction es arbitrary: s)
  case (Cons e es)
  have n: "new_ids (e # es) = new_ids [e] @ new_ids es" by (cases e) auto
  have "active i (task_step s e)" using active_step Cons.prems by simp
  moreover have "distinct (new_ids es @ tids (task_step s e))"
    using task_step_ids[of s e] Cons.prems(3) unfolding n by auto
  ultimately show ?case using Cons.IH Cons.prems(2) by simp
qed simp

section \<open>Speeds\<close>

text \<open>A kept speed is none, or at least a byte a second.\<close>

definition samples_ok :: "samples \<Rightarrow> bool" where
  "samples_ok smp \<longleftrightarrow> (\<forall>x \<in> ran smp. smp_bytesPerSec x = 0 \<or> smp_bytesPerSec x \<ge> MIN_RATE)"

lemma samples_ok_upd: "samples_ok smp \<Longrightarrow> smp_bytesPerSec x = 0 \<or> smp_bytesPerSec x \<ge> MIN_RATE \<Longrightarrow> samples_ok (smp(i \<mapsto> x))"
  by (auto simp: samples_ok_def ran_def)

lemma next_rate_ok: "next_rate prev cur dt = 0 \<or> next_rate prev cur dt \<ge> MIN_RATE"
  by (auto simp: next_rate_def Let_def)

lemma withEta_ok:
  assumes "bps \<ge> MIN_RATE" "withEta bps p = (r, eta)"
  shows "bytesPerSec r = bps" and "eta = Some e \<Longrightarrow> 0 \<le> e \<and> e * bps = max 0 (pr_total p - pr_current p)"
proof -
  have "bps > 0" using assms(1) by (simp add: MIN_RATE_def)
  then show "bytesPerSec r = bps" and "eta = Some e \<Longrightarrow> 0 \<le> e \<and> e * bps = max 0 (pr_total p - pr_current p)"
    using assms(2) by (auto simp: withEta_def Let_def split: if_splits)
qed

lemma deriveRate_ok:
  assumes "samples_ok smp" "deriveRate smp i progress now = (smp', res)"
  shows "samples_ok smp'"
    and "res = Some (r, eta) \<Longrightarrow> bytesPerSec r \<ge> MIN_RATE \<and>
           (\<forall>e. eta = Some e \<longrightarrow> 0 \<le> e \<and> (\<exists>p. progress = Some p \<and> e * bytesPerSec r = max 0 (pr_total p - pr_current p)))"
proof -
  have fresh: "samples_ok (smp(i \<mapsto> \<lparr>smp_at = a, smp_current = c, smp_bytesPerSec = 0\<rparr>))" for a c
    using assms(1) by (intro samples_ok_upd) simp_all
  have step: "samples_ok (smp(i \<mapsto> \<lparr>smp_at = a, smp_current = c, smp_bytesPerSec = next_rate prev cur dt\<rparr>))" for a c prev cur dt
    using assms(1) next_rate_ok by (intro samples_ok_upd) simp_all
  show "samples_ok smp'" using assms fresh step
    by (auto simp: deriveRate_def Let_def split: option.splits if_splits)
  assume "res = Some (r, eta)"
  moreover have "next_rate prev cur dt > 0 \<Longrightarrow> next_rate prev cur dt \<ge> MIN_RATE" for prev cur dt
    using next_rate_ok[of prev cur dt] by simp
  ultimately obtain p bps where "progress = Some p" "bps \<ge> MIN_RATE" "withEta bps p = (r, eta)"
    using assms by (fastforce simp: deriveRate_def Let_def samples_ok_def ran_def split: option.splits if_splits)
  then show "bytesPerSec r \<ge> MIN_RATE \<and> (\<forall>e. eta = Some e \<longrightarrow> 0 \<le> e \<and> (\<exists>p. progress = Some p \<and> e * bytesPerSec r = max 0 (pr_total p - pr_current p)))"
    using withEta_ok[of bps p r eta] by (auto simp: MIN_RATE_def)
qed

section \<open>An example\<close>

definition task_demo_init :: task_init where
  "task_demo_init = \<lparr>init_kind = Download, init_origin = ''files.download'', init_label = ''Download'', init_detail = None,
     init_consoleId = ''10.0.0.5:9113'', init_consoleKey = None, init_payload = None, init_engineJobId = None,
     init_control = None, init_status = None, init_progress = None\<rparr>"

definition task_demo :: task_state where
  "task_demo = foldl task_step (task_start None) [Register (\<lambda>_. None) ''a'' 1 task_demo_init,
     Register (\<lambda>_. None) ''b'' 2 task_demo_init,
     Finish ''a'' TDone \<lparr>ex_lastError = None, ex_progress = None, ex_detail = None\<rparr> 3]"

definition task_late :: task_event where
  "task_late = Finish ''a'' TFailed \<lparr>ex_lastError = None, ex_progress = None, ex_detail = None\<rparr> 9"

section \<open>Properties\<close>

text \<open>C24. Running work is never lost from the list: whatever is registered, updated, finished, removed or
  cleared, in any order and any number of times, a task that is running is still in the list and
  still running until an action ends that very task (ids are never given out twice).\<close>

theorem running_task_never_lost:
  assumes "\<exists>t \<in> set (tasks s). task_id t = i \<and> \<not> isTerminal (task_status t)"
    and "\<forall>e \<in> set es. \<not> ends_task i e" and "distinct (new_ids es @ map task_id (tasks s))"
  shows "\<exists>t \<in> set (tasks (foldl task_step s es)). task_id t = i \<and> \<not> isTerminal (task_status t)"
  using active_run[of i s es] assms by (simp add: active_def tids_def)

theorem running_task_never_lost_witness:
  "\<exists>t \<in> set (tasks (foldl task_step task_demo [task_late, ClearFinished, Remove ''b''])).
     task_id t = ''b'' \<and> \<not> isTerminal (task_status t)"
proof (rule running_task_never_lost)
  show "\<exists>t \<in> set (tasks task_demo). task_id t = ''b'' \<and> \<not> isTerminal (task_status t)" by code_simp
  show "distinct (new_ids [task_late, ClearFinished, Remove ''b''] @ map task_id (tasks task_demo))" by code_simp
qed (simp add: task_late_def)

text \<open>C25. The first end of a task is final: whatever happens later, a task that has ended is never
  changed again; it stays as it ended until it is removed, cleared or pushed out of the history.\<close>

theorem first_end_is_final:
  assumes "distinct (new_ids es @ map task_id (tasks s))" and "t \<in> set (tasks s)" "isTerminal (task_status t)"
    and "t' \<in> set (tasks (foldl task_step s es))" "task_id t' = task_id t"
  shows "t' = t"
  using ended_run[of es s t t'] assms by (simp add: tids_def)

theorem first_end_is_final_witness:
  "task_status (the (getTask ''a'' (task_step task_demo task_late))) = TDone"
proof -
  let ?t = "the (getTask ''a'' task_demo)" and ?t' = "the (getTask ''a'' (task_step task_demo task_late))"
  have "?t' \<in> set (tasks (foldl task_step task_demo [task_late]))" by code_simp
  moreover have "?t \<in> set (tasks task_demo)" "isTerminal (task_status ?t)" "task_id ?t' = task_id ?t" "task_status ?t = TDone"
    "distinct (new_ids [task_late] @ map task_id (tasks task_demo))" by code_simp+
  ultimately show ?thesis using first_end_is_final[of "[task_late]" task_demo ?t ?t'] by simp
qed



text \<open>C27. A speed the app derives is at least a byte a second and its time left is what is left divided by
  it, never negative; and every kept sample stays so, whatever is reported and whenever.\<close>

theorem derived_speed_sane:
  assumes "samples_ok smp" and "deriveRate smp i progress now = (smp', res)"
  shows "samples_ok smp' \<and>
    (\<forall>r eta. res = Some (r, eta) \<longrightarrow> bytesPerSec r \<ge> MIN_RATE \<and>
       (\<forall>e. eta = Some e \<longrightarrow> 0 \<le> e \<and> (\<exists>p. progress = Some p \<and> e * bytesPerSec r = max 0 (pr_total p - pr_current p))))"
  using deriveRate_ok[OF assms] by blast

theorem derived_speed_sane_witness:
  "samples_ok (fst (deriveRate [''x'' \<mapsto> \<lparr>smp_at = 0, smp_current = 0, smp_bytesPerSec = 0\<rparr>] ''x''
     (Some \<lparr>pr_current = 5000, pr_total = 9000, pr_unit = Bytes\<rparr>) 1000))"
  using derived_speed_sane[of "[''x'' \<mapsto> \<lparr>smp_at = 0, smp_current = 0, smp_bytesPerSec = 0\<rparr>]" "''x''"
     "Some \<lparr>pr_current = 5000, pr_total = 9000, pr_unit = Bytes\<rparr>" 1000, OF _ surjective_pairing]
  by (simp add: samples_ok_def)

end
