(* ===== verification/Paths.thy ===== *)
theory Paths
  imports Addr
begin

text \<open>
  Paths on a console and on a saved server (\<^verbatim>\<open>client/src/lib/consolePath.ts\<close>, and of
  \<^verbatim>\<open>lib/remotePath.ts\<close> the test whether a path is one): cleaning, the parent folder, and the names
  "Keep both" gives, with the lemma that makes the search for a free one end: different numbers give
  names that differ even when case is ignored.
\<close>

section \<open>Definitions\<close>

definition isRemotePath :: "string \<Rightarrow> bool" where
  "isRemotePath p \<longleftrightarrow> starts_with ''remote://'' p"

text \<open>\<^verbatim>\<open>lastIndexOf\<close> of one character.\<close>

definition last_index_of :: "char \<Rightarrow> string \<Rightarrow> nat option" where
  "last_index_of c s = map_option (\<lambda>i. length s - 1 - i) (index_of c (rev s))"

text \<open>\<^verbatim>\<open>replace(/\/{2,}/g, "/")\<close>.\<close>

fun collapse_slashes :: "string \<Rightarrow> string" where
  "collapse_slashes [] = []"
| "collapse_slashes (c # s) =
     (if c = CHR ''/'' \<and> starts_with ''/'' s then collapse_slashes s else c # collapse_slashes s)"

definition cleanConsolePath :: "string \<Rightarrow> string" where
  "cleanConsolePath p =
     (let c = collapse_slashes p
      in if length c > 1 then (if ends_with ''/'' c then butlast c else c) else c)"

definition consoleParentDir :: "string \<Rightarrow> string" where
  "consoleParentDir p =
     (if p = ''/'' \<or> p = [] then ''/''
      else case last_index_of CHR ''/'' p of
             None \<Rightarrow> ''/''
           | Some i \<Rightarrow> if i = 0 then ''/'' else take i p)"

text \<open>\<^verbatim>\<open>/^(.+) \((\d+)\)$/\<close>: the two groups.\<close>

definition numbered :: "string \<Rightarrow> (string \<times> nat) option" where
  "numbered s =
     (case rev s of
        [] \<Rightarrow> None
      | c # r \<Rightarrow>
          let ds = takeWhile is_digit r in
          if c \<noteq> CHR '')'' \<or> ds = [] then None
          else case drop (length ds) r of
                 a # b # p \<Rightarrow>
                   if a = CHR ''('' \<and> b = CHR '' '' \<and> p \<noteq> [] \<and> char_of (10 :: nat) \<notin> set p \<and> char_of (13 :: nat) \<notin> set p
                   then Some (rev p, decimal (rev ds)) else None
               | _ \<Rightarrow> None)"

definition stem_ext :: "string \<Rightarrow> bool \<Rightarrow> string \<times> string" where
  "stem_ext name dir =
     (case (if dir then None else last_index_of CHR ''.'' name) of
        None \<Rightarrow> (name, [])
      | Some dot \<Rightarrow> if dot > 0 then (take dot name, drop dot name) else (name, []))"

definition keepBothName :: "string \<Rightarrow> nat \<Rightarrow> bool \<Rightarrow> string" where
  "keepBothName name n dir =
     (case stem_ext name dir of
        (stem, ext) \<Rightarrow>
          (case numbered stem of None \<Rightarrow> stem | Some (base, _) \<Rightarrow> base) @ '' ('' @ show_nat n @ '')'' @ ext)"

section \<open>Lemmas\<close>

lemma decimal_snoc: "decimal (s @ [c]) = 10 * decimal s + digit_value c"
  by (simp add: decimal_def)

lemma decimal_show_nat [simp]: "decimal (show_nat n) = n"
proof (induction n rule: show_nat.induct)
  case (1 n)
  have "digit_value (char_of (48 + k)) = k" if "k < 10" for k :: nat
    using that by (simp add: digit_value_def of_char_of)
  with 1 show ?case by (subst show_nat.simps) (auto simp: decimal_snoc, simp add: decimal_def)
qed

lemma show_nat_inj [simp]: "show_nat n = show_nat m \<longleftrightarrow> n = m"
  by (metis decimal_show_nat)

lemma to_lower_append [simp]: "to_lower (s @ t) = to_lower s @ to_lower t"
  by (simp add: to_lower_def)

lemma to_lower_Cons [simp]: "to_lower (c # s) = lower_char c # to_lower s"
  by (simp add: to_lower_def)

lemma to_lower_digits: "\<forall>c \<in> set s. is_digit c \<Longrightarrow> to_lower s = s"
  unfolding to_lower_def by (rule map_idI) (auto simp: lower_char_def is_digit_def Let_def)

lemma to_lower_show_nat [simp]: "to_lower (show_nat n) = show_nat n"
  by (rule to_lower_digits) (rule show_nat_digits)

text \<open>Different numbers give different names, case ignored.\<close>

lemma keepBothName_inj:
  assumes "to_lower (keepBothName name n dir) = to_lower (keepBothName name m dir)"
  shows "n = m"
  using assms by (auto simp: keepBothName_def split: prod.splits option.splits)

lemma collapse_hd: "starts_with ''/'' (collapse_slashes s) = starts_with ''/'' s"
  by (induction s) (auto simp: starts_with_def take_Cons')

text \<open>A cleaned path has no empty part.\<close>

lemma collapse_no_double: "\<not> str_includes ''//'' (collapse_slashes s)"
proof (induction s)
  case (Cons c s)
  have "starts_with ''//'' (d # t) \<longleftrightarrow> d = CHR ''/'' \<and> starts_with ''/'' t" for d t
    by (auto simp: starts_with_def take_Cons')
  with Cons collapse_hd[of s] show ?case by auto
qed simp

end
