(* ===== verification/Fs_Upload_Plan.thy ===== *)
theory Fs_Upload_Plan
  imports Paths
begin

text \<open>
  The plan of an upload from the Files screen (\<^verbatim>\<open>client/src/state/fsUploadPlan.ts\<close>): names and their
  conflicts settled with the person's answers before anything is sent, the search for a free "Keep
  both" name, the grouping of files into one list job, what landed of a list that failed, the order
  the engine sends a list in, and the parallel look-up of what each picked path is.

  On strings of Latin-1 characters \<^verbatim>\<open>normalize("NFC")\<close> changes nothing. The answers (\<open>decide n c\<close>, the
  \<open>n\<close>-th question) and the new job ids are arguments. The search for a free name is a loop without a
  bound, so it is a \<open>partial_function\<close>, and that it always ends is a lemma. Objects that the code
  tells apart by identity carry the position of their pick.
\<close>

section \<open>Types\<close>

datatype FsConflictChoice = Replace | Skip | Keep

record FsConflict =
  cf_name :: string
  pickedDir :: bool
  existingDir :: bool
  canReplace :: bool
  cf_left :: int

record FsConflictDecision =
  dc_choice :: FsConflictChoice
  dc_all :: bool

datatype picked_kind = PickFile | PickFolder | PickOther | PickMissing

record FsPickedItem =
  pk_src :: string
  pk_kind :: picked_kind

record FsExistingEntry =
  en_name :: string
  en_kind :: string
  en_size :: nat

record FsListFile =
  lf_src :: string
  lf_name :: string
  lf_replacesSize :: "nat option"

text \<open>A step has its source, its name on the console, whether it is never a folder and its job id; a list the id and the files.\<close>

datatype FsUploadStep = StepOne string string bool "string option" | StepList string "FsListFile list"

record FsUploadPlan =
  up_steps :: "FsUploadStep list"
  up_skipped :: "string list"

record Planned =
  pl_ix :: nat
  pl_src :: string
  pl_name :: string
  pl_dir :: bool
  pl_listable :: bool
  pl_replacesSize :: "nat option"

section \<open>Names\<close>

definition nameKey :: "string \<Rightarrow> string" where
  "nameKey name = to_lower name"

definition is_sep :: "char \<Rightarrow> bool" where
  "is_sep c \<longleftrightarrow> c = CHR ''/'' \<or> c = CHR 0x5C"

definition baseNameOf :: "string \<Rightarrow> string" where
  "baseNameOf p =
     (let t = rev (dropWhile is_sep (rev p));
          seg = rev (takeWhile (\<lambda>c. \<not> is_sep c) (rev t))
      in if seg \<noteq> [] then seg else if t \<noteq> [] then t else ''file'')"

partial_function (option) keep_from :: "string \<Rightarrow> bool \<Rightarrow> (string \<Rightarrow> bool) \<Rightarrow> nat \<Rightarrow> string option" where
  "keep_from name dir taken n =
     (let candidate = keepBothName name n dir
      in if \<not> taken candidate then Some candidate else keep_from name dir taken (n + 1))"

declare keep_from.simps [code]

definition keep_start :: "string \<Rightarrow> bool \<Rightarrow> nat" where
  "keep_start name dir =
     (case numbered (fst (stem_ext name dir)) of None \<Rightarrow> 2 | Some (_, k) \<Rightarrow> max 2 (k + 1))"

definition freeKeepBothName :: "string \<Rightarrow> bool \<Rightarrow> (string \<Rightarrow> bool) \<Rightarrow> string option" where
  "freeKeepBothName name dir taken = keep_from name dir taken (keep_start name dir)"

definition listable :: "FsPickedItem \<Rightarrow> bool" where
  "listable item \<longleftrightarrow> pk_kind item = PickFile \<and> \<not> isRemotePath (pk_src item)"

section \<open>Settling the conflicts\<close>

record plan_state =
  ps_planned :: "string \<rightharpoonup> Planned"
  ps_order :: "Planned list"
  ps_skipped :: "string list"
  ps_always :: "FsConflictChoice option"
  ps_pending :: int
  ps_asked :: nat

definition there_map :: "FsExistingEntry list \<Rightarrow> (string \<rightharpoonup> FsExistingEntry)" where
  "there_map existing = fold (\<lambda>e m. m(nameKey (en_name e) \<mapsto> e)) existing Map.empty"

text \<open>The conflicts counted up front.\<close>

fun count_pending :: "(string \<rightharpoonup> FsExistingEntry) \<Rightarrow> string set \<Rightarrow> FsPickedItem list \<Rightarrow> int" where
  "count_pending there seen [] = 0"
| "count_pending there seen (p # ps) =
     (let k = nameKey (baseNameOf (pk_src p))
      in (if there k \<noteq> None \<or> k \<in> seen then 1 else 0) + count_pending there (insert k seen) ps)"

definition put :: "string \<Rightarrow> Planned \<Rightarrow> plan_state \<Rightarrow> plan_state" where
  "put k item st = st\<lparr>ps_planned := (ps_planned st)(k \<mapsto> item), ps_order := ps_order st @ [item]\<rparr>"

text \<open>What is asked, and the choice that counts: \<open>None\<close> when the person cancels.\<close>

definition choose_answer ::
    "(nat \<Rightarrow> FsConflict \<Rightarrow> FsConflictDecision option) \<Rightarrow> FsConflict \<Rightarrow> plan_state \<Rightarrow> (FsConflictChoice \<times> plan_state) option" where
  "choose_answer decide c st =
     (case (if ps_always st = Some Replace \<and> \<not> canReplace c then None else ps_always st) of
        Some ch \<Rightarrow> Some (ch, st)
      | None \<Rightarrow>
          (case decide (ps_asked st) c of
             None \<Rightarrow> None
           | Some d \<Rightarrow>
               Some (if dc_choice d = Replace \<and> \<not> canReplace c then Keep else dc_choice d,
                     st\<lparr>ps_asked := ps_asked st + 1,
                        ps_always := (if dc_all d then Some (dc_choice d) else ps_always st)\<rparr>)))"

definition taken :: "(string \<rightharpoonup> FsExistingEntry) \<Rightarrow> plan_state \<Rightarrow> string \<Rightarrow> bool" where
  "taken there st n \<longleftrightarrow> there (nameKey n) \<noteq> None \<or> ps_planned st (nameKey n) \<noteq> None"

definition replace_item ::
    "Planned option \<Rightarrow> FsExistingEntry option \<Rightarrow> Planned \<Rightarrow> plan_state \<Rightarrow> plan_state" where
  "replace_item earlier onDisk item st =
     (case earlier of
        Some e \<Rightarrow>
          if pl_dir item
          then put (nameKey (pl_name e)) (item\<lparr>pl_name := pl_name e\<rparr>) st
          else put (nameKey (pl_name e))
                 (item\<lparr>pl_name := pl_name e,
                       pl_replacesSize := (if pl_replacesSize e \<noteq> None then pl_replacesSize e else pl_replacesSize item)\<rparr>)
                 (st\<lparr>ps_order := filter (\<lambda>x. pl_ix x \<noteq> pl_ix e) (ps_order st)\<rparr>)
      | None \<Rightarrow>
          (case onDisk of
             Some d \<Rightarrow>
               put (nameKey (en_name d))
                 (item\<lparr>pl_name := en_name d,
                       pl_replacesSize := (if en_kind d = ''file'' then Some (en_size d) else pl_replacesSize item)\<rparr>) st
           | None \<Rightarrow> put (nameKey (pl_name item)) item st))"

text \<open>One picked item. The outer \<open>None\<close> would be a search that never ends, the inner one the person
  cancelling.\<close>

definition picked_item :: "nat \<Rightarrow> FsPickedItem \<Rightarrow> Planned" where
  "picked_item ix p =
     \<lparr>pl_ix = ix, pl_src = pk_src p, pl_name = baseNameOf (pk_src p), pl_dir = (pk_kind p = PickFolder),
      pl_listable = listable p, pl_replacesSize = None\<rparr>"

definition exDir :: "Planned option \<Rightarrow> FsExistingEntry option \<Rightarrow> bool" where
  "exDir earlier onDisk =
     (case earlier of
        Some e \<Rightarrow> pl_dir e
      | None \<Rightarrow> (case onDisk of Some d \<Rightarrow> en_kind d = ''dir'' | None \<Rightarrow> False))"

definition conflict :: "Planned \<Rightarrow> bool \<Rightarrow> int \<Rightarrow> FsConflict" where
  "conflict item ex pending =
     \<lparr>cf_name = pl_name item, pickedDir = pl_dir item, existingDir = ex, canReplace = (ex = pl_dir item),
      cf_left = max 0 pending\<rparr>"

definition keep_item :: "(string \<rightharpoonup> FsExistingEntry) \<Rightarrow> Planned \<Rightarrow> plan_state \<Rightarrow> plan_state option" where
  "keep_item there item st =
     map_option (\<lambda>n. put (nameKey n) (item\<lparr>pl_name := n\<rparr>) st)
       (freeKeepBothName (pl_name item) (pl_dir item) (taken there st))"

definition settle_item ::
    "(string \<rightharpoonup> FsExistingEntry) \<Rightarrow> (nat \<Rightarrow> FsConflict \<Rightarrow> FsConflictDecision option) \<Rightarrow> nat \<Rightarrow> FsPickedItem
      \<Rightarrow> plan_state \<Rightarrow> plan_state option option" where
  "settle_item there decide ix p st =
     (let item = picked_item ix p; k = nameKey (pl_name item);
          earlier = ps_planned st k; onDisk = there k;
          st1 = st\<lparr>ps_pending := ps_pending st - 1\<rparr>
      in if earlier = None \<and> onDisk = None then Some (Some (put k item st))
         else case choose_answer decide (conflict item (exDir earlier onDisk) (ps_pending st1)) st1 of
                None \<Rightarrow> Some None
              | Some (Skip, st2) \<Rightarrow> Some (Some (st2\<lparr>ps_skipped := ps_skipped st2 @ [pk_src p]\<rparr>))
              | Some (Keep, st2) \<Rightarrow> map_option Some (keep_item there item st2)
              | Some (Replace, st2) \<Rightarrow> Some (Some (replace_item earlier onDisk item st2)))"

fun settle_all ::
    "(string \<rightharpoonup> FsExistingEntry) \<Rightarrow> (nat \<Rightarrow> FsConflict \<Rightarrow> FsConflictDecision option) \<Rightarrow> nat \<Rightarrow> FsPickedItem list
      \<Rightarrow> plan_state \<Rightarrow> plan_state option option" where
  "settle_all there decide ix [] st = Some (Some st)"
| "settle_all there decide ix (p # ps) st =
     (case settle_item there decide ix p st of
        None \<Rightarrow> None
      | Some None \<Rightarrow> Some None
      | Some (Some st') \<Rightarrow> settle_all there decide (ix + 1) ps st')"

section \<open>Grouping into steps\<close>

definition goes_listed :: "Planned \<Rightarrow> bool" where
  "goes_listed i \<longleftrightarrow> pl_listable i \<and> \<not> pl_dir i"

definition list_file :: "Planned \<Rightarrow> FsListFile" where
  "list_file f = \<lparr>lf_src = pl_src f, lf_name = pl_name f, lf_replacesSize = pl_replacesSize f\<rparr>"

text \<open>\<open>n\<close> ids given out so far; \<open>at\<close> whether the list has its place already.\<close>

fun group_steps :: "(nat \<Rightarrow> string) \<Rightarrow> Planned list \<Rightarrow> bool \<Rightarrow> nat \<Rightarrow> Planned list \<Rightarrow> FsUploadStep list" where
  "group_steps newTxId listed placed n [] = []"
| "group_steps newTxId listed placed n (i # is) =
     (if length listed \<ge> 2 \<and> goes_listed i
      then (if placed then group_steps newTxId listed placed n is
            else StepList (newTxId n) (map list_file listed) # group_steps newTxId listed True (n + 1) is)
      else StepOne (pl_src i) (pl_name i) False (Some (newTxId n)) # group_steps newTxId listed placed (n + 1) is)"

definition plan_init :: "(string \<rightharpoonup> FsExistingEntry) \<Rightarrow> FsPickedItem list \<Rightarrow> plan_state" where
  "plan_init there picked = \<lparr>ps_planned = Map.empty, ps_order = [], ps_skipped = [], ps_always = None,
                             ps_pending = count_pending there {} picked, ps_asked = 0\<rparr>"

definition planFsUpload ::
    "FsPickedItem list \<Rightarrow> FsExistingEntry list \<Rightarrow> (nat \<Rightarrow> FsConflict \<Rightarrow> FsConflictDecision option) \<Rightarrow> (nat \<Rightarrow> string)
      \<Rightarrow> FsUploadPlan option option" where
  "planFsUpload picked existing decide newTxId =
     (case settle_all (there_map existing) decide 0 picked (plan_init (there_map existing) picked) of
        None \<Rightarrow> None
      | Some None \<Rightarrow> Some None
      | Some (Some st) \<Rightarrow>
          Some (Some \<lparr>up_steps = group_steps newTxId (filter goes_listed (ps_order st)) False 0 (ps_order st),
                      up_skipped = ps_skipped st\<rparr>))"

definition stepCount :: "FsUploadStep \<Rightarrow> nat" where
  "stepCount s = (case s of StepList _ fs \<Rightarrow> length fs | StepOne _ _ _ _ \<Rightarrow> 1)"

section \<open>After a list failed\<close>

definition landed_file ::
    "(string \<rightharpoonup> FsExistingEntry) \<Rightarrow> (string \<rightharpoonup> nat) option \<Rightarrow> FsListFile \<Rightarrow> bool" where
  "landed_file loc sizes f =
     (let want = (case sizes of None \<Rightarrow> None | Some m \<Rightarrow> m (lf_name f))
      in case loc (nameKey (lf_name f)) of
           None \<Rightarrow> False
         | Some e \<Rightarrow>
             en_kind e = ''file'' \<and>
             (case want of None \<Rightarrow> lf_replacesSize f = None | Some w \<Rightarrow> en_size e = w) \<and>
             (lf_replacesSize f = None \<or> want = None \<or> lf_replacesSize f \<noteq> want))"

definition landedOfList ::
    "FsListFile list \<Rightarrow> FsExistingEntry list option \<Rightarrow> (string \<rightharpoonup> nat) option \<Rightarrow> FsListFile list \<times> FsListFile list" where
  "landedOfList files listing sizes =
     (case listing of
        None \<Rightarrow> ([], files)
      | Some l \<Rightarrow> (filter (landed_file (there_map l) sizes) files,
                   filter (\<lambda>f. \<not> landed_file (there_map l) sizes f) files))"

section \<open>The order a list is sent in\<close>

text \<open>\<^verbatim>\<open>TextEncoder\<close>.\<close>

definition utf8 :: "string \<Rightarrow> nat list" where
  "utf8 s = concat (map utf8_char s)"

fun cmp_bytes :: "nat list \<Rightarrow> nat list \<Rightarrow> int" where
  "cmp_bytes (a # as) (b # bs) = (if a \<noteq> b then int a - int b else cmp_bytes as bs)"
| "cmp_bytes as bs = int (length as) - int (length bs)"

definition cmp_names :: "string \<Rightarrow> string \<Rightarrow> int" where
  "cmp_names a b = cmp_bytes (utf8 a) (utf8 b)"

definition sendOrder :: "FsListFile list \<Rightarrow> string list" where
  "sendOrder files = js_sort cmp_names (map lf_name files)"

section \<open>What each picked path is\<close>

text \<open>The workers share one counter; each waits for the kind of one path at a time. \<open>kw_busy\<close> holds the
  paths being asked about, \<open>answer\<close> what the look-up says (\<open>None\<close> when it fails).\<close>

record kinds_state =
  kw_next :: nat
  kw_busy :: "nat list"
  kw_out :: "picked_kind list"

definition kind_of_answer :: "string option \<Rightarrow> picked_kind" where
  "kind_of_answer k =
     (if k = Some ''folder'' then PickFolder else if k = Some ''missing'' then PickMissing
      else if k = Some ''other'' then PickOther else PickFile)"

text \<open>A worker takes the next path, or ends.\<close>

definition take_next :: "nat \<Rightarrow> kinds_state \<Rightarrow> kinds_state" where
  "take_next len s =
     (if kw_next s < len then s\<lparr>kw_busy := kw_next s # kw_busy s, kw_next := kw_next s + 1\<rparr>
      else s\<lparr>kw_next := kw_next s + 1\<rparr>)"

definition kinds_start :: "string list \<Rightarrow> nat \<Rightarrow> kinds_state" where
  "kinds_start paths parallel =
     ((take_next (length paths)) ^^ (min parallel (length paths)))
       \<lparr>kw_next = 0, kw_busy = [], kw_out = replicate (length paths) PickFile\<rparr>"

inductive kinds_step :: "string list \<Rightarrow> (string \<Rightarrow> string option) \<Rightarrow> kinds_state \<Rightarrow> kinds_state \<Rightarrow> bool" for paths answer where
  reply: "i \<in> set (kw_busy s) \<Longrightarrow>
    kinds_step paths answer s
      (take_next (length paths)
         (s\<lparr>kw_busy := remove1 i (kw_busy s), kw_out := (kw_out s)[i := kind_of_answer (answer (paths ! i))]\<rparr>))"

definition kinds_hint :: "string list \<Rightarrow> picked_kind \<Rightarrow> FsPickedItem list" where
  "kinds_hint paths hint = map (\<lambda>src. \<lparr>pk_src = src, pk_kind = hint\<rparr>) paths"

section \<open>A free name is always found\<close>

lemma keep_from_found:
  assumes "\<not> tk (keepBothName name (n + d) dir)"
  shows "\<exists>m \<ge> n. keep_from name dir tk n = Some (keepBothName name m dir) \<and> \<not> tk (keepBothName name m dir)"
  using assms
proof (induction d arbitrary: n)
  case 0
  then show ?case by (subst keep_from.simps) (auto simp: Let_def)
next
  case (Suc d)
  show ?case
  proof (cases "tk (keepBothName name n dir)")
    case True
    with Suc.IH[of "n + 1"] Suc.prems obtain m where "m \<ge> n + 1"
        "keep_from name dir tk (n + 1) = Some (keepBothName name m dir)" "\<not> tk (keepBothName name m dir)"
      by auto
    with True show ?thesis by (subst keep_from.simps) (auto simp: Let_def intro: exI[of _ m])
  next
    case False
    then show ?thesis by (subst keep_from.simps) (auto simp: Let_def)
  qed
qed

lemma some_name_free:
  assumes "finite T" "\<And>m. tk m \<Longrightarrow> nameKey m \<in> T"
  shows "\<exists>d. \<not> tk (keepBothName name (n + d) dir)"
proof (rule ccontr)
  assume "\<nexists>d. \<not> tk (keepBothName name (n + d) dir)"
  then have "range (\<lambda>d. nameKey (keepBothName name (n + d) dir)) \<subseteq> T" using assms(2) by auto
  moreover have "inj (\<lambda>d. nameKey (keepBothName name (n + d) dir))"
    by (rule injI) (use keepBothName_inj in \<open>fastforce simp: nameKey_def\<close>)
  ultimately show False using assms(1) by (metis finite_imageD finite_subset infinite_UNIV_nat)
qed

lemma freeKeepBothName_found:
  assumes "finite T" "\<And>m. tk m \<Longrightarrow> nameKey m \<in> T"
  obtains n where "freeKeepBothName name dir tk = Some n" "\<not> tk n"
proof -
  obtain d where "\<not> tk (keepBothName name (keep_start name dir + d) dir)"
    using some_name_free[of T tk, OF assms] by blast
  from keep_from_found[of tk, OF this] that show thesis unfolding freeKeepBothName_def by blast
qed

section \<open>The plan so far\<close>

definition there_ok :: "(string \<rightharpoonup> FsExistingEntry) \<Rightarrow> bool" where
  "there_ok there \<longleftrightarrow> finite (dom there) \<and> (\<forall>k e. there k = Some e \<longrightarrow> nameKey (en_name e) = k)"

lemma there_map_ok: "there_ok (there_map existing)"
proof -
  have "there_ok (m(nameKey (en_name e) \<mapsto> e))" if "there_ok m" for m e
    using that by (simp add: there_ok_def)
  moreover have "there_ok Map.empty" by (simp add: there_ok_def)
  ultimately show ?thesis unfolding there_map_def
    by (intro fold_invariant[where Q = "\<lambda>_. True" and P = there_ok]) simp_all
qed

lemma dom_there_map: "dom (there_map es) = nameKey ` en_name ` set es"
proof -
  have "dom (fold (\<lambda>e m. m(nameKey (en_name e) \<mapsto> e)) es m) = dom m \<union> nameKey ` en_name ` set es" for m :: "string \<rightharpoonup> FsExistingEntry"
  proof (induction es arbitrary: m)
    case (Cons a es)
    show ?case unfolding fold_simps Cons.IH by auto
  qed simp
  then show ?thesis by (simp add: there_map_def)
qed

definition key_of :: "Planned \<Rightarrow> string" where
  "key_of i = nameKey (pl_name i)"

text \<open>What holds after the first \<open>ix\<close> picks: the given names are those of the planned items; a file is
  the only item of its name; an item that lands on an entry of the folder is of its kind.\<close>

definition plan_inv :: "(string \<rightharpoonup> FsExistingEntry) \<Rightarrow> nat \<Rightarrow> plan_state \<Rightarrow> bool" where
  "plan_inv there ix st \<longleftrightarrow>
     distinct (map pl_ix (ps_order st)) \<and> (\<forall>i \<in> set (ps_order st). pl_ix i < ix) \<and>
     (\<forall>k i. ps_planned st k = Some i \<longrightarrow> i \<in> set (ps_order st) \<and> key_of i = k) \<and>
     (\<forall>i \<in> set (ps_order st). \<exists>j. ps_planned st (key_of i) = Some j \<and> pl_dir j = pl_dir i \<and> (\<not> pl_dir i \<longrightarrow> j = i)) \<and>
     (\<forall>i \<in> set (ps_order st). \<forall>e. there (key_of i) = Some e \<longrightarrow> pl_dir i = (en_kind e = ''dir''))"

lemma plan_invD:
  assumes "plan_inv there ix st"
  shows "distinct (map pl_ix (ps_order st))" "\<And>i. i \<in> set (ps_order st) \<Longrightarrow> pl_ix i < ix"
    "\<And>k i. ps_planned st k = Some i \<Longrightarrow> i \<in> set (ps_order st) \<and> key_of i = k"
    "\<And>i. i \<in> set (ps_order st) \<Longrightarrow> \<exists>j. ps_planned st (key_of i) = Some j \<and> pl_dir j = pl_dir i \<and> (\<not> pl_dir i \<longrightarrow> j = i)"
    "\<And>i e. i \<in> set (ps_order st) \<Longrightarrow> there (key_of i) = Some e \<Longrightarrow> pl_dir i = (en_kind e = ''dir'')"
  using assms unfolding plan_inv_def by blast+

text \<open>Putting an item under a name no planned item has, or into a folder that is planned.\<close>

lemma plan_inv_put:
  assumes inv: "plan_inv there ix st" and i: "pl_ix item = ix" and k: "key_of item = k"
    and old: "\<And>i. i \<in> set (ps_order st) \<Longrightarrow> key_of i = k \<Longrightarrow> pl_dir i \<and> pl_dir item"
    and disk: "\<And>e. there k = Some e \<Longrightarrow> pl_dir item = (en_kind e = ''dir'')"
  shows "plan_inv there (ix + 1) (put k item st)"
proof -
  note d = plan_invD[OF inv]
  have o: "ps_order (put k item st) = ps_order st @ [item]" "ps_planned (put k item st) = (ps_planned st)(k \<mapsto> item)"
    by (simp_all add: put_def)
  show ?thesis unfolding plan_inv_def o
  proof (intro conjI ballI allI impI)
    show "distinct (map pl_ix (ps_order st @ [item]))" using d(1,2) i by fastforce
  next
    fix x assume "x \<in> set (ps_order st @ [item])"
    then show "pl_ix x < ix + 1" using d(2) i by fastforce
  next
    fix k' x assume "((ps_planned st)(k \<mapsto> item)) k' = Some x"
    then show "x \<in> set (ps_order st @ [item])" "key_of x = k'" using d(3) k by (auto split: if_splits)
  next
    fix x assume x: "x \<in> set (ps_order st @ [item])"
    show "\<exists>j. ((ps_planned st)(k \<mapsto> item)) (key_of x) = Some j \<and> pl_dir j = pl_dir x \<and> (\<not> pl_dir x \<longrightarrow> j = x)"
    proof (cases "x = item")
      case False
      with x have "x \<in> set (ps_order st)" by simp
      with d(4) old show ?thesis by auto
    qed (simp add: k)
  next
    fix x e assume "x \<in> set (ps_order st @ [item])" "there (key_of x) = Some e"
    then show "pl_dir x = (en_kind e = ''dir'')" using d(5) disk k by auto
  qed
qed

lemma plan_inv_fields:
  "ps_order st' = ps_order st \<Longrightarrow> ps_planned st' = ps_planned st \<Longrightarrow> plan_inv there ix st' = plan_inv there ix st"
  by (simp add: plan_inv_def)

lemma plan_inv_mono:
  assumes "plan_inv there ix st"
  shows "plan_inv there (ix + 1) st"
proof -
  have "\<forall>i \<in> set (ps_order st). pl_ix i < ix + 1" using plan_invD(2)[OF assms] by fastforce
  with assms show ?thesis unfolding plan_inv_def by blast
qed

lemma unplanned: "plan_inv there ix st \<Longrightarrow> ps_planned st k = None \<Longrightarrow> i \<in> set (ps_order st) \<Longrightarrow> key_of i \<noteq> k"
  using plan_invD(4) by fastforce

lemma choose_fields:
  assumes "choose_answer decide c st = Some (ch, st')"
  shows "ps_order st' = ps_order st" "ps_planned st' = ps_planned st" "ps_skipped st' = ps_skipped st"
    "ch = Replace \<Longrightarrow> canReplace c"
  using assms by (auto simp: choose_answer_def split: option.splits if_splits)

lemma plan_inv_drop:
  assumes inv: "plan_inv there ix st" and e: "ps_planned st k = Some e" "\<not> pl_dir e"
  defines "st' \<equiv> st\<lparr>ps_order := filter (\<lambda>x. pl_ix x \<noteq> pl_ix e) (ps_order st), ps_planned := (ps_planned st)(k := None)\<rparr>"
  shows "plan_inv there ix st'" and "i \<in> set (ps_order st') \<Longrightarrow> key_of i \<noteq> k"
proof -
  note d = plan_invD[OF inv]
  have only: "i \<in> set (ps_order st) \<Longrightarrow> key_of i = k \<Longrightarrow> i = e" for i using d(4)[of i] e by auto
  have e': "e \<in> set (ps_order st)" "key_of e = k" using d(3)[OF e(1)] by auto
  have gone: "i \<in> set (ps_order st) \<Longrightarrow> pl_ix i = pl_ix e \<Longrightarrow> i = e" for i
    using d(1) e'(1) by (metis distinct_map inj_onD)
  show "i \<in> set (ps_order st') \<Longrightarrow> key_of i \<noteq> k" using only by (auto simp: st'_def)
  have o: "ps_order st' = filter (\<lambda>x. pl_ix x \<noteq> pl_ix e) (ps_order st)" "ps_planned st' = (ps_planned st)(k := None)"
    by (simp_all add: st'_def)
  show "plan_inv there ix st'" unfolding plan_inv_def o
  proof (intro conjI ballI allI impI)
    show "distinct (map pl_ix (filter (\<lambda>x. pl_ix x \<noteq> pl_ix e) (ps_order st)))"
      using d(1) by (rule distinct_map_filter)
  next
    fix x assume "x \<in> set (filter (\<lambda>x. pl_ix x \<noteq> pl_ix e) (ps_order st))"
    then show "pl_ix x < ix" using d(2) by simp
  next
    fix k' x assume x: "((ps_planned st)(k := None)) k' = Some x"
    then have "ps_planned st k' = Some x" "k' \<noteq> k" by (auto split: if_splits)
    with d(3) e' gone show "x \<in> set (filter (\<lambda>x. pl_ix x \<noteq> pl_ix e) (ps_order st))" "key_of x = k'" by auto
  next
    fix x assume x: "x \<in> set (filter (\<lambda>x. pl_ix x \<noteq> pl_ix e) (ps_order st))"
    then have "key_of x \<noteq> k" using only by auto
    with d(4)[of x] x show "\<exists>j. ((ps_planned st)(k := None)) (key_of x) = Some j \<and> pl_dir j = pl_dir x \<and> (\<not> pl_dir x \<longrightarrow> j = x)"
      by simp
  next
    fix x e' assume "x \<in> set (filter (\<lambda>x. pl_ix x \<noteq> pl_ix e) (ps_order st))" "there (key_of x) = Some e'"
    then show "pl_dir x = (en_kind e' = ''dir'')" using d(5) by simp
  qed
qed

section \<open>Every pick keeps the plan sound\<close>

lemma inv_new:
  assumes "plan_inv there ix st" "pl_ix item = ix" "key_of item = k" "ps_planned st k = None"
    and "\<And>e. there k = Some e \<Longrightarrow> pl_dir item = (en_kind e = ''dir'')"
  shows "plan_inv there (ix + 1) (put k item st)"
  using plan_inv_put[OF assms(1-3) _ assms(5)] unplanned[OF assms(1,4)] by blast

lemma inv_keep:
  assumes inv: "plan_inv there ix st" and th: "there_ok there" and ix: "pl_ix item = ix"
  shows "\<exists>st'. keep_item there item st = Some st' \<and> plan_inv there (ix + 1) st'"
proof -
  have "dom (ps_planned st) \<subseteq> key_of ` set (ps_order st)" using plan_invD(3)[OF inv] by force
  then have fin: "finite (dom there \<union> dom (ps_planned st))" using th by (simp add: there_ok_def finite_subset[OF _ finite_imageI[OF finite_set]])
  obtain n where n: "freeKeepBothName (pl_name item) (pl_dir item) (taken there st) = Some n" "\<not> taken there st n"
    by (rule freeKeepBothName_found[OF fin, of "taken there st"]) (auto simp: taken_def)
  have "plan_inv there (ix + 1) (put (nameKey n) (item\<lparr>pl_name := n\<rparr>) st)"
    by (rule inv_new[OF inv]) (use n(2) ix in \<open>simp_all add: taken_def key_of_def\<close>)
  with n(1) show ?thesis by (simp add: keep_item_def)
qed

lemma inv_replace_planned:
  assumes inv: "plan_inv there ix st" and ix: "pl_ix item = ix" and e: "ps_planned st k = Some e" and dir: "pl_dir e = pl_dir item"
  shows "plan_inv there (ix + 1) (replace_item (Some e) onDisk item st)"
proof -
  have e': "e \<in> set (ps_order st)" "nameKey (pl_name e) = k" using plan_invD(3)[OF inv e] by (auto simp: key_of_def)
  have disk: "there k = Some x \<Longrightarrow> pl_dir item = (en_kind x = ''dir'')" for x
    using plan_invD(5)[OF inv e'(1)] e'(2) dir by (simp add: key_of_def)
  show ?thesis
  proof (cases "pl_dir item")
    case True
    have "pl_dir i" if "i \<in> set (ps_order st)" "key_of i = k" for i
      using plan_invD(4)[OF inv that(1)] that(2) e dir True by auto
    then have "plan_inv there (ix + 1) (put k (item\<lparr>pl_name := pl_name e\<rparr>) st)"
      by (intro plan_inv_put[OF inv]) (use ix e' True disk in \<open>simp_all add: key_of_def\<close>)
    with True e' show ?thesis by (simp add: replace_item_def)
  next
    case False
    define st3 where "st3 = st\<lparr>ps_order := filter (\<lambda>x. pl_ix x \<noteq> pl_ix e) (ps_order st), ps_planned := (ps_planned st)(k := None)\<rparr>"
    have inv3: "plan_inv there ix st3" using plan_inv_drop(1)[OF inv e] False dir by (simp add: st3_def)
    let ?it = "item\<lparr>pl_name := pl_name e, pl_replacesSize := (if pl_replacesSize e \<noteq> None then pl_replacesSize e else pl_replacesSize item)\<rparr>"
    have "plan_inv there (ix + 1) (put k ?it st3)"
      by (rule inv_new[OF inv3]) (use ix e' disk in \<open>simp_all add: key_of_def st3_def\<close>)
    moreover have "replace_item (Some e) onDisk item st = put k ?it st3"
      using False e' by (simp add: replace_item_def put_def st3_def)
    ultimately show ?thesis by simp
  qed
qed

lemma inv_replace_disk:
  assumes "plan_inv there ix st" "there_ok there" "pl_ix item = ix" "ps_planned st k = None" "there k = Some d"
    and "(en_kind d = ''dir'') = pl_dir item"
  shows "plan_inv there (ix + 1) (replace_item None (Some d) item st)"
proof -
  have "nameKey (en_name d) = k" using assms(2,5) by (simp add: there_ok_def)
  then show ?thesis unfolding replace_item_def option.case
    by (intro inv_new[OF assms(1)]) (use assms in \<open>simp_all add: key_of_def\<close>)
qed

lemma settle_item_inv:
  assumes inv: "plan_inv there ix st" and th: "there_ok there"
  shows "\<exists>r. settle_item there decide ix p st = Some r \<and> (\<forall>st'. r = Some st' \<longrightarrow> plan_inv there (ix + 1) st')"
proof -
  let ?it = "picked_item ix p" let ?k = "nameKey (pl_name ?it)"
  let ?e = "ps_planned st ?k" and ?d = "there ?k" let ?st1 = "st\<lparr>ps_pending := ps_pending st - 1\<rparr>"
  let ?c = "conflict ?it (exDir ?e ?d) (ps_pending ?st1)"
  have ix: "pl_ix ?it = ix" by (simp add: picked_item_def)
  show ?thesis
  proof (cases "?e = None \<and> ?d = None")
    case True
    have "plan_inv there (ix + 1) (put ?k ?it st)" by (rule inv_new[OF inv ix]) (use True in \<open>simp_all add: key_of_def\<close>)
    with True show ?thesis by (simp add: settle_item_def Let_def)
  next
    case conflict: False
    show ?thesis
    proof (cases "choose_answer decide ?c ?st1")
      case None
      with conflict show ?thesis by (auto simp: settle_item_def Let_def)
    next
      case (Some a)
      obtain ch st2 where a: "a = (ch, st2)" by fastforce
      note f = choose_fields[OF Some[unfolded a]]
      have inv2: "plan_inv there ix st2" using inv f plan_inv_fields[of st2 ?st1] plan_inv_fields[of ?st1 st] by simp
      have step: "settle_item there decide ix p st = (case ch of
            Skip \<Rightarrow> Some (Some (st2\<lparr>ps_skipped := ps_skipped st2 @ [pk_src p]\<rparr>))
          | Keep \<Rightarrow> map_option Some (keep_item there ?it st2)
          | Replace \<Rightarrow> Some (Some (replace_item ?e ?d ?it st2)))"
        unfolding settle_item_def Let_def using conflict Some a by (auto split: FsConflictChoice.split)
      show ?thesis
      proof (cases ch)
        case Skip
        have "plan_inv there (ix + 1) (st2\<lparr>ps_skipped := ps_skipped st2 @ [pk_src p]\<rparr>)"
          using plan_inv_mono[OF inv2] by (simp add: plan_inv_def)
        with Skip step show ?thesis by simp
      next
        case Keep
        with inv_keep[OF inv2 th ix] step show ?thesis by auto
      next
        case Replace
        then have can: "exDir ?e ?d = pl_dir ?it" using f(4) by (simp add: conflict_def)
        have "plan_inv there (ix + 1) (replace_item ?e ?d ?it st2)"
        proof (cases ?e)
          case (Some e)
          with inv_replace_planned[OF inv2 ix, of ?k e] can f(2) show ?thesis by (simp add: exDir_def)
        next
          case None
          with conflict obtain d where d: "?d = Some d" by auto
          with inv_replace_disk[OF inv2 th ix, of ?k d] can f(2) None show ?thesis by (simp add: exDir_def)
        qed
        with Replace step show ?thesis by simp
      qed
    qed
  qed
qed

lemma settle_all_inv:
  assumes "plan_inv there ix st" "there_ok there"
  shows "\<exists>r. settle_all there decide ix ps st = Some r \<and> (\<forall>st'. r = Some st' \<longrightarrow> plan_inv there (ix + length ps) st')"
  using assms
proof (induction ps arbitrary: ix st)
  case (Cons p ps)
  obtain r where r: "settle_item there decide ix p st = Some r" "\<And>st'. r = Some st' \<Longrightarrow> plan_inv there (ix + 1) st'"
    using settle_item_inv[OF Cons.prems] by blast
  show ?case
  proof (cases r)
    case (Some st')
    with Cons.IH[OF r(2)[OF Some] Cons.prems(2)] r(1) show ?thesis by auto
  qed (use r(1) in simp)
qed simp

lemma plan_inv_init: "plan_inv there 0 (plan_init there picked)"
  by (simp add: plan_inv_def plan_init_def)

section \<open>Without Replace\<close>

text \<open>When nobody answers Replace: every name is free in the folder and given once, and every pick is sent
  or skipped.\<close>

definition no_replace :: "(nat \<Rightarrow> FsConflict \<Rightarrow> FsConflictDecision option) \<Rightarrow> bool" where
  "no_replace decide \<longleftrightarrow> (\<forall>n c d. decide n c = Some d \<longrightarrow> dc_choice d \<noteq> Replace)"

definition clean_inv :: "(string \<rightharpoonup> FsExistingEntry) \<Rightarrow> FsPickedItem list \<Rightarrow> plan_state \<Rightarrow> bool" where
  "clean_inv there picks st \<longleftrightarrow>
     ps_always st \<noteq> Some Replace \<and> (\<forall>i \<in> set (ps_order st). there (key_of i) = None) \<and> distinct (map key_of (ps_order st)) \<and>
     mset (map pl_src (ps_order st)) + mset (ps_skipped st) = mset (map pk_src picks)"

lemma clean_put:
  assumes "clean_inv there picks st" "plan_inv there ix st" "ps_planned st k = None" "there k = None"
    and "key_of item = k" "pl_src item = pk_src p"
  shows "clean_inv there (picks @ [p]) (put k item st)"
  using assms unplanned[OF assms(2,3)] by (force simp: clean_inv_def put_def)

lemma choose_clean:
  assumes "choose_answer decide c st = Some (ch, st')" "no_replace decide" "ps_always st \<noteq> Some Replace"
  shows "ch \<noteq> Replace" "ps_always st' \<noteq> Some Replace"
  using assms by (auto simp: choose_answer_def no_replace_def split: option.splits if_splits)

lemma keep_item_free:
  assumes "keep_item there item st = Some st'" "there_ok there" "plan_inv there ix st"
  obtains n where "\<not> taken there st n" "st' = put (nameKey n) (item\<lparr>pl_name := n\<rparr>) st"
proof -
  have "dom (ps_planned st) \<subseteq> key_of ` set (ps_order st)" using plan_invD(3)[OF assms(3)] by force
  then have fin: "finite (dom there \<union> dom (ps_planned st))"
    using assms(2) by (simp add: there_ok_def finite_subset[OF _ finite_imageI[OF finite_set]])
  obtain n where "freeKeepBothName (pl_name item) (pl_dir item) (taken there st) = Some n" "\<not> taken there st n"
    by (rule freeKeepBothName_found[OF fin, of "taken there st"]) (auto simp: taken_def)
  with that assms(1) show thesis by (simp add: keep_item_def)
qed

lemma settle_item_clean:
  assumes s: "settle_item there decide ix p st = Some (Some st')" and inv: "plan_inv there ix st" and th: "there_ok there"
    and cl: "clean_inv there picks st" and nr: "no_replace decide"
  shows "clean_inv there (picks @ [p]) st'"
proof -
  let ?it = "picked_item ix p" let ?k = "nameKey (pl_name ?it)"
  let ?e = "ps_planned st ?k" and ?d = "there ?k" let ?st1 = "st\<lparr>ps_pending := ps_pending st - 1\<rparr>"
  let ?c = "conflict ?it (exDir ?e ?d) (ps_pending ?st1)"
  have src: "pl_src ?it = pk_src p" by (simp add: picked_item_def)
  show ?thesis
  proof (cases "?e = None \<and> ?d = None")
    case True
    with s have "st' = put ?k ?it st" by (simp add: settle_item_def Let_def)
    with clean_put[OF cl inv, of ?k ?it p] True src show ?thesis by (simp add: key_of_def)
  next
    case False
    then obtain ch st2 where ch: "choose_answer decide ?c ?st1 = Some (ch, st2)"
        and r: "(case ch of Skip \<Rightarrow> Some (Some (st2\<lparr>ps_skipped := ps_skipped st2 @ [pk_src p]\<rparr>))
                  | Keep \<Rightarrow> map_option Some (keep_item there ?it st2)
                  | Replace \<Rightarrow> Some (Some (replace_item ?e ?d ?it st2))) = Some (Some st')"
      using s by (auto simp: settle_item_def Let_def split: option.splits prod.splits FsConflictChoice.splits)
    note f = choose_fields[OF ch]
    have inv2: "plan_inv there ix st2" using inv f plan_inv_fields[of st2 ?st1] plan_inv_fields[of ?st1 st] by simp
    have c: "ch \<noteq> Replace" "ps_always st2 \<noteq> Some Replace" using choose_clean[OF ch nr] cl by (auto simp: clean_inv_def)
    then have cl2: "clean_inv there picks st2" using cl f by (simp add: clean_inv_def)
    show ?thesis
    proof (cases ch)
      case Skip
      with r have "st' = st2\<lparr>ps_skipped := ps_skipped st2 @ [pk_src p]\<rparr>" by simp
      with cl2 show ?thesis by (simp add: clean_inv_def)
    next
      case Keep
      with r have "keep_item there ?it st2 = Some st'" by auto
      then obtain n where n: "\<not> taken there st2 n" "st' = put (nameKey n) (?it\<lparr>pl_name := n\<rparr>) st2"
        by (rule keep_item_free[OF _ th inv2])
      with clean_put[OF cl2 inv2, of "nameKey n" "?it\<lparr>pl_name := n\<rparr>" p] src show ?thesis
        by (simp add: taken_def key_of_def)
    qed (use c in simp)
  qed
qed

lemma settle_all_clean:
  assumes "settle_all there decide ix ps st = Some (Some st')" "plan_inv there ix st" "there_ok there"
    and "clean_inv there picks st" "no_replace decide"
  shows "clean_inv there (picks @ ps) st'"
  using assms
proof (induction ps arbitrary: ix st picks)
  case (Cons p ps)
  then obtain st1 where st1: "settle_item there decide ix p st = Some (Some st1)" "settle_all there decide (ix + 1) ps st1 = Some (Some st')"
    by (auto split: option.splits)
  have "plan_inv there (ix + 1) st1" using settle_item_inv[OF Cons.prems(2,3), of decide p] st1(1) by auto
  from Cons.IH[OF st1(2) this Cons.prems(3) settle_item_clean[OF st1(1) Cons.prems(2,3,4,5)] Cons.prems(5)]
  show ?case by simp
qed simp

section \<open>The steps send what was planned\<close>

definition step_files :: "FsUploadStep \<Rightarrow> (string \<times> string) list" where
  "step_files s = (case s of StepOne src name _ _ \<Rightarrow> [(src, name)] | StepList _ fs \<Rightarrow> map (\<lambda>f. (lf_src f, lf_name f)) fs)"

definition plan_files :: "FsUploadPlan \<Rightarrow> (string \<times> string) list" where
  "plan_files pl = concat (map step_files (up_steps pl))"

abbreviation sent_as :: "Planned \<Rightarrow> string \<times> string" where
  "sent_as i \<equiv> (pl_src i, pl_name i)"

lemma group_steps_files:
  "mset (concat (map step_files (group_steps tx L placed n xs))) =
     (if length L \<ge> 2
      then mset (map sent_as (filter (\<lambda>i. \<not> goes_listed i) xs)) +
           (if \<not> placed \<and> (\<exists>i \<in> set xs. goes_listed i) then mset (map sent_as L) else {#})
      else mset (map sent_as xs))"
  by (induction tx L placed n xs rule: group_steps.induct)
     (auto simp: step_files_def list_file_def comp_def)

lemma mset_partition: "mset (map f (filter P xs)) + mset (map f (filter (\<lambda>x. \<not> P x) xs)) = mset (map f xs)"
  by (induction xs) auto

lemma plan_files_order:
  "mset (concat (map step_files (group_steps tx (filter goes_listed xs) False n xs))) = mset (map sent_as xs)"
proof (cases "length (filter goes_listed xs) \<ge> 2")
  case True
  then have "\<exists>i \<in> set xs. goes_listed i" by (metis filter_False le_zero_eq list.size(3) not_numeral_le_zero)
  then show ?thesis using True mset_partition[of sent_as goes_listed xs]
    by (simp add: group_steps_files add.commute del: mset_map)
qed (simp add: group_steps_files)

section \<open>The send order\<close>

lemma cmp_bytes_neg: "cmp_bytes a b = - cmp_bytes b a"
  by (induction a b rule: cmp_bytes.induct) auto

lemma cmp_bytes_trans: "cmp_bytes a b \<le> 0 \<Longrightarrow> cmp_bytes b c \<le> 0 \<Longrightarrow> cmp_bytes a c \<le> 0"
proof (induction a arbitrary: b c)
  case Nil
  then show ?case by (cases c) auto
next
  case (Cons x xs)
  then obtain y ys where b: "b = y # ys" by (cases b) auto
  with Cons.prems obtain z zs where c: "c = z # zs" by (cases c) auto
  from Cons b c show ?case by (auto split: if_splits)
qed

interpretation names_cmp: js_comparator cmp_names
proof
  show "cmp_names a b < 0 \<longleftrightarrow> cmp_names b a > 0" for a b
    unfolding cmp_names_def using cmp_bytes_neg[of "utf8 a" "utf8 b"] by simp
  show "cmp_names a b \<le> 0 \<Longrightarrow> cmp_names b c \<le> 0 \<Longrightarrow> cmp_names a c \<le> 0" for a b c
    unfolding cmp_names_def by (rule cmp_bytes_trans)
qed

section \<open>The parallel look-up\<close>

definition kinds_inv :: "string list \<Rightarrow> (string \<Rightarrow> string option) \<Rightarrow> nat \<Rightarrow> kinds_state \<Rightarrow> bool" where
  "kinds_inv paths answer parallel s \<longleftrightarrow>
     distinct (kw_busy s) \<and> (\<forall>i \<in> set (kw_busy s). i < kw_next s \<and> i < length paths) \<and>
     length (kw_busy s) \<le> parallel \<and> length (kw_out s) = length paths \<and>
     (\<forall>i < length paths. i < kw_next s \<longrightarrow> i \<notin> set (kw_busy s) \<longrightarrow> kw_out s ! i = kind_of_answer (answer (paths ! i)))"

lemma take_next_inv:
  "kinds_inv paths answer n s \<Longrightarrow> kinds_inv paths answer (Suc n) (take_next (length paths) s)"
  by (auto simp: kinds_inv_def take_next_def less_Suc_eq)

lemma kinds_start_inv: "kinds_inv paths answer (min parallel (length paths)) (kinds_start paths parallel)"
proof -
  have "kinds_inv paths answer n ((take_next (length paths) ^^ n) \<lparr>kw_next = 0, kw_busy = [], kw_out = replicate (length paths) PickFile\<rparr>)" for n
    by (induction n) (auto simp: kinds_inv_def[of _ _ 0] intro: take_next_inv)
  then show ?thesis by (simp add: kinds_start_def)
qed

lemma kinds_step_inv:
  assumes "kinds_inv paths answer n s" "kinds_step paths answer s t"
  shows "kinds_inv paths answer n t \<and> (length paths - kw_next t) + length (kw_busy t) < (length paths - kw_next s) + length (kw_busy s)
    \<and> (kw_busy t = [] \<longrightarrow> kw_next t \<ge> length paths)"
  using assms(2)
proof cases
  case (reply i)
  let ?s = "s\<lparr>kw_busy := remove1 i (kw_busy s), kw_out := (kw_out s)[i := kind_of_answer (answer (paths ! i))]\<rparr>"
  have b: "length (remove1 i (kw_busy s)) = length (kw_busy s) - 1" "length (kw_busy s) > 0"
    using reply(2) by (auto simp: length_remove1)
  have "kinds_inv paths answer (n - 1) ?s"
    using assms(1) reply(2) b by (auto simp: kinds_inv_def nth_list_update)
  then have "kinds_inv paths answer (Suc (n - 1)) t" unfolding reply(1) by (rule take_next_inv)
  moreover have "length (kw_busy s) \<le> n" using assms(1) by (simp add: kinds_inv_def)
  then have "Suc (n - 1) = n" using b(2) by linarith
  ultimately show ?thesis using b by (auto simp: reply(1) take_next_def)
qed

lemma kinds_start_busy: "parallel > 0 \<Longrightarrow> kw_busy (kinds_start paths parallel) = [] \<Longrightarrow> paths = []"
proof (rule ccontr)
  assume "parallel > 0" "kw_busy (kinds_start paths parallel) = []" "paths \<noteq> []"
  have "n > 0 \<Longrightarrow> n \<le> length paths \<Longrightarrow> kw_next ((take_next (length paths) ^^ n) s) = kw_next s + n \<and>
      (kw_next s = 0 \<longrightarrow> kw_busy ((take_next (length paths) ^^ n) s) \<noteq> [])" for n s
  proof (induction n)
    case (Suc n)
    then show ?case by (cases n) (auto simp: take_next_def)
  qed simp
  from this[of "min parallel (length paths)" "\<lparr>kw_next = 0, kw_busy = [], kw_out = replicate (length paths) PickFile\<rparr>"]
  show False using \<open>parallel > 0\<close> \<open>kw_busy (kinds_start paths parallel) = []\<close> \<open>paths \<noteq> []\<close>
    by (simp add: kinds_start_def)
qed

definition kinds_good :: "string list \<Rightarrow> (string \<Rightarrow> string option) \<Rightarrow> nat \<Rightarrow> kinds_state \<Rightarrow> bool" where
  "kinds_good paths answer parallel s \<longleftrightarrow>
     kinds_inv paths answer parallel s \<and> (kw_busy s = [] \<longrightarrow> kw_next s \<ge> length paths)"

interpretation kinds: invariant_system "\<lambda>s. s = kinds_start paths (Suc n)" "kinds_step paths answer"
    "kinds_good paths answer (min (Suc n) (length paths))" for paths answer n
proof
  fix s assume "s = kinds_start paths (Suc n)"
  then show "kinds_good paths answer (min (Suc n) (length paths)) s"
    using kinds_start_inv[of paths answer "Suc n"] kinds_start_busy[of "Suc n" paths] by (auto simp: kinds_good_def)
next
  fix s t assume "kinds_good paths answer (min (Suc n) (length paths)) s" "kinds_step paths answer s t"
  then show "kinds_good paths answer (min (Suc n) (length paths)) t"
    using kinds_step_inv unfolding kinds_good_def by blast
qed

lemma kinds_finished:
  assumes "kinds_good paths answer n s" "kw_busy s = []"
  shows "kw_out s = map (\<lambda>p. kind_of_answer (answer p)) paths"
  using assms by (intro nth_equalityI) (auto simp: kinds_good_def kinds_inv_def)

section \<open>An example\<close>

definition plan_picks :: "FsPickedItem list" where
  "plan_picks = [\<lparr>pk_src = ''/home/me/a.txt'', pk_kind = PickFile\<rparr>, \<lparr>pk_src = ''/home/me/A.TXT'', pk_kind = PickFile\<rparr>,
                 \<lparr>pk_src = ''/home/me/b.txt'', pk_kind = PickFile\<rparr>, \<lparr>pk_src = ''/home/me/game'', pk_kind = PickFolder\<rparr>]"

definition plan_folder :: "FsExistingEntry list" where
  "plan_folder = [\<lparr>en_name = ''a (2).txt'', en_kind = ''file'', en_size = 5\<rparr>, \<lparr>en_name = ''Game'', en_kind = ''file'', en_size = 7\<rparr>]"

definition plan_keep :: "nat \<Rightarrow> FsConflict \<Rightarrow> FsConflictDecision option" where
  "plan_keep n c = Some \<lparr>dc_choice = Keep, dc_all = True\<rparr>"

definition plan_ids :: "nat \<Rightarrow> string" where
  "plan_ids n = show_nat n"

section \<open>Properties\<close>



text \<open>When nobody answers Replace nothing on the console is touched and nothing picked is forgotten:
  every item goes up under a name the folder does not have, no name is given twice (case ignored),
  and each pick is either sent or in the list of the skipped.\<close>

theorem plan_without_replace:
  assumes "\<forall>n c d. decide n c = Some d \<longrightarrow> dc_choice d \<noteq> Replace"
    and "planFsUpload picked existing decide newTxId = Some (Some pl)"
  shows "distinct (map (nameKey \<circ> snd) (plan_files pl)) \<and>
    (\<forall>f \<in> set (plan_files pl). \<forall>e \<in> set existing. nameKey (en_name e) \<noteq> nameKey (snd f)) \<and>
    mset (map fst (plan_files pl)) + mset (up_skipped pl) = mset (map pk_src picked)"
proof -
  let ?th = "there_map existing"
  obtain st where st: "settle_all ?th decide 0 picked (plan_init ?th picked) = Some (Some st)"
      and pl: "pl = \<lparr>up_steps = group_steps newTxId (filter goes_listed (ps_order st)) False 0 (ps_order st), up_skipped = ps_skipped st\<rparr>"
    using assms(2) by (auto simp: planFsUpload_def split: option.splits)
  have "clean_inv ?th ([] @ picked) st"
    by (rule settle_all_clean[OF st plan_inv_init there_map_ok])
       (use assms(1) in \<open>simp_all add: clean_inv_def plan_init_def no_replace_def\<close>)
  then have c: "distinct (map key_of (ps_order st))" "\<And>i. i \<in> set (ps_order st) \<Longrightarrow> ?th (key_of i) = None"
      "mset (map pl_src (ps_order st)) + mset (ps_skipped st) = mset (map pk_src picked)"
    by (auto simp: clean_inv_def)
  have m: "mset (plan_files pl) = mset (map sent_as (ps_order st))"
    using plan_files_order[of newTxId "ps_order st" 0] by (simp add: pl plan_files_def)
  have "mset (map f (plan_files pl)) = mset (map (f \<circ> sent_as) (ps_order st))" for f :: "_ \<Rightarrow> string"
  proof -
    have "mset (map f (plan_files pl)) = image_mset f (mset (map sent_as (ps_order st)))" unfolding m[symmetric] by simp
    then show ?thesis by (simp add: multiset.map_comp)
  qed
  then have mm: "mset (map (nameKey \<circ> snd) (plan_files pl)) = mset (map key_of (ps_order st))"
      "mset (map fst (plan_files pl)) = mset (map pl_src (ps_order st))"
    by (simp_all add: comp_def key_of_def[abs_def] del: mset_map)
  have "distinct (map (nameKey \<circ> snd) (plan_files pl))" using mset_eq_imp_distinct_iff[OF mm(1)] c(1) by simp
  moreover have "mset (map fst (plan_files pl)) + mset (up_skipped pl) = mset (map pk_src picked)"
    using c(3) unfolding mm(2) by (simp add: pl del: mset_map)
  moreover have "nameKey (en_name e) \<noteq> nameKey (snd f)" if "f \<in> set (plan_files pl)" "e \<in> set existing" for f e
  proof -
    from that(1) m have "f \<in> set (map sent_as (ps_order st))" by (metis set_mset_mset)
    then have "?th (nameKey (snd f)) = None" using c(2) by (auto simp: key_of_def)
    moreover have "nameKey (en_name e) \<in> dom ?th"
      using that(2) by (simp add: dom_there_map)
    ultimately show ?thesis by auto
  qed
  ultimately show ?thesis by blast
qed

theorem plan_without_replace_witness:
  "mset (map fst (plan_files (the (the (planFsUpload plan_picks plan_folder plan_keep plan_ids))))) +
   mset (up_skipped (the (the (planFsUpload plan_picks plan_folder plan_keep plan_ids)))) = mset (map pk_src plan_picks)"
proof -
  have "\<not> Option.is_none (planFsUpload plan_picks plan_folder plan_keep plan_ids)"
    "\<not> Option.is_none (the (planFsUpload plan_picks plan_folder plan_keep plan_ids))" by code_simp+
  then have "planFsUpload plan_picks plan_folder plan_keep plan_ids =
      Some (Some (the (the (planFsUpload plan_picks plan_folder plan_keep plan_ids))))"
    by (auto simp: Option.is_none_def)
  from plan_without_replace[OF _ this] show ?thesis by (simp add: plan_keep_def)
qed

text \<open>The parallel look-up is independent of timing: in whatever order the answers arrive, at most
  16 paths (the number of workers) are asked about at once, every answer brings it closer to the end,
  and when no worker waits any more each path has the kind the look-up gave for it.\<close>

theorem kinds_any_order:
  assumes "reach (\<lambda>s. s = kinds_start paths (Suc n)) (kinds_step paths answer) s"
  shows "length (kw_busy s) \<le> Suc n \<and>
    (kw_busy s = [] \<longrightarrow> kw_out s = map (\<lambda>p. kind_of_answer (answer p)) paths) \<and>
    (kw_busy s \<noteq> [] \<longrightarrow> (\<exists>t. kinds_step paths answer s t)) \<and>
    (\<forall>t. kinds_step paths answer s t \<longrightarrow>
       (length paths - kw_next t) + length (kw_busy t) < (length paths - kw_next s) + length (kw_busy s))"
proof -
  have g: "kinds_good paths answer (min (Suc n) (length paths)) s" using assms by (rule kinds.reach_inv)
  moreover have "\<exists>t. kinds_step paths answer s t" if "kw_busy s \<noteq> []"
    using kinds_step.reply[of "hd (kw_busy s)" s paths answer] that by auto
  ultimately show ?thesis
    using kinds_finished[OF g] kinds_step_inv[of paths answer _ s] by (auto simp: kinds_good_def kinds_inv_def[of _ _ _ s])
qed

theorem kinds_any_order_witness:
  "length (kw_busy (kinds_start [''a'', ''b''] 1)) \<le> 1 \<and>
   (\<exists>t. kinds_step [''a'', ''b''] (\<lambda>_. None) (kinds_start [''a'', ''b''] 1) t)"
proof -
  have "reach (\<lambda>s. s = kinds_start [''a'', ''b''] (Suc 0)) (kinds_step [''a'', ''b''] (\<lambda>_. None)) (kinds_start [''a'', ''b''] (Suc 0))"
    by (rule reach_init) simp
  from kinds_any_order[OF this] show ?thesis by (simp add: kinds_start_def take_next_def)
qed

end
