(* ===== verification/Queue_Ops.thy ===== *)
theory Queue_Ops
  imports Js_Prelude
begin

text \<open>
  The pure list operations of the upload queue (\<^verbatim>\<open>client/src/lib/queueOps.ts\<close>): reordering rows
  within their group, removing and patching a row, and the reset of running rows. The source's
  generic row type \<^verbatim>\<open>T extends { id: string }\<close> is a type variable with a function for its id.

  A reorder moves only rows of one group, between the places that group's rows already have. That
  contract is the locale \<open>group_reorder\<close>; the three moves are instances of it, so its lemmas (no row
  lost or doubled, every other group's rows untouched and in order) hold of each.
\<close>

section \<open>Moving a row\<close>

text \<open>\<^verbatim>\<open>for (let k = i - 1; k >= 0; k--)\<close> up to the first hit, and its mirror.\<close>

fun seek_up :: "(nat \<Rightarrow> bool) \<Rightarrow> nat \<Rightarrow> nat option" where
  "seek_up P 0 = None"
| "seek_up P (Suc k) = (if P k then Some k else seek_up P k)"

function seek_down :: "(nat \<Rightarrow> bool) \<Rightarrow> nat \<Rightarrow> nat \<Rightarrow> nat option" where
  "seek_down P k n = (if k < n then (if P k then Some k else seek_down P (Suc k) n) else None)"
  by auto
termination by (relation "measure (\<lambda>(P, k, n). n - k)") auto

declare seek_down.simps [simp del]

definition moveItemUpWithinGroup ::
  "('a \<Rightarrow> string) \<Rightarrow> 'a list \<Rightarrow> string \<Rightarrow> ('a \<Rightarrow> string) \<Rightarrow> 'a list" where
  "moveItemUpWithinGroup idOf items i_d groupOf =
     (case find_index (\<lambda>it. idOf it = i_d) items of
        None \<Rightarrow> items
      | Some i \<Rightarrow>
          (case seek_up (\<lambda>k. groupOf (items ! k) = groupOf (items ! i)) i of
             None \<Rightarrow> items
           | Some j \<Rightarrow> swap_at j i items))"

definition moveItemDownWithinGroup ::
  "('a \<Rightarrow> string) \<Rightarrow> 'a list \<Rightarrow> string \<Rightarrow> ('a \<Rightarrow> string) \<Rightarrow> 'a list" where
  "moveItemDownWithinGroup idOf items i_d groupOf =
     (case find_index (\<lambda>it. idOf it = i_d) items of
        None \<Rightarrow> items
      | Some i \<Rightarrow>
          (case seek_down (\<lambda>k. groupOf (items ! k) = groupOf (items ! i)) (i + 1) (length items) of
             None \<Rightarrow> items
           | Some j \<Rightarrow> swap_at i j items))"

text \<open>\<^verbatim>\<open>members.splice(fi, 1); members.splice(ti, 0, from)\<close> (an insertion past the end appends).\<close>

definition splice_move :: "nat \<Rightarrow> nat \<Rightarrow> 'a \<Rightarrow> 'a list \<Rightarrow> 'a list" where
  "splice_move fi ti x ms = take ti (remove_at fi ms) @ x # drop ti (remove_at fi ms)"

text \<open>\<^verbatim>\<open>slots.forEach((slot, k) => next[slot] = members[k])\<close>.\<close>

definition write_slots :: "nat list \<Rightarrow> 'a list \<Rightarrow> 'a list \<Rightarrow> 'a list" where
  "write_slots slots ms xs = fold (\<lambda>(s, m) acc. acc[s := m]) (zip slots ms) xs"

definition moveItemToWithinGroup ::
  "('a \<Rightarrow> string) \<Rightarrow> 'a list \<Rightarrow> string \<Rightarrow> string \<Rightarrow> ('a \<Rightarrow> string) \<Rightarrow> 'a list" where
  "moveItemToWithinGroup idOf items i_d targetId groupOf =
     (if i_d = targetId then items
      else (case (List.find (\<lambda>it. idOf it = i_d) items, List.find (\<lambda>it. idOf it = targetId) items) of
              (Some from, Some to) \<Rightarrow>
                (let g = groupOf from in
                 if groupOf to \<noteq> g then items
                 else let slots = filter (\<lambda>i. groupOf (items ! i) = g) [0..<length items];
                          members = map (\<lambda>i. items ! i) slots
                      in (case (find_index (\<lambda>m. m = from) members, find_index (\<lambda>m. m = to) members) of
                            (Some fi, Some ti) \<Rightarrow> write_slots slots (splice_move fi ti from members) items
                          | _ \<Rightarrow> items))
            | _ \<Rightarrow> items))"

datatype drop_side = DropBefore | DropAfter

definition dropSide :: "string list \<Rightarrow> string \<Rightarrow> string \<Rightarrow> drop_side option" where
  "dropSide order dragId overId =
     (case (find_index (\<lambda>x. x = dragId) order, find_index (\<lambda>x. x = overId) order) of
        (Some from, Some to) \<Rightarrow>
          if from = to then None else Some (if from < to then DropAfter else DropBefore)
      | _ \<Rightarrow> None)"

section \<open>Removing, patching, resetting\<close>

definition removeItem :: "('a \<Rightarrow> string) \<Rightarrow> 'a list \<Rightarrow> string \<Rightarrow> 'a list" where
  "removeItem idOf items i_d =
     (case find_index (\<lambda>it. idOf it = i_d) items of None \<Rightarrow> items | Some i \<Rightarrow> remove_at i items)"

text \<open>A \<^verbatim>\<open>Partial<T>\<close> is the function that applies it.\<close>

definition patchItem :: "('a \<Rightarrow> string) \<Rightarrow> 'a list \<Rightarrow> string \<Rightarrow> ('a \<Rightarrow> 'a) \<Rightarrow> 'a list" where
  "patchItem idOf items i_d patch =
     (case find_index (\<lambda>it. idOf it = i_d) items of
        None \<Rightarrow> items
      | Some i \<Rightarrow> items[i := patch (items ! i)])"

definition shouldContinueAfterFailure :: "bool \<Rightarrow> bool" where
  "shouldContinueAfterFailure continueOnFailure = continueOnFailure"

section \<open>Lemmas on the loops\<close>

lemma seek_up_Some:
  "seek_up P n = Some j \<Longrightarrow> j < n \<and> P j \<and> (\<forall>k. j < k \<longrightarrow> k < n \<longrightarrow> \<not> P k)"
  by (induction n) (auto split: if_splits simp: less_Suc_eq)

lemma seek_up_eq:
  assumes "j < n" "P j" "\<forall>k. j < k \<longrightarrow> k < n \<longrightarrow> \<not> P k"
  shows "seek_up P n = Some j"
  using assms by (induction n) (auto simp: less_Suc_eq)

lemma seek_down_Some:
  "seek_down P k n = Some j \<Longrightarrow> k \<le> j \<and> j < n \<and> P j \<and> (\<forall>l. k \<le> l \<longrightarrow> l < j \<longrightarrow> \<not> P l)"
proof (induction P k n rule: seek_down.induct)
  case (1 P k n)
  show ?case
  proof (cases "k < n \<and> \<not> P k")
    case True
    with 1 have "Suc k \<le> j \<and> j < n \<and> P j \<and> (\<forall>l. Suc k \<le> l \<longrightarrow> l < j \<longrightarrow> \<not> P l)"
      by (simp add: seek_down.simps[of P k n])
    with True show ?thesis by (metis Suc_leI Suc_leD le_neq_implies_less)
  qed (use "1.prems" in \<open>auto simp: seek_down.simps[of P k n] split: if_splits\<close>)
qed

lemma seek_down_eq:
  "k \<le> j \<Longrightarrow> j < n \<Longrightarrow> P j \<Longrightarrow> \<forall>l. k \<le> l \<longrightarrow> l < j \<longrightarrow> \<not> P l \<Longrightarrow> seek_down P k n = Some j"
proof (induction P k n rule: seek_down.induct)
  case (1 P k n)
  then show ?case
    by (cases "k = j") (auto simp: seek_down.simps[of P k n] seek_down.simps[of P j n])
qed

text \<open>The write-back as a walk over the list that refills the places of the group in order.\<close>

fun refill :: "('a \<Rightarrow> bool) \<Rightarrow> 'a list \<Rightarrow> 'a list \<Rightarrow> 'a list" where
  "refill P [] ms = []"
| "refill P (x # xs) [] = x # xs"
| "refill P (x # xs) (m # ms) = (if P x then m # refill P xs ms else x # refill P xs (m # ms))"

lemma refill_Nil [simp]: "refill P xs [] = xs"
  by (cases xs) auto

lemma write_slots_shift: "write_slots (map Suc ss) ms (x # xs) = x # write_slots ss ms xs"
  by (induction ss ms arbitrary: xs rule: list_induct2') (auto simp: write_slots_def)

lemma slots_Cons:
  "filter (\<lambda>i. P ((x # xs) ! i)) [0..<length (x # xs)] =
     (if P x then [0] else []) @ map Suc (filter (\<lambda>i. P (xs ! i)) [0..<length xs])"
proof -
  have "[0..<length (x # xs)] = 0 # map Suc [0..<length xs]"
    by (simp add: map_Suc_upt upt_conv_Cons del: upt_Suc)
  then show ?thesis by (simp add: filter_map comp_def)
qed

lemma write_slots_refill:
  "length ms = length (filter P xs) \<Longrightarrow>
     write_slots (filter (\<lambda>i. P (xs ! i)) [0..<length xs]) ms xs = refill P xs ms"
proof (induction xs arbitrary: ms)
  case (Cons x xs)
  show ?case
  proof (cases "P x")
    case True
    with Cons.prems obtain m ms' where ms: "ms = m # ms'" by (cases ms) auto
    have "write_slots (0 # map Suc ss) (m # ms') (x # xs) = m # write_slots ss ms' xs" for ss
      using write_slots_shift[of ss ms' m xs] by (simp add: write_slots_def)
    with True ms Cons show ?thesis unfolding slots_Cons by simp
  next
    case False
    have "write_slots (map Suc ss) ms (x # xs) = x # write_slots ss ms xs" for ss
      by (rule write_slots_shift)
    with False Cons show ?thesis unfolding slots_Cons by (cases ms) simp_all
  qed
qed (simp add: write_slots_def)

lemma slots_members: "map (\<lambda>i. xs ! i) (filter (\<lambda>i. P (xs ! i)) [0..<length xs]) = filter P xs"
  by (subst (3) map_nth[symmetric]) (simp add: filter_map comp_def)

lemma length_refill [simp]: "length (refill P xs ms) = length xs"
  by (induction P xs ms rule: refill.induct) auto

lemma refill_outside: "i < length xs \<Longrightarrow> \<not> P (xs ! i) \<Longrightarrow> refill P xs ms ! i = xs ! i"
  by (induction P xs ms arbitrary: i rule: refill.induct) (auto simp: nth_Cons split: nat.splits)

lemma filter_refill:
  "length ms = length (filter P xs) \<Longrightarrow> \<forall>m \<in> set ms. P m \<Longrightarrow> filter P (refill P xs ms) = ms"
  by (induction P xs ms rule: refill.induct) auto

lemma filter_refill_not:
  "length ms = length (filter P xs) \<Longrightarrow> \<forall>m \<in> set ms. P m \<Longrightarrow>
     filter (\<lambda>x. \<not> P x) (refill P xs ms) = filter (\<lambda>x. \<not> P x) xs"
  by (induction P xs ms rule: refill.induct) auto

lemma mset_refill:
  assumes "length ms = length (filter P xs)" "\<forall>m \<in> set ms. P m" "mset ms = mset (filter P xs)"
  shows "mset (refill P xs ms) = mset xs"
proof -
  have split: "mset ys = mset (filter P ys) + mset (filter (\<lambda>x. \<not> P x) ys)" for ys
    by (simp flip: multiset_partition)
  have "mset (refill P xs ms) = mset ms + mset (filter (\<lambda>x. \<not> P x) xs)"
    using split[of "refill P xs ms"] filter_refill[OF assms(1,2)] filter_refill_not[OF assms(1,2)]
    by simp
  also have "\<dots> = mset xs" using split[of xs] assms(3) by simp
  finally show ?thesis .
qed

lemma map_refill_const:
  "\<forall>m \<in> set ms. f m = c \<Longrightarrow> \<forall>x. P x \<longrightarrow> f x = c \<Longrightarrow> map f (refill P xs ms) = map f xs"
  by (induction P xs ms rule: refill.induct) auto

section \<open>What a reorder promises\<close>

text \<open>A reorder keeps every row, keeps which group each place belongs to, and moves rows of one
  group only.\<close>

locale group_reorder =
  fixes reorder :: "'a list \<Rightarrow> 'a list" and groupOf :: "'a \<Rightarrow> 'g"
  assumes reorder_mset: "mset (reorder xs) = mset xs"
    and reorder_places: "map groupOf (reorder xs) = map groupOf xs"
    and one_group: "\<exists>g. \<forall>i < length xs. groupOf (xs ! i) \<noteq> g \<longrightarrow> reorder xs ! i = xs ! i"
begin

lemma length_reorder [simp]: "length (reorder xs) = length xs"
  using reorder_mset[of xs] mset_eq_length by blast

lemma set_reorder [simp]: "set (reorder xs) = set xs"
  using reorder_mset[of xs] mset_eq_setD by blast

lemma ids_stay_distinct: "distinct (map f xs) \<Longrightarrow> distinct (map f (reorder xs))"
  by (metis mset_map mset_eq_imp_distinct_iff reorder_mset)

lemma other_group_in_place:
  assumes "i < length xs" "groupOf (xs ! i) \<noteq> groupOf x" "xs ! j = x" "j < length xs" "reorder xs ! j \<noteq> x"
  shows "reorder xs ! i = xs ! i"
  using one_group[of xs] assms by metis

text \<open>A selection that no row of the moved group passes sees the same rows in the same order.\<close>

lemma filter_other:
  assumes "\<forall>i < length xs. reorder xs ! i \<noteq> xs ! i \<longrightarrow> \<not> Q (groupOf (xs ! i))"
  shows "filter (Q \<circ> groupOf) (reorder xs) = filter (Q \<circ> groupOf) xs"
proof -
  have same: "filter P ys = filter P zs"
    if "length ys = length zs" "\<forall>i < length zs. ys ! i = zs ! i \<or> \<not> P (ys ! i) \<and> \<not> P (zs ! i)"
    for P and ys zs :: "'a list"
    using that
  proof (induction ys zs rule: list_induct2)
    case (Cons y ys z zs)
    from Cons.prems have "\<forall>i < length zs. ys ! i = zs ! i \<or> \<not> P (ys ! i) \<and> \<not> P (zs ! i)"
      by (metis Suc_less_eq length_Cons nth_Cons_Suc)
    moreover from Cons.prems have "y = z \<or> \<not> P y \<and> \<not> P z" by force
    ultimately show ?case using Cons.IH by auto
  qed simp
  have "groupOf (reorder xs ! i) = groupOf (xs ! i)" if "i < length xs" for i
    using arg_cong[OF reorder_places[of xs], of "\<lambda>l. l ! i"] that by simp
  then show ?thesis using assms by (intro same) auto
qed

end

lemma swap_group_reorder:
  assumes "i < length xs" "j < length xs" "groupOf (xs ! i) = groupOf (xs ! j)"
  shows "mset (swap_at i j xs) = mset xs" "map groupOf (swap_at i j xs) = map groupOf xs"
    "\<exists>g. \<forall>k < length xs. groupOf (xs ! k) \<noteq> g \<longrightarrow> swap_at i j xs ! k = xs ! k"
proof -
  show "\<exists>g. \<forall>k < length xs. groupOf (xs ! k) \<noteq> g \<longrightarrow> swap_at i j xs ! k = xs ! k"
    by (rule exI[of _ "groupOf (xs ! i)"]) (use assms in \<open>auto simp: nth_swap_at\<close>)
qed (use assms in \<open>simp_all add: map_swap_at_same\<close>)

lemma moveUp_cases:
  obtains "moveItemUpWithinGroup idOf xs i_d gr = xs"
  | i j where "find_index (\<lambda>it. idOf it = i_d) xs = Some i" "j < i" "i < length xs"
      "gr (xs ! j) = gr (xs ! i)" "\<forall>k. j < k \<longrightarrow> k < i \<longrightarrow> gr (xs ! k) \<noteq> gr (xs ! i)"
      "moveItemUpWithinGroup idOf xs i_d gr = swap_at j i xs"
proof (cases "find_index (\<lambda>it. idOf it = i_d) xs")
  case None
  with that(1) show ?thesis by (simp add: moveItemUpWithinGroup_def)
next
  case (Some i)
  show ?thesis
  proof (cases "seek_up (\<lambda>k. gr (xs ! k) = gr (xs ! i)) i")
    case None
    with Some that(1) show ?thesis by (simp add: moveItemUpWithinGroup_def)
  next
    case (Some j)
    with \<open>find_index _ xs = Some i\<close> seek_up_Some[OF Some] show ?thesis
      by (intro that(2)[of i j]) (auto simp: moveItemUpWithinGroup_def)
  qed
qed

lemma moveDown_cases:
  obtains "moveItemDownWithinGroup idOf xs i_d gr = xs"
  | i j where "find_index (\<lambda>it. idOf it = i_d) xs = Some i" "i < j" "j < length xs"
      "gr (xs ! j) = gr (xs ! i)" "\<forall>k. i < k \<longrightarrow> k < j \<longrightarrow> gr (xs ! k) \<noteq> gr (xs ! i)"
      "moveItemDownWithinGroup idOf xs i_d gr = swap_at i j xs"
proof (cases "find_index (\<lambda>it. idOf it = i_d) xs")
  case None
  with that(1) show ?thesis by (simp add: moveItemDownWithinGroup_def)
next
  case (Some i)
  show ?thesis
  proof (cases "seek_down (\<lambda>k. gr (xs ! k) = gr (xs ! i)) (i + 1) (length xs)")
    case None
    with Some that(1) show ?thesis by (simp add: moveItemDownWithinGroup_def)
  next
    case (Some j)
    with \<open>find_index _ xs = Some i\<close> seek_down_Some[OF Some] show ?thesis
      by (intro that(2)[of i j]) (auto simp: moveItemDownWithinGroup_def)
  qed
qed

interpretation move_up: group_reorder "\<lambda>xs. moveItemUpWithinGroup idOf xs i_d gr" gr for idOf i_d gr
proof
  fix xs
  show "mset (moveItemUpWithinGroup idOf xs i_d gr) = mset xs"
    by (rule moveUp_cases[of idOf xs i_d gr]) (auto simp: swap_group_reorder)
  show "map gr (moveItemUpWithinGroup idOf xs i_d gr) = map gr xs"
    by (rule moveUp_cases[of idOf xs i_d gr]) (auto simp: map_swap_at_same)
  show "\<exists>g. \<forall>i < length xs. gr (xs ! i) \<noteq> g \<longrightarrow> moveItemUpWithinGroup idOf xs i_d gr ! i = xs ! i"
    by (rule moveUp_cases[of idOf xs i_d gr]) (auto intro: swap_group_reorder(3))
qed

interpretation move_down: group_reorder "\<lambda>xs. moveItemDownWithinGroup idOf xs i_d gr" gr for idOf i_d gr
proof
  fix xs
  show "mset (moveItemDownWithinGroup idOf xs i_d gr) = mset xs"
    by (rule moveDown_cases[of idOf xs i_d gr]) (auto simp: swap_group_reorder)
  show "map gr (moveItemDownWithinGroup idOf xs i_d gr) = map gr xs"
    by (rule moveDown_cases[of idOf xs i_d gr]) (auto simp: map_swap_at_same)
  show "\<exists>g. \<forall>i < length xs. gr (xs ! i) \<noteq> g \<longrightarrow> moveItemDownWithinGroup idOf xs i_d gr ! i = xs ! i"
    by (rule moveDown_cases[of idOf xs i_d gr]) (auto intro: swap_group_reorder(3))
qed

text \<open>A drag and drop refills the places of the group with its members, the dragged one moved.\<close>

lemma splice_move_mset: "fi < length ms \<Longrightarrow> mset (splice_move fi ti (ms ! fi) ms) = mset ms"
proof -
  assume fi: "fi < length ms"
  have "mset (splice_move fi ti (ms ! fi) ms) =
        add_mset (ms ! fi) (mset (take ti (remove_at fi ms)) + mset (drop ti (remove_at fi ms)))"
    by (simp add: splice_move_def)
  also have "mset (take ti (remove_at fi ms)) + mset (drop ti (remove_at fi ms)) = mset (remove_at fi ms)"
    by (metis append_take_drop_id mset_append)
  finally show ?thesis using mset_remove_at[OF fi] by simp
qed

lemma moveTo_cases:
  obtains "moveItemToWithinGroup idOf xs i_d t_d gr = xs"
  | src dst fi ti ms where
      "i_d \<noteq> t_d" "List.find (\<lambda>it. idOf it = i_d) xs = Some src" "List.find (\<lambda>it. idOf it = t_d) xs = Some dst"
      "gr dst = gr src" "ms = filter (\<lambda>x. gr x = gr src) xs"
      "find_index (\<lambda>m. m = src) ms = Some fi" "find_index (\<lambda>m. m = dst) ms = Some ti"
      "moveItemToWithinGroup idOf xs i_d t_d gr = refill (\<lambda>x. gr x = gr src) xs (splice_move fi ti src ms)"
proof (cases "i_d \<noteq> t_d \<and> moveItemToWithinGroup idOf xs i_d t_d gr \<noteq> xs")
  case False
  then have "moveItemToWithinGroup idOf xs i_d t_d gr = xs" by (auto simp: moveItemToWithinGroup_def)
  then show ?thesis by (rule that(1))
next
  case True
  from True obtain src dst where ft: "List.find (\<lambda>it. idOf it = i_d) xs = Some src"
      "List.find (\<lambda>it. idOf it = t_d) xs = Some dst" "gr dst = gr src"
    by (auto simp: moveItemToWithinGroup_def Let_def split: option.splits if_splits)
  let ?ms = "filter (\<lambda>x. gr x = gr src) xs"
  from True ft obtain fi ti where i: "find_index (\<lambda>m. m = src) ?ms = Some fi" "find_index (\<lambda>m. m = dst) ?ms = Some ti"
    using slots_members[of xs "\<lambda>x. gr x = gr src"]
    by (auto simp: moveItemToWithinGroup_def Let_def simp del: find_index_map split: option.splits)
  have fi: "fi < length ?ms" "?ms ! fi = src" using find_index_SomeD[OF i(1)] by auto
  have "length (splice_move fi ti src ?ms) = length ?ms"
    using mset_eq_length[OF splice_move_mset[OF fi(1), of ti]] fi(2) by simp
  then have "moveItemToWithinGroup idOf xs i_d t_d gr = refill (\<lambda>x. gr x = gr src) xs (splice_move fi ti src ?ms)"
    using True ft i slots_members[of xs "\<lambda>x. gr x = gr src"] write_slots_refill[of _ "\<lambda>x. gr x = gr src" xs]
    by (simp add: moveItemToWithinGroup_def Let_def del: find_index_map)
  with True ft i show ?thesis by (intro that(2)[OF _ ft refl i]) simp_all
qed

lemma moveTo_refill_facts:
  assumes "ms = filter P xs" "find_index (\<lambda>m. m = src) ms = Some fi"
  shows "length (splice_move fi ti src ms) = length (filter P xs)"
    "mset (splice_move fi ti src ms) = mset (filter P xs)" "\<forall>m \<in> set (splice_move fi ti src ms). P m"
proof -
  have fi: "fi < length ms" "ms ! fi = src" using find_index_SomeD[OF assms(2)] by auto
  show 1: "mset (splice_move fi ti src ms) = mset (filter P xs)"
    using splice_move_mset[OF fi(1), of ti] fi(2) assms(1) by simp
  show "length (splice_move fi ti src ms) = length (filter P xs)"
    using 1 mset_eq_length by blast
  show "\<forall>m \<in> set (splice_move fi ti src ms). P m"
    using mset_eq_setD[OF 1] by auto
qed

interpretation move_to: group_reorder "\<lambda>xs. moveItemToWithinGroup idOf xs i_d t_d gr" gr for idOf i_d t_d gr
proof
  fix xs
  show "mset (moveItemToWithinGroup idOf xs i_d t_d gr) = mset xs"
  proof (cases rule: moveTo_cases[of idOf xs i_d t_d gr])
    case (2 src dst fi ti ms)
    note f = moveTo_refill_facts[OF 2(5,6), of ti]
    show ?thesis unfolding 2(8) by (rule mset_refill[OF f(1,3,2)])
  qed simp
  show "map gr (moveItemToWithinGroup idOf xs i_d t_d gr) = map gr xs"
  proof (cases rule: moveTo_cases[of idOf xs i_d t_d gr])
    case (2 src dst fi ti ms)
    show ?thesis unfolding 2(8) by (rule map_refill_const[OF moveTo_refill_facts(3)[OF 2(5,6)]]) simp
  qed simp
  show "\<exists>g. \<forall>i < length xs. gr (xs ! i) \<noteq> g \<longrightarrow> moveItemToWithinGroup idOf xs i_d t_d gr ! i = xs ! i"
  proof (cases rule: moveTo_cases[of idOf xs i_d t_d gr])
    case (2 src dst fi ti ms)
    show ?thesis by (rule exI[of _ "gr src"]) (simp add: 2(8) refill_outside)
  qed simp
qed

section \<open>Where a moved row lands\<close>

lemma refill_nth:
  "i < length xs \<Longrightarrow> P (xs ! i) \<Longrightarrow> length ms = length (filter P xs) \<Longrightarrow>
     refill P xs ms ! i = ms ! length (filter P (take i xs))"
  by (induction P xs ms arbitrary: i rule: refill.induct)
     (auto simp: nth_Cons filter_empty_conv dest: nth_mem split: nat.splits)

lemma filter_place:
  "i < length xs \<Longrightarrow> P (xs ! i) \<Longrightarrow> filter P xs ! length (filter P (take i xs)) = xs ! i"
  by (induction xs arbitrary: i) (auto simp: nth_Cons split: nat.splits)

lemma filter_place_less:
  "i < length xs \<Longrightarrow> P (xs ! i) \<Longrightarrow> length (filter P (take i xs)) < length (filter P xs)"
  by (induction xs arbitrary: i) (auto simp: nth_Cons split: nat.splits)

lemma splice_move_at: "fi < length ms \<Longrightarrow> ti < length ms \<Longrightarrow> splice_move fi ti x ms ! ti = x"
  by (simp add: splice_move_def nth_append)

lemma remove_at_filter:
  "distinct ms \<Longrightarrow> fi < length ms \<Longrightarrow> remove_at fi ms = filter (\<lambda>m. m \<noteq> ms ! fi) ms"
proof (induction ms arbitrary: fi)
  case (Cons m ms)
  then show ?case
    by (cases fi) (auto simp: remove_at_def intro!: filter_True[symmetric])
qed simp

lemma splice_move_others:
  assumes "distinct ms" "fi < length ms"
  shows "filter (\<lambda>m. m \<noteq> ms ! fi) (splice_move fi ti (ms ! fi) ms) = filter (\<lambda>m. m \<noteq> ms ! fi) ms"
proof -
  have "filter (\<lambda>m. m \<noteq> ms ! fi) (splice_move fi ti (ms ! fi) ms) = filter (\<lambda>m. m \<noteq> ms ! fi) (remove_at fi ms)"
    by (simp add: splice_move_def) (metis append_take_drop_id filter_append)
  then show ?thesis using remove_at_filter[OF assms] by simp
qed

lemma find_index_distinct:
  "distinct (map f xs) \<Longrightarrow> i < length xs \<Longrightarrow> f (xs ! i) = y \<Longrightarrow> find_index (\<lambda>x. f x = y) xs = Some i"
proof (induction xs arbitrary: i)
  case (Cons x xs)
  then show ?case by (cases i) (auto dest: nth_mem)
qed simp

section \<open>Patching and removing with distinct ids\<close>

lemma find_distinct:
  assumes "distinct (map idOf xs)" "x \<in> set xs"
  shows "List.find (\<lambda>y. idOf y = idOf x) xs = Some x"
proof -
  obtain i where "i < length xs" "xs ! i = x" using assms(2) by (auto simp: in_set_conv_nth)
  with find_index_distinct[OF assms(1), of i "idOf x"] show ?thesis by (simp add: find_eq_find_index)
qed

lemma patchItem_map:
  "distinct (map idOf xs) \<Longrightarrow> patchItem idOf xs i f = map (\<lambda>x. if idOf x = i then f x else x) xs"
proof -
  assume d: "distinct (map idOf xs)"
  show ?thesis
  proof (cases "find_index (\<lambda>x. idOf x = i) xs")
    case None
    then have "\<forall>x \<in> set xs. idOf x \<noteq> i" by (simp add: find_index_None_iff)
    then have "map (\<lambda>x. if idOf x = i then f x else x) xs = xs" by (induction xs) auto
    with None show ?thesis by (simp add: patchItem_def)
  next
    case (Some k)
    then have k: "k < length xs" "idOf (xs ! k) = i" using find_index_SomeD[OF Some] by auto
    have "idOf (xs ! j) = i \<longleftrightarrow> j = k" if "j < length xs" for j
      using d k that by (metis distinct_conv_nth length_map nth_map)
    with Some k show ?thesis by (auto simp: patchItem_def nth_list_update intro!: nth_equalityI)
  qed
qed

lemma removeItem_filter: "distinct (map idOf xs) \<Longrightarrow> removeItem idOf xs i = filter (\<lambda>x. idOf x \<noteq> i) xs"
proof (induction xs)
  case (Cons x xs)
  show ?case
  proof (cases "idOf x = i")
    case True
    with Cons.prems have "i \<notin> idOf ` set xs" by simp
    then have "\<forall>y \<in> set xs. idOf y \<noteq> i" by blast
    with True show ?thesis by (simp add: removeItem_def remove_at_def)
  next
    case False
    have "removeItem idOf (x # xs) i = x # removeItem idOf xs i"
      using False by (auto simp: removeItem_def remove_at_def split: option.splits)
    with Cons False show ?thesis by simp
  qed
qed (simp add: removeItem_def)

section \<open>Properties\<close>

text \<open>Moving a row up and then down again restores the queue: with distinct ids, if the move up
  changed anything, the move down of the same row undoes it exactly.\<close>

theorem move_up_down:
  assumes "distinct (map idOf xs)" and "moveItemUpWithinGroup idOf xs i_d gr \<noteq> xs"
  shows "moveItemDownWithinGroup idOf (moveItemUpWithinGroup idOf xs i_d gr) i_d gr = xs"
proof (cases rule: moveUp_cases[of idOf xs i_d gr])
  case (2 i j)
  let ?ys = "swap_at j i xs"
  have i: "idOf (xs ! i) = i_d" using find_index_SomeD[OF 2(1)] by simp
  have "distinct (map idOf ?ys)"
    using move_up.ids_stay_distinct[OF assms(1), of idOf i_d gr] 2(6) by simp
  then have f: "find_index (\<lambda>it. idOf it = i_d) ?ys = Some j"
    by (rule find_index_distinct) (use 2 i in \<open>auto simp: nth_swap_at\<close>)
  have "seek_down (\<lambda>k. gr (?ys ! k) = gr (?ys ! j)) (j + 1) (length ?ys) = Some i"
    by (rule seek_down_eq) (use 2 in \<open>auto simp: nth_swap_at\<close>)
  with f have "moveItemDownWithinGroup idOf ?ys i_d gr = swap_at j i ?ys"
    by (simp add: moveItemDownWithinGroup_def)
  also have "\<dots> = xs" by (rule nth_equalityI) (use 2 in \<open>auto simp: nth_swap_at\<close>)
  finally show ?thesis using 2(6) by simp
qed (use assms(2) in simp)

theorem move_up_down_witness:
  "moveItemDownWithinGroup fst
     (moveItemUpWithinGroup fst [(''a'', ''A''), (''b'', ''B''), (''c'', ''A'')] ''c'' snd) ''c'' snd =
   [(''a'', ''A''), (''b'', ''B''), (''c'', ''A'')]"
  by (rule move_up_down) (simp_all add: moveItemUpWithinGroup_def swap_at_def)

text \<open>Drag and drop puts the row where the target is: with distinct ids and both rows in one
  group, the dragged row takes the target's place, the other rows of the group keep their order, and
  every row of another group keeps its place.\<close>

theorem move_to_lands:
  assumes d: "distinct (map idOf xs)" and s: "s < length xs" "t < length xs" "s \<noteq> t"
    and g: "gr (xs ! s) = gr (xs ! t)"
  defines "ys \<equiv> moveItemToWithinGroup idOf xs (idOf (xs ! s)) (idOf (xs ! t)) gr"
  shows "ys ! t = xs ! s \<and>
         filter (\<lambda>x. gr x = gr (xs ! s) \<and> x \<noteq> xs ! s) ys = filter (\<lambda>x. gr x = gr (xs ! s) \<and> x \<noteq> xs ! s) xs \<and>
         (\<forall>i < length xs. gr (xs ! i) \<noteq> gr (xs ! s) \<longrightarrow> ys ! i = xs ! i)"
proof -
  let ?P = "\<lambda>x. gr x = gr (xs ! s)"
  let ?ms = "filter ?P xs" and ?at = "\<lambda>i. length (filter ?P (take i xs))"
  have dm: "distinct ?ms" using d distinct_map distinct_filter by blast
  have neq: "idOf (xs ! s) \<noteq> idOf (xs ! t)"
    using d s by (simp add: distinct_conv_nth)
  have fnd: "List.find (\<lambda>it. idOf it = idOf (xs ! i)) xs = Some (xs ! i)" if "i < length xs" for i
    using find_index_distinct[OF d that refl] by (simp add: find_eq_find_index)
  have idx: "find_index (\<lambda>m. m = xs ! i) ?ms = Some (?at i)" if "i < length xs" "?P (xs ! i)" for i
    using find_index_distinct[of "\<lambda>x. x" ?ms "?at i" "xs ! i"] dm filter_place[of i xs ?P] filter_place_less[of i xs ?P] that
    by simp
  note f = moveTo_refill_facts[OF refl idx[OF s(1) refl]]
  have ys: "ys = refill ?P xs (splice_move (?at s) (?at t) (xs ! s) ?ms)"
    using neq fnd[OF s(1)] fnd[OF s(2)] idx[OF s(1)] idx[OF s(2)] g s
      slots_members[of xs ?P] write_slots_refill[OF f(1)]
    by (simp add: ys_def moveItemToWithinGroup_def Let_def del: find_index_map)
  have "ys ! t = xs ! s"
    using refill_nth[OF s(2) _ f(1)] splice_move_at filter_place_less[of s xs ?P] filter_place_less[of t xs ?P] s g
    by (simp add: ys)
  moreover have "filter (\<lambda>x. ?P x \<and> x \<noteq> xs ! s) ys = filter (\<lambda>x. ?P x \<and> x \<noteq> xs ! s) xs"
  proof -
    have "filter ?P ys = splice_move (?at s) (?at t) (xs ! s) ?ms"
      unfolding ys by (rule filter_refill[OF f(1,3)])
    moreover have "filter (\<lambda>x. x \<noteq> xs ! s) (splice_move (?at s) (?at t) (xs ! s) ?ms) = filter (\<lambda>x. x \<noteq> xs ! s) ?ms"
      using splice_move_others[OF dm, of "?at s" "?at t"] filter_place[of s xs ?P] filter_place_less[of s xs ?P] s by simp
    ultimately have "filter (\<lambda>x. x \<noteq> xs ! s) (filter ?P ys) = filter (\<lambda>x. x \<noteq> xs ! s) ?ms" by simp
    then show ?thesis by simp
  qed
  moreover have "\<forall>i < length xs. \<not> ?P (xs ! i) \<longrightarrow> ys ! i = xs ! i"
    unfolding ys by (simp add: refill_outside)
  ultimately show ?thesis by blast
qed

theorem move_to_lands_witness:
  "moveItemToWithinGroup fst [(''a'', ''A''), (''b'', ''B''), (''c'', ''A''), (''d'', ''A'')] ''a'' ''d'' snd ! 3 =
   (''a'', ''A'')"
  using move_to_lands[of fst "[(''a'', ''A''), (''b'', ''B''), (''c'', ''A''), (''d'', ''A'')]" 0 3 snd]
  by simp

end
