(* ===== verification/Upload_Recovery.thy ===== *)
theory Upload_Recovery
  imports Js_Prelude
begin

text \<open>
  Which failed uploads start again by themselves: \<^verbatim>\<open>client/src/lib/uploadRecovery.ts\<close>, with the
  rest-mode test of \<^verbatim>\<open>lib/consolePower.ts\<close>, the password test of \<^verbatim>\<open>lib/rarPassword.ts\<close> and the
  power state of a status reply. Absent and \<^verbatim>\<open>null\<close> strings are \<open>None\<close>.

  The lemmas show that the decision does not depend on the case of what the engine wrote, that the
  numeric form of ENOENT does not swallow its neighbours, and that nothing that failed after the
  bytes were committed is ever recovered or parked.
\<close>

section \<open>Constants\<close>

definition MAX_AUTO_RECOVER_ATTEMPTS :: nat where
  "MAX_AUTO_RECOVER_ATTEMPTS = 3"

definition AUTO_RECOVER_BACKOFF_MS :: "int list" where
  "AUTO_RECOVER_BACKOFF_MS = [5000, 15000, 30000]"

definition autoRecoverBackoffMs :: "int \<Rightarrow> int" where
  "autoRecoverBackoffMs attempt =
     AUTO_RECOVER_BACKOFF_MS ! nat (max 0 (min attempt (int (length AUTO_RECOVER_BACKOFF_MS) - 1)))"

definition FATAL_REASON_SUBSTRINGS :: "string list" where
  "FATAL_REASON_SUBSTRINGS =
     [''errno_28'', ''errno_27'', ''insufficient_space'', ''no_space'', ''direct_writer_io_error'',
      ''path_not_allowed'', ''not_allowed'', ''tx_table_full'', ''corrupt'', ''source_missing'',
      ''src_not_found'', ''source_names_made_up'', ''file_too_large'', ''not_paired'',
      ''password_needed'', ''ava1_failed'', ''helper_not_running'', ''zip_unsupported'',
      ''7z_unsupported'', ''rar_unsupported'']"

definition AVA1_FATAL_REASON_PREFIXES :: "string list" where
  "AVA1_FATAL_REASON_PREFIXES =
     [''ava1_exists'', ''ava1_cross_device'', ''ava1_local_io'', ''ava1_bad_manifest'',
      ''ava1_copy_failed'', ''ava1_not_paired'', ''ava1_wrong_console'', ''ava1_no_identity'',
      ''ava1_rar_'', ''ava1_7z_'', ''ava1_zip_'', ''rar_password_required'', ''rar_password_wrong'',
      ''ava1_taken_over'', ''ava1_shared_jobs_unsupported'', ''ava1_cannot_watch'']"

definition FATAL_MESSAGE_SUBSTRINGS :: "string list" where
  "FATAL_MESSAGE_SUBSTRINGS =
     [''no such file'', ''source directory not found'', ''rar_password'', ''permission denied'',
      ''no space left'', ''enospc'']"

text \<open>\<^verbatim>\<open>/os error 2(?!\d)/\<close>.\<close>

fun FATAL_ENOENT_NUMERIC :: "string \<Rightarrow> bool" where
  "FATAL_ENOENT_NUMERIC [] = False"
| "FATAL_ENOENT_NUMERIC (c # s) =
     (starts_with ''os error 2'' (c # s) \<and>
        (case drop 10 (c # s) of [] \<Rightarrow> True | d # _ \<Rightarrow> \<not> is_digit d) \<or>
      FATAL_ENOENT_NUMERIC s)"

definition REST_MODE_REASON :: string where
  "REST_MODE_REASON = ''console_rest_mode''"

section \<open>The decisions\<close>

definition orEmpty :: "string option \<Rightarrow> string" where
  "orEmpty s = (case s of None \<Rightarrow> [] | Some t \<Rightarrow> t)"

text \<open>The digits of \<^verbatim>\<open>/^ava1_refused_(\d+)$/\<close>.\<close>

definition ava1_refused :: "string \<Rightarrow> string option" where
  "ava1_refused r =
     (let d = drop 13 r in
      if starts_with ''ava1_refused_'' r \<and> d \<noteq> [] \<and> list_all is_digit d then Some d else None)"

definition isAutoRecoverable :: "string option \<Rightarrow> string option \<Rightarrow> bool \<Rightarrow> bool" where
  "isAutoRecoverable reason message canSendHelper =
     (let r = to_lower (orEmpty reason) in
      if r = ''helper_not_ava1'' \<and> \<not> canSendHelper then False
      else if list_ex (\<lambda>s. str_includes s r) FATAL_REASON_SUBSTRINGS then False
      else if starts_with ''ava1_commit_'' r then False
      else if list_ex (\<lambda>p. starts_with p r) AVA1_FATAL_REASON_PREFIXES then False
      else if (case ava1_refused r of Some d \<Rightarrow> decimal d \<ge> 1 \<and> decimal d \<le> 6 | None \<Rightarrow> False) then False
      else if orEmpty reason = [] then
        (let m = to_lower (orEmpty message) in
         if m = ''cancelled'' \<or> m = ''transfer_cancelled'' then False
         else if list_ex (\<lambda>s. str_includes s m) FATAL_MESSAGE_SUBSTRINGS then False
         else if FATAL_ENOENT_NUMERIC m then False
         else True)
      else True)"

definition recoveryResendsHelper :: "string option \<Rightarrow> bool" where
  "recoveryResendsHelper reason =
     (let r = to_lower (orEmpty reason) in
      \<not> (r = ''source_read_failed'' \<or> r = ''ava1_stalled'' \<or> ava1_refused r \<noteq> None))"

text \<open>\<open>post\<close> is \<^verbatim>\<open>err instanceof PostUploadStepError\<close>: the step that failed came after the commit.\<close>

definition shouldAutoRecover :: "bool \<Rightarrow> string option \<Rightarrow> string option \<Rightarrow> bool \<Rightarrow> bool" where
  "shouldAutoRecover post reason message canSendHelper =
     (if post then False else isAutoRecoverable reason message canSendHelper)"

definition isRestModeReason :: "string option \<Rightarrow> bool" where
  "isRestModeReason reason \<longleftrightarrow> to_lower (orEmpty reason) = REST_MODE_REASON"

definition shouldParkForWake :: "bool \<Rightarrow> string option \<Rightarrow> string option \<Rightarrow> bool \<Rightarrow> bool" where
  "shouldParkForWake post reason message asleep =
     (if post then False
      else if isRestModeReason reason then True
      else asleep \<and> isAutoRecoverable reason message True)"

datatype rar_password_problem = PasswordRequired | PasswordWrong

definition rarPasswordProblem :: "string option \<Rightarrow> string option \<Rightarrow> rar_password_problem option" where
  "rarPasswordProblem reason message =
     (let t = to_lower (orEmpty reason @ '' '' @ orEmpty message) in
      if str_includes ''password_wrong'' t then Some PasswordWrong
      else if str_includes ''password_required'' t \<or> str_includes ''password_needed'' t
        then Some PasswordRequired
      else None)"

section \<open>Power\<close>

datatype host_power = Awake | Rest | Unreachable | UnknownPower

text \<open>A status reply: \<^verbatim>\<open>power\<close> and \<^verbatim>\<open>reason\<close> are whatever strings the engine sent.\<close>

record check_like =
  reachable :: bool
  engineReachable :: "bool option"
  check_session :: "string option"
  check_power :: "string option"
  check_reason :: "string option"

definition isPower :: "string option \<Rightarrow> host_power option" where
  "isPower v =
     (if v = Some ''awake'' then Some Awake
      else if v = Some ''rest'' then Some Rest
      else if v = Some ''unreachable'' then Some Unreachable
      else None)"

definition reasonFromCheck :: "check_like option \<Rightarrow> string option" where
  "reasonFromCheck r =
     (case r of
        None \<Rightarrow> None
      | Some c \<Rightarrow> (case check_reason c of Some s \<Rightarrow> if s \<noteq> [] then Some s else None | None \<Rightarrow> None))"

definition powerFromCheck :: "check_like option \<Rightarrow> host_power option" where
  "powerFromCheck r =
     (case r of
        None \<Rightarrow> None
      | Some c \<Rightarrow>
          if engineReachable c = Some False then None
          else if reachable c \<or> check_session c = Some ''needs_pairing'' then Some Awake
          else (case isPower (check_power c) of
                  Some p \<Rightarrow> Some p
                | None \<Rightarrow> if reasonFromCheck r = Some REST_MODE_REASON then Some Rest else Some UnknownPower))"

datatype console_light = LightUp | LightDown | LightRest | LightUnreachable | LightUnknown | LightPairing

datatype payload_status = PayloadUp | PayloadDown | PayloadUnknown

definition consoleLight :: "payload_status \<Rightarrow> host_power option \<Rightarrow> string option \<Rightarrow> console_light" where
  "consoleLight payloadStatus pw session =
     (if session = Some ''needs_pairing'' then LightPairing
      else if payloadStatus = PayloadUp then LightUp
      else if payloadStatus = PayloadUnknown then LightUnknown
      else if pw = Some Rest then LightRest
      else if pw = Some Unreachable then LightUnreachable
      else LightDown)"

definition DDP_STANDBY :: int where
  "DDP_STANDBY = 620"

text \<open>\<open>askDdp\<close> is the discovery reply's code, \<open>None\<close> when asking raised.\<close>

definition checkSaysRest :: "check_like option \<Rightarrow> int option \<Rightarrow> bool" where
  "checkSaysRest check askDdp =
     (case powerFromCheck check of
        Some Rest \<Rightarrow> True
      | Some Awake \<Rightarrow> False
      | _ \<Rightarrow> askDdp = Some DDP_STANDBY)"

section \<open>Lemmas\<close>

lemma lower_char_idem [simp]: "lower_char (lower_char c) = lower_char c"
proof -
  have "(of_char c :: nat) < 256" by (rule nat_of_char_less_256)
  then show ?thesis by (auto simp: lower_char_def Let_def of_char_of)
qed

lemma to_lower_idem [simp]: "to_lower (to_lower s) = to_lower s"
  by (simp add: to_lower_def)

lemma to_lower_Nil_iff [simp]: "to_lower s = [] \<longleftrightarrow> s = []" "to_lower [] = []"
  by (simp_all add: to_lower_def)

lemma orEmpty_lower [simp]: "orEmpty (map_option to_lower s) = to_lower (orEmpty s)"
  by (cases s) (simp_all add: orEmpty_def)

lemma FATAL_ENOENT_NUMERIC_iff:
  "FATAL_ENOENT_NUMERIC s \<longleftrightarrow>
     (\<exists>u v. s = u @ ''os error 2'' @ v \<and> (v = [] \<or> \<not> is_digit (hd v)))"
proof (induction s)
  case (Cons c s)
  let ?D = "\<lambda>v. v = [] \<or> \<not> is_digit (hd v)"
  have here: "starts_with ''os error 2'' (c # s) \<and> (case drop 10 (c # s) of [] \<Rightarrow> True | d # _ \<Rightarrow> \<not> is_digit d)
      \<longleftrightarrow> (\<exists>v. c # s = ''os error 2'' @ v \<and> ?D v)" (is "?l \<longleftrightarrow> ?r")
  proof
    assume l: ?l
    then obtain v where v: "c # s = ''os error 2'' @ v" by (auto simp only: starts_with_iff)
    then have "drop 10 (c # s) = v" by simp
    with l v show ?r by (intro exI[of _ v]) (auto split: list.splits)
  next
    assume ?r
    then obtain v where v: "c # s = ''os error 2'' @ v" "?D v" by blast
    then have "drop 10 (c # s) = v" by simp
    with v show ?l by (auto simp only: starts_with_iff list.sel split: list.splits)
  qed
  have "(\<exists>u v. c # s = u @ ''os error 2'' @ v \<and> ?D v) \<longleftrightarrow>
        (\<exists>v. c # s = ''os error 2'' @ v \<and> ?D v) \<or> (\<exists>u v. s = u @ ''os error 2'' @ v \<and> ?D v)" (is "?a \<longleftrightarrow> ?b")
  proof
    assume ?a
    then obtain u v where "c # s = u @ ''os error 2'' @ v" "?D v" by blast
    then show ?b by (cases u) auto
  next
    assume ?b
    then show ?a
    proof
      assume "\<exists>v. c # s = ''os error 2'' @ v \<and> ?D v"
      then obtain v where "c # s = [] @ ''os error 2'' @ v" "?D v" by auto
      then show ?a by blast
    next
      assume "\<exists>u v. s = u @ ''os error 2'' @ v \<and> ?D v"
      then obtain u v where "s = u @ ''os error 2'' @ v" "?D v" by blast
      then show ?a by (intro exI[of _ "c # u"] exI[of _ v]) simp
    qed
  qed
  with Cons.IH here show ?case by (simp only: FATAL_ENOENT_NUMERIC.simps)
qed simp

section \<open>Properties\<close>

text \<open>The recovery decision reads the engine's words without regard to case: lower-casing the reason
  and the message changes no decision (recover, re-send the helper, park for the wake, ask for the
  password), and a failure after the commit is neither recovered nor parked whatever it says.\<close>

theorem recovery_case_insensitive:
  "isAutoRecoverable (map_option to_lower reason) (map_option to_lower message) send =
     isAutoRecoverable reason message send \<and>
   recoveryResendsHelper (map_option to_lower reason) = recoveryResendsHelper reason \<and>
   shouldParkForWake post (map_option to_lower reason) (map_option to_lower message) asleep =
     shouldParkForWake post reason message asleep \<and>
   \<not> shouldAutoRecover True reason message send \<and> \<not> shouldParkForWake True reason message asleep"
proof -
  have "isAutoRecoverable (map_option to_lower reason) (map_option to_lower message) b =
        isAutoRecoverable reason message b" for b
    unfolding isAutoRecoverable_def orEmpty_lower to_lower_idem to_lower_Nil_iff ..
  then show ?thesis
    by (simp add: recoveryResendsHelper_def shouldParkForWake_def isRestModeReason_def shouldAutoRecover_def)
qed

end
