(* ===== verification/Queue_Item.thy ===== *)
theory Queue_Item
  imports Addr Queue_Ops Upload_Recovery
begin

text \<open>
  The data of the upload queue: a row (\<^verbatim>\<open>QueueItem\<close> in \<^verbatim>\<open>client/src/state/uploadQueue.ts\<close>), the
  install requests and results of \<^verbatim>\<open>state/consoleQueueBridge.ts\<close>, the live notes of
  \<^verbatim>\<open>lib/jobLive.ts\<close>, and the reset of running rows. An optional or nullable field is an
  \<open>option\<close>, except where the code never tells an absent flag from \<^verbatim>\<open>false\<close>.
\<close>

section \<open>Small types\<close>

datatype QueueItemStatus = Pending | Running | Done | Failed

datatype QueueSourceKind = KFile | KImage | KFolder | KGameFolder | KArchive | KPkg | KInstall | KPs5

datatype UploadStrategy = Overwrite | Resume
datatype ReconcileMode = Fast | Safe
datatype item_route = RouteAuto | RouteDirect | RouteRelay
datatype item_adopt = AdoptTake | AdoptWatch
datatype install_phase = Installing | PhaseDone | PhaseWarn | PhaseUnverified | PhaseError
datatype paused_by = ByUser | BySendNow
datatype LinkInstallMode = LinkDirect | LinkStream | LinkDownload

record ExternalPkg =
  ep_path :: string
  ep_drive :: string
  ep_name :: string
  ep_size :: int
  ep_contentId :: string
  ep_titleId :: string
  ep_platform :: string

datatype InstallRequest =
    ViaLibrary string bool
  | ViaConsolePath string
  | ViaExternal ExternalPkg
  | ViaStream string
  | ViaLink string LinkInstallMode bool

record InstallResult =
  ok :: bool
  message :: "string option"
  mayNotLaunch :: bool
  stagedFallbackRecommended :: bool

datatype progress_phase = StageLeg | TransferLeg | InstallLeg

record InstallProgress =
  ip_phase :: progress_phase
  ip_current :: int
  ip_total :: int
  ip_bytesPerSec :: rat
  ip_originBytesPerSec :: "rat option"

section \<open>Live notes of a transfer\<close>

datatype BottleneckCause = BNetwork | BSource | BDisk | BWorkers | BMemory
datatype live_route = LiveDirect | LiveRelay

record JobLive =
  skipping :: bool
  skipDoneBytes :: rat
  skipTotalBytes :: rat
  measuringBytes :: "rat option"
  bottleneck :: "BottleneckCause option"
  settling :: bool
  settleLeft :: "rat option"
  settleTotal :: "rat option"
  unsettled :: bool
  live_route :: "live_route option"
  routeReason :: "string option"

text \<open>The fields of a snapshot this code reads; a numeric field is \<open>None\<close> when it is absent,
  \<^verbatim>\<open>null\<close> or not a finite number.\<close>

record commit_ack =
  ack_bottleneck :: "string option"
  ack_warning :: "string option"
  ack_route :: "string option"
  ack_route_reason :: "string option"

record JobLiveFields =
  f_phase :: "string option"
  f_skip_done :: "rat option"
  f_skip_total :: "rat option"
  f_measure_done :: "rat option"
  f_bottleneck :: "string option"
  f_settling :: bool
  f_settle_left :: "rat option"
  f_settle_total :: "rat option"
  f_route :: "string option"
  f_route_reason :: "string option"
  f_commit_ack :: "commit_ack option"

definition bottleneckCause :: "string option \<Rightarrow> BottleneckCause option" where
  "bottleneckCause word =
     (let w = to_lower (trim (orEmpty word)) in
      if w = ''network'' then Some BNetwork
      else if w = ''source'' then Some BSource
      else if w = ''console drive'' \<or> w = ''disk'' then Some BDisk
      else if w = ''console workers'' \<or> w = ''workers'' then Some BWorkers
      else if w = ''console memory'' \<or> w = ''memory'' then Some BMemory
      else None)"

text \<open>\<^verbatim>\<open>x ?? y\<close>.\<close>

definition coalesce :: "'a option \<Rightarrow> 'a option \<Rightarrow> 'a option" where
  "coalesce x y = (case x of None \<Rightarrow> y | Some _ \<Rightarrow> x)"

definition nonneg :: "rat option \<Rightarrow> rat" where
  "nonneg x = max 0 (case x of None \<Rightarrow> 0 | Some n \<Rightarrow> n)"

definition jobLiveFromSnapshot :: "JobLiveFields option \<Rightarrow> JobLive option" where
  "jobLiveFromSnapshot snap =
     (case snap of
        None \<Rightarrow> None
      | Some f \<Rightarrow>
          (let ack = (\<lambda>g. Option.bind (f_commit_ack f) g);
               skip = (f_phase f = Some ''skipping'');
               measuring = (f_phase f = Some ''measuring'');
               bn = bottleneckCause (coalesce (f_bottleneck f) (ack ack_bottleneck));
               unset = (case ack ack_warning of None \<Rightarrow> False | Some w \<Rightarrow> trim w \<noteq> []);
               routeWord = coalesce (f_route f) (ack ack_route);
               rt = (if routeWord = Some ''direct'' then Some LiveDirect
                     else if routeWord = Some ''relay'' then Some LiveRelay else None);
               reasonWord = trim (orEmpty (coalesce (f_route_reason f) (ack ack_route_reason)));
               counted = (f_settling f \<and> f_settle_left f \<noteq> None);
               left = (if counted then nonneg (f_settle_left f) else 0);
               total = (if counted
                        then max left (case f_settle_total f of None \<Rightarrow> 0 | Some n \<Rightarrow> n) else 0)
           in
           if \<not> skip \<and> \<not> measuring \<and> bn = None \<and> \<not> f_settling f \<and> \<not> unset \<and> rt = None then None
           else Some
             \<lparr>skipping = skip, skipDoneBytes = nonneg (f_skip_done f),
              skipTotalBytes = nonneg (f_skip_total f),
              measuringBytes = (if measuring then Some (nonneg (f_measure_done f)) else None),
              bottleneck = bn, settling = f_settling f,
              settleLeft = (if counted then Some left else None),
              settleTotal = (if counted then Some total else None),
              unsettled = unset, live_route = rt,
              routeReason = (if rt = Some LiveRelay \<and> reasonWord \<noteq> [] then Some reasonWord else None)\<rparr>))"

section \<open>A row\<close>

record QueueItem =
  item_id :: string
  sourceKind :: QueueSourceKind
  sourcePath :: string
  displayName :: string
  resolvedDest :: string
  item_addr :: string
  fromConsole :: "string option"
  item_route :: "item_route option"
  directAddr :: "string option"
  adopt :: "item_adopt option"
  strategy :: UploadStrategy
  reconcileMode :: ReconcileMode
  excludes :: "string list"
  rarPassword :: "string option"
  mountAfterUpload :: bool
  mountReadOnly :: bool
  registerAfterUpload :: bool
  contentId :: "string option"
  item_category :: "string option"
  item_install :: "InstallRequest option"
  fallbackToUpload :: bool
  installAfterUpload :: "bool option"
  deletePkgAfterInstall :: "bool option"
  installPhase :: "install_phase option"
  installPct :: "rat option"
  installProgress :: "InstallProgress option"
  installNote :: "string option"
  installJobId :: "string option"
  stopping :: bool
  deleteSourceAfterUpload :: bool
  installedTitle :: "string option"
  txIdHex :: string
  item_status :: QueueItemStatus
  interrupted :: bool
  paused :: "paused_by option"
  sendNowAt :: "int option"
  uploadDone :: bool
  waitingForWake :: bool
  waitingForEngineQueue :: bool
  stalledForMs :: "int option"
  verifying :: "(int \<times> int) option"
  bytesSent :: int
  resumedBytes :: int
  totalBytes :: int
  estimatedBytes :: int
  bytesPerSec :: rat
  filesFinalized :: int
  filesFinalizingTotal :: int
  item_live :: "JobLive option"
  jobId :: "string option"
  attachJobId :: "string option"
  mountedAt :: "string option"
  registeredAs :: "string option"
  mountWarnings :: "string list"
  recovering :: bool
  recoverAttempt :: nat
  item_error :: "string option"
  errorReason :: "string option"
  errorDetail :: "string option"
  addedAt :: int
  startedAt :: "int option"
  completedAt :: "int option"

definition reset_row :: "QueueItem \<Rightarrow> QueueItem" where
  "reset_row it =
     it\<lparr>item_status := Pending, bytesSent := 0, totalBytes := 0, bytesPerSec := 0,
        recovering := False, recoverAttempt := 0, interrupted := True, stalledForMs := None\<rparr>"

definition resetRunningToPending :: "QueueItem list \<Rightarrow> (QueueItem \<Rightarrow> bool) \<Rightarrow> QueueItem list" where
  "resetRunningToPending items match =
     map (\<lambda>it. if item_status it = Running \<and> match it then reset_row it else it) items"

text \<open>A failure as the runner sees it: the classes it tells apart, and anything else (\<open>lost\<close>: the
  error is one of \<^verbatim>\<open>lostContactErrors\<close>).\<close>

datatype thrown =
    PostUploadStepError string
  | UploadJobError string "string option" "string option"
  | InstallItemError InstallResult
  | OtherError string bool

definition isPostUploadStep :: "thrown \<Rightarrow> bool" where
  "isPostUploadStep e = (case e of PostUploadStepError _ \<Rightarrow> True | _ \<Rightarrow> False)"

definition thrown_message :: "thrown \<Rightarrow> string" where
  "thrown_message e =
     (case e of
        PostUploadStepError m \<Rightarrow> m
      | UploadJobError m _ _ \<Rightarrow> m
      | InstallItemError r \<Rightarrow>
          (if orEmpty (message r) = [] then ''The install didn't complete.'' else orEmpty (message r))
      | OtherError m _ \<Rightarrow> m)"

definition thrown_reason :: "thrown \<Rightarrow> string option" where
  "thrown_reason e = (case e of UploadJobError _ r _ \<Rightarrow> r | _ \<Rightarrow> None)"

definition thrown_detail :: "thrown \<Rightarrow> string option" where
  "thrown_detail e = (case e of UploadJobError _ _ d \<Rightarrow> d | _ \<Rightarrow> None)"

end
