(* ===== verification/Fs_Upload.thy ===== *)
theory Fs_Upload
  imports Fs_Upload_Plan Queue_Item
begin

text \<open>
  A copy of the Files screen (\<^verbatim>\<open>client/src/state/fsUpload.ts\<close>): the loop that sends the steps of a pick one after another,
  kept outside the screen, with its retries, its Stop and Resume and what it saves for the next start.

  \<^verbatim>\<open>runFsUpload\<close> is cut at its awaits: a run says what it waits for (\<open>rn_wait\<close>), and \<open>fs_answer\<close> goes on from there to the
  next await. What the code reads through \<^verbatim>\<open>deps\<close> comes as the answer; which of the optional calls there are is \<open>fs_deps\<close>.
  An error is its message; \<open>JobFailed\<close> also has the engine's reason. What is saved is the value itself (JSON keeps it).
  The Tasks entry of a run, its label and the speed limit handed to the engine are left out, as is \<^verbatim>\<open>onFailed\<close>. Hosts
  are not names that plain objects inherit.
\<close>

section \<open>Types\<close>

record FsUploadActive =
  ac_name :: string
  ac_index :: nat
  ac_count :: nat
  ac_destDir :: string
  ac_jobId :: string
  ac_sent :: nat
  ac_total :: nat
  ac_resumed :: nat
  ac_live :: "JobLive option"
  ac_startedAtMs :: nat
  ac_retry :: "(nat \<times> nat) option"

datatype stop_why = WhyFailed | WhyUser | WhyInterrupted

record FsUploadStopped =
  st_queueId :: "string option"
  st_why :: stop_why
  st_error :: string
  st_reason :: "string option"
  st_addr :: string
  st_destDir :: string
  st_srcPaths :: "string list"
  st_replaceRemoteName :: "string option"
  st_steps :: "FsUploadStep list option"
  st_doneCount :: nat
  st_count :: nat
  st_stepsDone :: "nat option"
  st_name :: string
  st_notLanded :: "string list option"
  st_jobId :: "string option"

record FsUploadState =
  fu_active :: "FsUploadActive option"
  fu_stopped :: "FsUploadStopped option"
  fu_cancelRequested :: bool
  fu_finishedRuns :: nat
  fu_unreadable :: "string list"

record FsUploadRequest =
  rq_queueId :: "string option"
  rq_host :: string
  rq_addr :: string
  rq_destDir :: string
  rq_srcPaths :: "string list"
  rq_steps :: "FsUploadStep list option"
  rq_replaceRemoteName :: "string option"
  rq_doneBefore :: "nat option"
  rq_countTotal :: "nat option"
  rq_attachJobId :: "string option"

record JobSnapshot =
  sn_status :: string
  sn_error :: "string option"
  sn_error_reason :: "string option"
  sn_bytes_sent :: "nat option"
  sn_total_bytes :: "nat option"
  sn_resumed_bytes :: "nat option"
  sn_files_count :: "nat option"
  sn_files_processing :: "nat option"
  sn_files_finalized :: "nat option"
  sn_live :: JobLiveFields

text \<open>Which optional calls the app gives; the minted job ids are numbered.\<close>

record fs_deps =
  dp_startList :: bool
  dp_newTxId :: "(nat \<Rightarrow> string) option"
  dp_listDir :: bool
  dp_jobFiles :: bool
  dp_shouldRetry :: "string option \<Rightarrow> string \<Rightarrow> string \<Rightarrow> bool"

datatype run_error = Plain string | JobFailed string "string option"

definition error_text :: "run_error \<Rightarrow> string" where
  "error_text e = (case e of Plain m \<Rightarrow> m | JobFailed m _ \<Rightarrow> m)"

definition error_reason :: "run_error \<Rightarrow> string option" where
  "error_reason e = (case e of Plain _ \<Rightarrow> None | JobFailed _ r \<Rightarrow> r)"

section \<open>The store and what is saved\<close>

record fs_world =
  fw_byHost :: "string \<rightharpoonup> FsUploadState"
  fw_inflight :: "string \<rightharpoonup> FsUploadStopped"
  fw_saved :: "string \<rightharpoonup> FsUploadStopped"
  fw_minted :: nat
  fw_jobCancels :: "string list"

definition IDLE_FS_UPLOAD :: FsUploadState where
  "IDLE_FS_UPLOAD = \<lparr>fu_active = None, fu_stopped = None, fu_cancelRequested = False, fu_finishedRuns = 0, fu_unreadable = []\<rparr>"

definition fsUploadForHost :: "fs_world \<Rightarrow> string \<Rightarrow> FsUploadState" where
  "fsUploadForHost w host = (case fw_byHost w (hostOf host) of None \<Rightarrow> IDLE_FS_UPLOAD | Some s \<Rightarrow> s)"

definition fs_patch :: "string \<Rightarrow> (FsUploadState \<Rightarrow> FsUploadState) \<Rightarrow> fs_world \<Rightarrow> fs_world" where
  "fs_patch host f w = w\<lparr>fw_byHost := (fw_byHost w)(hostOf host \<mapsto> f (fsUploadForHost w host))\<rparr>"

definition fs_save :: "fs_world \<Rightarrow> fs_world" where
  "fs_save w = w\<lparr>fw_saved := \<lambda>key.
     (case fw_inflight w key of Some st \<Rightarrow> Some st | None \<Rightarrow> Option.bind (fw_byHost w key) fu_stopped)\<rparr>"

definition resumable :: "FsUploadStopped \<Rightarrow> bool" where
  "resumable st \<longleftrightarrow> (case st_steps st of None \<Rightarrow> False | Some ss \<Rightarrow> ss \<noteq> []) \<or> st_srcPaths st \<noteq> []"

definition restoreFsUploads :: "fs_world \<Rightarrow> fs_world" where
  "restoreFsUploads w =
     w\<lparr>fw_inflight := Map.empty,
       fw_byHost := \<lambda>key. (case fw_saved w key of
          Some st \<Rightarrow> if resumable st
                     then Some ((case fw_byHost w key of None \<Rightarrow> IDLE_FS_UPLOAD | Some s \<Rightarrow> s)\<lparr>fu_stopped := Some st\<rparr>)
                     else fw_byHost w key
        | None \<Rightarrow> fw_byHost w key)\<rparr>"

section \<open>Helpers\<close>

definition RETRY_WAITS_MS :: "nat list" where
  "RETRY_WAITS_MS = [5000, 15000, 30000]"

definition RETRY_WAIT_SLICE_MS :: nat where
  "RETRY_WAIT_SLICE_MS = 250"

definition MAX_POLL_FAILURES :: nat where
  "MAX_POLL_FAILURES = 6"

definition FS_UPLOAD_BUSY :: string where
  "FS_UPLOAD_BUSY = ''an upload is already running''"

definition isJobUnknownError :: "string \<Rightarrow> bool" where
  "isJobUnknownError m \<longleftrightarrow> str_includes ''job not found'' (to_lower m)"

definition word_char :: "char \<Rightarrow> bool" where
  "word_char c \<longleftrightarrow> is_digit c \<or> c = CHR ''_'' \<or> (let n = of_char c :: nat in 65 \<le> n \<and> n \<le> 90 \<or> 97 \<le> n \<and> n \<le> 122)"

text \<open>\<^verbatim>\<open>/^engine HTTP (404|405)\b|^command [\w-]+ not found$/i\<close>.\<close>

definition listUnsupported :: "string \<Rightarrow> bool" where
  "listUnsupported m =
     (let t = to_lower (trim m); w = drop 8 (take (length t - 10) t) in
      (starts_with ''engine http 404'' t \<or> starts_with ''engine http 405'' t) \<and> (drop 15 t = [] \<or> \<not> word_char (t ! 15))
      \<or> starts_with ''command '' t \<and> ends_with '' not found'' t \<and> w \<noteq> [] \<and> list_all (\<lambda>c. word_char c \<or> c = CHR ''-'') w)"

definition joinRemote :: "string \<Rightarrow> string \<Rightarrow> string" where
  "joinRemote dir name = (if ends_with ''/'' dir then dir @ name else dir @ ''/'' @ name)"

definition stepsOf :: "FsUploadRequest \<Rightarrow> FsUploadStep list" where
  "stepsOf req =
     (case rq_steps req of
        Some ss \<Rightarrow> ss
      | None \<Rightarrow> map (\<lambda>src. case rq_replaceRemoteName req of
                       Some n \<Rightarrow> StepOne src n True None
                     | None \<Rightarrow> StepOne src (baseNameOf src) False None) (rq_srcPaths req))"

definition srcsOf :: "FsUploadStep list \<Rightarrow> string list" where
  "srcsOf ss = concat (map (\<lambda>s. case s of StepList _ fs \<Rightarrow> map lf_src fs | StepOne src _ _ _ \<Rightarrow> [src]) ss)"

definition unlist :: "FsUploadStep \<Rightarrow> FsUploadStep list" where
  "unlist s = (case s of StepList _ fs \<Rightarrow> map (\<lambda>f. StepOne (lf_src f) (lf_name f) True None) fs | StepOne _ _ _ _ \<Rightarrow> [s])"

definition first_name :: "FsUploadStep \<Rightarrow> string" where
  "first_name s = (case s of StepList _ fs \<Rightarrow> (case fs of [] \<Rightarrow> [] | f # _ \<Rightarrow> lf_name f) | StepOne _ name _ _ \<Rightarrow> name)"

definition splice_unlist :: "nat \<Rightarrow> FsUploadStep list \<Rightarrow> FsUploadStep list" where
  "splice_unlist i ss = take i ss @ unlist (ss ! i) @ drop (i + 1) ss"

text \<open>The folder and the name of a path, \<open>None\<close> when it has no slash (\<^verbatim>\<open>stagedTreeGone\<close>).\<close>

definition staged_at :: "string \<Rightarrow> (string \<times> string) option" where
  "staged_at dest =
     (let r = dropWhile (\<lambda>c. c = CHR ''/'') (rev dest); name = takeWhile (\<lambda>c. c \<noteq> CHR ''/'') r;
          dir = rev (drop (length name + 1) r)
      in if length name = length r then None else Some (if dir = [] then ''/'' else dir, rev name))"

section \<open>A run\<close>

datatype fs_wait =
    WKind | WAttach | WUnsettled | WParent | WDest | WStart | WPoll | WMissed | WFiles JobSnapshot | WSlept
  | WRetry nat | WSettle "run_error option" | WEnd bool "string option" | WGone

record fs_run =
  rn_req :: FsUploadRequest
  rn_steps :: "FsUploadStep list"
  rn_at :: nat
  rn_doneItems :: nat
  rn_partial :: "(nat \<times> string list) option"
  rn_startedAtMs :: nat
  rn_base :: FsUploadActive
  rn_isFolder :: bool
  rn_sizes :: "(string \<rightharpoonup> nat) option"
  rn_attempt :: nat
  rn_unsettled :: string
  rn_misses :: nat
  rn_asked :: bool
  rn_wait :: fs_wait

definition cancelled :: "fs_run \<Rightarrow> fs_world \<Rightarrow> bool" where
  "cancelled r w = fu_cancelRequested (fsUploadForHost w (rq_host (rn_req r)))"

definition or_zero :: "nat option \<Rightarrow> nat" where
  "or_zero n = (case n of None \<Rightarrow> 0 | Some k \<Rightarrow> k)"

definition run_count :: "FsUploadRequest \<Rightarrow> nat" where
  "run_count req = max (or_zero (rq_countTotal req)) (or_zero (rq_doneBefore req) + sum_list (map stepCount (stepsOf req)))"

definition left :: "stop_why \<Rightarrow> string \<Rightarrow> string option \<Rightarrow> fs_run \<Rightarrow> FsUploadStopped" where
  "left why err reason r =
     (let rest = drop (rn_at r) (rn_steps r); req = rn_req r;
          stepsDone = or_zero (rq_doneBefore req) + rn_doneItems r
      in \<lparr>st_queueId = rq_queueId req, st_why = why, st_error = err, st_reason = reason, st_addr = rq_addr req,
          st_destDir = rq_destDir req, st_srcPaths = srcsOf rest, st_replaceRemoteName = rq_replaceRemoteName req,
          st_steps = Some rest, st_doneCount = stepsDone + (case rn_partial r of None \<Rightarrow> 0 | Some (k, _) \<Rightarrow> k),
          st_count = run_count req, st_stepsDone = Some stepsDone,
          st_name = (case rn_partial r of
              Some (_, n # _) \<Rightarrow> n
            | _ \<Rightarrow> (case rest of [] \<Rightarrow> [] | cur # _ \<Rightarrow> first_name cur)),
          st_notLanded = (case rn_partial r of Some (_, n # ns) \<Rightarrow> Some (n # ns) | _ \<Rightarrow> None),
          st_jobId = None\<rparr>)"

definition leftNow :: "string option \<Rightarrow> fs_run \<Rightarrow> FsUploadStopped" where
  "leftNow j r = (left WhyInterrupted [] None r)\<lparr>st_jobId := j\<rparr>"

definition run_ended :: "FsUploadStopped option \<Rightarrow> fs_run \<Rightarrow> fs_world \<Rightarrow> fs_world" where
  "run_ended stopped r w =
     (let host = rq_host (rn_req r) in
      fs_save (fs_patch host (\<lambda>s. s\<lparr>fu_active := None, fu_cancelRequested := False, fu_finishedRuns := fu_finishedRuns s + 1,
                                    fu_stopped := stopped\<rparr>)
                 (w\<lparr>fw_inflight := (fw_inflight w)(hostOf host := None)\<rparr>)))"

definition end_run :: "fs_run \<Rightarrow> fs_world \<Rightarrow> fs_run \<times> fs_world" where
  "end_run r w =
     (let c = cancelled r w in
      (r\<lparr>rn_wait := WEnd (\<not> c) None\<rparr>,
       run_ended (if c \<and> rn_at r < length (rn_steps r) then Some (left WhyUser [] None r) else None) r w))"

definition fail_run :: "run_error \<Rightarrow> fs_run \<Rightarrow> fs_world \<Rightarrow> fs_run \<times> fs_world" where
  "fail_run e r w =
     (r\<lparr>rn_wait := WEnd False (Some (error_text e))\<rparr>, run_ended (Some (left WhyFailed (error_text e) (error_reason e) r)) r w)"

definition show_active :: "fs_run \<Rightarrow> FsUploadActive \<Rightarrow> fs_world \<Rightarrow> fs_world" where
  "show_active r a = fs_patch (rq_host (rn_req r)) (\<lambda>s. s\<lparr>fu_active := Some a\<rparr>)"

definition set_inflight :: "string option \<Rightarrow> fs_run \<Rightarrow> fs_world \<Rightarrow> fs_world" where
  "set_inflight j r w = fs_save (w\<lparr>fw_inflight := (fw_inflight w)(hostOf (rq_host (rn_req r)) \<mapsto> leftNow j r)\<rparr>)"

abbreviation cur_step :: "fs_run \<Rightarrow> FsUploadStep" where
  "cur_step r \<equiv> rn_steps r ! rn_at r"

definition with_txId :: "FsUploadStep \<Rightarrow> string \<Rightarrow> FsUploadStep" where
  "with_txId s tx = (case s of StepOne src name f _ \<Rightarrow> StepOne src name f (Some tx) | StepList _ fs \<Rightarrow> StepList tx fs)"

definition mint :: "(nat \<Rightarrow> string) \<Rightarrow> fs_run \<Rightarrow> fs_world \<Rightarrow> fs_run \<times> fs_world" where
  "mint new r w =
     (r\<lparr>rn_steps := (rn_steps r)[rn_at r := with_txId (cur_step r) (new (fw_minted w))]\<rparr>, w\<lparr>fw_minted := fw_minted w + 1\<rparr>)"

text \<open>A try: the job that may still run is asked about first.\<close>

definition do_start :: "fs_deps \<Rightarrow> fs_run \<Rightarrow> fs_world \<Rightarrow> fs_run \<times> fs_world" where
  "do_start d r w =
     (case cur_step r of
        StepOne src name _ txId \<Rightarrow>
          if rn_isFolder r \<and> rn_at r = 0 \<and> rn_attempt r = 0 \<and> rq_doneBefore (rn_req r) \<noteq> None \<and> orEmpty txId \<noteq> []
             \<and> dp_newTxId d \<noteq> None \<and> dp_listDir d \<and> staged_at (joinRemote (rq_destDir (rn_req r)) name) \<noteq> None
          then (r\<lparr>rn_wait := WParent\<rparr>, w) else (r\<lparr>rn_wait := WStart\<rparr>, w)
      | StepList _ _ \<Rightarrow> (r\<lparr>rn_wait := WStart\<rparr>, w))"

definition after_attach :: "fs_deps \<Rightarrow> fs_run \<Rightarrow> fs_world \<Rightarrow> fs_run \<times> fs_world" where
  "after_attach d r w = (if rn_unsettled r \<noteq> [] then (r\<lparr>rn_wait := WUnsettled\<rparr>, w) else do_start d r w)"

definition attempt_top :: "fs_deps \<Rightarrow> fs_run \<Rightarrow> fs_world \<Rightarrow> fs_run \<times> fs_world" where
  "attempt_top d r w =
     (let r1 = r\<lparr>rn_base := (rn_base r)\<lparr>ac_jobId := [], ac_retry := None\<rparr>\<rparr>;
          w1 = set_inflight None r1 (show_active r1 (rn_base r1) w)
      in if rn_at r = 0 \<and> rn_attempt r = 0 \<and> orEmpty (rq_attachJobId (rn_req r)) \<noteq> [] then (r1\<lparr>rn_wait := WAttach\<rparr>, w1)
         else after_attach d r1 w1)"

definition open_attempts :: "fs_deps \<Rightarrow> bool \<Rightarrow> fs_run \<Rightarrow> fs_world \<Rightarrow> fs_run \<times> fs_world" where
  "open_attempts d folder r w =
     attempt_top d (r\<lparr>rn_isFolder := folder, rn_sizes := None, rn_attempt := 0, rn_unsettled := []\<rparr>) w"

definition step_base :: "fs_run \<Rightarrow> FsUploadActive" where
  "step_base r =
     \<lparr>ac_name = (case cur_step r of
         StepList _ fs \<Rightarrow> (case sendOrder fs of [] \<Rightarrow> [] | n # _ \<Rightarrow> n) | StepOne _ name _ _ \<Rightarrow> name),
      ac_index = or_zero (rq_doneBefore (rn_req r)) + rn_doneItems r, ac_count = run_count (rn_req r),
      ac_destDir = rq_destDir (rn_req r), ac_jobId = [], ac_sent = 0, ac_total = 0, ac_resumed = 0, ac_live = None,
      ac_startedAtMs = rn_startedAtMs r, ac_retry = None\<rparr>"

definition is_list :: "FsUploadStep \<Rightarrow> bool" where
  "is_list s = (case s of StepList _ _ \<Rightarrow> True | StepOne _ _ _ _ \<Rightarrow> False)"

lemma splice_lists:
  assumes "i < length ss" "is_list (ss ! i)"
  shows "length (filter is_list (drop i (splice_unlist i ss))) < length (filter is_list (drop i ss))"
proof -
  have "filter is_list (unlist (ss ! i)) = []"
    using assms(2) by (auto simp: unlist_def is_list_def filter_empty_conv split: FsUploadStep.splits)
  then have "filter is_list (drop i (splice_unlist i ss)) = filter is_list (drop (i + 1) ss)"
    using assms(1) by (simp add: splice_unlist_def)
  moreover have "filter is_list (drop i ss) = ss ! i # filter is_list (drop (i + 1) ss)"
    using assms by (simp add: Cons_nth_drop_Suc[symmetric])
  ultimately show ?thesis by simp
qed

function loop_top :: "fs_deps \<Rightarrow> fs_run \<Rightarrow> fs_world \<Rightarrow> fs_run \<times> fs_world" where
  "loop_top d r w =
     (if length (rn_steps r) \<le> rn_at r \<or> cancelled r w then end_run r w
      else case cur_step r of
        StepList _ _ \<Rightarrow>
          if \<not> dp_startList d then loop_top d (r\<lparr>rn_steps := splice_unlist (rn_at r) (rn_steps r)\<rparr>) w
          else open_attempts d False (r\<lparr>rn_base := step_base r\<rparr>) w
      | StepOne _ _ asFile txId \<Rightarrow>
          (case (case dp_newTxId d of Some new \<Rightarrow> if orEmpty txId = [] then mint new r w else (r, w) | None \<Rightarrow> (r, w)) of
             (r1, w1) \<Rightarrow>
               let r2 = r1\<lparr>rn_base := step_base r1\<rparr>
               in if asFile then open_attempts d False r2 w1 else (r2\<lparr>rn_wait := WKind\<rparr>, w1)))"
  by auto

termination
  by (relation "measure (\<lambda>(d, r, w). length (filter is_list (drop (rn_at r) (rn_steps r))))")
    (auto simp: is_list_def intro!: splice_lists)

declare loop_top.simps [simp del]

text \<open>After the tries of a step: it failed, it was stopped, or it is done.\<close>

definition stop_step :: "run_error option \<Rightarrow> fs_run \<Rightarrow> fs_world \<Rightarrow> fs_run \<times> fs_world" where
  "stop_step failed r w = (case failed of Some e \<Rightarrow> fail_run e r w | None \<Rightarrow> end_run r w)"

definition settleList :: "FsExistingEntry list option \<Rightarrow> fs_run \<Rightarrow> fs_run" where
  "settleList listing r =
     (case cur_step r of
        StepList _ fs \<Rightarrow>
          (case landedOfList fs listing (rn_sizes r) of
             (landed, notLanded) \<Rightarrow> r\<lparr>rn_partial := Some (length landed, map lf_name notLanded)\<rparr>)
      | StepOne _ _ _ _ \<Rightarrow> r)"

definition after_attempts :: "fs_deps \<Rightarrow> run_error option \<Rightarrow> fs_run \<Rightarrow> fs_world \<Rightarrow> fs_run \<times> fs_world" where
  "after_attempts d failed r w =
     (if failed \<noteq> None \<or> cancelled r w
      then (if is_list (cur_step r) \<and> dp_listDir d then (r\<lparr>rn_wait := WSettle failed\<rparr>, w)
            else stop_step failed (settleList None r) w)
      else loop_top d (r\<lparr>rn_doneItems := rn_doneItems r + stepCount (cur_step r), rn_at := rn_at r + 1\<rparr>) w)"

definition retry_wait :: "fs_deps \<Rightarrow> nat \<Rightarrow> fs_run \<Rightarrow> fs_world \<Rightarrow> fs_run \<times> fs_world" where
  "retry_wait d ms r w =
     (if cancelled r w then after_attempts d None r w
      else if ms > 0 then (r\<lparr>rn_wait := WRetry ms\<rparr>, w)
      else attempt_top d (r\<lparr>rn_attempt := rn_attempt r + 1\<rparr>) w)"

definition attempt_failed :: "fs_deps \<Rightarrow> run_error \<Rightarrow> fs_run \<Rightarrow> fs_world \<Rightarrow> fs_run \<times> fs_world" where
  "attempt_failed d e r w =
     (let r1 = (if ac_jobId (rn_base r) \<noteq> []
                then r\<lparr>rn_unsettled := (case e of JobFailed _ _ \<Rightarrow> [] | Plain _ \<Rightarrow> ac_jobId (rn_base r))\<rparr> else r)
      in if cancelled r w \<or> length RETRY_WAITS_MS \<le> rn_attempt r
            \<or> \<not> dp_shouldRetry d (error_reason e) (error_text e) (rq_host (rn_req r))
         then after_attempts d (Some e) r1 w
         else let r2 = r1\<lparr>rn_base := (rn_base r1)\<lparr>ac_retry := Some (rn_attempt r + 1, length RETRY_WAITS_MS)\<rparr>\<rparr>
              in retry_wait d (RETRY_WAITS_MS ! rn_attempt r) r2 (show_active r2 (rn_base r2) w))"

definition have_job :: "string \<Rightarrow> fs_run \<Rightarrow> fs_world \<Rightarrow> fs_run \<times> fs_world" where
  "have_job job r w =
     (let r1 = r\<lparr>rn_base := (rn_base r)\<lparr>ac_jobId := job\<rparr>, rn_misses := 0, rn_asked := False, rn_wait := WPoll\<rparr>;
          w1 = set_inflight (Some job) r1 (show_active r1 (rn_base r1) w)
      in (r1, if cancelled r w1 then w1\<lparr>fw_jobCancels := fw_jobCancels w1 @ [job]\<rparr> else w1))"

definition report_snap :: "JobSnapshot \<Rightarrow> fs_run \<Rightarrow> fs_world \<Rightarrow> fs_run \<times> fs_world" where
  "report_snap snap r w =
     (let b1 = (rn_base r)\<lparr>ac_sent := or_zero (sn_bytes_sent snap), ac_total := or_zero (sn_total_bytes snap),
                           ac_resumed := or_zero (sn_resumed_bytes snap)\<rparr>;
          b2 = (case cur_step r of
                  StepList _ fs \<Rightarrow>
                    let order = sendOrder fs; final = length order - 1;
                        k = min final (or_zero (sn_files_processing snap) - 1);
                        durable = min final (or_zero (sn_files_finalized snap))
                    in if order = [] then b1
                       else b1\<lparr>ac_name := order ! k, ac_index := or_zero (rq_doneBefore (rn_req r)) + rn_doneItems r + durable\<rparr>
                | StepOne _ _ _ _ \<Rightarrow> b1);
          r1 = r\<lparr>rn_base := b2, rn_wait := WSlept\<rparr>
      in (r1, show_active r1 (b2\<lparr>ac_live := jobLiveFromSnapshot (Some (sn_live snap))\<rparr>) w))"

definition poll_answer :: "fs_deps \<Rightarrow> string + JobSnapshot \<Rightarrow> fs_run \<Rightarrow> fs_world \<Rightarrow> fs_run \<times> fs_world" where
  "poll_answer d a r w =
     (case a of
        Inl m \<Rightarrow>
          if isJobUnknownError m \<or> MAX_POLL_FAILURES \<le> rn_misses r + 1
          then attempt_failed d (Plain m) r w
          else (r\<lparr>rn_misses := rn_misses r + 1, rn_wait := WMissed\<rparr>, w)
      | Inr snap \<Rightarrow>
          let r1 = r\<lparr>rn_misses := 0\<rparr> in
          if sn_status snap = ''done'' then after_attempts d None r1 w
          else if sn_status snap = ''failed''
          then (if cancelled r1 w then after_attempts d None r1 w
                else attempt_failed d (JobFailed (case sn_error snap of None \<Rightarrow> ''upload failed'' | Some m \<Rightarrow> m) (sn_error_reason snap)) r1 w)
          else if is_list (cur_step r1) \<and> \<not> rn_asked r1 \<and> dp_jobFiles d \<and> 0 < or_zero (sn_files_count snap)
          then (r1\<lparr>rn_asked := True, rn_wait := WFiles snap\<rparr>, w)
          else report_snap snap r1 w)"

definition attach_answer :: "fs_deps \<Rightarrow> string + JobSnapshot \<Rightarrow> fs_run \<Rightarrow> fs_world \<Rightarrow> fs_run \<times> fs_world" where
  "attach_answer d a r w =
     (case a of
        Inl _ \<Rightarrow> after_attach d r w
      | Inr old \<Rightarrow>
          if sn_status old = ''done'' then after_attempts d None r w
          else if sn_status old = ''running'' then have_job (orEmpty (rq_attachJobId (rn_req r))) r w
          else after_attach d r w)"

definition unsettled_answer :: "fs_deps \<Rightarrow> string + JobSnapshot \<Rightarrow> fs_run \<Rightarrow> fs_world \<Rightarrow> fs_run \<times> fs_world" where
  "unsettled_answer d a r w =
     (let prev = rn_unsettled r; r1 = r\<lparr>rn_unsettled := []\<rparr> in
      case a of
        Inl m \<Rightarrow> if isJobUnknownError m then do_start d r1 w else attempt_failed d (Plain m) r w
      | Inr old \<Rightarrow>
          if sn_status old = ''done'' then after_attempts d None r1 w
          else if sn_status old = ''running'' then have_job prev r1 w
          else do_start d r1 w)"

text \<open>\<^verbatim>\<open>stagedTreeGone\<close>: what the two listings say of the folder a resumed job wrote.\<close>

definition start_over :: "fs_deps \<Rightarrow> fs_run \<Rightarrow> fs_world \<Rightarrow> fs_run \<times> fs_world" where
  "start_over d r w =
     (case dp_newTxId d of
        Some new \<Rightarrow> (case mint new r w of (r1, w1) \<Rightarrow> (r1\<lparr>rn_wait := WStart\<rparr>, w1))
      | None \<Rightarrow> (r\<lparr>rn_wait := WStart\<rparr>, w))"

definition parent_answer :: "fs_deps \<Rightarrow> string + FsExistingEntry list \<Rightarrow> fs_run \<Rightarrow> fs_world \<Rightarrow> fs_run \<times> fs_world" where
  "parent_answer d a r w =
     (case (a, staged_at (joinRemote (rq_destDir (rn_req r)) (first_name (cur_step r)))) of
        (Inr es, Some (_, name)) \<Rightarrow>
          if name @ ''.ava-part'' \<in> en_name ` set es then (r\<lparr>rn_wait := WStart\<rparr>, w)
          else if name \<notin> en_name ` set es then start_over d r w
          else (r\<lparr>rn_wait := WDest\<rparr>, w)
      | _ \<Rightarrow> (r\<lparr>rn_wait := WStart\<rparr>, w))"

definition dest_answer :: "fs_deps \<Rightarrow> string + FsExistingEntry list \<Rightarrow> fs_run \<Rightarrow> fs_world \<Rightarrow> fs_run \<times> fs_world" where
  "dest_answer d a r w = (if a = Inr [] then start_over d r w else (r\<lparr>rn_wait := WStart\<rparr>, w))"

definition start_answer :: "fs_deps \<Rightarrow> string + string \<times> string list \<Rightarrow> fs_run \<Rightarrow> fs_world \<Rightarrow> fs_run \<times> fs_world" where
  "start_answer d a r w =
     (case a of
        Inr (job, unreadable) \<Rightarrow>
          have_job job r
            (if is_list (cur_step r) \<and> unreadable \<noteq> []
             then fs_patch (rq_host (rn_req r)) (\<lambda>s. s\<lparr>fu_unreadable := unreadable\<rparr>) w else w)
      | Inl m \<Rightarrow>
          if is_list (cur_step r) \<and> listUnsupported m
          then loop_top d (r\<lparr>rn_steps := splice_unlist (rn_at r) (rn_steps r)\<rparr>) w
          else attempt_failed d (Plain m) r w)"

datatype fs_reply =
    RKind "string + string" | RStatus "string + JobSnapshot" | RStarted "string + string \<times> string list"
  | RListing "string + FsExistingEntry list" | RFiles "(string \<times> nat) list option" | RSlept

definition fs_answer :: "fs_deps \<Rightarrow> fs_reply \<Rightarrow> fs_run \<Rightarrow> fs_world \<Rightarrow> fs_run \<times> fs_world" where
  "fs_answer d reply r w =
     (case rn_wait r of
        WKind \<Rightarrow>
          (case reply of
             RKind a \<Rightarrow> (case a of Inl m \<Rightarrow> fail_run (Plain m) r w | Inr k \<Rightarrow> open_attempts d (k = ''folder'') r w)
           | _ \<Rightarrow> (r, w))
      | WAttach \<Rightarrow> (case reply of RStatus a \<Rightarrow> attach_answer d a r w | _ \<Rightarrow> (r, w))
      | WUnsettled \<Rightarrow> (case reply of RStatus a \<Rightarrow> unsettled_answer d a r w | _ \<Rightarrow> (r, w))
      | WParent \<Rightarrow> (case reply of RListing a \<Rightarrow> parent_answer d a r w | _ \<Rightarrow> (r, w))
      | WDest \<Rightarrow> (case reply of RListing a \<Rightarrow> dest_answer d a r w | _ \<Rightarrow> (r, w))
      | WStart \<Rightarrow> (case reply of RStarted a \<Rightarrow> start_answer d a r w | _ \<Rightarrow> (r, w))
      | WPoll \<Rightarrow> (case reply of RStatus a \<Rightarrow> poll_answer d a r w | _ \<Rightarrow> (r, w))
      | WMissed \<Rightarrow> (case reply of RSlept \<Rightarrow> (r\<lparr>rn_wait := WPoll\<rparr>, w) | _ \<Rightarrow> (r, w))
      | WFiles snap \<Rightarrow>
          (case reply of
             RFiles fs \<Rightarrow>
               report_snap snap (case fs of None \<Rightarrow> r | Some l \<Rightarrow> if l = [] then r else r\<lparr>rn_sizes := Some (map_of (rev l))\<rparr>) w
           | _ \<Rightarrow> (r, w))
      | WSlept \<Rightarrow> (case reply of RSlept \<Rightarrow> (r\<lparr>rn_wait := WPoll\<rparr>, w) | _ \<Rightarrow> (r, w))
      | WRetry ms \<Rightarrow> (case reply of RSlept \<Rightarrow> retry_wait d (ms - RETRY_WAIT_SLICE_MS) r w | _ \<Rightarrow> (r, w))
      | WSettle failed \<Rightarrow>
          (case reply of
             RListing a \<Rightarrow> stop_step failed (settleList (case a of Inr l \<Rightarrow> Some l | Inl _ \<Rightarrow> None) r) w
           | _ \<Rightarrow> (r, w))
      | WEnd _ _ \<Rightarrow> (r, w)
      | WGone \<Rightarrow> (r, w))"

definition new_run :: "nat \<Rightarrow> FsUploadRequest \<Rightarrow> fs_run" where
  "new_run now req =
     \<lparr>rn_req = req, rn_steps = stepsOf req, rn_at = 0, rn_doneItems = 0, rn_partial = None, rn_startedAtMs = now,
      rn_base = \<lparr>ac_name = [], ac_index = 0, ac_count = 0, ac_destDir = [], ac_jobId = [], ac_sent = 0, ac_total = 0,
                 ac_resumed = 0, ac_live = None, ac_startedAtMs = 0, ac_retry = None\<rparr>,
      rn_isFolder = False, rn_sizes = None, rn_attempt = 0, rn_unsettled = [], rn_misses = 0, rn_asked = False, rn_wait = WGone\<rparr>"

definition runFsUpload :: "fs_deps \<Rightarrow> nat \<Rightarrow> FsUploadRequest \<Rightarrow> fs_world \<Rightarrow> fs_run \<times> fs_world" where
  "runFsUpload d now req w =
     (let r = new_run now req in
      if rn_steps r = [] then (r\<lparr>rn_wait := WEnd True None\<rparr>, w)
      else if fu_active (fsUploadForHost w (rq_host req)) \<noteq> None then (r\<lparr>rn_wait := WEnd False (Some FS_UPLOAD_BUSY)\<rparr>, w)
      else loop_top d r
             (fs_save (fs_patch (rq_host req) (\<lambda>s. s\<lparr>fu_stopped := None, fu_cancelRequested := False, fu_unreadable := []\<rparr>) w)))"

section \<open>Stop, Resume, Dismiss\<close>

definition resume_request :: "string \<Rightarrow> FsUploadStopped \<Rightarrow> FsUploadRequest" where
  "resume_request host st =
     \<lparr>rq_queueId = st_queueId st, rq_host = host, rq_addr = st_addr st, rq_destDir = st_destDir st,
      rq_srcPaths = st_srcPaths st, rq_steps = st_steps st, rq_replaceRemoteName = st_replaceRemoteName st,
      rq_doneBefore = Some (case st_stepsDone st of Some k \<Rightarrow> k | None \<Rightarrow> st_doneCount st),
      rq_countTotal = Some (st_count st),
      rq_attachJobId = (if st_why st = WhyInterrupted then st_jobId st else None)\<rparr>"

definition resumeFsUpload :: "fs_deps \<Rightarrow> nat \<Rightarrow> string \<Rightarrow> fs_world \<Rightarrow> (fs_run \<times> fs_world) option" where
  "resumeFsUpload d now host w =
     (let cur = fsUploadForHost w host in
      case fu_stopped cur of
        Some st \<Rightarrow> if fu_active cur \<noteq> None then None else Some (runFsUpload d now (resume_request host st) w)
      | None \<Rightarrow> None)"

definition dismissFsUploadStopped :: "string \<Rightarrow> fs_world \<Rightarrow> fs_world" where
  "dismissFsUploadStopped host w = fs_save (fs_patch host (\<lambda>s. s\<lparr>fu_stopped := None\<rparr>) w)"

definition clearFsUploadUnreadable :: "string \<Rightarrow> fs_world \<Rightarrow> fs_world" where
  "clearFsUploadUnreadable host = fs_patch host (\<lambda>s. s\<lparr>fu_unreadable := []\<rparr>)"

definition cancelFsUpload :: "string \<Rightarrow> fs_world \<Rightarrow> fs_world" where
  "cancelFsUpload host w =
     (case fu_active (fsUploadForHost w host) of
        None \<Rightarrow> w
      | Some a \<Rightarrow>
          let w1 = fs_patch host (\<lambda>s. s\<lparr>fu_cancelRequested := True\<rparr>) w
          in if ac_jobId a \<noteq> [] then w1\<lparr>fw_jobCancels := fw_jobCancels w1 @ [ac_jobId a]\<rparr> else w1)"

definition giveUpFsUploadStopped :: "string \<Rightarrow> fs_world \<Rightarrow> fs_world \<times> FsUploadStopped option" where
  "giveUpFsUploadStopped host w = (dismissFsUploadStopped host w, fu_stopped (fsUploadForHost w host))"

text \<open>What Dismiss deletes on the console, once the job the run was on has ended. \<open>ls\<close> is what a listing answers, \<open>rm\<close>
  whether a delete works; a delete that fails ends the clean-up of one file, and is passed over for a list.\<close>

definition removeUploadPart :: "(string \<Rightarrow> FsExistingEntry list option) \<Rightarrow> (string \<Rightarrow> bool) \<Rightarrow> string \<Rightarrow> string list" where
  "removeUploadPart ls rm dest =
     (let part = dest @ ''.ava-part'' in
      part # (if rm part \<and> ls part \<noteq> None \<and> ls dest = Some [] then [dest] else []))"

definition discardFsUploadPartial ::
    "(string \<Rightarrow> FsExistingEntry list option) \<Rightarrow> (string \<Rightarrow> bool) \<Rightarrow> string \<Rightarrow> FsUploadStep list option \<Rightarrow> string list" where
  "discardFsUploadPartial ls rm destDir steps =
     (case steps of
        Some (StepOne src name _ _ # _) \<Rightarrow> removeUploadPart ls rm (joinRemote destDir name)
      | Some (StepList _ fs # _) \<Rightarrow>
          (case ls destDir of
             None \<Rightarrow> []
           | Some es \<Rightarrow> map (\<lambda>n. joinRemote destDir n) (filter (\<lambda>n. n \<in> en_name ` set es) (map (\<lambda>f. lf_name f @ ''.ava-part'') fs)))
      | _ \<Rightarrow> [])"

end
