(* ===== verification/Fs_Upload_Run.thy ===== *)
theory Fs_Upload_Run
  imports Fs_Upload
begin

text \<open>
  The copies of the Files screen against an engine. The machine has the store, all runs there were, the picks they were
  started for, and the engine's jobs, each with the files it was asked to send; a run's awaits are answered in any order, the engine's jobs end when they like, and the app
  may close at any moment and start again with what it saved. The engine answers truthfully when it answers: it says a job
  is done or has ended only when it has, and that it does not know a job only when that job is not running; a start that
  fails has started nothing.
\<close>

section \<open>The machine\<close>

datatype job_state = JobRunning | JobDone | JobFailedState | JobGone

record fs_job =
  jb_run :: nat
  jb_files :: "(string \<times> string) list"
  jb_state :: job_state

type_synonym fs_jobs = "string \<rightharpoonup> fs_job"

record fs_sys =
  sy_world :: fs_world
  sy_runs :: "fs_run list"
  sy_jobs :: fs_jobs
  sy_picks :: "FsUploadRequest list"

definition step_dests :: "string \<Rightarrow> FsUploadStep \<Rightarrow> (string \<times> string) list" where
  "step_dests dir s = map (\<lambda>(src, n). (src, joinRemote dir n)) (step_files s)"

definition run_dests :: "fs_run \<Rightarrow> (string \<times> string) list" where
  "run_dests r = step_dests (rq_destDir (rn_req r)) (cur_step r)"

definition job_runs :: "fs_jobs \<Rightarrow> string \<Rightarrow> bool" where
  "job_runs J j \<longleftrightarrow> map_option jb_state (J j) = Some JobRunning"

definition told :: "fs_jobs \<Rightarrow> string \<Rightarrow> string + JobSnapshot \<Rightarrow> bool" where
  "told J j a \<longleftrightarrow>
     (case a of
        Inl m \<Rightarrow> isJobUnknownError m \<longrightarrow> \<not> job_runs J j
      | Inr sn \<Rightarrow> (sn_status sn = ''done'' \<longrightarrow> map_option jb_state (J j) = Some JobDone)
                  \<and> (sn_status sn \<noteq> ''running'' \<longrightarrow> \<not> job_runs J j))"

definition honest :: "fs_jobs \<Rightarrow> fs_run \<Rightarrow> fs_reply \<Rightarrow> bool" where
  "honest J r reply \<longleftrightarrow>
     (case reply of
        RStatus a \<Rightarrow>
          (case rn_wait r of
             WAttach \<Rightarrow> told J (orEmpty (rq_attachJobId (rn_req r))) a
           | WUnsettled \<Rightarrow> told J (rn_unsettled r) a
           | WPoll \<Rightarrow> told J (ac_jobId (rn_base r)) a
           | _ \<Rightarrow> True)
      | RStarted a \<Rightarrow> (case a of Inl _ \<Rightarrow> True | Inr (j, _) \<Rightarrow> j \<noteq> [] \<and> J j = None)
      | _ \<Rightarrow> True)"

definition new_job :: "nat \<Rightarrow> fs_run \<Rightarrow> fs_reply \<Rightarrow> fs_jobs \<Rightarrow> fs_jobs" where
  "new_job i r reply J =
     (case (rn_wait r, reply) of
        (WStart, RStarted (Inr (j, _))) \<Rightarrow> J(j \<mapsto> \<lparr>jb_run = i, jb_files = run_dests r, jb_state = JobRunning\<rparr>)
      | _ \<Rightarrow> J)"

definition fs_live :: "fs_run \<Rightarrow> bool" where
  "fs_live r \<longleftrightarrow> (case rn_wait r of WEnd _ _ \<Rightarrow> False | WGone \<Rightarrow> False | _ \<Rightarrow> True)"

abbreviation run_key :: "fs_run \<Rightarrow> string" where
  "run_key r \<equiv> hostOf (rq_host (rn_req r))"

definition host_free :: "string \<Rightarrow> fs_sys \<Rightarrow> bool" where
  "host_free host s \<longleftrightarrow> (\<forall>r \<in> set (sy_runs s). run_key r = hostOf host \<longrightarrow> \<not> fs_live r)"

definition request_ok :: "FsUploadRequest \<Rightarrow> bool" where
  "request_ok req \<longleftrightarrow> rq_attachJobId req = None \<and> (\<forall>st \<in> set (stepsOf req). step_files st \<noteq> [])"

abbreviation add_run :: "fs_run \<times> fs_world \<Rightarrow> fs_sys \<Rightarrow> fs_sys" where
  "add_run rw s \<equiv> s\<lparr>sy_runs := sy_runs s @ [fst rw], sy_world := snd rw\<rparr>"

definition answer_run :: "fs_deps \<Rightarrow> nat \<Rightarrow> fs_reply \<Rightarrow> fs_sys \<Rightarrow> fs_sys" where
  "answer_run d i reply s =
     (case fs_answer d reply (sy_runs s ! i) (sy_world s) of
        (r, w) \<Rightarrow> s\<lparr>sy_world := w, sy_runs := (sy_runs s)[i := r], sy_jobs := new_job i (sy_runs s ! i) reply (sy_jobs s)\<rparr>)"

definition app_restart :: "fs_sys \<Rightarrow> fs_sys" where
  "app_restart s =
     s\<lparr>sy_world := restoreFsUploads ((sy_world s)\<lparr>fw_byHost := Map.empty, fw_inflight := Map.empty\<rparr>),
       sy_runs := map (\<lambda>r. if fs_live r then r\<lparr>rn_wait := WGone\<rparr> else r) (sy_runs s)\<rparr>"

text \<open>A run is started on a console that has none, by a pick or by Resume (the button, or by itself once the console answers again).\<close>

inductive fs_step :: "fs_deps \<Rightarrow> fs_sys \<Rightarrow> fs_sys \<Rightarrow> bool" for d where
  fs_start: "request_ok req \<Longrightarrow> host_free (rq_host req) s \<Longrightarrow> 
    fs_step d s (add_run (runFsUpload d now req (sy_world s)) (s\<lparr>sy_picks := sy_picks s @ [req]\<rparr>))"
| fs_resume: "host_free host s \<Longrightarrow> resumeFsUpload d now host (sy_world s) = Some rw \<Longrightarrow> fs_step d s (add_run rw s)"
| fs_reply: "i < length (sy_runs s) \<Longrightarrow> honest (sy_jobs s) (sy_runs s ! i) reply \<Longrightarrow> fs_step d s (answer_run d i reply s)"
| fs_cancel: "fs_step d s (s\<lparr>sy_world := cancelFsUpload host (sy_world s)\<rparr>)"
| fs_dismiss: "fs_step d s (s\<lparr>sy_world := dismissFsUploadStopped host (sy_world s)\<rparr>)"
| fs_clear: "fs_step d s (s\<lparr>sy_world := clearFsUploadUnreadable host (sy_world s)\<rparr>)"
| fs_job_ends: "sy_jobs s j = Some b \<Longrightarrow> jb_state b = JobRunning \<Longrightarrow> fs_step d s (s\<lparr>sy_jobs := (sy_jobs s)(j \<mapsto> b\<lparr>jb_state := st\<rparr>)\<rparr>)"
| fs_restart: "fs_step d s (app_restart s)"

definition fs_initial :: fs_sys where
  "fs_initial =
     \<lparr>sy_world = \<lparr>fw_byHost = Map.empty, fw_inflight = Map.empty, fw_saved = Map.empty, fw_minted = 0, fw_jobCancels = []\<rparr>,
      sy_runs = [], sy_jobs = Map.empty, sy_picks = []\<rparr>"

abbreviation fs_reach :: "fs_deps \<Rightarrow> fs_sys \<Rightarrow> bool" where
  "fs_reach d \<equiv> reach (\<lambda>s. s = fs_initial) (fs_step d)"

section \<open>Files and jobs\<close>

abbreviation files_of :: "FsUploadStep list \<Rightarrow> (string \<times> string) list" where
  "files_of ss \<equiv> concat (map step_files ss)"

definition dests :: "string \<Rightarrow> (string \<times> string) list \<Rightarrow> (string \<times> string) set" where
  "dests dir fs = (\<lambda>(src, n). (src, joinRemote dir n)) ` set fs"

definition sent_files :: "fs_jobs \<Rightarrow> (string \<times> string) set" where
  "sent_files J = \<Union> {set (jb_files b) | b. \<exists>j. J j = Some b \<and> jb_state b = JobDone}"

definition job_for :: "fs_jobs \<Rightarrow> string \<Rightarrow> (string \<times> string) set \<Rightarrow> bool" where
  "job_for J j fs \<longleftrightarrow> j \<noteq> [] \<and> (\<exists>b. J j = Some b \<and> fs \<subseteq> set (jb_files b))"

definition alive :: "fs_jobs \<Rightarrow> nat \<Rightarrow> string set" where
  "alive J i = {j. \<exists>b. J j = Some b \<and> jb_run b = i \<and> jb_state b = JobRunning}"

lemma dests_append [simp]: "dests dir (xs @ ys) = dests dir xs \<union> dests dir ys"
  by (auto simp: dests_def)

lemma set_step_dests: "set (step_dests dir s) = dests dir (step_files s)"
  by (simp add: step_dests_def dests_def)

lemma stepCount_files: "stepCount s = length (step_files s)"
  by (cases s) (simp_all add: stepCount_def step_files_def)

lemma sum_stepCount: "sum_list (map stepCount ss) = length (files_of ss)"
  by (induction ss) (simp_all add: stepCount_files)

lemma unlist_files [simp]: "files_of (unlist s) = step_files s"
  by (cases s) (simp_all add: unlist_def step_files_def comp_def concat_map_singleton)

lemma with_txId_files [simp]: "step_files (with_txId s tx) = step_files s"
  by (cases s) (simp_all add: with_txId_def step_files_def)

lemma files_split: "i < length ss \<Longrightarrow> files_of ss = files_of (take i ss) @ step_files (ss ! i) @ files_of (drop (Suc i) ss)"
  by (subst id_take_nth_drop[of i ss]) simp_all

lemma splice_files: "i < length ss \<Longrightarrow> files_of (splice_unlist i ss) = files_of ss"
  by (simp add: splice_unlist_def files_split[of i ss])

lemma splice_take: "i < length ss \<Longrightarrow> take i (splice_unlist i ss) = take i ss"
  by (simp add: splice_unlist_def)

text \<open>Jobs only get further: they keep their files, and what is done stays done.\<close>

definition jobs_le :: "fs_jobs \<Rightarrow> fs_jobs \<Rightarrow> bool" where
  "jobs_le J J' \<longleftrightarrow> (\<forall>j b. J j = Some b \<longrightarrow> (\<exists>b'. J' j = Some b' \<and> jb_files b' = jb_files b \<and> (jb_state b = JobDone \<longrightarrow> jb_state b' = JobDone)))"

lemma jobs_le_refl [simp]: "jobs_le J J"
  by (simp add: jobs_le_def)

lemma sent_mono: "jobs_le J J' \<Longrightarrow> sent_files J \<subseteq> sent_files J'"
  by (fastforce simp: sent_files_def jobs_le_def)

lemma job_for_mono: "jobs_le J J' \<Longrightarrow> job_for J j fs \<Longrightarrow> job_for J' j fs"
  by (force simp: job_for_def jobs_le_def)

lemma job_for_sub: "job_for J j fs \<Longrightarrow> gs \<subseteq> fs \<Longrightarrow> job_for J j gs"
  by (auto simp: job_for_def)

lemma done_job_sent: "job_for J j fs \<Longrightarrow> J j = Some b \<Longrightarrow> jb_state b = JobDone \<Longrightarrow> fs \<subseteq> sent_files J"
  by (auto simp: job_for_def sent_files_def)

section \<open>The store\<close>

definition slot :: "fs_world \<Rightarrow> string \<Rightarrow> FsUploadState" where
  "slot w k = (case fw_byHost w k of None \<Rightarrow> IDLE_FS_UPLOAD | Some s \<Rightarrow> s)"

lemma fsUploadForHost_slot: "fsUploadForHost w host = slot w (hostOf host)"
  by (simp add: fsUploadForHost_def slot_def)

lemma slot_patch: "slot (fs_patch host f w) k = (if k = hostOf host then f (slot w k) else slot w k)"
  by (simp add: slot_def fs_patch_def fsUploadForHost_def)

lemma slot_other [simp]:
  "slot (fs_save w) k = slot w k" "slot (w\<lparr>fw_inflight := m\<rparr>) k = slot w k" "slot (w\<lparr>fw_minted := n\<rparr>) k = slot w k"
  "slot (w\<lparr>fw_jobCancels := c\<rparr>) k = slot w k" "slot (w\<lparr>fw_saved := m\<rparr>) k = slot w k"
  by (simp_all add: slot_def fs_save_def)

lemma inflight_other [simp]:
  "fw_inflight (fs_save w) = fw_inflight w" "fw_inflight (fs_patch host f w) = fw_inflight w"
  by (simp_all add: fs_save_def fs_patch_def)

text \<open>What is on the disk is what a save would write now.\<close>

definition saved_now :: "fs_world \<Rightarrow> bool" where
  "saved_now w \<longleftrightarrow> (\<forall>k. fw_saved w k = (case fw_inflight w k of Some st \<Rightarrow> Some st | None \<Rightarrow> fu_stopped (slot w k)))"

lemma save_stopped: "Option.bind (fw_byHost w k) fu_stopped = fu_stopped (slot w k)"
  by (cases "fw_byHost w k") (simp_all add: slot_def IDLE_FS_UPLOAD_def)

lemma saved_now_save [simp]: "saved_now (fs_save w)"
  unfolding saved_now_def slot_other inflight_other by (simp add: fs_save_def save_stopped split: option.split)

lemma saved_now_patch: "saved_now w \<Longrightarrow> (\<And>s. fu_stopped (f s) = fu_stopped s) \<Longrightarrow> saved_now (fs_patch host f w)"
  unfolding saved_now_def inflight_other slot_patch by (simp add: fs_patch_def split: option.split)

lemma saved_now_other [simp]:
  "saved_now (w\<lparr>fw_minted := n\<rparr>) = saved_now w" "saved_now (w\<lparr>fw_jobCancels := c\<rparr>) = saved_now w"
  by (simp_all add: saved_now_def split: option.split)

section \<open>What a run and a card stand for\<close>

text \<open>What is left of a pick: the files before it have been sent.\<close>

definition rest_of :: "FsUploadRequest list \<Rightarrow> fs_jobs \<Rightarrow> string \<Rightarrow> string \<Rightarrow> (string \<times> string) list \<Rightarrow> bool" where
  "rest_of picks J k dir fs \<longleftrightarrow>
     (\<exists>pick \<in> set picks. hostOf (rq_host pick) = k \<and> rq_destDir pick = dir \<and>
        (\<exists>xs. files_of (stepsOf pick) = xs @ fs \<and> dests dir xs \<subseteq> sent_files J))"

definition card_ok :: "FsUploadRequest list \<Rightarrow> fs_jobs \<Rightarrow> string \<Rightarrow> FsUploadStopped \<Rightarrow> bool" where
  "card_ok picks J k st \<longleftrightarrow>
     (\<exists>ss. st_steps st = Some ss \<and> ss \<noteq> [] \<and> (\<forall>s \<in> set ss. step_files s \<noteq> [])
        \<and> rest_of picks J k (st_destDir st) (files_of ss)
        \<and> (\<forall>j. orEmpty (st_jobId st) = j \<longrightarrow> j \<noteq> [] \<longrightarrow> job_for J j (dests (st_destDir st) (step_files (hd ss)))))"

definition cards_ok :: "FsUploadRequest list \<Rightarrow> fs_jobs \<Rightarrow> fs_world \<Rightarrow> bool" where
  "cards_ok picks J w \<longleftrightarrow>
     (\<forall>k st. fw_inflight w k = Some st \<or> fu_stopped (slot w k) = Some st \<longrightarrow> card_ok picks J k st)"

lemma rest_of_mono: "rest_of picks J k dir fs \<Longrightarrow> jobs_le J J' \<Longrightarrow> set picks \<subseteq> set picks' \<Longrightarrow> rest_of picks' J' k dir fs"
  unfolding rest_of_def using sent_mono[of J J'] by blast

lemma card_ok_mono: "card_ok picks J k st \<Longrightarrow> jobs_le J J' \<Longrightarrow> set picks \<subseteq> set picks' \<Longrightarrow> card_ok picks' J' k st"
  unfolding card_ok_def using rest_of_mono[of picks J k _ _ J' picks'] job_for_mono[of J J'] by blast

lemma cards_ok_mono: "cards_ok picks J w \<Longrightarrow> jobs_le J J' \<Longrightarrow> set picks \<subseteq> set picks' \<Longrightarrow> cards_ok picks' J' w"
  unfolding cards_ok_def using card_ok_mono by blast

text \<open>What a run keeps between its awaits, whatever it waits for.\<close>

definition base_inv :: "FsUploadRequest list \<Rightarrow> fs_jobs \<Rightarrow> fs_run \<Rightarrow> bool" where
  "base_inv picks J r \<longleftrightarrow>
     rn_at r \<le> length (rn_steps r) \<and> (\<forall>s \<in> set (rn_steps r). step_files s \<noteq> [])
     \<and> files_of (rn_steps r) = files_of (stepsOf (rn_req r))
     \<and> rn_doneItems r = length (files_of (take (rn_at r) (rn_steps r)))
     \<and> dests (rq_destDir (rn_req r)) (files_of (take (rn_at r) (rn_steps r))) \<subseteq> sent_files J
     \<and> rest_of picks J (run_key r) (rq_destDir (rn_req r)) (files_of (stepsOf (rn_req r)))
     \<and> (orEmpty (rq_attachJobId (rn_req r)) \<noteq> [] \<and> rn_at r = 0 \<and> rn_steps r \<noteq> [] \<longrightarrow>
          job_for J (orEmpty (rq_attachJobId (rn_req r))) (dests (rq_destDir (rn_req r)) (step_files (rn_steps r ! 0))))"

lemma base_inv_mono: "base_inv picks J r \<Longrightarrow> jobs_le J J' \<Longrightarrow> set picks \<subseteq> set picks' \<Longrightarrow> base_inv picks' J' r"
  unfolding base_inv_def using sent_mono[of J J'] rest_of_mono[of picks J _ _ _ J' picks'] job_for_mono[of J J'] by blast

lemma base_inv_upd [simp]:
  "base_inv picks J (r\<lparr>rn_wait := wt\<rparr>) = base_inv picks J r" "base_inv picks J (r\<lparr>rn_base := a\<rparr>) = base_inv picks J r"
  "base_inv picks J (r\<lparr>rn_isFolder := b\<rparr>) = base_inv picks J r" "base_inv picks J (r\<lparr>rn_sizes := m\<rparr>) = base_inv picks J r"
  "base_inv picks J (r\<lparr>rn_attempt := n\<rparr>) = base_inv picks J r" "base_inv picks J (r\<lparr>rn_unsettled := j\<rparr>) = base_inv picks J r"
  "base_inv picks J (r\<lparr>rn_misses := n\<rparr>) = base_inv picks J r" "base_inv picks J (r\<lparr>rn_asked := b\<rparr>) = base_inv picks J r"
  "base_inv picks J (r\<lparr>rn_partial := p\<rparr>) = base_inv picks J r"
  by (simp_all add: base_inv_def)

lemma base_rest:
  assumes "base_inv picks J r"
  shows "rest_of picks J (run_key r) (rq_destDir (rn_req r)) (files_of (drop (rn_at r) (rn_steps r)))"
proof -
  obtain pick xs where p: "pick \<in> set picks" "hostOf (rq_host pick) = run_key r" "rq_destDir pick = rq_destDir (rn_req r)"
    "files_of (stepsOf pick) = xs @ files_of (rn_steps r)" "dests (rq_destDir (rn_req r)) xs \<subseteq> sent_files J"
    using assms unfolding base_inv_def rest_of_def by metis
  have "files_of (rn_steps r) = files_of (take (rn_at r) (rn_steps r)) @ files_of (drop (rn_at r) (rn_steps r))"
    by (simp flip: concat_append map_append)
  with p assms show ?thesis unfolding rest_of_def base_inv_def
    by (intro bexI[of _ pick] conjI exI[of _ "xs @ files_of (take (rn_at r) (rn_steps r))"]) auto
qed

lemma left_card:
  assumes "base_inv picks J r" "rn_at r < length (rn_steps r)"
  shows "card_ok picks J (run_key r) (left why e reason r)"
    and "j = [] \<or> job_for J j (dests (rq_destDir (rn_req r)) (step_files (cur_step r))) \<Longrightarrow> card_ok picks J (run_key r) (leftNow (Some j) r)"
    and "card_ok picks J (run_key r) (leftNow None r)"
proof -
  have "hd (drop (rn_at r) (rn_steps r)) = cur_step r" using assms(2) by (rule hd_drop_conv_nth)
  moreover have "\<forall>s \<in> set (drop (rn_at r) (rn_steps r)). step_files s \<noteq> []"
    using assms(1) in_set_dropD unfolding base_inv_def by metis
  ultimately show "card_ok picks J (run_key r) (left why e reason r)" "card_ok picks J (run_key r) (leftNow None r)"
    "j = [] \<or> job_for J j (dests (rq_destDir (rn_req r)) (step_files (cur_step r))) \<Longrightarrow> card_ok picks J (run_key r) (leftNow (Some j) r)"
    using base_rest[OF assms(1)] assms(2) by (auto simp: card_ok_def left_def leftNow_def Let_def orEmpty_def)
qed

section \<open>The invariant of a run\<close>

definition cur_dests :: "fs_run \<Rightarrow> (string \<times> string) set" where
  "cur_dests r = dests (rq_destDir (rn_req r)) (step_files (cur_step r))"

definition wait_ok :: "fs_jobs \<Rightarrow> nat \<Rightarrow> fs_run \<Rightarrow> bool" where
  "wait_ok J i r \<longleftrightarrow>
     (case rn_wait r of
        WEnd okay e \<Rightarrow> (okay \<longrightarrow> rn_at r = length (rn_steps r)) \<and> (\<exists>x. alive J i \<subseteq> {x})
      | WGone \<Rightarrow> \<exists>x. alive J i \<subseteq> {x}
      | wt \<Rightarrow> rn_at r < length (rn_steps r) \<and>
          (case wt of
             WUnsettled \<Rightarrow> ac_jobId (rn_base r) = [] \<and> job_for J (rn_unsettled r) (cur_dests r) \<and> alive J i \<subseteq> {rn_unsettled r}
           | WRetry _ \<Rightarrow> (rn_unsettled r \<noteq> [] \<longrightarrow> job_for J (rn_unsettled r) (cur_dests r)) \<and> alive J i \<subseteq> {rn_unsettled r} \<and> alive J i \<subseteq> - {[]}
           | WSettle _ \<Rightarrow> \<exists>x. alive J i \<subseteq> {x}
           | WKind \<Rightarrow> alive J i = {}
           | WAttach \<Rightarrow> alive J i = {} \<and> rn_at r = 0 \<and> ac_jobId (rn_base r) = [] \<and> rn_unsettled r = [] \<and> orEmpty (rq_attachJobId (rn_req r)) \<noteq> []
           | WStart \<Rightarrow> alive J i = {} \<and> ac_jobId (rn_base r) = [] \<and> rn_unsettled r = []
           | WParent \<Rightarrow> alive J i = {} \<and> ac_jobId (rn_base r) = [] \<and> rn_unsettled r = []
           | WDest \<Rightarrow> alive J i = {} \<and> ac_jobId (rn_base r) = [] \<and> rn_unsettled r = []
           | _ \<Rightarrow> job_for J (ac_jobId (rn_base r)) (cur_dests r) \<and> alive J i \<subseteq> {ac_jobId (rn_base r)}))"

definition opened :: "fs_world \<Rightarrow> string \<Rightarrow> bool" where
  "opened w k \<longleftrightarrow> fu_active (slot w k) \<noteq> None \<and> fw_inflight w k \<noteq> None"

definition idle_at :: "fs_world \<Rightarrow> string \<Rightarrow> bool" where
  "idle_at w k \<longleftrightarrow> fu_active (slot w k) = None \<and> fw_inflight w k = None"

definition flags_ok :: "fs_world \<Rightarrow> fs_run \<Rightarrow> bool" where
  "flags_ok w r \<longleftrightarrow>
     (if fs_live r
      then (rn_wait r \<noteq> WKind \<longrightarrow> opened w (run_key r)) \<and> (rn_wait r = WSettle None \<longrightarrow> cancelled r w)
      else idle_at w (run_key r))"

text \<open>The world between two awaits of a run on console \<open>k\<close>.\<close>

definition world_ok :: "FsUploadRequest list \<Rightarrow> fs_jobs \<Rightarrow> string \<Rightarrow> fs_world \<Rightarrow> bool" where
  "world_ok picks J k w \<longleftrightarrow> cards_ok picks J w \<and> saved_now w \<and> (fu_active (slot w k) \<noteq> None \<longrightarrow> fw_inflight w k \<noteq> None)"

definition same_else :: "string \<Rightarrow> fs_world \<Rightarrow> fs_world \<Rightarrow> bool" where
  "same_else k w w' \<longleftrightarrow> (\<forall>k'. k' \<noteq> k \<longrightarrow> slot w' k' = slot w k' \<and> fw_inflight w' k' = fw_inflight w k')"

definition goes_on :: "FsUploadRequest list \<Rightarrow> fs_jobs \<Rightarrow> nat \<Rightarrow> fs_run \<Rightarrow> fs_world \<Rightarrow> fs_run \<times> fs_world \<Rightarrow> bool" where
  "goes_on picks J i r w rw \<longleftrightarrow>
     (case rw of (r', w') \<Rightarrow>
        rn_req r' = rn_req r \<and> base_inv picks J r' \<and> wait_ok J i r' \<and> world_ok picks J (run_key r) w' \<and> flags_ok w' r'
        \<and> same_else (run_key r) w w')"

lemma same_else_refl [simp]: "same_else k w w"
  by (simp add: same_else_def)

lemma same_else_trans: "same_else k w w1 \<Longrightarrow> same_else k w1 w2 \<Longrightarrow> same_else k w w2"
  by (simp add: same_else_def)

lemma goes_on_from:
  "goes_on picks J i r1 w1 rw \<Longrightarrow> rn_req r1 = rn_req r \<Longrightarrow> same_else (run_key r) w w1 \<Longrightarrow> goes_on picks J i r w rw"
  by (auto simp: goes_on_def same_else_def)

lemma cancelled_slot: "cancelled r w = fu_cancelRequested (slot w (run_key r))"
  by (simp add: cancelled_def fsUploadForHost_slot)

section \<open>The pieces of a run\<close>

lemma run_ended_ok:
  assumes "world_ok picks J (run_key r) w" "\<forall>st. stopped = Some st \<longrightarrow> card_ok picks J (run_key r) st"
  shows "world_ok picks J (run_key r) (run_ended stopped r w)" "idle_at (run_ended stopped r w) (run_key r)"
    "same_else (run_key r) w (run_ended stopped r w)"
proof -
  let ?w = "run_ended stopped r w"
  have s: "slot ?w k' = (if k' = run_key r then (slot w k')\<lparr>fu_active := None, fu_cancelRequested := False,
      fu_finishedRuns := fu_finishedRuns (slot w k') + 1, fu_stopped := stopped\<rparr> else slot w k')" for k'
    by (simp add: run_ended_def Let_def slot_patch)
  have f: "fw_inflight ?w = (fw_inflight w)(run_key r := None)" by (simp add: run_ended_def Let_def)
  show "world_ok picks J (run_key r) ?w" "idle_at ?w (run_key r)" "same_else (run_key r) w ?w"
    using assms unfolding world_ok_def idle_at_def same_else_def cards_ok_def f s
    by (auto simp: run_ended_def Let_def split: if_splits)
qed

lemma end_run_on:
  assumes "base_inv picks J r" "world_ok picks J (run_key r) w" "length (rn_steps r) \<le> rn_at r \<or> cancelled r w" "alive J i \<subseteq> {x}"
  shows "goes_on picks J i r w (end_run r w)"
proof -
  let ?st = "if cancelled r w \<and> rn_at r < length (rn_steps r) then Some (left WhyUser [] None r) else None"
  have "\<forall>st. ?st = Some st \<longrightarrow> card_ok picks J (run_key r) st" using left_card(1)[OF assms(1)] by (simp split: if_splits)
  note e = run_ended_ok[OF assms(2) this]
  have "rn_at r \<le> length (rn_steps r)" using assms(1) by (simp add: base_inv_def)
  then show ?thesis using e assms by (auto simp: goes_on_def end_run_def Let_def wait_ok_def flags_ok_def fs_live_def)
qed

lemma fail_run_on:
  assumes "base_inv picks J r" "world_ok picks J (run_key r) w" "rn_at r < length (rn_steps r)" "alive J i \<subseteq> {x}"
  shows "goes_on picks J i r w (fail_run e r w)"
proof -
  have "\<forall>st. Some (left WhyFailed (error_text e) (error_reason e) r) = Some st \<longrightarrow> card_ok picks J (run_key r) st"
    using left_card(1)[OF assms(1,3)] by simp
  note e = run_ended_ok[OF assms(2) this]
  show ?thesis using e assms by (auto simp: goes_on_def fail_run_def wait_ok_def flags_ok_def fs_live_def)
qed

text \<open>Showing the run as active and noting what is left of it.\<close>

lemma show_active_ok:
  assumes "world_ok picks J (run_key r) w" "fw_inflight w (run_key r) \<noteq> None"
  shows "world_ok picks J (run_key r) (show_active r a w)" "opened (show_active r a w) (run_key r)"
    "same_else (run_key r) w (show_active r a w)" "cancelled r (show_active r a w) = cancelled r w"
proof -
  let ?w = "show_active r a w"
  have s: "slot ?w k' = (if k' = run_key r then (slot w k')\<lparr>fu_active := Some a\<rparr> else slot w k')" for k'
    by (simp add: show_active_def slot_patch)
  have f: "fw_inflight ?w = fw_inflight w" by (simp add: show_active_def)
  have n: "saved_now ?w" using assms(1) unfolding show_active_def world_ok_def by (intro saved_now_patch) auto
  show "world_ok picks J (run_key r) ?w" "opened ?w (run_key r)" "same_else (run_key r) w ?w" "cancelled r ?w = cancelled r w"
    using assms n unfolding world_ok_def opened_def same_else_def cards_ok_def cancelled_slot f s by auto
qed

lemma noted_ok:
  assumes "world_ok picks J (run_key r) w" "card_ok picks J (run_key r) (leftNow j r)"
  shows "world_ok picks J (run_key r) (set_inflight j r (show_active r a w))" "opened (set_inflight j r (show_active r a w)) (run_key r)"
    "same_else (run_key r) w (set_inflight j r (show_active r a w))" "cancelled r (set_inflight j r (show_active r a w)) = cancelled r w"
proof -
  let ?w = "set_inflight j r (show_active r a w)"
  have s: "slot ?w k' = (if k' = run_key r then (slot w k')\<lparr>fu_active := Some a\<rparr> else slot w k')" for k'
    by (simp add: set_inflight_def show_active_def slot_patch)
  have f: "fw_inflight ?w = (fw_inflight w)(run_key r \<mapsto> leftNow j r)" by (simp add: set_inflight_def show_active_def)
  have n: "saved_now ?w" by (simp add: set_inflight_def)
  show "world_ok picks J (run_key r) ?w" "opened ?w (run_key r)" "same_else (run_key r) w ?w" "cancelled r ?w = cancelled r w"
    using assms n unfolding world_ok_def opened_def same_else_def cards_ok_def cancelled_slot f s by auto
qed

lemma goes_on_wait:
  "base_inv picks J r \<Longrightarrow> world_ok picks J (run_key r) w \<Longrightarrow> opened w (run_key r) \<Longrightarrow> wait_ok J i (r\<lparr>rn_wait := wt\<rparr>)
   \<Longrightarrow> fs_live (r\<lparr>rn_wait := wt\<rparr>) \<Longrightarrow> (wt = WSettle None \<Longrightarrow> cancelled r w) \<Longrightarrow> goes_on picks J i r w (r\<lparr>rn_wait := wt\<rparr>, w)"
  by (auto simp: goes_on_def flags_ok_def cancelled_slot)

lemma do_start_on:
  assumes "base_inv picks J r" "world_ok picks J (run_key r) w" "opened w (run_key r)" "rn_at r < length (rn_steps r)"
    "alive J i = {}" "ac_jobId (rn_base r) = []" "rn_unsettled r = []"
  shows "goes_on picks J i r w (do_start d r w)"
proof -
  have "do_start d r w = (r\<lparr>rn_wait := WParent\<rparr>, w) \<or> do_start d r w = (r\<lparr>rn_wait := WStart\<rparr>, w)"
    by (simp add: do_start_def split: FsUploadStep.split)
  then show ?thesis using assms by (auto intro!: goes_on_wait simp: wait_ok_def fs_live_def)
qed

lemma after_attach_on:
  assumes "base_inv picks J r" "world_ok picks J (run_key r) w" "opened w (run_key r)" "rn_at r < length (rn_steps r)"
    "alive J i \<subseteq> {rn_unsettled r}" "alive J i \<subseteq> - {[]}" "ac_jobId (rn_base r) = []"
    "rn_unsettled r \<noteq> [] \<longrightarrow> job_for J (rn_unsettled r) (cur_dests r)"
  shows "goes_on picks J i r w (after_attach d r w)"
proof (cases "rn_unsettled r = []")
  case True
  then have "alive J i = {}" using assms(5,6) by auto
  with True assms do_start_on show ?thesis by (simp add: after_attach_def)
next
  case False
  then show ?thesis using assms by (auto intro!: goes_on_wait simp: after_attach_def wait_ok_def fs_live_def cur_dests_def)
qed

lemma attempt_top_on:
  assumes "base_inv picks J r" "world_ok picks J (run_key r) w" "rn_at r < length (rn_steps r)"
    "alive J i \<subseteq> {rn_unsettled r}" "alive J i \<subseteq> - {[]}"
    "rn_unsettled r \<noteq> [] \<longrightarrow> job_for J (rn_unsettled r) (cur_dests r)" "rn_attempt r = 0 \<longrightarrow> rn_unsettled r = []"
  shows "goes_on picks J i r w (attempt_top d r w)"
proof -
  define r1 where "r1 = r\<lparr>rn_base := (rn_base r)\<lparr>ac_jobId := [], ac_retry := None\<rparr>\<rparr>"
  define w1 where "w1 = set_inflight None r1 (show_active r1 (rn_base r1) w)"
  have r1: "rn_req r1 = rn_req r" "base_inv picks J r1" "rn_at r1 = rn_at r" "rn_steps r1 = rn_steps r" "rn_unsettled r1 = rn_unsettled r"
    "ac_jobId (rn_base r1) = []" using assms(1) by (simp_all add: r1_def)
  have "card_ok picks J (run_key r1) (leftNow None r1)" by (rule left_card(3)) (use r1 assms in auto)
  from noted_ok[OF _ this, of w "rn_base r1"] have w1: "world_ok picks J (run_key r1) w1" "opened w1 (run_key r1)" "same_else (run_key r1) w w1"
    using assms(2) r1(1) by (simp_all add: w1_def)
  have "goes_on picks J i r1 w1 (attempt_top d r w)"
  proof (cases "rn_at r = 0 \<and> rn_attempt r = 0 \<and> orEmpty (rq_attachJobId (rn_req r)) \<noteq> []")
    case True
    then have "attempt_top d r w = (r1\<lparr>rn_wait := WAttach\<rparr>, w1)" by (simp add: attempt_top_def r1_def w1_def Let_def)
    moreover have "alive J i = {}" using True assms(4,5,7) by auto
    ultimately show ?thesis using True r1 w1 assms(3,7) by (auto intro!: goes_on_wait simp: wait_ok_def fs_live_def)
  next
    case False
    have "attempt_top d r w = after_attach d r1 w1"
      unfolding attempt_top_def Let_def r1_def[symmetric] w1_def[symmetric] by (rule if_not_P[OF False])
    then show ?thesis using after_attach_on[OF r1(2) w1(1,2)] r1 assms by (simp add: cur_dests_def)
  qed
  then show ?thesis by (rule goes_on_from) (use r1(1) w1(3) in auto)
qed

lemma open_attempts_on:
  assumes "base_inv picks J r" "world_ok picks J (run_key r) w" "rn_at r < length (rn_steps r)" "alive J i = {}"
  shows "goes_on picks J i r w (open_attempts d folder r w)"
  unfolding open_attempts_def
  by (rule goes_on_from[OF attempt_top_on]) (use assms in auto)

lemma splice_base:
  assumes "base_inv picks J r" "rn_at r < length (rn_steps r)"
  shows "base_inv picks J (r\<lparr>rn_steps := splice_unlist (rn_at r) (rn_steps r)\<rparr>)"
proof -
  let ?ss = "splice_unlist (rn_at r) (rn_steps r)"
  have ne: "\<forall>s \<in> set (rn_steps r). step_files s \<noteq> []" using assms(1) by (simp add: base_inv_def)
  have u: "\<forall>s' \<in> set (unlist s). step_files s' \<noteq> [] \<and> set (step_files s') \<subseteq> set (step_files s)" if "step_files s \<noteq> []" for s
    using that by (cases s) (auto simp: unlist_def step_files_def)
  have un: "unlist (cur_step r) \<noteq> []" using ne assms(2) unlist_files[of "cur_step r"] by (metis concat.simps(1) list.map(1) nth_mem)
  have len: "rn_at r \<le> length ?ss" using assms(2) by (simp add: splice_unlist_def)
  have "\<forall>s \<in> set ?ss. step_files s \<noteq> []"
    using ne u[of "cur_step r"] assms(2) by (auto simp: splice_unlist_def dest: in_set_takeD in_set_dropD)
  moreover have "dests dir (step_files (?ss ! 0)) \<subseteq> dests dir (step_files (rn_steps r ! 0))" if "rn_at r = 0" for dir
  proof -
    have "?ss ! 0 = hd (unlist (rn_steps r ! 0))" using that un by (simp add: splice_unlist_def nth_append hd_conv_nth)
    then have "?ss ! 0 \<in> set (unlist (rn_steps r ! 0))" using un that by simp
    moreover have "step_files (rn_steps r ! 0) \<noteq> []" using ne assms(2) that by simp
    ultimately have "set (step_files (?ss ! 0)) \<subseteq> set (step_files (rn_steps r ! 0))" using u by blast
    then show ?thesis unfolding dests_def by (rule image_mono)
  qed
  ultimately show ?thesis
    using assms len by (auto simp: base_inv_def splice_files splice_take intro: job_for_sub)
qed

lemma mint_base:
  assumes "base_inv picks J r"
  shows "base_inv picks J (fst (mint new r w))" "rn_req (fst (mint new r w)) = rn_req r" "rn_at (fst (mint new r w)) = rn_at r"
    "length (rn_steps (fst (mint new r w))) = length (rn_steps r)"
    "world_ok picks J k (snd (mint new r w)) = world_ok picks J k w" "same_else k w (snd (mint new r w))"
    "opened (snd (mint new r w)) k = opened w k" "cancelled r' (snd (mint new r w)) = cancelled r' w"
    "rn_base (fst (mint new r w)) = rn_base r" "rn_unsettled (fst (mint new r w)) = rn_unsettled r"
proof -
  have m: "map step_files ((rn_steps r)[rn_at r := with_txId (cur_step r) tx]) = map step_files (rn_steps r)" for tx
    by (cases "rn_at r < length (rn_steps r)") (simp_all add: map_update list_update_same_conv list_update_beyond)
  then have z: "step_files ((rn_steps r)[rn_at r := with_txId (cur_step r) tx] ! 0) = step_files (rn_steps r ! 0)" if "rn_steps r \<noteq> []" for tx
    using that by (metis length_greater_0_conv length_list_update nth_map)
  have "set ((rn_steps r)[rn_at r := with_txId (cur_step r) tx]) \<subseteq> insert (with_txId (cur_step r) tx) (set (rn_steps r))" for tx
    by (rule set_update_subset_insert)
  then have ne: "\<forall>s \<in> set ((rn_steps r)[rn_at r := with_txId (cur_step r) tx]). step_files s \<noteq> []" for tx
    using m[of tx] assms unfolding base_inv_def by (metis (no_types, lifting) in_set_conv_nth length_map nth_map)
  show "base_inv picks J (fst (mint new r w))" using assms z ne unfolding base_inv_def mint_def by (simp add: m)
qed (simp_all add: mint_def world_ok_def saved_now_def cards_ok_def same_else_def opened_def cancelled_slot split: option.split)

lemma loop_top_on:
  assumes "base_inv picks J r" "world_ok picks J (run_key r) w" "alive J i = {}"
  shows "goes_on picks J i r w (loop_top d r w)"
  using assms
proof (induction d r w rule: loop_top.induct)
  case (1 d r w)
  show ?case
  proof (cases "length (rn_steps r) \<le> rn_at r \<or> cancelled r w")
    case True
    then show ?thesis using end_run_on[OF "1.prems"(1,2) True, of i "[]"] "1.prems"(3) by (subst loop_top.simps) simp
  next
    case False
    then have at_lt: "rn_at r < length (rn_steps r)" by simp
    show ?thesis
    proof (cases "cur_step r")
      case (StepList tx fs)
      show ?thesis
      proof (cases "dp_startList d")
        case True
        then have "loop_top d r w = open_attempts d False (r\<lparr>rn_base := step_base r\<rparr>) w" using False StepList by (subst loop_top.simps) simp
        moreover have "goes_on picks J i (r\<lparr>rn_base := step_base r\<rparr>) w (open_attempts d False (r\<lparr>rn_base := step_base r\<rparr>) w)"
          by (rule open_attempts_on) (use "1.prems" at_lt in auto)
        ultimately show ?thesis by (auto elim: goes_on_from)
      next
        case no: False
        then have "loop_top d r w = loop_top d (r\<lparr>rn_steps := splice_unlist (rn_at r) (rn_steps r)\<rparr>) w"
          using False StepList by (subst loop_top.simps) simp
        moreover have "goes_on picks J i (r\<lparr>rn_steps := splice_unlist (rn_at r) (rn_steps r)\<rparr>) w (loop_top d (r\<lparr>rn_steps := splice_unlist (rn_at r) (rn_steps r)\<rparr>) w)"
          by (rule "1.IH"[OF False StepList no]) (use "1.prems" splice_base[OF "1.prems"(1) at_lt] in auto)
        ultimately show ?thesis by (auto elim: goes_on_from)
      qed
    next
      case (StepOne src name asFile txId)
      define rw where "rw = (case dp_newTxId d of Some new \<Rightarrow> if orEmpty txId = [] then mint new r w else (r, w) | None \<Rightarrow> (r, w))"
      have rw: "base_inv picks J (fst rw)" "rn_req (fst rw) = rn_req r" "rn_at (fst rw) = rn_at r" "length (rn_steps (fst rw)) = length (rn_steps r)"
        "world_ok picks J (run_key r) (snd rw)" "same_else (run_key r) w (snd rw)"
        using "1.prems"(1,2) mint_base[OF "1.prems"(1)] by (auto simp: rw_def split: option.split)
      define r2 where "r2 = (fst rw)\<lparr>rn_base := step_base (fst rw)\<rparr>"
      have e: "loop_top d r w = (if asFile then open_attempts d False r2 (snd rw) else (r2\<lparr>rn_wait := WKind\<rparr>, snd rw))"
        using False StepOne unfolding r2_def by (subst loop_top.simps) (simp add: rw_def[symmetric] Let_def case_prod_unfold)
      have "goes_on picks J i r2 (snd rw) (loop_top d r w)"
      proof (cases asFile)
        case True
        then show ?thesis unfolding e using open_attempts_on[of picks J r2 "snd rw" i d False] rw "1.prems"(3) at_lt by (simp add: r2_def)
      next
        case nf: False
        then show ?thesis unfolding e using rw "1.prems"(3) at_lt
          by (auto simp: goes_on_def r2_def wait_ok_def flags_ok_def fs_live_def)
      qed
      then show ?thesis by (rule goes_on_from) (use rw in \<open>auto simp: r2_def\<close>)
    qed
  qed
qed

lemma settleList_same [simp]:
  "base_inv picks J (settleList l r) = base_inv picks J r" "rn_req (settleList l r) = rn_req r" "rn_at (settleList l r) = rn_at r"
  "rn_steps (settleList l r) = rn_steps r"
  by (simp_all add: settleList_def split: FsUploadStep.split prod.split)

lemma stop_step_on:
  assumes "base_inv picks J r" "world_ok picks J (run_key r) w" "rn_at r < length (rn_steps r)" "alive J i \<subseteq> {x}" "failed = None \<Longrightarrow> cancelled r w"
  shows "goes_on picks J i r w (stop_step failed (settleList l r) w)"
proof -
  have "goes_on picks J i (settleList l r) w (stop_step failed (settleList l r) w)"
  proof (cases failed)
    case None
    then show ?thesis using end_run_on[of picks J "settleList l r" w i x] assms by (simp add: stop_step_def cancelled_slot)
  next
    case (Some e)
    then show ?thesis using fail_run_on[of picks J "settleList l r" w i x e] assms by (simp add: stop_step_def)
  qed
  then show ?thesis by (rule goes_on_from) simp_all
qed

lemma next_base:
  assumes "base_inv picks J r" "rn_at r < length (rn_steps r)" "cur_dests r \<subseteq> sent_files J"
  shows "base_inv picks J (r\<lparr>rn_doneItems := rn_doneItems r + stepCount (cur_step r), rn_at := rn_at r + 1\<rparr>)"
  using assms by (simp add: base_inv_def take_Suc_conv_app_nth stepCount_files cur_dests_def)

lemma after_attempts_on:
  assumes "base_inv picks J r" "world_ok picks J (run_key r) w" "opened w (run_key r)" "rn_at r < length (rn_steps r)" "alive J i \<subseteq> {x}"
    and finished: "failed = None \<Longrightarrow> \<not> cancelled r w \<Longrightarrow> alive J i = {} \<and> cur_dests r \<subseteq> sent_files J"
  shows "goes_on picks J i r w (after_attempts d failed r w)"
proof (cases "failed \<noteq> None \<or> cancelled r w")
  case True
  show ?thesis
  proof (cases "is_list (cur_step r) \<and> dp_listDir d")
    case True': True
    then have "after_attempts d failed r w = (r\<lparr>rn_wait := WSettle failed\<rparr>, w)" using True by (simp add: after_attempts_def)
    then show ?thesis using assms True by (auto intro!: goes_on_wait exI[of _ x] simp: wait_ok_def fs_live_def)
  next
    case False
    then have "after_attempts d failed r w = stop_step failed (settleList None r) w" using True by (auto simp: after_attempts_def)
    then show ?thesis using stop_step_on[OF assms(1,2,4,5), of failed None] True by auto
  qed
next
  case False
  let ?r = "r\<lparr>rn_doneItems := rn_doneItems r + stepCount (cur_step r), rn_at := rn_at r + 1\<rparr>"
  have "goes_on picks J i ?r w (loop_top d ?r w)"
    by (rule loop_top_on) (use next_base[OF assms(1,4)] finished False assms(2) in auto)
  then show ?thesis using False by (auto simp: after_attempts_def elim: goes_on_from)
qed

definition retry_ok :: "fs_jobs \<Rightarrow> nat \<Rightarrow> fs_run \<Rightarrow> bool" where
  "retry_ok J i r \<longleftrightarrow> (rn_unsettled r \<noteq> [] \<longrightarrow> job_for J (rn_unsettled r) (cur_dests r)) \<and> alive J i \<subseteq> {rn_unsettled r} \<and> alive J i \<subseteq> - {[]}"

lemma retry_wait_on:
  assumes "base_inv picks J r" "world_ok picks J (run_key r) w" "opened w (run_key r)" "rn_at r < length (rn_steps r)" "retry_ok J i r"
  shows "goes_on picks J i r w (retry_wait d ms r w)"
proof -
  consider "cancelled r w" | "\<not> cancelled r w" "ms > 0" | "\<not> cancelled r w" "ms = 0" by blast
  then show ?thesis
  proof cases
    case 1
    then show ?thesis using after_attempts_on[OF assms(1-4), of i "rn_unsettled r" None] assms(5) by (simp add: retry_wait_def retry_ok_def)
  next
    case 2
    then show ?thesis using assms by (auto intro!: goes_on_wait simp: retry_wait_def wait_ok_def fs_live_def retry_ok_def cur_dests_def)
  next
    case 3
    let ?r = "r\<lparr>rn_attempt := rn_attempt r + 1\<rparr>"
    have "goes_on picks J i ?r w (attempt_top d ?r w)"
      by (rule attempt_top_on) (use assms in \<open>auto simp: retry_ok_def cur_dests_def\<close>)
    with 3 show ?thesis by (auto simp: retry_wait_def elim: goes_on_from)
  qed
qed

lemma attempt_failed_on:
  assumes "base_inv picks J r" "world_ok picks J (run_key r) w" "opened w (run_key r)" "rn_at r < length (rn_steps r)" "J [] = None"
    and job: "ac_jobId (rn_base r) \<noteq> [] \<Longrightarrow> job_for J (ac_jobId (rn_base r)) (cur_dests r) \<and> alive J i \<subseteq> {ac_jobId (rn_base r)}"
      "ac_jobId (rn_base r) \<noteq> [] \<Longrightarrow> e = JobFailed m reason \<Longrightarrow> alive J i = {}"
      "ac_jobId (rn_base r) = [] \<Longrightarrow> retry_ok J i r"
    and e: "e = Plain m \<or> e = JobFailed m reason"
  shows "goes_on picks J i r w (attempt_failed d e r w)"
proof -
  define r1 where "r1 = (if ac_jobId (rn_base r) \<noteq> []
                then r\<lparr>rn_unsettled := (case e of JobFailed _ _ \<Rightarrow> [] | Plain _ \<Rightarrow> ac_jobId (rn_base r))\<rparr> else r)"
  have r1: "base_inv picks J r1" "rn_req r1 = rn_req r" "rn_at r1 = rn_at r" "rn_steps r1 = rn_steps r" using assms(1) by (auto simp: r1_def)
  have ne: "alive J i \<subseteq> - {[]}" using assms(5) by (auto simp: alive_def)
  have rok: "retry_ok J i r1" using job e ne by (auto simp: r1_def retry_ok_def cur_dests_def)
  show ?thesis
  proof (cases "cancelled r w \<or> length RETRY_WAITS_MS \<le> rn_attempt r \<or> \<not> dp_shouldRetry d (error_reason e) (error_text e) (rq_host (rn_req r))")
    case True
    then have "attempt_failed d e r w = after_attempts d (Some e) r1 w" by (simp add: attempt_failed_def r1_def Let_def)
    moreover have "goes_on picks J i r1 w (after_attempts d (Some e) r1 w)"
      by (rule after_attempts_on[where x = "rn_unsettled r1"]) (use r1 assms rok in \<open>auto simp: retry_ok_def\<close>)
    ultimately show ?thesis using r1 by (auto elim: goes_on_from)
  next
    case False
    define r2 where "r2 = r1\<lparr>rn_base := (rn_base r1)\<lparr>ac_retry := Some (rn_attempt r + 1, length RETRY_WAITS_MS)\<rparr>\<rparr>"
    define w2 where "w2 = show_active r2 (rn_base r2) w"
    have eq: "attempt_failed d e r w = retry_wait d (RETRY_WAITS_MS ! rn_attempt r) r2 w2"
      unfolding attempt_failed_def Let_def r1_def[symmetric] r2_def[symmetric] w2_def[symmetric] by (rule if_not_P[OF False])
    have k: "run_key r2 = run_key r" by (simp add: r2_def r1)
    have w2: "world_ok picks J (run_key r2) w2" "opened w2 (run_key r2)" "same_else (run_key r2) w w2"
      using show_active_ok[of picks J r2 w "rn_base r2"] assms(2,3) by (simp_all add: w2_def k opened_def)
    have "goes_on picks J i r2 w2 (retry_wait d (RETRY_WAITS_MS ! rn_attempt r) r2 w2)"
      by (rule retry_wait_on) (use w2 r1 rok assms(4) in \<open>auto simp: r2_def retry_ok_def cur_dests_def\<close>)
    then show ?thesis unfolding eq by (rule goes_on_from) (use r1 w2(3) k in \<open>auto simp: r2_def\<close>)
  qed
qed

lemma have_job_on:
  assumes "base_inv picks J r" "world_ok picks J (run_key r) w" "rn_at r < length (rn_steps r)" "job_for J job (cur_dests r)" "alive J i \<subseteq> {job}"
  shows "goes_on picks J i r w (have_job job r w)"
proof -
  define r1 where "r1 = r\<lparr>rn_base := (rn_base r)\<lparr>ac_jobId := job\<rparr>, rn_misses := 0, rn_asked := False, rn_wait := WPoll\<rparr>"
  define w1 where "w1 = set_inflight (Some job) r1 (show_active r1 (rn_base r1) w)"
  have "card_ok picks J (run_key r1) (leftNow (Some job) r1)"
    by (rule left_card(2)) (use assms in \<open>auto simp: r1_def cur_dests_def\<close>)
  from noted_ok[OF _ this, of w "rn_base r1"] have w1: "world_ok picks J (run_key r) w1" "opened w1 (run_key r)" "same_else (run_key r) w w1"
    using assms(2) by (simp_all add: w1_def r1_def)
  moreover define w2 where "w2 = (if cancelled r w1 then w1\<lparr>fw_jobCancels := fw_jobCancels w1 @ [job]\<rparr> else w1)"
  ultimately have w2: "world_ok picks J (run_key r) w2" "opened w2 (run_key r)" "same_else (run_key r) w w2"
    by (auto simp: world_ok_def cards_ok_def opened_def same_else_def)
  have "have_job job r w = (r1, w2)" by (simp add: have_job_def Let_def r1_def w1_def w2_def)
  then show ?thesis using assms w2 by (auto simp: goes_on_def flags_ok_def wait_ok_def fs_live_def r1_def cur_dests_def)
qed

lemma report_snap_on:
  assumes "base_inv picks J r" "world_ok picks J (run_key r) w" "opened w (run_key r)" "rn_at r < length (rn_steps r)"
    "job_for J (ac_jobId (rn_base r)) (cur_dests r)" "alive J i \<subseteq> {ac_jobId (rn_base r)}"
  shows "goes_on picks J i r w (report_snap snap r w)"
proof -
  obtain b a where eq: "report_snap snap r w = (r\<lparr>rn_base := b, rn_wait := WSlept\<rparr>, show_active (r\<lparr>rn_base := b, rn_wait := WSlept\<rparr>) a w)"
    and b: "ac_jobId b = ac_jobId (rn_base r)"
    by (cases "cur_step r") (simp_all add: report_snap_def Let_def)
  note v = show_active_ok[of picks J "r\<lparr>rn_base := b, rn_wait := WSlept\<rparr>" w a]
  show ?thesis using assms v b unfolding eq
    by (auto simp: goes_on_def flags_ok_def wait_ok_def fs_live_def cur_dests_def opened_def)
qed

text \<open>What a truthful answer about a job gives.\<close>

lemma told_done: "told J j (Inr sn) \<Longrightarrow> sn_status sn = ''done'' \<Longrightarrow> job_for J j fs \<Longrightarrow> fs \<subseteq> sent_files J \<and> j \<notin> alive J i"
  using done_job_sent[of J j fs] by (auto simp: told_def alive_def)

lemma told_over: "told J j (Inr sn) \<Longrightarrow> sn_status sn \<noteq> ''running'' \<Longrightarrow> j \<notin> alive J i"
  by (auto simp: told_def alive_def job_runs_def)

lemma told_unknown: "told J j (Inl m) \<Longrightarrow> isJobUnknownError m \<Longrightarrow> j \<notin> alive J i"
  by (auto simp: told_def alive_def job_runs_def)

lemma poll_answer_on:
  assumes "base_inv picks J r" "world_ok picks J (run_key r) w" "opened w (run_key r)" "rn_at r < length (rn_steps r)" "J [] = None"
    "job_for J (ac_jobId (rn_base r)) (cur_dests r)" "alive J i \<subseteq> {ac_jobId (rn_base r)}" "told J (ac_jobId (rn_base r)) a"
  shows "goes_on picks J i r w (poll_answer d a r w)"
proof (cases a)
  case (Inl m)
  show ?thesis
  proof (cases "isJobUnknownError m \<or> MAX_POLL_FAILURES \<le> rn_misses r + 1")
    case True
    then show ?thesis using Inl attempt_failed_on[OF assms(1-5), of i "Plain m" m None d] assms(6,7)
      by (auto simp: poll_answer_def job_for_def)
  next
    case False
    then have "poll_answer d a r w = ((r\<lparr>rn_misses := rn_misses r + 1\<rparr>)\<lparr>rn_wait := WMissed\<rparr>, w)" using Inl by (simp add: poll_answer_def)
    moreover have "goes_on picks J i (r\<lparr>rn_misses := rn_misses r + 1\<rparr>) w ((r\<lparr>rn_misses := rn_misses r + 1\<rparr>)\<lparr>rn_wait := WMissed\<rparr>, w)"
      by (rule goes_on_wait) (use assms in \<open>auto simp: wait_ok_def fs_live_def cur_dests_def\<close>)
    ultimately show ?thesis by (auto elim: goes_on_from)
  qed
next
  case (Inr snap)
  let ?r = "r\<lparr>rn_misses := 0\<rparr>"
  have pre: "base_inv picks J ?r" "world_ok picks J (run_key ?r) w" "opened w (run_key ?r)" "rn_at ?r < length (rn_steps ?r)"
    "cur_dests ?r = cur_dests r" "cancelled ?r w = cancelled r w" using assms by (simp_all add: cur_dests_def cancelled_slot)
  have over: "alive J i = {}" if "sn_status snap = ''done'' \<or> sn_status snap = ''failed''"
    using that told_over[of J "ac_jobId (rn_base r)" snap i] assms(7,8) Inr by auto
  have "goes_on picks J i ?r w (poll_answer d a r w)"
  proof -
    consider (d) "sn_status snap = ''done''" | (f) "sn_status snap = ''failed''"
      | (o) "sn_status snap \<noteq> ''done''" "sn_status snap \<noteq> ''failed''" by blast
    then show ?thesis
    proof cases
      case d
      then have "cur_dests r \<subseteq> sent_files J" using told_done[of J _ snap] assms(6,8) Inr by blast
      with d over show ?thesis using Inr after_attempts_on[OF pre(1-4), of i "[]" None d] pre(5) by (simp add: poll_answer_def)
    next
      case f
      show ?thesis
      proof (cases "cancelled r w")
        case True
        then show ?thesis using f over Inr pre(6) after_attempts_on[OF pre(1-4), of i "[]" None d] by (simp add: poll_answer_def)
      next
        case False
        let ?m = "case sn_error snap of None \<Rightarrow> ''upload failed'' | Some m \<Rightarrow> m"
        show ?thesis
          using False f over Inr pre(5,6) attempt_failed_on[OF pre(1-4) assms(5), of i "JobFailed ?m (sn_error_reason snap)" ?m "sn_error_reason snap" d] assms(6)
          by (simp add: poll_answer_def job_for_def)
      qed
    next
      case o
      show ?thesis
      proof (cases "is_list (cur_step ?r) \<and> \<not> rn_asked ?r \<and> dp_jobFiles d \<and> 0 < or_zero (sn_files_count snap)")
        case True
        let ?q = "?r\<lparr>rn_asked := True\<rparr>"
        have eq: "poll_answer d a r w = (?q\<lparr>rn_wait := WFiles snap\<rparr>, w)"
          unfolding poll_answer_def Inr sum.case Let_def using o by (simp only: if_False if_P[OF True])
        have "goes_on picks J i ?q w (?q\<lparr>rn_wait := WFiles snap\<rparr>, w)"
          by (rule goes_on_wait) (use assms in \<open>auto simp: wait_ok_def fs_live_def cur_dests_def\<close>)
        then show ?thesis unfolding eq by (rule goes_on_from) simp_all
      next
        case False
        have eq: "poll_answer d a r w = report_snap snap ?r w"
          unfolding poll_answer_def Inr sum.case Let_def using o by (simp only: if_False if_not_P[OF False])
        show ?thesis unfolding eq by (rule report_snap_on) (use assms pre in auto)
      qed
    qed
  qed
  then show ?thesis by (rule goes_on_from) simp_all
qed

lemma attach_answer_on:
  assumes "base_inv picks J r" "world_ok picks J (run_key r) w" "opened w (run_key r)" "rn_at r < length (rn_steps r)"
    "alive J i = {}" "rn_at r = 0" "ac_jobId (rn_base r) = []" "rn_unsettled r = []" "orEmpty (rq_attachJobId (rn_req r)) \<noteq> []"
    "told J (orEmpty (rq_attachJobId (rn_req r))) a"
  shows "goes_on picks J i r w (attach_answer d a r w)"
proof -
  have job: "job_for J (orEmpty (rq_attachJobId (rn_req r))) (cur_dests r)"
    using assms by (auto simp: base_inv_def cur_dests_def)
  have start: "goes_on picks J i r w (after_attach d r w)" by (rule after_attach_on) (use assms in auto)
  show ?thesis
  proof (cases a)
    case (Inr old)
    show ?thesis
    proof (cases "sn_status old = ''done''")
      case True
      then have "cur_dests r \<subseteq> sent_files J" using told_done[of J _ old] job assms(10) Inr by blast
      then show ?thesis using after_attempts_on[OF assms(1-4), of i "[]" None d] assms(5) Inr True by (simp add: attach_answer_def)
    next
      case False
      then show ?thesis using Inr start have_job_on[OF assms(1,2,4) job, of i] assms(5) by (simp add: attach_answer_def)
    qed
  qed (use start in \<open>simp add: attach_answer_def\<close>)
qed

lemma unsettled_answer_on:
  assumes "base_inv picks J r" "world_ok picks J (run_key r) w" "opened w (run_key r)" "rn_at r < length (rn_steps r)" "J [] = None"
    "ac_jobId (rn_base r) = []" "job_for J (rn_unsettled r) (cur_dests r)" "alive J i \<subseteq> {rn_unsettled r}" "told J (rn_unsettled r) a"
  shows "goes_on picks J i r w (unsettled_answer d a r w)"
proof -
  let ?r = "r\<lparr>rn_unsettled := []\<rparr>"
  have pre: "base_inv picks J ?r" "world_ok picks J (run_key ?r) w" "opened w (run_key ?r)" "rn_at ?r < length (rn_steps ?r)"
    "cur_dests ?r = cur_dests r" using assms by (simp_all add: cur_dests_def)
  have start: "goes_on picks J i r w (do_start d ?r w)" if "alive J i = {}"
    by (rule goes_on_from[OF do_start_on[OF pre(1-4) that]]) (use assms(6) in simp_all)
  show ?thesis
  proof (cases a)
    case (Inl m)
    show ?thesis
    proof (cases "isJobUnknownError m")
      case True
      then have "alive J i = {}" using told_unknown[of J _ m i] assms(8,9) Inl by blast
      then show ?thesis using start Inl True by (simp add: unsettled_answer_def Let_def)
    next
      case False
      have "retry_ok J i r" using assms(5,7,8) by (auto simp: retry_ok_def alive_def)
      then show ?thesis using attempt_failed_on[OF assms(1-5), of i "Plain m" m None d] assms(6) Inl False
        by (simp add: unsettled_answer_def Let_def)
    qed
  next
    case (Inr old)
    consider (d) "sn_status old = ''done''" | (r) "sn_status old = ''running''"
      | (o) "sn_status old \<noteq> ''done''" "sn_status old \<noteq> ''running''" by blast
    then show ?thesis
    proof cases
      case d
      then have "cur_dests r \<subseteq> sent_files J" "alive J i = {}"
        using told_done[of J _ old] told_over[of J _ old i] assms(7,8,9) Inr by auto
      then have "goes_on picks J i ?r w (after_attempts d None ?r w)"
        using after_attempts_on[OF pre(1-4), of i "[]" None d] pre(5) by simp
      then show ?thesis using d Inr by (auto simp: unsettled_answer_def Let_def elim: goes_on_from)
    next
      case r
      have "goes_on picks J i ?r w (have_job (rn_unsettled r) ?r w)"
        by (rule have_job_on[OF pre(1,2,4)]) (use assms(7,8) pre(5) in auto)
      then show ?thesis using r Inr by (auto simp: unsettled_answer_def Let_def elim: goes_on_from)
    next
      case o
      then have "alive J i = {}" using told_over[of J _ old i] assms(8,9) Inr by blast
      then show ?thesis using start o Inr by (simp add: unsettled_answer_def Let_def)
    qed
  qed
qed

text \<open>The waits in which no job of the run can be running.\<close>

definition before_job :: "fs_jobs \<Rightarrow> nat \<Rightarrow> fs_run \<Rightarrow> bool" where
  "before_job J i r \<longleftrightarrow> rn_at r < length (rn_steps r) \<and> alive J i = {} \<and> ac_jobId (rn_base r) = [] \<and> rn_unsettled r = []"

lemma before_job_on:
  "base_inv picks J r \<Longrightarrow> world_ok picks J (run_key r) w \<Longrightarrow> opened w (run_key r) \<Longrightarrow> before_job J i r \<Longrightarrow> wt = WStart \<or> wt = WDest
   \<Longrightarrow> goes_on picks J i r w (r\<lparr>rn_wait := wt\<rparr>, w)"
  by (auto intro!: goes_on_wait simp: before_job_def wait_ok_def fs_live_def)

lemma start_over_on:
  assumes "base_inv picks J r" "world_ok picks J (run_key r) w" "opened w (run_key r)" "before_job J i r"
  shows "goes_on picks J i r w (start_over d r w)"
proof (cases "dp_newTxId d")
  case (Some new)
  note m = mint_base[OF assms(1)]
  have "goes_on picks J i (fst (mint new r w)) (snd (mint new r w)) ((fst (mint new r w))\<lparr>rn_wait := WStart\<rparr>, snd (mint new r w))"
    by (rule before_job_on) (use assms m in \<open>auto simp: before_job_def\<close>)
  then have "goes_on picks J i r w ((fst (mint new r w))\<lparr>rn_wait := WStart\<rparr>, snd (mint new r w))"
    by (rule goes_on_from) (use m in auto)
  then show ?thesis using Some by (simp add: start_over_def case_prod_unfold)
qed (use assms before_job_on[of picks J r w i WStart] in \<open>simp add: start_over_def\<close>)

lemma listing_answers_on:
  assumes "base_inv picks J r" "world_ok picks J (run_key r) w" "opened w (run_key r)" "before_job J i r"
  shows "goes_on picks J i r w (parent_answer d a r w)" "goes_on picks J i r w (dest_answer d a r w)"
proof -
  note p = start_over_on[OF assms, of d] before_job_on[OF assms, of WStart] before_job_on[OF assms, of WDest]
  show "goes_on picks J i r w (dest_answer d a r w)" using p by (simp add: dest_answer_def)
  show "goes_on picks J i r w (parent_answer d a r w)"
    using p by (auto simp: parent_answer_def split: sum.split option.split prod.split)
qed

lemma start_answer_refused:
  assumes "base_inv picks J r" "world_ok picks J (run_key r) w" "opened w (run_key r)" "before_job J i r" "J [] = None"
  shows "goes_on picks J i r w (start_answer d (Inl m) r w)"
proof (cases "is_list (cur_step r) \<and> listUnsupported m")
  case True
  let ?r = "r\<lparr>rn_steps := splice_unlist (rn_at r) (rn_steps r)\<rparr>"
  have "goes_on picks J i ?r w (loop_top d ?r w)"
    by (rule loop_top_on) (use assms splice_base[OF assms(1)] in \<open>auto simp: before_job_def\<close>)
  then show ?thesis using True by (auto simp: start_answer_def elim: goes_on_from)
next
  case False
  have "goes_on picks J i r w (attempt_failed d (Plain m) r w)"
    by (rule attempt_failed_on[OF assms(1-3), where m = m and reason = None]) (use assms(4,5) in \<open>auto simp: before_job_def retry_ok_def\<close>)
  with False show ?thesis by (auto simp: start_answer_def)
qed

lemma start_answer_started:
  assumes "base_inv picks J r" "world_ok picks J (run_key r) w" "before_job J i r" "j \<noteq> []" "J j = None"
  defines "J' \<equiv> J(j \<mapsto> \<lparr>jb_run = i, jb_files = run_dests r, jb_state = JobRunning\<rparr>)"
  shows "goes_on picks J' i r w (start_answer d (Inr (j, u)) r w)"
proof -
  have le: "jobs_le J J'" using assms(5) by (auto simp: jobs_le_def J'_def)
  define w1 where "w1 = (if is_list (cur_step r) \<and> u \<noteq> [] then fs_patch (rq_host (rn_req r)) (\<lambda>s. s\<lparr>fu_unreadable := u\<rparr>) w else w)"
  have "saved_now w1" using assms(2) by (auto simp: w1_def world_ok_def intro!: saved_now_patch)
  then have w1: "world_ok picks J' (run_key r) w1" "same_else (run_key r) w w1"
    using assms(2) cards_ok_mono[OF _ le subset_refl] unfolding w1_def
    by (auto simp: world_ok_def cards_ok_def same_else_def slot_patch)
  have job: "job_for J' j (cur_dests r)" "alive J' i \<subseteq> {j}"
    using assms(3,4) by (auto simp: job_for_def J'_def cur_dests_def run_dests_def set_step_dests alive_def before_job_def)
  have "goes_on picks J' i r w1 (have_job j r w1)"
    by (rule have_job_on[OF base_inv_mono[OF assms(1) le subset_refl] w1(1) _ job]) (use assms(3) in \<open>simp add: before_job_def\<close>)
  then have "goes_on picks J' i r w (have_job j r w1)" by (rule goes_on_from) (use w1(2) in auto)
  then show ?thesis by (simp add: start_answer_def w1_def)
qed

lemma goes_on_same:
  "base_inv picks J r \<Longrightarrow> wait_ok J i r \<Longrightarrow> world_ok picks J (run_key r) w \<Longrightarrow> flags_ok w r \<Longrightarrow> goes_on picks J i r w (r, w)"
  by (simp add: goes_on_def)

text \<open>Every truthful answer keeps the invariant of the run it goes to.\<close>

lemma fs_answer_on:
  assumes inv: "base_inv picks J r" "wait_ok J i r" "world_ok picks J (run_key r) w" "flags_ok w r" "J [] = None"
    and h: "honest J r reply"
  shows "goes_on picks (new_job i r reply J) i r w (fs_answer d reply r w)"
proof -
  note same = goes_on_same[OF inv(1-4)]
  have op: "opened w (run_key r)" if "fs_live r" "rn_wait r \<noteq> WKind" using inv(4) that by (simp add: flags_ok_def)
  show ?thesis
  proof (cases "rn_wait r")
    case WKind
    have "goes_on picks J i r w (fail_run e r w)" "goes_on picks J i r w (open_attempts d f r w)" for e f
      using fail_run_on[OF inv(1,3), of i "[]"] open_attempts_on[OF inv(1,3), of i] inv(2) WKind by (simp_all add: wait_ok_def)
    then show ?thesis using WKind same by (auto simp: fs_answer_def new_job_def split: fs_reply.split sum.split)
  next
    case WAttach
    then show ?thesis using same attach_answer_on[OF inv(1,3)] op inv(2) h
      by (auto simp: fs_answer_def new_job_def honest_def fs_live_def wait_ok_def split: fs_reply.split)
  next
    case WUnsettled
    then show ?thesis using same unsettled_answer_on[OF inv(1,3) _ _ inv(5)] op inv(2) h
      by (auto simp: fs_answer_def new_job_def honest_def fs_live_def wait_ok_def split: fs_reply.split)
  next
    case WParent
    then have "before_job J i r" "opened w (run_key r)" using inv(2) op by (simp_all add: wait_ok_def before_job_def fs_live_def)
    then show ?thesis using WParent same listing_answers_on[OF inv(1,3)] by (auto simp: fs_answer_def new_job_def split: fs_reply.split)
  next
    case WDest
    then have "before_job J i r" "opened w (run_key r)" using inv(2) op by (simp_all add: wait_ok_def before_job_def fs_live_def)
    then show ?thesis using WDest same listing_answers_on[OF inv(1,3)] by (auto simp: fs_answer_def new_job_def split: fs_reply.split)
  next
    case WStart
    then have b: "before_job J i r" "opened w (run_key r)" using inv(2) op by (simp_all add: wait_ok_def before_job_def fs_live_def)
    show ?thesis
    proof (cases reply)
      case (RStarted a)
      then show ?thesis
        using WStart h start_answer_refused[OF inv(1,3) b(2,1) inv(5)] start_answer_started[OF inv(1,3) b(1)]
        by (cases a) (auto simp: fs_answer_def new_job_def honest_def)
    qed (use WStart same in \<open>auto simp: fs_answer_def new_job_def\<close>)
  next
    case WPoll
    then show ?thesis using same poll_answer_on[OF inv(1,3) _ _ inv(5)] op inv(2) h
      by (auto simp: fs_answer_def new_job_def honest_def fs_live_def wait_ok_def split: fs_reply.split)
  next
    case WMissed
    then have "goes_on picks J i r w (r\<lparr>rn_wait := WPoll\<rparr>, w)" using inv op
      by (intro goes_on_wait) (auto simp: wait_ok_def fs_live_def cur_dests_def)
    then show ?thesis using WMissed same by (auto simp: fs_answer_def new_job_def split: fs_reply.split)
  next
    case (WFiles snap)
    then have o: "opened w (run_key r)" "rn_at r < length (rn_steps r)" "job_for J (ac_jobId (rn_base r)) (cur_dests r)" "alive J i \<subseteq> {ac_jobId (rn_base r)}"
      using inv(2) op by (simp_all add: wait_ok_def fs_live_def)
    have "goes_on picks J i (r\<lparr>rn_sizes := m\<rparr>) w (report_snap snap (r\<lparr>rn_sizes := m\<rparr>) w)" for m
      by (rule report_snap_on) (use inv o in \<open>auto simp: cur_dests_def\<close>)
    then have "goes_on picks J i r w (report_snap snap (r\<lparr>rn_sizes := m\<rparr>) w)" for m by (rule goes_on_from) simp_all
    then show ?thesis using WFiles same report_snap_on[OF inv(1,3) o]
      by (auto simp: fs_answer_def new_job_def split: fs_reply.split option.split)
  next
    case WSlept
    then have "goes_on picks J i r w (r\<lparr>rn_wait := WPoll\<rparr>, w)" using inv op
      by (intro goes_on_wait) (auto simp: wait_ok_def fs_live_def cur_dests_def)
    then show ?thesis using WSlept same by (auto simp: fs_answer_def new_job_def split: fs_reply.split)
  next
    case (WRetry ms)
    then show ?thesis using same retry_wait_on[OF inv(1,3)] op inv(2)
      by (auto simp: fs_answer_def new_job_def fs_live_def wait_ok_def retry_ok_def split: fs_reply.split)
  next
    case (WSettle failed)
    then obtain x where "alive J i \<subseteq> {x}" "rn_at r < length (rn_steps r)" "failed = None \<Longrightarrow> cancelled r w"
      using inv(2,4) by (auto simp: wait_ok_def flags_ok_def fs_live_def)
    then show ?thesis using WSettle same stop_step_on[OF inv(1,3)] by (auto simp: fs_answer_def new_job_def split: fs_reply.split)
  qed (use same in \<open>auto simp: fs_answer_def new_job_def\<close>)
qed

section \<open>The invariant of the machine\<close>

definition host_inv :: "fs_run list \<Rightarrow> fs_world \<Rightarrow> bool" where
  "host_inv runs w \<longleftrightarrow>
     (\<forall>k. (fu_active (slot w k) \<noteq> None \<longrightarrow> fw_inflight w k \<noteq> None)
        \<and> ((\<forall>r \<in> set runs. run_key r = k \<longrightarrow> \<not> fs_live r) \<longrightarrow> idle_at w k))
     \<and> (\<forall>r \<in> set runs. fs_live r \<longrightarrow> flags_ok w r)
     \<and> (\<forall>i j. i < length runs \<longrightarrow> j < length runs \<longrightarrow> fs_live (runs ! i) \<longrightarrow> fs_live (runs ! j) \<longrightarrow> run_key (runs ! i) = run_key (runs ! j) \<longrightarrow> i = j)"

definition runs_inv :: "FsUploadRequest list \<Rightarrow> fs_jobs \<Rightarrow> fs_run list \<Rightarrow> bool" where
  "runs_inv picks J runs \<longleftrightarrow>
     J [] = None \<and> (\<forall>j b. J j = Some b \<longrightarrow> jb_run b < length runs)
     \<and> (\<forall>i < length runs. base_inv picks J (runs ! i) \<and> wait_ok J i (runs ! i))"

definition sys_inv :: "fs_sys \<Rightarrow> bool" where
  "sys_inv s \<longleftrightarrow>
     runs_inv (sy_picks s) (sy_jobs s) (sy_runs s) \<and> cards_ok (sy_picks s) (sy_jobs s) (sy_world s) \<and> saved_now (sy_world s)
     \<and> host_inv (sy_runs s) (sy_world s)"

lemma wait_ok_alive: "wait_ok J i r \<Longrightarrow> \<exists>x. alive J i \<subseteq> {x}"
  by (auto simp: wait_ok_def split: fs_wait.splits)

lemma wait_ok_mono:
  assumes "wait_ok J i r" "jobs_le J J'" "alive J' i \<subseteq> alive J i"
  shows "wait_ok J' i r"
proof -
  have sub: "alive J i \<subseteq> A \<Longrightarrow> alive J' i \<subseteq> A" "alive J i = {} \<Longrightarrow> alive J' i = {}" for A using assms(3) by blast+
  have one: "\<exists>x. alive J i \<subseteq> {x} \<Longrightarrow> \<exists>x. alive J' i \<subseteq> {x}" using sub(1) by blast
  have ne: "[] \<notin> alive J i \<Longrightarrow> [] \<notin> alive J' i" using assms(3) by blast
  show ?thesis using assms(1)
    by (cases "rn_wait r") (auto simp: wait_ok_def sub one ne job_for_mono[OF assms(2)])
qed

lemma flags_ok_other: "same_else k w w' \<Longrightarrow> run_key r \<noteq> k \<Longrightarrow> flags_ok w' r = flags_ok w r"
  by (simp add: flags_ok_def opened_def idle_at_def cancelled_slot same_else_def)

lemma new_job_le: "honest J r reply \<Longrightarrow> jobs_le J (new_job i r reply J)"
  by (cases "rn_wait r"; cases reply) (auto simp: new_job_def honest_def jobs_le_def split: sum.splits)

lemma new_job_run: "new_job i r reply J j = Some b \<Longrightarrow> J j = Some b \<or> jb_run b = i"
  by (cases "rn_wait r"; cases reply) (auto simp: new_job_def split: sum.splits if_splits)

lemma new_job_alive: "j \<noteq> i \<Longrightarrow> alive (new_job i r reply J) j \<subseteq> alive J j"
  using new_job_run[of i r reply J] unfolding alive_def by blast

lemma new_job_empty: "honest J r reply \<Longrightarrow> J [] = None \<Longrightarrow> new_job i r reply J [] = None"
  by (cases "rn_wait r"; cases reply) (auto simp: new_job_def honest_def split: sum.splits)

lemma host_inv_step:
  assumes "host_inv runs w" "i < length runs" "fs_live (runs ! i)" "run_key r = run_key (runs ! i)" "same_else (run_key r) w w'" "flags_ok w' r"
    "fu_active (slot w' (run_key r)) \<noteq> None \<longrightarrow> fw_inflight w' (run_key r) \<noteq> None"
  shows "host_inv (runs[i := r]) w'"
proof -
  have other: "run_key (runs ! j) \<noteq> run_key r" if "j < length runs" "j \<noteq> i" "fs_live (runs ! j)" for j
    using assms(1-4) that unfolding host_inv_def by metis
  have act: "fu_active (slot w' k) \<noteq> None \<longrightarrow> fw_inflight w' k \<noteq> None" for k
    using assms(1,5,7) unfolding host_inv_def same_else_def by (cases "k = run_key r") auto
  have dead: "idle_at w' k" if none: "\<forall>q \<in> set (runs[i := r]). run_key q = k \<longrightarrow> \<not> fs_live q" for k
  proof (cases "k = run_key r")
    case True
    have "\<not> fs_live r" using none True set_update_memI[OF assms(2), of r] by blast
    then show ?thesis using assms(6) True by (simp add: flags_ok_def)
  next
    case False
    have "\<not> fs_live q" if q: "q \<in> set runs" "run_key q = k" for q
    proof -
      from q(1) obtain j where j: "j < length runs" "runs ! j = q" by (auto simp: in_set_conv_nth)
      have "j \<noteq> i" using False q(2) assms(4) j(2) by metis
      then have "runs[i := r] ! j = q" using j(2) by simp
      then have "q \<in> set (runs[i := r])" using j(1) by (metis length_list_update nth_mem)
      then show ?thesis using none q(2) by blast
    qed
    then have "idle_at w k" using assms(1) unfolding host_inv_def by blast
    then show ?thesis using assms(5) False by (simp add: idle_at_def same_else_def)
  qed
  have flags: "flags_ok w' q" if q: "q \<in> set (runs[i := r])" "fs_live q" for q
  proof -
    obtain j where j: "j < length runs" "q = runs[i := r] ! j" using q(1) by (metis in_set_conv_nth length_list_update)
    show ?thesis
    proof (cases "j = i")
      case False
      then have e: "q = runs ! j" "fs_live (runs ! j)" using j q(2) by auto
      then show ?thesis using other[OF j(1) False] flags_ok_other[OF assms(5)] assms(1) j(1) unfolding host_inv_def by auto
    qed (use j assms(2,6) in simp)
  qed
  have uniq: "a = b" if "a < length runs" "b < length runs" "fs_live (runs[i := r] ! a)" "fs_live (runs[i := r] ! b)"
      "run_key (runs[i := r] ! a) = run_key (runs[i := r] ! b)" for a b
  proof (cases "a = i \<or> b = i")
    case True
    then show ?thesis using that other[of a] other[of b] assms(2) by (metis nth_list_update)
  next
    case False
    then show ?thesis using that assms(1) unfolding host_inv_def by (metis nth_list_update_neq)
  qed
  show ?thesis using act dead flags uniq unfolding host_inv_def by simp
qed

lemma reply_inv:
  assumes "sys_inv s" "i < length (sy_runs s)" "honest (sy_jobs s) (sy_runs s ! i) reply"
  shows "sys_inv (answer_run d i reply s)"
proof (cases "fs_live (sy_runs s ! i)")
  case False
  then have "fs_answer d reply (sy_runs s ! i) (sy_world s) = (sy_runs s ! i, sy_world s)" "new_job i (sy_runs s ! i) reply (sy_jobs s) = sy_jobs s"
    by (auto simp: fs_live_def fs_answer_def new_job_def split: fs_wait.splits)
  then have "answer_run d i reply s = s" by (simp add: answer_run_def)
  then show ?thesis using assms(1) by simp
next
  case True
  let ?J = "sy_jobs s" and ?P = "sy_picks s" and ?r = "sy_runs s ! i" and ?w = "sy_world s"
  let ?J' = "new_job i ?r reply ?J"
  have inv: "runs_inv ?P ?J (sy_runs s)" "cards_ok ?P ?J ?w" "saved_now ?w" "host_inv (sy_runs s) ?w" using assms(1) by (simp_all add: sys_inv_def)
  have r: "base_inv ?P ?J ?r" "wait_ok ?J i ?r" "?J [] = None" using inv(1) assms(2) by (simp_all add: runs_inv_def)
  have "?r \<in> set (sy_runs s)" using assms(2) by simp
  then have f: "flags_ok ?w ?r" "world_ok ?P ?J (run_key ?r) ?w"
    using inv True unfolding host_inv_def world_ok_def by blast+
  obtain r' w' where rw: "fs_answer d reply ?r ?w = (r', w')" by (cases "fs_answer d reply ?r ?w")
  have g: "rn_req r' = rn_req ?r" "base_inv ?P ?J' r'" "wait_ok ?J' i r'" "world_ok ?P ?J' (run_key ?r) w'" "flags_ok w' r'" "same_else (run_key ?r) ?w w'"
    using fs_answer_on[OF r(1,2) f(2,1) r(3) assms(3), of d] rw by (simp_all add: goes_on_def)
  have le: "jobs_le ?J ?J'" by (rule new_job_le[OF assms(3)])
  have "base_inv ?P ?J' ((sy_runs s)[i := r'] ! j) \<and> wait_ok ?J' j ((sy_runs s)[i := r'] ! j)" if "j < length (sy_runs s)" for j
  proof (cases "j = i")
    case False
    then show ?thesis using that inv(1) base_inv_mono[OF _ le subset_refl] wait_ok_mono[OF _ le new_job_alive[OF False]]
      unfolding runs_inv_def by simp
  qed (use g assms(2) in simp)
  moreover have "?J' [] = None" "\<And>j b. ?J' j = Some b \<Longrightarrow> jb_run b < length (sy_runs s)"
    using new_job_empty[OF assms(3) r(3)] new_job_run[of i ?r reply ?J] inv(1) assms(2) unfolding runs_inv_def by blast+
  ultimately have "runs_inv ?P ?J' ((sy_runs s)[i := r'])" unfolding runs_inv_def by simp
  moreover have "host_inv ((sy_runs s)[i := r']) w'"
    by (rule host_inv_step[OF inv(4) assms(2) True]) (use g in \<open>auto simp: world_ok_def\<close>)
  ultimately show ?thesis using g(4) rw by (simp add: sys_inv_def answer_run_def world_ok_def)
qed

text \<open>A new run, on a console that has none.\<close>

lemma runFsUpload_on:
  assumes "cards_ok picks J w" "saved_now w" "idle_at w (hostOf (rq_host req))" "alive J i = {}"
    and steps: "\<forall>s \<in> set (stepsOf req). step_files s \<noteq> []"
      "rest_of picks J (hostOf (rq_host req)) (rq_destDir req) (files_of (stepsOf req))"
      "orEmpty (rq_attachJobId req) \<noteq> [] \<Longrightarrow> stepsOf req \<noteq> [] \<Longrightarrow>
         job_for J (orEmpty (rq_attachJobId req)) (dests (rq_destDir req) (step_files (stepsOf req ! 0)))"
  shows "\<exists>r0. rn_req r0 = req \<and> goes_on picks J i r0 w (runFsUpload d now req w)"
proof -
  define r0 where "r0 = new_run now req"
  have r0: "rn_req r0 = req" "base_inv picks J r0" "rn_at r0 = 0" "rn_steps r0 = stepsOf req"
    using steps by (auto simp: r0_def new_run_def base_inv_def dests_def)
  have w: "world_ok picks J (run_key r0) w" using assms(1-3) r0(1) by (auto simp: world_ok_def idle_at_def)
  have "goes_on picks J i r0 w (runFsUpload d now req w)"
  proof (cases "stepsOf req = []")
    case True
    then have "runFsUpload d now req w = (r0\<lparr>rn_wait := WEnd True None\<rparr>, w)" using r0(4) by (simp add: runFsUpload_def r0_def Let_def)
    then show ?thesis using r0 w assms(3,4) True
      by (auto simp: goes_on_def wait_ok_def flags_ok_def fs_live_def)
  next
    case False
    define w1 where "w1 = fs_save (fs_patch (rq_host req) (\<lambda>s. s\<lparr>fu_stopped := None, fu_cancelRequested := False, fu_unreadable := []\<rparr>) w)"
    have "fu_active (fsUploadForHost w (rq_host req)) = None" using assms(3) by (simp add: idle_at_def fsUploadForHost_slot)
    then have eq: "runFsUpload d now req w = loop_top d r0 w1" using False r0(4) by (simp add: runFsUpload_def r0_def w1_def Let_def)
    have s: "slot w1 k = (if k = hostOf (rq_host req) then (slot w k)\<lparr>fu_stopped := None, fu_cancelRequested := False, fu_unreadable := []\<rparr> else slot w k)"
      "fw_inflight w1 = fw_inflight w" for k by (simp_all add: w1_def slot_patch)
    have "saved_now w1" by (simp add: w1_def)
    then have w1: "world_ok picks J (run_key r0) w1" "same_else (run_key r0) w w1"
      using w r0(1) s unfolding world_ok_def cards_ok_def same_else_def by (auto split: if_splits)
    show ?thesis unfolding eq
      by (rule goes_on_from[OF loop_top_on[OF r0(2) w1(1) assms(4)]]) (use w1 in auto)
  qed
  with r0(1) show ?thesis by blast
qed

lemma host_inv_add:
  assumes "host_inv runs w" "\<forall>q \<in> set runs. run_key q = run_key r \<longrightarrow> \<not> fs_live q" "same_else (run_key r) w w'" "flags_ok w' r"
    "fu_active (slot w' (run_key r)) \<noteq> None \<longrightarrow> fw_inflight w' (run_key r) \<noteq> None"
  shows "host_inv (runs @ [r]) w'"
proof -
  have act: "fu_active (slot w' k) \<noteq> None \<longrightarrow> fw_inflight w' k \<noteq> None" for k
    using assms(1,3,5) unfolding host_inv_def same_else_def by (cases "k = run_key r") auto
  have dead: "idle_at w' k" if "\<forall>q \<in> set (runs @ [r]). run_key q = k \<longrightarrow> \<not> fs_live q" for k
  proof (cases "k = run_key r")
    case True
    then show ?thesis using assms(4) that by (simp add: flags_ok_def)
  next
    case False
    have "idle_at w k" using assms(1) that unfolding host_inv_def by simp
    then show ?thesis using assms(3) False by (simp add: idle_at_def same_else_def)
  qed
  have flags: "flags_ok w' q" if "q \<in> set (runs @ [r])" "fs_live q" for q
    using that assms flags_ok_other[OF assms(3), of q] unfolding host_inv_def by auto
  have "\<not> (fs_live (runs ! a) \<and> run_key (runs ! a) = run_key r)" if "a < length runs" for a using assms(2) that by auto
  then have uniq: "a = b" if "a < Suc (length runs)" "b < Suc (length runs)" "fs_live ((runs @ [r]) ! a)" "fs_live ((runs @ [r]) ! b)"
      "run_key ((runs @ [r]) ! a) = run_key ((runs @ [r]) ! b)" for a b
    using that assms(1) unfolding host_inv_def by (auto simp: nth_append less_Suc_eq split: if_splits)
  show ?thesis using act dead flags uniq unfolding host_inv_def by simp
qed

lemma no_jobs_yet: "runs_inv picks J runs \<Longrightarrow> alive J (length runs) = {}"
  by (force simp: runs_inv_def alive_def)

lemma add_run_inv:
  assumes "sys_inv s" "host_free (rq_host req) s" "\<forall>st \<in> set (stepsOf req). step_files st \<noteq> []" "set (sy_picks s) \<subseteq> set picks"
    "rest_of picks (sy_jobs s) (hostOf (rq_host req)) (rq_destDir req) (files_of (stepsOf req))"
    "orEmpty (rq_attachJobId req) \<noteq> [] \<Longrightarrow> stepsOf req \<noteq> [] \<Longrightarrow>
         job_for (sy_jobs s) (orEmpty (rq_attachJobId req)) (dests (rq_destDir req) (step_files (stepsOf req ! 0)))"
  shows "sys_inv (add_run (runFsUpload d now req (sy_world s)) (s\<lparr>sy_picks := picks\<rparr>))"
proof -
  let ?J = "sy_jobs s" and ?w = "sy_world s" and ?n = "length (sy_runs s)"
  have inv: "runs_inv (sy_picks s) ?J (sy_runs s)" "cards_ok (sy_picks s) ?J ?w" "saved_now ?w" "host_inv (sy_runs s) ?w"
    using assms(1) by (simp_all add: sys_inv_def)
  have c: "cards_ok picks ?J ?w" using inv(2) assms(4) by (auto intro: cards_ok_mono)
  have free: "\<forall>q \<in> set (sy_runs s). run_key q = hostOf (rq_host req) \<longrightarrow> \<not> fs_live q" using assms(2) by (simp add: host_free_def)
  then have cl: "idle_at ?w (hostOf (rq_host req))" using inv(4) unfolding host_inv_def by blast
  obtain r0 where r0: "rn_req r0 = req" "goes_on picks ?J ?n r0 ?w (runFsUpload d now req ?w)"
    using runFsUpload_on[OF c inv(3) cl no_jobs_yet[OF inv(1)] assms(3,5,6)] by blast
  obtain r' w' where rw: "runFsUpload d now req ?w = (r', w')" by (cases "runFsUpload d now req ?w")
  have g: "rn_req r' = req" "base_inv picks ?J r'" "wait_ok ?J ?n r'" "world_ok picks ?J (run_key r') w'" "flags_ok w' r'" "same_else (run_key r') ?w w'"
    using r0 rw by (auto simp: goes_on_def)
  have "runs_inv picks ?J (sy_runs s @ [r'])"
    using inv(1) g(2,3) base_inv_mono[OF _ jobs_le_refl assms(4)] unfolding runs_inv_def
    by (auto simp: nth_append less_Suc_eq)
  moreover have "host_inv (sy_runs s @ [r']) w'"
    by (rule host_inv_add[OF inv(4)]) (use free g in \<open>auto simp: world_ok_def\<close>)
  ultimately show ?thesis using g(4) by (simp add: sys_inv_def rw world_ok_def)
qed

lemma resume_inv:
  assumes "sys_inv s" "host_free host s" "resumeFsUpload d now host (sy_world s) = Some rw"
  shows "sys_inv (add_run rw s)"
proof -
  obtain st where st: "fu_stopped (slot (sy_world s) (hostOf host)) = Some st" "rw = runFsUpload d now (resume_request host st) (sy_world s)"
    using assms(3) by (auto simp: resumeFsUpload_def Let_def fsUploadForHost_slot split: option.splits if_splits)
  then have "card_ok (sy_picks s) (sy_jobs s) (hostOf host) st" using assms(1) unfolding sys_inv_def cards_ok_def by blast
  then obtain ss where ss: "st_steps st = Some ss" "ss \<noteq> []" "\<forall>x \<in> set ss. step_files x \<noteq> []"
    "rest_of (sy_picks s) (sy_jobs s) (hostOf host) (st_destDir st) (files_of ss)"
    "orEmpty (st_jobId st) \<noteq> [] \<Longrightarrow> job_for (sy_jobs s) (orEmpty (st_jobId st)) (dests (st_destDir st) (step_files (hd ss)))"
    unfolding card_ok_def by blast
  have req: "rq_host (resume_request host st) = host" "stepsOf (resume_request host st) = ss" "rq_destDir (resume_request host st) = st_destDir st"
    "rq_attachJobId (resume_request host st) = (if st_why st = WhyInterrupted then st_jobId st else None)"
    using ss(1) by (simp_all add: resume_request_def stepsOf_def)
  have "sys_inv (add_run (runFsUpload d now (resume_request host st) (sy_world s)) (s\<lparr>sy_picks := sy_picks s\<rparr>))"
    by (rule add_run_inv[OF assms(1)]) (use assms(2) ss req in \<open>auto simp: hd_conv_nth orEmpty_def split: if_splits\<close>)
  then show ?thesis by (simp add: st(2))
qed

text \<open>Changes of the store that leave the runs alone.\<close>

lemma world_inv:
  assumes "sys_inv s" "saved_now w'" "fw_inflight w' = fw_inflight (sy_world s)"
    "\<And>k. fu_active (slot w' k) = fu_active (slot (sy_world s) k)"
    "\<And>k. fu_cancelRequested (slot (sy_world s) k) \<Longrightarrow> fu_cancelRequested (slot w' k)"
    "\<And>k st. fu_stopped (slot w' k) = Some st \<Longrightarrow> fu_stopped (slot (sy_world s) k) = Some st"
  shows "sys_inv (s\<lparr>sy_world := w'\<rparr>)"
proof -
  have "flags_ok w' r" if "flags_ok (sy_world s) r" for r
    using that assms(3-5) by (auto simp: flags_ok_def opened_def idle_at_def cancelled_slot split: if_splits)
  then show ?thesis using assms unfolding sys_inv_def host_inv_def cards_ok_def idle_at_def by simp
qed

lemma job_ends_inv:
  assumes "sys_inv s" "sy_jobs s j = Some b" "jb_state b = JobRunning"
  shows "sys_inv (s\<lparr>sy_jobs := (sy_jobs s)(j \<mapsto> b\<lparr>jb_state := st\<rparr>)\<rparr>)"
proof -
  let ?J = "(sy_jobs s)(j \<mapsto> b\<lparr>jb_state := st\<rparr>)"
  have le: "jobs_le (sy_jobs s) ?J" using assms(2,3) by (auto simp: jobs_le_def)
  have al: "alive ?J i \<subseteq> alive (sy_jobs s) i" for i using assms(2,3) by (auto simp: alive_def split: if_splits)
  have "runs_inv (sy_picks s) ?J (sy_runs s)"
    using assms base_inv_mono[OF _ le subset_refl] wait_ok_mono[OF _ le al] unfolding sys_inv_def runs_inv_def by auto
  then show ?thesis using assms(1) cards_ok_mono[OF _ le subset_refl] by (simp add: sys_inv_def)
qed

lemma wait_ok_gone: "wait_ok J i r \<Longrightarrow> wait_ok J i (r\<lparr>rn_wait := WGone\<rparr>)"
  by (drule wait_ok_alive) (simp add: wait_ok_def)

lemma restart_inv:
  assumes "sys_inv s"
  shows "sys_inv (app_restart s)"
proof -
  let ?w = "sy_world s" and ?f = "\<lambda>r. if fs_live r then r\<lparr>rn_wait := WGone\<rparr> else r"
  have card: "card_ok (sy_picks s) (sy_jobs s) k st" if "fw_saved ?w k = Some st" for k st
    using that assms unfolding sys_inv_def saved_now_def cards_ok_def by (metis option.case_eq_if option.collapse)
  then have res: "resumable st" if "fw_saved ?w k = Some st" for k st
    using that by (force simp: card_ok_def resumable_def)
  define w' where "w' = restoreFsUploads (?w\<lparr>fw_byHost := Map.empty, fw_inflight := Map.empty\<rparr>)"
  have s': "slot w' k = IDLE_FS_UPLOAD\<lparr>fu_stopped := fw_saved ?w k\<rparr>" for k
    using res by (auto simp: slot_def w'_def restoreFsUploads_def IDLE_FS_UPLOAD_def split: option.split)
  have w': "fw_inflight w' = Map.empty" "fw_saved w' = fw_saved ?w" by (simp_all add: w'_def restoreFsUploads_def)
  have dead: "\<not> fs_live (r\<lparr>rn_wait := WGone\<rparr>)" for r by (simp add: fs_live_def)
  have "runs_inv (sy_picks s) (sy_jobs s) (map ?f (sy_runs s))"
    using assms unfolding sys_inv_def runs_inv_def by (auto simp: wait_ok_gone)
  moreover have "host_inv (map ?f (sy_runs s)) w'"
    using dead unfolding host_inv_def idle_at_def s' w' by (auto simp: IDLE_FS_UPLOAD_def)
  moreover have "cards_ok (sy_picks s) (sy_jobs s) w'" "saved_now w'"
    using card unfolding cards_ok_def saved_now_def s' w' by (auto simp: IDLE_FS_UPLOAD_def)
  ultimately show ?thesis by (simp add: sys_inv_def app_restart_def w'_def)
qed

lemma rest_of_pick: "pick \<in> set picks \<Longrightarrow> rest_of picks J (hostOf (rq_host pick)) (rq_destDir pick) (files_of (stepsOf pick))"
  unfolding rest_of_def by (intro bexI[of _ pick] conjI exI[of _ "[]"]) (simp_all add: dests_def)

lemma fs_step_inv:
  assumes "sys_inv s" "fs_step d s t"
  shows "sys_inv t"
  using assms(2)
proof (cases rule: fs_step.cases)
  case (fs_start req now)
  have "sys_inv (add_run (runFsUpload d now req (sy_world s)) (s\<lparr>sy_picks := sy_picks s @ [req]\<rparr>))"
    by (rule add_run_inv[OF assms(1)]) (use fs_start rest_of_pick[of req "sy_picks s @ [req]"] in \<open>auto simp: request_ok_def orEmpty_def\<close>)
  with fs_start show ?thesis by simp
next
  case (fs_resume host now rw)
  with resume_inv[OF assms(1)] show ?thesis by simp
next
  case (fs_reply i reply)
  with reply_inv[OF assms(1)] show ?thesis by simp
next
  case (fs_cancel host)
  let ?w = "cancelFsUpload host (sy_world s)"
  have "saved_now ?w" using assms(1) by (auto simp: cancelFsUpload_def sys_inv_def Let_def intro: saved_now_patch split: option.split)
  then show ?thesis unfolding fs_cancel
    by (intro world_inv[OF assms(1)]) (auto simp: cancelFsUpload_def Let_def slot_patch split: option.splits if_splits)
next
  case (fs_dismiss host)
  then show ?thesis unfolding fs_dismiss
    by (intro world_inv[OF assms(1)]) (auto simp: dismissFsUploadStopped_def slot_patch split: if_splits)
next
  case (fs_clear host)
  have "saved_now (clearFsUploadUnreadable host (sy_world s))"
    using assms(1) by (auto simp: clearFsUploadUnreadable_def sys_inv_def intro: saved_now_patch)
  then show ?thesis unfolding fs_clear
    by (intro world_inv[OF assms(1)]) (auto simp: clearFsUploadUnreadable_def slot_patch split: if_splits)
next
  case (fs_job_ends j b st)
  with job_ends_inv[OF assms(1)] show ?thesis by simp
next
  case fs_restart
  with restart_inv[OF assms(1)] show ?thesis by simp
qed

interpretation files: invariant_system "\<lambda>s. s = fs_initial" "fs_step d" sys_inv for d
proof
  show "sys_inv s" if "s = fs_initial" for s
    using that by (auto simp: sys_inv_def runs_inv_def cards_ok_def saved_now_def host_inv_def idle_at_def slot_def fs_initial_def IDLE_FS_UPLOAD_def)
  show "sys_inv t" if "sys_inv s" "fs_step d s t" for s t using fs_step_inv that .
qed

section \<open>Runs on concrete answers\<close>

text \<open>A truthful series of answers, each for the run it names.\<close>

fun play :: "fs_deps \<Rightarrow> (nat \<times> fs_reply) list \<Rightarrow> fs_sys \<Rightarrow> fs_sys option" where
  "play d [] s = Some s"
| "play d ((i, reply) # rest) s =
     (if i < length (sy_runs s) \<and> honest (sy_jobs s) (sy_runs s ! i) reply then play d rest (answer_run d i reply s) else None)"

lemma play_reach: "fs_reach d s \<Longrightarrow> play d rs s = Some t \<Longrightarrow> fs_reach d t"
proof (induction rs arbitrary: s)
  case (Cons x rs)
  obtain i reply where x: "x = (i, reply)" by (cases x)
  with Cons.prems(2) have "fs_step d s (answer_run d i reply s)" "play d rs (answer_run d i reply s) = Some t"
    by (auto intro: fs_reply split: if_splits)
  then show ?case using Cons.IH reach_step[OF Cons.prems(1)] by blast
qed simp

definition fsdemo_deps :: fs_deps where
  "fsdemo_deps = \<lparr>dp_startList = True, dp_newTxId = Some show_nat, dp_listDir = True, dp_jobFiles = True, dp_shouldRetry = (\<lambda>_ _ _. False)\<rparr>"

definition fsdemo_pick :: FsUploadRequest where
  "fsdemo_pick = \<lparr>rq_queueId = None, rq_host = ''h'', rq_addr = ''h'', rq_destDir = ''/'', rq_srcPaths = [''a''],
     rq_steps = None, rq_replaceRemoteName = Some ''b'', rq_doneBefore = None, rq_countTotal = None, rq_attachJobId = None\<rparr>"

definition fsdemo_live :: JobLiveFields where
  "fsdemo_live = \<lparr>f_phase = None, f_skip_done = None, f_skip_total = None, f_measure_done = None, f_bottleneck = None, f_settling = False,
     f_settle_left = None, f_settle_total = None, f_route = None, f_route_reason = None, f_commit_ack = None\<rparr>"

definition fsdemo_snap :: "string \<Rightarrow> JobSnapshot" where
  "fsdemo_snap st = \<lparr>sn_status = st, sn_error = None, sn_error_reason = None, sn_bytes_sent = Some 5, sn_total_bytes = Some 10,
     sn_resumed_bytes = None, sn_files_count = None, sn_files_processing = None, sn_files_finalized = None, sn_live = fsdemo_live\<rparr>"

definition fsdemo_started :: fs_sys where
  "fsdemo_started = add_run (runFsUpload fsdemo_deps 0 fsdemo_pick (sy_world fs_initial)) (fs_initial\<lparr>sy_picks := sy_picks fs_initial @ [fsdemo_pick]\<rparr>)"

lemma fsdemo_started_reach: "fs_reach fsdemo_deps fsdemo_started"
proof -
  have "request_ok fsdemo_pick" by code_simp
  moreover have "host_free (rq_host fsdemo_pick) fs_initial" by code_simp
  ultimately have "fs_step fsdemo_deps fs_initial fsdemo_started" unfolding fsdemo_started_def by (rule fs_start)
  moreover have "fs_reach fsdemo_deps fs_initial" by (rule reach_init) simp
  ultimately show ?thesis by (rule reach_step[rotated])
qed

text \<open>The file goes out as job \<open>j1\<close>; the engine finishes it and says so.\<close>

definition fsdemo_running :: fs_sys where
  "fsdemo_running = the (play fsdemo_deps [(0, RStarted (Inr (''j1'', [])))] fsdemo_started)"

definition fsdemo_sent :: fs_sys where
  "fsdemo_sent = the (play fsdemo_deps [(0, RStatus (Inr (fsdemo_snap ''done'')))]
     (fsdemo_running\<lparr>sy_jobs := (sy_jobs fsdemo_running)(''j1'' \<mapsto> (the (sy_jobs fsdemo_running ''j1''))\<lparr>jb_state := JobDone\<rparr>)\<rparr>))"

lemma play_the:
  assumes "fs_reach d s" "play d rs s \<noteq> None"
  shows "fs_reach d (the (play d rs s))"
  using play_reach[OF assms(1), of rs] assms(2) by auto

lemma fsdemo_running_reach: "fs_reach fsdemo_deps fsdemo_running"
  unfolding fsdemo_running_def by (rule play_the[OF fsdemo_started_reach]) code_simp

lemma fsdemo_sent_reach: "fs_reach fsdemo_deps fsdemo_sent"
  unfolding fsdemo_sent_def
proof (rule play_the)
  have "sy_jobs fsdemo_running ''j1'' = Some (the (sy_jobs fsdemo_running ''j1''))" by code_simp
  moreover have "jb_state (the (sy_jobs fsdemo_running ''j1'')) = JobRunning" by code_simp
  ultimately show "fs_reach fsdemo_deps (fsdemo_running\<lparr>sy_jobs := (sy_jobs fsdemo_running)(''j1'' \<mapsto> (the (sy_jobs fsdemo_running ''j1''))\<lparr>jb_state := JobDone\<rparr>)\<rparr>)"
    by (rule reach_step[OF fsdemo_running_reach fs_job_ends])
qed code_simp

lemma fsdemo_sent_end: "map rn_wait (sy_runs fsdemo_sent) = [WEnd True None]"
  by code_simp

section \<open>Properties\<close>







section \<open>What the code does not rule out\<close>

text \<open>The app closed while a job of a file ran. Resume asks the engine about that job first, but when this one question is not
  answered it starts a second job for the same file beside the first.\<close>

lemma attach_unanswered:
  "rn_wait r = WAttach \<Longrightarrow> rn_unsettled r = [] \<Longrightarrow> \<not> rn_isFolder r \<Longrightarrow> fs_answer d (RStatus (Inl m)) r w = (r\<lparr>rn_wait := WStart\<rparr>, w)"
  by (simp add: fs_answer_def attach_answer_def after_attach_def do_start_def split: FsUploadStep.split)

lemma resume_starts_second_job:
  assumes "fs_reach d s" "i < length (sy_runs s)" "rn_wait (sy_runs s ! i) = WAttach" "\<not> rn_isFolder (sy_runs s ! i)"
    and job: "job_runs (sy_jobs s) (orEmpty (rq_attachJobId (rn_req (sy_runs s ! i))))" and j: "sy_jobs s j = None" "j \<noteq> []"
  shows "\<exists>t. fs_reach d t \<and> job_runs (sy_jobs t) (orEmpty (rq_attachJobId (rn_req (sy_runs s ! i)))) \<and> job_runs (sy_jobs t) j
     \<and> map_option jb_files (sy_jobs t j) = Some (run_dests (sy_runs s ! i))"
proof -
  let ?r = "sy_runs s ! i"
  have "wait_ok (sy_jobs s) i ?r" using files.reach_inv[OF assms(1)] assms(2) unfolding sys_inv_def runs_inv_def by blast
  then have u: "rn_unsettled ?r = []" using assms(3) by (simp add: wait_ok_def)
  define s1 where "s1 = s\<lparr>sy_runs := (sy_runs s)[i := ?r\<lparr>rn_wait := WStart\<rparr>]\<rparr>"
  have s1: "answer_run d i (RStatus (Inl ''down'')) s = s1"
    using assms(3) by (simp add: answer_run_def attach_unanswered[OF assms(3) u assms(4)] s1_def new_job_def)
  have "honest (sy_jobs s) ?r (RStatus (Inl ''down''))"
    using assms(3) by (simp add: honest_def told_def isJobUnknownError_def to_lower_def lower_char_def starts_with_def)
  from fs_reply[OF assms(2) this, of d] have "fs_step d s s1" by (simp only: s1)
  then have r1: "fs_reach d s1" by (rule reach_step[OF assms(1)])
  have "i < length (sy_runs s1)" "honest (sy_jobs s1) (sy_runs s1 ! i) (RStarted (Inr (j, [])))"
    using assms(2) j by (simp_all add: s1_def honest_def)
  then have "fs_step d s1 (answer_run d i (RStarted (Inr (j, []))) s1)" by (rule fs_reply)
  then have "fs_reach d (answer_run d i (RStarted (Inr (j, []))) s1)" by (rule reach_step[OF r1])
  moreover have "sy_jobs (answer_run d i (RStarted (Inr (j, []))) s1)
      = (sy_jobs s)(j \<mapsto> \<lparr>jb_run = i, jb_files = run_dests ?r, jb_state = JobRunning\<rparr>)"
    using assms(2) by (simp add: answer_run_def new_job_def s1_def run_dests_def case_prod_unfold)
  ultimately show ?thesis using job j by (intro exI[of _ "answer_run d i (RStarted (Inr (j, []))) s1"]) (auto simp: job_runs_def)
qed

text \<open>Such a state is reached: the app closes while the file above is on its way, and starts again.\<close>

definition fsdemo_closed :: fs_sys where
  "fsdemo_closed = app_restart fsdemo_running"

lemma fsdemo_attach:
  "map_option (\<lambda>(r, w). (rn_wait r, orEmpty (rq_attachJobId (rn_req r)), rn_isFolder r)) (resumeFsUpload fsdemo_deps 1 ''h'' (sy_world fsdemo_closed))
     = Some (WAttach, ''j1'', False)"
  by code_simp

text \<open>Replacing a file while the card of a stopped copy is shown throws that card away, in the store and on the disk.\<close>

lemma attempt_top_world:
  "orEmpty (rq_attachJobId (rn_req r)) = [] \<Longrightarrow>
   snd (attempt_top d r w) = (let r1 = r\<lparr>rn_base := (rn_base r)\<lparr>ac_jobId := [], ac_retry := None\<rparr>\<rparr> in set_inflight None r1 (show_active r1 (rn_base r1) w))"
  by (simp add: attempt_top_def after_attach_def do_start_def Let_def split: FsUploadStep.split)

lemma new_run_drops_card:
  assumes "fu_active (fsUploadForHost w host) = None" "rq_host req = host" "stepsOf req = [StepOne src name True (Some tx)]"
    "orEmpty (rq_attachJobId req) = []" "tx \<noteq> []"
  shows "fu_stopped (fsUploadForHost (snd (runFsUpload d now req w)) host) = None
    \<and> map_option st_srcPaths (fw_saved (snd (runFsUpload d now req w)) (hostOf host)) = Some [src]"
proof -
  define w1 where "w1 = fs_save (fs_patch host (\<lambda>s. s\<lparr>fu_stopped := None, fu_cancelRequested := False, fu_unreadable := []\<rparr>) w)"
  have s: "slot w1 (hostOf host) = (slot w (hostOf host))\<lparr>fu_stopped := None, fu_cancelRequested := False, fu_unreadable := []\<rparr>"
    by (simp add: w1_def slot_patch)
  define r0 where "r0 = new_run now req"
  have r0: "rn_req r0 = req" "rn_steps r0 = [StepOne src name True (Some tx)]" "rn_at r0 = 0" using assms(3) by (simp_all add: r0_def new_run_def)
  have eq: "runFsUpload d now req w = loop_top d r0 w1"
    using assms(1,2) r0(2) by (simp add: runFsUpload_def Let_def w1_def r0_def)
  have "\<not> cancelled r0 w1" using r0(1) assms(2) s by (simp add: cancelled_slot)
  then have "runFsUpload d now req w = open_attempts d False (r0\<lparr>rn_base := step_base r0\<rparr>) w1"
    unfolding eq using r0 assms(5) by (subst loop_top.simps) (auto simp: orEmpty_def split: option.split)
  then show ?thesis using r0 assms(2,4) s
    by (simp add: open_attempts_def attempt_top_world Let_def fsUploadForHost_slot set_inflight_def show_active_def slot_patch)
      (simp add: fs_save_def leftNow_def left_def srcsOf_def Let_def)
qed

text \<open>Until a run knows whether its first source is a folder, the store does not show it: a second call is not refused as busy, and
  the disk holds neither the run nor the card it resumed.\<close>

lemma new_run_not_shown:
  assumes "fu_active (fsUploadForHost w host) = None" "fw_inflight w (hostOf host) = None" "rq_host req = host"
    "stepsOf req = [StepOne src name False (Some tx)]" "tx \<noteq> []"
  shows "rn_wait (fst (runFsUpload d now req w)) = WKind \<and> fu_active (fsUploadForHost (snd (runFsUpload d now req w)) host) = None
    \<and> fw_saved (snd (runFsUpload d now req w)) (hostOf host) = None"
proof -
  define w1 where "w1 = fs_save (fs_patch host (\<lambda>s. s\<lparr>fu_stopped := None, fu_cancelRequested := False, fu_unreadable := []\<rparr>) w)"
  have s: "slot w1 (hostOf host) = (slot w (hostOf host))\<lparr>fu_stopped := None, fu_cancelRequested := False, fu_unreadable := []\<rparr>"
    "fw_inflight w1 = fw_inflight w" "saved_now w1"
    by (simp_all add: w1_def slot_patch)
  define r0 where "r0 = new_run now req"
  have r0: "rn_req r0 = req" "rn_steps r0 = [StepOne src name False (Some tx)]" "rn_at r0 = 0" using assms(4) by (simp_all add: r0_def new_run_def)
  have eq: "runFsUpload d now req w = loop_top d r0 w1"
    using assms(1,3) r0(2) by (simp add: runFsUpload_def Let_def w1_def r0_def)
  have "\<not> cancelled r0 w1" using r0(1) assms(3) s(1) by (simp add: cancelled_slot)
  then have "runFsUpload d now req w = (r0\<lparr>rn_base := step_base r0, rn_wait := WKind\<rparr>, w1)"
    unfolding eq using r0 assms(5) by (subst loop_top.simps) (auto simp: orEmpty_def split: option.split)
  then show ?thesis using assms(1,2) s by (simp add: fsUploadForHost_slot saved_now_def)
qed

end
