(* ===== verification/Fs_Upload_Queue.thy ===== *)
theory Fs_Upload_Queue
  imports Fs_Upload
begin

text \<open>
  The line of picks behind a copy of the Files screen (\<^verbatim>\<open>client/src/state/fsUploadQueue.ts\<close>): more picks for a console wait
  in a line, a drain loop for each console sends them one after another, and Pause, Resume and Send now change which
  pick is next.

  The state has the line's own store, the module's variables (\<^verbatim>\<open>runners\<close>, \<^verbatim>\<open>seq\<close>, \<^verbatim>\<open>pausing\<close>, \<^verbatim>\<open>parked\<close>), the store of the copies
  (\<^verbatim>\<open>state/fsUpload.ts\<close>) with all its runs, and the drain loops, each cut at its two awaits: the listing of the destination
  and the end of the copy. The listener on the copies' store runs inside every change of that store; of the changes a run
  makes between two awaits it matters for the first of a run, which takes the card away, and for the last, since only these
  change whether the console shown_at a copy or a card. The app gives \<^verbatim>\<open>listDir\<close> (\<^verbatim>\<open>state/fsUploadRuntime.ts\<close>), so a drain
  loop always waits before it starts a copy. Texts are the English ones. What the app does for a copy on its own is here too (\<^verbatim>\<open>state/fsUploadRuntime.ts\<close>).
\<close>

section \<open>State\<close>

datatype pause_why = PauseUser | PauseSendNow

record PendingFsUpload =
  pf_id :: string
  pf_request :: FsUploadRequest
  pf_allowedExisting :: "string list"
  pf_paused :: "pause_why option"
  pf_sendNowAt :: "nat option"
  pf_error :: "string option"

record fq_slot =
  sl_items :: "PendingFsUpload list"
  sl_paused :: bool
  sl_running :: bool
  sl_error :: "string option"
  sl_currentId :: "string option"

text \<open>A loop that is about to take the next pick (\<open>DGo\<close>), that waits, or that is over.\<close>

datatype drain_wait = DGo | DList PendingFsUpload | DRun PendingFsUpload nat | DOver

record drain_loop =
  dl_host :: string
  dl_wait :: drain_wait

record fq_sys =
  fq_byHost :: "string \<rightharpoonup> fq_slot"
  fq_saved :: "string \<rightharpoonup> fq_slot"
  fq_runners :: "string list"
  fq_seq :: nat
  fq_pausing :: "(string \<times> pause_why) list"
  fq_parked :: "string list"
  fq_loops :: "drain_loop list"
  fq_fs :: fs_world
  fq_runs :: "fs_run list"
  fq_started :: nat
  fq_now :: nat
  fq_discarded :: "FsUploadRequest list"

definition QUEUE_IDLE :: fq_slot where
  "QUEUE_IDLE = \<lparr>sl_items = [], sl_paused = False, sl_running = False, sl_error = None, sl_currentId = None\<rparr>"

definition settle :: "fq_slot \<Rightarrow> fq_slot" where
  "settle s = (if sl_items s = [] then s\<lparr>sl_paused := False, sl_error := None\<rparr> else s)"

definition pick_sent_now :: "PendingFsUpload \<Rightarrow> bool" where
  "pick_sent_now i \<longleftrightarrow> or_zero (pf_sendNowAt i) \<noteq> 0"

definition unpause_sent :: "PendingFsUpload list \<Rightarrow> PendingFsUpload list" where
  "unpause_sent items = map (\<lambda>i. if pf_paused i = Some PauseSendNow then i\<lparr>pf_paused := None\<rparr> else i) items"

definition sending_now :: "PendingFsUpload list \<Rightarrow> bool" where
  "sending_now items \<longleftrightarrow> (\<exists>i \<in> set items. pick_sent_now i \<and> pf_paused i = None)"

definition load_slot :: "fs_world \<Rightarrow> string \<Rightarrow> fq_slot \<Rightarrow> fq_slot" where
  "load_slot w host s =
     (let items = filter (\<lambda>i. Some (pf_id i) \<noteq> Option.bind (fu_stopped (fsUploadForHost w host)) st_queueId) (sl_items s) in
      settle (s\<lparr>sl_items := (if sending_now items then items else unpause_sent items),
                sl_running := False, sl_paused := True, sl_currentId := None\<rparr>))"

definition fsUploadQueueFor :: "fq_sys \<Rightarrow> string \<Rightarrow> fq_slot" where
  "fsUploadQueueFor s host = (case fq_byHost s (hostOf host) of None \<Rightarrow> QUEUE_IDLE | Some sl \<Rightarrow> sl)"

definition fq_patch :: "string \<Rightarrow> (fq_slot \<Rightarrow> fq_slot) \<Rightarrow> fq_sys \<Rightarrow> fq_sys" where
  "fq_patch host f s =
     (let m = (fq_byHost s)(hostOf host \<mapsto> settle (f (fsUploadQueueFor s host))) in s\<lparr>fq_byHost := m, fq_saved := m\<rparr>)"

abbreviation fq_items :: "fq_sys \<Rightarrow> string \<Rightarrow> PendingFsUpload list" where
  "fq_items s host \<equiv> sl_items (fsUploadQueueFor s host)"

definition on_fs :: "(fs_world \<Rightarrow> fs_world) \<Rightarrow> fq_sys \<Rightarrow> fq_sys" where
  "on_fs f s = s\<lparr>fq_fs := f (fq_fs s)\<rparr>"

definition names :: "FsUploadRequest \<Rightarrow> string list" where
  "names req = (case rq_steps req of
     None \<Rightarrow> []
   | Some ss \<Rightarrow> concat (map (\<lambda>st. case st of StepList _ fs \<Rightarrow> map lf_name fs | StepOne _ name _ _ \<Rightarrow> [name]) ss))"

definition fsUploadReservations :: "fq_sys \<Rightarrow> string \<Rightarrow> string \<Rightarrow> FsExistingEntry list" where
  "fsUploadReservations s host destDir =
     concat (map (\<lambda>i. map (\<lambda>n. \<lparr>en_name = n, en_kind = ''file'', en_size = 0\<rparr>) (names (pf_request i)))
       (filter (\<lambda>i. rq_destDir (pf_request i) = destDir) (fq_items s host)))"

definition fsq_id :: "nat \<Rightarrow> nat \<Rightarrow> string" where
  "fsq_id now n = ''fsq-'' @ show_nat now @ ''-'' @ show_nat n"

definition set_runner :: "string \<Rightarrow> fq_sys \<Rightarrow> fq_sys" where
  "set_runner host s = (if hostOf host \<in> set (fq_runners s) then s else s\<lparr>fq_runners := fq_runners s @ [hostOf host]\<rparr>)"

section \<open>Which pick is next\<close>

definition earlier_sent :: "PendingFsUpload \<Rightarrow> PendingFsUpload option \<Rightarrow> PendingFsUpload option" where
  "earlier_sent i sent =
     (if pf_paused i \<noteq> None \<or> \<not> pick_sent_now i then sent
      else case sent of
        None \<Rightarrow> Some i
      | Some b \<Rightarrow> if or_zero (pf_sendNowAt i) < or_zero (pf_sendNowAt b) then Some i else sent)"

definition pick :: "fq_slot \<Rightarrow> bool \<Rightarrow> PendingFsUpload option" where
  "pick sl held =
     (let sent = fold earlier_sent (sl_items sl) None
      in if sent \<noteq> None \<or> held then sent else find (\<lambda>i. pf_paused i = None) (sl_items sl))"

definition fq_held :: "fq_sys \<Rightarrow> string \<Rightarrow> bool" where
  "fq_held s host \<longleftrightarrow> sl_paused (fsUploadQueueFor s host) \<or> fu_stopped (fsUploadForHost (fq_fs s) host) \<noteq> None"

definition next_pick :: "fq_sys \<Rightarrow> string \<Rightarrow> PendingFsUpload option" where
  "next_pick s host = pick (fsUploadQueueFor s host) (fq_held s host)"

definition fq_settleSendNow :: "string \<Rightarrow> fq_sys \<Rightarrow> fq_sys" where
  "fq_settleSendNow host s =
     (if sending_now (fq_items s host) \<or> \<not> (\<exists>i \<in> set (fq_items s host). pf_paused i = Some PauseSendNow) then s
      else fq_patch host (\<lambda>sl. sl\<lparr>sl_items := unpause_sent (sl_items sl)\<rparr>) s)"

section \<open>The drain loop up to its first await\<close>

abbreviation set_drain :: "nat \<Rightarrow> drain_wait \<Rightarrow> fq_sys \<Rightarrow> fq_sys" where
  "set_drain i wt s \<equiv> s\<lparr>fq_loops := (fq_loops s)[i := (fq_loops s ! i)\<lparr>dl_wait := wt\<rparr>]\<rparr>"

definition finish_loop :: "nat \<Rightarrow> fq_sys \<Rightarrow> fq_sys" where
  "finish_loop i s =
     set_drain i DOver (fq_patch (dl_host (fq_loops s ! i)) (\<lambda>sl. sl\<lparr>sl_running := False, sl_currentId := None\<rparr>) s)"

definition loop_next :: "nat \<Rightarrow> fq_sys \<Rightarrow> fq_sys" where
  "loop_next i s =
     (let host = dl_host (fq_loops s ! i) in
      case next_pick s host of
        None \<Rightarrow> finish_loop i s
      | Some item \<Rightarrow> set_drain i (DList item) (fq_patch host (\<lambda>sl. sl\<lparr>sl_currentId := Some (pf_id item)\<rparr>) s))"

definition drainFsUploadQueue :: "string \<Rightarrow> fq_sys \<Rightarrow> fq_sys" where
  "drainFsUploadQueue host s =
     (if sl_running (fsUploadQueueFor s host) \<or> fu_active (fsUploadForHost (fq_fs s) host) \<noteq> None \<or> next_pick s host = None then s
      else let s1 = fq_patch host (\<lambda>sl. sl\<lparr>sl_running := True\<rparr>) s
           in loop_next (length (fq_loops s)) (s1\<lparr>fq_loops := fq_loops s @ [\<lparr>dl_host = host, dl_wait = DGo\<rparr>]\<rparr>))"

section \<open>The listener on the copies\<close>

definition park_request :: "string \<Rightarrow> string \<Rightarrow> FsUploadStopped \<Rightarrow> FsUploadRequest" where
  "park_request host i st =
     \<lparr>rq_queueId = Some i, rq_host = host, rq_addr = st_addr st, rq_destDir = st_destDir st, rq_srcPaths = st_srcPaths st,
      rq_steps = st_steps st, rq_replaceRemoteName = st_replaceRemoteName st,
      rq_doneBefore = Some (case st_stepsDone st of Some k \<Rightarrow> k | None \<Rightarrow> st_doneCount st),
      rq_countTotal = Some (st_count st), rq_attachJobId = None\<rparr>"

text \<open>\<^verbatim>\<open>parkStopped\<close> up to the change of the copies' store in \<^verbatim>\<open>dismissFsUploadStopped\<close>, which the listener answers.\<close>

definition park_open :: "string \<Rightarrow> pause_why \<Rightarrow> FsUploadStopped \<Rightarrow> string option \<Rightarrow> fq_sys \<Rightarrow> fq_sys" where
  "park_open host why st err s =
     (let n = fq_seq s + 1; i = fsq_id (fq_now s) n; req = park_request host i st;
          item = \<lparr>pf_id = i, pf_request = req, pf_allowedExisting = map nameKey (names req), pf_paused = Some why,
                  pf_sendNowAt = None, pf_error = err\<rparr>
      in on_fs (fs_patch host (\<lambda>u. u\<lparr>fu_stopped := None\<rparr>))
           (fq_patch host (\<lambda>sl. sl\<lparr>sl_items := item # sl_items sl\<rparr>) (s\<lparr>fq_seq := n\<rparr>)))"

definition park_close :: "string \<Rightarrow> bool \<Rightarrow> fq_sys \<Rightarrow> fq_sys" where
  "park_close host inQueue s =
     (let s1 = on_fs fs_save s in if inQueue then s1\<lparr>fq_parked := List.insert (hostOf host) (fq_parked s1)\<rparr> else s1)"

definition drain_all :: "fq_sys \<Rightarrow> fq_sys" where
  "drain_all s = fold drainFsUploadQueue (fq_runners s) s"

fun notify_from :: "(string \<times> pause_why) list \<Rightarrow> fq_sys \<Rightarrow> fq_sys" where
  "notify_from [] s = drain_all s"
| "notify_from ((key, why) # es) s =
     (let st = fsUploadForHost (fq_fs s) key; s1 = s\<lparr>fq_pausing := AList.delete key (fq_pausing s)\<rparr>;
          inQueue = sl_running (fsUploadQueueFor s key)
      in if fu_active st \<noteq> None then notify_from es s
         else case fu_stopped st of
           None \<Rightarrow> notify_from es s1
         | Some stopped \<Rightarrow> drain_all (park_close key inQueue (notify_from es (park_open key why stopped None s1))))"

definition notify :: "fq_sys \<Rightarrow> fq_sys" where
  "notify s = notify_from (fq_pausing s) s"

definition parkStopped :: "string \<Rightarrow> pause_why \<Rightarrow> FsUploadStopped \<Rightarrow> string option \<Rightarrow> bool \<Rightarrow> fq_sys \<Rightarrow> fq_sys" where
  "parkStopped host why st err inQueue s = park_close host inQueue (notify (park_open host why st err s))"

section \<open>Copies\<close>

definition shown_at :: "fs_world \<Rightarrow> string \<Rightarrow> bool \<times> FsUploadStopped option" where
  "shown_at w host = (fu_active (fsUploadForHost w host) \<noteq> None, fu_stopped (fsUploadForHost w host))"

definition tell :: "string \<Rightarrow> fs_world \<Rightarrow> fq_sys \<Rightarrow> fq_sys" where
  "tell host w s = (if shown_at (fq_fs s) host = shown_at w host then s else notify s)"

text \<open>\<^verbatim>\<open>runFsUpload\<close> with its listener: the card is taken away, the listener runs, then the first step starts.\<close>

definition start_copy :: "fs_deps \<Rightarrow> FsUploadRequest \<Rightarrow> fq_sys \<Rightarrow> fq_sys" where
  "start_copy d req s =
     (let r = new_run (fq_now s) req; host = rq_host req in
      if rn_steps r = [] then s\<lparr>fq_runs := fq_runs s @ [r\<lparr>rn_wait := WEnd True None\<rparr>]\<rparr>
      else if fu_active (fsUploadForHost (fq_fs s) host) \<noteq> None
      then s\<lparr>fq_runs := fq_runs s @ [r\<lparr>rn_wait := WEnd False (Some FS_UPLOAD_BUSY)\<rparr>]\<rparr>
      else let s1 = on_fs fs_save (notify (on_fs (fs_patch host
                      (\<lambda>u. u\<lparr>fu_stopped := None, fu_cancelRequested := False, fu_unreadable := []\<rparr>)) s))
           in case loop_top d r (fq_fs s1) of
                (r1, w) \<Rightarrow> tell host (fq_fs s1) (s1\<lparr>fq_fs := w, fq_runs := fq_runs s1 @ [r1]\<rparr>))"

definition answer_copy :: "fs_deps \<Rightarrow> nat \<Rightarrow> fs_reply \<Rightarrow> fq_sys \<Rightarrow> fq_sys" where
  "answer_copy d i reply s =
     (if i < length (fq_runs s)
      then case fs_answer d reply (fq_runs s ! i) (fq_fs s) of
             (r, w) \<Rightarrow> tell (rq_host (rn_req r)) (fq_fs s) (s\<lparr>fq_fs := w, fq_runs := (fq_runs s)[i := r]\<rparr>)
      else s)"

section \<open>The drain loop after its awaits\<close>

definition dest_changed :: "string \<Rightarrow> string" where
  "dest_changed name = ''Error: Destination changed while queued: '' @ name
     @ ''. Remove this queued pick and add it again to choose Replace, Keep both or Skip.''"

definition find_conflict :: "PendingFsUpload \<Rightarrow> FsExistingEntry list \<Rightarrow> string option" where
  "find_conflict item present =
     find (\<lambda>n. nameKey n \<in> set (map (\<lambda>e. nameKey (en_name e)) present) \<and> nameKey n \<notin> set (pf_allowedExisting item))
       (names (pf_request item))"

definition loop_fails :: "nat \<Rightarrow> string \<Rightarrow> fq_sys \<Rightarrow> fq_sys" where
  "loop_fails i err s =
     (let host = dl_host (fq_loops s ! i) in
      finish_loop i (fq_settleSendNow host (fq_patch host (\<lambda>sl. sl\<lparr>sl_paused := True, sl_error := Some err\<rparr>) s)))"

definition list_answer :: "fs_deps \<Rightarrow> nat \<Rightarrow> string + FsExistingEntry list \<Rightarrow> PendingFsUpload \<Rightarrow> fq_sys \<Rightarrow> fq_sys" where
  "list_answer d i a item s =
     (case a of
        Inl err \<Rightarrow> loop_fails i err s
      | Inr present \<Rightarrow>
          let n = orEmpty (find_conflict item present)
          in if n \<noteq> [] then loop_fails i (dest_changed n) s
             else set_drain i (DRun item (length (fq_runs s))) (start_copy d (pf_request item) s))"

definition copy_over :: "nat \<Rightarrow> PendingFsUpload \<Rightarrow> bool \<Rightarrow> string option \<Rightarrow> fq_sys \<Rightarrow> fq_sys" where
  "copy_over i item okay err s =
     (let host = dl_host (fq_loops s ! i) in
      if err = Some FS_UPLOAD_BUSY then finish_loop i s
      else let s1 = fq_patch host (\<lambda>sl. sl\<lparr>sl_items := filter (\<lambda>x. pf_id x \<noteq> pf_id item) (sl_items sl)\<rparr>) s in
      if hostOf host \<in> set (fq_parked s1)
      then loop_next i (fq_settleSendNow host (s1\<lparr>fq_parked := removeAll (hostOf host) (fq_parked s1)\<rparr>))
      else if okay then loop_next i (fq_settleSendNow host s1)
      else case fu_stopped (fsUploadForHost (fq_fs s1) host) of
        Some st \<Rightarrow>
          if pick_sent_now item \<and> st_why st = WhyFailed
          then let s2 = parkStopped host PauseUser st (Some (st_error st)) True s1
               in loop_next i (fq_settleSendNow host (s2\<lparr>fq_parked := removeAll (hostOf host) (fq_parked s2)\<rparr>))
          else finish_loop i (fq_settleSendNow host (fq_patch host (\<lambda>sl. sl\<lparr>sl_paused := True\<rparr>) s1))
      | None \<Rightarrow> finish_loop i (fq_settleSendNow host (fq_patch host (\<lambda>sl. sl\<lparr>sl_paused := True\<rparr>) s1)))"

section \<open>What the person does\<close>

definition enqueueFsUpload :: "FsUploadRequest \<Rightarrow> FsExistingEntry list \<Rightarrow> fq_sys \<Rightarrow> fq_sys" where
  "enqueueFsUpload req existing s =
     (let n = fq_seq s + 1; i = fsq_id (fq_now s) n; host = rq_host req;
          item = \<lparr>pf_id = i, pf_request = req\<lparr>rq_queueId := Some i\<rparr>,
                  pf_allowedExisting = map (\<lambda>e. nameKey (en_name e)) existing,
                  pf_paused = None, pf_sendNowAt = None, pf_error = None\<rparr>
      in drainFsUploadQueue host (set_runner host
           (fq_patch host (\<lambda>sl. sl\<lparr>sl_items := sl_items sl @ [item]\<rparr>) (s\<lparr>fq_seq := n\<rparr>))))"

definition removeFsUploadQueued :: "string \<Rightarrow> string \<Rightarrow> bool \<Rightarrow> fq_sys \<Rightarrow> fq_sys" where
  "removeFsUploadQueued host i deps s =
     (let sl = fsUploadQueueFor s host in
      if sl_running sl \<and> sl_currentId sl = Some i then s
      else let s1 = fq_patch host (\<lambda>sl. sl\<lparr>sl_items := filter (\<lambda>x. pf_id x \<noteq> i) (sl_items sl)\<rparr>) s;
               s2 = (case find (\<lambda>x. pf_id x = i) (sl_items sl) of
                       Some gone \<Rightarrow> if pf_paused gone \<noteq> None \<and> deps
                                    then s1\<lparr>fq_discarded := fq_discarded s1 @ [pf_request gone]\<rparr> else s1
                     | None \<Rightarrow> s1)
           in fq_settleSendNow host s2)"

definition pauseFsUpload :: "string \<Rightarrow> pause_why \<Rightarrow> fq_sys \<Rightarrow> fq_sys" where
  "pauseFsUpload host why s =
     (if fu_active (fsUploadForHost (fq_fs s) host) = None then s
      else notify (on_fs (cancelFsUpload host) (s\<lparr>fq_pausing := AList.update (hostOf host) why (fq_pausing s)\<rparr>)))"

definition resumeFsUploadItem :: "string \<Rightarrow> string \<Rightarrow> fq_sys \<Rightarrow> fq_sys" where
  "resumeFsUploadItem host i s =
     (if \<exists>x \<in> set (fq_items s host). pf_id x = i \<and> pf_paused x \<noteq> None
      then drainFsUploadQueue host
             (fq_patch host (\<lambda>sl. sl\<lparr>sl_items := map (\<lambda>x. if pf_id x = i then x\<lparr>pf_paused := None, pf_error := None\<rparr> else x) (sl_items sl),
                                     sl_paused := False, sl_error := None\<rparr>) (set_runner host s))
      else s)"

definition sendFsUploadNow :: "string \<Rightarrow> string \<Rightarrow> fq_sys \<Rightarrow> fq_sys" where
  "sendFsUploadNow host i s =
     (let sl = fsUploadQueueFor s host in
      if \<not> (\<exists>x \<in> set (sl_items sl). pf_id x = i \<and> pf_paused x = None) then s
      else let stamp = fold (\<lambda>x m. max m (or_zero (pf_sendNowAt x) + 1)) (sl_items sl) (fq_now s);
               s1 = fq_patch host (\<lambda>sl. sl\<lparr>sl_items := map (\<lambda>x. if pf_id x = i then x\<lparr>pf_sendNowAt := Some stamp\<rparr> else x) (sl_items sl)\<rparr>)
                      (set_runner host s);
               cur = (if sl_running sl then sl_currentId sl else None);
               runningSent = (case cur of
                   None \<Rightarrow> False
                 | Some c \<Rightarrow> (case find (\<lambda>x. pf_id x = c) (sl_items sl) of None \<Rightarrow> False | Some x \<Rightarrow> pick_sent_now x))
           in if fu_active (fsUploadForHost (fq_fs s) host) \<noteq> None \<and> \<not> runningSent \<and> cur \<noteq> Some i
              then pauseFsUpload host PauseSendNow s1 else drainFsUploadQueue host s1)"

definition pauseFsUploadQueue :: "string \<Rightarrow> fq_sys \<Rightarrow> fq_sys" where
  "pauseFsUploadQueue host = fq_patch host (\<lambda>sl. sl\<lparr>sl_paused := True\<rparr>)"

definition resumeFsUploadQueue :: "string \<Rightarrow> fq_sys \<Rightarrow> fq_sys" where
  "resumeFsUploadQueue host s =
     drainFsUploadQueue host (fq_patch host (\<lambda>sl. sl\<lparr>sl_paused := False, sl_error := None\<rparr>) (set_runner host s))"

definition fq_restart :: "fq_sys \<Rightarrow> fq_sys" where
  "fq_restart s =
     (let w = restoreFsUploads ((fq_fs s)\<lparr>fw_byHost := Map.empty, fw_inflight := Map.empty\<rparr>) in
      s\<lparr>fq_fs := w, fq_byHost := \<lambda>k. map_option (load_slot w k) (fq_saved s k), fq_runners := [], fq_seq := 0,
        fq_pausing := [], fq_parked := [], fq_loops := [], fq_runs := [], fq_now := fq_now s + 1, fq_started := fq_now s + 1\<rparr>)"

section \<open>The app's own answers\<close>

text \<open>\<^verbatim>\<open>state/fsUploadRuntime.ts\<close>: when a failure is tried again unasked, and what happens when a console answers again.\<close>

definition mayRetry :: "bool \<Rightarrow> string option \<Rightarrow> string \<Rightarrow> bool" where
  "mayRetry autoResume reason error \<longleftrightarrow> autoResume \<and> isAutoRecoverable reason (Some error) True"

definition should_retry :: "bool \<Rightarrow> (string \<Rightarrow> bool) \<Rightarrow> string option \<Rightarrow> string \<Rightarrow> string \<Rightarrow> bool" where
  "should_retry autoResume asleep reason error host \<longleftrightarrow>
     \<not> isRestModeReason reason \<and> \<not> asleep host \<and> mayRetry autoResume reason error"

definition fsUploadDeps :: "(nat \<Rightarrow> string) \<Rightarrow> bool \<Rightarrow> (string \<Rightarrow> bool) \<Rightarrow> fs_deps" where
  "fsUploadDeps newTxId autoResume asleep =
     \<lparr>dp_startList = True, dp_newTxId = Some newTxId, dp_listDir = True, dp_jobFiles = True,
      dp_shouldRetry = should_retry autoResume asleep\<rparr>"

definition resume_card :: "fs_deps \<Rightarrow> string \<Rightarrow> fq_sys \<Rightarrow> fq_sys" where
  "resume_card d host s =
     (let cur = fsUploadForHost (fq_fs s) host in
      case fu_stopped cur of
        Some st \<Rightarrow> if fu_active cur \<noteq> None then s else start_copy d (resume_request host st) s
      | None \<Rightarrow> s)"

definition resumeStoppedFsUploadOnWake :: "fs_deps \<Rightarrow> bool \<Rightarrow> string \<Rightarrow> fq_sys \<Rightarrow> fq_sys" where
  "resumeStoppedFsUploadOnWake d autoResume host s =
     (let cur = fsUploadForHost (fq_fs s) host in
      case fu_stopped cur of
        None \<Rightarrow> s
      | Some st \<Rightarrow>
          if fu_active cur \<noteq> None \<or> st_why st \<noteq> WhyFailed \<or> \<not> mayRetry autoResume (st_reason st) (st_error st) then s
          else resume_card d host s)"

definition interrupted_at :: "fs_world \<Rightarrow> string \<Rightarrow> bool" where
  "interrupted_at w host \<longleftrightarrow> (case fw_byHost w host of None \<Rightarrow> False | Some u \<Rightarrow> map_option st_why (fu_stopped u) = Some WhyInterrupted)"

section \<open>Events\<close>

datatype fq_event =
    QEnqueue FsUploadRequest "FsExistingEntry list" | QRemove string string bool | QPause string
  | QResumeItem string string | QSendNow string string | QPauseLine string | QResumeLine string
  | QListing nat "string + FsExistingEntry list" | QOver nat | QReply nat fs_reply
  | QOutside FsUploadRequest | QResumeCard string | QWake string bool | QStop string | QDismiss string | QChange
  | QTick | QRestart

definition drain_event :: "fs_deps \<Rightarrow> nat \<Rightarrow> (string + FsExistingEntry list) option \<Rightarrow> fq_sys \<Rightarrow> fq_sys" where
  "drain_event d i a s =
     (if i < length (fq_loops s)
      then case (dl_wait (fq_loops s ! i), a) of
             (DList item, Some l) \<Rightarrow> list_answer d i l item s
           | (DRun item k, None) \<Rightarrow> (case rn_wait (fq_runs s ! k) of WEnd okay err \<Rightarrow> copy_over i item okay err s | _ \<Rightarrow> s)
           | _ \<Rightarrow> s
      else s)"

definition fq_do :: "fs_deps \<Rightarrow> fq_sys \<Rightarrow> fq_event \<Rightarrow> fq_sys" where
  "fq_do d s e =
     (case e of
        QEnqueue req existing \<Rightarrow> enqueueFsUpload req existing s
      | QRemove host i deps \<Rightarrow> removeFsUploadQueued host i deps s
      | QPause host \<Rightarrow> pauseFsUpload host PauseUser s
      | QResumeItem host i \<Rightarrow> resumeFsUploadItem host i s
      | QSendNow host i \<Rightarrow> sendFsUploadNow host i s
      | QPauseLine host \<Rightarrow> pauseFsUploadQueue host s
      | QResumeLine host \<Rightarrow> resumeFsUploadQueue host s
      | QListing i a \<Rightarrow> drain_event d i (Some a) s
      | QOver i \<Rightarrow> drain_event d i None s
      | QReply i reply \<Rightarrow> answer_copy d i reply s
      | QOutside req \<Rightarrow> start_copy d req s
      | QResumeCard host \<Rightarrow> resume_card d host s
      | QWake host autoResume \<Rightarrow> resumeStoppedFsUploadOnWake d autoResume host s
      | QStop host \<Rightarrow> if fu_active (fsUploadForHost (fq_fs s) host) = None then s else notify (on_fs (cancelFsUpload host) s)
      | QDismiss host \<Rightarrow> on_fs fs_save (notify (on_fs (fs_patch host (\<lambda>u. u\<lparr>fu_stopped := None\<rparr>)) s))
      | QChange \<Rightarrow> notify s
      | QTick \<Rightarrow> s\<lparr>fq_now := fq_now s + 1\<rparr>
      | QRestart \<Rightarrow> fq_restart s)"

definition fq_initial :: fq_sys where
  "fq_initial =
     \<lparr>fq_byHost = Map.empty, fq_saved = Map.empty, fq_runners = [], fq_seq = 0, fq_pausing = [], fq_parked = [], fq_loops = [],
      fq_fs = \<lparr>fw_byHost = Map.empty, fw_inflight = Map.empty, fw_saved = Map.empty, fw_minted = 0, fw_jobCancels = []\<rparr>,
      fq_runs = [], fq_started = 0, fq_now = 1, fq_discarded = []\<rparr>"

end
