(* ===== verification/Fs_Upload_Line.thy ===== *)
theory Fs_Upload_Line
  imports Fs_Upload_Queue
begin

text \<open>
  What the line of picks promises, for every sequence of events: what the person does, the answers to listings and copies in
  any order, changes of the copies' store, and restarts. One drain loop for each console; a pick the person paused stays paused; no pick leaves the
  line but by the person's hand or because its copy has ended; the line keeps its order; and the picks that wait go on
  when a copy ends.
\<close>

section \<open>Lines\<close>

definition line_at :: "fq_sys \<Rightarrow> string \<Rightarrow> fq_slot" where
  "line_at s k = (case fq_byHost s k of None \<Rightarrow> QUEUE_IDLE | Some sl \<Rightarrow> sl)"

abbreviation items_at :: "fq_sys \<Rightarrow> string \<Rightarrow> PendingFsUpload list" where
  "items_at s k \<equiv> sl_items (line_at s k)"

abbreviation ids_at :: "fq_sys \<Rightarrow> string \<Rightarrow> string list" where
  "ids_at s k \<equiv> map pf_id (items_at s k)"

lemma queueFor_line: "fsUploadQueueFor s host = line_at s (hostOf host)"
  by (simp add: fsUploadQueueFor_def line_at_def)

lemma settle_keeps [simp]: "sl_items (settle sl) = sl_items sl" "sl_running (settle sl) = sl_running sl"
  "sl_currentId (settle sl) = sl_currentId sl"
  by (simp_all add: settle_def)

lemma line_patch [simp]: "line_at (fq_patch host f s) k = (if k = hostOf host then settle (f (line_at s k)) else line_at s k)"
  by (simp add: line_at_def fq_patch_def fsUploadQueueFor_def Let_def)

lemma patch_keeps [simp]:
  "fq_runners (fq_patch host f s) = fq_runners s" "fq_seq (fq_patch host f s) = fq_seq s"
  "fq_pausing (fq_patch host f s) = fq_pausing s" "fq_parked (fq_patch host f s) = fq_parked s"
  "fq_loops (fq_patch host f s) = fq_loops s" "fq_fs (fq_patch host f s) = fq_fs s" "fq_runs (fq_patch host f s) = fq_runs s"
  "fq_started (fq_patch host f s) = fq_started s" "fq_now (fq_patch host f s) = fq_now s"
  by (simp_all add: fq_patch_def Let_def)

lemma line_keeps [simp]:
  "line_at (s\<lparr>fq_saved := a\<rparr>) k = line_at s k" "line_at (s\<lparr>fq_runners := b\<rparr>) k = line_at s k"
  "line_at (s\<lparr>fq_seq := c\<rparr>) k = line_at s k" "line_at (s\<lparr>fq_pausing := e\<rparr>) k = line_at s k"
  "line_at (s\<lparr>fq_parked := f\<rparr>) k = line_at s k" "line_at (s\<lparr>fq_loops := g\<rparr>) k = line_at s k"
  "line_at (s\<lparr>fq_fs := h\<rparr>) k = line_at s k" "line_at (s\<lparr>fq_runs := m\<rparr>) k = line_at s k"
  "line_at (s\<lparr>fq_now := n\<rparr>) k = line_at s k" "line_at (s\<lparr>fq_discarded := p\<rparr>) k = line_at s k"
  by (simp_all add: line_at_def)

section \<open>The next pick\<close>

lemma earlier_sent_cases:
  "earlier_sent i sent = Some x \<Longrightarrow> sent = Some x \<or> x = i \<and> pf_paused i = None \<and> pick_sent_now i"
  by (auto simp: earlier_sent_def split: if_splits option.splits)

lemma fold_earlier_mem:
  "fold earlier_sent xs sent = Some x \<Longrightarrow> sent = Some x \<or> x \<in> set xs \<and> pf_paused x = None \<and> pick_sent_now x"
proof (induction xs arbitrary: sent)
  case (Cons i xs)
  then show ?case using earlier_sent_cases[of i sent x] by fastforce
qed simp

lemma fold_earlier_None:
  "fold earlier_sent xs sent = None \<longleftrightarrow> sent = None \<and> (\<forall>i \<in> set xs. pf_paused i \<noteq> None \<or> \<not> pick_sent_now i)"
proof (induction xs arbitrary: sent)
  case (Cons i xs)
  then show ?case by (auto simp: earlier_sent_def split: option.splits)
qed simp

lemma fold_earlier_least:
  assumes "fold earlier_sent xs sent = Some x"
  shows "(\<forall>b. sent = Some b \<longrightarrow> or_zero (pf_sendNowAt x) \<le> or_zero (pf_sendNowAt b))
       \<and> (\<forall>i \<in> set xs. pf_paused i = None \<longrightarrow> pick_sent_now i \<longrightarrow> or_zero (pf_sendNowAt x) \<le> or_zero (pf_sendNowAt i))"
  using assms
proof (induction xs arbitrary: sent)
  case (Cons i xs)
  then have "fold earlier_sent xs (earlier_sent i sent) = Some x" by simp
  from Cons.IH[OF this] show ?case
    by (cases sent) (auto simp: earlier_sent_def split: if_splits)
qed simp

lemma find_first:
  assumes "find P xs = Some x"
  obtains ys zs where "xs = ys @ x # zs" "P x" "\<forall>y \<in> set ys. \<not> P y"
proof -
  from assms obtain i where i: "i < length xs" "P (xs ! i)" "x = xs ! i" "\<forall>j < i. \<not> P (xs ! j)" by (auto simp: find_Some_iff)
  then have "xs = take i xs @ x # drop (Suc i) xs" by (simp add: id_take_nth_drop)
  moreover have "\<forall>y \<in> set (take i xs). \<not> P y" using i by (auto simp: in_set_conv_nth)
  ultimately show ?thesis using i that by blast
qed

lemma pick_mem: "pick sl held = Some x \<Longrightarrow> x \<in> set (sl_items sl) \<and> pf_paused x = None"
  using fold_earlier_mem[of "sl_items sl" None x] by (auto simp: pick_def Let_def find_Some_iff split: if_splits)

lemma next_pick_mem: "next_pick s host = Some x \<Longrightarrow> x \<in> set (items_at s (hostOf host)) \<and> pf_paused x = None"
  unfolding next_pick_def queueFor_line by (rule pick_mem)

section \<open>Ids\<close>

definition id_old :: "fq_sys \<Rightarrow> string \<Rightarrow> bool" where
  "id_old s i \<longleftrightarrow> (\<exists>t n. i = fsq_id t n \<and> (t < fq_started s \<or> t \<le> fq_now s \<and> n \<le> fq_seq s))"

lemma fsq_id_inj: "fsq_id t n = fsq_id u m \<longleftrightarrow> t = u \<and> n = m"
proof
  assume "fsq_id t n = fsq_id u m"
  then have e: "show_nat t @ ''-'' @ show_nat n = show_nat u @ ''-'' @ show_nat m" by (simp add: fsq_id_def)
  have d: "takeWhile is_digit (show_nat a @ ''-'' @ ys) = show_nat a" for a ys
    using show_nat_digits[of a] by (subst takeWhile_append2) (auto simp: is_digit_def)
  from arg_cong[OF e, of "takeWhile is_digit"] have "show_nat t = show_nat u" by (simp only: d)
  with e show "t = u \<and> n = m" by simp
qed simp

lemma fresh_pick_id: "fq_started s \<le> fq_now s \<Longrightarrow> \<not> id_old s (fsq_id (fq_now s) (fq_seq s + 1))"
  by (auto simp: id_old_def fsq_id_inj)

lemma fresh_id_old: "id_old (s\<lparr>fq_seq := fq_seq s + 1\<rparr>) (fsq_id (fq_now s) (fq_seq s + 1))"
  by (auto simp: id_old_def)

lemma id_old_seq: "fq_seq s \<le> n \<Longrightarrow> id_old s i \<Longrightarrow> id_old (s\<lparr>fq_seq := n\<rparr>) i"
  unfolding id_old_def by (auto intro: order.trans)

lemma id_old_cong:
  "fq_started s' = fq_started s \<Longrightarrow> fq_now s' = fq_now s \<Longrightarrow> fq_seq s' = fq_seq s \<Longrightarrow> id_old s' = id_old s"
  by (simp add: id_old_def fun_eq_iff)

lemma id_old_keeps [simp]:
  "id_old (s\<lparr>fq_saved := a\<rparr>) = id_old s" "id_old (s\<lparr>fq_runners := b\<rparr>) = id_old s"
  "id_old (s\<lparr>fq_byHost := c\<rparr>) = id_old s" "id_old (s\<lparr>fq_pausing := e\<rparr>) = id_old s"
  "id_old (s\<lparr>fq_parked := f\<rparr>) = id_old s" "id_old (s\<lparr>fq_loops := g\<rparr>) = id_old s"
  "id_old (s\<lparr>fq_fs := h\<rparr>) = id_old s" "id_old (s\<lparr>fq_runs := m\<rparr>) = id_old s"
  "id_old (s\<lparr>fq_discarded := p\<rparr>) = id_old s" "id_old (fq_patch host q s) = id_old s"
  by (simp_all add: id_old_def fun_eq_iff)

section \<open>The invariant\<close>

definition loop_item :: "drain_loop \<Rightarrow> PendingFsUpload option" where
  "loop_item l = (case dl_wait l of DList it \<Rightarrow> Some it | DRun it _ \<Rightarrow> Some it | _ \<Rightarrow> None)"

definition live_loops :: "drain_loop list \<Rightarrow> string \<Rightarrow> drain_loop list" where
  "live_loops ls k = filter (\<lambda>l. hostOf (dl_host l) = k \<and> dl_wait l \<noteq> DOver) ls"

definition ids_ok :: "fq_sys \<Rightarrow> PendingFsUpload list \<Rightarrow> bool" where
  "ids_ok s items \<longleftrightarrow> distinct (map pf_id items) \<and> (\<forall>x \<in> set items. id_old s (pf_id x))"

definition saved_items :: "fq_sys \<Rightarrow> string \<Rightarrow> PendingFsUpload list" where
  "saved_items s k = (case fq_saved s k of None \<Rightarrow> [] | Some sl \<Rightarrow> sl_items sl)"

text \<open>A loop has a pick that is not paused, and a copy made for it.\<close>

definition loop_ok :: "fq_sys \<Rightarrow> drain_loop \<Rightarrow> bool" where
  "loop_ok s l \<longleftrightarrow>
     (\<forall>it. loop_item l = Some it \<longrightarrow> id_old s (pf_id it)
        \<and> (\<forall>x \<in> set (items_at s (hostOf (dl_host l))). pf_id x = pf_id it \<longrightarrow> pf_paused x = None))
     \<and> (\<forall>it j. dl_wait l = DRun it j \<longrightarrow> j < length (fq_runs s) \<and> rn_req (fq_runs s ! j) = pf_request it)"

lemma loop_okD:
  "loop_ok s l \<Longrightarrow> loop_item l = Some it \<Longrightarrow> id_old s (pf_id it)"
  "loop_ok s l \<Longrightarrow> loop_item l = Some it \<Longrightarrow> x \<in> set (items_at s (hostOf (dl_host l))) \<Longrightarrow> pf_id x = pf_id it \<Longrightarrow> pf_paused x = None"
  "loop_ok s l \<Longrightarrow> dl_wait l = DRun it j \<Longrightarrow> j < length (fq_runs s) \<and> rn_req (fq_runs s ! j) = pf_request it"
  by (simp_all add: loop_ok_def)

lemma loop_okI:
  assumes "\<And>it. loop_item l = Some it \<Longrightarrow> id_old s (pf_id it)"
    and "\<And>it x. loop_item l = Some it \<Longrightarrow> x \<in> set (items_at s (hostOf (dl_host l))) \<Longrightarrow> pf_id x = pf_id it \<Longrightarrow> pf_paused x = None"
    and "\<And>it j. dl_wait l = DRun it j \<Longrightarrow> j < length (fq_runs s) \<and> rn_req (fq_runs s ! j) = pf_request it"
  shows "loop_ok s l"
  unfolding loop_ok_def using assms by blast

text \<open>What is saved has all picks, and those the person paused as they are.\<close>

definition saved_ok :: "PendingFsUpload list \<Rightarrow> PendingFsUpload list \<Rightarrow> bool" where
  "saved_ok items saved \<longleftrightarrow> pf_id ` set items \<subseteq> pf_id ` set saved
     \<and> (\<forall>x \<in> set items. pf_paused x = Some PauseUser \<longrightarrow> x \<in> set saved)"

lemma saved_ok_refl [simp]: "saved_ok xs xs"
  by (simp add: saved_ok_def)

definition line_inv :: "fq_sys \<Rightarrow> bool" where
  "line_inv s \<longleftrightarrow> fq_started s \<le> fq_now s
     \<and> (\<forall>k. length (live_loops (fq_loops s) k) = (if sl_running (line_at s k) then 1 else 0))
     \<and> (\<forall>k. ids_ok s (items_at s k) \<and> ids_ok s (saved_items s k))
     \<and> (\<forall>k. saved_ok (items_at s k) (saved_items s k))
     \<and> (\<forall>l \<in> set (fq_loops s). loop_ok s l)"

lemma line_inv_keeps [simp]:
  "line_inv (s\<lparr>fq_runners := b\<rparr>) = line_inv s" "line_inv (s\<lparr>fq_pausing := e\<rparr>) = line_inv s"
  "line_inv (s\<lparr>fq_parked := f\<rparr>) = line_inv s" "line_inv (s\<lparr>fq_fs := h\<rparr>) = line_inv s"
  "line_inv (s\<lparr>fq_discarded := p\<rparr>) = line_inv s" "line_inv (on_fs g s) = line_inv s"
  by (simp_all add: line_inv_def ids_ok_def saved_items_def loop_ok_def on_fs_def)

lemma saved_patch: "saved_items (fq_patch host f s) k = items_at (fq_patch host f s) k"
  by (simp add: saved_items_def line_at_def fq_patch_def Let_def QUEUE_IDLE_def split: option.split)

text \<open>A change of one line keeps the invariant when the loops are not touched, the ids stay distinct and known, and no pick that was
  not paused becomes paused.\<close>

lemma patch_inv:
  assumes inv: "line_inv s"
    and ids: "ids_ok (s\<lparr>fq_seq := n\<rparr>) (sl_items (f (line_at s (hostOf host))))" and n: "fq_seq s \<le> n"
    and run: "sl_running (f (line_at s (hostOf host))) = sl_running (line_at s (hostOf host))"
    and paused: "\<And>y. y \<in> set (sl_items (f (line_at s (hostOf host)))) \<Longrightarrow> pf_paused y \<noteq> None \<Longrightarrow>
       \<not> id_old s (pf_id y) \<or> (\<exists>x \<in> set (items_at s (hostOf host)). pf_id x = pf_id y \<and> pf_paused x \<noteq> None)"
  shows "line_inv (fq_patch host f (s\<lparr>fq_seq := n\<rparr>))"
proof -
  let ?s = "fq_patch host f (s\<lparr>fq_seq := n\<rparr>)"
  have old: "id_old s i \<Longrightarrow> id_old ?s i" for i using id_old_seq[OF n] by simp
  have ids': "ids_ok ?s (items_at ?s k)" for k
    using inv ids old unfolding line_inv_def ids_ok_def by auto
  have "loop_ok ?s l" if "l \<in> set (fq_loops s)" for l
  proof -
    from inv that have l: "loop_ok s l" by (simp add: line_inv_def)
    have np: "pf_paused x = None"
      if "loop_item l = Some it" "x \<in> set (items_at ?s (hostOf (dl_host l)))" "pf_id x = pf_id it" for it x
    proof (cases "hostOf (dl_host l) = hostOf host")
      case True
      then have x: "x \<in> set (sl_items (f (line_at s (hostOf host))))" using that(2) by simp
      have "id_old s (pf_id x)" "\<And>y. y \<in> set (items_at s (hostOf host)) \<Longrightarrow> pf_id y = pf_id x \<Longrightarrow> pf_paused y = None"
        using l that(1,3) True unfolding loop_ok_def by auto
      with paused[OF x] show ?thesis by metis
    next
      case False
      with that l show ?thesis unfolding loop_ok_def by auto
    qed
    show ?thesis
    proof (rule loop_okI)
      show "id_old ?s (pf_id it)" if "loop_item l = Some it" for it using loop_okD(1)[OF l that] by (rule old)
      show "j < length (fq_runs ?s) \<and> rn_req (fq_runs ?s ! j) = pf_request it" if "dl_wait l = DRun it j" for it j
        using loop_okD(3)[OF l that] by simp
    qed (rule np)
  qed
  then show ?thesis using inv ids' run unfolding line_inv_def saved_patch by auto
qed


section \<open>What leaves the picks alone\<close>

text \<open>Picks are only added, at the front and under new ids; those the person paused stay as they are; copies are only added and
  keep their requests.\<close>

definition quiet_line :: "fq_sys \<Rightarrow> fq_sys \<Rightarrow> bool" where
  "quiet_line s t \<longleftrightarrow>
     (\<forall>k. \<exists>f. ids_at t k = f @ ids_at s k \<and> (\<forall>i \<in> set f. \<not> id_old s i))
     \<and> (\<forall>k. \<forall>x \<in> set (items_at s k). pf_paused x = Some PauseUser \<longrightarrow> x \<in> set (items_at t k))
     \<and> (\<forall>i. id_old s i \<longrightarrow> id_old t i)
     \<and> length (fq_runs s) \<le> length (fq_runs t) \<and> (\<forall>j < length (fq_runs s). rn_req (fq_runs t ! j) = rn_req (fq_runs s ! j))"

definition calm_line :: "fq_sys \<Rightarrow> fq_sys \<Rightarrow> bool" where
  "calm_line s t \<longleftrightarrow> (line_inv s \<longrightarrow> line_inv t \<and> quiet_line s t) \<and> (\<exists>ls. fq_loops t = fq_loops s @ ls)"

lemma quiet_trans:
  assumes "quiet_line s t" "quiet_line t u"
  shows "quiet_line s u"
  unfolding quiet_line_def
proof (intro conjI allI)
  fix k
  obtain f where 1: "ids_at t k = f @ ids_at s k" "\<forall>i \<in> set f. \<not> id_old s i" using assms(1) unfolding quiet_line_def by blast
  obtain f' where 2: "ids_at u k = f' @ ids_at t k" "\<forall>i \<in> set f'. \<not> id_old t i" using assms(2) unfolding quiet_line_def by blast
  have "\<forall>i \<in> set f'. \<not> id_old s i" using 2(2) assms(1) unfolding quiet_line_def by blast
  with 1 2(1) show "\<exists>f. ids_at u k = f @ ids_at s k \<and> (\<forall>i \<in> set f. \<not> id_old s i)"
    by (intro exI[of _ "f' @ f"]) auto
next
  show "length (fq_runs s) \<le> length (fq_runs u)" using assms by (simp add: quiet_line_def)
qed (use assms in \<open>simp_all add: quiet_line_def\<close>)

lemma quietI:
  assumes "\<And>k. ids_at t k = ids_at s k"
    and "\<And>k x. x \<in> set (items_at s k) \<Longrightarrow> pf_paused x = Some PauseUser \<Longrightarrow> x \<in> set (items_at t k)"
    and "\<And>i. id_old s i \<Longrightarrow> id_old t i" "length (fq_runs s) \<le> length (fq_runs t)"
    and "\<And>j. j < length (fq_runs s) \<Longrightarrow> rn_req (fq_runs t ! j) = rn_req (fq_runs s ! j)"
  shows "quiet_line s t"
  unfolding quiet_line_def using assms by auto

lemma quiet_refl [simp]: "quiet_line s s"
  by (rule quietI) simp_all

lemma calm_refl [simp]: "calm_line s s"
  by (auto simp: calm_line_def intro: quietI)

lemma calm_trans [trans]: "calm_line s t \<Longrightarrow> calm_line t u \<Longrightarrow> calm_line s u"
  unfolding calm_line_def using quiet_trans by fastforce

lemma calmD: "calm_line s t \<Longrightarrow> line_inv s \<Longrightarrow> line_inv t" "calm_line s t \<Longrightarrow> line_inv s \<Longrightarrow> quiet_line s t"
  by (simp_all add: calm_line_def)

lemma calm_loop: "calm_line s t \<Longrightarrow> i < length (fq_loops s) \<Longrightarrow> i < length (fq_loops t) \<and> fq_loops t ! i = fq_loops s ! i"
  by (auto simp: calm_line_def nth_append)

lemma calm_keeps [simp]:
  "calm_line s (s\<lparr>fq_runners := b\<rparr>)" "calm_line s (s\<lparr>fq_pausing := e\<rparr>)" "calm_line s (s\<lparr>fq_parked := f\<rparr>)" "calm_line s (s\<lparr>fq_fs := h\<rparr>)"
  "calm_line s (s\<lparr>fq_discarded := p\<rparr>)" "calm_line s (on_fs g s)" "calm_line s (set_runner host s)"
  by (auto simp: calm_line_def on_fs_def set_runner_def intro!: quietI)

lemma calm_then:
  "calm_line s t \<Longrightarrow> calm_line s (t\<lparr>fq_runners := b\<rparr>)" "calm_line s t \<Longrightarrow> calm_line s (t\<lparr>fq_pausing := e\<rparr>)" "calm_line s t \<Longrightarrow> calm_line s (t\<lparr>fq_parked := f\<rparr>)"
  "calm_line s t \<Longrightarrow> calm_line s (t\<lparr>fq_fs := h\<rparr>)" "calm_line s t \<Longrightarrow> calm_line s (t\<lparr>fq_discarded := p\<rparr>)" "calm_line s t \<Longrightarrow> calm_line s (on_fs g t)"
  "calm_line s t \<Longrightarrow> calm_line s (set_runner host t)"
  by (blast intro: calm_trans calm_keeps)+

text \<open>A change of a line that keeps its picks, or resumes those a Send now paused.\<close>

lemma calm_patch:
  assumes "\<And>sl. sl_items (f sl) = sl_items sl" "\<And>sl. sl_running (f sl) = sl_running sl"
  shows "calm_line s (fq_patch host f s)"
  unfolding calm_line_def
proof (intro impI conjI)
  assume inv: "line_inv s"
  then have "ids_ok s (items_at s (hostOf host))" by (simp add: line_inv_def)
  then have "line_inv (fq_patch host f (s\<lparr>fq_seq := fq_seq s\<rparr>))"
    by (intro patch_inv[OF inv]) (auto simp: assms)
  then show "line_inv (fq_patch host f s)" by simp
qed (rule quietI, auto simp: assms)

lemma ids_unpause [simp]: "map pf_id (unpause_sent xs) = map pf_id xs"
  by (simp add: unpause_sent_def)

lemma unpause_user: "x \<in> set xs \<Longrightarrow> pf_paused x = Some PauseUser \<Longrightarrow> x \<in> set (unpause_sent xs)"
  by (force simp: unpause_sent_def)

lemma unpause_paused: "y \<in> set (unpause_sent xs) \<Longrightarrow> pf_paused y \<noteq> None \<Longrightarrow> y \<in> set xs"
  by (auto simp: unpause_sent_def split: if_splits)

lemma ids_ok_map: "map pf_id ys = map pf_id xs \<Longrightarrow> ids_ok s xs \<Longrightarrow> ids_ok s ys"
  unfolding ids_ok_def by (metis (mono_tags, opaque_lifting) image_iff list.set_map)

lemma calm_fq_settleSendNow: "calm_line s (fq_settleSendNow host s)"
proof -
  let ?f = "\<lambda>sl. sl\<lparr>sl_items := unpause_sent (sl_items sl)\<rparr>"
  have "calm_line s (fq_patch host ?f s)" unfolding calm_line_def
  proof (intro impI conjI)
    assume inv: "line_inv s"
    then have "ids_ok s (unpause_sent (items_at s (hostOf host)))" by (auto simp: line_inv_def intro: ids_ok_map[OF ids_unpause])
    then have "line_inv (fq_patch host ?f (s\<lparr>fq_seq := fq_seq s\<rparr>))"
      by (intro patch_inv[OF inv]) (auto dest: unpause_paused)
    then show "line_inv (fq_patch host ?f s)" by simp
  qed (rule quietI, auto intro: unpause_user)
  then show ?thesis by (simp add: fq_settleSendNow_def)
qed

section \<open>Drain loops\<close>

lemma live_loops_append: "live_loops (ls @ ls') k = live_loops ls k @ live_loops ls' k"
  by (simp add: live_loops_def)

lemma live_loops_update:
  assumes "i < length ls" "dl_wait (ls ! i) \<noteq> DOver"
  shows "length (live_loops ls k) = length (live_loops (ls[i := (ls ! i)\<lparr>dl_wait := wt\<rparr>]) k)
    + (if hostOf (dl_host (ls ! i)) = k \<and> wt = DOver then 1 else 0)"
  using assms
proof (induction ls arbitrary: i)
  case (Cons l ls)
  then show ?case by (cases i) (auto simp: live_loops_def)
qed simp

text \<open>A change of the loops, with the picks as they are.\<close>

lemma loops_inv:
  assumes inv: "line_inv s" and items: "\<And>k. items_at t k = items_at s k"
    and saved: "(\<forall>k. saved_items t k = saved_items s k) \<or> (\<forall>k. saved_items t k = items_at t k)"
    and same: "fq_started t = fq_started s" "fq_now t = fq_now s" "fq_seq t = fq_seq s"
    and count: "\<And>k. length (live_loops (fq_loops t) k) = (if sl_running (line_at t k) then 1 else 0)"
    and loops: "\<And>l. l \<in> set (fq_loops t) \<Longrightarrow> loop_ok t l"
  shows "line_inv t"
proof -
  have "id_old t = id_old s" using same by (rule id_old_cong)
  then have "ids_ok t = ids_ok s" by (simp add: ids_ok_def fun_eq_iff)
  with inv items saved same count loops show ?thesis unfolding line_inv_def by auto
qed

lemma loop_ok_cong:
  assumes "\<And>k. items_at t k = items_at s k" "id_old t = id_old s" "fq_runs t = fq_runs s"
  shows "loop_ok t = loop_ok s"
  using assms by (simp add: loop_ok_def fun_eq_iff)

lemma loop_ok_over [simp]: "loop_ok s (l\<lparr>dl_wait := DOver\<rparr>)" "loop_ok s \<lparr>dl_host = h, dl_wait = DGo\<rparr>"
  by (simp_all add: loop_ok_def loop_item_def)

lemma finish_loop_inv:
  assumes inv: "line_inv s" and i: "i < length (fq_loops s)" "dl_wait (fq_loops s ! i) \<noteq> DOver"
  shows "line_inv (finish_loop i s)"
proof (rule loops_inv[OF inv])
  let ?t = "finish_loop i s" and ?h = "dl_host (fq_loops s ! i)"
  have fl: "fq_loops ?t = (fq_loops s)[i := (fq_loops s ! i)\<lparr>dl_wait := DOver\<rparr>]" by (simp add: finish_loop_def)
  have ln: "line_at ?t k = (if k = hostOf ?h then settle ((line_at s k)\<lparr>sl_running := False, sl_currentId := None\<rparr>) else line_at s k)" for k
    by (simp add: finish_loop_def)
  show "items_at ?t k = items_at s k" for k by (simp add: ln)
  have "saved_items ?t k = items_at ?t k" for k
    using saved_patch[of ?h "\<lambda>sl. sl\<lparr>sl_running := False, sl_currentId := None\<rparr>" s k] by (simp add: finish_loop_def saved_items_def)
  then show "(\<forall>k. saved_items ?t k = saved_items s k) \<or> (\<forall>k. saved_items ?t k = items_at ?t k)" by blast
  show "length (live_loops (fq_loops ?t) k) = (if sl_running (line_at ?t k) then 1 else 0)" for k
    using inv live_loops_update[OF i, of k DOver] unfolding fl ln line_inv_def by (auto split: if_splits)
  show "loop_ok ?t l" if "l \<in> set (fq_loops ?t)" for l
  proof -
    have "loop_ok ?t = loop_ok s" by (rule loop_ok_cong) (simp_all add: ln, simp_all add: finish_loop_def)
    moreover have "l = (fq_loops s ! i)\<lparr>dl_wait := DOver\<rparr> \<or> l \<in> set (fq_loops s)" using that set_update_subset_insert unfolding fl by fastforce
    ultimately show ?thesis using inv unfolding line_inv_def by auto
  qed
qed (simp_all add: finish_loop_def)

lemma set_loop_inv:
  assumes inv: "line_inv s" and i: "i < length (fq_loops s)" "dl_wait (fq_loops s ! i) \<noteq> DOver" "wt \<noteq> DOver"
    and ok: "loop_ok s ((fq_loops s ! i)\<lparr>dl_wait := wt\<rparr>)"
  shows "line_inv (set_drain i wt s)"
proof (rule loops_inv[OF inv])
  let ?t = "set_drain i wt s"
  show "length (live_loops (fq_loops ?t) k) = (if sl_running (line_at ?t k) then 1 else 0)" for k
    using inv live_loops_update[OF i(1,2), of k wt] i(3) unfolding line_inv_def by auto
  have "loop_ok ?t = loop_ok s" by (rule loop_ok_cong) simp_all
  then show "loop_ok ?t l" if "l \<in> set (fq_loops ?t)" for l
    using that inv ok set_update_subset_insert[of "fq_loops s" i] unfolding line_inv_def by fastforce
qed (simp_all add: saved_items_def)

lemma loop_next_inv:
  assumes inv: "line_inv s" and i: "i < length (fq_loops s)" "dl_wait (fq_loops s ! i) \<noteq> DOver"
  shows "line_inv (loop_next i s)"
proof (cases "next_pick s (dl_host (fq_loops s ! i))")
  case None
  with finish_loop_inv[OF assms] show ?thesis by (simp add: loop_next_def)
next
  case (Some item)
  let ?h = "dl_host (fq_loops s ! i)" and ?f = "\<lambda>sl. sl\<lparr>sl_currentId := Some (pf_id item)\<rparr>"
  have p: "line_inv (fq_patch ?h ?f s)" using calm_patch[of ?f s ?h] inv by (simp add: calm_line_def)
  have "item \<in> set (items_at s (hostOf ?h))" "pf_paused item = None" using next_pick_mem[OF Some] by auto
  moreover have "ids_ok s (items_at s (hostOf ?h))" using inv by (simp add: line_inv_def)
  ultimately have "loop_ok (fq_patch ?h ?f s) ((fq_loops s ! i)\<lparr>dl_wait := DList item\<rparr>)"
    by (auto simp: loop_ok_def loop_item_def ids_ok_def dest: inj_onD simp: distinct_map)
  then have "line_inv (set_drain i (DList item) (fq_patch ?h ?f s))" using set_loop_inv[OF p] i by simp
  with Some show ?thesis by (simp add: loop_next_def)
qed


lemma loop_next_keeps:
  "items_at (loop_next i s) k = items_at s k" "id_old (loop_next i s) = id_old s" "fq_runs (loop_next i s) = fq_runs s"
  "fq_fs (loop_next i s) = fq_fs s" "fq_runners (loop_next i s) = fq_runners s" "fq_pausing (loop_next i s) = fq_pausing s"
  "\<exists>wt. fq_loops (loop_next i s) = (fq_loops s)[i := (fq_loops s ! i)\<lparr>dl_wait := wt\<rparr>]"
  by (auto simp: loop_next_def finish_loop_def Let_def split: option.split)

lemma calm_drain: "calm_line s (drainFsUploadQueue host s)"
proof (cases "sl_running (line_at s (hostOf host)) \<or> fu_active (fsUploadForHost (fq_fs s) host) \<noteq> None \<or> next_pick s host = None")
  case True
  then show ?thesis by (simp add: drainFsUploadQueue_def queueFor_line)
next
  case False
  let ?n = "length (fq_loops s)" and ?f = "\<lambda>sl. sl\<lparr>sl_running := True\<rparr>" and ?l = "\<lparr>dl_host = host, dl_wait = DGo\<rparr>"
  let ?t = "(fq_patch host ?f s)\<lparr>fq_loops := fq_loops s @ [?l]\<rparr>"
  have d: "drainFsUploadQueue host s = loop_next ?n ?t" using False by (auto simp: drainFsUploadQueue_def queueFor_line Let_def)
  show ?thesis unfolding calm_line_def d
  proof (intro impI conjI)
    assume inv: "line_inv s"
    have "line_inv ?t"
    proof (rule loops_inv[OF inv])
      have "saved_items ?t k = items_at ?t k" for k using saved_patch[of host ?f s k] by (simp add: saved_items_def)
      then show "(\<forall>k. saved_items ?t k = saved_items s k) \<or> (\<forall>k. saved_items ?t k = items_at ?t k)" by blast
      show "length (live_loops (fq_loops ?t) k) = (if sl_running (line_at ?t k) then 1 else 0)" for k
        using inv False by (auto simp: line_inv_def live_loops_def)
      have "loop_ok ?t = loop_ok s" by (rule loop_ok_cong) simp_all
      then show "loop_ok ?t l" if "l \<in> set (fq_loops ?t)" for l using that inv by (auto simp: line_inv_def)
    qed simp_all
    then show "line_inv (loop_next ?n ?t)" by (rule loop_next_inv) simp_all
    show "quiet_line s (loop_next ?n ?t)" by (rule quietI) (auto simp: loop_next_keeps)
  next
    show "\<exists>ls. fq_loops (loop_next ?n ?t) = fq_loops s @ ls" using loop_next_keeps(7)[of ?n ?t] by auto
  qed
qed

lemma calm_fold: "(\<And>x t. calm_line t (g x t)) \<Longrightarrow> calm_line s (fold g xs s)"
  by (induction xs arbitrary: s) (auto intro: calm_trans)

lemma calm_drain_all: "calm_line s (drain_all s)"
  unfolding drain_all_def by (rule calm_fold) (rule calm_drain)

lemma calm_park_open: "calm_line s (park_open host why st err s)"
proof -
  let ?n = "fq_seq s + 1" and ?i = "fsq_id (fq_now s) (fq_seq s + 1)"
  obtain item where item: "pf_id item = ?i" "pf_paused item = Some why"
    and p: "park_open host why st err s = on_fs (fs_patch host (\<lambda>u. u\<lparr>fu_stopped := None\<rparr>))
      (fq_patch host (\<lambda>sl. sl\<lparr>sl_items := item # sl_items sl\<rparr>) (s\<lparr>fq_seq := ?n\<rparr>))"
    by (rule that[of "\<lparr>pf_id = ?i, pf_request = park_request host ?i st, pf_allowedExisting = map nameKey (names (park_request host ?i st)),
          pf_paused = Some why, pf_sendNowAt = None, pf_error = err\<rparr>"]) (simp_all add: park_open_def Let_def)
  let ?t = "fq_patch host (\<lambda>sl. sl\<lparr>sl_items := item # sl_items sl\<rparr>) (s\<lparr>fq_seq := ?n\<rparr>)"
  have "calm_line s ?t" unfolding calm_line_def
  proof (intro impI conjI)
    assume inv: "line_inv s"
    have new: "\<not> id_old s ?i" using inv by (intro fresh_pick_id) (simp add: line_inv_def)
    have old: "ids_ok s (items_at s (hostOf host))" using inv by (simp add: line_inv_def)
    then have "ids_ok (s\<lparr>fq_seq := ?n\<rparr>) (item # items_at s (hostOf host))"
      using new fresh_id_old[of s] id_old_seq[of s ?n] item(1) by (auto simp: ids_ok_def)
    then show "line_inv ?t" using new item by (intro patch_inv[OF inv]) auto
    have "\<exists>f. ids_at ?t k = f @ ids_at s k \<and> (\<forall>i \<in> set f. \<not> id_old s i)" for k
      using new item(1) by (intro exI[of _ "if k = hostOf host then [?i] else []"]) simp
    then show "quiet_line s ?t" using id_old_seq[of s ?n] by (auto simp: quiet_line_def)
  qed simp
  then show ?thesis unfolding p by (rule calm_trans) simp
qed

lemma calm_park_close: "calm_line s (park_close host inQueue s)"
  by (simp add: park_close_def Let_def calm_then)

lemma calm_notify_from: "calm_line s (notify_from es s)"
proof (induction es s rule: notify_from.induct)
  case (1 s)
  then show ?case by (simp add: calm_drain_all)
next
  case (2 key why es s)
  let ?s1 = "s\<lparr>fq_pausing := AList.delete key (fq_pausing s)\<rparr>"
  show ?case
  proof (cases "fu_active (fsUploadForHost (fq_fs s) key) \<noteq> None \<or> fu_stopped (fsUploadForHost (fq_fs s) key) = None")
    case True
    have "calm_line s ?s1" by simp
    with True 2(1,2) show ?thesis by (auto simp: Let_def intro: calm_trans[of s ?s1])
  next
    case False
    then obtain st where st: "fu_stopped (fsUploadForHost (fq_fs s) key) = Some st" "fu_active (fsUploadForHost (fq_fs s) key) = None" by auto
    have "calm_line s ?s1" by simp
    also have "calm_line ?s1 (park_open key why st None ?s1)" by (rule calm_park_open)
    also have "calm_line \<dots> (notify_from es (park_open key why st None ?s1))" using 2(3)[OF refl refl refl] st by simp
    also have "calm_line \<dots> (park_close key (sl_running (fsUploadQueueFor s key)) (notify_from es (park_open key why st None ?s1)))" by (rule calm_park_close)
    also have "calm_line \<dots> (drain_all (park_close key (sl_running (fsUploadQueueFor s key)) (notify_from es (park_open key why st None ?s1))))" by (rule calm_drain_all)
    finally show ?thesis using st by (simp add: Let_def)
  qed
qed

lemma calm_notify: "calm_line s (notify s)"
  unfolding notify_def by (rule calm_notify_from)

lemma calm_tell: "calm_line s (tell host w s)"
  by (simp add: tell_def calm_notify)

lemma calm_parkStopped: "calm_line s (parkStopped host why st err inQueue s)"
  unfolding parkStopped_def by (rule calm_trans[OF calm_trans[OF calm_park_open calm_notify] calm_park_close])


section \<open>Copies\<close>

text \<open>A copy keeps its request through all its answers.\<close>

abbreviation req_of :: "fs_run \<times> fs_world \<Rightarrow> FsUploadRequest" where
  "req_of rw \<equiv> rn_req (fst rw)"

lemma req_ends [simp]: "req_of (end_run r w) = rn_req r" "req_of (fail_run e r w) = rn_req r" "req_of (stop_step failed r w) = rn_req r"
  by (simp_all add: end_run_def fail_run_def stop_step_def Let_def split: option.split)

lemma req_starts [simp]: "req_of (mint new r w) = rn_req r" "req_of (do_start d r w) = rn_req r" "req_of (after_attach d r w) = rn_req r"
  by (simp_all add: mint_def do_start_def after_attach_def split: FsUploadStep.split)

lemma req_attempt_top [simp]: "req_of (attempt_top d r w) = rn_req r"
  by (simp add: attempt_top_def Let_def)

lemma req_open_attempts [simp]: "req_of (open_attempts d folder r w) = rn_req r"
  by (simp add: open_attempts_def)

lemma req_loop_top [simp]: "req_of (loop_top d r w) = rn_req r"
proof (induction d r w rule: loop_top.induct)
  case (1 d r w)
  have m: "rn_req r1 = rn_req r" if "mint new r w = (r1, w1)" for new r1 w1 using req_starts(1)[of new r w] that by simp
  show ?case using 1 by (subst loop_top.simps) (auto simp: Let_def m split: FsUploadStep.split option.split prod.split)
qed

lemma req_settleList [simp]: "rn_req (settleList l r) = rn_req r"
  by (simp add: settleList_def split: FsUploadStep.split prod.split)

lemma req_after_attempts [simp]: "req_of (after_attempts d failed r w) = rn_req r"
  by (simp add: after_attempts_def)

lemma req_retry_wait [simp]: "req_of (retry_wait d ms r w) = rn_req r"
  by (simp add: retry_wait_def)

lemma req_attempt_failed [simp]: "req_of (attempt_failed d e r w) = rn_req r"
  by (simp add: attempt_failed_def Let_def)

lemma req_have_job [simp]: "req_of (have_job j r w) = rn_req r"
  by (simp add: have_job_def Let_def)

lemma req_report_snap [simp]: "req_of (report_snap sn r w) = rn_req r"
  by (simp add: report_snap_def Let_def)

lemma req_start_over [simp]: "req_of (start_over d r w) = rn_req r"
proof -
  have m: "rn_req r1 = rn_req r" if "mint new r w = (r1, w1)" for new r1 w1 using req_starts(1)[of new r w] that by simp
  show ?thesis by (auto simp: start_over_def m split: option.split prod.split)
qed

lemma req_answers [simp]:
  "req_of (poll_answer d a r w) = rn_req r" "req_of (attach_answer d a r w) = rn_req r"
  "req_of (unsettled_answer d a r w) = rn_req r" "req_of (dest_answer d l r w) = rn_req r" "req_of (start_answer d b r w) = rn_req r"
  by (simp_all add: poll_answer_def attach_answer_def unsettled_answer_def dest_answer_def start_answer_def Let_def
      split: sum.split prod.split)

lemma req_parent_answer [simp]: "req_of (parent_answer d l r w) = rn_req r"
  by (auto simp: parent_answer_def split: sum.split option.split)

lemma req_answer [simp]: "req_of (fs_answer d reply r w) = rn_req r"
  by (simp add: fs_answer_def split: fs_wait.split fs_reply.split sum.split option.split)

lemma copies_inv:
  assumes inv: "line_inv s" and len: "length (fq_runs s) \<le> length rs" and req: "\<And>j. j < length (fq_runs s) \<Longrightarrow> rn_req (rs ! j) = rn_req (fq_runs s ! j)"
  shows "line_inv (s\<lparr>fq_runs := rs\<rparr>)"
proof (rule loops_inv[OF inv])
  show "loop_ok (s\<lparr>fq_runs := rs\<rparr>) l" if "l \<in> set (fq_loops (s\<lparr>fq_runs := rs\<rparr>))" for l
  proof -
    have l: "loop_ok s l" using inv that by (simp add: line_inv_def)
    show ?thesis
    proof (rule loop_okI)
      show "id_old (s\<lparr>fq_runs := rs\<rparr>) (pf_id it)" if "loop_item l = Some it" for it
        unfolding id_old_keeps using that by (rule loop_okD(1)[OF l])
      show "pf_paused x = None" if "loop_item l = Some it" "x \<in> set (items_at (s\<lparr>fq_runs := rs\<rparr>) (hostOf (dl_host l)))" "pf_id x = pf_id it" for it x
        using that unfolding line_keeps by (rule loop_okD(2)[OF l])
      show "j < length (fq_runs (s\<lparr>fq_runs := rs\<rparr>)) \<and> rn_req (fq_runs (s\<lparr>fq_runs := rs\<rparr>) ! j) = pf_request it" if "dl_wait l = DRun it j" for it j
        using loop_okD(3)[OF l that] len req by force
    qed
  qed
qed (use inv in \<open>simp_all add: line_inv_def saved_items_def\<close>)

lemma calm_runs:
  assumes "length (fq_runs s) \<le> length rs" "\<And>j. j < length (fq_runs s) \<Longrightarrow> rn_req (rs ! j) = rn_req (fq_runs s ! j)"
  shows "calm_line s (s\<lparr>fq_runs := rs\<rparr>)"
  using copies_inv[OF _ assms] assms by (auto simp: calm_line_def intro!: quietI)

lemma calm_add_run [simp]: "calm_line s (s\<lparr>fq_runs := fq_runs s @ [r]\<rparr>)"
  by (rule calm_runs) (simp_all add: nth_append)

lemma calm_start_copy: "calm_line s (start_copy d req s)"
proof -
  let ?a = "on_fs (fs_patch (rq_host req) (\<lambda>u. u\<lparr>fu_stopped := None, fu_cancelRequested := False, fu_unreadable := []\<rparr>)) s"
  let ?s1 = "on_fs fs_save (notify ?a)"
  have s1: "calm_line s ?s1" by (rule calm_then(6)[OF calm_trans[OF _ calm_notify]]) simp
  have "calm_line s (tell (rq_host req) (fq_fs ?s1) (?s1\<lparr>fq_fs := w, fq_runs := fq_runs ?s1 @ [r]\<rparr>))" for r w
  proof -
    have "calm_line s (?s1\<lparr>fq_fs := w\<rparr>)" using s1 by (rule calm_then)
    also have "calm_line (?s1\<lparr>fq_fs := w\<rparr>) (?s1\<lparr>fq_fs := w, fq_runs := fq_runs ?s1 @ [r]\<rparr>)"
      using calm_add_run[of "?s1\<lparr>fq_fs := w\<rparr>" r] by simp
    finally show ?thesis by (rule calm_trans[OF _ calm_tell])
  qed
  then show ?thesis by (simp add: start_copy_def Let_def split: prod.split)
qed

lemma fq_runs_fs: "fq_runs (s\<lparr>fq_fs := w\<rparr>) = fq_runs s"
  by simp

lemma calm_answer_copy: "calm_line s (answer_copy d i reply s)"
proof -
  have "calm_line s (tell h (fq_fs s) (s\<lparr>fq_fs := w, fq_runs := (fq_runs s)[i := r]\<rparr>))"
    if "fs_answer d reply (fq_runs s ! i) (fq_fs s) = (r, w)" for r w h
  proof -
    have "rn_req r = rn_req (fq_runs s ! i)" using req_answer[of d reply "fq_runs s ! i" "fq_fs s"] that by simp
    then have "calm_line (s\<lparr>fq_fs := w\<rparr>) (s\<lparr>fq_fs := w, fq_runs := (fq_runs s)[i := r]\<rparr>)"
      by (intro calm_runs) (simp, metis fq_runs_fs length_list_update nth_list_update_eq nth_list_update_neq)
    then show ?thesis using calm_trans[OF calm_keeps(4) calm_trans[OF _ calm_tell]] by blast
  qed
  then show ?thesis by (simp add: answer_copy_def split: prod.split)
qed

text \<open>The run that a start adds.\<close>

lemma runs_drain [simp]: "fq_runs (drainFsUploadQueue host s) = fq_runs s"
  by (simp add: drainFsUploadQueue_def loop_next_keeps Let_def)

lemma runs_drain_all [simp]: "fq_runs (drain_all s) = fq_runs s"
proof -
  have "fq_runs (fold drainFsUploadQueue hs s) = fq_runs s" for hs by (induction hs arbitrary: s) simp_all
  then show ?thesis by (simp add: drain_all_def)
qed

lemma runs_notify [simp]: "fq_runs (notify s) = fq_runs s"
proof -
  have "fq_runs (notify_from es s) = fq_runs s" for es
    by (induction es s rule: notify_from.induct)
      (auto simp: Let_def park_open_def park_close_def on_fs_def split: option.split)
  then show ?thesis by (simp add: notify_def)
qed

lemma start_copy_run:
  "length (fq_runs (start_copy d req s)) = length (fq_runs s) + 1 \<and> rn_req (fq_runs (start_copy d req s) ! length (fq_runs s)) = req"
proof -
  have n: "rn_req (new_run n req) = req" for n by (simp add: new_run_def)
  have "rn_req r1 = req" if "loop_top d (new_run n req) w = (r1, w1)" for n w r1 w1
    using req_loop_top[of d "new_run n req" w] that n by simp
  with n show ?thesis
    by (auto simp: start_copy_def Let_def on_fs_def tell_def nth_append split: prod.split)
qed


section \<open>Loops after an answer\<close>

lemma quiet_loop: "quiet_line s (finish_loop i s)" "quiet_line s (loop_next i s)"
  by (rule quietI; auto simp: finish_loop_def loop_next_keeps)+

text \<open>A loop that goes on after a calm change.\<close>

lemma loop_after:
  assumes "calm_line s t" "line_inv s" "i < length (fq_loops s)" "dl_wait (fq_loops s ! i) \<noteq> DOver"
  shows "line_inv (loop_next i t) \<and> quiet_line s (loop_next i t)" "line_inv (finish_loop i t) \<and> quiet_line s (finish_loop i t)"
proof -
  have "line_inv t" "quiet_line s t" "i < length (fq_loops t)" "dl_wait (fq_loops t ! i) \<noteq> DOver"
    using assms calmD calm_loop by fastforce+
  then show "line_inv (loop_next i t) \<and> quiet_line s (loop_next i t)" "line_inv (finish_loop i t) \<and> quiet_line s (finish_loop i t)"
    using quiet_loop loop_next_inv finish_loop_inv quiet_trans by blast+
qed

lemma calm_held: "calm_line s (fq_settleSendNow host (fq_patch host (\<lambda>sl. sl\<lparr>sl_paused := True\<rparr>) s))"
  by (rule calm_trans[OF calm_patch calm_fq_settleSendNow]) simp_all

lemma loop_fails_ok:
  assumes "line_inv s" "i < length (fq_loops s)" "dl_wait (fq_loops s ! i) \<noteq> DOver"
  shows "line_inv (loop_fails i err s) \<and> quiet_line s (loop_fails i err s)"
proof -
  have "calm_line s (fq_settleSendNow h (fq_patch h (\<lambda>sl. sl\<lparr>sl_paused := True, sl_error := Some err\<rparr>) s))" for h
    by (rule calm_trans[OF calm_patch calm_fq_settleSendNow]) simp_all
  from loop_after(2)[OF this assms] show ?thesis by (simp add: loop_fails_def Let_def)
qed

lemma list_answer_ok:
  assumes inv: "line_inv s" and i: "i < length (fq_loops s)" "dl_wait (fq_loops s ! i) = DList item"
  shows "line_inv (list_answer d i a item s) \<and> quiet_line s (list_answer d i a item s)"
proof -
  let ?t = "start_copy d (pf_request item) s" and ?n = "length (fq_runs s)"
  have c: "calm_line s ?t" by (rule calm_start_copy)
  have t: "line_inv ?t" "quiet_line s ?t" "i < length (fq_loops ?t)" "dl_wait (fq_loops ?t ! i) = DList item"
    using calmD[OF c inv] calm_loop[OF c i(1)] i(2) by auto
  then have l: "loop_ok ?t (fq_loops ?t ! i)" by (simp add: line_inv_def)
  have item: "loop_item (fq_loops ?t ! i) = Some item" using t(4) by (simp add: loop_item_def)
  have "loop_ok ?t ((fq_loops ?t ! i)\<lparr>dl_wait := DRun item ?n\<rparr>)"
    using loop_okD(1,2)[OF l item] start_copy_run[of d "pf_request item" s] by (simp add: loop_ok_def loop_item_def)
  then have "line_inv (set_drain i (DRun item ?n) ?t)" using t by (intro set_loop_inv) simp_all
  moreover have "quiet_line ?t (set_drain i (DRun item ?n) ?t)" by (rule quietI) simp_all
  ultimately have "line_inv (set_drain i (DRun item ?n) ?t) \<and> quiet_line s (set_drain i (DRun item ?n) ?t)" using t(2) quiet_trans by blast
  moreover have "line_inv (loop_fails i err s) \<and> quiet_line s (loop_fails i err s)" for err using loop_fails_ok[OF inv i(1)] i(2) by simp
  ultimately show ?thesis by (simp add: list_answer_def Let_def split: sum.split)
qed

text \<open>A pick taken out of the line.\<close>

definition drop_item :: "string \<Rightarrow> string \<Rightarrow> fq_sys \<Rightarrow> fq_sys" where
  "drop_item host i = fq_patch host (\<lambda>sl. sl\<lparr>sl_items := filter (\<lambda>x. pf_id x \<noteq> i) (sl_items sl)\<rparr>)"

lemma drop_keeps [simp]:
  "items_at (drop_item host i s) k = (if k = hostOf host then filter (\<lambda>x. pf_id x \<noteq> i) (items_at s k) else items_at s k)"
  "id_old (drop_item host i s) = id_old s" "fq_loops (drop_item host i s) = fq_loops s" "fq_runs (drop_item host i s) = fq_runs s"
  by (simp_all add: drop_item_def)

lemma drop_inv: "line_inv s \<Longrightarrow> line_inv (drop_item host i s)"
proof -
  assume inv: "line_inv s"
  let ?f = "\<lambda>sl. sl\<lparr>sl_items := filter (\<lambda>x. pf_id x \<noteq> i) (sl_items sl)\<rparr>"
  have "ids_ok s (items_at s (hostOf host))" using inv by (simp add: line_inv_def)
  then have "ids_ok s (filter (\<lambda>x. pf_id x \<noteq> i) (items_at s (hostOf host)))" by (simp add: ids_ok_def distinct_map_filter)
  then have "line_inv (fq_patch host ?f (s\<lparr>fq_seq := fq_seq s\<rparr>))" by (intro patch_inv[OF inv]) auto
  then show "line_inv (drop_item host i s)" by (simp add: drop_item_def)
qed

lemma copy_over_ok:
  assumes inv: "line_inv s" and l: "i < length (fq_loops s)" "dl_wait (fq_loops s ! i) = DRun item j"
  defines "h \<equiv> dl_host (fq_loops s ! i)"
  shows "line_inv (copy_over i item okay err s)
    \<and> (if err = Some FS_UPLOAD_BUSY then quiet_line s (copy_over i item okay err s)
       else quiet_line (drop_item h (pf_id item) s) (copy_over i item okay err s))"
proof (cases "err = Some FS_UPLOAD_BUSY")
  case True
  with loop_after(2)[OF calm_refl inv l(1)] l(2) show ?thesis by (simp add: copy_over_def Let_def)
next
  case False
  let ?s1 = "drop_item h (pf_id item) s"
  have s1: "line_inv ?s1" "i < length (fq_loops ?s1)" "dl_wait (fq_loops ?s1 ! i) \<noteq> DOver" using drop_inv[OF inv] l by auto
  note after = loop_after[OF _ s1]
  have "calm_line ?s1 (fq_settleSendNow h (?s1\<lparr>fq_parked := p\<rparr>))" for p by (rule calm_trans[OF calm_keeps(3) calm_fq_settleSendNow])
  moreover have "calm_line ?s1 (fq_settleSendNow h ((parkStopped h w st e q ?s1)\<lparr>fq_parked := p\<rparr>))" for w st e q p
    by (rule calm_trans[OF calm_then(3)[OF calm_parkStopped] calm_fq_settleSendNow])
  ultimately show ?thesis using False after calm_held calm_fq_settleSendNow
    unfolding copy_over_def Let_def h_def[symmetric] drop_item_def[symmetric] by (simp split: option.split)
qed


section \<open>What the person does\<close>

lemma map_items_inv:
  assumes inv: "line_inv s" and ids: "\<And>x. pf_id (g x) = pf_id x"
    and paused: "\<And>x. x \<in> set (items_at s (hostOf host)) \<Longrightarrow> pf_paused (g x) \<noteq> None \<Longrightarrow> pf_paused x \<noteq> None"
    and f: "sl_items (f (line_at s (hostOf host))) = map g (items_at s (hostOf host))" "\<And>sl. sl_running (f sl) = sl_running sl"
  shows "line_inv (fq_patch host f s)"
proof -
  have "ids_ok s (items_at s (hostOf host))" using inv by (simp add: line_inv_def)
  then have "ids_ok s (map g (items_at s (hostOf host)))" by (rule ids_ok_map[rotated]) (simp add: ids comp_def)
  then have "line_inv (fq_patch host f (s\<lparr>fq_seq := fq_seq s\<rparr>))"
    using paused by (intro patch_inv[OF inv]) (auto simp: f ids)
  then show ?thesis by simp
qed

lemma append_item_inv:
  assumes inv: "line_inv s" and item: "pf_id item = fsq_id (fq_now s) (fq_seq s + 1)" "pf_paused item = None"
  shows "line_inv (fq_patch host (\<lambda>sl. sl\<lparr>sl_items := sl_items sl @ [item]\<rparr>) (s\<lparr>fq_seq := fq_seq s + 1\<rparr>))"
proof -
  have new: "\<not> id_old s (pf_id item)" using inv fresh_pick_id[of s] item(1) by (simp add: line_inv_def)
  have "ids_ok s (items_at s (hostOf host))" using inv by (simp add: line_inv_def)
  then have "ids_ok (s\<lparr>fq_seq := fq_seq s + 1\<rparr>) (items_at s (hostOf host) @ [item])"
    using new fresh_id_old[of s] id_old_seq[of s "fq_seq s + 1"] item(1) by (auto simp: ids_ok_def)
  with item(2) show ?thesis by (intro patch_inv[OF inv]) auto
qed

lemma enqueue_ok:
  fixes req existing
  assumes inv: "line_inv s"
  defines "t \<equiv> enqueueFsUpload req existing s"
  shows "line_inv t \<and> ids_at t k = ids_at s k @ (if k = hostOf (rq_host req) then [fsq_id (fq_now s) (fq_seq s + 1)] else [])
    \<and> set (items_at s k) \<subseteq> set (items_at t k)"
proof -
  let ?i = "fsq_id (fq_now s) (fq_seq s + 1)" and ?h = "rq_host req"
  obtain item where item: "pf_id item = ?i" "pf_paused item = None"
    and t: "t = drainFsUploadQueue ?h (set_runner ?h (fq_patch ?h (\<lambda>sl. sl\<lparr>sl_items := sl_items sl @ [item]\<rparr>) (s\<lparr>fq_seq := fq_seq s + 1\<rparr>)))"
    by (rule that[of "\<lparr>pf_id = ?i, pf_request = req\<lparr>rq_queueId := Some ?i\<rparr>, pf_allowedExisting = map (\<lambda>e. nameKey (en_name e)) existing,
          pf_paused = None, pf_sendNowAt = None, pf_error = None\<rparr>"]) (simp_all add: t_def enqueueFsUpload_def Let_def)
  let ?s1 = "fq_patch ?h (\<lambda>sl. sl\<lparr>sl_items := sl_items sl @ [item]\<rparr>) (s\<lparr>fq_seq := fq_seq s + 1\<rparr>)"
  have s1: "line_inv ?s1" by (rule append_item_inv[OF inv item])
  moreover have "calm_line ?s1 t" unfolding t by (rule calm_trans[OF calm_keeps(7) calm_drain])
  moreover have "items_at t k = items_at ?s1 k"
    by (simp add: t drainFsUploadQueue_def set_runner_def Let_def loop_next_keeps)
  ultimately show ?thesis using item(1) by (auto simp: calm_line_def)
qed

lemma remove_ok:
  assumes inv: "line_inv s"
  shows "removeFsUploadQueued host i deps s = s
    \<or> line_inv (removeFsUploadQueued host i deps s) \<and> quiet_line (drop_item host i s) (removeFsUploadQueued host i deps s)"
proof -
  have "calm_line (drop_item host i s) (fq_settleSendNow host ((drop_item host i s)\<lparr>fq_discarded := p\<rparr>))" for p
    by (rule calm_trans[OF calm_keeps(5) calm_fq_settleSendNow])
  moreover have "calm_line (drop_item host i s) (fq_settleSendNow host (drop_item host i s))" by (rule calm_fq_settleSendNow)
  ultimately show ?thesis using drop_inv[OF inv, of host i]
    unfolding removeFsUploadQueued_def Let_def drop_item_def[symmetric] by (auto simp: calm_line_def split: option.split)
qed

lemma calm_pause: "calm_line s (pauseFsUpload host why s)"
  unfolding pauseFsUpload_def using calm_trans[OF calm_then(6)[OF calm_keeps(2)] calm_notify] by auto

lemma resume_item_ok:
  fixes host i
  assumes inv: "line_inv s"
  defines "t \<equiv> resumeFsUploadItem host i s"
  shows "line_inv t \<and> (\<forall>k. ids_at t k = ids_at s k)
    \<and> (\<forall>k. \<forall>x \<in> set (items_at s k). k \<noteq> hostOf host \<or> pf_id x \<noteq> i \<longrightarrow> x \<in> set (items_at t k))"
proof -
  let ?g = "\<lambda>x. if pf_id x = i then x\<lparr>pf_paused := None, pf_error := None\<rparr> else x"
  let ?s1 = "fq_patch host (\<lambda>sl. sl\<lparr>sl_items := map ?g (sl_items sl), sl_paused := False, sl_error := None\<rparr>) (set_runner host s)"
  have "line_inv (set_runner host s)" using calmD(1)[OF calm_keeps(7) inv] .
  then have s1: "line_inv ?s1" by (rule map_items_inv[where g = ?g]) (auto split: if_splits)
  then have d: "line_inv (drainFsUploadQueue host ?s1)" using calmD(1)[OF calm_drain] by blast
  have it: "items_at (drainFsUploadQueue host ?s1) k = (if k = hostOf host then map ?g (items_at s k) else items_at s k)" for k
    by (simp add: drainFsUploadQueue_def set_runner_def Let_def loop_next_keeps)
  have "t = s \<or> t = drainFsUploadQueue host ?s1" by (simp add: t_def resumeFsUploadItem_def)
  then show ?thesis
  proof
    assume "t = drainFsUploadQueue host ?s1"
    with d it show ?thesis by (auto simp: comp_def image_iff)
  qed (simp add: inv)
qed

lemma send_now_ok:
  assumes inv: "line_inv s"
  shows "line_inv (sendFsUploadNow host i s) \<and> quiet_line s (sendFsUploadNow host i s)"
proof (cases "\<exists>x \<in> set (items_at s (hostOf host)). pf_id x = i \<and> pf_paused x = None")
  case False
  then show ?thesis using inv by (auto simp: sendFsUploadNow_def queueFor_line Let_def)
next
  case True
  let ?g = "\<lambda>n x. if pf_id x = i then x\<lparr>pf_sendNowAt := Some n\<rparr> else x"
  let ?s1 = "\<lambda>n. fq_patch host (\<lambda>sl. sl\<lparr>sl_items := map (?g n) (sl_items sl)\<rparr>) (set_runner host s)"
  have r: "line_inv (set_runner host s)" using calmD(1)[OF calm_keeps(7) inv] .
  have i1: "line_inv (?s1 n)" for n by (rule map_items_inv[OF r, where g = "?g n"]) (auto split: if_splits)
  have ids: "ids_ok s (items_at s (hostOf host))" using inv by (simp add: line_inv_def)
  have rq: "line_at (set_runner host s) k = line_at s k" "id_old (set_runner host s) = id_old s" "fq_runs (set_runner host s) = fq_runs s" for k
    by (auto simp: set_runner_def)
  have "x \<in> set (items_at (?s1 n) k)" if "x \<in> set (items_at s k)" "pf_paused x = Some PauseUser" for n k x
  proof (cases "k = hostOf host")
    case k: True
    then have "pf_id x \<noteq> i" using ids that True unfolding ids_ok_def distinct_map inj_on_def by fastforce
    with k that rq show ?thesis by (auto simp: image_iff)
  qed (use that rq in auto)
  then have q1: "quiet_line s (?s1 n)" for n by (intro quietI) (auto simp: rq comp_def)
  have "line_inv t \<and> quiet_line s t" if "calm_line (?s1 n) t" for n t
    using calmD[OF that i1] quiet_trans[OF q1] by blast
  then have "line_inv (pauseFsUpload host PauseSendNow (?s1 n)) \<and> quiet_line s (pauseFsUpload host PauseSendNow (?s1 n))"
    "line_inv (drainFsUploadQueue host (?s1 n)) \<and> quiet_line s (drainFsUploadQueue host (?s1 n))" for n
    using calm_pause calm_drain by blast+
  with True show ?thesis by (auto simp: sendFsUploadNow_def queueFor_line Let_def)
qed

lemma calm_lines: "calm_line s (pauseFsUploadQueue host s)" "calm_line s (resumeFsUploadQueue host s)" "calm_line s (resume_card d host s)"
  "calm_line s (resumeStoppedFsUploadOnWake d a host s)"
proof -
  show "calm_line s (pauseFsUploadQueue host s)" unfolding pauseFsUploadQueue_def by (rule calm_patch) simp_all
  show "calm_line s (resumeFsUploadQueue host s)" unfolding resumeFsUploadQueue_def
    by (rule calm_trans[OF calm_trans[OF calm_keeps(7) calm_patch] calm_drain]) simp_all
  show "calm_line s (resume_card d host s)" unfolding resume_card_def Let_def by (simp add: calm_start_copy split: option.split)
  then show "calm_line s (resumeStoppedFsUploadOnWake d a host s)" unfolding resumeStoppedFsUploadOnWake_def Let_def by (simp split: option.split)
qed


section \<open>Restart\<close>

definition loaded :: "fq_sys \<Rightarrow> string \<Rightarrow> PendingFsUpload list" where
  "loaded s k =
     (let w = restoreFsUploads ((fq_fs s)\<lparr>fw_byHost := Map.empty, fw_inflight := Map.empty\<rparr>)
      in filter (\<lambda>i. Some (pf_id i) \<noteq> Option.bind (fu_stopped (fsUploadForHost w k)) st_queueId) (saved_items s k))"

lemma unpause_sent_Nil [simp]: "unpause_sent [] = []"
  by (simp add: unpause_sent_def)

lemma restart_line:
  "items_at (fq_restart s) k = (if sending_now (loaded s k) then loaded s k else unpause_sent (loaded s k))"
  "\<not> sl_running (line_at (fq_restart s) k)"
  by (simp_all add: fq_restart_def line_at_def loaded_def saved_items_def load_slot_def QUEUE_IDLE_def Let_def
      split: option.split)

lemma restart_ids: "ids_at (fq_restart s) k = map pf_id (loaded s k)"
  by (simp add: restart_line)

lemma restart_old: "line_inv s \<Longrightarrow> id_old s i \<Longrightarrow> id_old (fq_restart s) i"
  by (fastforce simp: id_old_def fq_restart_def line_inv_def Let_def)

lemma restart_line_inv:
  assumes inv: "line_inv s"
  shows "line_inv (fq_restart s)"
proof -
  let ?t = "fq_restart s"
  have saved: "saved_items ?t k = saved_items s k" for k by (simp add: fq_restart_def saved_items_def Let_def)
  have "ids_ok s (saved_items s k)" for k using inv by (simp add: line_inv_def)
  then have ok: "ids_ok ?t (saved_items s k)" "ids_ok ?t (loaded s k)" for k
    using restart_old[OF inv] by (auto simp: ids_ok_def loaded_def Let_def distinct_map_filter)
  have "ids_ok ?t (items_at ?t k)" for k by (rule ids_ok_map[OF restart_ids ok(2)])
  moreover have "saved_ok (items_at ?t k) (saved_items s k)" for k
  proof -
    have sub: "set (loaded s k) \<subseteq> set (saved_items s k)" by (auto simp: loaded_def Let_def)
    then have "pf_id ` set (items_at ?t k) \<subseteq> pf_id ` set (saved_items s k)"
      using arg_cong[OF restart_ids, of set s k] by auto
    moreover have "x \<in> set (loaded s k)" if "x \<in> set (items_at ?t k)" "pf_paused x = Some PauseUser" for x
      using that unpause_paused[of x] by (auto simp: restart_line split: if_splits)
    ultimately show ?thesis using sub by (auto simp: saved_ok_def)
  qed
  moreover have "fq_loops ?t = []" "fq_started ?t \<le> fq_now ?t" by (simp_all add: fq_restart_def Let_def)
  ultimately show ?thesis using ok(1) restart_line(2)[of s] by (simp add: line_inv_def saved live_loops_def)
qed

section \<open>Events\<close>

lemma tick_ok: "line_inv s \<Longrightarrow> line_inv (s\<lparr>fq_now := fq_now s + 1\<rparr>) \<and> quiet_line s (s\<lparr>fq_now := fq_now s + 1\<rparr>)"
proof -
  assume inv: "line_inv s"
  let ?t = "s\<lparr>fq_now := fq_now s + 1\<rparr>"
  have old: "id_old s i \<Longrightarrow> id_old ?t i" for i by (fastforce simp: id_old_def)
  have "loop_ok ?t l" if "l \<in> set (fq_loops s)" for l
  proof -
    have l: "loop_ok s l" using inv that by (simp add: line_inv_def)
    show ?thesis
    proof (rule loop_okI)
      show "id_old ?t (pf_id it)" if "loop_item l = Some it" for it using loop_okD(1)[OF l that] by (rule old)
      show "pf_paused x = None" if "loop_item l = Some it" "x \<in> set (items_at ?t (hostOf (dl_host l)))" "pf_id x = pf_id it" for it x
        using that unfolding line_keeps by (rule loop_okD(2)[OF l])
    qed (use loop_okD(3)[OF l] in simp)
  qed
  then have "line_inv ?t" using inv old by (auto simp: line_inv_def ids_ok_def saved_items_def)
  moreover have "quiet_line s ?t" using old by (intro quietI) simp_all
  ultimately show "line_inv ?t \<and> quiet_line s ?t" ..
qed

text \<open>What an event does to the line of a console.\<close>

definition event_ok :: "fq_event \<Rightarrow> fq_sys \<Rightarrow> fq_sys \<Rightarrow> bool" where
  "event_ok e s t \<longleftrightarrow>
     (case e of
        QEnqueue req _ \<Rightarrow>
          \<forall>k. ids_at t k = ids_at s k @ (if k = hostOf (rq_host req) then [fsq_id (fq_now s) (fq_seq s + 1)] else [])
            \<and> set (items_at s k) \<subseteq> set (items_at t k)
      | QRemove host i _ \<Rightarrow> t = s \<or> quiet_line (drop_item host i s) t
      | QResumeItem host i \<Rightarrow>
          \<forall>k. ids_at t k = ids_at s k \<and> (\<forall>x \<in> set (items_at s k). k \<noteq> hostOf host \<or> pf_id x \<noteq> i \<longrightarrow> x \<in> set (items_at t k))
      | QOver l \<Rightarrow>
          quiet_line s t \<or> (\<exists>item j okay err. l < length (fq_loops s) \<and> dl_wait (fq_loops s ! l) = DRun item j
             \<and> rn_wait (fq_runs s ! j) = WEnd okay err \<and> err \<noteq> Some FS_UPLOAD_BUSY
             \<and> quiet_line (drop_item (dl_host (fq_loops s ! l)) (pf_id item) s) t)
      | QRestart \<Rightarrow> t = fq_restart s
      | _ \<Rightarrow> quiet_line s t)"

lemma event_overE:
  assumes "event_ok (QOver l) s t"
  obtains "quiet_line s t"
  | item j okay err where "l < length (fq_loops s)" "dl_wait (fq_loops s ! l) = DRun item j" "rn_wait (fq_runs s ! j) = WEnd okay err"
      "err \<noteq> Some FS_UPLOAD_BUSY" "quiet_line (drop_item (dl_host (fq_loops s ! l)) (pf_id item) s) t"
  using assms unfolding event_ok_def by simp blast

lemma over_ok:
  assumes inv: "line_inv s"
  shows "line_inv (drain_event d l None s) \<and> event_ok (QOver l) s (drain_event d l None s)"
proof (cases "\<exists>item j okay err. l < length (fq_loops s) \<and> dl_wait (fq_loops s ! l) = DRun item j \<and> rn_wait (fq_runs s ! j) = WEnd okay err")
  case True
  then obtain item j okay err where l: "l < length (fq_loops s)" "dl_wait (fq_loops s ! l) = DRun item j" "rn_wait (fq_runs s ! j) = WEnd okay err" by blast
  then have "drain_event d l None s = copy_over l item okay err s" by (simp add: drain_event_def)
  with copy_over_ok[OF inv l(1,2), of okay err] l show ?thesis by (auto simp: event_ok_def split: if_splits)
next
  case False
  then have "drain_event d l None s = s" by (auto simp: drain_event_def split: drain_wait.split fs_wait.split)
  with inv show ?thesis by (simp add: event_ok_def)
qed

lemma listing_ok:
  assumes inv: "line_inv s"
  shows "line_inv (drain_event d l (Some a) s) \<and> quiet_line s (drain_event d l (Some a) s)"
proof (cases "\<exists>item. l < length (fq_loops s) \<and> dl_wait (fq_loops s ! l) = DList item")
  case True
  then obtain item where l: "l < length (fq_loops s)" "dl_wait (fq_loops s ! l) = DList item" by blast
  with list_answer_ok[OF inv l] show ?thesis by (simp add: drain_event_def)
next
  case False
  then have "drain_event d l (Some a) s = s" by (auto simp: drain_event_def split: drain_wait.split)
  with inv show ?thesis by simp
qed

lemma event_inv:
  assumes inv: "line_inv s"
  shows "line_inv (fq_do d s e) \<and> event_ok e s (fq_do d s e)"
proof -
  have calm_line: "line_inv t \<and> quiet_line s t" if "calm_line s t" for t using that inv by (simp add: calm_line_def)
  have n: "calm_line s (notify (on_fs f s))" "calm_line s (on_fs g (notify (on_fs f s)))" for f g
    by (rule calm_trans[OF _ calm_notify], simp, rule calm_then(6)[OF calm_trans[OF _ calm_notify]], simp)
  show ?thesis
  proof (cases e)
    case (QEnqueue req existing)
    then show ?thesis using enqueue_ok[OF inv, of req existing] by (simp add: fq_do_def event_ok_def)
  next
    case (QRemove host i deps)
    then show ?thesis using remove_ok[OF inv, of host i deps] inv by (auto simp: fq_do_def event_ok_def)
  next
    case (QResumeItem host i)
    then show ?thesis using resume_item_ok[OF inv, of host i] by (simp add: fq_do_def event_ok_def)
  next
    case (QSendNow host i)
    then show ?thesis using send_now_ok[OF inv] by (simp add: fq_do_def event_ok_def)
  next
    case (QListing l a)
    then show ?thesis using listing_ok[OF inv] by (simp add: fq_do_def event_ok_def)
  next
    case (QOver l)
    then show ?thesis using over_ok[OF inv] by (simp add: fq_do_def)
  next
    case (QDismiss host)
    then show ?thesis using calm_line[OF n(2)] by (simp add: fq_do_def event_ok_def)
  next
    case QTick
    then show ?thesis using tick_ok[OF inv] by (simp add: fq_do_def event_ok_def)
  next
    case QRestart
    then show ?thesis using restart_line_inv[OF inv] by (simp add: fq_do_def event_ok_def)
  qed (use inv n in \<open>auto simp: fq_do_def event_ok_def intro!: calm_line calm_pause calm_lines calm_start_copy calm_answer_copy calm_notify\<close>)
qed

interpretation line: event_machine "fq_do d" line_inv for d
  by unfold_locales (use event_inv in blast)

abbreviation fq_after :: "fs_deps \<Rightarrow> fq_event list \<Rightarrow> fq_sys" where
  "fq_after d es \<equiv> foldl (fq_do d) fq_initial es"

lemma after_inv: "line_inv (fq_after d es)"
proof (rule line.run_inv)
  show "line_inv fq_initial"
    by (simp add: line_inv_def fq_initial_def line_at_def saved_items_def QUEUE_IDLE_def ids_ok_def live_loops_def)
qed


section \<open>Nothing waits for nothing\<close>

definition startable :: "fq_sys \<Rightarrow> string \<Rightarrow> bool" where
  "startable s host \<longleftrightarrow> \<not> sl_running (fsUploadQueueFor s host) \<and> fu_active (fsUploadForHost (fq_fs s) host) = None \<and> next_pick s host \<noteq> None"

lemma next_pick_cong:
  "fsUploadQueueFor t host = fsUploadQueueFor s host \<Longrightarrow> fq_fs t = fq_fs s \<Longrightarrow> next_pick t host = next_pick s host"
  by (simp add: next_pick_def fq_held_def)

lemma fs_host_cong: "hostOf a = hostOf b \<Longrightarrow> fsUploadForHost w a = fsUploadForHost w b"
  by (simp add: fsUploadForHost_def)

lemma startable_host: "hostOf a = hostOf b \<Longrightarrow> startable s a = startable s b"
  unfolding startable_def next_pick_def fq_held_def by (simp add: queueFor_line fs_host_cong[of a b])

lemma pick_running [simp]: "pick (sl\<lparr>sl_running := b\<rparr>) held = pick sl held" "pick (sl\<lparr>sl_currentId := c\<rparr>) held = pick sl held"
  by (simp_all add: pick_def Let_def)

lemma drain_starts: "\<not> startable (drainFsUploadQueue host s) host"
proof (cases "startable s host")
  case False
  then show ?thesis by (auto simp: startable_def drainFsUploadQueue_def)
next
  case True
  let ?t = "(fq_patch host (\<lambda>sl. sl\<lparr>sl_running := True\<rparr>) s)\<lparr>fq_loops := fq_loops s @ [\<lparr>dl_host = host, dl_wait = DGo\<rparr>]\<rparr>"
  have d: "drainFsUploadQueue host s = loop_next (length (fq_loops s)) ?t"
    using True by (auto simp: startable_def drainFsUploadQueue_def Let_def)
  obtain it where "next_pick s host = Some it" using True by (auto simp: startable_def)
  then have "sl_items (line_at s (hostOf host)) \<noteq> []" using next_pick_mem by fastforce
  then have "next_pick ?t host = next_pick s host"
    by (simp add: next_pick_def fq_held_def queueFor_line settle_def)
  with \<open>next_pick s host = Some it\<close> show ?thesis
    by (simp add: d startable_def loop_next_def queueFor_line)
qed

lemma drain_other:
  assumes "startable (drainFsUploadQueue host s) other"
  shows "startable s other \<and> hostOf other \<noteq> hostOf host"
proof
  show o: "hostOf other \<noteq> hostOf host"
  proof
    assume "hostOf other = hostOf host"
    from startable_host[OF this] assms show False by (simp add: drain_starts)
  qed
  have 1: "fsUploadQueueFor (drainFsUploadQueue host s) other = fsUploadQueueFor s other"
    using o by (simp add: drainFsUploadQueue_def loop_next_def finish_loop_def queueFor_line Let_def split: option.split)
  have 2: "fq_fs (drainFsUploadQueue host s) = fq_fs s" by (simp add: drainFsUploadQueue_def loop_next_keeps Let_def)
  show "startable s other" using assms 1 2 next_pick_cong[OF 1 2] by (simp add: startable_def)
qed

lemma drain_all_starts: "host \<in> set (fq_runners s) \<Longrightarrow> \<not> startable (drain_all s) host"
proof -
  have "startable (fold drainFsUploadQueue hs s) host \<Longrightarrow> startable s host \<and> host \<notin> set hs" for hs
    by (induction hs arbitrary: s) (auto dest: drain_other)
  then show "host \<in> set (fq_runners s) \<Longrightarrow> \<not> startable (drain_all s) host" by (auto simp: drain_all_def)
qed

lemma runners_drain [simp]: "fq_runners (drainFsUploadQueue host s) = fq_runners s"
  by (simp add: drainFsUploadQueue_def loop_next_keeps Let_def)

lemma runners_drain_all [simp]: "fq_runners (drain_all s) = fq_runners s"
proof -
  have "fq_runners (fold drainFsUploadQueue hs s) = fq_runners s" for hs by (induction hs arbitrary: s) simp_all
  then show ?thesis by (simp add: drain_all_def)
qed

lemma notify_starts: "fq_runners (notify s) = fq_runners s \<and> (\<forall>host \<in> set (fq_runners s). \<not> startable (notify s) host)"
proof -
  have "fq_runners (notify_from es s) = fq_runners s \<and> (\<forall>host \<in> set (fq_runners s). \<not> startable (notify_from es s) host)" for es
  proof (induction es s rule: notify_from.induct)
    case (1 s)
    then show ?case by (simp add: drain_all_starts)
  next
    case (2 key why es s)
    have p: "fq_runners (park_open h w st e u) = fq_runners u" "fq_runners (park_close h q u) = fq_runners u" for h w st e q u
      by (simp_all add: park_open_def park_close_def on_fs_def Let_def)
    show ?case using 2 drain_all_starts by (auto simp: Let_def p split: option.split)
  qed
  then show ?thesis by (simp add: notify_def)
qed

section \<open>Properties\<close>

lemma items_line: "fq_items s host = items_at s (hostOf host)"
  by (simp add: queueFor_line)

text \<open>Which pick goes next. If a pick that is not paused was sent now, it is one with the earliest stamp, whether or not the line
  is held; otherwise, when the line is not held, it is the first pick of the line that is not paused, and when there is no next
  pick every pick is paused, or the line is held and none was sent now.\<close>

theorem fq_pick_spec:
  "case pick sl held of
     None \<Rightarrow> \<forall>y \<in> set (sl_items sl). pf_paused y \<noteq> None \<or> held \<and> \<not> pick_sent_now y
   | Some x \<Rightarrow> x \<in> set (sl_items sl) \<and> pf_paused x = None \<and>
       (pick_sent_now x \<and> (\<forall>y \<in> set (sl_items sl). pf_paused y = None \<longrightarrow> pick_sent_now y \<longrightarrow> or_zero (pf_sendNowAt x) \<le> or_zero (pf_sendNowAt y))
        \<or> \<not> held \<and> (\<forall>y \<in> set (sl_items sl). pf_paused y \<noteq> None \<or> \<not> pick_sent_now y)
          \<and> (\<exists>ys zs. sl_items sl = ys @ x # zs \<and> (\<forall>y \<in> set ys. pf_paused y \<noteq> None)))"
proof (cases "fold earlier_sent (sl_items sl) None")
  case (Some x)
  then show ?thesis using fold_earlier_mem[OF Some] fold_earlier_least[OF Some] by (simp add: pick_def)
next
  case None
  then have n: "\<forall>y \<in> set (sl_items sl). pf_paused y \<noteq> None \<or> \<not> pick_sent_now y" by (simp add: fold_earlier_None)
  show ?thesis
  proof (cases "\<not> held \<and> find (\<lambda>i. pf_paused i = None) (sl_items sl) \<noteq> None")
    case True
    then obtain x where x: "find (\<lambda>i. pf_paused i = None) (sl_items sl) = Some x" by blast
    then obtain ys zs where "sl_items sl = ys @ x # zs" "pf_paused x = None" "\<forall>y \<in> set ys. pf_paused y \<noteq> None" by (rule find_first)
    with n x None True show ?thesis by (auto simp: pick_def)
  next
    case False
    then have "held \<or> find (\<lambda>i. pf_paused i = None) (sl_items sl) = None" by auto
    then have "pick sl held = None \<and> (held \<or> (\<forall>y \<in> set (sl_items sl). pf_paused y \<noteq> None))"
      using None by (auto simp: pick_def find_None_iff)
    with n show ?thesis by auto
  qed
qed

text \<open>C21. A pick the person paused is never resumed for them. Whatever happens next, a pick that the person paused is still in the line, paused
  and unchanged, unless the person removes or resumes that pick, or the app starts again with a stopped copy of the very same pick
  on its card.\<close>

theorem fq_person_pause:
  assumes "x \<in> set (fq_items (fq_after d es) host)" "pf_paused x = Some PauseUser"
  shows "x \<in> set (fq_items (fq_do d (fq_after d es) e) host)
    \<or> (\<exists>h deps. e = QRemove h (pf_id x) deps \<and> hostOf h = hostOf host)
    \<or> (\<exists>h. e = QResumeItem h (pf_id x) \<and> hostOf h = hostOf host)
    \<or> e = QRestart \<and> Option.bind (fu_stopped (fsUploadForHost (fq_fs (fq_do d (fq_after d es) e)) (hostOf host))) st_queueId = Some (pf_id x)"
proof -
  let ?s = "fq_after d es" and ?k = "hostOf host"
  let ?t = "fq_do d ?s e"
  have inv: "line_inv ?s" by (rule after_inv)
  have ev: "event_ok e ?s ?t" using event_inv[OF inv] by blast
  have x: "x \<in> set (items_at ?s ?k)" using assms(1) by (simp add: items_line)
  have q: "y \<in> set (items_at ?t ?k)" if "quiet_line u ?t" "y \<in> set (items_at u ?k)" "pf_paused y = Some PauseUser" for u y
    using that unfolding quiet_line_def by blast
  have r: "x \<in> set (items_at (fq_restart ?s) ?k)" if "x \<in> set (loaded ?s ?k)" using that unpause_user[OF that assms(2)] by (simp add: restart_line)
  have sv: "x \<in> set (saved_items ?s ?k)" using inv x assms(2) unfolding line_inv_def saved_ok_def by blast
  have o: "x \<in> set (items_at (drop_item (dl_host (fq_loops ?s ! l)) (pf_id item) ?s) ?k)"
    if "l < length (fq_loops ?s)" "dl_wait (fq_loops ?s ! l) = DRun item j" for l item j
  proof -
    have "loop_ok ?s (fq_loops ?s ! l)" using inv that(1) by (simp add: line_inv_def)
    then have "pf_paused x = None" if "?k = hostOf (dl_host (fq_loops ?s ! l))" "pf_id x = pf_id item"
      using loop_okD(2)[of ?s "fq_loops ?s ! l" item x] x that \<open>dl_wait _ = _\<close> by (simp add: loop_item_def)
    with assms(2) x show ?thesis by auto
  qed
  have "x \<in> set (items_at ?t ?k)
    \<or> (\<exists>h deps. e = QRemove h (pf_id x) deps \<and> hostOf h = ?k) \<or> (\<exists>h. e = QResumeItem h (pf_id x) \<and> hostOf h = ?k)
    \<or> e = QRestart \<and> Option.bind (fu_stopped (fsUploadForHost (fq_fs ?t) ?k)) st_queueId = Some (pf_id x)"
  proof (cases e)
    case (QRemove h i deps)
    have "x \<in> set (items_at (drop_item h i ?s) ?k)" if "\<not> (i = pf_id x \<and> hostOf h = ?k)" using that x by auto
    moreover have "?t = ?s \<or> quiet_line (drop_item h i ?s) ?t" using ev QRemove by (simp add: event_ok_def)
    ultimately show ?thesis using QRemove x q[OF _ _ assms(2)] by metis
  next
    case (QResumeItem h i)
    then have "?k \<noteq> hostOf h \<or> pf_id x \<noteq> i \<Longrightarrow> x \<in> set (items_at ?t ?k)" using ev x unfolding event_ok_def by simp
    with QResumeItem show ?thesis by metis
  next
    case (QOver l)
    show ?thesis
    proof (rule event_overE[OF ev[unfolded QOver]])
      assume "quiet_line ?s (fq_do d ?s (QOver l))"
      then show ?thesis using q[OF _ x assms(2)] QOver by simp
    next
      fix item j okay err
      assume l: "l < length (fq_loops ?s)" "dl_wait (fq_loops ?s ! l) = DRun item j"
        "quiet_line (drop_item (dl_host (fq_loops ?s ! l)) (pf_id item) ?s) (fq_do d ?s (QOver l))"
      then show ?thesis using q[OF _ o[OF l(1,2)] assms(2)] QOver by simp
    qed
  next
    case QRestart
    then have t: "?t = fq_restart ?s" using ev by (simp add: event_ok_def)
    show ?thesis
    proof (cases "x \<in> set (loaded ?s ?k)")
      case True
      then show ?thesis using r t by simp
    next
      case False
      then show ?thesis using sv QRestart t by (auto simp: loaded_def fq_restart_def Let_def)
    qed
  next
    case (QEnqueue req existing)
    then show ?thesis using ev x by (auto simp: event_ok_def)
  qed (use ev q[OF _ x assms(2)] in \<open>simp_all add: event_ok_def\<close>)
  then show ?thesis by (simp add: items_line)
qed


text \<open>The pick an event takes out of the line of a console, if any, and what it adds.\<close>

definition taken_out :: "fq_event \<Rightarrow> fq_sys \<Rightarrow> string \<Rightarrow> string \<Rightarrow> bool" where
  "taken_out e s k i \<longleftrightarrow>
     (\<exists>h deps. e = QRemove h i deps \<and> hostOf h = k)
     \<or> (\<exists>l item j okay err. e = QOver l \<and> l < length (fq_loops s) \<and> dl_wait (fq_loops s ! l) = DRun item j
          \<and> hostOf (dl_host (fq_loops s ! l)) = k \<and> pf_id item = i \<and> rn_req (fq_runs s ! j) = pf_request item
          \<and> rn_wait (fq_runs s ! j) = WEnd okay err \<and> err \<noteq> Some FS_UPLOAD_BUSY)"

lemma drop_quiet_ids:
  assumes "quiet_line (drop_item h i s) t"
  shows "\<exists>f. ids_at t k = f @ filter (\<lambda>j. \<not> (j = i \<and> hostOf h = k)) (ids_at s k) \<and> (\<forall>j \<in> set f. \<not> id_old s j)"
proof -
  obtain f where f: "ids_at t k = f @ ids_at (drop_item h i s) k" "\<forall>j \<in> set f. \<not> id_old (drop_item h i s) j"
    using assms unfolding quiet_line_def by blast
  have "ids_at (drop_item h i s) k = filter (\<lambda>j. \<not> (j = i \<and> hostOf h = k)) (ids_at s k)"
    by (auto simp: filter_map comp_def)
  with f show ?thesis unfolding drop_keeps by metis
qed

lemma event_ids:
  assumes inv: "line_inv s" and ev: "event_ok e s t" and e: "e \<noteq> QRestart"
  shows "\<exists>f P b. ids_at t k = f @ filter P (ids_at s k) @ b \<and> (\<forall>i \<in> set f \<union> set b. \<not> id_old s i)
    \<and> (\<forall>i. \<not> P i \<longrightarrow> taken_out e s k i) \<and> (b \<noteq> [] \<longrightarrow> (\<exists>req existing. e = QEnqueue req existing \<and> hostOf (rq_host req) = k))"
    (is "?goal")
proof -
  have quiet_line: ?goal if q: "quiet_line s t"
  proof -
    obtain f where "ids_at t k = f @ ids_at s k" "\<forall>i \<in> set f. \<not> id_old s i" using q unfolding quiet_line_def by blast
    then show ?thesis by (intro exI[of _ f] exI[of _ "\<lambda>_. True"] exI[of _ "[]"]) simp
  qed
  have drop: ?goal if q: "quiet_line (drop_item h i s) t" and out: "hostOf h = k \<Longrightarrow> taken_out e s k i" for h i
  proof -
    obtain f where "ids_at t k = f @ filter (\<lambda>j. \<not> (j = i \<and> hostOf h = k)) (ids_at s k)" "\<forall>j \<in> set f. \<not> id_old s j"
      using drop_quiet_ids[OF q] by blast
    with out show ?thesis by (intro exI[of _ f] exI[of _ "\<lambda>j. \<not> (j = i \<and> hostOf h = k)"] exI[of _ "[]"]) auto
  qed
  show ?goal
  proof (cases e)
    case (QEnqueue req existing)
    let ?b = "if k = hostOf (rq_host req) then [fsq_id (fq_now s) (fq_seq s + 1)] else []"
    have "ids_at t k = ids_at s k @ ?b" using ev QEnqueue by (simp add: event_ok_def)
    moreover have "\<not> id_old s (fsq_id (fq_now s) (fq_seq s + 1))" using inv by (intro fresh_pick_id) (simp add: line_inv_def)
    ultimately show ?thesis using QEnqueue by (intro exI[of _ "[]"] exI[of _ "\<lambda>_. True"] exI[of _ ?b]) auto
  next
    case (QRemove h i deps)
    then consider "t = s" | "quiet_line (drop_item h i s) t" using ev by (auto simp: event_ok_def)
    then show ?thesis
    proof cases
      case 1
      then show ?thesis using quiet_line by simp
    next
      case 2
      then show ?thesis using drop[of h i] QRemove by (simp add: taken_out_def)
    qed
  next
    case (QResumeItem h i)
    then have "ids_at t k = ids_at s k" using ev by (simp add: event_ok_def)
    then show ?thesis by (intro exI[of _ "[]"] exI[of _ "\<lambda>_. True"]) simp
  next
    case (QOver l)
    show ?thesis
    proof (rule event_overE[OF ev[unfolded QOver]])
      fix item j okay err
      assume l: "l < length (fq_loops s)" "dl_wait (fq_loops s ! l) = DRun item j" "rn_wait (fq_runs s ! j) = WEnd okay err"
        "err \<noteq> Some FS_UPLOAD_BUSY" "quiet_line (drop_item (dl_host (fq_loops s ! l)) (pf_id item) s) t"
      have "loop_ok s (fq_loops s ! l)" using inv l(1) by (simp add: line_inv_def)
      from loop_okD(3)[OF this l(2)] have "rn_req (fq_runs s ! j) = pf_request item" by simp
      with l QOver show ?goal by (intro drop[OF l(5)]) (auto simp: taken_out_def)
    qed (rule quiet_line)
  qed (use ev e quiet_line in \<open>simp_all add: event_ok_def\<close>)
qed

text \<open>C20. No pick leaves the line by itself. A pick that is in the line before an event and not after it was removed by the person, or a drain loop
  sent it: the copy made from its request has ended, and not because another copy was running; or the app started again and shows it as a stopped copy.\<close>

theorem fq_leaves_line:
  assumes "i \<in> pf_id ` set (fq_items (fq_after d es) host)" "i \<notin> pf_id ` set (fq_items (fq_do d (fq_after d es) e) host)"
  shows "(\<exists>h deps. e = QRemove h i deps \<and> hostOf h = hostOf host)
    \<or> (\<exists>l h item j okay err. e = QOver l \<and> l < length (fq_loops (fq_after d es)) \<and> hostOf h = hostOf host
         \<and> fq_loops (fq_after d es) ! l = \<lparr>dl_host = h, dl_wait = DRun item j\<rparr> \<and> pf_id item = i
         \<and> rn_req (fq_runs (fq_after d es) ! j) = pf_request item
         \<and> rn_wait (fq_runs (fq_after d es) ! j) = WEnd okay err \<and> err \<noteq> Some FS_UPLOAD_BUSY)
    \<or> e = QRestart \<and> Option.bind (fu_stopped (fsUploadForHost (fq_fs (fq_do d (fq_after d es) e)) (hostOf host))) st_queueId = Some i"
proof -
  let ?s = "fq_after d es" and ?k = "hostOf host"
  let ?t = "fq_do d ?s e"
  have inv: "line_inv ?s" by (rule after_inv)
  have ev: "event_ok e ?s ?t" using event_inv[OF inv] by blast
  have i: "i \<in> set (ids_at ?s ?k)" "i \<notin> set (ids_at ?t ?k)" using assms by (simp_all add: items_line)
  show ?thesis
  proof (cases "e = QRestart")
    case True
    then have t: "?t = fq_restart ?s" using ev by (simp add: event_ok_def)
    have "saved_ok (items_at ?s ?k) (saved_items ?s ?k)" using inv by (simp add: line_inv_def)
    then have "i \<in> pf_id ` set (saved_items ?s ?k)" using i(1) unfolding saved_ok_def by auto
    moreover have "i \<notin> pf_id ` set (loaded ?s ?k)" using i(2) unfolding t restart_ids by simp
    ultimately show ?thesis using True t by (auto simp: loaded_def fq_restart_def Let_def)
  next
    case False
    obtain f P b where "ids_at ?t ?k = f @ filter P (ids_at ?s ?k) @ b" and out: "\<forall>i. \<not> P i \<longrightarrow> taken_out e ?s ?k i"
      using event_ids[OF inv ev False, of ?k] by blast
    then have "set (ids_at ?t ?k) = set f \<union> {i \<in> set (ids_at ?s ?k). P i} \<union> set b" by (simp only: set_append set_filter Un_assoc)
    with i out have "taken_out e ?s ?k i" by blast
    then show ?thesis unfolding taken_out_def by (metis drain_loop.surjective old.unit.exhaust)
  qed
qed


text \<open>C23. The picks that wait go on. When an answer to a copy changes what its console shows (a copy begins to be shown, or ends), then afterwards every console whose
  line was ever started has a drain loop or a copy, or it has no pick that may go next.\<close>

theorem fq_goes_on:
  assumes "i < length (fq_runs s)"
    and "shown_at (fq_fs s) (rq_host (rn_req (fq_runs s ! i)))
       \<noteq> shown_at (snd (fs_answer d reply (fq_runs s ! i) (fq_fs s))) (rq_host (rn_req (fq_runs s ! i)))"
    and "host \<in> set (fq_runners s)"
  shows "sl_running (fsUploadQueueFor (fq_do d s (QReply i reply)) host)
    \<or> fu_active (fsUploadForHost (fq_fs (fq_do d s (QReply i reply))) host) \<noteq> None
    \<or> next_pick (fq_do d s (QReply i reply)) host = None"
proof -
  obtain r w where rw: "fs_answer d reply (fq_runs s ! i) (fq_fs s) = (r, w)" by fastforce
  have "rn_req r = rn_req (fq_runs s ! i)" using req_answer[of d reply "fq_runs s ! i" "fq_fs s"] rw by simp
  with assms rw have "fq_do d s (QReply i reply) = notify (s\<lparr>fq_fs := w, fq_runs := (fq_runs s)[i := r]\<rparr>)"
    by (auto simp: fq_do_def answer_copy_def tell_def)
  then show ?thesis using notify_starts[of "s\<lparr>fq_fs := w, fq_runs := (fq_runs s)[i := r]\<rparr>"] assms(3) by (auto simp: startable_def)
qed

text \<open>One drain loop for each console: a line is marked as running exactly while one loop works on it.\<close>

lemma one_loop: "length (live_loops (fq_loops (fq_after d es)) k) = (if sl_running (line_at (fq_after d es) k) then 1 else 0)"
  using after_inv[of d es] by (simp add: line_inv_def)


section \<open>A line at work\<close>

definition line_deps :: fs_deps where
  "line_deps = \<lparr>dp_startList = True, dp_newTxId = None, dp_listDir = True, dp_jobFiles = False, dp_shouldRetry = \<lambda>_ _ _. False\<rparr>"

definition line_pick :: "string \<Rightarrow> bool \<Rightarrow> FsUploadRequest" where
  "line_pick n asFile =
     \<lparr>rq_queueId = None, rq_host = ''h'', rq_addr = ''h'', rq_destDir = ''/'', rq_srcPaths = [], rq_steps = Some [StepOne n n asFile None],
      rq_replaceRemoteName = None, rq_doneBefore = None, rq_countTotal = None, rq_attachJobId = None\<rparr>"

definition line_status :: "string \<Rightarrow> fs_reply" where
  "line_status st = RStatus (Inr \<lparr>sn_status = st, sn_error = None, sn_error_reason = None, sn_bytes_sent = None, sn_total_bytes = None,
     sn_resumed_bytes = None, sn_files_count = None, sn_files_processing = None, sn_files_finalized = None,
     sn_live = \<lparr>f_phase = None, f_skip_done = None, f_skip_total = None, f_measure_done = None, f_bottleneck = None, f_settling = False,
       f_settle_left = None, f_settle_total = None, f_route = None, f_route_reason = None, f_commit_ack = None\<rparr>\<rparr>)"

text \<open>A pick is sent and paused by the person; another waits.\<close>

definition line_paused :: "fq_event list" where
  "line_paused = [QEnqueue (line_pick ''a'' True) [], QListing 0 (Inr []), QEnqueue (line_pick ''x'' True) [],
     QReply 0 (RStarted (Inr (''j'', []))), QPause ''h'', QReply 0 (line_status ''failed'')]"

lemma line_paused_items:
  "map (\<lambda>x. (pf_id x, pf_paused x)) (fq_items (fq_after line_deps line_paused) ''h'')
   = [(''fsq-1-3'', Some PauseUser), (''fsq-1-1'', None), (''fsq-1-2'', None)]"
  by code_simp

lemma line_over_items:
  "map pf_id (fq_items (fq_do line_deps (fq_after line_deps line_paused) (QOver 0)) ''h'') = [''fsq-1-3'', ''fsq-1-2'']"
  by code_simp


theorem fq_pick_spec_witness:
  "\<exists>x. pick (fsUploadQueueFor (fq_after line_deps line_paused) ''h'') False = Some x \<and> pf_paused x = None"
proof -
  have "map_option pf_id (pick (fsUploadQueueFor (fq_after line_deps line_paused) ''h'') False) = Some ''fsq-1-1''" by code_simp
  then obtain x where x: "pick (fsUploadQueueFor (fq_after line_deps line_paused) ''h'') False = Some x" by auto
  with fq_pick_spec[of "fsUploadQueueFor (fq_after line_deps line_paused) ''h''" False] show ?thesis by simp
qed

theorem fq_person_pause_witness:
  "\<exists>x. pf_paused x = Some PauseUser \<and> x \<in> set (fq_items (fq_do line_deps (fq_after line_deps line_paused) (QOver 0)) ''h'')"
proof -
  obtain x xs where x: "fq_items (fq_after line_deps line_paused) ''h'' = x # xs" "pf_paused x = Some PauseUser"
    using line_paused_items by (cases "fq_items (fq_after line_deps line_paused) ''h''") auto
  then have "x \<in> set (fq_items (fq_after line_deps line_paused) ''h'')" by simp
  from fq_person_pause[OF this x(2), of "QOver 0"] x(2) show ?thesis by auto
qed

theorem fq_leaves_line_witness:
  "\<exists>j okay err. rn_wait (fq_runs (fq_after line_deps line_paused) ! j) = WEnd okay err \<and> err \<noteq> Some FS_UPLOAD_BUSY"
proof -
  have m: "pf_id ` set xs = set (map pf_id xs)" for xs by simp
  have before: "''fsq-1-1'' \<in> pf_id ` set (fq_items (fq_after line_deps line_paused) ''h'')"
    using arg_cong[OF line_paused_items, of "map fst"] unfolding m by (simp add: comp_def)
  have after: "''fsq-1-1'' \<notin> pf_id ` set (fq_items (fq_do line_deps (fq_after line_deps line_paused) (QOver 0)) ''h'')"
    unfolding m line_over_items by simp
  from fq_leaves_line[OF before after] show ?thesis by blast
qed


theorem fq_goes_on_witness:
  "sl_running (fsUploadQueueFor (fq_do line_deps (fq_after line_deps (butlast line_paused)) (QReply 0 (line_status ''failed''))) ''h'')
    \<or> fu_active (fsUploadForHost (fq_fs (fq_do line_deps (fq_after line_deps (butlast line_paused)) (QReply 0 (line_status ''failed'')))) ''h'') \<noteq> None
    \<or> next_pick (fq_do line_deps (fq_after line_deps (butlast line_paused)) (QReply 0 (line_status ''failed''))) ''h'' = None"
proof (rule fq_goes_on)
  let ?s = "fq_after line_deps (butlast line_paused)"
  show "0 < length (fq_runs ?s)" by code_simp
  have "fst (shown_at (fq_fs ?s) (rq_host (rn_req (fq_runs ?s ! 0))))
      \<noteq> fst (shown_at (snd (fs_answer line_deps (line_status ''failed'') (fq_runs ?s ! 0) (fq_fs ?s))) (rq_host (rn_req (fq_runs ?s ! 0))))"
    by code_simp
  then show "shown_at (fq_fs ?s) (rq_host (rn_req (fq_runs ?s ! 0)))
      \<noteq> shown_at (snd (fs_answer line_deps (line_status ''failed'') (fq_runs ?s ! 0) (fq_fs ?s))) (rq_host (rn_req (fq_runs ?s ! 0)))" by auto
  show "''h'' \<in> set (fq_runners ?s)" by code_simp
qed

section \<open>What the code does not rule out\<close>

text \<open>Send now pauses a copy that the line did not start; the person removes the pick sent now before that copy has stopped. What is left of
  the copy waits, paused by a Send now of which nothing is left, in a line that is not held, and no later change of the store resumes it.\<close>

lemma sent_now_pause_stays:
  "map (\<lambda>x. (pf_id x, pf_paused x)) (fq_items (fq_after line_deps
      [QOutside (line_pick ''a'' True), QEnqueue (line_pick ''x'' True) [], QReply 0 (RStarted (Inr (''j'', []))),
       QSendNow ''h'' ''fsq-1-1'', QRemove ''h'' ''fsq-1-1'' True, QReply 0 (line_status ''failed''), QChange]) ''h'')
   = [(''fsq-1-2'', Some PauseSendNow)]"
  by code_simp

text \<open>The app closed while a pick of the line was sent. The next start shows it as a stopped copy and leaves it out of the line, but not out of
  what is saved: once it has been resumed and sent, and nothing else has changed the line, the start after that has it in the line again.\<close>

lemma sent_pick_comes_back:
  "map pf_id (fq_items (fq_after line_deps
      [QEnqueue (line_pick ''a'' True) [], QListing 0 (Inr []), QReply 0 (RStarted (Inr (''j'', []))), QRestart,
       QResumeCard ''h'', QReply 0 (line_status ''done''), QRestart]) ''h'') = [''fsq-1-1'']"
  by code_simp

text \<open>A stopped copy of a folder holds a pick back. Resume takes the card away, and until the kind of the source is known the console shows no copy: the
  line starts its pick, and two copies run on the console at once.\<close>

lemma resume_beside_pick:
  "map rn_wait (fq_runs (fq_after line_deps
      [QOutside (line_pick ''a'' False), QReply 0 (RKind (Inl [])), QEnqueue (line_pick ''x'' True) [], QResumeCard ''h'',
       QListing 0 (Inr []), QReply 1 (RKind (Inr ''file''))])) = [WEnd False (Some []), WStart, WStart]"
  by code_simp

end
