(* ===== verification/Js_Number.thy ===== *)
theory Js_Number
  imports Paths
begin

text \<open>
  Numbers and strings: \<^verbatim>\<open>Number(text)\<close> on the grammar of the language (white space around, hexadecimal,
  octal and binary literals, decimals with a fraction and an exponent), \<^verbatim>\<open>Math.round\<close>, and the text of
  a number with at most one decimal. A value that is not finite is \<open>None\<close>; rounding to doubles is not
  modelled.
\<close>

section \<open>Definitions\<close>

definition upper_char :: "char \<Rightarrow> char" where
  "upper_char c =
     (let n = of_char c :: nat in
      if 97 \<le> n \<and> n \<le> 122 \<or> 224 \<le> n \<and> n \<le> 254 \<and> n \<noteq> 247 then char_of (n - 32) else c)"

text \<open>\<^verbatim>\<open>toUpperCase\<close> on Latin-1, but for the three characters whose capital is outside it (the sharp s, the
  micro sign and the y with diaeresis), which the names the program upper-cases do not have.\<close>

definition to_upper :: "string \<Rightarrow> string" where
  "to_upper = map upper_char"

definition radix_digit :: "char \<Rightarrow> nat option" where
  "radix_digit c =
     (let n = of_char (lower_char c) :: nat in
      if 48 \<le> n \<and> n \<le> 57 then Some (n - 48) else if 97 \<le> n \<and> n \<le> 122 then Some (n - 87) else None)"

fun radix_value :: "nat \<Rightarrow> string \<Rightarrow> nat \<Rightarrow> nat option" where
  "radix_value b [] acc = Some acc"
| "radix_value b (c # s) acc =
     (case radix_digit c of
        None \<Rightarrow> None
      | Some d \<Rightarrow> if d < b then radix_value b s (acc * b + d) else None)"

definition digits_value :: "string \<Rightarrow> nat" where
  "digits_value s = decimal s"

text \<open>The exponent part: \<open>None\<close> when the text is not one.\<close>

definition read_exponent :: "string \<Rightarrow> int option" where
  "read_exponent s =
     (case s of
        [] \<Rightarrow> Some 0
      | c # r \<Rightarrow>
          if lower_char c \<noteq> CHR ''e'' then None
          else let neg = (r \<noteq> [] \<and> hd r = CHR ''-''); ds = (if r \<noteq> [] \<and> (hd r = CHR ''-'' \<or> hd r = CHR ''+'') then tl r else r)
               in if ds \<noteq> [] \<and> list_all is_digit ds
                  then Some (if neg then - int (digits_value ds) else int (digits_value ds)) else None)"

definition scale10 :: "rat \<Rightarrow> int \<Rightarrow> rat" where
  "scale10 q e = (if e \<ge> 0 then q * 10 ^ nat e else q / 10 ^ nat (- e))"

definition read_decimal :: "string \<Rightarrow> rat option" where
  "read_decimal s =
     (let ip = takeWhile is_digit s; r = dropWhile is_digit s;
          dot = (r \<noteq> [] \<and> hd r = CHR ''.'');
          fp = (if dot then takeWhile is_digit (tl r) else []);
          r2 = (if dot then dropWhile is_digit (tl r) else r)
      in if ip = [] \<and> fp = [] then None
         else case read_exponent r2 of
                None \<Rightarrow> None
              | Some e \<Rightarrow> Some (scale10 (of_nat (digits_value ip) + of_nat (digits_value fp) / 10 ^ length fp) e))"

definition js_number :: "string \<Rightarrow> rat option" where
  "js_number s =
     (let t = trim s in
      if t = [] then Some 0
      else if length t > 2 \<and> hd t = CHR ''0'' \<and> lower_char (t ! 1) \<in> {CHR ''x'', CHR ''o'', CHR ''b''}
      then map_option of_nat
             (radix_value (if lower_char (t ! 1) = CHR ''x'' then 16 else if lower_char (t ! 1) = CHR ''o'' then 8 else 2)
                (drop 2 t) 0)
      else if hd t = CHR ''-'' then map_option uminus (read_decimal (tl t))
      else if hd t = CHR ''+'' then read_decimal (tl t)
      else read_decimal t)"

definition math_round :: "rat \<Rightarrow> int" where
  "math_round q = \<lfloor>q + 1 / 2\<rfloor>"

text \<open>\<^verbatim>\<open>String(k / 10)\<close>.\<close>

definition show_tenths :: "nat \<Rightarrow> string" where
  "show_tenths k = (if k mod 10 = 0 then show_nat (k div 10) else show_nat (k div 10) @ ''.'' @ show_nat (k mod 10))"

section \<open>Reading back what was written\<close>

lemma show_nat_not_Nil [simp]: "show_nat n \<noteq> []"
  by (subst show_nat.simps) simp

lemma is_digit_not_space: "is_digit c \<Longrightarrow> \<not> is_space c"
  by (simp add: is_digit_def is_space_def Let_def)

lemma trim_digits_ends:
  assumes "s \<noteq> []" "\<not> is_space (hd s)" "\<not> is_space (last s)"
  shows "trim s = s"
proof -
  have "dropWhile is_space s = s" using assms(1,2) by (cases s) auto
  moreover have "dropWhile is_space (rev s) = rev s" using assms(1,3) by (cases s rule: rev_cases) auto
  ultimately show ?thesis by (simp add: trim_def)
qed

lemma show_nat_hd: "is_digit (hd (show_nat n))" and show_nat_last: "is_digit (last (show_nat n))"
  using show_nat_digits[of n] by (auto simp: hd_in_set)

lemma digit_signs [simp]: "is_digit CHR ''-'' = False" "is_digit CHR ''+'' = False" "is_digit CHR ''e'' = False"
  by (simp_all add: is_digit_def)

lemma digit_lower [simp]: "is_digit c \<Longrightarrow> lower_char c = c"
  by (auto simp: lower_char_def is_digit_def Let_def)

lemma takeWhile_show_nat [simp]:
  "takeWhile is_digit (show_nat n @ r) = show_nat n @ takeWhile is_digit r"
  "dropWhile is_digit (show_nat n @ r) = dropWhile is_digit r"
  "takeWhile is_digit (show_nat n) = show_nat n" "dropWhile is_digit (show_nat n) = []"
  using show_nat_digits[of n] by (auto simp: takeWhile_append2 dropWhile_append2 takeWhile_eq_all_conv dropWhile_eq_Nil_conv)

lemma read_decimal_show_nat: "read_decimal (show_nat n) = Some (of_nat n)"
  by (simp add: read_decimal_def Let_def read_exponent_def scale10_def digits_value_def decimal_def[of "[]"])

lemma read_decimal_tenths:
  assumes "d < 10"
  shows "read_decimal (show_nat n @ ''.'' @ show_nat d) = Some (of_nat n + of_nat d / 10)"
proof -
  have "length (show_nat d) = 1" using assms by (subst show_nat.simps) simp
  then show ?thesis by (simp add: read_decimal_def Let_def read_exponent_def scale10_def digits_value_def)
qed

text \<open>A text that starts and ends with a digit and has no letter after its first one is read as a decimal.\<close>

lemma js_number_decimal:
  assumes "s \<noteq> []" "is_digit (hd s)" "is_digit (last s)" "\<And>c. c \<in> set s \<Longrightarrow> is_digit c \<or> c = CHR ''.''"
  shows "js_number s = read_decimal s"
proof -
  have t: "trim s = s" using assms by (intro trim_digits_ends) (auto simp: is_digit_not_space)
  have no: "s ! 1 \<in> set s" if "length s > 2" using that by simp
  have "\<not> (length s > 2 \<and> lower_char (s ! 1) \<in> {CHR ''x'', CHR ''o'', CHR ''b''})"
    using assms(4)[OF no] by (auto simp: lower_char_def is_digit_def Let_def)
  moreover have "hd s \<noteq> CHR ''-''" "hd s \<noteq> CHR ''+''" using assms(2) by auto
  ultimately show ?thesis using assms(1) by (auto simp: js_number_def t Let_def)
qed

lemma js_number_show_nat [simp]: "js_number (show_nat n) = Some (of_nat n)"
  using js_number_decimal[of "show_nat n"] show_nat_digits[of n] show_nat_hd show_nat_last
  by (auto simp: read_decimal_show_nat)

lemma js_number_show_tenths [simp]: "js_number (show_tenths k) = Some (of_nat k / 10)"
proof (cases "k mod 10 = 0")
  case True
  then have "k = 10 * (k div 10)" by presburger
  then have "(of_nat k :: rat) = 10 * of_nat (k div 10)" by (metis of_nat_mult of_nat_numeral)
  with True show ?thesis by (simp add: show_tenths_def)
next
  case False
  let ?s = "show_nat (k div 10) @ ''.'' @ show_nat (k mod 10)"
  have "k = 10 * (k div 10) + k mod 10" by presburger
  then have k: "(of_nat k :: rat) = 10 * of_nat (k div 10) + of_nat (k mod 10)" by (metis of_nat_mult of_nat_numeral of_nat_add)
  have "js_number ?s = read_decimal ?s"
    by (rule js_number_decimal) (use show_nat_digits show_nat_hd show_nat_last in \<open>auto simp: hd_append\<close>)
  also have "\<dots> = Some (of_nat (k div 10) + of_nat (k mod 10) / 10)" by (rule read_decimal_tenths) simp
  finally show ?thesis using False k by (simp add: show_tenths_def field_simps)
qed

end
