(* ===== verification/Form_Url.thy ===== *)
theory Form_Url
  imports Js_Number
begin

text \<open>
  \<^verbatim>\<open>URLSearchParams\<close> as the list of its pairs: \<^verbatim>\<open>set\<close> and \<^verbatim>\<open>get\<close>, and the text of it, which is
  the form encoding of the UTF-8 bytes. \<open>search_params\<close> reads a text back; it is \<open>None\<close> when the bytes
  are not the UTF-8 of Latin-1 characters, which this model has no string for.
\<close>

definition hex_digit :: "nat \<Rightarrow> char" where
  "hex_digit d = char_of (if d < 10 then 48 + d else 55 + d)"

definition form_safe :: "nat \<Rightarrow> bool" where
  "form_safe n \<longleftrightarrow> 48 \<le> n \<and> n \<le> 57 \<or> 65 \<le> n \<and> n \<le> 90 \<or> 97 \<le> n \<and> n \<le> 122 \<or> n = 42 \<or> n = 45 \<or> n = 46 \<or> n = 95"

definition form_byte :: "nat \<Rightarrow> string" where
  "form_byte n =
     (if form_safe n then [char_of n] else if n = 32 then ''+''
      else [CHR ''%'', hex_digit (n div 16), hex_digit (n mod 16)])"

definition form_encode :: "string \<Rightarrow> string" where
  "form_encode s = concat (map form_byte (concat (map utf8_char s)))"

fun join_with :: "string \<Rightarrow> string list \<Rightarrow> string" where
  "join_with d [] = []"
| "join_with d [s] = s"
| "join_with d (s # t # ss) = s @ d @ join_with d (t # ss)"

definition search_text :: "(string \<times> string) list \<Rightarrow> string" where
  "search_text q = join_with ''&'' (map (\<lambda>(k, v). form_encode k @ ''='' @ form_encode v) q)"

fun percent_decode :: "string \<Rightarrow> nat list" where
  "percent_decode [] = []"
| "percent_decode (c # s) =
     (if c = CHR ''+'' then 32 # percent_decode s
      else if c = CHR ''%'' then
        (case s of
           a # b # r \<Rightarrow>
             (case (radix_value 16 [a] 0, radix_value 16 [b] 0) of
                (Some h, Some l) \<Rightarrow> (16 * h + l) # percent_decode r
              | _ \<Rightarrow> 37 # percent_decode s)
         | _ \<Rightarrow> 37 # percent_decode s)
      else utf8_char c @ percent_decode s)"

fun utf8_decode :: "nat list \<Rightarrow> string option" where
  "utf8_decode [] = Some []"
| "utf8_decode (n # ns) =
     (if n < 128 then map_option (Cons (char_of n)) (utf8_decode ns)
      else case ns of
             m # ms \<Rightarrow>
               if (n = 194 \<or> n = 195) \<and> 128 \<le> m \<and> m < 192
               then map_option (Cons (char_of (64 * (n - 192) + (m - 128)))) (utf8_decode ms) else None
           | [] \<Rightarrow> None)"

definition form_decode :: "string \<Rightarrow> string option" where
  "form_decode s = utf8_decode (percent_decode s)"

definition search_pair :: "string \<Rightarrow> (string \<times> string) option" where
  "search_pair t =
     (case (form_decode (takeWhile (\<lambda>c. c \<noteq> CHR ''='') t), form_decode (tl (dropWhile (\<lambda>c. c \<noteq> CHR ''='') t))) of
        (Some k, Some v) \<Rightarrow> Some (k, v) | _ \<Rightarrow> None)"

definition search_params :: "string \<Rightarrow> (string \<times> string) list option" where
  "search_params s = those (map search_pair (filter (\<lambda>t. t \<noteq> []) (split_on CHR ''&'' s)))"

section \<open>Reading back what was written\<close>

lemma of_char_256: "(of_char c :: nat) < 256"
proof -
  have "(of_char c :: nat) = of_char c mod 256" by (metis char_of_char of_char_of)
  then show ?thesis by (metis mod_less_divisor zero_less_numeral)
qed

lemma char_of_eq: "n < 256 \<Longrightarrow> char_of n = c \<longleftrightarrow> n = (of_char c :: nat)"
  by (metis char_of_char mod_less of_char_of)

lemma hex_value: "d < 16 \<Longrightarrow> radix_value 16 [hex_digit d] 0 = Some d"
  by (auto simp: hex_digit_def radix_digit_def lower_char_def Let_def of_char_of)

lemma hex_safe: "d < 16 \<Longrightarrow> hex_digit d \<noteq> CHR ''&'' \<and> hex_digit d \<noteq> CHR ''=''"
  by (auto simp: hex_digit_def char_of_eq split: if_splits)

lemma form_byte_safe:
  assumes "n < 256"
  shows "CHR ''&'' \<notin> set (form_byte n) \<and> CHR ''='' \<notin> set (form_byte n)"
proof -
  have "char_of n \<noteq> CHR ''&'' \<and> char_of n \<noteq> CHR ''=''" if "form_safe n"
    using that assms by (auto simp: form_safe_def char_of_eq)
  moreover have "n div 16 < 16" "n mod 16 < 16" using assms by simp_all
  then have "hex_digit (n div 16) \<noteq> CHR ''&'' \<and> hex_digit (n div 16) \<noteq> CHR ''=''"
    "hex_digit (n mod 16) \<noteq> CHR ''&'' \<and> hex_digit (n mod 16) \<noteq> CHR ''=''" by (simp_all add: hex_safe)
  ultimately show ?thesis unfolding form_byte_def by (simp del: not_iff) metis
qed

lemma utf8_byte: "n \<in> set (utf8_char c) \<Longrightarrow> n < 256"
proof -
  have "(of_char c :: nat) div 64 < 4" by (rule less_mult_imp_div_less) (use of_char_256[of c] in simp)
  then show "n \<in> set (utf8_char c) \<Longrightarrow> n < 256" by (auto simp: utf8_char_def Let_def split: if_splits)
qed

lemma percent_decode_byte:
  assumes "n < 256"
  shows "percent_decode (form_byte n @ r) = n # percent_decode r"
proof -
  have safe: "percent_decode (char_of n # r) = n # percent_decode r" if "form_safe n"
    using that assms by (auto simp: form_safe_def char_of_eq utf8_char_def Let_def of_char_of)
  have h: "radix_value 16 [hex_digit (n div 16)] 0 = Some (n div 16)" "radix_value 16 [hex_digit (n mod 16)] 0 = Some (n mod 16)"
    using assms by (intro hex_value; simp)+
  show ?thesis
    using safe h by (auto simp: form_byte_def simp del: radix_value.simps)
qed

lemma percent_decode_bytes:
  "\<forall>n \<in> set ns. n < 256 \<Longrightarrow> percent_decode (concat (map form_byte ns)) = ns"
  by (induction ns) (auto simp: percent_decode_byte)

lemma utf8_decode_char: "utf8_decode (utf8_char c @ r) = map_option (Cons c) (utf8_decode r)"
proof -
  obtain n :: nat where n: "n = of_char c" "n < 256" using of_char_256 by blast
  then have c: "c = char_of n" by simp
  have u: "utf8_char c = (if n < 128 then [n] else [192 + n div 64, 128 + n mod 64])" by (simp add: utf8_char_def n(1) Let_def)
  show ?thesis
  proof (cases "n < 128")
    case True
    then show ?thesis using u c by simp
  next
    case False
    then have "n div 64 \<ge> 2" using div_le_mono[of 128 n 64] by simp
    moreover have "n div 64 < 4" by (rule less_mult_imp_div_less) (use n(2) in simp)
    ultimately have "n div 64 = 2 \<or> n div 64 = 3" by linarith
    moreover have "64 * (n div 64) + n mod 64 = n" by simp
    ultimately have "192 + n div 64 \<in> {194, 195}" "64 * (192 + n div 64 - 192) + (128 + n mod 64 - 128) = n" by auto
    then show ?thesis using u c False by simp
  qed
qed

lemma form_roundtrip [simp]: "form_decode (form_encode s) = Some s"
proof -
  have "percent_decode (form_encode s) = concat (map utf8_char s)"
    unfolding form_encode_def by (rule percent_decode_bytes) (auto dest: utf8_byte)
  moreover have "utf8_decode (concat (map utf8_char s)) = Some s"
    by (induction s) (simp_all add: utf8_decode_char)
  ultimately show ?thesis by (simp add: form_decode_def)
qed

lemma form_encode_safe: "CHR ''&'' \<notin> set (form_encode s) \<and> CHR ''='' \<notin> set (form_encode s)"
  using form_byte_safe utf8_byte by (fastforce simp: form_encode_def)

lemma search_pair_roundtrip: "search_pair (form_encode k @ ''='' @ form_encode v) = Some (k, v)"
proof -
  have "takeWhile (\<lambda>c. c \<noteq> CHR ''='') (form_encode k @ ''='' @ form_encode v) = form_encode k"
    "dropWhile (\<lambda>c. c \<noteq> CHR ''='') (form_encode k @ ''='' @ form_encode v) = ''='' @ form_encode v"
    using form_encode_safe[of k]
    by (simp_all add: takeWhile_append2 dropWhile_append2) (subst takeWhile_append2 dropWhile_append2; force)+
  then show ?thesis by (simp add: search_pair_def)
qed

lemma split_on_plain: "d \<notin> set s \<Longrightarrow> split_on d s = [s]"
  by (induction s) auto

lemma split_on_app: "d \<notin> set s \<Longrightarrow> split_on d (s @ d # r) = s # split_on d r"
  by (induction s) auto

lemma split_join:
  "ss \<noteq> [] \<Longrightarrow> \<forall>s \<in> set ss. CHR ''&'' \<notin> set s \<Longrightarrow> split_on CHR ''&'' (join_with ''&'' ss) = ss"
  by (induction "''&''" ss rule: join_with.induct) (auto simp: split_on_plain split_on_app)

lemma search_roundtrip:
  assumes "q \<noteq> []"
  shows "search_params (search_text q) = Some q"
proof -
  let ?f = "\<lambda>(k, v). form_encode k @ ''='' @ form_encode v"
  have "split_on CHR ''&'' (search_text q) = map ?f q"
    unfolding search_text_def using assms form_encode_safe by (intro split_join) auto
  moreover have "filter (\<lambda>t. t \<noteq> []) (map ?f q) = map ?f q" by (auto simp: filter_id_conv)
  moreover have "those (map search_pair (map ?f q)) = Some q"
    using search_pair_roundtrip by (induction q) auto
  ultimately show ?thesis by (simp add: search_params_def)
qed

end
