(* ===== verification/Space_Plan.thy ===== *)
theory Space_Plan
  imports Form_Url "HOL-Library.Product_Lexorder" "HOL-Library.Sublist"
begin

text \<open>
  The space planner (\<^verbatim>\<open>client/src/lib/spacePlan.ts\<close>): which leftovers to clear, which games to move to
  another drive and which to uninstall so that a new game fits. The candidates from what the console
  and the Collection report, their ranking, the destinations of the moves, the totals of a selection,
  the proposed selection, the drives, and the sizes a person types.

  Byte counts and times are \<open>int\<close>. \<^verbatim>\<open>destRoom\<close> and \<^verbatim>\<open>folderBytes\<close> are association lists; the
  assignment of the moves keeps the room left as a function of the drive. A comparison function
  returns an integer of the sign the code's has.
\<close>

section \<open>The planner\<close>

datatype SpaceStepKind = Leftover | Move | Uninstall

definition KIND_ORDER :: "SpaceStepKind list" where
  "KIND_ORDER = [Leftover, Move, Uninstall]"

record SpaceCandidate =
  sc_id :: string
  sc_kind :: SpaceStepKind
  sc_label :: string
  sc_titleId :: "string option"
  sc_bytes :: int
  sc_lastPlayedMs :: "int option"
  sc_hasCopy :: "bool option"
  sc_moveTargets :: "string list option"
  sc_cleanupId :: "nat option"
  sc_path :: "string option"

record SpacePlanInput =
  neededBytes :: int
  roomBytes :: int
  in_candidates :: "SpaceCandidate list"
  destRoom :: "(string \<times> int) list"
  nowMs :: int

record PlannedStep =
  ps_candidate :: SpaceCandidate
  ps_selected :: bool
  ps_dest :: "string option"

record SpacePlan =
  sp_steps :: "PlannedStep list"
  shortBytes :: int
  freedBytes :: int
  enough :: bool
  missingBytes :: int
  actions :: nat

definition DAY_MS :: int where
  "DAY_MS = 24 * 60 * 60 * 1000"

definition ageBand :: "int option \<Rightarrow> int \<Rightarrow> rat" where
  "ageBand lp now =
     (case lp of
        None \<Rightarrow> 5 / 2
      | Some l \<Rightarrow>
          if l \<le> 0 then 5 / 2
          else let days = of_int (now - l) / of_int DAY_MS :: rat in
               if days \<ge> 90 then 1 else if days \<ge> 30 then 2 else if days \<ge> 7 then 3 else 4)"

definition isUsable :: "SpaceCandidate \<Rightarrow> bool" where
  "isUsable c \<longleftrightarrow>
     (if \<not> sc_bytes c > 0 then False
      else case sc_kind c of
             Uninstall \<Rightarrow> sc_hasCopy c = Some True
           | Move \<Rightarrow> (case sc_moveTargets c of None \<Rightarrow> False | Some ts \<Rightarrow> length ts > 0)
           | Leftover \<Rightarrow> sc_cleanupId c \<noteq> None)"

definition kind_index :: "SpaceStepKind \<Rightarrow> int" where
  "kind_index k = (case find_index (\<lambda>x. x = k) KIND_ORDER of None \<Rightarrow> -1 | Some i \<Rightarrow> int i)"

definition rankCompare :: "int \<Rightarrow> SpaceCandidate \<Rightarrow> SpaceCandidate \<Rightarrow> int" where
  "rankCompare now a b =
     (let ga = kind_index (sc_kind a); gb = kind_index (sc_kind b) in
      if ga \<noteq> gb then ga - gb
      else let ba = ageBand (sc_lastPlayedMs a) now; bb = ageBand (sc_lastPlayedMs b) now in
        if sc_kind a \<noteq> Leftover \<and> ba \<noteq> bb then (if ba < bb then -1 else 1)
        else if sc_bytes a \<noteq> sc_bytes b then sc_bytes b - sc_bytes a
        else let la = (case sc_lastPlayedMs a of None \<Rightarrow> 0 | Some l \<Rightarrow> l);
                 lb = (case sc_lastPlayedMs b of None \<Rightarrow> 0 | Some l \<Rightarrow> l) in
          if la \<noteq> lb then la - lb
          else if sc_id a < sc_id b then -1 else if sc_id a > sc_id b then 1 else 0)"

text \<open>\<^verbatim>\<open>assignMoves\<close>: the drive with the most room left among those that can take the move, the first of
  them on a tie; then the loop over the candidates.\<close>

definition best_target :: "(string \<Rightarrow> int) \<Rightarrow> int \<Rightarrow> string list \<Rightarrow> string option" where
  "best_target room bytes ts =
     foldl (\<lambda>best t. if room t \<ge> bytes \<and> (case best of None \<Rightarrow> True | Some u \<Rightarrow> room t > room u)
                     then Some t else best) None ts"

definition targets_of :: "SpaceCandidate \<Rightarrow> string list" where
  "targets_of c = (case sc_moveTargets c of None \<Rightarrow> [] | Some ts \<Rightarrow> ts)"

fun assign_loop :: "SpaceCandidate list \<Rightarrow> string set \<Rightarrow> (string \<Rightarrow> int) \<Rightarrow> (string \<rightharpoonup> string option)
    \<Rightarrow> (string \<rightharpoonup> string option)" where
  "assign_loop [] ids room out = out"
| "assign_loop (c # cs) ids room out =
     (if sc_kind c \<noteq> Move \<or> sc_id c \<notin> ids then assign_loop cs ids room out
      else let best = best_target room (sc_bytes c) (targets_of c) in
           assign_loop cs ids
             (case best of None \<Rightarrow> room | Some t \<Rightarrow> room(t := room t - sc_bytes c))
             (out(sc_id c \<mapsto> best)))"

definition room_of :: "(string \<times> int) list \<Rightarrow> string \<Rightarrow> int" where
  "room_of rooms t = (case map_of rooms t of None \<Rightarrow> 0 | Some r \<Rightarrow> r)"

definition assignMoves :: "SpaceCandidate list \<Rightarrow> string set \<Rightarrow> (string \<times> int) list \<Rightarrow> (string \<rightharpoonup> string option)" where
  "assignMoves ranked ids rooms = assign_loop ranked ids (room_of rooms) Map.empty"

definition shortOf :: "SpacePlanInput \<Rightarrow> int" where
  "shortOf input = max 0 (neededBytes input - max 0 (roomBytes input))"

definition ranked_of :: "SpacePlanInput \<Rightarrow> SpaceCandidate list" where
  "ranked_of input = js_sort (rankCompare (nowMs input)) (filter isUsable (in_candidates input))"

text \<open>One round of \<^verbatim>\<open>planWithSelection\<close>'s \<^verbatim>\<open>map\<close>: the step, and the totals it changes. The empty string
  is not a destination.\<close>

definition step_of :: "(string \<rightharpoonup> string option) \<Rightarrow> string set \<Rightarrow> SpaceCandidate \<Rightarrow> PlannedStep" where
  "step_of dests ids c =
     (let selected = sc_id c \<in> ids in
      \<lparr>ps_candidate = c, ps_selected = selected,
       ps_dest = (if sc_kind c = Move \<and> selected
                  then (case dests (sc_id c) of None \<Rightarrow> None | Some d \<Rightarrow> d) else None)\<rparr>)"

definition truthy :: "string option \<Rightarrow> bool" where
  "truthy d \<longleftrightarrow> d \<noteq> None \<and> d \<noteq> Some []"

definition counts :: "PlannedStep \<Rightarrow> bool" where
  "counts s \<longleftrightarrow> ps_selected s \<and> (sc_kind (ps_candidate s) \<noteq> Move \<or> truthy (ps_dest s))"

fun tally :: "PlannedStep list \<Rightarrow> int \<times> nat \<times> bool \<Rightarrow> int \<times> nat \<times> bool" where
  "tally [] acc = acc"
| "tally (s # ss) (freed, acts, leftoverCounted) =
     tally ss
       (if counts s
        then (freed + sc_bytes (ps_candidate s),
              if sc_kind (ps_candidate s) \<noteq> Leftover \<or> \<not> leftoverCounted then acts + 1 else acts,
              leftoverCounted \<or> sc_kind (ps_candidate s) = Leftover)
        else (freed, acts, leftoverCounted))"

definition planWithSelection :: "SpacePlanInput \<Rightarrow> string set \<Rightarrow> SpacePlan" where
  "planWithSelection input ids =
     (let ranked = ranked_of input;
          dests = assignMoves ranked ids (destRoom input);
          steps = map (step_of dests ids) ranked;
          short = shortOf input
      in case tally steps (0, 0, False) of
           (freed, acts, _) \<Rightarrow>
             let missing = max 0 (short - freed) in
             \<lparr>sp_steps = steps, shortBytes = short, freedBytes = freed, enough = (missing = 0),
              missingBytes = missing, actions = acts\<rparr>)"

text \<open>\<^verbatim>\<open>pickFromGroup\<close>: the loop that takes, and the loop that puts back.\<close>

fun take_loop :: "SpaceCandidate list \<Rightarrow> int \<Rightarrow> (SpaceCandidate \<Rightarrow> SpaceCandidate list \<Rightarrow> bool)
    \<Rightarrow> SpaceCandidate list \<Rightarrow> int \<Rightarrow> SpaceCandidate list \<times> int" where
  "take_loop [] need fits taken tot = (taken, tot)"
| "take_loop (c # cs) need fits taken tot =
     (if tot \<ge> need then (taken, tot)
      else if \<not> fits c taken then take_loop cs need fits taken tot
      else take_loop cs need fits (taken @ [c]) (tot + sc_bytes c))"

fun put_back :: "nat \<Rightarrow> int \<Rightarrow> SpaceCandidate list \<Rightarrow> int \<Rightarrow> SpaceCandidate list" where
  "put_back 0 need taken tot = taken"
| "put_back (Suc i) need taken tot =
     (if tot - sc_bytes (taken ! i) \<ge> need
      then put_back i need (remove_at i taken) (tot - sc_bytes (taken ! i))
      else put_back i need taken tot)"

definition pickFromGroup :: "SpaceCandidate list \<Rightarrow> int \<Rightarrow> (SpaceCandidate \<Rightarrow> SpaceCandidate list \<Rightarrow> bool)
    \<Rightarrow> SpaceCandidate list" where
  "pickFromGroup cands need fits =
     (if need \<le> 0 then []
      else case List.find (\<lambda>c. sc_bytes c \<ge> need \<and> fits c []) cands of
             Some single \<Rightarrow> [single]
           | None \<Rightarrow>
               (case take_loop cands need fits [] 0 of
                  (taken, tot) \<Rightarrow> if tot < need then taken else put_back (length taken) need taken tot))"

definition move_fits :: "SpacePlanInput \<Rightarrow> SpaceCandidate \<Rightarrow> SpaceCandidate list \<Rightarrow> bool" where
  "move_fits input c taken \<longleftrightarrow>
     (case assignMoves (ranked_of input) (insert (sc_id c) (sc_id ` set taken)) (destRoom input) (sc_id c) of
        Some (Some _) \<Rightarrow> True | _ \<Rightarrow> False)"

fun select_loop :: "SpacePlanInput \<Rightarrow> SpaceStepKind list \<Rightarrow> int \<Rightarrow> string set \<Rightarrow> string set" where
  "select_loop input [] need selected = selected"
| "select_loop input (kind # ks) need selected =
     (if need \<le> 0 then selected
      else let cands = filter (\<lambda>c. sc_kind c = kind) (ranked_of input);
               picked = (case kind of
                           Leftover \<Rightarrow> pickFromGroup cands need (\<lambda>_ _. True)
                         | Move \<Rightarrow> pickFromGroup cands need (move_fits input)
                         | Uninstall \<Rightarrow> pickFromGroup cands need (\<lambda>_ _. True))
           in select_loop input ks (need - sum_list (map sc_bytes picked)) (selected \<union> sc_id ` set picked))"

definition planSpace :: "SpacePlanInput \<Rightarrow> SpacePlan" where
  "planSpace input = planWithSelection input (select_loop input KIND_ORDER (shortOf input) {})"

definition runOrder :: "SpacePlan \<Rightarrow> PlannedStep list" where
  "runOrder plan = filter counts (sp_steps plan)"

section \<open>Drives, links and sizes\<close>

definition isInternalPath :: "string \<Rightarrow> bool" where
  "isInternalPath v \<longleftrightarrow> v = ''/data'' \<or> v = ''/user''"

definition is_lower_letter :: "char \<Rightarrow> bool" where
  "is_lower_letter c \<longleftrightarrow> (let n = of_char c :: nat in 97 \<le> n \<and> n \<le> 122)"

definition driveToken :: "string \<Rightarrow> string" where
  "driveToken v =
     (if isInternalPath v then ''internal''
      else if starts_with ''/mnt/'' v then
        (let r = drop 5 v; ls = takeWhile is_lower_letter r; ds = dropWhile is_lower_letter r in
         if ls \<noteq> [] \<and> ds \<noteq> [] \<and> list_all is_digit ds then r else v)
      else v)"

definition sameDrive :: "string \<Rightarrow> string \<Rightarrow> bool" where
  "sameDrive a b \<longleftrightarrow> driveToken a = driveToken b"

definition drop_trailing_slashes :: "string \<Rightarrow> string" where
  "drop_trailing_slashes v = rev (dropWhile (\<lambda>c. c = CHR ''/'') (rev v))"

definition volumeOfPath :: "string \<Rightarrow> string list \<Rightarrow> string option" where
  "volumeOfPath path volumes =
     (let best = foldl (\<lambda>best v.
            let root = drop_trailing_slashes v in
            if path = root \<or> starts_with (root @ ''/'') path
            then (case best of None \<Rightarrow> Some root | Some b \<Rightarrow> if length root > length b then Some root else best)
            else best) None volumes
      in if truthy best then best
         else if starts_with ''/user/'' path \<or> starts_with ''/data/'' path then List.find isInternalPath volumes
         else None)"

datatype SpacePlanRetry = RetryPkg string string | RetryBack string string

record SpacePlanRequest =
  rq_neededBytes :: rat
  rq_drive :: string
  rq_retry :: "SpacePlanRetry option"

definition show_rounded :: "rat \<Rightarrow> string" where
  "show_rounded q = show_nat (nat (max 0 (math_round q)))"

definition spacePlanPairs :: "SpacePlanRequest \<Rightarrow> (string \<times> string) list" where
  "spacePlanPairs req =
     (let q = AList.update ''drive'' (rq_drive req)
                (AList.update ''need'' (show_rounded (rq_neededBytes req)) (AList.update ''plan'' ''1'' []))
      in case rq_retry req of
           None \<Rightarrow> q
         | Some r \<Rightarrow>
             AList.update ''retry_label'' (case r of RetryPkg _ l \<Rightarrow> l | RetryBack _ l \<Rightarrow> l)
               (AList.update ''retry_to'' (case r of RetryPkg p _ \<Rightarrow> p | RetryBack t _ \<Rightarrow> t)
                 (AList.update ''retry'' (case r of RetryPkg _ _ \<Rightarrow> ''pkg'' | RetryBack _ _ \<Rightarrow> ''back'') q)))"

definition spacePlanLink :: "SpacePlanRequest \<Rightarrow> string" where
  "spacePlanLink req = ''/cleanup?'' @ search_text (spacePlanPairs req)"

definition parseSpacePlanQuery :: "(string \<times> string) list \<Rightarrow> SpacePlanRequest option" where
  "parseSpacePlanQuery q =
     (if map_of q ''plan'' \<noteq> Some ''1'' then None
      else let need = js_number (case map_of q ''need'' of None \<Rightarrow> [] | Some t \<Rightarrow> t);
               kind = map_of q ''retry'';
               to = (case map_of q ''retry_to'' of None \<Rightarrow> [] | Some t \<Rightarrow> t);
               label = (case map_of q ''retry_label'' of None \<Rightarrow> [] | Some l \<Rightarrow> l)
           in Some \<lparr>rq_neededBytes = (case need of Some n \<Rightarrow> if n > 0 then n else 0 | None \<Rightarrow> 0),
                    rq_drive = (case map_of q ''drive'' of None \<Rightarrow> ''internal'' | Some d \<Rightarrow> if d = [] then ''internal'' else d),
                    rq_retry = (if kind = Some ''pkg'' \<and> to \<noteq> [] then Some (RetryPkg to label)
                                else if kind = Some ''back'' \<and> starts_with ''/'' to \<and> \<not> starts_with ''//'' to
                                then Some (RetryBack to label) else None)\<rparr>)"

definition resolveDrive :: "string \<Rightarrow> string list \<Rightarrow> string option" where
  "resolveDrive drive volumes =
     (if drive = ''internal'' \<or> isInternalPath drive then List.find isInternalPath volumes
      else List.find (\<lambda>v. v = drive) volumes)"

definition GIB :: int where
  "GIB = 1024 ^ 3"

text \<open>\<^verbatim>\<open>replace(",", ".")\<close> changes the first comma only.\<close>

fun first_comma_to_dot :: "string \<Rightarrow> string" where
  "first_comma_to_dot [] = []"
| "first_comma_to_dot (c # s) = (if c = CHR '','' then CHR ''.'' # s else c # first_comma_to_dot s)"

definition parseSizeGib :: "string \<Rightarrow> int option" where
  "parseSizeGib text =
     (case js_number (first_comma_to_dot (trim text)) of
        None \<Rightarrow> None
      | Some n \<Rightarrow> if n \<le> 0 then None else Some (math_round (n * of_int GIB)))"

definition gibText :: "int \<Rightarrow> string" where
  "gibText bytes =
     (if \<not> bytes > 0 then []
      else show_tenths (nat \<lceil>(of_int bytes / of_int GIB) * 10 :: rat\<rceil>))"

section \<open>Candidates\<close>

record LeftoverSource =
  ls_id :: nat
  ls_cat :: string
  ls_drive :: string
  ls_action :: string
  ls_default :: bool
  ls_bytes :: int
  ls_alloc_bytes :: int
  ls_path :: string
  ls_name :: "string option"
  ls_title_id :: "string option"

datatype move_kind = MGame | MImage

record MoveSource =
  ms_kind :: move_kind
  ms_name :: string
  ms_path :: string
  ms_volume :: string
  ms_size :: int
  ms_imageFormat :: "string option"
  ms_titleId :: "string option"

datatype install_origin = OPkg | ORegistered

record InstalledSource =
  is_titleId :: string
  is_titleName :: string
  is_origin :: install_origin
  is_system :: bool
  is_base :: "(string \<times> int) option"

record CandidateInput =
  ci_target :: string
  ci_volumes :: "string list"
  ci_imageMounts :: "string list"
  ci_leftovers :: "LeftoverSource list"
  ci_library :: "MoveSource list"
  ci_folderBytes :: "(string \<times> int) list"
  ci_inUsePaths :: "string set"
  ci_inUseImageNames :: "string set"
  ci_installed :: "InstalledSource list"
  ci_collectionIds :: "string set"
  ci_running :: "string set"
  ci_lastPlayed :: "string option \<Rightarrow> int option"

definition GAME_IMAGES :: "string set" where
  "GAME_IMAGES = {''exfat'', ''ffpkg'', ''ffpfsc''}"

definition leafName :: "string \<Rightarrow> string" where
  "leafName path =
     (let leaf = last (split_on CHR ''/'' path) in
      case last_index_of CHR ''.'' leaf of
        None \<Rightarrow> leaf
      | Some i \<Rightarrow> if Suc i < length leaf then take i leaf else leaf)"

definition str_or :: "string option \<Rightarrow> string \<Rightarrow> string" where
  "str_or a b = (case a of None \<Rightarrow> b | Some s \<Rightarrow> if s = [] then b else s)"

definition leftover_candidates :: "CandidateInput \<Rightarrow> SpaceCandidate list" where
  "leftover_candidates input =
     map (\<lambda>l. \<lparr>sc_id = ''leftover:'' @ show_nat (ls_id l), sc_kind = Leftover,
               sc_label = str_or (ls_name l) (str_or (ls_title_id l) (str_or (Some (leafName (ls_path l))) (ls_path l))),
               sc_titleId = ls_title_id l,
               sc_bytes = (if ls_alloc_bytes l > 0 then ls_alloc_bytes l else ls_bytes l),
               sc_lastPlayedMs = None, sc_hasCopy = None, sc_moveTargets = None,
               sc_cleanupId = Some (ls_id l), sc_path = Some (ls_path l)\<rparr>)
       (filter (\<lambda>l. \<not> (ls_drive l \<noteq> driveToken (ci_target input) \<or> ls_cat l = ''A'' \<or> ls_cat l = ''G''
                        \<or> ls_action l = ''none'' \<or> \<not> ls_default l)) (ci_leftovers input))"

definition move_targets :: "CandidateInput \<Rightarrow> string list" where
  "move_targets input =
     filter (\<lambda>v. \<not> sameDrive v (ci_target input) \<and> v \<notin> set (ci_imageMounts input)) (ci_volumes input)"

definition inside_image :: "CandidateInput \<Rightarrow> string \<Rightarrow> bool" where
  "inside_image input p \<longleftrightarrow> (\<exists>m \<in> set (ci_imageMounts input). p = m \<or> starts_with (m @ ''/'') p)"

definition movable :: "CandidateInput \<Rightarrow> MoveSource \<Rightarrow> bool" where
  "movable input e \<longleftrightarrow>
     (let vol = (case volumeOfPath (ms_path e) (ci_volumes input) of None \<Rightarrow> ms_volume e | Some v \<Rightarrow> v) in
      if \<not> sameDrive vol (ci_target input) \<or> inside_image input (ms_path e) then False
      else if ms_kind e = MImage \<and> (case ms_imageFormat e of None \<Rightarrow> [] | Some f \<Rightarrow> f) \<notin> GAME_IMAGES then False
      else if ms_path e \<in> ci_inUsePaths input then False
      else if ms_kind e = MImage \<and> leafName (ms_path e) \<in> ci_inUseImageNames input then False
      else if truthy (ms_titleId e) \<and> to_upper (the (ms_titleId e)) \<in> ci_running input then False
      else True)"

definition move_candidates :: "CandidateInput \<Rightarrow> SpaceCandidate list" where
  "move_candidates input =
     map (\<lambda>e. \<lparr>sc_id = ''move:'' @ ms_path e, sc_kind = Move, sc_label = ms_name e, sc_titleId = ms_titleId e,
               sc_bytes = (if ms_kind e = MImage then ms_size e
                           else case map_of (ci_folderBytes input) (ms_path e) of None \<Rightarrow> 0 | Some b \<Rightarrow> b),
               sc_lastPlayedMs = ci_lastPlayed input (ms_titleId e), sc_hasCopy = None,
               sc_moveTargets = Some (move_targets input), sc_cleanupId = None, sc_path = Some (ms_path e)\<rparr>)
       (filter (movable input) (ci_library input))"

definition uninstallable :: "CandidateInput \<Rightarrow> InstalledSource \<Rightarrow> bool" where
  "uninstallable input t \<longleftrightarrow>
     (if is_origin t \<noteq> OPkg \<or> is_system t then False
      else case is_base t of
             None \<Rightarrow> False
           | Some (path, _) \<Rightarrow>
               if to_upper (is_titleId t) \<in> ci_running input then False
               else let vol = volumeOfPath path (ci_volumes input) in
                    truthy vol \<and> sameDrive (the vol) (ci_target input))"

definition uninstall_candidates :: "CandidateInput \<Rightarrow> SpaceCandidate list" where
  "uninstall_candidates input =
     map (\<lambda>t. \<lparr>sc_id = ''uninstall:'' @ to_upper (is_titleId t), sc_kind = Uninstall, sc_label = is_titleName t,
               sc_titleId = Some (is_titleId t),
               sc_bytes = (case is_base t of None \<Rightarrow> 0 | Some (_, sz) \<Rightarrow> sz),
               sc_lastPlayedMs = ci_lastPlayed input (Some (is_titleId t)),
               sc_hasCopy = Some (to_upper (is_titleId t) \<in> ci_collectionIds input),
               sc_moveTargets = None, sc_cleanupId = None, sc_path = None\<rparr>)
       (filter (uninstallable input) (ci_installed input))"

definition buildCandidates :: "CandidateInput \<Rightarrow> SpaceCandidate list" where
  "buildCandidates input = leftover_candidates input @ move_candidates input @ uninstall_candidates input"

section \<open>The ranking\<close>

definition rank_key :: "int \<Rightarrow> SpaceCandidate \<Rightarrow> int \<times> rat \<times> int \<times> int \<times> string" where
  "rank_key now c =
     (kind_index (sc_kind c), if sc_kind c = Leftover then 0 else ageBand (sc_lastPlayedMs c) now, - sc_bytes c,
      case sc_lastPlayedMs c of None \<Rightarrow> 0 | Some l \<Rightarrow> l, sc_id c)"

lemma kind_index_inj [simp]: "kind_index a = kind_index b \<longleftrightarrow> a = b"
  by (cases a; cases b) (simp_all add: kind_index_def KIND_ORDER_def)

lemma rankCompare_neg: "rankCompare now a b < 0 \<longleftrightarrow> rank_key now a < rank_key now b"
proof (cases "sc_kind a = sc_kind b")
  case True
  define la where "la = (case sc_lastPlayedMs a of None \<Rightarrow> 0 | Some l \<Rightarrow> l)"
  define lb where "lb = (case sc_lastPlayedMs b of None \<Rightarrow> 0 | Some l \<Rightarrow> l)"
  from True show ?thesis
    unfolding rankCompare_def rank_key_def Let_def la_def[symmetric] lb_def[symmetric] less_prod_simp
    by (cases "sc_kind b = Leftover"; cases "ageBand (sc_lastPlayedMs a) now = ageBand (sc_lastPlayedMs b) now";
        cases "sc_bytes a = sc_bytes b"; cases "la = lb") auto
next
  case False
  then have "kind_index (sc_kind a) \<noteq> kind_index (sc_kind b)" by simp
  moreover have "fst (rank_key now c) = kind_index (sc_kind c)" for c by (simp add: rank_key_def)
  ultimately show ?thesis
    unfolding rankCompare_def less_prod_def[of "rank_key now a"] Let_def by (simp only: not_False_eq_True if_True) linarith
qed

lemma rankCompare_flip: "rankCompare now a b > 0 \<longleftrightarrow> rankCompare now b a < 0"
  unfolding rankCompare_def Let_def by auto

lemma rankCompare_le: "rankCompare now a b \<le> 0 \<longleftrightarrow> rank_key now a \<le> rank_key now b"
  using rankCompare_flip[of now a b] rankCompare_neg[of now b a] by (metis linorder_not_less)

interpretation rank: js_comparator "rankCompare now" for now
  by unfold_locales (simp_all add: rankCompare_flip rankCompare_le)

lemma ranked_mset: "mset (ranked_of input) = mset (filter isUsable (in_candidates input))"
  by (simp add: ranked_of_def)

lemma ranked_set [simp]: "set (ranked_of input) = {c \<in> set (in_candidates input). isUsable c}"
  by (auto simp: ranked_of_def)

lemma ranked_distinct:
  assumes "distinct (map sc_id (in_candidates input))"
  shows "distinct (map sc_id (ranked_of input))"
proof -
  have "mset (map sc_id (ranked_of input)) = mset (map sc_id (filter isUsable (in_candidates input)))"
    by (simp add: ranked_mset)
  moreover have "distinct (map sc_id (filter isUsable (in_candidates input)))"
    using assms by (simp add: distinct_map_filter)
  ultimately show ?thesis by (metis mset_eq_imp_distinct_iff)
qed

section \<open>The destinations of the moves\<close>

lemma best_target_None: "best_target R b ts = None \<longleftrightarrow> (\<forall>t \<in> set ts. R t < b)"
  by (induction ts rule: rev_induct) (auto simp: best_target_def split: option.splits)

lemma best_target_Some:
  "best_target R b ts = Some t \<Longrightarrow> t \<in> set ts \<and> R t \<ge> b \<and> (\<forall>u \<in> set ts. R u \<le> R t)"
proof (induction ts arbitrary: t rule: rev_induct)
  case (snoc u us)
  have step: "best_target R b (us @ [u]) =
      (if R u \<ge> b \<and> (case best_target R b us of None \<Rightarrow> True | Some v \<Rightarrow> R u > R v) then Some u else best_target R b us)"
    by (simp add: best_target_def)
  show ?case
  proof (cases "best_target R b us")
    case None
    with snoc.prems step best_target_None[of R b us] show ?thesis by (auto split: if_splits)
  next
    case (Some v)
    from snoc.IH[OF this] snoc.prems step Some show ?thesis by (auto split: if_splits)
  qed
qed (simp add: best_target_def)

text \<open>The destinations of a list of moves in order, and the room they leave.\<close>

definition after_move :: "SpaceCandidate \<Rightarrow> (string \<Rightarrow> int) \<Rightarrow> (string \<Rightarrow> int)" where
  "after_move c R =
     (case best_target R (sc_bytes c) (targets_of c) of None \<Rightarrow> R | Some t \<Rightarrow> R(t := R t - sc_bytes c))"

fun places :: "SpaceCandidate list \<Rightarrow> (string \<Rightarrow> int) \<Rightarrow> string option list" where
  "places [] R = []"
| "places (c # cs) R = best_target R (sc_bytes c) (targets_of c) # places cs (after_move c R)"

definition chosen :: "string set \<Rightarrow> SpaceCandidate list \<Rightarrow> SpaceCandidate list" where
  "chosen ids cs = filter (\<lambda>c. sc_kind c = Move \<and> sc_id c \<in> ids) cs"

lemma chosen_Nil [simp]: "chosen ids [] = []"
  by (simp add: chosen_def)

lemma chosen_Cons [simp]:
  "chosen ids (c # cs) = (if sc_kind c = Move \<and> sc_id c \<in> ids then c # chosen ids cs else chosen ids cs)"
  by (simp add: chosen_def)

lemma length_places [simp]: "length (places cs R) = length cs"
  by (induction cs arbitrary: R) auto

lemma places_append: "places (xs @ ys) R = places xs R @ places ys (foldl (\<lambda>R c. after_move c R) R xs)"
  by (induction xs arbitrary: R) auto

lemma chosen_ids: "sc_id ` set (chosen ids cs) \<subseteq> sc_id ` set cs"
  by (auto simp: chosen_def)

lemma map_add_upd_None: "m k = None \<Longrightarrow> (out(k \<mapsto> b)) ++ m = out ++ (\<lambda>a. if a = k then Some b else m a)"
  by (auto simp: map_add_def fun_eq_iff split: option.splits)

lemma assign_loop_places:
  "distinct (map sc_id cs) \<Longrightarrow>
     assign_loop cs ids R out = out ++ map_of (zip (map sc_id (chosen ids cs)) (places (chosen ids cs) R))"
proof (induction cs arbitrary: R out)
  case (Cons c cs)
  let ?rest = "map_of (zip (map sc_id (chosen ids cs)) (places (chosen ids cs) (after_move c R)))"
  have "sc_id c \<notin> dom ?rest"
    using Cons.prems chosen_ids[of ids cs] by auto
  then have upd: "(out(sc_id c \<mapsto> b)) ++ ?rest = out ++ (\<lambda>a. if a = sc_id c then Some b else ?rest a)" for b
    by (intro map_add_upd_None) (simp only: domIff not_not)
  have "assign_loop (c # cs) ids R out =
      (if sc_kind c = Move \<and> sc_id c \<in> ids
       then assign_loop cs ids (after_move c R) (out(sc_id c \<mapsto> best_target R (sc_bytes c) (targets_of c)))
       else assign_loop cs ids R out)"
    by (simp add: Let_def after_move_def)
  then show ?case using Cons.prems Cons.IH upd by simp
qed simp

lemma chosen_distinct: "distinct (map sc_id cs) \<Longrightarrow> distinct (map sc_id (chosen ids cs))"
  by (simp add: chosen_def distinct_map_filter)

lemma assignMoves_nth:
  assumes "distinct (map sc_id cs)" "i < length (chosen ids cs)"
  shows "assignMoves cs ids rooms (sc_id (chosen ids cs ! i)) = Some (places (chosen ids cs) (room_of rooms) ! i)"
  using assms chosen_distinct[OF assms(1), of ids]
  by (auto simp: assignMoves_def assign_loop_places in_set_zip intro!: exI[of _ i])

text \<open>No drive is given more than it has room for.\<close>

lemma places_within:
  assumes "\<And>c. c \<in> set cs \<Longrightarrow> sc_bytes c > 0"
  shows "(\<Sum>(c, p) \<leftarrow> zip cs (places cs R). if p = Some d then sc_bytes c else 0) \<le> max 0 (R d)"
  using assms
proof (induction cs arbitrary: R)
  case (Cons c cs)
  have pos: "sc_bytes c > 0" using Cons.prems by simp
  have IH: "(\<Sum>(c, p) \<leftarrow> zip cs (places cs (after_move c R)). if p = Some d then sc_bytes c else 0) \<le> max 0 (after_move c R d)"
    using Cons by simp
  show ?case
  proof (cases "best_target R (sc_bytes c) (targets_of c)")
    case None
    with IH show ?thesis by (simp add: after_move_def)
  next
    case (Some t)
    with best_target_Some[OF Some] IH pos show ?thesis by (auto simp: after_move_def split: if_splits)
  qed
qed simp

lemma places_target:
  "(c, Some t) \<in> set (zip cs (places cs R)) \<Longrightarrow> t \<in> set (targets_of c)"
  by (induction cs arbitrary: R) (auto dest: best_target_Some[OF sym])

section \<open>A selection and its totals\<close>

lemma fst_tally: "fst (tally ss (f, a, l)) = f + (\<Sum>s \<leftarrow> filter counts ss. sc_bytes (ps_candidate s))"
  by (induction ss arbitrary: f a l) auto

lemma tally_actions:
  "fst (snd (tally ss (f, a, l))) =
     a + length (filter (\<lambda>s. counts s \<and> sc_kind (ps_candidate s) \<noteq> Leftover) ss)
       + (if \<not> l \<and> (\<exists>s \<in> set ss. counts s \<and> sc_kind (ps_candidate s) = Leftover) then 1 else 0)"
  by (induction ss arbitrary: f a l) auto

lemma planWithSelection_simps:
  "sp_steps (planWithSelection input ids) =
     map (step_of (assignMoves (ranked_of input) ids (destRoom input)) ids) (ranked_of input)"
  "shortBytes (planWithSelection input ids) = shortOf input"
  "freedBytes (planWithSelection input ids) =
     (\<Sum>s \<leftarrow> runOrder (planWithSelection input ids). sc_bytes (ps_candidate s))"
  "missingBytes (planWithSelection input ids) = max 0 (shortOf input - freedBytes (planWithSelection input ids))"
  "enough (planWithSelection input ids) \<longleftrightarrow> missingBytes (planWithSelection input ids) = 0"
  using fst_tally[of _ 0 0 False]
  by (auto simp: planWithSelection_def Let_def runOrder_def split: prod.splits) (metis add_0 fst_conv)+

lemma step_of_sel [simp]: "ps_candidate (step_of D S c) = c" "ps_selected (step_of D S c) \<longleftrightarrow> sc_id c \<in> S"
  by (simp_all add: step_of_def Let_def)

lemma steps_usable: "s \<in> set (sp_steps (planWithSelection input ids)) \<Longrightarrow>
    ps_candidate s \<in> set (in_candidates input) \<and> isUsable (ps_candidate s)"
  by (auto simp: planWithSelection_simps step_of_def Let_def)

lemma usable_pos: "isUsable c \<Longrightarrow> sc_bytes c > 0"
  by (simp add: isUsable_def split: if_splits)

text \<open>What a drive is given by the selected moves is what \<open>places\<close> gives it.\<close>

lemma dest_sum:
  assumes "distinct (map sc_id cs)"
  shows "(\<Sum>s \<leftarrow> map (step_of (assignMoves cs ids rooms) ids) cs. if ps_dest s = Some d then sc_bytes (ps_candidate s) else 0)
     = (\<Sum>(c, p) \<leftarrow> zip (chosen ids cs) (places (chosen ids cs) (room_of rooms)). if p = Some d then sc_bytes c else 0)"
    (is "?l = ?r")
proof -
  let ?A = "assignMoves cs ids rooms" and ?ch = "chosen ids cs"
  let ?g = "\<lambda>c. if ?A (sc_id c) = Some (Some d) then sc_bytes c else 0"
  have "?l = (\<Sum>c \<leftarrow> cs. if sc_kind c = Move \<and> sc_id c \<in> ids then ?g c else 0)"
    by (auto simp: step_of_def Let_def o_def split: option.splits intro!: arg_cong[where f = sum_list] map_cong)
  also have "\<dots> = sum_list (map ?g ?ch)"
    by (simp add: chosen_def sum_list_map_filter')
  also have "map ?g ?ch = map (\<lambda>(c, p). if p = Some d then sc_bytes c else 0) (zip ?ch (places ?ch (room_of rooms)))"
    by (rule nth_equalityI) (use assignMoves_nth[OF assms] in auto)
  finally show ?thesis .
qed

lemma dest_target:
  assumes d: "distinct (map sc_id cs)" and c: "c \<in> set cs" and s: "ps_dest (step_of (assignMoves cs ids rooms) ids c) = Some t"
  shows "sc_kind c = Move \<and> sc_id c \<in> ids \<and> t \<in> set (targets_of c)"
proof -
  from s have m: "sc_kind c = Move" "sc_id c \<in> ids" "assignMoves cs ids rooms (sc_id c) = Some (Some t)"
    by (auto simp: step_of_def Let_def split: if_splits option.splits)
  then have "c \<in> set (chosen ids cs)" using c by (simp add: chosen_def)
  then obtain i where i: "i < length (chosen ids cs)" "chosen ids cs ! i = c" by (auto simp: in_set_conv_nth)
  with assignMoves_nth[OF d i(1), of rooms] m(3) have "places (chosen ids cs) (room_of rooms) ! i = Some t" by simp
  with i have "(c, Some t) \<in> set (zip (chosen ids cs) (places (chosen ids cs) (room_of rooms)))"
    by (auto simp: in_set_zip intro!: exI[of _ i])
  with places_target m show ?thesis by blast
qed

section \<open>Picking from a group\<close>

abbreviation total :: "SpaceCandidate list \<Rightarrow> int" where
  "total cs \<equiv> sum_list (map sc_bytes cs)"

lemma total_remove_at: "i < length xs \<Longrightarrow> total (remove_at i xs) = total xs - sc_bytes (xs ! i)"
  by (metis (no_types, lifting) mset_remove_at add_diff_cancel_left' image_mset_add_mset mset_map sum_mset.insert sum_mset_sum_list)

lemma subseq_remove_at: "i < length xs \<Longrightarrow> subseq (remove_at i xs) xs"
  unfolding remove_at_def
  by (metis Cons_nth_drop_Suc append_take_drop_id list_emb_append_mono subseq_Cons' subseq_order.order_refl)

lemma nth_remove_at: "j < length xs - 1 \<Longrightarrow> i < length xs \<Longrightarrow> remove_at i xs ! j = (if j < i then xs ! j else xs ! Suc j)"
  by (auto simp: remove_at_def nth_append min_def)

lemma put_back_spec:
  assumes "i \<le> length xs" "total xs \<ge> need" "\<And>j. i \<le> j \<Longrightarrow> j < length xs \<Longrightarrow> total xs - sc_bytes (xs ! j) < need"
    and "\<And>c. c \<in> set xs \<Longrightarrow> sc_bytes c > 0" and "ys = put_back i need xs (total xs)"
  shows "subseq ys xs \<and> total ys \<ge> need \<and> (\<forall>j < length ys. total ys - sc_bytes (ys ! j) < need)"
  using assms
proof (induction i arbitrary: xs)
  case (Suc i)
  let ?zs = "remove_at i xs"
  have tz: "total ?zs = total xs - sc_bytes (xs ! i)" using Suc.prems(1) by (simp add: total_remove_at)
  show ?case
  proof (cases "total xs - sc_bytes (xs ! i) \<ge> need")
    case True
    have pos: "sc_bytes (xs ! i) > 0" using Suc.prems(1,4) by simp
    have "subseq ys ?zs \<and> total ys \<ge> need \<and> (\<forall>j < length ys. total ys - sc_bytes (ys ! j) < need)"
    proof (rule Suc.IH)
      show "total ?zs - sc_bytes (?zs ! j) < need" if "i \<le> j" "j < length ?zs" for j
      proof -
        have "Suc j < length xs" "total xs - sc_bytes (xs ! Suc j) < need"
          using that Suc.prems(1) Suc.prems(3)[of "Suc j"] by simp_all
        then show ?thesis using that pos Suc.prems(1) by (simp add: nth_remove_at tz)
      qed
      show "sc_bytes c > 0" if "c \<in> set ?zs" for c
        using that Suc.prems(4) set_remove_at_subset by fastforce
    qed (use Suc.prems True tz in auto)
    with subseq_remove_at[of i xs] Suc.prems(1) show ?thesis by (auto intro: subseq_order.trans)
  next
    case False
    have "total xs - sc_bytes (xs ! j) < need" if "i \<le> j" "j < length xs" for j
      using that Suc.prems(3)[of j] False by (cases "i = j") auto
    with Suc.IH[of xs] Suc.prems False show ?thesis by auto
  qed
qed auto

lemma take_loop_spec:
  assumes "take_loop cs need fits taken (total taken) = (zs, t)"
  shows "t = total zs \<and> (\<exists>ws. zs = taken @ ws \<and> subseq ws cs)"
  using assms
proof (induction cs arbitrary: taken)
  case (Cons c cs)
  show ?case
  proof (cases "total taken \<ge> need")
    case True
    with Cons.prems show ?thesis by auto
  next
    case False
    show ?thesis
    proof (cases "fits c taken")
      case True
      then have "take_loop cs need fits (taken @ [c]) (total (taken @ [c])) = (zs, t)" using Cons.prems False by simp
      from Cons.IH[OF this] show ?thesis by auto
    next
      case nofit: False
      with Cons.prems False Cons.IH[of taken] show ?thesis by auto
    qed
  qed
qed auto

text \<open>When everything fits, the loop stops short of the need only after taking everything.\<close>

lemma take_loop_all:
  assumes "take_loop cs need (\<lambda>_ _. True) taken (total taken) = (zs, t)" "t < need"
  shows "zs = taken @ cs"
  using assms
proof (induction cs arbitrary: taken)
  case (Cons c cs)
  show ?case
  proof (cases "total taken \<ge> need")
    case True
    with Cons.prems show ?thesis by auto
  next
    case False
    then have "take_loop cs need (\<lambda>_ _. True) (taken @ [c]) (total (taken @ [c])) = (zs, t)" using Cons.prems by simp
    from Cons.IH[OF this Cons.prems(2)] show ?thesis by simp
  qed
qed auto

lemma subseq_set: "subseq xs ys \<Longrightarrow> x \<in> set xs \<Longrightarrow> x \<in> set ys"
  by (induction rule: list_emb.induct) auto

lemma find_subseq: "List.find P xs = Some x \<Longrightarrow> subseq [x] xs"
  by (auto simp: find_Some_iff subseq_singleton_left)

lemma pick_cases:
  assumes "need > 0" "\<And>c. c \<in> set cs \<Longrightarrow> sc_bytes c > 0"
  obtains (single) c where "pickFromGroup cs need fits = [c]" "subseq [c] cs" "sc_bytes c \<ge> need" "fits c []"
  | (short) zs where "take_loop cs need fits [] 0 = (zs, total zs)" "pickFromGroup cs need fits = zs" "subseq zs cs" "total zs < need"
  | (covered) zs ys where "take_loop cs need fits [] 0 = (zs, total zs)" "pickFromGroup cs need fits = ys" "subseq ys zs" "subseq zs cs"
      "total ys \<ge> need" "\<forall>j < length ys. total ys - sc_bytes (ys ! j) < need"
proof (cases "List.find (\<lambda>c. sc_bytes c \<ge> need \<and> fits c []) cs")
  case (Some c)
  then have "pickFromGroup cs need fits = [c]" using assms(1) by (simp add: pickFromGroup_def)
  moreover have "sc_bytes c \<ge> need \<and> fits c []" using Some by (auto simp: find_Some_iff)
  ultimately show ?thesis using single find_subseq[OF Some] by blast
next
  case None
  obtain zs t where z: "take_loop cs need fits [] 0 = (zs, t)" by fastforce
  with take_loop_spec[of cs need fits "[]" zs t] have t: "t = total zs" "subseq zs cs" by auto
  have pos: "sc_bytes c > 0" if "c \<in> set zs" for c
    using assms(2)[OF subseq_set[OF t(2) that]] .
  show ?thesis
  proof (cases "t < need")
    case True
    with short[of zs] z t None assms(1) show ?thesis by (simp add: pickFromGroup_def)
  next
    case False
    with covered[of zs "put_back (length zs) need zs (total zs)"] put_back_spec[of "length zs" zs need, OF _ _ _ pos refl]
      z t None assms(1) show ?thesis by (simp add: pickFromGroup_def)
  qed
qed

lemma pick_subseq:
  assumes "\<And>c. c \<in> set cs \<Longrightarrow> sc_bytes c > 0"
  shows "subseq (pickFromGroup cs need fits) cs"
proof (cases "need > 0")
  case True
  from this assms show ?thesis
    by (rule pick_cases[where fits = fits]) (auto intro: subseq_order.trans)
qed (simp add: pickFromGroup_def)

lemma pick_covers:
  assumes "need > 0" "\<And>c. c \<in> set cs \<Longrightarrow> sc_bytes c > 0"
  shows "total (pickFromGroup cs need (\<lambda>_ _. True)) \<ge> min need (total cs)"
proof -
  have "zs = cs" if "take_loop cs need (\<lambda>_ _. True) [] 0 = (zs, total zs)" "total zs < need" for zs
    using take_loop_all[of cs need "[]" zs "total zs"] that by simp
  with assms show ?thesis by (rule_tac pick_cases[where fits = "\<lambda>_ _. True"]) auto
qed


section \<open>The proposed plan\<close>

text \<open>Room that can take at least as much as other room: for every size, as many drives have it. When all the
  moves may go to the same drives, giving each the emptiest drive keeps this order.\<close>

definition drives_with :: "string set \<Rightarrow> (string \<Rightarrow> int) \<Rightarrow> int \<Rightarrow> nat" where
  "drives_with T R x = card {t \<in> T. R t \<ge> x}"

definition roomier :: "string set \<Rightarrow> (string \<Rightarrow> int) \<Rightarrow> (string \<Rightarrow> int) \<Rightarrow> bool" where
  "roomier T R R' \<longleftrightarrow> (\<forall>x. drives_with T R x \<le> drives_with T R' x)"

lemma card_upd:
  assumes "finite T" "t \<in> T"
  shows "drives_with T (R(t := r)) x + (if R t \<ge> x then 1 else 0) = drives_with T R x + (if r \<ge> x then 1 else 0)"
proof -
  let ?S = "{u \<in> T. u \<noteq> t \<and> R u \<ge> x}"
  have "{u \<in> T. (R(t := r)) u \<ge> x} = (if r \<ge> x then insert t ?S else ?S)" using assms by auto
  moreover have "{u \<in> T. R u \<ge> x} = (if R t \<ge> x then insert t ?S else ?S)" using assms by auto
  moreover have "finite ?S" "t \<notin> ?S" using assms by auto
  ultimately show ?thesis unfolding drives_with_def by (simp add: card_insert_disjoint)
qed

lemma roomier_some:
  assumes "finite T" "roomier T R R'" "t \<in> T"
  shows "\<exists>u \<in> T. R' u \<ge> R t"
proof -
  have "drives_with T R (R t) > 0" using assms by (auto simp: drives_with_def card_gt_0_iff)
  with assms(2) have "drives_with T R' (R t) > 0" unfolding roomier_def by (meson less_le_trans)
  then show ?thesis by (auto simp: drives_with_def card_gt_0_iff)
qed

lemma roomier_refl [simp]: "roomier T R R"
  by (simp add: roomier_def)

lemma roomier_trans: "roomier T R R' \<Longrightarrow> roomier T R' R'' \<Longrightarrow> roomier T R R''"
  unfolding roomier_def by (meson le_trans)

lemma roomier_after:
  assumes "finite T" "set (targets_of c) = T" "sc_bytes c > 0"
  shows "roomier T (after_move c R) R"
proof (cases "best_target R (sc_bytes c) (targets_of c)")
  case (Some t)
  then have "t \<in> T" using best_target_Some assms(2) by blast
  have "drives_with T (R(t := R t - sc_bytes c)) x \<le> drives_with T R x" for x
    unfolding drives_with_def using assms by (intro card_mono) auto
  with Some show ?thesis by (simp add: roomier_def after_move_def)
qed (simp add: after_move_def)

lemma roomier_step:
  assumes T: "finite T" "set (targets_of c) = T" and pos: "sc_bytes c > 0" and dom: "roomier T R R'"
    and t: "best_target R (sc_bytes c) (targets_of c) = Some t"
  shows "best_target R' (sc_bytes c) (targets_of c) \<noteq> None \<and> roomier T (after_move c R) (after_move c R')"
proof -
  from best_target_Some[OF t] T have t': "t \<in> T" "R t \<ge> sc_bytes c" "\<And>u. u \<in> T \<Longrightarrow> R u \<le> R t" by auto
  obtain u0 where "u0 \<in> T" "R' u0 \<ge> R t" using roomier_some[OF T(1) dom t'(1)] by blast
  with t' T have "best_target R' (sc_bytes c) (targets_of c) \<noteq> None"
    using best_target_None[of R' "sc_bytes c" "targets_of c"] by force
  then obtain v where v: "best_target R' (sc_bytes c) (targets_of c) = Some v" by blast
  from best_target_Some[OF v] T \<open>u0 \<in> T\<close> \<open>R' u0 \<ge> R t\<close> have v': "v \<in> T" "R' v \<ge> R t" by force+
  have "drives_with T (R(t := R t - sc_bytes c)) x \<le> drives_with T (R'(v := R' v - sc_bytes c)) x" for x
  proof (cases "x \<le> R t")
    case True
    with card_upd[OF T(1) t'(1), where R = R and r = "R t - sc_bytes c" and x = x] card_upd[OF T(1) v'(1), where R = R' and r = "R' v - sc_bytes c" and x = x]
      dom[unfolded roomier_def, rule_format, of x] v'(2) show ?thesis by (simp split: if_splits)
  next
    case False
    then have "{u \<in> T. (R(t := R t - sc_bytes c)) u \<ge> x} = {}" using t'(1,3) pos by (fastforce split: if_splits)
    then show ?thesis unfolding drives_with_def by (metis card.empty le0)
  qed
  with t v show ?thesis by (simp add: roomier_def after_move_def)
qed

definition all_placed :: "SpaceCandidate list \<Rightarrow> (string \<Rightarrow> int) \<Rightarrow> bool" where
  "all_placed cs R \<longleftrightarrow> None \<notin> set (places cs R)"

lemma all_placed_Nil [simp]: "all_placed [] R"
  by (simp add: all_placed_def)

lemma all_placed_Cons [simp]:
  "all_placed (c # cs) R \<longleftrightarrow> best_target R (sc_bytes c) (targets_of c) \<noteq> None \<and> all_placed cs (after_move c R)"
  unfolding all_placed_def places.simps by (metis list.set_intros(1,2) set_ConsD)

lemma all_placed_append: "all_placed (xs @ ys) R \<longleftrightarrow> all_placed xs R \<and> all_placed ys (foldl (\<lambda>R c. after_move c R) R xs)"
  by (auto simp: all_placed_def places_append)

text \<open>A part of the moves that all found a drive finds one too, in at least as much room.\<close>

lemma all_placed_subseq:
  assumes "subseq ys xs" "all_placed xs R" "roomier T R R'" "finite T"
    and "\<And>c. c \<in> set xs \<Longrightarrow> set (targets_of c) = T \<and> sc_bytes c > 0"
  shows "all_placed ys R'"
  using assms
proof (induction arbitrary: R R' rule: list_emb.induct)
  case (list_emb_Cons xs ys y)
  have "roomier T (after_move y R) R'"
    using roomier_after[of T y R] list_emb_Cons.prems roomier_trans by (auto intro: roomier_trans)
  with list_emb_Cons.IH[of "after_move y R" R'] list_emb_Cons.prems show ?case by simp
next
  case (list_emb_Cons2 x y xs ys)
  with roomier_step[of T y R R'] show ?case by auto
qed auto

lemma filter_ids_subseq:
  "subseq ys xs \<Longrightarrow> distinct (map sc_id xs) \<Longrightarrow> filter (\<lambda>c. sc_id c \<in> sc_id ` set ys) xs = ys"
proof (induction rule: list_emb.induct)
  case (list_emb_Cons xs ys y)
  then have "sc_id y \<notin> sc_id ` set xs" using subseq_set by fastforce
  with list_emb_Cons show ?case by auto
next
  case (list_emb_Cons2 x y xs ys)
  have "filter (\<lambda>c. sc_id c \<in> insert (sc_id y) (sc_id ` set xs)) ys = filter (\<lambda>c. sc_id c \<in> sc_id ` set xs) ys"
    using list_emb_Cons2.prems by (intro filter_cong) (auto, metis imageI)
  with list_emb_Cons2 show ?case by simp
qed simp

lemma kind_subseq:
  assumes "distinct (map sc_id cs)" "subseq ys (filter (\<lambda>c. sc_kind c = k) cs)"
  shows "filter (\<lambda>c. sc_kind c = k \<and> sc_id c \<in> sc_id ` set ys) cs = ys"
proof -
  have "filter (\<lambda>c. sc_id c \<in> sc_id ` set ys) (filter (\<lambda>c. sc_kind c = k) cs) = ys"
    using filter_ids_subseq[OF assms(2)] assms(1) by (simp add: distinct_map_filter)
  then show ?thesis by (simp add: conj_commute)
qed

lemma chosen_subseq:
  "distinct (map sc_id cs) \<Longrightarrow> subseq ys (filter (\<lambda>c. sc_kind c = Move) cs) \<Longrightarrow> chosen (sc_id ` set ys) cs = ys"
  unfolding chosen_def by (rule kind_subseq)

text \<open>A candidate still fits exactly when it and the taken ones all find a drive.\<close>

abbreviation start_room :: "SpacePlanInput \<Rightarrow> string \<Rightarrow> int" where
  "start_room input \<equiv> room_of (destRoom input)"

abbreviation group_of :: "SpacePlanInput \<Rightarrow> SpaceStepKind \<Rightarrow> SpaceCandidate list" where
  "group_of input k \<equiv> filter (\<lambda>c. sc_kind c = k) (ranked_of input)"

lemma move_fits_iff:
  assumes d: "distinct (map sc_id (ranked_of input))" and s: "subseq (taken @ [c]) (group_of input Move)"
    and p: "all_placed taken (start_room input)"
  shows "move_fits input c taken \<longleftrightarrow> all_placed (taken @ [c]) (start_room input)"
proof -
  let ?ids = "insert (sc_id c) (sc_id ` set taken)"
  have "chosen ?ids (ranked_of input) = taken @ [c]" using chosen_subseq[OF d s] by simp
  with assignMoves_nth[OF d, of "length taken" ?ids "destRoom input"]
  have "assignMoves (ranked_of input) ?ids (destRoom input) (sc_id c) = Some (places (taken @ [c]) (start_room input) ! length taken)"
    by simp
  with p show ?thesis by (auto simp: move_fits_def places_append all_placed_append nth_append split: option.splits)
qed

lemma take_loop_placed:
  assumes "distinct (map sc_id (ranked_of input))" "subseq (taken @ cs) (group_of input Move)"
    "all_placed taken (start_room input)" "take_loop cs need (move_fits input) taken t = (zs, u)"
  shows "all_placed zs (start_room input)"
  using assms(2,3,4)
proof (induction cs arbitrary: taken t)
  case (Cons c cs)
  have sub: "subseq (taken @ [c]) (group_of input Move)" "subseq (taken @ cs) (group_of input Move)"
    using Cons.prems(1) by (auto elim!: subseq_order.trans[rotated] simp: subseq_append')
  show ?case
  proof (cases "t \<ge> need")
    case False
    with Cons.IH[of "taken @ [c]" "t + sc_bytes c"] Cons.IH[of taken t] Cons.prems sub move_fits_iff[OF assms(1) sub(1) Cons.prems(2)]
    show ?thesis by (auto split: if_splits)
  qed (use Cons.prems in auto)
qed auto

lemma pick_moves_placed:
  assumes d: "distinct (map sc_id (ranked_of input))" and T: "finite T"
    and m: "\<And>c. c \<in> set (group_of input Move) \<Longrightarrow> set (targets_of c) = T"
  shows "all_placed (pickFromGroup (group_of input Move) need (move_fits input)) (start_room input)"
proof (cases "need > 0")
  case True
  have pos: "sc_bytes c > 0" if "c \<in> set (group_of input Move)" for c using that by (auto intro: usable_pos)
  have placed: "all_placed zs (start_room input)" if "take_loop (group_of input Move) need (move_fits input) [] 0 = (zs, u)" for zs u
    using take_loop_placed[OF d _ _ that] by simp
  from True pos show ?thesis
  proof (rule pick_cases[where fits = "move_fits input"])
    fix c assume c: "pickFromGroup (group_of input Move) need (move_fits input) = [c]"
      "subseq [c] (group_of input Move)" "move_fits input c []"
    with move_fits_iff[OF d, of "[]" c] show ?thesis by simp
  next
    fix zs ys
    assume "take_loop (group_of input Move) need (move_fits input) [] 0 = (zs, total zs)" "subseq ys zs"
      "pickFromGroup (group_of input Move) need (move_fits input) = ys" "subseq zs (group_of input Move)"
    moreover have "set (targets_of c) = T \<and> sc_bytes c > 0" if "c \<in> set zs" for c
      using calculation(4) m pos subseq_set that by meson
    ultimately show ?thesis
      using all_placed_subseq[of ys zs "start_room input" T "start_room input"] placed T by auto
  qed (use placed in auto)
qed (simp add: pickFromGroup_def)

text \<open>The three picks of a plan.\<close>

definition picks :: "SpacePlanInput \<Rightarrow> SpaceStepKind \<Rightarrow> SpaceCandidate list" where
  "picks input k =
     (let l = pickFromGroup (group_of input Leftover) (shortOf input) (\<lambda>_ _. True);
          m = pickFromGroup (group_of input Move) (shortOf input - total l) (move_fits input)
      in case k of
           Leftover \<Rightarrow> l
         | Move \<Rightarrow> m
         | Uninstall \<Rightarrow> pickFromGroup (group_of input Uninstall) (shortOf input - total l - total m) (\<lambda>_ _. True))"

lemma pick_none: "need \<le> 0 \<Longrightarrow> pickFromGroup cs need fits = []"
  by (simp add: pickFromGroup_def)

lemma select_picks: "select_loop input KIND_ORDER (shortOf input) {} = (\<Union>k. sc_id ` set (picks input k))"
proof -
  have u: "(UNIV :: SpaceStepKind set) = {Leftover, Move, Uninstall}" using SpaceStepKind.exhaust by auto
  show ?thesis by (auto simp: u KIND_ORDER_def picks_def Let_def pick_none)
qed

lemma group_pos: "c \<in> set (group_of input k) \<Longrightarrow> sc_bytes c > 0"
  by (auto intro: usable_pos)

lemma picks_subseq: "subseq (picks input k) (group_of input k)"
  by (cases k) (auto simp: picks_def Let_def intro!: pick_subseq intro: group_pos)

lemma picks_kind: "c \<in> set (picks input k) \<Longrightarrow> sc_kind c = k \<and> c \<in> set (ranked_of input)"
  using subseq_set[OF picks_subseq] by fastforce

lemma selected_kind:
  assumes "distinct (map sc_id (ranked_of input))"
  shows "filter (\<lambda>c. sc_kind c = k \<and> sc_id c \<in> (\<Union>k. sc_id ` set (picks input k))) (ranked_of input) = picks input k"
proof -
  have "sc_id c \<in> sc_id ` set (picks input k)"
    if "c \<in> set (ranked_of input)" "sc_kind c = k" "sc_id c \<in> sc_id ` set (picks input j)" for c j
  proof -
    from that(3) obtain e where e: "e \<in> set (picks input j)" "sc_id e = sc_id c" by auto
    with picks_kind assms that(1) have "e = c" by (metis distinct_map inj_on_eq_iff)
    with e picks_kind that(2) show ?thesis by blast
  qed
  then have "filter (\<lambda>c. sc_kind c = k \<and> sc_id c \<in> (\<Union>k. sc_id ` set (picks input k))) (ranked_of input)
      = filter (\<lambda>c. sc_kind c = k \<and> sc_id c \<in> sc_id ` set (picks input k)) (ranked_of input)"
    by (intro filter_cong) auto
  also have "\<dots> = picks input k" by (rule kind_subseq[OF assms picks_subseq])
  finally show ?thesis .
qed

lemma picks_cover:
  assumes "shortOf input \<le> total (group_of input Leftover) + total (group_of input Uninstall)"
  shows "shortOf input \<le> total (picks input Leftover) + total (picks input Move) + total (picks input Uninstall)"
proof -
  let ?l = "picks input Leftover" and ?m = "picks input Move" and ?u = "picks input Uninstall"
  let ?n = "shortOf input - total ?l - total ?m"
  have nonneg: "total (picks input k) \<ge> 0" for k
    using picks_kind by (intro sum_list_nonneg) (fastforce simp: less_imp_le usable_pos)
  have "shortOf input \<le> 0 \<or> total ?l \<ge> min (shortOf input) (total (group_of input Leftover))"
    using pick_covers[of "shortOf input" "group_of input Leftover"] group_pos by (fastforce simp: picks_def Let_def)
  moreover have "?n \<le> 0 \<or> total ?u \<ge> min ?n (total (group_of input Uninstall))"
    using pick_covers[of ?n "group_of input Uninstall"] group_pos by (fastforce simp: picks_def Let_def)
  ultimately show ?thesis using assms nonneg[of Leftover] nonneg[of Move] nonneg[of Uninstall] by linarith
qed


lemma planSpace_selection:
  "planSpace input = planWithSelection input (\<Union>k. sc_id ` set (picks input k))"
  by (simp add: planSpace_def select_picks)

text \<open>Every selected move of the proposed plan has a drive, when all the moves may go to the same drives.\<close>

lemma planSpace_dest:
  assumes d: "distinct (map sc_id (in_candidates input))"
    and m: "\<And>c. c \<in> set (in_candidates input) \<Longrightarrow> sc_kind c = Move \<Longrightarrow> targets_of c = ts"
    and s: "s \<in> set (sp_steps (planSpace input))" "ps_selected s" "sc_kind (ps_candidate s) = Move"
  shows "\<exists>t \<in> set ts. ps_dest s = Some t"
proof -
  let ?S = "\<Union>k. sc_id ` set (picks input k)" and ?r = "ranked_of input"
  have dr: "distinct (map sc_id ?r)" using ranked_distinct[OF d] .
  obtain c where c: "c \<in> set ?r" "s = step_of (assignMoves ?r ?S (destRoom input)) ?S c" "sc_id c \<in> ?S" "sc_kind c = Move"
    using s by (auto simp: planSpace_selection planWithSelection_simps step_of_def Let_def)
  have ch: "chosen ?S ?r = picks input Move" unfolding chosen_def by (rule selected_kind[OF dr])
  have placed: "all_placed (chosen ?S ?r) (start_room input)"
    unfolding ch using pick_moves_placed[OF dr, of "set ts"] m by (auto simp: picks_def Let_def)
  from c(1,3,4) have "c \<in> set (chosen ?S ?r)" by (simp add: chosen_def)
  then obtain i where i: "i < length (chosen ?S ?r)" "chosen ?S ?r ! i = c" by (auto simp: in_set_conv_nth)
  have "places (chosen ?S ?r) (start_room input) ! i \<noteq> None"
    using placed i(1) by (metis all_placed_def length_places nth_mem)
  with assignMoves_nth[OF dr i(1), of "destRoom input"] i(2) c
  obtain t where t: "ps_dest s = Some t" by (auto simp: step_of_def Let_def)
  with dest_target[OF dr c(1)] c(2) have "t \<in> set (targets_of c)" by metis
  with t m c show ?thesis by auto
qed

lemma total_by_kind: "total (filter P cs) = (\<Sum>k \<leftarrow> KIND_ORDER. total (filter (\<lambda>c. sc_kind c = k \<and> P c) cs))"
proof (induction cs)
  case (Cons c cs)
  then show ?case by (cases "sc_kind c") (auto simp: KIND_ORDER_def)
qed (simp add: KIND_ORDER_def)

lemma planSpace_freed:
  assumes d: "distinct (map sc_id (in_candidates input))" and n: "[] \<notin> set ts"
    and m: "\<And>c. c \<in> set (in_candidates input) \<Longrightarrow> sc_kind c = Move \<Longrightarrow> targets_of c = ts"
  shows "freedBytes (planSpace input) = total (picks input Leftover) + total (picks input Move) + total (picks input Uninstall)"
proof -
  let ?S = "\<Union>k. sc_id ` set (picks input k)" and ?r = "ranked_of input"
  let ?st = "step_of (assignMoves ?r ?S (destRoom input)) ?S"
  have "counts (?st c) \<longleftrightarrow> sc_id c \<in> ?S" if "c \<in> set ?r" for c
  proof -
    have mem: "?st c \<in> set (sp_steps (planSpace input))" unfolding planSpace_selection planWithSelection_simps using that by simp
    have "truthy (ps_dest (?st c))" if "sc_id c \<in> ?S" "sc_kind c = Move"
      using planSpace_dest[OF d m mem] that n unfolding step_of_sel truthy_def by auto
    then show ?thesis unfolding counts_def step_of_sel by blast
  qed
  then have "map ps_candidate (runOrder (planSpace input)) = filter (\<lambda>c. sc_id c \<in> ?S) ?r"
    by (simp only: planSpace_selection runOrder_def planWithSelection_simps filter_map o_def map_map step_of_sel map_ident cong: filter_cong)
  moreover have "freedBytes (planSpace input) = total (map ps_candidate (runOrder (planSpace input)))"
    unfolding planSpace_selection by (simp only: planWithSelection_simps map_map o_def)
  ultimately have "freedBytes (planSpace input) = total (filter (\<lambda>c. sc_id c \<in> ?S) ?r)" by (simp only:)
  also have "\<dots> = (\<Sum>k \<leftarrow> KIND_ORDER. total (filter (\<lambda>c. sc_kind c = k \<and> sc_id c \<in> ?S) ?r))"
    by (rule total_by_kind)
  also have "\<dots> = total (picks input Leftover) + total (picks input Move) + total (picks input Uninstall)"
    using selected_kind[OF ranked_distinct[OF d]] by (simp add: KIND_ORDER_def)
  finally show ?thesis .
qed


section \<open>The candidates\<close>

text \<open>What the sources promise: ids, paths and title ids are unique, and no drive has an empty path.\<close>

definition sources_ok :: "CandidateInput \<Rightarrow> bool" where
  "sources_ok ci \<longleftrightarrow>
     distinct (map ls_id (ci_leftovers ci)) \<and> distinct (map ms_path (ci_library ci)) \<and>
     distinct (map (\<lambda>t. to_upper (is_titleId t)) (ci_installed ci)) \<and> [] \<notin> set (ci_volumes ci)"

lemma distinct_map_inj_filter:
  assumes "distinct (map f xs)" "\<And>x y. g x = g y \<Longrightarrow> f x = f y"
  shows "distinct (map g (filter P xs))"
proof (rule distinct_map_filter)
  have "inj_on g (set xs)" using assms unfolding distinct_map inj_on_def by blast
  with assms(1) show "distinct (map g xs)" by (simp add: distinct_map)
qed

lemma heads_disjoint:
  "(\<And>x. x \<in> A \<Longrightarrow> hd x = a) \<Longrightarrow> (\<And>x. x \<in> B \<Longrightarrow> hd x = b) \<Longrightarrow> a \<noteq> b \<Longrightarrow> A \<inter> B = {}"
  by (metis disjoint_iff)

lemma build_distinct:
  assumes "sources_ok ci"
  shows "distinct (map sc_id (buildCandidates ci))"
proof -
  have "distinct (map sc_id (leftover_candidates ci))"
    unfolding leftover_candidates_def map_map
    by (rule distinct_map_inj_filter[of ls_id]) (use assms in \<open>auto simp: sources_ok_def\<close>)
  moreover have "distinct (map sc_id (move_candidates ci))"
    unfolding move_candidates_def map_map
    by (rule distinct_map_inj_filter[of ms_path]) (use assms in \<open>auto simp: sources_ok_def\<close>)
  moreover have "distinct (map sc_id (uninstall_candidates ci))"
    unfolding uninstall_candidates_def map_map
    by (rule distinct_map_inj_filter[of "\<lambda>t. to_upper (is_titleId t)"]) (use assms in \<open>auto simp: sources_ok_def\<close>)
  moreover have l: "hd x = CHR ''l''" if "x \<in> sc_id ` set (leftover_candidates ci)" for x
    using that by (auto simp: leftover_candidates_def)
  have m: "hd x = CHR ''m''" if "x \<in> sc_id ` set (move_candidates ci)" for x
    using that by (auto simp: move_candidates_def)
  have u: "hd x = CHR ''u''" if "x \<in> sc_id ` set (uninstall_candidates ci)" for x
    using that by (auto simp: uninstall_candidates_def)
  note heads_disjoint[OF l m] heads_disjoint[OF l u] heads_disjoint[OF m u]
  ultimately show ?thesis
    unfolding buildCandidates_def map_append distinct_append set_append set_map Int_Un_distrib by simp
qed

lemma build_targets: "c \<in> set (buildCandidates ci) \<Longrightarrow> sc_kind c = Move \<Longrightarrow> targets_of c = move_targets ci"
  by (auto simp: buildCandidates_def leftover_candidates_def move_candidates_def uninstall_candidates_def targets_of_def)

lemma build_no_empty: "sources_ok ci \<Longrightarrow> [] \<notin> set (move_targets ci)"
  by (auto simp: sources_ok_def move_targets_def)

section \<open>Sizes and links\<close>

lemma first_comma_no [simp]: "CHR '','' \<notin> set s \<Longrightarrow> first_comma_to_dot s = s"
  by (induction s) auto

lemma show_tenths_chars: "c \<in> set (show_tenths k) \<Longrightarrow> is_digit c \<or> c = CHR ''.''"
  using show_nat_digits by (auto simp: show_tenths_def split: if_splits)

lemma show_tenths_ends: "show_tenths k \<noteq> []" "is_digit (hd (show_tenths k))" "is_digit (last (show_tenths k))"
  using show_nat_hd show_nat_last by (auto simp: show_tenths_def)

lemma math_round_mono: "of_int b \<le> q \<Longrightarrow> b \<le> math_round q"
  by (simp add: math_round_def le_floor_iff)



section \<open>Properties\<close>

text \<open>The totals of a plan are those of the steps that will run, for every selection a person makes: what is
  freed is their sum, the plan is enough exactly when that covers the shortage, and what is missing is the
  rest. Every move that runs goes to one of the drives it may go to, and all the moves to a drive together
  fit in the room it has.\<close>

theorem plan_is_honest:
  assumes "distinct (map sc_id (in_candidates input))" "plan = planWithSelection input ids"
  shows "freedBytes plan = (\<Sum>s \<leftarrow> runOrder plan. sc_bytes (ps_candidate s))
    \<and> (enough plan \<longleftrightarrow> shortOf input \<le> freedBytes plan)
    \<and> missingBytes plan = max 0 (shortOf input - freedBytes plan)
    \<and> (\<forall>s \<in> set (sp_steps plan). \<forall>t. ps_dest s = Some t \<longrightarrow>
          ps_selected s \<and> sc_kind (ps_candidate s) = Move \<and> t \<in> set (targets_of (ps_candidate s)))
    \<and> (\<forall>d. (\<Sum>s \<leftarrow> sp_steps plan. if ps_dest s = Some d then sc_bytes (ps_candidate s) else 0)
            \<le> max 0 (room_of (destRoom input) d))"
proof -
  let ?r = "ranked_of input"
  have d: "distinct (map sc_id ?r)" using ranked_distinct[OF assms(1)] .
  have room: "(\<Sum>s \<leftarrow> sp_steps plan. if ps_dest s = Some t then sc_bytes (ps_candidate s) else 0)
      \<le> max 0 (room_of (destRoom input) t)" for t
    unfolding assms(2) planWithSelection_simps dest_sum[OF d]
    by (rule places_within) (auto simp: chosen_def intro: usable_pos)
  have dest: "ps_selected s \<and> sc_kind (ps_candidate s) = Move \<and> t \<in> set (targets_of (ps_candidate s))"
    if "s \<in> set (sp_steps plan)" "ps_dest s = Some t" for s t
  proof -
    from that(1) obtain c where c: "c \<in> set ?r" "s = step_of (assignMoves ?r ids (destRoom input)) ids c"
      unfolding assms(2) planWithSelection_simps by auto
    with dest_target[OF d c(1), of ids "destRoom input" t] that(2) show ?thesis by auto
  qed
  have "freedBytes plan = (\<Sum>s \<leftarrow> runOrder plan. sc_bytes (ps_candidate s))"
    "missingBytes plan = max 0 (shortOf input - freedBytes plan)" "enough plan \<longleftrightarrow> missingBytes plan = 0"
    unfolding assms(2) by (rule planWithSelection_simps)+
  with room dest show ?thesis by auto
qed

text \<open>A group is picked from without waste: what is taken is part of the group in its order; when it covers the
  need, nothing taken could be left out; and where every item can be taken it covers the need whenever the
  whole group does.\<close>

theorem pick_is_minimal:
  assumes "need > 0" "\<forall>c \<in> set cs. sc_bytes c > 0"
  shows "subseq (pickFromGroup cs need fits) cs
    \<and> (need \<le> sum_list (map sc_bytes (pickFromGroup cs need fits)) \<longrightarrow>
         (\<forall>i < length (pickFromGroup cs need fits).
            sum_list (map sc_bytes (remove_at i (pickFromGroup cs need fits))) < need))
    \<and> (need \<le> sum_list (map sc_bytes cs) \<longrightarrow> need \<le> sum_list (map sc_bytes (pickFromGroup cs need (\<lambda>_ _. True))))"
proof -
  have pos: "sc_bytes c > 0" if "c \<in> set cs" for c using assms(2) that by blast
  have "total (remove_at i (pickFromGroup cs need fits)) < need"
    if "need \<le> total (pickFromGroup cs need fits)" "i < length (pickFromGroup cs need fits)" for i
    using assms(1) pos
    by (rule pick_cases[where fits = fits]) (use that assms(1) in \<open>auto simp: total_remove_at\<close>)
  then show ?thesis using pick_subseq[of cs, OF pos] pick_covers[of need cs, OF assms(1) pos] by auto
qed

text \<open>C31. The plan the planner proposes from what the console and the Collection report gives every move it ticks
  a drive other than the one being cleared, and frees enough whenever the leftovers and the games that can be
  uninstalled cover the shortage, whatever the moves it proposes before them.\<close>

theorem proposed_plan_works:
  assumes "sources_ok ci" "in_candidates input = buildCandidates ci"
  shows "(\<forall>s \<in> set (sp_steps (planSpace input)). ps_selected s \<longrightarrow> sc_kind (ps_candidate s) = Move \<longrightarrow>
            (\<exists>t \<in> set (ci_volumes ci). ps_dest s = Some t \<and> \<not> sameDrive t (ci_target ci)))
    \<and> (shortOf input \<le> sum_list (map sc_bytes (filter (\<lambda>c. isUsable c \<and> sc_kind c \<noteq> Move) (buildCandidates ci)))
         \<longrightarrow> enough (planSpace input))"
proof -
  note d = build_distinct[OF assms(1), folded assms(2)] and m = build_targets[of _ ci, folded assms(2)]
  have "\<exists>t \<in> set (ci_volumes ci). ps_dest s = Some t \<and> \<not> sameDrive t (ci_target ci)"
    if "s \<in> set (sp_steps (planSpace input))" "ps_selected s" "sc_kind (ps_candidate s) = Move" for s
    using planSpace_dest[OF d m that] by (auto simp: move_targets_def)
  moreover have "enough (planSpace input)"
    if "shortOf input \<le> sum_list (map sc_bytes (filter (\<lambda>c. isUsable c \<and> sc_kind c \<noteq> Move) (buildCandidates ci)))"
  proof -
    have "mset (map sc_bytes (filter (\<lambda>c. sc_kind c \<noteq> Move) (ranked_of input)))
        = mset (map sc_bytes (filter (\<lambda>c. isUsable c \<and> sc_kind c \<noteq> Move) (buildCandidates ci)))"
      unfolding mset_map mset_filter ranked_mset assms(2) by (simp add: filter_filter_mset conj_commute)
    then have "total (filter (\<lambda>c. sc_kind c \<noteq> Move) (ranked_of input))
        = total (filter (\<lambda>c. isUsable c \<and> sc_kind c \<noteq> Move) (buildCandidates ci))"
      by (metis sum_mset_sum_list)
    moreover have "total (filter (\<lambda>c. sc_kind c \<noteq> Move) (ranked_of input))
        = total (group_of input Leftover) + total (group_of input Uninstall)"
      unfolding total_by_kind[of "\<lambda>c. sc_kind c \<noteq> Move"] by (simp add: KIND_ORDER_def conj_commute cong: conj_cong)
    ultimately have "shortOf input \<le> total (group_of input Leftover) + total (group_of input Uninstall)" using that by simp
    from picks_cover[OF this] planSpace_freed[OF d build_no_empty[OF assms(1)] m]
    have "shortOf input \<le> freedBytes (planSpace input)" by simp
    then show ?thesis by (simp add: planSpace_selection planWithSelection_simps)
  qed
  ultimately show ?thesis by blast
qed


text \<open>The size box never asks for less than was meant: reading back the text shown for a number of bytes gives
  at least that number, and at most a tenth of a GiB more but for the rounding to a byte.\<close>

theorem size_text_rounds_up:
  assumes "bytes > 0"
  shows "\<exists>b. parseSizeGib (gibText bytes) = Some b \<and> bytes \<le> b \<and> 10 * (b - bytes) \<le> GIB + 5"
proof -
  define k where "k = nat \<lceil>(of_int bytes / of_int GIB) * 10 :: rat\<rceil>"
  have G: "GIB > 0" by (simp add: GIB_def)
  then have q: "(of_int bytes / of_int GIB) * 10 > (0 :: rat)" using assms by simp
  then have k: "int k = \<lceil>(of_int bytes / of_int GIB) * 10 :: rat\<rceil>" by (simp add: k_def)
  have up: "(of_int bytes / of_int GIB) * 10 \<le> (of_nat k :: rat)" "(of_nat k :: rat) < (of_int bytes / of_int GIB) * 10 + 1"
    using k by (metis le_of_int_ceiling of_int_of_nat_eq, metis ceiling_correct diff_less_eq of_int_of_nat_eq)
  have kpos: "(of_nat k :: rat) > 0" using q up(1) by linarith
  let ?v = "of_nat k / 10 * of_int GIB :: rat"
  have no: "CHR '','' \<notin> set (show_tenths k)" using show_tenths_chars[of _ k] by (force simp: is_digit_def)
  have "trim (show_tenths k) = show_tenths k"
    using show_tenths_ends[of k] by (intro trim_digits_ends) (auto simp: is_digit_not_space)
  moreover have "gibText bytes = show_tenths k" unfolding gibText_def k_def using assms by simp
  ultimately have "parseSizeGib (gibText bytes) = Some (math_round ?v)"
    using kpos no by (simp add: parseSizeGib_def)
  moreover have "of_int bytes \<le> ?v" "?v < of_int bytes + of_int GIB / 10"
    using up G by (simp_all add: field_simps)
  moreover have "of_int (math_round ?v) \<le> ?v + 1 / 2" by (simp add: math_round_def)
  ultimately have "10 * (of_int (math_round ?v) - of_int bytes) \<le> (of_int (GIB + 5) :: rat)" "bytes \<le> math_round ?v"
    by (simp_all add: math_round_mono)
  then have "of_int (10 * (math_round ?v - bytes)) \<le> (of_int (GIB + 5) :: rat)" by simp
  then have "10 * (math_round ?v - bytes) \<le> GIB + 5" unfolding of_int_le_iff .
  with \<open>bytes \<le> math_round ?v\<close> \<open>parseSizeGib (gibText bytes) = Some (math_round ?v)\<close> show ?thesis by blast
qed

text \<open>The link that opens the planner is read back to the request it was made from, whatever characters the
  drive, the path and the label have: the size rounded to a byte, the drive, and what to offer afterwards,
  where a page to go back to is one inside the app.\<close>

theorem link_roundtrip:
  assumes "rq_neededBytes req \<ge> 0" "rq_drive req \<noteq> []"
    "case rq_retry req of
       None \<Rightarrow> True
     | Some (RetryPkg path _) \<Rightarrow> path \<noteq> []
     | Some (RetryBack to _) \<Rightarrow> starts_with ''/'' to \<and> \<not> starts_with ''//'' to"
  shows "\<exists>text. spacePlanLink req = ''/cleanup?'' @ text
    \<and> Option.bind (search_params text) parseSpacePlanQuery
        = Some (req\<lparr>rq_neededBytes := of_int (math_round (rq_neededBytes req))\<rparr>)"
proof -
  have "math_round (rq_neededBytes req) \<ge> 0" using assms(1) by (simp add: math_round_def)
  then have need: "js_number (show_rounded (rq_neededBytes req)) = Some (of_int (math_round (rq_neededBytes req)))"
    by (simp add: show_rounded_def)
  have "spacePlanPairs req \<noteq> []" by (auto simp: spacePlanPairs_def Let_def split: option.splits)
  then have "search_params (search_text (spacePlanPairs req)) = Some (spacePlanPairs req)" by (rule search_roundtrip)
  moreover have "parseSpacePlanQuery (spacePlanPairs req)
      = Some (req\<lparr>rq_neededBytes := of_int (math_round (rq_neededBytes req))\<rparr>)"
    using assms(2,3) need \<open>math_round (rq_neededBytes req) \<ge> 0\<close>
    by (cases req) (auto simp: spacePlanPairs_def parseSpacePlanQuery_def Let_def split: option.splits SpacePlanRetry.splits)
  ultimately show ?thesis by (auto simp: spacePlanLink_def)
qed


section \<open>Witnesses\<close>

definition cand1 :: SpaceCandidate where
  "cand1 = \<lparr>sc_id = ''move:/data/a'', sc_kind = Move, sc_label = ''a'', sc_titleId = None, sc_bytes = 40,
     sc_lastPlayedMs = None, sc_hasCopy = None, sc_moveTargets = Some [''/mnt/usb0''], sc_cleanupId = None, sc_path = None\<rparr>"

definition input1 :: SpacePlanInput where
  "input1 = \<lparr>neededBytes = 30, roomBytes = 5, in_candidates = [cand1], destRoom = [(''/mnt/usb0'', 50)], nowMs = 0\<rparr>"

theorem plan_is_honest_witness:
  "(\<Sum>s \<leftarrow> sp_steps (planWithSelection input1 {''move:/data/a''}).
      if ps_dest s = Some ''/mnt/usb0'' then sc_bytes (ps_candidate s) else 0) \<le> max 0 (room_of (destRoom input1) ''/mnt/usb0'')"
  using plan_is_honest[of input1 "planWithSelection input1 {''move:/data/a''}" "{''move:/data/a''}"] by (simp add: input1_def)

theorem pick_is_minimal_witness:
  "subseq (pickFromGroup [cand1] 30 (\<lambda>_ _. True)) [cand1] \<and> 30 \<le> sum_list (map sc_bytes (pickFromGroup [cand1] 30 (\<lambda>_ _. True)))"
  using pick_is_minimal[of 30 "[cand1]" "\<lambda>_ _. True"] by (simp add: cand1_def)

definition sources1 :: CandidateInput where
  "sources1 = \<lparr>ci_target = ''/data'', ci_volumes = [''/data'', ''/mnt/usb0''], ci_imageMounts = [],
     ci_leftovers = [\<lparr>ls_id = 4, ls_cat = ''B'', ls_drive = ''internal'', ls_action = ''remove'', ls_default = True, ls_bytes = 30,
        ls_alloc_bytes = 0, ls_path = ''/data/tmp.bin'', ls_name = None, ls_title_id = None\<rparr>],
     ci_library = [], ci_folderBytes = [], ci_inUsePaths = {}, ci_inUseImageNames = {}, ci_installed = [],
     ci_collectionIds = {}, ci_running = {}, ci_lastPlayed = (\<lambda>_. None)\<rparr>"

definition input2 :: SpacePlanInput where
  "input2 = \<lparr>neededBytes = 30, roomBytes = 5, in_candidates = buildCandidates sources1, destRoom = [], nowMs = 0\<rparr>"

theorem proposed_plan_works_witness: "enough (planSpace input2)"
proof -
  have "sources_ok sources1" by (simp add: sources_ok_def sources1_def)
  moreover have "shortOf input2 \<le> sum_list (map sc_bytes (filter (\<lambda>c. isUsable c \<and> sc_kind c \<noteq> Move) (buildCandidates sources1)))"
    by (simp add: shortOf_def input2_def buildCandidates_def leftover_candidates_def move_candidates_def uninstall_candidates_def
        sources1_def driveToken_def isInternalPath_def isUsable_def)
  ultimately show ?thesis using proposed_plan_works[of sources1 input2] by (simp add: input2_def)
qed


theorem size_text_rounds_up_witness: "\<exists>b. parseSizeGib (gibText 5000000000) = Some b \<and> 5000000000 \<le> b"
  using size_text_rounds_up[of 5000000000] by auto

definition request1 :: SpacePlanRequest where
  "request1 = \<lparr>rq_neededBytes = 95, rq_drive = ''internal'', rq_retry = Some (RetryPkg ''/data/a b&c.pkg'' ''100%'')\<rparr>"

theorem link_roundtrip_witness:
  "\<exists>text. spacePlanLink request1 = ''/cleanup?'' @ text \<and> Option.bind (search_params text) parseSpacePlanQuery = Some request1"
proof -
  have "of_int (math_round (rq_neededBytes request1)) = rq_neededBytes request1"
    using floor_unique[of 95 "95 + 1 / 2 :: rat"] by (simp add: request1_def math_round_def)
  then show ?thesis using link_roundtrip[of request1] by (simp add: request1_def)
qed

end
