(* ===== verification/Versions.thy ===== *)
theory Versions
  imports Paths "HOL-Library.Product_Lexorder"
begin

text \<open>
  The order of versions (\<^verbatim>\<open>client/src/lib/semver.ts\<close>) and what rests on it: what the poller of a move does when
  a status call fails (\<^verbatim>\<open>client/src/lib/movePollerPolicy.ts\<close>).

  \<open>ver_key\<close> is the order SemVer gives, as a linear order on tuples; the comparison is shown to be that
  order for versions whose numeric identifiers have no leading zero, as SemVer demands of them.
\<close>

section \<open>Versions\<close>

record ParsedVersion =
  pv_parts :: "nat \<times> nat \<times> nat"
  pv_pre :: "string option"

definition is_letter :: "char \<Rightarrow> bool" where
  "is_letter c \<longleftrightarrow> (let n = of_char c :: nat in 65 \<le> n \<and> n \<le> 90 \<or> 97 \<le> n \<and> n \<le> 122)"

definition tag_char :: "char \<Rightarrow> bool" where
  "tag_char c \<longleftrightarrow> is_letter c \<or> is_digit c \<or> c = CHR ''.'' \<or> c = CHR ''-''"

text \<open>The end of the pattern: \<^verbatim>\<open>(?:\+([A-Za-z0-9.-]+))?$\<close>, and before it \<^verbatim>\<open>(?:-([A-Za-z0-9.-]+))?\<close>. No tag has
  a plus sign, so the split is the only one.\<close>

definition build_ok :: "string \<Rightarrow> bool" where
  "build_ok s \<longleftrightarrow> s = [] \<or> hd s = CHR ''+'' \<and> tl s \<noteq> [] \<and> list_all tag_char (tl s)"

definition read_tags :: "string \<Rightarrow> string option option" where
  "read_tags s =
     (if s \<noteq> [] \<and> hd s = CHR ''-''
      then (let p = takeWhile tag_char (tl s); r = dropWhile tag_char (tl s) in
            if p \<noteq> [] \<and> build_ok r then Some (Some p) else None)
      else if build_ok s then Some None else None)"

definition read_number :: "string \<Rightarrow> (nat \<times> string) option" where
  "read_number s =
     (let ds = takeWhile is_digit s in if ds = [] then None else Some (decimal ds, dropWhile is_digit s))"

definition read_dot :: "string \<Rightarrow> string option" where
  "read_dot s = (if s \<noteq> [] \<and> hd s = CHR ''.'' then Some (tl s) else None)"

definition parseVersion :: "string \<Rightarrow> ParsedVersion option" where
  "parseVersion v =
     (let t = trim v; t = (if t \<noteq> [] \<and> hd t = CHR ''v'' then tl t else t) in
      case read_number t of
        None \<Rightarrow> None
      | Some (a, r1) \<Rightarrow>
          (case Option.bind (read_dot r1) read_number of
             None \<Rightarrow> None
           | Some (b, r2) \<Rightarrow>
               (case Option.bind (read_dot r2) read_number of
                  None \<Rightarrow> None
                | Some (c, r3) \<Rightarrow>
                    (case read_tags r3 of
                       None \<Rightarrow> None
                     | Some pre \<Rightarrow> Some \<lparr>pv_parts = (a, b, c), pv_pre = pre\<rparr>))))"

definition all_digits :: "string \<Rightarrow> bool" where
  "all_digits s \<longleftrightarrow> s \<noteq> [] \<and> list_all is_digit s"

text \<open>The loop over the identifiers; where one list ends the lengths decide.\<close>

fun comparePreLoop :: "string list \<Rightarrow> string list \<Rightarrow> int" where
  "comparePreLoop (x # xs) (y # ys) =
     (if x = y then comparePreLoop xs ys
      else if all_digits x \<and> all_digits y then (if decimal x < decimal y then -1 else 1)
      else if all_digits x \<noteq> all_digits y then (if all_digits x then -1 else 1)
      else if x < y then -1 else 1)"
| "comparePreLoop xs ys = (if length xs < length ys then -1 else 1)"

definition comparePreRelease :: "string \<Rightarrow> string \<Rightarrow> int" where
  "comparePreRelease a b = comparePreLoop (split_on CHR ''.'' a) (split_on CHR ''.'' b)"

definition compareVersions :: "string \<Rightarrow> string \<Rightarrow> int option" where
  "compareVersions a b =
     (case (parseVersion a, parseVersion b) of
        (Some pa, Some pb) \<Rightarrow>
          Some (case (pv_parts pa, pv_parts pb) of
            ((a1, a2, a3), (b1, b2, b3)) \<Rightarrow>
              if a1 < b1 then -1 else if a1 > b1 then 1
              else if a2 < b2 then -1 else if a2 > b2 then 1
              else if a3 < b3 then -1 else if a3 > b3 then 1
              else if pv_pre pa \<noteq> None \<and> pv_pre pb = None then -1
              else if pv_pre pa = None \<and> pv_pre pb \<noteq> None then 1
              else if pv_pre pa = pv_pre pb then 0
              else comparePreRelease (the (pv_pre pa)) (the (pv_pre pb)))
      | _ \<Rightarrow> None)"

section \<open>The poller of a move\<close>

datatype MovePollOutcome = Retry | StopSilent | StopOldPayload string

definition CONSECUTIVE_FAILURE_LIMIT :: nat where
  "CONSECUTIVE_FAILURE_LIMIT = 5"

definition FS_OP_STATUS_INTRODUCED :: string where
  "FS_OP_STATUS_INTRODUCED = ''2.2.7''"

definition FS_OP_STATUS_ACK_BUFFER_FIX :: string where
  "FS_OP_STATUS_ACK_BUFFER_FIX = ''2.2.16''"

definition classifyMovePollError :: "string option \<Rightarrow> string \<Rightarrow> nat \<Rightarrow> MovePollOutcome" where
  "classifyMovePollError payloadVersion errorMsg fails =
     (let cmp = (\<lambda>th. case payloadVersion of None \<Rightarrow> None | Some v \<Rightarrow> if v = [] then None else compareVersions v th);
          introCmp = cmp FS_OP_STATUS_INTRODUCED;
          bufferCmp = cmp FS_OP_STATUS_ACK_BUFFER_FIX;
          versionKnown = (introCmp \<noteq> None \<and> bufferCmp \<noteq> None)
      in if versionKnown \<and> introCmp = Some (-1) then StopOldPayload ''2.2.7''
         else if versionKnown \<and> bufferCmp = Some (-1) then StopOldPayload ''2.2.16''
         else if fails < CONSECUTIVE_FAILURE_LIMIT then Retry
         else if \<not> versionKnown \<and> str_includes ''decode FS_OP_STATUS_ACK body'' errorMsg then StopOldPayload ''2.2.16''
         else if \<not> versionKnown \<and> str_includes ''unsupported_frame'' errorMsg then StopOldPayload ''2.2.7''
         else StopSilent)"

definition isExpectedNotInFlight :: "string \<Rightarrow> bool" where
  "isExpectedNotInFlight errorMsg \<longleftrightarrow> str_includes ''404'' errorMsg \<or> str_includes ''not in flight'' errorMsg"

section \<open>The order of SemVer\<close>

text \<open>An identifier is a number or a word, and numbers come before words.\<close>

datatype ident = INum nat | IWord string

fun ident_key :: "ident \<Rightarrow> nat \<times> nat \<times> string" where
  "ident_key (INum n) = (0, n, [])"
| "ident_key (IWord w) = (1, 0, w)"

lemma ident_key_inj: "ident_key a = ident_key b \<longleftrightarrow> a = b"
  by (cases a; cases b) auto

instantiation ident :: linorder
begin

definition less_eq_ident :: "ident \<Rightarrow> ident \<Rightarrow> bool" where
  "less_eq_ident a b \<longleftrightarrow> ident_key a \<le> ident_key b"

definition less_ident :: "ident \<Rightarrow> ident \<Rightarrow> bool" where
  "less_ident a b \<longleftrightarrow> ident_key a < ident_key b"

instance
proof
  show "x < y \<longleftrightarrow> x \<le> y \<and> \<not> y \<le> x" for x y :: ident
    unfolding less_eq_ident_def less_ident_def by (rule less_le_not_le)
  show "x \<le> x" for x :: ident by (simp add: less_eq_ident_def)
  show "x \<le> z" if "x \<le> y" "y \<le> z" for x y z :: ident
    using that unfolding less_eq_ident_def by (rule order_trans)
  show "x = y" if "x \<le> y" "y \<le> x" for x y :: ident
    using that ident_key_inj unfolding less_eq_ident_def by (metis order_antisym)
  show "x \<le> y \<or> y \<le> x" for x y :: ident
    unfolding less_eq_ident_def by (rule linear)
qed

end

definition ident_of :: "string \<Rightarrow> ident" where
  "ident_of x = (if all_digits x then INum (decimal x) else IWord x)"

definition idents :: "string \<Rightarrow> ident list" where
  "idents s = map ident_of (split_on CHR ''.'' s)"

definition ver_key :: "ParsedVersion \<Rightarrow> (nat \<times> nat \<times> nat) \<times> nat \<times> ident list" where
  "ver_key p = (pv_parts p, case pv_pre p of None \<Rightarrow> (1, []) | Some s \<Rightarrow> (0, idents s))"

definition no_leading_zero :: "string \<Rightarrow> bool" where
  "no_leading_zero x \<longleftrightarrow> (all_digits x \<longrightarrow> x = show_nat (decimal x))"

definition canonical :: "ParsedVersion \<Rightarrow> bool" where
  "canonical p \<longleftrightarrow> (\<forall>s. pv_pre p = Some s \<longrightarrow> list_all no_leading_zero (split_on CHR ''.'' s))"

lemma ident_of_inj: "no_leading_zero x \<Longrightarrow> no_leading_zero y \<Longrightarrow> ident_of x = ident_of y \<longleftrightarrow> x = y"
  by (auto simp: ident_of_def no_leading_zero_def split: if_splits)

lemma ident_less:
  "ident_of x < ident_of y \<longleftrightarrow>
     (if all_digits x \<and> all_digits y then decimal x < decimal y
      else if all_digits x \<noteq> all_digits y then all_digits x else x < y)"
  by (auto simp: ident_of_def less_ident_def less_prod_simp)

text \<open>The loop is the lexicographic order on the identifiers, for lists that differ.\<close>

lemma comparePreLoop_order:
  assumes "list_all no_leading_zero xs" "list_all no_leading_zero ys" "xs \<noteq> ys"
  shows "comparePreLoop xs ys = (if map ident_of xs < map ident_of ys then -1 else 1)"
  using assms
proof (induction xs ys rule: comparePreLoop.induct)
  case (1 x xs y ys)
  then have inj: "ident_of x = ident_of y \<longleftrightarrow> x = y" by (simp add: ident_of_inj)
  show ?case
  proof (cases "x = y")
    case True
    with 1 show ?thesis by simp
  next
    case False
    with inj have "map ident_of (x # xs) < map ident_of (y # ys) \<longleftrightarrow> ident_of x < ident_of y" by simp
    with False show ?thesis by (simp add: ident_less)
  qed
qed (auto simp: neq_Nil_conv eq_commute[of "[]"])

lemma join_split: "split_on d a = split_on d b \<Longrightarrow> a = b"
proof (induction a arbitrary: b)
  case Nil
  then show ?case by (cases b) (auto split: if_splits list.splits dest!: sym[of "[]"])
next
  case (Cons c a)
  then show ?case by (cases b) (auto split: if_splits list.splits dest: sym[of "[]"] sym)
qed

lemma comparePreRelease_order:
  assumes "list_all no_leading_zero (split_on CHR ''.'' a)" "list_all no_leading_zero (split_on CHR ''.'' b)" "a \<noteq> b"
  shows "comparePreRelease a b = (if idents a < idents b then -1 else 1) \<and> idents a \<noteq> idents b"
proof -
  have ne: "split_on CHR ''.'' a \<noteq> split_on CHR ''.'' b" using assms(3) join_split by blast
  have "map ident_of xs = map ident_of ys \<Longrightarrow> xs = ys" if "list_all no_leading_zero xs" "list_all no_leading_zero ys" for xs ys
    using that
  proof (induction xs arbitrary: ys)
    case (Cons x xs)
    then show ?case by (cases ys) (auto simp: ident_of_inj)
  qed simp
  with assms ne show ?thesis unfolding comparePreRelease_def idents_def by (metis comparePreLoop_order)
qed

lemma compareVersions_order:
  assumes "parseVersion a = Some pa" "parseVersion b = Some pb" "canonical pa" "canonical pb"
  shows "compareVersions a b = Some (if ver_key pa < ver_key pb then -1 else if ver_key pa = ver_key pb then 0 else 1)"
proof -
  obtain a1 a2 a3 b1 b2 b3 where parts: "pv_parts pa = (a1, a2, a3)" "pv_parts pb = (b1, b2, b3)" by (metis prod_cases3)
  note d = compareVersions_def ver_key_def less_prod_simp
  show ?thesis
  proof (cases "(a1, a2, a3) = (b1, b2, b3)")
    case False
    then show ?thesis using assms(1,2) parts by (auto simp: d)
  next
    case True
    have "comparePreRelease s t = (if idents s < idents t then -1 else 1) \<and> idents s \<noteq> idents t"
      if "pv_pre pa = Some s" "pv_pre pb = Some t" "s \<noteq> t" for s t
      using comparePreRelease_order that assms(3,4) by (auto simp: canonical_def)
    then show ?thesis using assms(1,2) parts True
      by (cases "pv_pre pa"; cases "pv_pre pb") (auto simp: d)
  qed
qed

lemma compareVersions_None: "compareVersions a b = None \<longleftrightarrow> parseVersion a = None \<or> parseVersion b = None"
  by (auto simp: compareVersions_def split: option.splits)

text \<open>With a leading zero each of two tags is the newer one.\<close>

lemma leading_zero_tie:
  "compareVersions ''1.0.0-rc.01'' ''1.0.0-rc.1'' = Some 1 \<and> compareVersions ''1.0.0-rc.1'' ''1.0.0-rc.01'' = Some 1"
  by code_simp

section \<open>Properties\<close>

text \<open>Comparing two versions gives the order of SemVer, for all versions whose numeric identifiers have no leading
  zero: the three numbers, then a version with a pre-release tag before the one without, then the identifiers of
  the tags from left to right, numbers by value and before words. It is undefined exactly when one of the texts is
  no version.\<close>

theorem version_order:
  assumes "\<forall>p. parseVersion a = Some p \<or> parseVersion b = Some p \<longrightarrow> canonical p"
  shows "compareVersions a b =
    (case (parseVersion a, parseVersion b) of
       (Some pa, Some pb) \<Rightarrow>
         Some (if ver_key pa < ver_key pb then -1 else if ver_key pa = ver_key pb then 0 else 1)
     | _ \<Rightarrow> None)"
proof (cases "parseVersion a = None \<or> parseVersion b = None")
  case True
  then show ?thesis by (auto simp: compareVersions_def split: option.splits)
next
  case False
  then obtain pa pb where "parseVersion a = Some pa" "parseVersion b = Some pb" by auto
  with compareVersions_order[OF this] assms show ?thesis by simp
qed

text \<open>The "your payload is old" message of a move is never a guess about a payload whose version is known: it is
  shown for a readable version only when that version is before the one it names, and for an unknown version only
  after the limit of failures in a row and on an error that payloads of that age give. Below the limit an unknown or
  current payload is asked again, and at the limit the polling ends.\<close>

theorem banner_is_honest:
  assumes "classifyMovePollError payloadVersion errorMsg fails = outcome"
  shows "(\<forall>th. outcome = StopOldPayload th \<longrightarrow>
            (\<exists>v pv pt. payloadVersion = Some v \<and> parseVersion v = Some pv \<and> parseVersion th = Some pt
               \<and> (canonical pv \<longrightarrow> ver_key pv < ver_key pt))
          \<or> ((payloadVersion = None \<or> (\<exists>v. payloadVersion = Some v \<and> parseVersion v = None))
               \<and> CONSECUTIVE_FAILURE_LIMIT \<le> fails
               \<and> (th = ''2.2.16'' \<and> str_includes ''decode FS_OP_STATUS_ACK body'' errorMsg
                  \<or> th = ''2.2.7'' \<and> str_includes ''unsupported_frame'' errorMsg)))
    \<and> (CONSECUTIVE_FAILURE_LIMIT \<le> fails \<longrightarrow> outcome \<noteq> Retry)"
proof -
  have p: "parseVersion ''2.2.7'' = Some \<lparr>pv_parts = (2, 2, 7), pv_pre = None\<rparr>"
    "parseVersion ''2.2.16'' = Some \<lparr>pv_parts = (2, 2, 16), pv_pre = None\<rparr>" "parseVersion [] = None"
    by code_simp+
  have lt: "ver_key pv < ver_key pt"
    if "compareVersions v th = Some (-1)" "parseVersion v = Some pv" "parseVersion th = Some pt" "canonical pv" "canonical pt" for v th pv pt
    using compareVersions_order[OF that(2,3,4,5)] that(1) by (auto split: if_splits)
  have "\<exists>pv pt. parseVersion v = Some pv \<and> parseVersion th = Some pt \<and> (canonical pv \<longrightarrow> ver_key pv < ver_key pt)"
    if "compareVersions v th = Some (-1)" "th \<in> {''2.2.7'', ''2.2.16''}" for v th
  proof -
    from that(1) obtain pv pt where "parseVersion v = Some pv" "parseVersion th = Some pt"
      by (auto simp: compareVersions_def split: option.splits)
    moreover have "canonical pt" using calculation(2) p that(2) by (auto simp: canonical_def)
    ultimately show ?thesis using lt that(1) by blast
  qed
  note old = this
  show ?thesis
  proof (cases "payloadVersion = None \<or> (\<exists>v. payloadVersion = Some v \<and> parseVersion v = None)")
    case True
    then have "(case payloadVersion of None \<Rightarrow> None | Some v \<Rightarrow> if v = [] then None else compareVersions v th) = None" for th
      by (auto simp: compareVersions_None)
    with True assms show ?thesis by (auto simp: classifyMovePollError_def split: if_splits)
  next
    case False
    then obtain v pv where v: "payloadVersion = Some v" "parseVersion v = Some pv" by (metis not_Some_eq)
    have "v \<noteq> []" using v(2) p(3) by (metis option.discI)
    have "compareVersions v ''2.2.7'' \<noteq> None" "compareVersions v ''2.2.16'' \<noteq> None" using v p by (auto simp: compareVersions_None)
    with v \<open>v \<noteq> []\<close> assms have st: "\<forall>th. outcome = StopOldPayload th \<longrightarrow> th \<in> {''2.2.7'', ''2.2.16''} \<and> compareVersions v th = Some (-1)"
      and lim: "CONSECUTIVE_FAILURE_LIMIT \<le> fails \<longrightarrow> outcome \<noteq> Retry"
      by (auto simp: classifyMovePollError_def Let_def FS_OP_STATUS_INTRODUCED_def FS_OP_STATUS_ACK_BUFFER_FIX_def split: if_splits)
    have "\<exists>v pv pt. payloadVersion = Some v \<and> parseVersion v = Some pv \<and> parseVersion th = Some pt
        \<and> (canonical pv \<longrightarrow> ver_key pv < ver_key pt)" if "outcome = StopOldPayload th" for th
      using old[of v th] st that v(1) by simp
    with lim show ?thesis by (intro conjI allI impI disjI1) (blast, blast)
  qed
qed

section \<open>Witnesses\<close>

theorem version_order_witness: "compareVersions ''2.2.3-rc.9'' ''v2.2.3-rc.10'' = Some (-1)"
proof -
  have p: "parseVersion ''2.2.3-rc.9'' = Some \<lparr>pv_parts = (2, 2, 3), pv_pre = Some ''rc.9''\<rparr>"
    "parseVersion ''v2.2.3-rc.10'' = Some \<lparr>pv_parts = (2, 2, 3), pv_pre = Some ''rc.10''\<rparr>"
    by code_simp+
  have c: "list_all no_leading_zero (split_on CHR ''.'' ''rc.9'')" "list_all no_leading_zero (split_on CHR ''.'' ''rc.10'')"
    by code_simp+
  have i: "idents ''rc.9'' = [IWord ''rc'', INum 9]" "idents ''rc.10'' = [IWord ''rc'', INum 10]" by code_simp+
  have "\<forall>q. parseVersion ''2.2.3-rc.9'' = Some q \<or> parseVersion ''v2.2.3-rc.10'' = Some q \<longrightarrow> canonical q"
    using c unfolding p canonical_def by (metis option.inject ParsedVersion.select_convs(2))
  from version_order[OF this] show ?thesis unfolding p
    by (simp add: ver_key_def i less_prod_simp less_ident_def)
qed

theorem banner_is_honest_witness:
  "classifyMovePollError (Some ''2.2.6'') ''x'' 0 = StopOldPayload ''2.2.7'' \<and>
   (\<exists>pv pt. parseVersion ''2.2.6'' = Some pv \<and> parseVersion ''2.2.7'' = Some pt \<and> (canonical pv \<longrightarrow> ver_key pv < ver_key pt))"
proof -
  have "classifyMovePollError (Some ''2.2.6'') ''x'' 0 = StopOldPayload ''2.2.7''" "parseVersion ''2.2.6'' \<noteq> None"
    by code_simp+
  with banner_is_honest[of "Some ''2.2.6''" "''x''" 0] show ?thesis by auto
qed

end
