(* ===== verification/Library_Move.thy ===== *)
theory Library_Move
  imports Versions Addr
begin

text \<open>
  Moving a game to another drive (\<^verbatim>\<open>client/src/state/libraryMove.ts\<close>): the console copies it, and the source is removed once the copy
  is there. A run has three parts that take turns at their awaits: the copy and what follows it, the poller of the copy's
  progress, and the watcher that passes the person's Stop on.

  The console has contents at paths. It answers a copy with success only when it has put the source's content at the
  destination, and it does not overwrite one; a copy that fails or was stopped leaves the destination as it was; a removal that
  succeeds has removed the source, one that fails may have removed it or not. Hooks (the activity log) and warnings are left out.
\<close>

section \<open>The store\<close>

datatype LibraryMovePhase = Copying | Deleting | MoveDone | Cancelled | CopyFailed | DeleteFailed

record LibraryMoveState =
  lm_phase :: LibraryMovePhase
  lm_from :: string
  lm_to :: string
  lm_bytesCopied :: nat
  lm_totalBytes :: nat
  lm_error :: "string option"
  lm_progressUnsupported :: "string option"
  lm_stopRequested :: bool
  lm_startedAtMs :: nat

type_synonym move_store = "string \<rightharpoonup> LibraryMoveState"

text \<open>A patch of an entry. A running move has one (it cannot be dismissed), so a patch never finds none; see \<open>move_run_ok\<close>.\<close>

definition put_phase :: "string \<Rightarrow> LibraryMovePhase \<Rightarrow> string option \<Rightarrow> move_store \<Rightarrow> move_store" where
  "put_phase key p err m = (case m key of None \<Rightarrow> m | Some x \<Rightarrow> m(key \<mapsto> x\<lparr>lm_phase := p, lm_error := err\<rparr>))"

definition put_with :: "string \<Rightarrow> (LibraryMoveState \<Rightarrow> LibraryMoveState) \<Rightarrow> move_store \<Rightarrow> move_store" where
  "put_with key f m = (case m key of None \<Rightarrow> m | Some x \<Rightarrow> m(key \<mapsto> f x))"

definition libraryMoveKey :: "string \<Rightarrow> string \<Rightarrow> string" where
  "libraryMoveKey host src = hostOf host @ '':'' @ src"

definition libraryMove :: "move_store \<Rightarrow> string \<Rightarrow> LibraryMoveState option" where
  "libraryMove m key = m key"

definition moveRetryDest :: "LibraryMoveState option \<Rightarrow> string option" where
  "moveRetryDest m = (case m of
     None \<Rightarrow> None | Some x \<Rightarrow> if lm_phase x = Cancelled \<or> lm_phase x = CopyFailed then Some (lm_to x) else None)"

definition move_running :: "LibraryMoveState option \<Rightarrow> bool" where
  "move_running m \<longleftrightarrow> (case m of None \<Rightarrow> False | Some x \<Rightarrow> lm_phase x = Copying \<or> lm_phase x = Deleting)"

section \<open>A run\<close>

record LibraryMoveRequest =
  mq_host :: string
  mq_from :: string
  mq_to :: string
  mq_payloadVersion :: "string option"

datatype poll_part = PollSleep | PollAsk | PollOver
datatype watch_part = WatchSleep | WatchCancel | WatchOver
datatype main_part = MainCopy | MainJoin | MainDelete | MainOver

record move_run =
  mr_req :: LibraryMoveRequest
  mr_copyDone :: bool
  mr_copyErr :: "string option"
  mr_failures :: nat
  mr_poll :: poll_part
  mr_watch :: watch_part
  mr_main :: main_part

definition run_move_key :: "move_run \<Rightarrow> string" where
  "run_move_key r = libraryMoveKey (mq_host (mr_req r)) (mq_from (mr_req r))"

record move_sys =
  ms_store :: move_store
  ms_runs :: "move_run list"
  ms_cancels :: nat
  ms_content :: "string \<times> string \<rightharpoonup> nat"

definition runLibraryMove :: "nat \<Rightarrow> LibraryMoveRequest \<Rightarrow> move_sys \<Rightarrow> move_sys" where
  "runLibraryMove now req s =
     (let key = libraryMoveKey (mq_host req) (mq_from req) in
      if move_running (libraryMove (ms_store s) key) then s
      else s\<lparr>ms_store := (ms_store s)(key \<mapsto> \<lparr>lm_phase = Copying, lm_from = mq_from req, lm_to = mq_to req, lm_bytesCopied = 0,
               lm_totalBytes = 0, lm_error = None, lm_progressUnsupported = None, lm_stopRequested = False, lm_startedAtMs = now\<rparr>),
             ms_runs := ms_runs s @ [\<lparr>mr_req = req, mr_copyDone = False, mr_copyErr = None, mr_failures = 0,
               mr_poll = PollSleep, mr_watch = WatchSleep, mr_main = MainCopy\<rparr>]\<rparr>)"

definition poll_wake :: "move_run \<Rightarrow> move_run" where
  "poll_wake r = (if mr_poll r = PollSleep then r\<lparr>mr_poll := (if mr_copyDone r then PollOver else PollAsk)\<rparr> else r)"

definition poll_answer_move :: "string + nat \<times> nat \<Rightarrow> move_run \<Rightarrow> move_store \<Rightarrow> move_run \<times> move_store" where
  "poll_answer_move a r m =
     (if mr_poll r \<noteq> PollAsk then (r, m)
      else case a of
        Inr (bytes, totalB) \<Rightarrow>
          if mr_copyDone r then (r\<lparr>mr_failures := 0, mr_poll := PollOver\<rparr>, m)
          else (r\<lparr>mr_failures := 0, mr_poll := PollSleep\<rparr>,
                put_with (run_move_key r) (\<lambda>x. x\<lparr>lm_bytesCopied := bytes, lm_totalBytes := totalB\<rparr>) m)
      | Inl msg \<Rightarrow>
          if isExpectedNotInFlight msg then (r\<lparr>mr_poll := PollSleep\<rparr>, m)
          else let n = mr_failures r + 1; r1 = r\<lparr>mr_failures := n\<rparr> in
            (case classifyMovePollError (mq_payloadVersion (mr_req r)) msg n of
               StopOldPayload v \<Rightarrow>
                 (r1\<lparr>mr_poll := PollOver\<rparr>, put_with (run_move_key r) (\<lambda>x. x\<lparr>lm_progressUnsupported := Some v\<rparr>) m)
             | StopSilent \<Rightarrow> (r1\<lparr>mr_poll := PollOver\<rparr>, m)
             | Retry \<Rightarrow> (r1\<lparr>mr_poll := PollSleep\<rparr>, m)))"

definition stop_wanted :: "move_store \<Rightarrow> string \<Rightarrow> bool" where
  "stop_wanted m key \<longleftrightarrow> (case m key of None \<Rightarrow> False | Some x \<Rightarrow> lm_stopRequested x)"

definition watch_wake :: "move_store \<Rightarrow> move_run \<Rightarrow> move_run" where
  "watch_wake m r =
     (if mr_watch r \<noteq> WatchSleep then r
      else if mr_copyDone r then r\<lparr>mr_watch := WatchOver\<rparr>
      else if stop_wanted m (run_move_key r) then r\<lparr>mr_watch := WatchCancel\<rparr> else r)"

definition copy_ended :: "string option \<Rightarrow> move_run \<Rightarrow> move_run" where
  "copy_ended err r = r\<lparr>mr_copyErr := err, mr_copyDone := True, mr_main := MainJoin\<rparr>"

definition after_copy :: "move_run \<Rightarrow> move_store \<Rightarrow> move_run \<times> move_store" where
  "after_copy r m =
     (case mr_copyErr r of
        Some msg \<Rightarrow>
          (r\<lparr>mr_main := MainOver\<rparr>,
           if str_includes ''cancelled'' msg then put_phase (run_move_key r) Cancelled None m
           else put_phase (run_move_key r) CopyFailed (Some msg) m)
      | None \<Rightarrow> (r\<lparr>mr_main := MainDelete\<rparr>, put_with (run_move_key r) (\<lambda>x. x\<lparr>lm_phase := Deleting\<rparr>) m))"

definition delete_ended :: "string option \<Rightarrow> move_run \<Rightarrow> move_store \<Rightarrow> move_run \<times> move_store" where
  "delete_ended err r m =
     (r\<lparr>mr_main := MainOver\<rparr>,
      case err of Some e \<Rightarrow> put_phase (run_move_key r) DeleteFailed (Some e) m | None \<Rightarrow> put_phase (run_move_key r) MoveDone None m)"

definition stopLibraryMove :: "string \<Rightarrow> move_store \<Rightarrow> move_store" where
  "stopLibraryMove key m =
     (case m key of None \<Rightarrow> m | Some x \<Rightarrow> if lm_phase x = Copying then m(key \<mapsto> x\<lparr>lm_stopRequested := True\<rparr>) else m)"

definition dismissLibraryMove :: "string \<Rightarrow> move_store \<Rightarrow> move_store" where
  "dismissLibraryMove key m = (if move_running (libraryMove m key) then m else m(key := None))"

section \<open>The machine\<close>

definition run_src :: "move_run \<Rightarrow> string \<times> string" where
  "run_src r = (hostOf (mq_host (mr_req r)), mq_from (mr_req r))"

definition run_dst :: "move_run \<Rightarrow> string \<times> string" where
  "run_dst r = (hostOf (mq_host (mr_req r)), mq_to (mr_req r))"

abbreviation set_run :: "nat \<Rightarrow> move_run \<Rightarrow> move_sys \<Rightarrow> move_sys" where
  "set_run i r s \<equiv> s\<lparr>ms_runs := (ms_runs s)[i := r]\<rparr>"

inductive move_step :: "move_sys \<Rightarrow> move_sys \<Rightarrow> bool" where
  mv_start: "move_step s (runLibraryMove now req s)"
| mv_stop: "move_step s (s\<lparr>ms_store := stopLibraryMove key (ms_store s)\<rparr>)"
| mv_dismiss: "move_step s (s\<lparr>ms_store := dismissLibraryMove key (ms_store s)\<rparr>)"
| mv_poll_wake: "i < length (ms_runs s) \<Longrightarrow> move_step s (set_run i (poll_wake (ms_runs s ! i)) s)"
| mv_poll: "i < length (ms_runs s) \<Longrightarrow> poll_answer_move a (ms_runs s ! i) (ms_store s) = (r, m) \<Longrightarrow>
    move_step s (set_run i r (s\<lparr>ms_store := m\<rparr>))"
| mv_watch: "i < length (ms_runs s) \<Longrightarrow> move_step s (set_run i (watch_wake (ms_store s) (ms_runs s ! i)) s)"
| mv_cancelled: "i < length (ms_runs s) \<Longrightarrow> mr_watch (ms_runs s ! i) = WatchCancel \<Longrightarrow>
    move_step s (set_run i ((ms_runs s ! i)\<lparr>mr_watch := WatchOver\<rparr>) (s\<lparr>ms_cancels := ms_cancels s + 1\<rparr>))"
| mv_copied: "i < length (ms_runs s) \<Longrightarrow> mr_main (ms_runs s ! i) = MainCopy \<Longrightarrow>
    ms_content s (run_src (ms_runs s ! i)) = Some c \<Longrightarrow> ms_content s (run_dst (ms_runs s ! i)) = None \<Longrightarrow>
    move_step s (set_run i (copy_ended None (ms_runs s ! i)) (s\<lparr>ms_content := (ms_content s)(run_dst (ms_runs s ! i) \<mapsto> c)\<rparr>))"
| mv_not_copied: "i < length (ms_runs s) \<Longrightarrow> mr_main (ms_runs s ! i) = MainCopy \<Longrightarrow>
    move_step s (set_run i (copy_ended (Some msg) (ms_runs s ! i)) s)"
| mv_join: "i < length (ms_runs s) \<Longrightarrow> mr_main (ms_runs s ! i) = MainJoin \<Longrightarrow> mr_poll (ms_runs s ! i) = PollOver \<Longrightarrow>
    mr_watch (ms_runs s ! i) = WatchOver \<Longrightarrow> after_copy (ms_runs s ! i) (ms_store s) = (r, m) \<Longrightarrow>
    move_step s (set_run i r (s\<lparr>ms_store := m\<rparr>))"
| mv_deleted: "i < length (ms_runs s) \<Longrightarrow> mr_main (ms_runs s ! i) = MainDelete \<Longrightarrow> err = None \<or> err = Some msg \<Longrightarrow>
    content = (ms_content s)(run_src (ms_runs s ! i) := None) \<or> err \<noteq> None \<and> content = ms_content s \<Longrightarrow>
    delete_ended err (ms_runs s ! i) (ms_store s) = (r, m) \<Longrightarrow>
    move_step s (set_run i r (s\<lparr>ms_store := m, ms_content := content\<rparr>))"

definition move_initial :: "(string \<times> string \<rightharpoonup> nat) \<Rightarrow> move_sys \<Rightarrow> bool" where
  "move_initial files s \<longleftrightarrow> s = \<lparr>ms_store = Map.empty, ms_runs = [], ms_cancels = 0, ms_content = files\<rparr>"


section \<open>The invariant\<close>

definition move_live :: "move_run \<Rightarrow> bool" where
  "move_live r \<longleftrightarrow> mr_main r \<noteq> MainOver"

definition copied :: "move_run \<Rightarrow> bool" where
  "copied r \<longleftrightarrow> mr_main r = MainDelete \<or> mr_main r = MainJoin \<and> mr_copyErr r = None"

text \<open>A live run has its entry in the store, in the phase it is in; the source of a copied one is still there; its other parts
  are over before anything is removed.\<close>

definition move_run_ok :: "move_sys \<Rightarrow> move_run \<Rightarrow> bool" where
  "move_run_ok s r \<longleftrightarrow>
     (move_live r \<longrightarrow> map_option lm_phase (ms_store s (run_move_key r)) = Some (if mr_main r = MainDelete then Deleting else Copying))
     \<and> (copied r \<longrightarrow> ms_content s (run_src r) \<noteq> None)
     \<and> (mr_main r = MainDelete \<or> mr_main r = MainOver \<longrightarrow> mr_poll r = PollOver \<and> mr_watch r = WatchOver)"

definition keys_apart :: "move_run list \<Rightarrow> bool" where
  "keys_apart rs \<longleftrightarrow> (\<forall>i < length rs. \<forall>j < length rs. i \<noteq> j \<longrightarrow> move_live (rs ! i) \<longrightarrow> move_live (rs ! j) \<longrightarrow> run_move_key (rs ! i) \<noteq> run_move_key (rs ! j))"

text \<open>Every content is somewhere where no run is about to remove it.\<close>

definition move_kept :: "(string \<times> string \<rightharpoonup> nat) \<Rightarrow> move_sys \<Rightarrow> bool" where
  "move_kept files s \<longleftrightarrow> (\<forall>c \<in> ran files. \<exists>p. ms_content s p = Some c \<and> (\<forall>r \<in> set (ms_runs s). copied r \<longrightarrow> run_src r \<noteq> p))"

definition move_inv :: "(string \<times> string \<rightharpoonup> nat) \<Rightarrow> move_sys \<Rightarrow> bool" where
  "move_inv files s \<longleftrightarrow> (\<forall>r \<in> set (ms_runs s). move_run_ok s r) \<and> keys_apart (ms_runs s) \<and> move_kept files s"

lemma src_key: "run_src r = run_src r' \<Longrightarrow> run_move_key r = run_move_key r'"
  by (simp add: run_src_def run_move_key_def libraryMoveKey_def)

text \<open>A change of one run that keeps its request, what it is about to remove and how it stands in the store.\<close>

lemma apart_set_run:
  assumes "keys_apart rs" "i < length rs" "mr_req r = mr_req (rs ! i)" "move_live r \<Longrightarrow> move_live (rs ! i)"
  shows "keys_apart (rs[i := r])"
  unfolding keys_apart_def length_list_update
proof (intro allI impI)
  fix a b assume ab: "a < length rs" "b < length rs" "a \<noteq> b" "move_live (rs[i := r] ! a)" "move_live (rs[i := r] ! b)"
  have l: "move_live (rs ! j)" if "move_live (rs[i := r] ! j)" "j < length rs" for j
    using that assms(4) by (cases "i = j") auto
  have k: "run_move_key (rs[i := r] ! j) = run_move_key (rs ! j)" if "j < length rs" for j
    using that assms(3) by (cases "i = j") (auto simp: run_move_key_def)
  show "run_move_key (rs[i := r] ! a) \<noteq> run_move_key (rs[i := r] ! b)"
    using assms(1)[unfolded keys_apart_def] ab l k by metis
qed

lemma other_key:
  assumes "keys_apart rs" "i < length rs" "j < length rs" "j \<noteq> i" "move_live (rs ! i)" "move_live (rs ! j)"
  shows "run_move_key (rs ! j) \<noteq> run_move_key (rs ! i)"
  using assms unfolding keys_apart_def by blast

text \<open>The runs besides the one that takes a step.\<close>

lemma others_ok:
  assumes inv: "move_inv files s" and i: "i < length (ms_runs s)"
    and j: "j < length (ms_runs s)" "j \<noteq> i"
    and same: "\<And>k. k \<noteq> run_move_key (ms_runs s ! i) \<or> \<not> move_live (ms_runs s ! i) \<Longrightarrow> ms_store t k = ms_store s k"
    and content: "\<And>p. ms_content s p \<noteq> None \<Longrightarrow> p \<noteq> run_src (ms_runs s ! i) \<or> \<not> move_live (ms_runs s ! i) \<Longrightarrow> ms_content t p \<noteq> None"
  shows "move_run_ok t (ms_runs s ! j)"
proof -
  let ?x = "ms_runs s ! j"
  have ok: "move_run_ok s ?x" and apart: "keys_apart (ms_runs s)" using inv j(1) by (simp_all add: move_inv_def)
  have "ms_store t (run_move_key ?x) = ms_store s (run_move_key ?x)" if "move_live ?x"
    using other_key[OF apart i j] that same by blast
  moreover have "ms_content t (run_src ?x) \<noteq> None" if "copied ?x"
  proof -
    have "move_live ?x" using that by (auto simp: copied_def move_live_def)
    then have "run_src ?x \<noteq> run_src (ms_runs s ! i) \<or> \<not> move_live (ms_runs s ! i)" using other_key[OF apart i j] src_key by blast
    with ok that content show ?thesis by (simp add: move_run_ok_def)
  qed
  ultimately show ?thesis using ok by (simp add: move_run_ok_def)
qed

lemma set_run_inv:
  assumes inv: "move_inv files s" and i: "i < length (ms_runs s)" and req: "mr_req r = mr_req (ms_runs s ! i)"
    and live: "move_live r \<Longrightarrow> move_live (ms_runs s ! i)" and runs: "ms_runs t = (ms_runs s)[i := r]"
    and same: "\<And>k. k \<noteq> run_move_key (ms_runs s ! i) \<or> \<not> move_live (ms_runs s ! i) \<Longrightarrow> ms_store t k = ms_store s k"
    and content: "\<And>p. ms_content s p \<noteq> None \<Longrightarrow> p \<noteq> run_src (ms_runs s ! i) \<or> \<not> move_live (ms_runs s ! i) \<Longrightarrow> ms_content t p \<noteq> None"
    and ok: "move_run_ok t r" and move_kept: "move_kept files t"
  shows "move_inv files t"
proof -
  have "move_run_ok t x" if "x \<in> set (ms_runs t)" for x
  proof -
    from that obtain j where j: "j < length (ms_runs s)" "x = (ms_runs s)[i := r] ! j"
      unfolding runs in_set_conv_nth length_list_update by blast
    then show ?thesis using ok others_ok[OF inv i j(1) _ same content] by (cases "j = i") auto
  qed
  moreover have "keys_apart (ms_runs t)"
    unfolding runs using inv i req live by (intro apart_set_run) (auto simp: move_inv_def)
  ultimately show ?thesis using move_kept by (simp add: move_inv_def)
qed

lemma kept_same:
  assumes "move_kept files s" "ms_content t = ms_content s" "i < length (ms_runs s)" "ms_runs t = (ms_runs s)[i := r]"
    "mr_req r = mr_req (ms_runs s ! i)" "copied r \<Longrightarrow> copied (ms_runs s ! i)"
  shows "move_kept files t"
  unfolding move_kept_def
proof
  fix c assume "c \<in> ran files"
  then obtain p where p: "ms_content s p = Some c" "\<forall>x \<in> set (ms_runs s). copied x \<longrightarrow> run_src x \<noteq> p"
    using assms(1) unfolding move_kept_def by blast
  have "run_src r \<noteq> p" if "copied r" using p(2) that assms(3,5,6) by (auto simp: run_src_def)
  then have "\<forall>x \<in> set (ms_runs t). copied x \<longrightarrow> run_src x \<noteq> p"
    using p(2) set_update_subset_insert[of "ms_runs s" i r] unfolding assms(4) by blast
  with p(1) show "\<exists>p. ms_content t p = Some c \<and> (\<forall>r \<in> set (ms_runs t). copied r \<longrightarrow> run_src r \<noteq> p)"
    unfolding assms(2) by (intro exI[of _ p] conjI)
qed

lemma kept_copied:
  assumes inv: "move_inv files s" and i: "i < length (ms_runs s)" and r: "mr_req r = mr_req (ms_runs s ! i)"
    and c: "ms_content s (run_src (ms_runs s ! i)) = Some c" "ms_content s (run_dst (ms_runs s ! i)) = None"
    and t: "ms_runs t = (ms_runs s)[i := r]" "ms_content t = (ms_content s)(run_dst (ms_runs s ! i) \<mapsto> c)"
  shows "move_kept files t"
  unfolding move_kept_def
proof
  let ?src = "run_src (ms_runs s ! i)" and ?dst = "run_dst (ms_runs s ! i)"
  have sub: "set (ms_runs t) \<subseteq> insert r (set (ms_runs s))" unfolding t(1) by (rule set_update_subset_insert)
  have src: "run_src r = ?src" using r by (simp add: run_src_def)
  have free: "run_src x \<noteq> ?dst" if "x \<in> set (ms_runs s)" "copied x" for x
    using that inv c(2) by (auto simp: move_inv_def move_run_ok_def)
  fix c' assume "c' \<in> ran files"
  then obtain p where p: "ms_content s p = Some c'" "\<forall>x \<in> set (ms_runs s). copied x \<longrightarrow> run_src x \<noteq> p"
    using inv unfolding move_inv_def move_kept_def by blast
  show "\<exists>p. ms_content t p = Some c' \<and> (\<forall>r \<in> set (ms_runs t). copied r \<longrightarrow> run_src r \<noteq> p)"
  proof (cases "p = ?src")
    case True
    then have "ms_content t ?dst = Some c'" using p(1) c t(2) by simp
    moreover have "\<forall>x \<in> set (ms_runs t). copied x \<longrightarrow> run_src x \<noteq> ?dst" using sub free src c by auto
    ultimately show ?thesis by blast
  next
    case False
    then have "ms_content t p = Some c'" using p(1) c t(2) by auto
    moreover have "\<forall>x \<in> set (ms_runs t). copied x \<longrightarrow> run_src x \<noteq> p" using sub p(2) src False by auto
    ultimately show ?thesis by blast
  qed
qed


lemma kept_removed:
  assumes move_kept: "move_kept files s" and i: "i < length (ms_runs s)" "copied (ms_runs s ! i)" and r: "\<not> copied r"
    and t: "ms_runs t = (ms_runs s)[i := r]" "ms_content t = (ms_content s)(run_src (ms_runs s ! i) := None)"
  shows "move_kept files t"
  unfolding move_kept_def
proof
  fix c assume "c \<in> ran files"
  then obtain p where p: "ms_content s p = Some c" "\<forall>x \<in> set (ms_runs s). copied x \<longrightarrow> run_src x \<noteq> p"
    using move_kept unfolding move_kept_def by blast
  have "run_src (ms_runs s ! i) \<noteq> p" using p(2) i by simp
  moreover have "\<forall>x \<in> set (ms_runs t). copied x \<longrightarrow> run_src x \<noteq> p"
    using p(2) r set_update_subset_insert[of "ms_runs s" i r] unfolding t(1) by blast
  ultimately show "\<exists>p. ms_content t p = Some c \<and> (\<forall>r \<in> set (ms_runs t). copied r \<longrightarrow> run_src r \<noteq> p)"
    using p(1) unfolding t(2) by (intro exI[of _ p] conjI) auto
qed

text \<open>Steps of the other parts of a run: the entry keeps its phase.\<close>

lemma side_step_inv:
  assumes inv: "move_inv files s" and i: "i < length (ms_runs s)"
    and r: "mr_req r = mr_req (ms_runs s ! i)" "mr_main r = mr_main (ms_runs s ! i)" "mr_copyErr r = mr_copyErr (ms_runs s ! i)"
    and over: "mr_poll (ms_runs s ! i) = PollOver \<Longrightarrow> mr_poll r = PollOver" "mr_watch (ms_runs s ! i) = WatchOver \<Longrightarrow> mr_watch r = WatchOver"
    and t: "ms_runs t = (ms_runs s)[i := r]" "ms_content t = ms_content s"
    and same: "\<And>k. k \<noteq> run_move_key (ms_runs s ! i) \<or> \<not> move_live (ms_runs s ! i) \<Longrightarrow> ms_store t k = ms_store s k"
    and phase: "map_option lm_phase (ms_store t (run_move_key (ms_runs s ! i))) = map_option lm_phase (ms_store s (run_move_key (ms_runs s ! i)))"
  shows "move_inv files t"
proof (rule set_run_inv[OF inv i r(1) _ t(1) same])
  have ok: "move_run_ok s (ms_runs s ! i)" using inv i by (simp add: move_inv_def)
  have e: "run_move_key r = run_move_key (ms_runs s ! i)" "run_src r = run_src (ms_runs s ! i)"
    "move_live r = move_live (ms_runs s ! i)" "copied r = copied (ms_runs s ! i)"
    using r by (simp_all add: run_move_key_def run_src_def move_live_def copied_def)
  show "move_run_ok t r" unfolding move_run_ok_def e r(2) t(2) phase using ok over unfolding move_run_ok_def by blast
  show "move_kept files t" using inv e(4) by (intro kept_same[OF _ t(2) i t(1) r(1)]) (auto simp: move_inv_def)
  show "move_live r \<Longrightarrow> move_live (ms_runs s ! i)" using e(3) by simp
  show "ms_content s p \<noteq> None \<Longrightarrow> ms_content t p \<noteq> None" for p using t(2) by simp
qed

lemma put_with_phase:
  "(\<And>x. lm_phase (f x) = lm_phase x) \<Longrightarrow> map_option lm_phase (put_with key f m k) = map_option lm_phase (m k)"
  "k \<noteq> key \<Longrightarrow> put_with key f m k = m k"
  by (simp_all add: put_with_def option.map_comp split: option.split)

lemma poll_answer_side:
  assumes "poll_answer_move a r m = (r', m')"
  shows "mr_req r' = mr_req r \<and> mr_main r' = mr_main r \<and> mr_copyErr r' = mr_copyErr r \<and> mr_watch r' = mr_watch r
    \<and> (mr_poll r = PollOver \<longrightarrow> r' = r \<and> m' = m)
    \<and> (\<forall>k. map_option lm_phase (m' k) = map_option lm_phase (m k)) \<and> (\<forall>k. k \<noteq> run_move_key r \<longrightarrow> m' k = m k)"
  using assms
  by (auto simp: poll_answer_move_def put_with_phase Let_def split: if_splits sum.splits prod.splits MovePollOutcome.splits)


lemma apart_append:
  assumes "keys_apart rs" "\<And>y. y \<in> set rs \<Longrightarrow> move_live y \<Longrightarrow> run_move_key y \<noteq> run_move_key r"
  shows "keys_apart (rs @ [r])"
  unfolding keys_apart_def
proof (intro allI impI)
  fix a b assume ab: "a < length (rs @ [r])" "b < length (rs @ [r])" "a \<noteq> b" "move_live ((rs @ [r]) ! a)" "move_live ((rs @ [r]) ! b)"
  have old: "(rs @ [r]) ! j = rs ! j \<and> rs ! j \<in> set rs" if "j < length rs" for j using that by (simp add: nth_append)
  have new: "(rs @ [r]) ! length rs = r" by simp
  consider "a < length rs" "b < length rs" | "a = length rs" "b < length rs" | "a < length rs" "b = length rs" using ab(1-3) by force
  then show "run_move_key ((rs @ [r]) ! a) \<noteq> run_move_key ((rs @ [r]) ! b)"
  proof cases
    case 1
    then show ?thesis using assms(1) ab(3-5) old unfolding keys_apart_def by metis
  next
    case 2
    then show ?thesis using assms(2)[of "rs ! b"] ab(5) old new by metis
  next
    case 3
    then show ?thesis using assms(2)[of "rs ! a"] ab(4) old new by metis
  qed
qed

lemma start_inv:
  assumes inv: "move_inv files s"
  shows "move_inv files (runLibraryMove now req s)"
proof (cases "move_running (ms_store s (libraryMoveKey (mq_host req) (mq_from req)))")
  case True
  then show ?thesis using inv by (simp add: runLibraryMove_def libraryMove_def)
next
  case False
  let ?key = "libraryMoveKey (mq_host req) (mq_from req)" and ?t = "runLibraryMove now req s"
  obtain r x where t: "ms_runs ?t = ms_runs s @ [r]" "ms_store ?t = (ms_store s)(?key \<mapsto> x)" "ms_content ?t = ms_content s"
    and r: "mr_req r = req" "mr_main r = MainCopy" and x: "lm_phase x = Copying"
    using False by (simp add: runLibraryMove_def libraryMove_def Let_def)
  have key: "run_move_key r = ?key" using r(1) by (simp add: run_move_key_def)
  have free: "run_move_key y \<noteq> ?key" if "y \<in> set (ms_runs s)" "move_live y" for y
  proof
    assume "run_move_key y = ?key"
    moreover have "move_run_ok s y" using inv that(1) by (simp add: move_inv_def)
    ultimately show False using that(2) False by (auto simp: move_run_ok_def move_running_def split: option.splits if_splits)
  qed
  have new: "move_run_ok ?t r" using r x key t by (simp add: move_run_ok_def copied_def)
  have "move_run_ok ?t y" if "y \<in> set (ms_runs s)" for y
  proof -
    have "move_run_ok s y" using inv that by (simp add: move_inv_def)
    with free[OF that] show ?thesis unfolding move_run_ok_def t(2,3) by auto
  qed
  with new have "\<forall>y \<in> set (ms_runs ?t). move_run_ok ?t y" by (simp add: t(1))
  moreover have "keys_apart (ms_runs ?t)"
    unfolding t(1) using inv free key by (intro apart_append) (auto simp: move_inv_def)
  moreover have "move_kept files ?t"
  proof -
    have "\<not> copied r" using r by (simp add: copied_def)
    then show ?thesis using inv unfolding move_kept_def move_inv_def t by auto
  qed
  ultimately show ?thesis by (simp add: move_inv_def)
qed


lemma put_phase_other: "k \<noteq> key \<Longrightarrow> put_phase key p e m k = m k"
  by (simp add: put_phase_def split: option.split)

text \<open>Steps of the copy itself.\<close>

lemma store_inv:
  assumes inv: "move_inv files s" and phase: "\<And>k. move_running (ms_store s k) \<Longrightarrow> map_option lm_phase (m k) = map_option lm_phase (ms_store s k)"
  shows "move_inv files (s\<lparr>ms_store := m\<rparr>)"
proof -
  have "move_run_ok (s\<lparr>ms_store := m\<rparr>) r" if "r \<in> set (ms_runs s)" for r
  proof -
    have ok: "move_run_ok s r" using inv that by (simp add: move_inv_def)
    then have "move_running (ms_store s (run_move_key r))" if "move_live r"
      using that by (auto simp: move_run_ok_def move_running_def split: option.splits if_splits)
    with ok phase show ?thesis by (simp add: move_run_ok_def run_src_def)
  qed
  with inv show ?thesis by (simp add: move_inv_def move_kept_def)
qed

lemma copied_inv:
  assumes inv: "move_inv files s" and i: "i < length (ms_runs s)" "mr_main (ms_runs s ! i) = MainCopy"
    and c: "ms_content s (run_src (ms_runs s ! i)) = Some c" "ms_content s (run_dst (ms_runs s ! i)) = None"
  shows "move_inv files (set_run i (copy_ended None (ms_runs s ! i)) (s\<lparr>ms_content := (ms_content s)(run_dst (ms_runs s ! i) \<mapsto> c)\<rparr>))"
    (is "move_inv files ?t")
proof (rule set_run_inv[OF inv i(1)])
  let ?r = "copy_ended None (ms_runs s ! i)"
  have ok: "move_run_ok s (ms_runs s ! i)" using inv i(1) by (simp add: move_inv_def)
  show "move_run_ok ?t ?r" using ok i(2) c by (simp add: move_run_ok_def copy_ended_def move_live_def run_move_key_def run_src_def)
  show "move_kept files ?t" by (rule kept_copied[OF inv i(1) _ c]) (simp_all add: copy_ended_def)
qed (use i in \<open>simp_all add: copy_ended_def move_live_def\<close>)

lemma not_copied_inv:
  assumes inv: "move_inv files s" and i: "i < length (ms_runs s)" "mr_main (ms_runs s ! i) = MainCopy"
  shows "move_inv files (set_run i (copy_ended (Some msg) (ms_runs s ! i)) s)"
    (is "move_inv files ?t")
proof (rule set_run_inv[OF inv i(1)])
  let ?r = "copy_ended (Some msg) (ms_runs s ! i)"
  have ok: "move_run_ok s (ms_runs s ! i)" using inv i(1) by (simp add: move_inv_def)
  show "move_run_ok ?t ?r" using ok i(2) by (simp add: move_run_ok_def copy_ended_def move_live_def copied_def run_move_key_def)
  have k: "move_kept files s" using inv by (simp add: move_inv_def)
  show "move_kept files ?t" by (rule kept_same[OF k _ i(1), where r = ?r]) (simp_all add: copy_ended_def copied_def)
qed (use i in \<open>simp_all add: copy_ended_def move_live_def\<close>)

lemma join_inv:
  assumes inv: "move_inv files s" and i: "i < length (ms_runs s)" "mr_main (ms_runs s ! i) = MainJoin"
    and over: "mr_poll (ms_runs s ! i) = PollOver" "mr_watch (ms_runs s ! i) = WatchOver"
    and r: "after_copy (ms_runs s ! i) (ms_store s) = (r, m)"
  shows "move_inv files (set_run i r (s\<lparr>ms_store := m\<rparr>))" (is "move_inv files ?t")
proof (rule set_run_inv[OF inv i(1)])
  have ok: "move_run_ok s (ms_runs s ! i)" using inv i(1) by (simp add: move_inv_def)
  have live: "move_live (ms_runs s ! i)" using i(2) by (simp add: move_live_def)
  show "mr_req r = mr_req (ms_runs s ! i)" using r by (auto simp: after_copy_def split: option.splits)
  show "ms_store ?t k = ms_store s k" if "k \<noteq> run_move_key (ms_runs s ! i) \<or> \<not> move_live (ms_runs s ! i)" for k
    using that live r by (auto simp: after_copy_def put_phase_other put_with_phase split: option.splits if_splits)
  show "move_run_ok ?t r" using ok i(2) over r
    by (auto simp: after_copy_def move_run_ok_def move_live_def copied_def run_move_key_def run_src_def put_with_def split: option.splits)
  have "mr_req r = mr_req (ms_runs s ! i)" "copied r \<Longrightarrow> copied (ms_runs s ! i)"
    using i(2) r by (auto simp: after_copy_def copied_def split: option.splits)
  note step = this
  have k: "move_kept files s" using inv by (simp add: move_inv_def)
  show "move_kept files ?t" by (rule kept_same[OF k _ i(1) _ step]) simp_all
qed (use i(2) in \<open>simp_all add: move_live_def\<close>)

lemma deleted_inv:
  assumes inv: "move_inv files s" and i: "i < length (ms_runs s)" "mr_main (ms_runs s ! i) = MainDelete"
    and content: "content = (ms_content s)(run_src (ms_runs s ! i) := None) \<or> content = ms_content s"
    and r: "delete_ended err (ms_runs s ! i) (ms_store s) = (r, m)"
  shows "move_inv files (set_run i r (s\<lparr>ms_store := m, ms_content := content\<rparr>))" (is "move_inv files ?t")
proof (rule set_run_inv[OF inv i(1)])
  have ok: "move_run_ok s (ms_runs s ! i)" using inv i(1) by (simp add: move_inv_def)
  have live: "move_live (ms_runs s ! i)" using i(2) by (simp add: move_live_def)
  have req: "mr_req r = mr_req (ms_runs s ! i)" and over: "\<not> move_live r" "\<not> copied r" using r by (auto simp: delete_ended_def move_live_def copied_def)
  show "mr_req r = mr_req (ms_runs s ! i)" by (rule req)
  show "ms_store ?t k = ms_store s k" if "k \<noteq> run_move_key (ms_runs s ! i) \<or> \<not> move_live (ms_runs s ! i)" for k
    using that live r by (auto simp: delete_ended_def put_phase_other split: option.splits)
  show "move_run_ok ?t r" using ok over i(2) r by (auto simp: move_run_ok_def delete_ended_def)
  show "move_live r \<Longrightarrow> move_live (ms_runs s ! i)" by (rule live)
  show "ms_content ?t p \<noteq> None" if "ms_content s p \<noteq> None" "p \<noteq> run_src (ms_runs s ! i) \<or> \<not> move_live (ms_runs s ! i)" for p
    using that content live by auto
  have move_kept: "move_kept files s" using inv by (simp add: move_inv_def)
  from content show "move_kept files ?t"
  proof
    assume "content = (ms_content s)(run_src (ms_runs s ! i) := None)"
    then show ?thesis using over(2) i(2) by (intro kept_removed[OF move_kept i(1)]) (simp_all add: copied_def)
  next
    assume "content = ms_content s"
    then show ?thesis using over(2) req by (intro kept_same[OF move_kept _ i(1), where r = r]) simp_all
  qed
qed simp


lemma move_step_inv:
  assumes "move_inv files s" "move_step s t"
  shows "move_inv files t"
  using assms(2,1)
proof cases
  case (mv_start now req)
  then show ?thesis using start_inv[OF assms(1)] by simp
next
  case (mv_stop key)
  have "map_option lm_phase (stopLibraryMove key (ms_store s) k) = map_option lm_phase (ms_store s k)" for k
    by (simp add: stopLibraryMove_def split: option.split)
  then show ?thesis unfolding mv_stop by (intro store_inv[OF assms(1)])
next
  case (mv_dismiss key)
  have "dismissLibraryMove key (ms_store s) k = ms_store s k" if "move_running (ms_store s k)" for k
    using that by (auto simp: dismissLibraryMove_def libraryMove_def)
  then show ?thesis unfolding mv_dismiss by (intro store_inv[OF assms(1)]) simp
next
  case (mv_poll_wake i)
  then show ?thesis by (intro side_step_inv[OF assms(1) mv_poll_wake(2)]) (simp_all add: poll_wake_def)
next
  case (mv_poll i a r m)
  have ok: "move_run_ok s (ms_runs s ! i)" using assms(1) mv_poll(2) by (simp add: move_inv_def)
  note side = poll_answer_side[OF mv_poll(3)]
  have "m k = ms_store s k" if "k \<noteq> run_move_key (ms_runs s ! i) \<or> \<not> move_live (ms_runs s ! i)" for k
    using that side ok by (auto simp: move_run_ok_def move_live_def)
  then show ?thesis unfolding mv_poll(1) using side by (intro side_step_inv[OF assms(1) mv_poll(2)]) simp_all
next
  case (mv_watch i)
  then show ?thesis by (intro side_step_inv[OF assms(1) mv_watch(2)]) (simp_all add: watch_wake_def)
next
  case (mv_cancelled i)
  then show ?thesis by (intro side_step_inv[OF assms(1) mv_cancelled(2)]) simp_all
next
  case (mv_copied i c)
  then show ?thesis using copied_inv[OF assms(1)] by simp
next
  case (mv_not_copied i msg)
  then show ?thesis using not_copied_inv[OF assms(1)] by simp
next
  case (mv_join i r m)
  then show ?thesis using join_inv[OF assms(1)] by simp
next
  case (mv_deleted i err msg content r m)
  then show ?thesis using deleted_inv[OF assms(1) mv_deleted(2,3) _ mv_deleted(6)] by blast
qed

interpretation moves: invariant_system "move_initial files" move_step "move_inv files" for files
proof
  show "move_initial files s \<Longrightarrow> move_inv files s" for s
    by (auto simp: move_initial_def move_inv_def keys_apart_def move_kept_def ran_def)
qed (rule move_step_inv)


text \<open>One run for each game: two runs that have not ended never have the same entry.\<close>

lemma one_move_per_entry:
  "reach (move_initial files) move_step s \<Longrightarrow> i < length (ms_runs s) \<Longrightarrow> j < length (ms_runs s) \<Longrightarrow> i \<noteq> j \<Longrightarrow>
   move_live (ms_runs s ! i) \<Longrightarrow> move_live (ms_runs s ! j) \<Longrightarrow> run_move_key (ms_runs s ! i) \<noteq> run_move_key (ms_runs s ! j)"
  using moves.reach_inv[of files s] unfolding move_inv_def keys_apart_def by blast


section \<open>A move\<close>

definition demo_mv0 :: move_sys where
  "demo_mv0 = \<lparr>ms_store = Map.empty, ms_runs = [], ms_cancels = 0, ms_content = [(''h'', ''/a'') \<mapsto> 7]\<rparr>"

definition demo_mv1 :: move_sys where
  "demo_mv1 = runLibraryMove 0 \<lparr>mq_host = ''h'', mq_from = ''/a'', mq_to = ''/b'', mq_payloadVersion = None\<rparr> demo_mv0"

definition demo_mv2 :: move_sys where
  "demo_mv2 = set_run 0 (copy_ended None (ms_runs demo_mv1 ! 0))
     (demo_mv1\<lparr>ms_content := (ms_content demo_mv1)(run_dst (ms_runs demo_mv1 ! 0) \<mapsto> 7)\<rparr>)"

definition demo_mv3 :: move_sys where
  "demo_mv3 = set_run 0 (poll_wake (ms_runs demo_mv2 ! 0)) demo_mv2"

definition demo_mv4 :: move_sys where
  "demo_mv4 = set_run 0 (watch_wake (ms_store demo_mv3) (ms_runs demo_mv3 ! 0)) demo_mv3"

definition demo_mv5 :: move_sys where
  "demo_mv5 = (case after_copy (ms_runs demo_mv4 ! 0) (ms_store demo_mv4) of (r, m) \<Rightarrow> set_run 0 r (demo_mv4\<lparr>ms_store := m\<rparr>))"

definition demo_mv6 :: move_sys where
  "demo_mv6 = (case delete_ended None (ms_runs demo_mv5 ! 0) (ms_store demo_mv5) of
     (r, m) \<Rightarrow> set_run 0 r (demo_mv5\<lparr>ms_store := m, ms_content := (ms_content demo_mv5)(run_src (ms_runs demo_mv5 ! 0) := None)\<rparr>))"

lemma demo_move_reach: "reach (move_initial [(''h'', ''/a'') \<mapsto> 7]) move_step demo_mv6"
proof -
  let ?R = "reach (move_initial [(''h'', ''/a'') \<mapsto> 7]) move_step"
  have len: "length (ms_runs demo_mv1) = 1" "length (ms_runs demo_mv2) = 1" "length (ms_runs demo_mv3) = 1"
    "length (ms_runs demo_mv4) = 1" "length (ms_runs demo_mv5) = 1" by code_simp+
  have "?R demo_mv0" by (rule reach.reach_init) (simp add: move_initial_def demo_mv0_def)
  moreover have "move_step demo_mv0 demo_mv1" unfolding demo_mv1_def by (rule mv_start)
  moreover have "move_step demo_mv1 demo_mv2" unfolding demo_mv2_def
  proof (rule mv_copied)
    show "mr_main (ms_runs demo_mv1 ! 0) = MainCopy" "ms_content demo_mv1 (run_src (ms_runs demo_mv1 ! 0)) = Some 7"
      "ms_content demo_mv1 (run_dst (ms_runs demo_mv1 ! 0)) = None" by code_simp+
  qed (simp add: len)
  moreover have "move_step demo_mv2 demo_mv3" unfolding demo_mv3_def by (rule mv_poll_wake) (simp add: len)
  moreover have "move_step demo_mv3 demo_mv4" unfolding demo_mv4_def by (rule mv_watch) (simp add: len)
  moreover have "move_step demo_mv4 demo_mv5"
  proof -
    have "mr_main (ms_runs demo_mv4 ! 0) = MainJoin" "mr_poll (ms_runs demo_mv4 ! 0) = PollOver" "mr_watch (ms_runs demo_mv4 ! 0) = WatchOver" by code_simp+
    then show ?thesis unfolding demo_mv5_def using mv_join[of 0 demo_mv4] len by (cases "after_copy (ms_runs demo_mv4 ! 0) (ms_store demo_mv4)") simp
  qed
  moreover have "move_step demo_mv5 demo_mv6"
  proof -
    have "mr_main (ms_runs demo_mv5 ! 0) = MainDelete" by code_simp
    then show ?thesis unfolding demo_mv6_def using mv_deleted[of 0 demo_mv5 None] len
      by (cases "delete_ended None (ms_runs demo_mv5 ! 0) (ms_store demo_mv5)") simp
  qed
  ultimately show ?thesis by (meson reach.reach_step)
qed


end
