(* ===== verification/Space_Run.thy ===== *)
theory Space_Run
  imports Space_Plan Library_Move Upload_Recovery
begin

text \<open>
  Doing a space plan (\<^verbatim>\<open>client/src/state/spacePlanRun.ts\<close>, \<^verbatim>\<open>client/src/lib/moveTarget.ts\<close>): the leftovers in one clean-up, then each move, then each
  uninstall, one after another, with Stop between them. The run is cut at its awaits; what the calls answer comes with the
  event, an error is its message. \<open>sf_reported\<close> has the steps whose call said that it worked. The calls against a console are
  those of the clean-up screen, the move of \<open>Library_Move\<close> and the uninstall.
\<close>

section \<open>Where a move lands\<close>

definition detectSourceVolume :: "string \<Rightarrow> string list \<Rightarrow> string option" where
  "detectSourceVolume entryPath vols =
     (case vols of
        [] \<Rightarrow> None
      | v0 # _ \<Rightarrow>
          (case foldl (\<lambda>best v.
                  let v2 = (if ends_with ''/'' v then butlast v else v) in
                  if entryPath = v2 \<or> starts_with (v2 @ ''/'') entryPath
                  then (case best of None \<Rightarrow> Some v2 | Some b \<Rightarrow> if length v2 > length b then Some v2 else best)
                  else best) None vols of
             Some b \<Rightarrow> Some b | None \<Rightarrow> Some v0))"

definition parent_of :: "string \<Rightarrow> string" where
  "parent_of path = (if CHR ''/'' \<in> set path then rev (drop 1 (dropWhile (\<lambda>c. c \<noteq> CHR ''/'') (rev path))) else [])"

definition defaultMoveSubpath :: "string \<Rightarrow> string \<Rightarrow> string" where
  "defaultMoveSubpath entryPath volume =
     (let v2 = (if ends_with ''/'' volume then butlast volume else volume) in
      if \<not> starts_with (v2 @ ''/'') entryPath then [] else parent_of (drop (length v2 + 1) entryPath))"

definition either_slash :: "char \<Rightarrow> bool" where
  "either_slash c \<longleftrightarrow> c = CHR ''/'' \<or> c = char_of (92 :: nat)"

definition sourceBasename :: "string \<Rightarrow> string" where
  "sourceBasename sourcePath = rev (takeWhile (\<lambda>c. \<not> either_slash c) (dropWhile either_slash (rev sourcePath)))"

definition strip_slashes :: "string \<Rightarrow> string" where
  "strip_slashes p = drop_trailing_slashes (dropWhile (\<lambda>c. c = CHR ''/'') p)"

definition resolveMoveDestination :: "string \<Rightarrow> string \<Rightarrow> string \<Rightarrow> string option \<Rightarrow> string" where
  "resolveMoveDestination volume subpath sourcePath customName =
     (let v = drop_trailing_slashes volume; sub = strip_slashes subpath;
          root = (if sub \<noteq> [] then v @ ''/'' @ sub else v);
          overridden = strip_slashes (trim (orEmpty customName));
          name = (if overridden \<noteq> [] then overridden else sourceBasename sourcePath)
      in if name \<noteq> [] then root @ ''/'' @ name else root)"

definition isMoveNoop :: "string \<Rightarrow> string \<Rightarrow> bool" where
  "isMoveNoop sourcePath destination \<longleftrightarrow> drop_trailing_slashes sourcePath = drop_trailing_slashes destination"

definition isInvalidName :: "string \<Rightarrow> bool" where
  "isInvalidName name \<longleftrightarrow> name \<noteq> [] \<and> (list_ex either_slash name \<or> name = ''.'' \<or> name = ''..'')"

definition moveDestination :: "string \<Rightarrow> string \<Rightarrow> string list \<Rightarrow> string" where
  "moveDestination src dest volumes =
     (let v = orEmpty (volumeOfPath src volumes)
      in resolveMoveDestination dest (if v \<noteq> [] then defaultMoveSubpath src v else []) src None)"

section \<open>The store\<close>

datatype StepState = StWaiting | StRunning | StDone | StFailed | StSkipped | StStopped

record StepProgress =
  pr_state :: StepState
  pr_detail :: "string option"
  pr_bytesDone :: "nat option"
  pr_bytesTotal :: "nat option"

datatype space_wait =
    SwCleanup | SwExists PlannedStep | SwMove PlannedStep | SwUninstall PlannedStep | SwOver

record SpaceRunState =
  spr_host :: "string option"
  sr_running :: bool
  sr_stopRequested :: bool
  sr_steps :: "string \<rightharpoonup> StepProgress"
  sr_order :: "string list"
  sr_finished :: bool
  sf_leftovers :: "PlannedStep list"
  sf_left :: "PlannedStep list"
  sf_wait :: space_wait
  sf_reported :: "string list"
  sf_stopMoves :: "string list"
  sf_moved :: "(string \<times> string) list"

definition SPACE_IDLE :: SpaceRunState where
  "SPACE_IDLE = \<lparr>spr_host = None, sr_running = False, sr_stopRequested = False, sr_steps = Map.empty, sr_order = [], sr_finished = False,
     sf_leftovers = [], sf_left = [], sf_wait = SwOver, sf_reported = [], sf_stopMoves = [], sf_moved = []\<rparr>"

definition space_reset :: "SpaceRunState \<Rightarrow> SpaceRunState" where
  "space_reset s = (if sr_running s then s
     else SPACE_IDLE\<lparr>sf_leftovers := sf_leftovers s, sf_left := sf_left s, sf_wait := sf_wait s, sf_stopMoves := sf_stopMoves s, sf_moved := sf_moved s\<rparr>)"

abbreviation step_id :: "PlannedStep \<Rightarrow> string" where
  "step_id st \<equiv> sc_id (ps_candidate st)"

definition put_step :: "string \<Rightarrow> StepState \<Rightarrow> string option \<Rightarrow> SpaceRunState \<Rightarrow> SpaceRunState" where
  "put_step i st detail s =
     s\<lparr>sr_steps := (sr_steps s)(i \<mapsto>
        (case sr_steps s i of
           None \<Rightarrow> \<lparr>pr_state = st, pr_detail = detail, pr_bytesDone = None, pr_bytesTotal = None\<rparr>
         | Some p \<Rightarrow> p\<lparr>pr_state := st, pr_detail := (case detail of None \<Rightarrow> pr_detail p | Some d \<Rightarrow> Some d)\<rparr>))\<rparr>"

definition put_bytes :: "string \<Rightarrow> nat \<Rightarrow> nat \<Rightarrow> SpaceRunState \<Rightarrow> SpaceRunState" where
  "put_bytes i b t s =
     (case sr_steps s i of None \<Rightarrow> s | Some p \<Rightarrow> s\<lparr>sr_steps := (sr_steps s)(i \<mapsto> p\<lparr>pr_bytesDone := Some b, pr_bytesTotal := Some t\<rparr>)\<rparr>)"

section \<open>The run\<close>

definition space_end :: "SpaceRunState \<Rightarrow> SpaceRunState" where
  "space_end s = s\<lparr>sr_running := False, sr_finished := True, sf_left := [], sf_wait := SwOver\<rparr>"

fun next_steps :: "PlannedStep list \<Rightarrow> SpaceRunState \<Rightarrow> SpaceRunState" where
  "next_steps [] s = space_end s"
| "next_steps (st # sts) s =
     (let c = ps_candidate st in
      if sr_stopRequested s then next_steps sts (put_step (sc_id c) StStopped None s)
      else let s1 = put_step (sc_id c) StRunning None s in
      if sc_kind c = Move \<and> truthy (sc_path c) \<and> truthy (ps_dest st) then s1\<lparr>sf_wait := SwExists st, sf_left := sts\<rparr>
      else if sc_kind c = Uninstall \<and> truthy (sc_titleId c) then s1\<lparr>sf_wait := SwUninstall st, sf_left := sts\<rparr>
      else next_steps sts (put_step (sc_id c) StSkipped None s1))"

definition put_all :: "StepState \<Rightarrow> string option \<Rightarrow> string list \<Rightarrow> SpaceRunState \<Rightarrow> SpaceRunState" where
  "put_all st detail ids s = fold (\<lambda>i. put_step i st detail) ids s"

definition runSpacePlan :: "string \<Rightarrow> SpacePlan \<Rightarrow> SpaceRunState \<Rightarrow> SpaceRunState" where
  "runSpacePlan host plan s =
     (if sr_running s then s
      else let steps = runOrder plan;
               leftovers = filter (\<lambda>st. sc_kind (ps_candidate st) = Leftover) steps;
               others = filter (\<lambda>st. sc_kind (ps_candidate st) \<noteq> Leftover) steps;
               order = map step_id leftovers @ map step_id others;
               s1 = s\<lparr>spr_host := Some host, sr_running := True, sr_stopRequested := False, sr_finished := False, sr_order := order,
                      sr_steps := (\<lambda>i. if i \<in> set order
                        then Some \<lparr>pr_state = StWaiting, pr_detail = None, pr_bytesDone = None, pr_bytesTotal = None\<rparr> else None),
                      sf_leftovers := leftovers, sf_reported := []\<rparr>
           in if leftovers \<noteq> [] then (put_all StRunning None (map step_id leftovers) s1)\<lparr>sf_wait := SwCleanup, sf_left := others\<rparr>
              else next_steps others s1)"

text \<open>The clean-up's answer, by clean-up ids: of two leftovers with one id the later is meant.\<close>

definition by_cleanup :: "PlannedStep list \<Rightarrow> nat \<Rightarrow> string option" where
  "by_cleanup leftovers n = map_of (map (\<lambda>st. (sc_cleanupId (ps_candidate st), step_id st)) (rev leftovers)) (Some n)"

definition mark_cleaned :: "StepState \<Rightarrow> (nat \<times> string option) list \<Rightarrow> SpaceRunState \<Rightarrow> SpaceRunState" where
  "mark_cleaned st ns s =
     fold (\<lambda>(n, why) s. case by_cleanup (sf_leftovers s) n of
        None \<Rightarrow> s | Some i \<Rightarrow> if i = [] then s else put_step i st why s) ns s"

definition left_running :: "SpaceRunState \<Rightarrow> SpaceRunState" where
  "left_running s =
     fold (\<lambda>st s. if map_option pr_state (sr_steps s (step_id st)) = Some StRunning
                  then put_step (step_id st) StSkipped (Some ''stopped'') s else s) (sf_leftovers s) s"

definition cleanup_answer :: "string + nat list \<times> (nat \<times> string) list \<times> (nat \<times> string) list \<Rightarrow> SpaceRunState \<Rightarrow> SpaceRunState" where
  "cleanup_answer a s =
     (let s1 = (case a of
          Inl msg \<Rightarrow> put_all StFailed (Some msg) (map step_id (sf_leftovers s)) s
        | Inr (ok, skipped, failed) \<Rightarrow>
            left_running (mark_cleaned StFailed (map (\<lambda>(n, r). (n, Some r)) failed)
              (mark_cleaned StSkipped (map (\<lambda>(n, r). (n, Some r)) skipped)
                (mark_cleaned StDone (map (\<lambda>n. (n, None)) ok)
                  (s\<lparr>sf_reported := sf_reported s @ List.map_filter (by_cleanup (sf_leftovers s)) ok\<rparr>)))))
      in next_steps (sf_left s1) s1)"

definition exists_answer :: "string list \<Rightarrow> string + bool \<Rightarrow> PlannedStep \<Rightarrow> SpaceRunState \<Rightarrow> SpaceRunState" where
  "exists_answer volumes a st s =
     (if a = Inr True then next_steps (sf_left s) (put_step (step_id st) StSkipped (Some ''dest_exists'') s)
      else let src = orEmpty (sc_path (ps_candidate st))
           in s\<lparr>sf_wait := SwMove st, sf_moved := sf_moved s @ [(src, moveDestination src (orEmpty (ps_dest st)) volumes)]\<rparr>)"

definition move_answer :: "string + LibraryMovePhase \<times> string option \<Rightarrow> PlannedStep \<Rightarrow> SpaceRunState \<Rightarrow> SpaceRunState" where
  "move_answer a st s =
     (let i = step_id st in
      next_steps (sf_left s)
        (case a of
           Inl msg \<Rightarrow> put_step i StFailed (Some msg) s
         | Inr (ph, err) \<Rightarrow>
             if ph = MoveDone then put_step i StDone None (s\<lparr>sf_reported := i # sf_reported s\<rparr>)
             else if ph = Cancelled then put_step i StStopped None s
             else if ph = DeleteFailed then put_step i StFailed (Some ''both_copies'') s
             else put_step i StFailed (Some (orEmpty err)) s))"

definition uninstall_answer :: "string + bool \<Rightarrow> PlannedStep \<Rightarrow> SpaceRunState \<Rightarrow> SpaceRunState" where
  "uninstall_answer a st s =
     (let i = step_id st in
      next_steps (sf_left s)
        (case a of
           Inl msg \<Rightarrow> put_step i StFailed (Some msg) s
         | Inr stillPresent \<Rightarrow> if stillPresent then put_step i StFailed (Some ''still_present'') s
                               else put_step i StDone None (s\<lparr>sf_reported := i # sf_reported s\<rparr>)))"

definition stopSpacePlan :: "SpacePlan option \<Rightarrow> SpaceRunState \<Rightarrow> SpaceRunState" where
  "stopSpacePlan plan s =
     (if \<not> sr_running s then s
      else s\<lparr>sr_stopRequested := True,
             sf_stopMoves := sf_stopMoves s @ List.map_filter (\<lambda>st.
               if sc_kind (ps_candidate st) = Move \<and> truthy (sc_path (ps_candidate st))
                  \<and> map_option pr_state (sr_steps s (step_id st)) = Some StRunning
               then sc_path (ps_candidate st) else None) (case plan of None \<Rightarrow> [] | Some p \<Rightarrow> sp_steps p)\<rparr>)"

text \<open>What \<^verbatim>\<open>consoleSpaceRunDeps\<close> makes of the entry of a move that has ended.\<close>

definition move_outcome :: "LibraryMoveState option \<Rightarrow> LibraryMovePhase \<times> string option" where
  "move_outcome m = (case m of
     None \<Rightarrow> (CopyFailed, Some ''move did not start'')
   | Some x \<Rightarrow> if lm_phase x = Copying \<or> lm_phase x = Deleting then (CopyFailed, Some ''already moving'') else (lm_phase x, lm_error x))"

section \<open>Events\<close>

datatype space_event =
    SStart string SpacePlan | SStop "SpacePlan option" | SReset
  | SCleaned "string + nat list \<times> (nat \<times> string) list \<times> (nat \<times> string) list"
  | SExists "string + bool" | SMoved "string + LibraryMovePhase \<times> string option" | SBytes nat nat | SUninstalled "string + bool"

definition space_do :: "string list \<Rightarrow> SpaceRunState \<Rightarrow> space_event \<Rightarrow> SpaceRunState" where
  "space_do volumes s e =
     (case e of
        SStart host plan \<Rightarrow> runSpacePlan host plan s
      | SStop plan \<Rightarrow> stopSpacePlan plan s
      | SReset \<Rightarrow> space_reset s
      | SCleaned a \<Rightarrow> if sf_wait s = SwCleanup then cleanup_answer a s else s
      | SExists a \<Rightarrow> (case sf_wait s of SwExists st \<Rightarrow> exists_answer volumes a st s | _ \<Rightarrow> s)
      | SMoved a \<Rightarrow> (case sf_wait s of SwMove st \<Rightarrow> move_answer a st s | _ \<Rightarrow> s)
      | SBytes b t \<Rightarrow> (case sf_wait s of SwMove st \<Rightarrow> put_bytes (step_id st) b t s | _ \<Rightarrow> s)
      | SUninstalled a \<Rightarrow> (case sf_wait s of SwUninstall st \<Rightarrow> uninstall_answer a st s | _ \<Rightarrow> s))"


section \<open>The invariant\<close>

definition state_of :: "SpaceRunState \<Rightarrow> string \<Rightarrow> StepState option" where
  "state_of s i = map_option pr_state (sr_steps s i)"

definition is_final :: "SpaceRunState \<Rightarrow> string \<Rightarrow> bool" where
  "is_final s i \<longleftrightarrow> (\<exists>st. state_of s i = Some st \<and> st \<noteq> StWaiting \<and> st \<noteq> StRunning)"

definition to_do :: "SpaceRunState \<Rightarrow> string set" where
  "to_do s = step_id ` set (sf_left s) \<union>
     (case sf_wait s of SwCleanup \<Rightarrow> step_id ` set (sf_leftovers s) | SwExists st \<Rightarrow> {step_id st} | SwMove st \<Rightarrow> {step_id st}
      | SwUninstall st \<Rightarrow> {step_id st} | SwOver \<Rightarrow> {})"

definition accounted :: "SpaceRunState \<Rightarrow> string set \<Rightarrow> bool" where
  "accounted s pending \<longleftrightarrow> (\<forall>i \<in> set (sr_order s). is_final s i \<or> i \<in> pending)
     \<and> (\<forall>i. state_of s i = Some StDone \<longrightarrow> i \<in> set (sf_reported s))"

definition space_inv :: "SpaceRunState \<Rightarrow> bool" where
  "space_inv s \<longleftrightarrow> accounted s (to_do s) \<and> (sr_running s \<longleftrightarrow> sf_wait s \<noteq> SwOver) \<and> (sr_finished s \<longrightarrow> \<not> sr_running s)
     \<and> (\<not> sr_running s \<longrightarrow> to_do s = {})
     \<and> (sf_wait s = SwCleanup \<longrightarrow> (\<forall>st \<in> set (sf_leftovers s). state_of s (step_id st) = Some StRunning))"

lemma state_put_step [simp]: "state_of (put_step i st d s) j = (if j = i then Some st else state_of s j)"
  by (simp add: state_of_def put_step_def split: option.split)

lemma put_step_keeps [simp]:
  "sr_order (put_step i st d s) = sr_order s" "sf_left (put_step i st d s) = sf_left s" "sf_leftovers (put_step i st d s) = sf_leftovers s"
  "sf_wait (put_step i st d s) = sf_wait s" "sf_reported (put_step i st d s) = sf_reported s" "sr_running (put_step i st d s) = sr_running s"
  "sr_finished (put_step i st d s) = sr_finished s" "sr_stopRequested (put_step i st d s) = sr_stopRequested s"
  by (simp_all add: put_step_def)

lemma state_of_keeps [simp]:
  "state_of (s\<lparr>sf_wait := w\<rparr>) i = state_of s i" "state_of (s\<lparr>sf_left := l\<rparr>) i = state_of s i" "state_of (s\<lparr>sf_reported := rp\<rparr>) i = state_of s i"
  "state_of (s\<lparr>sr_running := b\<rparr>) i = state_of s i" "state_of (s\<lparr>sr_finished := b\<rparr>) i = state_of s i" "state_of (s\<lparr>sf_moved := m\<rparr>) i = state_of s i"
  by (simp_all add: state_of_def)

lemma accounted_put:
  assumes "accounted s (insert i P)" "st \<noteq> StWaiting" "st \<noteq> StRunning" "st = StDone \<Longrightarrow> i \<in> set (sf_reported s)"
  shows "accounted (put_step i st d s) P"
  using assms by (auto simp: accounted_def is_final_def)

lemma accounted_running: "accounted s (insert i P) \<Longrightarrow> accounted (put_step i StRunning d s) (insert i P)"
  by (auto simp: accounted_def is_final_def)

lemma next_steps_inv:
  assumes "accounted s (step_id ` set sts)" "sr_running s" "\<not> sr_finished s"
  shows "space_inv (next_steps sts s)"
  using assms
proof (induction sts s rule: next_steps.induct)
  case (1 s)
  then show ?case by (simp add: space_inv_def space_end_def to_do_def accounted_def is_final_def)
next
  case (2 st sts s)
  let ?c = "ps_candidate st"
  have acc: "accounted s (insert (sc_id ?c) (step_id ` set sts))" using 2(3) by simp
  show ?case
  proof (cases "sr_stopRequested s")
    case True
    have "accounted (put_step (sc_id ?c) StStopped None s) (step_id ` set sts)" by (rule accounted_put[OF acc]) simp_all
    with True 2 show ?thesis by simp
  next
    case False
    let ?s1 = "put_step (sc_id ?c) StRunning None s"
    have run: "accounted ?s1 (insert (sc_id ?c) (step_id ` set sts))" using acc by (rule accounted_running)
    have wait: "space_inv (?s1\<lparr>sf_wait := w st, sf_left := sts\<rparr>)" if "w = SwExists \<or> w = SwUninstall" for w
      using that run 2(4,5) by (auto simp: space_inv_def to_do_def accounted_def is_final_def)
    have "accounted (put_step (sc_id ?c) StSkipped None ?s1) (step_id ` set sts)" by (rule accounted_put[OF run]) simp_all
    then show ?thesis using False wait 2 by (simp add: Let_def)
  qed
qed

text \<open>The clean-up's answer leaves no leftover running.\<close>

definition run_or_final :: "SpaceRunState \<Rightarrow> bool" where
  "run_or_final s \<longleftrightarrow> (\<forall>st \<in> set (sf_leftovers s). is_final s (step_id st) \<or> state_of s (step_id st) = Some StRunning)"

lemma put_final: "run_or_final s \<Longrightarrow> st \<noteq> StWaiting \<Longrightarrow> run_or_final (put_step i st d s)"
  by (auto simp: run_or_final_def is_final_def)

definition same_run :: "SpaceRunState \<Rightarrow> SpaceRunState \<Rightarrow> bool" where
  "same_run s t \<longleftrightarrow> sr_order t = sr_order s \<and> sf_left t = sf_left s \<and> sf_leftovers t = sf_leftovers s \<and> sf_reported t = sf_reported s
     \<and> sr_running t = sr_running s \<and> sr_finished t = sr_finished s"

lemma same_run_put [simp]: "same_run s (put_step i st d t) = same_run s t"
  by (simp add: same_run_def)


lemma same_run_trans: "same_run s t \<Longrightarrow> same_run t u \<Longrightarrow> same_run s u"
  by (simp add: same_run_def)

text \<open>A change that keeps the run, what is accounted for, and what has ended.\<close>

definition tidy :: "SpaceRunState \<Rightarrow> SpaceRunState \<Rightarrow> bool" where
  "tidy s t \<longleftrightarrow> same_run s t \<and> (\<forall>P. accounted s P \<longrightarrow> accounted t P) \<and> (\<forall>i. is_final s i \<longrightarrow> is_final t i)
     \<and> (\<forall>i. state_of s i = Some StRunning \<longrightarrow> is_final t i \<or> state_of t i = Some StRunning)"

lemma tidy_refl [simp]: "tidy s s"
  by (simp add: tidy_def same_run_def)

lemma tidy_trans: "tidy s t \<Longrightarrow> tidy t u \<Longrightarrow> tidy s u"
  unfolding tidy_def using same_run_trans by blast

lemma tidy_put:
  assumes "st \<noteq> StWaiting" "st \<noteq> StRunning" "st = StDone \<Longrightarrow> i \<in> set (sf_reported s)"
  shows "tidy s (put_step i st d s)"
  unfolding tidy_def using assms by (auto simp: same_run_def accounted_def is_final_def)

lemma tidy_fold: "(\<And>x t. x \<in> set xs \<Longrightarrow> same_run s t \<Longrightarrow> tidy t (f x t)) \<Longrightarrow> tidy s (fold f xs s)"
proof (induction xs rule: rev_induct)
  case (snoc x xs)
  then have t: "tidy s (fold f xs s)" by simp
  then have "tidy (fold f xs s) (f x (fold f xs s))" using snoc(2) by (simp add: tidy_def)
  with t show ?case using tidy_trans by simp
qed simp

lemma tidy_mark:
  assumes "st \<noteq> StWaiting" "st \<noteq> StRunning"
    "\<And>n why i. st = StDone \<Longrightarrow> (n, why) \<in> set ns \<Longrightarrow> by_cleanup (sf_leftovers s) n = Some i \<Longrightarrow> i \<in> set (sf_reported s)"
  shows "tidy s (mark_cleaned st ns s)"
  unfolding mark_cleaned_def
proof (rule tidy_fold)
  fix x t assume "x \<in> set ns" "same_run s t"
  with assms show "tidy t ((\<lambda>(n, why) s. case by_cleanup (sf_leftovers s) n of
        None \<Rightarrow> s | Some i \<Rightarrow> if i = [] then s else put_step i st why s) x t)"
    by (cases x) (auto simp: same_run_def split: option.split intro!: tidy_put)
qed

lemma tidy_final: "tidy s t \<Longrightarrow> is_final s i \<Longrightarrow> is_final t i"
  unfolding tidy_def by blast

lemma tidy_running: "tidy s t \<Longrightarrow> state_of s i = Some StRunning \<Longrightarrow> is_final t i \<or> state_of t i = Some StRunning"
  unfolding tidy_def by blast

definition skip_running :: "PlannedStep \<Rightarrow> SpaceRunState \<Rightarrow> SpaceRunState" where
  "skip_running st s = (if state_of s (step_id st) = Some StRunning
     then put_step (step_id st) StSkipped (Some ''stopped'') s else s)"

lemma tidy_skip: "tidy s (skip_running st s)"
  using tidy_put[of StSkipped "step_id st" s] by (simp add: skip_running_def)

lemma skip_final:
  assumes "is_final s (step_id st) \<or> state_of s (step_id st) = Some StRunning"
  shows "is_final (skip_running st s) (step_id st)"
  using assms by (auto simp: skip_running_def is_final_def)

lemma skip_all_running:
  assumes "\<forall>st \<in> set xs. is_final u (step_id st) \<or> state_of u (step_id st) = Some StRunning"
  shows "tidy u (fold skip_running xs u) \<and> (\<forall>st \<in> set xs. is_final (fold skip_running xs u) (step_id st))"
  using assms
proof (induction xs arbitrary: u)
  case (Cons x xs)
  let ?v = "skip_running x u"
  have t: "tidy u ?v" by (rule tidy_skip)
  have "\<forall>st \<in> set xs. is_final ?v (step_id st) \<or> state_of ?v (step_id st) = Some StRunning"
    using Cons(2) tidy_final[OF t] tidy_running[OF t] by auto
  from Cons(1)[OF this] have IH: "tidy ?v (fold skip_running xs ?v)" "\<forall>st \<in> set xs. is_final (fold skip_running xs ?v) (step_id st)" by auto
  have "is_final ?v (step_id x)" using Cons(2) by (intro skip_final) simp
  then have "is_final (fold skip_running xs ?v) (step_id x)" by (rule tidy_final[OF IH(1)])
  with IH(2) tidy_trans[OF t IH(1)] show ?case by simp
qed simp

lemma left_running_skips: "left_running s = fold skip_running (sf_leftovers s) s"
  unfolding left_running_def skip_running_def state_of_def by simp

lemma left_running_final:
  assumes "\<forall>st \<in> set (sf_leftovers s). is_final s (step_id st) \<or> state_of s (step_id st) = Some StRunning"
  shows "tidy s (left_running s) \<and> (\<forall>st \<in> set (sf_leftovers s). is_final (left_running s) (step_id st))"
  unfolding left_running_skips by (rule skip_all_running[OF assms])

lemma put_all_state: "state_of (put_all st d ids s) i = (if i \<in> set ids then Some st else state_of s i)"
  unfolding put_all_def by (induction ids arbitrary: s) auto

lemma put_all_same: "same_run s (put_all st d ids s)"
proof -
  have "same_run s (fold (\<lambda>i. put_step i st d) ids t)" if "same_run s t" for t
    using that by (induction ids arbitrary: t) simp_all
  then show ?thesis unfolding put_all_def by (simp add: same_run_def)
qed

lemma accounted_done:
  assumes "accounted s (Q \<union> P)" "tidy s t" "\<forall>i \<in> Q. is_final t i"
  shows "accounted t P"
proof -
  have "accounted t (Q \<union> P)" using assms(1,2) by (simp add: tidy_def)
  with assms(3) show ?thesis by (auto simp: accounted_def)
qed

lemma cleanup_inv:
  assumes inv: "space_inv s" and wait: "sf_wait s = SwCleanup"
  shows "space_inv (cleanup_answer a s)"
proof -
  have run: "sr_running s" "\<not> sr_finished s" using inv wait by (auto simp: space_inv_def)
  let ?Q = "step_id ` set (sf_leftovers s)" and ?P = "step_id ` set (sf_left s)"
  have acc: "accounted s (?Q \<union> ?P)" using inv wait by (simp add: space_inv_def to_do_def Un_commute)
  have running: "\<forall>st \<in> set (sf_leftovers s). state_of s (step_id st) = Some StRunning" using inv wait by (simp add: space_inv_def)
  have go: "space_inv (next_steps (sf_left t) t)" if "same_run s t" "accounted t ?P" for t
    using that run by (intro next_steps_inv) (simp_all add: same_run_def)
  show ?thesis
  proof (cases a)
    case (Inl msg)
    let ?t = "put_all StFailed (Some msg) (map step_id (sf_leftovers s)) s"
    have "same_run s ?t" by (rule put_all_same)
    moreover have "accounted ?t ?P" using acc calculation unfolding accounted_def is_final_def put_all_state same_run_def by auto
    ultimately show ?thesis using go Inl by (simp add: cleanup_answer_def Let_def)
  next
    case (Inr res)
    obtain ok skipped failed where res: "res = (ok, skipped, failed)" by (cases res)
    let ?r = "s\<lparr>sf_reported := sf_reported s @ List.map_filter (by_cleanup (sf_leftovers s)) ok\<rparr>"
    let ?a = "mark_cleaned StDone (map (\<lambda>n. (n, None)) ok) ?r"
    let ?b = "mark_cleaned StSkipped (map (\<lambda>(n, r). (n, Some r)) skipped) ?a"
    let ?c = "mark_cleaned StFailed (map (\<lambda>(n, r). (n, Some r)) failed) ?b"
    let ?t = "left_running ?c"
    have "tidy ?r ?a" by (rule tidy_mark) (auto simp: List.map_filter_def image_iff)
    moreover have "tidy ?a ?b" "tidy ?b ?c" by (rule tidy_mark; simp)+
    ultimately have c: "tidy ?r ?c" using tidy_trans by blast
    then have left: "sf_leftovers ?c = sf_leftovers s" by (simp add: tidy_def same_run_def)
    have "\<forall>st \<in> set (sf_leftovers ?c). is_final ?c (step_id st) \<or> state_of ?c (step_id st) = Some StRunning"
      using c running unfolding left tidy_def by simp
    from left_running_final[OF this] have t: "tidy ?c ?t" "\<forall>i \<in> ?Q. is_final ?t i" using left by auto
    have acc': "accounted ?r (?Q \<union> ?P)" using acc by (auto simp: accounted_def is_final_def)
    have all: "tidy ?r ?t" using c t(1) tidy_trans by blast
    have "accounted ?t ?P" by (rule accounted_done[OF acc' all t(2)])
    moreover have "space_inv (next_steps (sf_left ?t) ?t)"
      using all run calculation by (intro next_steps_inv) (simp_all add: tidy_def same_run_def)
    ultimately show ?thesis using Inr res by (simp add: cleanup_answer_def Let_def)
  qed
qed


lemma start_run_inv:
  assumes inv: "space_inv s"
  shows "space_inv (runSpacePlan host plan s)"
proof (cases "sr_running s")
  case True
  then show ?thesis using inv by (simp add: runSpacePlan_def)
next
  case False
  define left where "left = filter (\<lambda>st. sc_kind (ps_candidate st) = Leftover) (runOrder plan)"
  define others where "others = filter (\<lambda>st. sc_kind (ps_candidate st) \<noteq> Leftover) (runOrder plan)"
  define order where "order = map step_id left @ map step_id others"
  define s1 where "s1 = s\<lparr>spr_host := Some host, sr_running := True, sr_stopRequested := False, sr_finished := False, sr_order := order,
      sr_steps := (\<lambda>i. if i \<in> set order
        then Some \<lparr>pr_state = StWaiting, pr_detail = None, pr_bytesDone = None, pr_bytesTotal = None\<rparr> else None),
      sf_leftovers := left, sf_reported := []\<rparr>"
  have run: "runSpacePlan host plan s = (if left \<noteq> [] then (put_all StRunning None (map step_id left) s1)\<lparr>sf_wait := SwCleanup, sf_left := others\<rparr>
      else next_steps others s1)"
    using False unfolding runSpacePlan_def Let_def left_def others_def order_def s1_def by simp
  have st: "state_of s1 i = (if i \<in> set order then Some StWaiting else None)" for i by (simp add: s1_def state_of_def)
  have s1: "sr_order s1 = order" "sf_leftovers s1 = left" "sf_reported s1 = []" "sr_running s1" "\<not> sr_finished s1" by (simp_all add: s1_def)
  show ?thesis
  proof (cases "left = []")
    case True
    have "accounted s1 (step_id ` set others)" using True by (auto simp: accounted_def s1 st order_def)
    then show ?thesis using next_steps_inv[of s1 others] s1 True run by simp
  next
    case l: False
    let ?t = "(put_all StRunning None (map step_id left) s1)\<lparr>sf_wait := SwCleanup, sf_left := others\<rparr>"
    have same: "sr_order ?t = order" "sf_leftovers ?t = left" "sf_reported ?t = []" "sr_running ?t" "\<not> sr_finished ?t"
      using put_all_same[of s1 StRunning None "map step_id left"] s1 by (simp_all add: same_run_def)
    have "state_of ?t i = (if i \<in> step_id ` set left then Some StRunning else if i \<in> set order then Some StWaiting else None)" for i
      by (simp add: put_all_state st)
    then have "space_inv ?t" using same(4,5) unfolding space_inv_def accounted_def to_do_def same by (auto simp: order_def)
    with l run show ?thesis by simp
  qed
qed

lemma answered_inv:
  assumes inv: "space_inv s" and wait: "sf_wait s \<in> {SwExists st, SwMove st, SwUninstall st}"
    and x: "x \<noteq> StWaiting" "x \<noteq> StRunning" and rep: "sf_reported t = sf_reported s \<or> sf_reported t = step_id st # sf_reported s"
    and d: "x = StDone \<Longrightarrow> step_id st \<in> set (sf_reported t)"
    and t: "t = s\<lparr>sf_reported := sf_reported t\<rparr>"
  shows "space_inv (next_steps (sf_left s) (put_step (step_id st) x det t))"
proof -
  have run: "sr_running s" "\<not> sr_finished s" using inv wait by (auto simp: space_inv_def)
  have "accounted s (insert (step_id st) (step_id ` set (sf_left s)))" using inv wait by (auto simp: space_inv_def to_do_def)
  then have "accounted t (insert (step_id st) (step_id ` set (sf_left s)))"
    using rep by (subst t) (auto simp: accounted_def is_final_def)
  then have "accounted (put_step (step_id st) x det t) (step_id ` set (sf_left s))" by (rule accounted_put) (use x d in auto)
  moreover have "sr_running t = sr_running s" "sr_finished t = sr_finished s" by (subst t, simp)+
  ultimately show ?thesis using run by (intro next_steps_inv) simp_all
qed

lemma space_inv_cong:
  assumes "\<And>i. state_of t i = state_of s i" "sr_order t = sr_order s" "sf_reported t = sf_reported s" "sf_left t = sf_left s"
    "sf_wait t = sf_wait s" "sf_leftovers t = sf_leftovers s" "sr_running t = sr_running s" "sr_finished t = sr_finished s"
  shows "space_inv t = space_inv s"
proof -
  have "to_do t = to_do s" using assms(4-6) by (simp add: to_do_def split: space_wait.split)
  then show ?thesis using assms by (simp add: space_inv_def accounted_def is_final_def)
qed

lemma space_do_inv:
  assumes inv: "space_inv s"
  shows "space_inv (space_do volumes s e)"
proof (cases e)
  case (SStart host plan)
  then show ?thesis using start_run_inv[OF inv] by (simp add: space_do_def)
next
  case (SStop plan)
  have "space_inv (stopSpacePlan plan s) = space_inv s" by (rule space_inv_cong) (simp_all add: stopSpacePlan_def state_of_def)
  with inv SStop show ?thesis by (simp add: space_do_def)
next
  case SReset
  then show ?thesis using inv
    by (auto simp: space_do_def space_reset_def SPACE_IDLE_def space_inv_def accounted_def is_final_def to_do_def state_of_def split: space_wait.splits)
next
  case (SCleaned a)
  then show ?thesis using cleanup_inv[OF inv] inv by (simp add: space_do_def)
next
  case (SExists a)
  show ?thesis
  proof (cases "\<exists>st. sf_wait s = SwExists st")
    case True
    then obtain st where st: "sf_wait s = SwExists st" by blast
    have "space_inv (s\<lparr>sf_wait := SwMove st, sf_moved := m\<rparr>)" for m
      using inv st by (auto simp: space_inv_def accounted_def is_final_def to_do_def)
    moreover have "space_inv (next_steps (sf_left s) (put_step (step_id st) StSkipped (Some ''dest_exists'') s))"
      by (rule answered_inv[OF inv, of st]) (simp_all add: st)
    ultimately show ?thesis using SExists st by (simp add: space_do_def exists_answer_def Let_def)
  next
    case False
    then show ?thesis using inv SExists by (simp add: space_do_def split: space_wait.split)
  qed
next
  case (SMoved a)
  show ?thesis
  proof (cases "\<exists>st. sf_wait s = SwMove st")
    case True
    then obtain st where st: "sf_wait s = SwMove st" by blast
    have "space_inv (next_steps (sf_left s) (put_step (step_id st) x det s))" if "x = StFailed \<or> x = StStopped" for x det
      by (rule answered_inv[OF inv, of st]) (use st that in auto)
    moreover have "space_inv (next_steps (sf_left s) (put_step (step_id st) StDone None (s\<lparr>sf_reported := step_id st # sf_reported s\<rparr>)))"
      by (rule answered_inv[OF inv, of st]) (simp_all add: st)
    ultimately show ?thesis using SMoved st by (simp add: space_do_def move_answer_def Let_def split: sum.split prod.split)
  next
    case False
    then show ?thesis using inv SMoved by (simp add: space_do_def split: space_wait.split)
  qed
next
  case (SBytes b n)
  have "space_inv (put_bytes j b n s) = space_inv s" for j
    by (rule space_inv_cong) (simp_all add: put_bytes_def state_of_def split: option.split)
  with inv SBytes show ?thesis by (simp add: space_do_def split: space_wait.split)
next
  case (SUninstalled a)
  show ?thesis
  proof (cases "\<exists>st. sf_wait s = SwUninstall st")
    case True
    then obtain st where st: "sf_wait s = SwUninstall st" by blast
    have "space_inv (next_steps (sf_left s) (put_step (step_id st) StFailed det s))" for det
      by (rule answered_inv[OF inv, of st]) (simp_all add: st)
    moreover have "space_inv (next_steps (sf_left s) (put_step (step_id st) StDone None (s\<lparr>sf_reported := step_id st # sf_reported s\<rparr>)))"
      by (rule answered_inv[OF inv, of st]) (simp_all add: st)
    ultimately show ?thesis using SUninstalled st by (simp add: space_do_def uninstall_answer_def Let_def split: sum.split)
  next
    case False
    then show ?thesis using inv SUninstalled by (simp add: space_do_def split: space_wait.split)
  qed
qed

interpretation space_run: event_machine "space_do volumes" space_inv for volumes
  by unfold_locales (rule space_do_inv)

abbreviation space_after :: "string list \<Rightarrow> space_event list \<Rightarrow> SpaceRunState" where
  "space_after volumes es \<equiv> foldl (space_do volumes) SPACE_IDLE es"

lemma space_after_inv: "space_inv (space_after volumes es)"
  by (rule space_run.run_inv) (simp add: space_inv_def SPACE_IDLE_def accounted_def to_do_def state_of_def)



text \<open>Stop lets the step that is running end, and no other begins.\<close>

lemma stop_skips_rest: "sr_stopRequested s \<Longrightarrow> next_steps sts s = space_end (put_all StStopped None (map step_id sts) s)"
proof (induction sts arbitrary: s)
  case Nil
  then show ?case by (simp add: put_all_def)
next
  case (Cons st sts)
  have "sr_stopRequested (put_step (step_id st) StStopped None s)" using Cons.prems by simp
  from Cons.IH[OF this] Cons.prems show ?case by (simp add: put_all_def)
qed

definition demo_candidate :: "string \<Rightarrow> SpaceStepKind \<Rightarrow> SpaceCandidate" where
  "demo_candidate i k = \<lparr>sc_id = i, sc_kind = k, sc_label = i, sc_titleId = Some i, sc_bytes = 1, sc_lastPlayedMs = None, sc_hasCopy = None,
     sc_moveTargets = Some [''/m''], sc_cleanupId = Some 4, sc_path = Some ''/d/a''\<rparr>"

definition demo_plan :: SpacePlan where
  "demo_plan = \<lparr>sp_steps = [\<lparr>ps_candidate = demo_candidate ''l'' Leftover, ps_selected = True, ps_dest = None\<rparr>,
       \<lparr>ps_candidate = demo_candidate ''m'' Move, ps_selected = True, ps_dest = Some ''/m''\<rparr>,
       \<lparr>ps_candidate = demo_candidate ''u'' Uninstall, ps_selected = True, ps_dest = None\<rparr>],
     shortBytes = 3, freedBytes = 3, enough = True, missingBytes = 0, actions = 3\<rparr>"

definition demo_run :: SpaceRunState where
  "demo_run = space_after [''/d'', ''/m''] [SStart ''h'' demo_plan, SCleaned (Inr ([4], [], [])), SExists (Inr False),
     SMoved (Inr (MoveDone, None)), SUninstalled (Inr True)]"

lemma demo_run_states:
  "sr_finished demo_run" "sr_order demo_run = [''l'', ''m'', ''u'']" "sf_moved demo_run = [(''/d/a'', ''/m/a'')]"
  "map (\<lambda>i. map_option pr_state (sr_steps demo_run i)) [''l'', ''m'', ''u''] = [Some StDone, Some StDone, Some StFailed]"
  by code_simp+


text \<open>Stop while the destination of a move is being checked: the move is asked to stop before it runs, which does nothing, and then it starts all the same.\<close>

lemma stop_before_move_lost:
  "sf_moved (space_after [''/d'', ''/m''] [SStart ''h'' demo_plan, SCleaned (Inr ([4], [], [])), SStop (Some demo_plan), SExists (Inr False)]) = [(''/d/a'', ''/m/a'')]"
  "stopLibraryMove key Map.empty = Map.empty"
  by code_simp (simp add: stopLibraryMove_def)

end
