(* ===== verification/Back_History.thy ===== *)
theory Back_History
  imports Js_Prelude
begin

text \<open>
  The Back button of the console's browser (\<^verbatim>\<open>client/src/console/backHistory.ts\<close>). The page cannot see the button; it keeps one
  entry of the browser's history, the guard, on top of its own while there is somewhere to go back to, and does its own
  back step when that entry is popped.

  The state has the variables of \<^verbatim>\<open>createBackHistory\<close> and the browser: how many guard entries lie above the page's own, how many
  traversals (\<^verbatim>\<open>history.back()\<close> and presses of the button) are still to be done, and whether the page has been left. A traversal
  is done some time after it was asked for; each goes one entry down from where the history then is. \<^verbatim>\<open>env.defer\<close> runs
  \<^verbatim>\<open>sync\<close> at some later time; the page's back action closes its level in a later commit. The browser has no Forward button.
\<close>

section \<open>State\<close>

record back_state =
  bh_closed :: "bool list"
  bh_levels :: nat
  bh_guard :: bool
  bh_ignorePops :: nat
  bh_backPending :: bool
  bh_lastBackAt :: "nat option"
  bh_scheduled :: bool
  bh_startedAt :: nat
  bh_userInput :: bool
  bh_rootTried :: bool
  br_guards :: nat
  br_pending :: nat
  br_left :: bool
  bh_now :: nat
  bh_runs :: nat
  bh_roots :: nat

record back_opts =
  op_graceMs :: nat
  op_onRoot :: bool

definition BACK_ECHO_MS :: nat where
  "BACK_ECHO_MS = 150"

section \<open>Operations\<close>

definition wantGuard :: "back_state \<Rightarrow> bool" where
  "wantGuard s \<longleftrightarrow> bh_levels s > 0"

definition schedule_sync :: "back_state \<Rightarrow> back_state" where
  "schedule_sync s = s\<lparr>bh_scheduled := True\<rparr>"

definition env_push :: "back_state \<Rightarrow> back_state" where
  "env_push s = s\<lparr>br_guards := br_guards s + 1\<rparr>"

definition env_back :: "back_state \<Rightarrow> back_state" where
  "env_back s = s\<lparr>br_pending := br_pending s + 1\<rparr>"

definition sync_guard :: "back_state \<Rightarrow> back_state" where
  "sync_guard s0 =
     (let s = s0\<lparr>bh_scheduled := False\<rparr> in
      if wantGuard s \<and> \<not> bh_guard s then (env_push s)\<lparr>bh_guard := True\<rparr>
      else if \<not> wantGuard s \<and> bh_guard s then env_back (s\<lparr>bh_guard := False, bh_ignorePops := bh_ignorePops s + 1\<rparr>)
      else s)"

definition runBack :: "back_state \<Rightarrow> back_state" where
  "runBack s = s\<lparr>bh_runs := bh_runs s + 1\<rparr>"

definition echo :: "back_state \<Rightarrow> bool" where
  "echo s \<longleftrightarrow> (case bh_lastBackAt s of None \<Rightarrow> False | Some t \<Rightarrow> bh_now s < t + BACK_ECHO_MS)"

definition in_grace :: "back_opts \<Rightarrow> back_state \<Rightarrow> bool" where
  "in_grace opts s \<longleftrightarrow> \<not> bh_userInput s \<and> bh_now s < bh_startedAt s + op_graceMs opts"

definition on_pop :: "back_opts \<Rightarrow> back_state \<Rightarrow> back_state" where
  "on_pop opts s0 =
     (let s = s0\<lparr>bh_backPending := False\<rparr> in
      if br_guards s > 0 then s\<lparr>bh_guard := True\<rparr>
      else let s1 = s\<lparr>bh_guard := False\<rparr> in
      if bh_ignorePops s1 > 0 then schedule_sync (s1\<lparr>bh_ignorePops := bh_ignorePops s1 - 1\<rparr>)
      else if in_grace opts s1 then schedule_sync s1
      else if echo s1 then schedule_sync s1
      else let s2 = s1\<lparr>bh_lastBackAt := Some (bh_now s1)\<rparr> in
      if bh_levels s2 = 0 then schedule_sync s2 else schedule_sync (runBack s2))"

definition addLevel :: "back_state \<Rightarrow> back_state" where
  "addLevel s = schedule_sync (s\<lparr>bh_levels := bh_levels s + 1, bh_rootTried := False, bh_closed := bh_closed s @ [False]\<rparr>)"

definition closeLevel :: "nat \<Rightarrow> back_state \<Rightarrow> back_state" where
  "closeLevel i s =
     (if i < length (bh_closed s) \<and> \<not> bh_closed s ! i
      then schedule_sync (s\<lparr>bh_closed := (bh_closed s)[i := True], bh_levels := bh_levels s - 1\<rparr>) else s)"

definition requestBack :: "back_opts \<Rightarrow> back_state \<Rightarrow> back_state" where
  "requestBack opts s0 =
     (if bh_backPending s0 then s0
      else let s = s0\<lparr>bh_userInput := True\<rparr> in
      if bh_guard s \<and> bh_ignorePops s = 0 then env_back (s\<lparr>bh_backPending := True\<rparr>)
      else let s1 = s\<lparr>bh_lastBackAt := Some (bh_now s)\<rparr> in
      if bh_levels s1 = 0 \<and> op_onRoot opts \<and> \<not> bh_rootTried s1
      then s1\<lparr>bh_rootTried := True, bh_roots := bh_roots s1 + 1\<rparr>
      else schedule_sync (runBack s1))"

definition noteInput :: "back_state \<Rightarrow> back_state" where
  "noteInput s = s\<lparr>bh_userInput := True\<rparr>"

definition createBackHistory :: "bool \<Rightarrow> nat \<Rightarrow> back_state" where
  "createBackHistory startsOnGuard now =
     \<lparr>bh_closed = [], bh_levels = 0, bh_guard = startsOnGuard, bh_ignorePops = 0, bh_backPending = False, bh_lastBackAt = None,
      bh_scheduled = startsOnGuard, bh_startedAt = now, bh_userInput = False, bh_rootTried = False,
      br_guards = (if startsOnGuard then 1 else 0), br_pending = 0, br_left = False, bh_now = now, bh_runs = 0, bh_roots = 0\<rparr>"

section \<open>The browser\<close>

datatype back_event =
    BOpen | BClose nat | BSync | BKey | BInput | BPress | BTraverse | BSpurious | BWait nat

definition traverse :: "back_opts \<Rightarrow> back_state \<Rightarrow> back_state" where
  "traverse opts s =
     (if br_pending s = 0 then s
      else let s1 = s\<lparr>br_pending := br_pending s - 1\<rparr> in
      if br_guards s1 = 0 then s1\<lparr>br_left := True\<rparr>
      else on_pop opts (s1\<lparr>br_guards := br_guards s1 - 1\<rparr>))"

definition back_do :: "back_opts \<Rightarrow> back_state \<Rightarrow> back_event \<Rightarrow> back_state" where
  "back_do opts s e =
     (if br_left s then s
      else case e of
        BOpen \<Rightarrow> addLevel s
      | BClose i \<Rightarrow> closeLevel i s
      | BSync \<Rightarrow> if bh_scheduled s then sync_guard s else s
      | BKey \<Rightarrow> requestBack opts s
      | BInput \<Rightarrow> noteInput s
      | BPress \<Rightarrow> env_back s
      | BTraverse \<Rightarrow> traverse opts s
      | BSpurious \<Rightarrow> on_pop opts s
      | BWait n \<Rightarrow> s\<lparr>bh_now := bh_now s + n\<rparr>)"

section \<open>One guard\<close>

text \<open>The guard entries never outnumber the traversals still to be done by more than the one the page knows of. When it does not wait for
  \<^verbatim>\<open>sync\<close>, an entry beyond those traversals means that a level is open, and none means that none is.\<close>

definition back_inv :: "back_state \<Rightarrow> bool" where
  "back_inv s \<longleftrightarrow> br_left s \<or>
     (if bh_guard s then 0 < br_guards s \<and> br_guards s \<le> br_pending s + 1 else br_guards s \<le> br_pending s)
     \<and> bh_levels s = length (filter Not (bh_closed s))
     \<and> (\<not> bh_scheduled s \<longrightarrow> (br_guards s = br_pending s + 1 \<longrightarrow> bh_levels s > 0)
          \<and> (\<not> bh_guard s \<longrightarrow> br_pending s = 0 \<longrightarrow> bh_levels s = 0))"

lemma on_pop_inv:
  assumes "bh_levels s = length (filter Not (bh_closed s))" "br_guards s \<le> br_pending s + 1"
    and "\<not> bh_scheduled s \<Longrightarrow> br_guards s = br_pending s + 1 \<Longrightarrow> bh_levels s > 0"
  shows "back_inv (on_pop opts s)"
  using assms unfolding on_pop_def Let_def back_inv_def by (auto simp: schedule_sync_def runBack_def)

lemma close_count: "i < length cs \<Longrightarrow> \<not> cs ! i \<Longrightarrow> length (filter Not cs) = Suc (length (filter Not (cs[i := True])))"
proof (induction cs arbitrary: i)
  case (Cons c cs)
  then show ?case by (cases i) auto
qed simp

lemma open_count: "0 < length (filter Not cs) \<longleftrightarrow> (\<exists>i < length cs. \<not> cs ! i)"
  unfolding length_greater_0_conv filter_empty_conv by (metis in_set_conv_nth)

lemma back_do_inv: "back_inv s \<Longrightarrow> back_inv (back_do opts s e)"
proof (cases "br_left s")
  case True
  then show "back_inv s \<Longrightarrow> back_inv (back_do opts s e)" by (simp add: back_do_def)
next
  case live: False
  assume inv: "back_inv s"
  note I = inv[unfolded back_inv_def]
  show "back_inv (back_do opts s e)"
  proof (cases e)
    case BTraverse
    show ?thesis
    proof (cases "br_pending s = 0 \<or> br_guards s = 0")
      case True
      then have "back_do opts s e = s \<or> br_left (back_do opts s e)" using live BTraverse by (auto simp: back_do_def traverse_def Let_def)
      with inv show ?thesis by (auto simp: back_inv_def)
    next
      case False
      let ?t = "s\<lparr>br_pending := br_pending s - 1, br_guards := br_guards s - 1\<rparr>"
      have "back_inv (on_pop opts ?t)" using I live False by (intro on_pop_inv) (auto split: if_splits)
      with False live BTraverse show ?thesis by (simp add: back_do_def traverse_def Let_def)
    qed
  next
    case BSpurious
    have "back_inv (on_pop opts s)" using I live by (intro on_pop_inv) (auto split: if_splits)
    with BSpurious live show ?thesis by (simp add: back_do_def)
  next
    case (BClose i)
    then show ?thesis using I live close_count[of i "bh_closed s"]
      by (auto simp: back_do_def closeLevel_def schedule_sync_def back_inv_def split: if_splits)
  next
    case BKey
    then show ?thesis using I live
      by (auto simp: back_do_def requestBack_def env_back_def schedule_sync_def runBack_def back_inv_def Let_def split: if_splits)
  next
    case BSync
    then show ?thesis using I live
      by (auto simp: back_do_def sync_guard_def wantGuard_def env_push_def env_back_def back_inv_def Let_def split: if_splits)
  qed (use I live in \<open>auto simp: back_do_def addLevel_def schedule_sync_def noteInput_def env_back_def back_inv_def split: if_splits\<close>)
qed

interpretation back_button: event_machine "back_do opts" back_inv for opts
  by unfold_locales (rule back_do_inv)

abbreviation back_after :: "back_opts \<Rightarrow> bool \<Rightarrow> nat \<Rightarrow> back_event list \<Rightarrow> back_state" where
  "back_after opts g t es \<equiv> foldl (back_do opts) (createBackHistory g t) es"

lemma back_after_inv: "back_inv (back_after opts g t es)"
  by (rule back_button.run_inv) (simp add: back_inv_def createBackHistory_def)

definition settled :: "back_state \<Rightarrow> bool" where
  "settled s \<longleftrightarrow> \<not> br_left s \<and> br_pending s = 0 \<and> \<not> bh_scheduled s"

lemma settled_guard:
  assumes "back_inv s" "settled s"
  shows "bh_guard s \<longleftrightarrow> bh_levels s > 0" "br_guards s = (if bh_levels s > 0 then 1 else 0)"
  using assms by (auto simp: back_inv_def settled_def split: if_splits)


definition pressed :: "back_opts \<Rightarrow> back_state \<Rightarrow> back_state" where
  "pressed opts s = back_do opts (back_do opts s BPress) BTraverse"

section \<open>Properties\<close>

text \<open>C35. One guard, whatever the depth. Once the browser has done what it was asked and nothing waits to be synchronised, the page's own flag
  agrees with the browser, and there is exactly one guard entry while a level is open and none on the first screen.\<close>

theorem back_one_guard:
  assumes "settled (back_after opts onGuard t0 es)"
  shows "(bh_guard (back_after opts onGuard t0 es) \<longleftrightarrow> (\<exists>i < length (bh_closed (back_after opts onGuard t0 es)). \<not> bh_closed (back_after opts onGuard t0 es) ! i))
    \<and> br_guards (back_after opts onGuard t0 es) = (if bh_guard (back_after opts onGuard t0 es) then 1 else 0)"
proof -
  let ?s = "back_after opts onGuard t0 es"
  have inv: "back_inv ?s" by (rule back_after_inv)
  have "bh_levels ?s = length (filter Not (bh_closed ?s))" using inv assms by (simp add: back_inv_def settled_def)
  then have "bh_levels ?s > 0 \<longleftrightarrow> (\<exists>i < length (bh_closed ?s). \<not> bh_closed ?s ! i)" by (simp only: open_count)
  with settled_guard[OF inv assms] show ?thesis by simp
qed


definition back_demo :: back_opts where
  "back_demo = \<lparr>op_graceMs = 0, op_onRoot = True\<rparr>"

theorem back_one_guard_witness:
  "br_guards (back_after back_demo True 0 [BOpen, BOpen, BSync, BClose 0, BSync])
   = (if bh_guard (back_after back_demo True 0 [BOpen, BOpen, BSync, BClose 0, BSync]) then 1 else 0)"
proof -
  have "settled (back_after back_demo True 0 [BOpen, BOpen, BSync, BClose 0, BSync])" by code_simp
  from back_one_guard[OF this] show ?thesis by blast
qed


text \<open>A guard is taken down because no level is open; before the browser has done so a level opens and its guard goes on top of the old one. The pop
  that was to be ignored pops nothing the page notices, and the next press of the button is ignored in its place.\<close>

lemma press_swallowed:
  "bh_runs (back_after back_demo False 0 [BOpen, BSync, BClose 0, BSync, BOpen, BSync, BTraverse, BPress, BTraverse]) = 0"
  "settled (back_after back_demo False 0 [BOpen, BSync, BClose 0, BSync, BOpen, BSync, BTraverse])"
  by code_simp+

end
