(* ===== verification/Convert_Queue.thy ===== *)
theory Convert_Queue
  imports Addr Upload_Recovery
begin

text \<open>
  The Convert queue (\<^verbatim>\<open>client/src/state/convertQueue.ts\<close>): games to build on this computer, one at a time; a package that is to be
  installed is handed to the console's queue while the next one is built. The drain loop is cut at its awaits: it waits for the computer
  to be ready or for a build, and hand-offs answer at any time. The ids of new rows, what builds and hand-offs answer and whether the storage
  takes a write come from outside. A runner that is not set up yet, or that has no \<^verbatim>\<open>ready\<close>, is an argument.
\<close>

section \<open>Rows\<close>

datatype ConvertThen = ThenKeep | ThenStream | ThenUpload
datatype ConvertStatus = CPending | CRunning | CInstalling | CHanded | CDone | CFailed | CCancelled

record AmprLz4Options =
  az_level :: "int option"
  az_profileToml :: "string option"
  az_installRuntime :: "bool option"
  az_zstdLevel :: "int option"

datatype ImageFormat = Ffpkg | Exfat | Ffpfs
datatype ConvertBuild = BuildPkg | BuildImage ImageFormat bool "AmprLz4Options option" | BuildFolder
datatype build_kind = KindPkg | KindImage | KindFolder

definition format_name :: "ImageFormat \<Rightarrow> string" where
  "format_name f = (case f of Ffpkg \<Rightarrow> ''ffpkg'' | Exfat \<Rightarrow> ''exfat'' | Ffpfs \<Rightarrow> ''ffpfs'')"

definition buildExtension :: "ConvertBuild option \<Rightarrow> string" where
  "buildExtension b = (case b of
     None \<Rightarrow> ''.pkg'' | Some BuildPkg \<Rightarrow> ''.pkg'' | Some BuildFolder \<Rightarrow> ''folder''
   | Some (BuildImage f compress lz4) \<Rightarrow> if compress \<and> lz4 = None then ''.ffpfsc'' else ''.'' @ format_name f)"

text \<open>Only ever called on an image.\<close>

definition imageBuildWith :: "ConvertBuild \<Rightarrow> AmprLz4Options option \<Rightarrow> ConvertBuild" where
  "imageBuildWith b lz4 = (case (b, lz4) of
     (BuildImage f compress _, Some o') \<Rightarrow> BuildImage f False (Some o') | _ \<Rightarrow> b)"

definition thenFor :: "build_kind \<Rightarrow> ConvertThen \<Rightarrow> bool \<Rightarrow> ConvertThen" where
  "thenFor kind th canInstall =
     (if \<not> canInstall \<or> kind = KindFolder then ThenKeep else if kind = KindImage \<and> th = ThenStream then ThenUpload else th)"

record NewConvertItem =
  cv_source :: string
  cv_isDir :: "bool option"
  cv_password :: "string option"
  cv_outputDir :: "string option"
  cv_keepBoth :: "bool option"
  cv_compression :: string
  cv_build :: "ConvertBuild option"
  cv_imageDest :: "(string option \<times> string) option"
  cv_firmware :: "string option"
  cv_language :: "string option"
  cv_then :: ConvertThen
  cv_host :: "string option"
  cv_deleteAfterInstall :: "bool option"
  cv_fullVerify :: "bool option"
  cv_imageLevel :: "string option"

record ConvertItem = NewConvertItem +
  cv_id :: string
  cv_status :: ConvertStatus
  cv_packagePath :: "string option"
  cv_error :: "string option"

text \<open>A change has \<open>Some\<close> for each field it names.\<close>

record ConvertItemChange =
  cc_build :: "ConvertBuild option option"
  cc_then :: "ConvertThen option"
  cc_host :: "string option option"
  cc_deleteAfterInstall :: "bool option option"
  cc_imageDest :: "(string option \<times> string) option option"
  cc_outputDir :: "string option option"
  cc_keepBoth :: "bool option option"
  cc_compression :: "string option"
  cc_language :: "string option option"
  cc_fullVerify :: "bool option option"
  cc_imageLevel :: "string option option"

definition overlay :: "'a option \<Rightarrow> 'a \<Rightarrow> 'a" where
  "overlay n old = (case n of None \<Rightarrow> old | Some v \<Rightarrow> v)"

definition apply_change :: "ConvertItemChange \<Rightarrow> ConvertItem \<Rightarrow> ConvertItem" where
  "apply_change c x = x\<lparr>
     cv_build := overlay (cc_build c) (cv_build x), cv_then := overlay (cc_then c) (cv_then x), cv_host := overlay (cc_host c) (cv_host x),
     cv_deleteAfterInstall := overlay (cc_deleteAfterInstall c) (cv_deleteAfterInstall x),
     cv_imageDest := overlay (cc_imageDest c) (cv_imageDest x), cv_outputDir := overlay (cc_outputDir c) (cv_outputDir x),
     cv_keepBoth := overlay (cc_keepBoth c) (cv_keepBoth x), cv_compression := overlay (cc_compression c) (cv_compression x),
     cv_language := overlay (cc_language c) (cv_language x), cv_fullVerify := overlay (cc_fullVerify c) (cv_fullVerify x),
     cv_imageLevel := overlay (cc_imageLevel c) (cv_imageLevel x)\<rparr>"

definition hydrateConvertQueue :: "ConvertItem list \<Rightarrow> ConvertItem list" where
  "hydrateConvertQueue xs = map (\<lambda>i.
     if cv_status i = CRunning then i\<lparr>cv_status := CPending\<rparr>
     else if cv_status i = CInstalling then i\<lparr>cv_status := CHanded\<rparr> else i) xs"

definition savedItems :: "ConvertItem list \<Rightarrow> ConvertItem list" where
  "savedItems xs = map (\<lambda>i. i\<lparr>cv_password := None\<rparr>) xs"

section \<open>The store\<close>

datatype convert_wait = CwReady | CwBuild ConvertItem | CwOver

record convert_state =
  cq_items :: "ConvertItem list"
  cq_running :: bool
  cq_armed :: bool
  cq_stopRequested :: bool
  cq_stored :: "ConvertItem list option"
  cq_storageFull :: bool
  cq_wait :: convert_wait
  cq_handOffs :: "(ConvertItem \<times> string) list"

definition CONVERT_EMPTY :: convert_state where
  "CONVERT_EMPTY = \<lparr>cq_items = [], cq_running = False, cq_armed = False, cq_stopRequested = False, cq_stored = None, cq_storageFull = False,
     cq_wait = CwOver, cq_handOffs = []\<rparr>"

definition cq_save :: "convert_state \<Rightarrow> convert_state" where
  "cq_save s = (if cq_storageFull s then s else s\<lparr>cq_stored := Some (savedItems (cq_items s))\<rparr>)"

definition cq_patch :: "string \<Rightarrow> (ConvertItem \<Rightarrow> ConvertItem) \<Rightarrow> convert_state \<Rightarrow> convert_state" where
  "cq_patch i f s = cq_save (s\<lparr>cq_items := map (\<lambda>x. if cv_id x = i then f x else x) (cq_items s)\<rparr>)"

definition cq_load :: "ConvertItem list option \<Rightarrow> ConvertItem list" where
  "cq_load raw = (case raw of None \<Rightarrow> [] | Some xs \<Rightarrow> hydrateConvertQueue xs)"

definition convert_row :: "string \<Rightarrow> convert_state \<Rightarrow> ConvertItem option" where
  "convert_row i s = find (\<lambda>x. cv_id x = i) (cq_items s)"

definition row_status :: "string \<Rightarrow> convert_state \<Rightarrow> ConvertStatus option" where
  "row_status i s = map_option cv_status (convert_row i s)"

definition convert_busy :: "NewConvertItem \<Rightarrow> ConvertItem \<Rightarrow> bool" where
  "convert_busy n i \<longleftrightarrow> cv_source i = cv_source n \<and> hostOf (orEmpty (cv_host i)) = hostOf (orEmpty (cv_host n))
     \<and> (cv_status i = CPending \<or> cv_status i = CRunning)"

definition convert_add :: "string \<Rightarrow> NewConvertItem \<Rightarrow> convert_state \<Rightarrow> convert_state \<times> bool" where
  "convert_add i n s =
     (if list_ex (convert_busy n) (cq_items s) then (s, False)
      else (cq_save (s\<lparr>cq_items := cq_items s @
              [NewConvertItem.extend n \<lparr>cv_id = i, cv_status = CPending, cv_packagePath = None, cv_error = None\<rparr>]\<rparr>), True))"

definition convert_update :: "string \<Rightarrow> ConvertItemChange \<Rightarrow> convert_state \<Rightarrow> convert_state \<times> bool" where
  "convert_update i c s = (if row_status i s \<noteq> Some CPending then (s, False) else (cq_patch i (apply_change c) s, True))"

definition convert_remove :: "string \<Rightarrow> convert_state \<Rightarrow> convert_state" where
  "convert_remove i s =
     (if row_status i s = Some CRunning then s else cq_save (s\<lparr>cq_items := filter (\<lambda>x. cv_id x \<noteq> i) (cq_items s)\<rparr>))"

definition convert_move :: "string \<Rightarrow> bool \<Rightarrow> convert_state \<Rightarrow> convert_state" where
  "convert_move i up s =
     (case find_index (\<lambda>x. cv_id x = i) (cq_items s) of
        None \<Rightarrow> s
      | Some at' \<Rightarrow>
          let to = int at' + (if up then - 1 else 1); xs = cq_items s in
          if to < 0 \<or> to \<ge> int (length xs) then s
          else cq_save (s\<lparr>cq_items := swap_at at' (nat to) xs\<rparr>))"

section \<open>The drain loop\<close>

definition loop_ends :: "convert_state \<Rightarrow> convert_state" where
  "loop_ends s = s\<lparr>cq_running := False, cq_wait := CwOver\<rparr>"

definition pending :: "ConvertItem \<Rightarrow> bool" where
  "pending x \<longleftrightarrow> cv_status x = CPending"

definition take_game :: "convert_state \<Rightarrow> convert_state" where
  "take_game s =
     (if cq_stopRequested s then loop_ends s
      else case find pending (cq_items s) of
        None \<Rightarrow> loop_ends s
      | Some n \<Rightarrow> (cq_patch (cv_id n) (\<lambda>x. x\<lparr>cv_status := CRunning, cv_error := None\<rparr>) s)\<lparr>cq_wait := CwBuild n\<rparr>)"

definition convert_turn :: "bool \<Rightarrow> convert_state \<Rightarrow> convert_state" where
  "convert_turn hasReady s =
     (if cq_stopRequested s then loop_ends s else if hasReady then s\<lparr>cq_wait := CwReady\<rparr> else take_game s)"

text \<open>The runner is \<open>None\<close> before the app has set it; otherwise it tells whether it has \<^verbatim>\<open>ready\<close>.\<close>

definition convert_start :: "bool option \<Rightarrow> convert_state \<Rightarrow> convert_state" where
  "convert_start runner s0 =
     (let s = s0\<lparr>cq_armed := False\<rparr> in
      case runner of
        None \<Rightarrow> s
      | Some hasReady \<Rightarrow>
          if cq_running s then s else convert_turn hasReady (s\<lparr>cq_stopRequested := False, cq_running := True\<rparr>))"

record build_result =
  br_ok :: bool
  br_packagePath :: "string option"
  br_message :: "string option"
  br_installed :: bool
  br_cancelled :: bool

definition build_ended :: "string + build_result \<Rightarrow> ConvertItem \<Rightarrow> convert_state \<Rightarrow> convert_state" where
  "build_ended a n s =
     (let r = (case a of Inr r \<Rightarrow> r
                | Inl msg \<Rightarrow> \<lparr>br_ok = False, br_packagePath = None, br_message = Some msg, br_installed = False, br_cancelled = False\<rparr>);
          i = cv_id n in
      if br_cancelled r then cq_patch i (\<lambda>x. x\<lparr>cv_status := CCancelled, cv_password := None\<rparr>) s
      else if \<not> br_ok r \<or> orEmpty (br_packagePath r) = []
      then cq_patch i (\<lambda>x. x\<lparr>cv_status := CFailed, cv_error := Some (overlay (br_message r) ''The build did not finish.'')\<rparr>) s
      else let s1 = cq_patch i (\<lambda>x. x\<lparr>cv_password := None\<rparr>) s; pkg = orEmpty (br_packagePath r) in
      if cv_then n = ThenKeep \<or> orEmpty (cv_host n) = [] \<or> br_installed r
      then cq_patch i (\<lambda>x. x\<lparr>cv_status := CDone, cv_packagePath := Some pkg\<rparr>) s1
      else (cq_patch i (\<lambda>x. x\<lparr>cv_status := CInstalling, cv_packagePath := Some pkg\<rparr>) s1)\<lparr>cq_handOffs := cq_handOffs s1 @ [(n, pkg)]\<rparr>)"

definition build_answer :: "bool \<Rightarrow> string + build_result \<Rightarrow> ConvertItem \<Rightarrow> convert_state \<Rightarrow> convert_state" where
  "build_answer hasReady a n s = convert_turn hasReady (build_ended a n s)"

definition hand_off_patch :: "string + bool \<times> string option \<Rightarrow> ConvertItem \<Rightarrow> ConvertItem" where
  "hand_off_patch a x = (case a of
     Inr (ok, msg) \<Rightarrow> if ok then x\<lparr>cv_status := CDone\<rparr>
       else x\<lparr>cv_status := CFailed, cv_error := Some (overlay msg ''The install did not finish.'')\<rparr>
   | Inl e \<Rightarrow> x\<lparr>cv_status := CFailed, cv_error := Some e\<rparr>)"

definition hand_off_answer :: "string + bool \<times> string option \<Rightarrow> nat \<Rightarrow> convert_state \<Rightarrow> convert_state" where
  "hand_off_answer a k s =
     (let n = fst (cq_handOffs s ! k); rest = remove_at k (cq_handOffs s)
      in cq_patch (cv_id n) (hand_off_patch a) (s\<lparr>cq_handOffs := rest\<rparr>))"

definition convert_retryWithPassword :: "bool option \<Rightarrow> string \<Rightarrow> string \<Rightarrow> convert_state \<Rightarrow> convert_state" where
  "convert_retryWithPassword runner i password s =
     (if row_status i s \<noteq> Some CFailed then s
      else convert_start runner (cq_patch i (\<lambda>x. x\<lparr>cv_status := CPending, cv_error := None, cv_password := Some password\<rparr>) s))"

definition convert_stop :: "convert_state \<Rightarrow> convert_state" where
  "convert_stop s = s\<lparr>cq_stopRequested := True, cq_armed := False\<rparr>"

definition holdNext :: "convert_state \<Rightarrow> convert_state" where
  "holdNext s = s\<lparr>cq_stopRequested := True, cq_armed := False\<rparr>"

definition convert_clearFinished :: "convert_state \<Rightarrow> convert_state" where
  "convert_clearFinished s = cq_save (s\<lparr>cq_items :=
     filter (\<lambda>i. cv_status i = CPending \<or> cv_status i = CRunning \<or> cv_status i = CInstalling) (cq_items s)\<rparr>)"

definition startAfterBuild :: "bool \<Rightarrow> bool \<Rightarrow> convert_state \<Rightarrow> convert_state" where
  "startAfterBuild building queueAutoStart s =
     (if \<not> building \<or> \<not> queueAutoStart then s
      else if cq_running s \<or> \<not> list_ex pending (cq_items s) then s else s\<lparr>cq_armed := True\<rparr>)"

definition pipelinePhaseChanged :: "bool option \<Rightarrow> string \<Rightarrow> convert_state \<Rightarrow> convert_state" where
  "pipelinePhaseChanged runner phase s =
     (if \<not> cq_armed s then s
      else if phase = ''failed'' then s\<lparr>cq_armed := False\<rparr>
      else if phase = ''idle'' then convert_start runner s else s)"

definition convert_restart :: "convert_state \<Rightarrow> convert_state" where
  "convert_restart s = CONVERT_EMPTY\<lparr>cq_items := cq_load (cq_stored s), cq_stored := cq_stored s, cq_storageFull := cq_storageFull s\<rparr>"

section \<open>Events\<close>

datatype convert_event =
    CvAdd string NewConvertItem | CvUpdate string ConvertItemChange | CvRemove string | CvMove string bool | CvRetry string string
  | CvStart | CvStop | CvHold | CvClear | CvBuilding bool bool | CvPhase string
  | CvReady | CvNotReady | CvBuilt "string + build_result" | CvHandedOff nat "string + bool \<times> string option"
  | CvStorage bool | CvRestart

definition convert_do :: "bool option \<Rightarrow> convert_state \<Rightarrow> convert_event \<Rightarrow> convert_state" where
  "convert_do runner s e =
     (case e of
        CvAdd i n \<Rightarrow> fst (convert_add i n s)
      | CvUpdate i c \<Rightarrow> fst (convert_update i c s)
      | CvRemove i \<Rightarrow> convert_remove i s
      | CvMove i up \<Rightarrow> convert_move i up s
      | CvRetry i p \<Rightarrow> convert_retryWithPassword runner i p s
      | CvStart \<Rightarrow> convert_start runner s
      | CvStop \<Rightarrow> convert_stop s
      | CvHold \<Rightarrow> holdNext s
      | CvClear \<Rightarrow> convert_clearFinished s
      | CvBuilding b auto \<Rightarrow> startAfterBuild b auto s
      | CvPhase p \<Rightarrow> pipelinePhaseChanged runner p s
      | CvReady \<Rightarrow> if cq_wait s = CwReady then take_game s else s
      | CvNotReady \<Rightarrow> if cq_wait s = CwReady then loop_ends s else s
      | CvBuilt a \<Rightarrow> (case cq_wait s of CwBuild n \<Rightarrow> build_answer (runner = Some True) a n s | _ \<Rightarrow> s)
      | CvHandedOff k a \<Rightarrow> if k < length (cq_handOffs s) then hand_off_answer a k s else s
      | CvStorage full \<Rightarrow> s\<lparr>cq_storageFull := full\<rparr>
      | CvRestart \<Rightarrow> convert_restart s)"

text \<open>A new row has an id no row and no hand-off has.\<close>

definition event_fresh :: "convert_state \<Rightarrow> convert_event \<Rightarrow> bool" where
  "event_fresh s e \<longleftrightarrow> (case e of
     CvAdd i _ \<Rightarrow> i \<notin> cv_id ` set (cq_items s) \<and> i \<notin> (cv_id \<circ> fst) ` set (cq_handOffs s) | _ \<Rightarrow> True)"

definition convert_step :: "bool option \<Rightarrow> convert_state \<Rightarrow> convert_state \<Rightarrow> bool" where
  "convert_step runner s t \<longleftrightarrow> (\<exists>e. event_fresh s e \<and> t = convert_do runner s e)"

definition convert_initial :: "convert_state \<Rightarrow> bool" where
  "convert_initial s \<longleftrightarrow> s = CONVERT_EMPTY"

section \<open>The invariant\<close>

definition row_ok :: "convert_wait \<Rightarrow> (ConvertItem \<times> string) list \<Rightarrow> ConvertItem \<Rightarrow> bool" where
  "row_ok w hs x \<longleftrightarrow>
     (cv_status x = CRunning \<longleftrightarrow> (\<exists>n. w = CwBuild n \<and> cv_id n = cv_id x))
     \<and> (\<forall>n. w = CwBuild n \<longrightarrow> cv_id n = cv_id x \<longrightarrow> x = n\<lparr>cv_status := CRunning, cv_error := None\<rparr>)
     \<and> (cv_status x = CInstalling \<longleftrightarrow> cv_id x \<in> (cv_id \<circ> fst) ` set hs)
     \<and> (cv_password x \<noteq> None \<longrightarrow> cv_status x \<in> {CPending, CRunning, CFailed})"

definition rows_ok :: "ConvertItem list \<Rightarrow> convert_wait \<Rightarrow> (ConvertItem \<times> string) list \<Rightarrow> bool" where
  "rows_ok xs w hs \<longleftrightarrow> distinct (map cv_id xs) \<and> (\<forall>x \<in> set xs. row_ok w hs x) \<and> (\<forall>n. w = CwBuild n \<longrightarrow> cv_id n \<in> cv_id ` set xs)"

definition stored_ok :: "ConvertItem list option \<Rightarrow> bool" where
  "stored_ok st \<longleftrightarrow> (case st of None \<Rightarrow> True | Some xs \<Rightarrow> distinct (map cv_id xs) \<and> (\<forall>x \<in> set xs. cv_password x = None))"

definition convert_inv :: "convert_state \<Rightarrow> bool" where
  "convert_inv s \<longleftrightarrow> rows_ok (cq_items s) (cq_wait s) (cq_handOffs s) \<and> distinct (map (cv_id \<circ> fst) (cq_handOffs s))
     \<and> stored_ok (cq_stored s) \<and> (cq_running s \<longleftrightarrow> cq_wait s \<noteq> CwOver)"

lemma cq_save_keeps [simp]:
  "cq_items (cq_save s) = cq_items s" "cq_wait (cq_save s) = cq_wait s" "cq_handOffs (cq_save s) = cq_handOffs s"
  "cq_running (cq_save s) = cq_running s" "cq_stopRequested (cq_save s) = cq_stopRequested s"
  by (simp_all add: cq_save_def)

lemma cq_patch_keeps [simp]:
  "cq_wait (cq_patch i f s) = cq_wait s" "cq_handOffs (cq_patch i f s) = cq_handOffs s"
  "cq_running (cq_patch i f s) = cq_running s" "cq_stopRequested (cq_patch i f s) = cq_stopRequested s"
  "cq_items (cq_patch i f s) = map (\<lambda>x. if cv_id x = i then f x else x) (cq_items s)"
  by (simp_all add: cq_patch_def)

lemma stored_save: "stored_ok (cq_stored s) \<Longrightarrow> distinct (map cv_id (cq_items s)) \<Longrightarrow> stored_ok (cq_stored (cq_save s))"
  by (auto simp: cq_save_def stored_ok_def savedItems_def comp_def)

lemma patch_ids: "(\<And>x. cv_id (f x) = cv_id x) \<Longrightarrow> map cv_id (map (\<lambda>x. if cv_id x = i then f x else x) xs) = map cv_id xs"
  by auto

lemma stored_patch:
  assumes "stored_ok (cq_stored s)" "distinct (map cv_id (cq_items s))" "\<And>x. cv_id (f x) = cv_id x"
  shows "stored_ok (cq_stored (cq_patch i f s))"
proof -
  let ?s = "s\<lparr>cq_items := map (\<lambda>x. if cv_id x = i then f x else x) (cq_items s)\<rparr>"
  have "map cv_id (cq_items ?s) = map cv_id (cq_items s)" using patch_ids[OF assms(3)] by simp
  then have "distinct (map cv_id (cq_items ?s))" using assms(2) by metis
  then show ?thesis unfolding cq_patch_def using assms(1) by (intro stored_save) simp_all
qed

lemma rows_patch:
  assumes ok: "rows_ok xs w hs" and f: "\<And>x. cv_id (f x) = cv_id x"
    and here: "\<And>x. x \<in> set xs \<Longrightarrow> cv_id x = i \<Longrightarrow> row_ok w hs x \<Longrightarrow> row_ok w' hs' (f x)"
    and there: "\<And>x. cv_id x \<noteq> i \<Longrightarrow> row_ok w hs x \<Longrightarrow> row_ok w' hs' x"
    and w: "\<And>n. w' = CwBuild n \<Longrightarrow> cv_id n \<in> cv_id ` set xs"
  shows "rows_ok (map (\<lambda>x. if cv_id x = i then f x else x) xs) w' hs'"
proof -
  let ?ys = "map (\<lambda>x. if cv_id x = i then f x else x) xs"
  have ids: "map cv_id ?ys = map cv_id xs" by (rule patch_ids[OF f])
  have img: "cv_id ` set ?ys = cv_id ` set xs" unfolding set_map[symmetric] ids by (rule refl)
  show ?thesis unfolding rows_ok_def img
  proof (intro conjI allI impI)
    show "distinct (map cv_id ?ys)" using ok unfolding ids rows_ok_def by blast
    show "\<forall>y \<in> set ?ys. row_ok w' hs' y" using ok here there by (auto simp: rows_ok_def)
  qed (rule w)
qed

text \<open>Between two games: no row is running.\<close>

definition between :: "convert_state \<Rightarrow> bool" where
  "between s \<longleftrightarrow> rows_ok (cq_items s) CwOver (cq_handOffs s) \<and> distinct (map (cv_id \<circ> fst) (cq_handOffs s))
     \<and> stored_ok (cq_stored s) \<and> cq_running s"

lemma row_ok_ready: "row_ok CwReady hs x = row_ok CwOver hs x"
  by (simp add: row_ok_def)

lemma rows_ready: "rows_ok xs CwReady hs = rows_ok xs CwOver hs"
  by (simp add: rows_ok_def row_ok_ready)

lemma inv_wait: "convert_inv s \<Longrightarrow> cq_wait s = CwReady \<Longrightarrow> between s"
  by (simp add: convert_inv_def between_def rows_ready)

lemma loop_ends_inv: "between s \<Longrightarrow> convert_inv (loop_ends s)"
  by (simp add: between_def convert_inv_def loop_ends_def)

lemma take_game_inv:
  assumes "between s"
  shows "convert_inv (take_game s)"
proof (cases "cq_stopRequested s \<or> find pending (cq_items s) = None")
  case True
  then have "take_game s = loop_ends s" by (auto simp: take_game_def)
  with loop_ends_inv[OF assms] show ?thesis by simp
next
  case False
  then obtain n where n: "find pending (cq_items s) = Some n" by blast
  then have mem: "n \<in> set (cq_items s)" "cv_status n = CPending" by (auto simp: find_Some_iff pending_def)
  let ?f = "\<lambda>x. x\<lparr>cv_status := CRunning, cv_error := None\<rparr> :: ConvertItem"
  have d: "distinct (map cv_id (cq_items s))" using assms by (simp add: between_def rows_ok_def)
  have same: "x = n" if "x \<in> set (cq_items s)" "cv_id x = cv_id n" for x using that mem(1) d by (simp add: distinct_map inj_on_def)
  have "rows_ok (map (\<lambda>x. if cv_id x = cv_id n then ?f x else x) (cq_items s)) (CwBuild n) (cq_handOffs s)"
  proof (rule rows_patch)
    show "rows_ok (cq_items s) CwOver (cq_handOffs s)" using assms by (simp add: between_def)
    show "row_ok (CwBuild n) (cq_handOffs s) (?f x)" if "x \<in> set (cq_items s)" "cv_id x = cv_id n" "row_ok CwOver (cq_handOffs s) x" for x
      using that(3) mem(2) same[OF that(1,2)] by (auto simp: row_ok_def)
  qed (use mem(1) in \<open>auto simp: row_ok_def\<close>)
  moreover have "stored_ok (cq_stored (cq_patch (cv_id n) ?f s))" using assms d by (intro stored_patch) (simp_all add: between_def)
  ultimately show ?thesis using False n assms by (simp add: take_game_def convert_inv_def between_def)
qed

lemma convert_turn_inv: "between s \<Longrightarrow> convert_inv (convert_turn hasReady s)"
  using take_game_inv loop_ends_inv by (auto simp: convert_turn_def convert_inv_def between_def rows_ready)

lemma convert_start_inv:
  assumes "convert_inv s"
  shows "convert_inv (convert_start runner s)"
proof (cases "cq_running s \<or> runner = None")
  case True
  then show ?thesis using assms by (auto simp: convert_start_def Let_def convert_inv_def split: option.split)
next
  case False
  then have "cq_wait s = CwOver" using assms by (simp add: convert_inv_def)
  then have "between (s\<lparr>cq_armed := False, cq_stopRequested := False, cq_running := True\<rparr>)"
    using assms by (simp add: convert_inv_def between_def)
  with False show ?thesis by (auto simp: convert_start_def Let_def intro: convert_turn_inv)
qed

text \<open>A patch that keeps where the row stands.\<close>

lemma convert_patch_inv:
  assumes inv: "convert_inv s" and f: "\<And>x. cv_id (f x) = cv_id x"
    and ok: "\<And>x. x \<in> set (cq_items s) \<Longrightarrow> cv_id x = i \<Longrightarrow> row_ok (cq_wait s) (cq_handOffs s) x \<Longrightarrow> row_ok (cq_wait s) (cq_handOffs s) (f x)"
  shows "convert_inv (cq_patch i f s)"
proof -
  have r: "rows_ok (cq_items s) (cq_wait s) (cq_handOffs s)" using inv by (simp add: convert_inv_def)
  have "rows_ok (map (\<lambda>x. if cv_id x = i then f x else x) (cq_items s)) (cq_wait s) (cq_handOffs s)"
    using r by (intro rows_patch[OF r f ok]) (auto simp: rows_ok_def)
  moreover have "stored_ok (cq_stored (cq_patch i f s))" using inv f by (intro stored_patch) (simp_all add: convert_inv_def rows_ok_def)
  ultimately show ?thesis using inv by (simp add: convert_inv_def)
qed

lemma found_status:
  assumes "convert_inv s" "row_status i s = Some st" "x \<in> set (cq_items s)" "cv_id x = i"
  shows "cv_status x = st"
proof -
  from assms(2) obtain y where y: "find (\<lambda>x. cv_id x = i) (cq_items s) = Some y" "cv_status y = st"
    by (auto simp: row_status_def convert_row_def)
  then have "y \<in> set (cq_items s)" "cv_id y = i" by (auto simp: find_Some_iff)
  moreover have "distinct (map cv_id (cq_items s))" using assms(1) by (simp add: convert_inv_def rows_ok_def)
  ultimately have "x = y" using assms(3,4) by (simp add: distinct_map inj_on_def)
  with y(2) show ?thesis by simp
qed

text \<open>Dropping or reordering rows, the running one kept.\<close>

lemma items_inv:
  assumes inv: "convert_inv s" and sub: "set ys \<subseteq> set (cq_items s)" "distinct (map cv_id ys)"
    and run: "\<And>x. x \<in> set (cq_items s) \<Longrightarrow> cv_status x = CRunning \<Longrightarrow> x \<in> set ys"
  shows "convert_inv (cq_save (s\<lparr>cq_items := ys\<rparr>))"
proof -
  have r: "rows_ok (cq_items s) (cq_wait s) (cq_handOffs s)" using inv by (simp add: convert_inv_def)
  have "cv_id n \<in> cv_id ` set ys" if "cq_wait s = CwBuild n" for n
  proof -
    from r that obtain x where x: "x \<in> set (cq_items s)" "cv_id x = cv_id n" by (fastforce simp: rows_ok_def)
    then have "cv_status x = CRunning" using r that by (auto simp: rows_ok_def row_ok_def)
    then have "x \<in> set ys" using run x(1) by blast
    with x(2) show ?thesis by (metis image_eqI)
  qed
  then have "rows_ok ys (cq_wait s) (cq_handOffs s)" using r sub by (auto simp: rows_ok_def)
  moreover have "stored_ok (cq_stored (cq_save (s\<lparr>cq_items := ys\<rparr>)))" using inv sub by (intro stored_save) (simp_all add: convert_inv_def)
  ultimately show ?thesis using inv by (simp add: convert_inv_def)
qed

lemma row_status_mem:
  assumes "x \<in> set (cq_items s)" "cv_id x = i"
  obtains st where "row_status i s = Some st"
proof (cases "find (\<lambda>x. cv_id x = i) (cq_items s)")
  case None
  then show thesis using assms by (auto simp: find_None_iff)
next
  case (Some y)
  then show thesis using that by (simp add: row_status_def convert_row_def)
qed

lemma remove_inv:
  assumes inv: "convert_inv s"
  shows "convert_inv (convert_remove i s)"
proof (cases "row_status i s = Some CRunning")
  case True
  then show ?thesis using inv by (simp add: convert_remove_def)
next
  case False
  let ?ys = "filter (\<lambda>x. cv_id x \<noteq> i) (cq_items s)"
  have d: "distinct (map cv_id (cq_items s))" using inv by (simp add: convert_inv_def rows_ok_def)
  have "x \<in> set ?ys" if m: "x \<in> set (cq_items s)" "cv_status x = CRunning" for x
  proof (rule ccontr)
    assume "x \<notin> set ?ys"
    then have x: "cv_id x = i" using m(1) by simp
    obtain st where st: "row_status i s = Some st" using m(1) x by (rule row_status_mem)
    with found_status[OF inv st m(1) x] m(2) False show False by simp
  qed
  then have "convert_inv (cq_save (s\<lparr>cq_items := ?ys\<rparr>))" using d by (intro items_inv[OF inv]) (auto simp: distinct_map_filter)
  with False show ?thesis by (simp add: convert_remove_def)
qed

lemma convert_move_inv:
  assumes inv: "convert_inv s"
  shows "convert_inv (convert_move i up s)"
proof (cases "find_index (\<lambda>x. cv_id x = i) (cq_items s)")
  case None
  then show ?thesis using inv by (simp add: convert_move_def)
next
  case (Some k)
  let ?to = "int k + (if up then - 1 else 1)" and ?xs = "cq_items s"
  show ?thesis
  proof (cases "?to < 0 \<or> ?to \<ge> int (length ?xs)")
    case True
    with Some inv show ?thesis by (auto simp: convert_move_def Let_def)
  next
    case False
    let ?ys = "swap_at k (nat ?to) ?xs"
    have m: "mset ?ys = mset ?xs" using find_index_length[OF Some] False by (intro mset_swap_at) auto
    then have sw: "set ?ys = set ?xs" by (rule mset_eq_setD)
    have "distinct (map cv_id ?xs)" using inv by (simp add: convert_inv_def rows_ok_def)
    then have "distinct (map cv_id ?ys)" using m by (metis mset_eq_imp_distinct_iff mset_map)
    then have "convert_inv (cq_save (s\<lparr>cq_items := ?ys\<rparr>))" using sw by (intro items_inv[OF inv]) simp_all
    moreover have "convert_move i up s = cq_save (s\<lparr>cq_items := ?ys\<rparr>)" using Some False unfolding convert_move_def Let_def by simp
    ultimately show ?thesis by simp
  qed
qed

lemma add_inv:
  assumes inv: "convert_inv s" and fresh: "event_fresh s (CvAdd i n)"
  shows "convert_inv (fst (convert_add i n s))"
proof (cases "list_ex (convert_busy n) (cq_items s)")
  case True
  then show ?thesis using inv by (simp add: convert_add_def)
next
  case False
  let ?x = "NewConvertItem.extend n \<lparr>cv_id = i, cv_status = CPending, cv_packagePath = None, cv_error = None\<rparr>"
  let ?s = "s\<lparr>cq_items := cq_items s @ [?x]\<rparr>"
  have x: "cv_id ?x = i" "cv_status ?x = CPending" by (simp_all add: NewConvertItem.defs)
  have r: "rows_ok (cq_items s) (cq_wait s) (cq_handOffs s)" using inv by (simp add: convert_inv_def)
  have f: "i \<notin> cv_id ` set (cq_items s)" "i \<notin> (cv_id \<circ> fst) ` set (cq_handOffs s)" using fresh by (simp_all add: event_fresh_def)
  have "row_ok (cq_wait s) (cq_handOffs s) ?x" using r f by (auto simp: rows_ok_def row_ok_def x)
  then have ok: "rows_ok (cq_items s @ [?x]) (cq_wait s) (cq_handOffs s)" using r f(1) by (auto simp: rows_ok_def x)
  then have "stored_ok (cq_stored (cq_save ?s))" using inv by (intro stored_save) (simp_all add: convert_inv_def rows_ok_def)
  with ok inv False show ?thesis by (simp add: convert_add_def convert_inv_def)
qed

lemma building_row:
  assumes "rows_ok xs (CwBuild n) hs"
  shows "n\<lparr>cv_status := CRunning, cv_error := None\<rparr> \<in> set xs" "cv_id n \<notin> (cv_id \<circ> fst) ` set hs"
    "x \<in> set xs \<Longrightarrow> cv_id x = cv_id n \<Longrightarrow> x = n\<lparr>cv_status := CRunning, cv_error := None\<rparr>"
proof -
  from assms obtain x where x: "x \<in> set xs" "cv_id x = cv_id n" by (fastforce simp: rows_ok_def)
  then have "row_ok (CwBuild n) hs x" using assms by (simp add: rows_ok_def)
  then have "x = n\<lparr>cv_status := CRunning, cv_error := None\<rparr>" "cv_id n \<notin> (cv_id \<circ> fst) ` set hs"
    using x(2) unfolding row_ok_def by auto
  with x show "n\<lparr>cv_status := CRunning, cv_error := None\<rparr> \<in> set xs" "cv_id n \<notin> (cv_id \<circ> fst) ` set hs" by auto
  show "x \<in> set xs \<Longrightarrow> cv_id x = cv_id n \<Longrightarrow> x = n\<lparr>cv_status := CRunning, cv_error := None\<rparr>" for x
    using assms by (simp add: rows_ok_def row_ok_def)
qed

lemma answered_between:
  assumes inv: "convert_inv s" and w: "cq_wait s = CwBuild n" and h: "\<And>x. cv_id (h x) = cv_id x"
    and hs: "cq_handOffs t = cq_handOffs s \<or> cq_handOffs t = cq_handOffs s @ [(n, p)]"
    and row: "row_ok CwOver (cq_handOffs t) (h (n\<lparr>cv_status := CRunning, cv_error := None\<rparr>))"
    and t: "cq_items t = map (\<lambda>x. if cv_id x = cv_id n then h x else x) (cq_items s)" "stored_ok (cq_stored t)" "cq_running t = cq_running s"
  shows "between t"
proof -
  have r: "rows_ok (cq_items s) (CwBuild n) (cq_handOffs s)" using inv w by (simp add: convert_inv_def)
  note b = building_row[OF r]
  have "rows_ok (cq_items t) CwOver (cq_handOffs t)" unfolding t(1)
  proof (rule rows_patch[OF r h])
    show "row_ok CwOver (cq_handOffs t) (h x)" if "x \<in> set (cq_items s)" "cv_id x = cv_id n" for x using b(3)[OF that] row by simp
    show "row_ok CwOver (cq_handOffs t) x" if "cv_id x \<noteq> cv_id n" "row_ok (CwBuild n) (cq_handOffs s) x" for x
      using that hs by (auto simp: row_ok_def)
  qed simp
  moreover have "distinct (map (cv_id \<circ> fst) (cq_handOffs t))" using hs b(2) inv by (auto simp: convert_inv_def)
  ultimately show ?thesis using t inv w by (simp add: between_def convert_inv_def)
qed

lemma stored_patch_inv: "convert_inv s \<Longrightarrow> (\<And>x. cv_id (f x) = cv_id x) \<Longrightarrow> stored_ok (cq_stored (cq_patch i f s))"
  by (rule stored_patch) (simp_all add: convert_inv_def rows_ok_def)

lemma stored_patch_twice:
  assumes "convert_inv s" "\<And>x. cv_id (f x) = cv_id x" "\<And>x. cv_id (g x) = cv_id x"
  shows "stored_ok (cq_stored (cq_patch i f (cq_patch i g s)))"
proof (rule stored_patch[OF stored_patch_inv[OF assms(1,3)] _ assms(2)])
  have "map cv_id (cq_items (cq_patch i g s)) = map cv_id (cq_items s)" using patch_ids[OF assms(3)] by simp
  then show "distinct (map cv_id (cq_items (cq_patch i g s)))" using assms(1) unfolding convert_inv_def rows_ok_def by metis
qed

lemma build_answer_inv:
  assumes inv: "convert_inv s" and w: "cq_wait s = CwBuild n"
  shows "convert_inv (build_answer hasReady a n s)"
proof -
  have b: "cv_id n \<notin> (cv_id \<circ> fst) ` set (cq_handOffs s)" using building_row(2) inv w by (metis convert_inv_def)
  note A = answered_between[OF inv w]
  have 1: "between (cq_patch (cv_id n) (\<lambda>x. x\<lparr>cv_status := CCancelled, cv_password := None\<rparr>) s)"
    by (rule A[where h = "\<lambda>x. x\<lparr>cv_status := CCancelled, cv_password := None\<rparr>"]) (use b inv in \<open>auto simp: row_ok_def stored_patch_inv\<close>)
  have 2: "between (cq_patch (cv_id n) (\<lambda>x. x\<lparr>cv_status := CFailed, cv_error := e\<rparr>) s)" for e
    by (rule A[where h = "\<lambda>x. x\<lparr>cv_status := CFailed, cv_error := e\<rparr>"]) (use b inv in \<open>auto simp: row_ok_def stored_patch_inv\<close>)
  let ?s1 = "cq_patch (cv_id n) (\<lambda>x. x\<lparr>cv_password := None\<rparr>) s"
  have 3: "between (cq_patch (cv_id n) (\<lambda>x. x\<lparr>cv_status := CDone, cv_packagePath := p\<rparr>) ?s1)" for p
    by (rule A[where h = "\<lambda>x. x\<lparr>cv_password := None, cv_status := CDone, cv_packagePath := p\<rparr>"])
      (use b inv in \<open>auto simp: row_ok_def stored_patch_twice\<close>)
  have 4: "between ((cq_patch (cv_id n) (\<lambda>x. x\<lparr>cv_status := CInstalling, cv_packagePath := Some p\<rparr>) ?s1)\<lparr>cq_handOffs := cq_handOffs ?s1 @ [(n, p)]\<rparr>)" for p
    by (rule A[where h = "\<lambda>x. x\<lparr>cv_password := None, cv_status := CInstalling, cv_packagePath := Some p\<rparr>" and p = p])
      (use b inv in \<open>auto simp: row_ok_def stored_patch_twice\<close>)
  have "between (build_ended a n s)" unfolding build_ended_def Let_def using 1 2 3 4 by simp
  then show ?thesis unfolding build_answer_def by (rule convert_turn_inv)
qed

lemma without_ids:
  assumes "distinct (map f hs)" "k < length hs"
  shows "f ` set (remove_at k hs) = f ` set hs - {f (hs ! k)}"
proof -
  have m: "mset (map f hs) = add_mset (f (hs ! k)) (mset (map f (remove_at k hs)))" using mset_remove_at[OF assms(2)] by simp
  then have "f ` set hs = insert (f (hs ! k)) (f ` set (remove_at k hs))" by (metis list.set_map set_mset_add_mset_insert set_mset_mset)
  moreover have "distinct (f (hs ! k) # map f (remove_at k hs))" using m assms(1) by (metis mset.simps(2) mset_eq_imp_distinct_iff)
  then have "f (hs ! k) \<notin> f ` set (remove_at k hs)" by simp
  ultimately show ?thesis by blast
qed

lemma hand_off_inv:
  assumes inv: "convert_inv s" and k: "k < length (cq_handOffs s)"
  shows "convert_inv (hand_off_answer a k s)"
proof -
  define n where "n = fst (cq_handOffs s ! k)"
  define rest where "rest = remove_at k (cq_handOffs s)"
  let ?f = "hand_off_patch a"
  have f: "cv_id (?f x) = cv_id x" "cv_password (?f x) = cv_password x" "cv_status (?f x) = CDone \<or> cv_status (?f x) = CFailed" for x
    by (auto simp: hand_off_patch_def split: sum.split prod.split)
  have d: "distinct (map (cv_id \<circ> fst) (cq_handOffs s))" using inv by (simp add: convert_inv_def)
  note rest = distinct_map_remove_at[OF d, of k, folded rest_def] without_ids[OF d k, folded rest_def]
  have n: "cv_id n \<in> (cv_id \<circ> fst) ` set (cq_handOffs s)" "(cv_id \<circ> fst) (cq_handOffs s ! k) = cv_id n"
    using k by (force simp: n_def, simp add: n_def)
  have r: "rows_ok (cq_items s) (cq_wait s) (cq_handOffs s)" using inv by (simp add: convert_inv_def)
  have "rows_ok (map (\<lambda>x. if cv_id x = cv_id n then ?f x else x) (cq_items s)) (cq_wait s) rest"
  proof (rule rows_patch[OF r f(1)])
    show "row_ok (cq_wait s) rest (?f x)" if "cv_id x = cv_id n" "row_ok (cq_wait s) (cq_handOffs s) x" for x
    proof -
      have st: "cv_status x = CInstalling" using that n(1) by (simp add: row_ok_def)
      then have p: "cv_password x = None" and w: "\<not> (\<exists>m. cq_wait s = CwBuild m \<and> cv_id m = cv_id x)" using that(2) by (auto simp: row_ok_def)
      have "cv_id x \<notin> (cv_id \<circ> fst) ` set rest" unfolding rest(2) n(2) that(1) by simp
      with p w f[of x] show ?thesis unfolding row_ok_def by auto
    qed
    show "row_ok (cq_wait s) rest x" if "cv_id x \<noteq> cv_id n" "row_ok (cq_wait s) (cq_handOffs s) x" for x
      using that unfolding row_ok_def rest(2) n(2) by blast
    show "cv_id m \<in> cv_id ` set (cq_items s)" if "cq_wait s = CwBuild m" for m using r that by (simp add: rows_ok_def)
  qed
  moreover have "stored_ok (cq_stored (cq_patch (cv_id n) ?f (s\<lparr>cq_handOffs := rest\<rparr>)))"
    using inv f(1) by (intro stored_patch) (simp_all add: convert_inv_def rows_ok_def)
  moreover have "hand_off_answer a k s = cq_patch (cv_id n) ?f (s\<lparr>cq_handOffs := rest\<rparr>)"
    unfolding hand_off_answer_def Let_def n_def rest_def ..
  ultimately show ?thesis using inv rest(1) by (simp add: convert_inv_def)
qed

lemma update_inv:
  assumes inv: "convert_inv s"
  shows "convert_inv (fst (convert_update i c s))"
proof (cases "row_status i s = Some CPending")
  case True
  have "convert_inv (cq_patch i (apply_change c) s)"
  proof (rule convert_patch_inv[OF inv])
    show "row_ok (cq_wait s) (cq_handOffs s) (apply_change c x)"
      if "x \<in> set (cq_items s)" "cv_id x = i" "row_ok (cq_wait s) (cq_handOffs s) x" for x
      using that(3) found_status[OF inv True that(1,2)] by (auto simp: row_ok_def apply_change_def)
  qed (simp add: apply_change_def)
  with True show ?thesis by (simp add: convert_update_def)
qed (use inv in \<open>simp add: convert_update_def\<close>)

lemma retry_inv:
  assumes inv: "convert_inv s"
  shows "convert_inv (convert_retryWithPassword runner i pw s)"
proof (cases "row_status i s = Some CFailed")
  case True
  have "convert_inv (cq_patch i (\<lambda>x. x\<lparr>cv_status := CPending, cv_error := None, cv_password := Some pw\<rparr>) s)"
  proof (rule convert_patch_inv[OF inv])
    show "row_ok (cq_wait s) (cq_handOffs s) (x\<lparr>cv_status := CPending, cv_error := None, cv_password := Some pw\<rparr>)"
      if "x \<in> set (cq_items s)" "cv_id x = i" "row_ok (cq_wait s) (cq_handOffs s) x" for x
      using that(3) found_status[OF inv True that(1,2)] by (auto simp: row_ok_def)
  qed simp
  with True show ?thesis by (simp add: convert_retryWithPassword_def convert_start_inv)
qed (use inv in \<open>simp add: convert_retryWithPassword_def\<close>)

lemma clear_inv:
  assumes inv: "convert_inv s"
  shows "convert_inv (convert_clearFinished s)"
  unfolding convert_clearFinished_def
  by (rule items_inv[OF inv]) (use inv in \<open>auto simp: convert_inv_def rows_ok_def distinct_map_filter\<close>)

lemma convert_restart_inv:
  assumes inv: "convert_inv s"
  shows "convert_inv (convert_restart s)"
proof (cases "cq_stored s")
  case None
  then show ?thesis by (simp add: convert_restart_def convert_inv_def CONVERT_EMPTY_def cq_load_def rows_ok_def stored_ok_def)
next
  case (Some xs)
  have st: "distinct (map cv_id xs)" "\<forall>x \<in> set xs. cv_password x = None" using inv Some by (auto simp: convert_inv_def stored_ok_def)
  have "map cv_id (hydrateConvertQueue xs) = map cv_id xs" by (simp add: hydrateConvertQueue_def)
  then have "distinct (map cv_id (hydrateConvertQueue xs))" using st(1) by metis
  moreover have "row_ok CwOver [] y" if "y \<in> set (hydrateConvertQueue xs)" for y
    using that st(2) by (auto simp: hydrateConvertQueue_def row_ok_def)
  ultimately have "rows_ok (hydrateConvertQueue xs) CwOver []" by (simp add: rows_ok_def)
  with Some st show ?thesis by (simp add: convert_restart_def convert_inv_def CONVERT_EMPTY_def cq_load_def stored_ok_def)
qed

lemma convert_do_inv:
  assumes inv: "convert_inv s" and fresh: "event_fresh s e"
  shows "convert_inv (convert_do runner s e)"
proof (cases e)
  case (CvPhase p)
  then show ?thesis using inv convert_start_inv[OF inv] by (auto simp: convert_do_def pipelinePhaseChanged_def convert_inv_def)
next
  case (CvBuilt a)
  then show ?thesis using inv build_answer_inv[OF inv] by (auto simp: convert_do_def split: convert_wait.split)
next
  case CvReady
  then show ?thesis using inv take_game_inv inv_wait by (simp add: convert_do_def)
next
  case CvNotReady
  then show ?thesis using inv loop_ends_inv inv_wait by (simp add: convert_do_def)
next
  case (CvBuilding b auto')
  then show ?thesis using inv by (auto simp: convert_do_def startAfterBuild_def convert_inv_def)
qed (use inv fresh in \<open>simp_all add: convert_do_def add_inv update_inv remove_inv convert_move_inv retry_inv convert_start_inv clear_inv convert_restart_inv hand_off_inv\<close>,
     use inv in \<open>simp_all add: convert_inv_def convert_stop_def holdNext_def\<close>)

interpretation convert_queue: invariant_system convert_initial "convert_step runner" convert_inv for runner
proof
  show "convert_inv s" if "convert_initial s" for s
    using that by (simp add: convert_initial_def CONVERT_EMPTY_def convert_inv_def rows_ok_def stored_ok_def)
  show "convert_inv t" if "convert_inv s" "convert_step runner s t" for s t
    using that convert_do_inv unfolding convert_step_def by blast
qed

abbreviation convert_reach :: "bool option \<Rightarrow> convert_state \<Rightarrow> bool" where
  "convert_reach runner \<equiv> reach convert_initial (convert_step runner)"

section \<open>Properties\<close>

lemma one_running: "distinct (map f xs) \<Longrightarrow> (\<And>x. x \<in> set xs \<Longrightarrow> P x \<Longrightarrow> f x = c) \<Longrightarrow> length (filter P xs) \<le> 1"
  by (induction xs) (auto simp: filter_empty_conv)

text \<open>C37. What the rows say is so. In every state the queue can reach, through any order of actions, answers, failed writes and restarts: at most one row is running and a row is
  running exactly while its build is awaited, which is the build it was taken for, unchanged since; a row is installing exactly while its hand-off is; and the password of
  an archive is on no stored row, and in memory only on a row that waits, is built or has failed.\<close>

theorem convert_rows_true:
  assumes "convert_reach runner s"
  shows "length (filter (\<lambda>x. cv_status x = CRunning) (cq_items s)) \<le> 1
    \<and> (\<forall>x \<in> set (cq_items s). cv_status x = CRunning \<longleftrightarrow> (\<exists>n. cq_wait s = CwBuild n \<and> x = n\<lparr>cv_status := CRunning, cv_error := None\<rparr>))
    \<and> (\<forall>n. cq_wait s = CwBuild n \<longrightarrow> n\<lparr>cv_status := CRunning, cv_error := None\<rparr> \<in> set (cq_items s))
    \<and> (\<forall>x \<in> set (cq_items s). cv_status x = CInstalling \<longleftrightarrow> (\<exists>(n, pkg) \<in> set (cq_handOffs s). cv_id n = cv_id x))
    \<and> (\<forall>xs. cq_stored s = Some xs \<longrightarrow> (\<forall>x \<in> set xs. cv_password x = None))
    \<and> (\<forall>x \<in> set (cq_items s). cv_password x \<noteq> None \<longrightarrow> cv_status x \<in> {CPending, CRunning, CFailed})"
proof -
  have inv: "convert_inv s" using assms by (rule convert_queue.reach_inv)
  then have r: "rows_ok (cq_items s) (cq_wait s) (cq_handOffs s)" by (simp add: convert_inv_def)
  then have d: "distinct (map cv_id (cq_items s))" and ok: "\<And>x. x \<in> set (cq_items s) \<Longrightarrow> row_ok (cq_wait s) (cq_handOffs s) x"
    by (simp_all add: rows_ok_def)
  have run: "cv_status x = CRunning \<longleftrightarrow> (\<exists>n. cq_wait s = CwBuild n \<and> x = n\<lparr>cv_status := CRunning, cv_error := None\<rparr>)" if "x \<in> set (cq_items s)" for x
    using ok[OF that] unfolding row_ok_def by auto
  have "cv_id x = (case cq_wait s of CwBuild n \<Rightarrow> cv_id n | _ \<Rightarrow> [])" if "x \<in> set (cq_items s)" "cv_status x = CRunning" for x
    using run[OF that(1)] that(2) by auto
  with d have one: "length (filter (\<lambda>x. cv_status x = CRunning) (cq_items s)) \<le> 1" by (rule one_running)
  have mem: "n\<lparr>cv_status := CRunning, cv_error := None\<rparr> \<in> set (cq_items s)" if "cq_wait s = CwBuild n" for n
    using r building_row(1) unfolding that by blast
  have inst: "cv_status x = CInstalling \<longleftrightarrow> (\<exists>(n, pkg) \<in> set (cq_handOffs s). cv_id n = cv_id x)" if "x \<in> set (cq_items s)" for x
    using ok[OF that] unfolding row_ok_def by force
  have "\<forall>x \<in> set xs. cv_password x = None" if "cq_stored s = Some xs" for xs
    using inv that by (simp add: convert_inv_def stored_ok_def)
  moreover have "cv_status x \<in> {CPending, CRunning, CFailed}" if "x \<in> set (cq_items s)" "cv_password x \<noteq> None" for x
    using ok[OF that(1)] that(2) unfolding row_ok_def by blast
  ultimately show ?thesis using one run mem inst by blast
qed

text \<open>A turn of the loop ends the run only after Stop or when no row waits.\<close>

definition ended_well :: "convert_state \<Rightarrow> bool" where
  "ended_well t \<longleftrightarrow> cq_running t \<or> cq_stopRequested t \<or> (\<forall>x \<in> set (cq_items t). cv_status x \<noteq> CPending)"

lemma take_game_ends: "cq_running s \<Longrightarrow> ended_well (take_game s)"
proof (cases "find pending (cq_items s)")
  case None
  then have "\<forall>x \<in> set (cq_items s). cv_status x \<noteq> CPending" unfolding find_None_iff pending_def by blast
  with None show ?thesis by (simp add: take_game_def loop_ends_def ended_well_def)
qed (simp add: take_game_def loop_ends_def ended_well_def)

lemma convert_turn_ends: "cq_running s \<Longrightarrow> ended_well (convert_turn b s)"
  using take_game_ends[of s] by (auto simp: convert_turn_def loop_ends_def ended_well_def)

lemma build_answer_ends: "cq_running s \<Longrightarrow> ended_well (build_answer b a n s)"
  unfolding build_answer_def by (rule convert_turn_ends) (simp add: build_ended_def Let_def)

lemma still_running:
  "cq_running (cq_save s) = cq_running s" "cq_running s \<Longrightarrow> cq_running (fst (convert_add i n s))" "cq_running s \<Longrightarrow> cq_running (fst (convert_update i c s))"
  "cq_running s \<Longrightarrow> cq_running (convert_remove i s)" "cq_running s \<Longrightarrow> cq_running (convert_move i up s)"
  "cq_running s \<Longrightarrow> cq_running (convert_start runner s)" "cq_running s \<Longrightarrow> cq_running (hand_off_answer a k s)"
  by (simp_all add: convert_add_def convert_update_def convert_remove_def convert_move_def convert_start_def hand_off_answer_def Let_def split: option.split)

text \<open>C38. Games added during a run are made by it. A run ends only after Stop, when no row waits any more, when the app stops, or when waiting for the computer itself
  fails: no action and no answer, of a build that failed or was cancelled either, ends it with a row still waiting.\<close>

theorem convert_run_ends:
  assumes "convert_reach runner s" "cq_running s" "e \<noteq> CvNotReady" "e \<noteq> CvRestart"
  shows "cq_running (convert_do runner s e) \<or> cq_stopRequested (convert_do runner s e)
    \<or> (\<forall>x \<in> set (cq_items (convert_do runner s e)). cv_status x \<noteq> CPending)"
proof -
  have "ended_well (convert_do runner s e)"
  proof (cases e)
    case CvReady
    then show ?thesis using assms(2) take_game_ends[of s] by (simp add: convert_do_def) (simp add: ended_well_def)
  next
    case (CvBuilt a)
    then show ?thesis using assms(2) build_answer_ends[of s] by (auto simp: convert_do_def ended_well_def split: convert_wait.split)
  qed (use assms in \<open>simp_all add: convert_do_def ended_well_def still_running convert_retryWithPassword_def convert_stop_def holdNext_def
         convert_clearFinished_def startAfterBuild_def pipelinePhaseChanged_def\<close>)
  then show ?thesis unfolding ended_well_def .
qed

text \<open>Two games: the first is refused for its password and tried again while the second is built.\<close>

definition demo_game :: "string \<Rightarrow> string option \<Rightarrow> NewConvertItem" where
  "demo_game src h = \<lparr>cv_source = src, cv_isDir = None, cv_password = None, cv_outputDir = None, cv_keepBoth = None, cv_compression = ''fast'',
     cv_build = None, cv_imageDest = None, cv_firmware = None, cv_language = None, cv_then = ThenStream, cv_host = h, cv_deleteAfterInstall = None,
     cv_fullVerify = None, cv_imageLevel = None\<rparr>"

definition demo_built :: build_result where
  "demo_built = \<lparr>br_ok = True, br_packagePath = Some ''/p'', br_message = None, br_installed = False, br_cancelled = False\<rparr>"

abbreviation convert_all :: "convert_event list \<Rightarrow> convert_state" where
  "convert_all es \<equiv> foldl (convert_do (Some True)) CONVERT_EMPTY es"

fun all_fresh :: "convert_state \<Rightarrow> convert_event list \<Rightarrow> bool" where
  "all_fresh s [] = True"
| "all_fresh s (e # es) = (event_fresh s e \<and> all_fresh (convert_do (Some True) s e) es)"

lemma convert_all_reach:
  assumes "all_fresh CONVERT_EMPTY es"
  shows "convert_reach (Some True) (convert_all es)"
proof -
  have "convert_reach (Some True) s \<Longrightarrow> all_fresh s es \<Longrightarrow> convert_reach (Some True) (foldl (convert_do (Some True)) s es)" for s
  proof (induction es arbitrary: s)
    case (Cons e es)
    have "convert_step (Some True) s (convert_do (Some True) s e)" using Cons.prems(2) unfolding convert_step_def by auto
    with Cons.prems(1) have "convert_reach (Some True) (convert_do (Some True) s e)" by (rule reach_step)
    from Cons.IH[OF this] Cons.prems(2) show ?case by simp
  qed simp
  moreover have "convert_reach (Some True) CONVERT_EMPTY" by (rule reach_init) (simp add: convert_initial_def)
  ultimately show ?thesis using assms by blast
qed

definition demo_retry :: "convert_event list" where
  "demo_retry = [CvAdd ''a'' (demo_game ''/a'' None), CvAdd ''b'' (demo_game ''/b'' (Some ''h'')), CvStart, CvReady, CvBuilt (Inl ''password''), CvReady,
     CvRetry ''a'' ''pw'']"

lemma demo_retry_reach: "convert_reach (Some True) (convert_all demo_retry)"
  by (rule convert_all_reach) code_simp

lemma demo_retry_state:
  "map (\<lambda>x. (cv_id x, cv_status x, cv_password x)) (cq_items (convert_all demo_retry)) = [(''a'', CPending, Some ''pw''), (''b'', CRunning, None)]"
  "cq_running (convert_all demo_retry)"
  by code_simp+

theorem convert_rows_true_witness:
  "length (filter (\<lambda>x. cv_status x = CRunning) (cq_items (convert_all demo_retry))) = 1"
proof -
  have "filter (\<lambda>x. cv_status x = CRunning) (cq_items (convert_all demo_retry)) \<noteq> []" by code_simp
  moreover have "length (filter (\<lambda>x. cv_status x = CRunning) (cq_items (convert_all demo_retry))) \<le> 1"
    using convert_rows_true[OF demo_retry_reach] by blast
  ultimately show ?thesis by (cases "filter (\<lambda>x. cv_status x = CRunning) (cq_items (convert_all demo_retry))") auto
qed

theorem convert_run_ends_witness: "cq_running (convert_do (Some True) (convert_all demo_retry) (CvBuilt (Inr demo_built)))"
proof -
  let ?t = "convert_do (Some True) (convert_all demo_retry) (CvBuilt (Inr demo_built))"
  have "\<not> cq_stopRequested ?t" "list_ex (\<lambda>x. cv_status x = CPending) (cq_items ?t)" by code_simp+
  with convert_run_ends[OF demo_retry_reach demo_retry_state(2), of "CvBuilt (Inr demo_built)"] show ?thesis
    unfolding list_ex_iff by blast
qed

text \<open>Tried again after Stop, while the build that runs ends, the game does not start the queue.\<close>

lemma retry_after_stop:
  "map cv_status (cq_items (convert_all [CvAdd ''a'' (demo_game ''/a'' None), CvAdd ''b'' (demo_game ''/b'' (Some ''h'')), CvStart, CvReady, CvBuilt (Inl ''password''),
     CvReady, CvStop, CvRetry ''a'' ''pw'', CvBuilt (Inr demo_built)])) = [CPending, CInstalling]"
  "\<not> cq_running (convert_all [CvAdd ''a'' (demo_game ''/a'' None), CvAdd ''b'' (demo_game ''/b'' (Some ''h'')), CvStart, CvReady, CvBuilt (Inl ''password''),
     CvReady, CvStop, CvRetry ''a'' ''pw'', CvBuilt (Inr demo_built)])"
  by code_simp+

text \<open>Adding a game twice for one console is refused, but a change of the console of a waiting row is not.\<close>

definition demo_host :: "string option \<Rightarrow> ConvertItemChange" where
  "demo_host h = \<lparr>cc_build = None, cc_then = None, cc_host = Some h, cc_deleteAfterInstall = None, cc_imageDest = None, cc_outputDir = None, cc_keepBoth = None,
     cc_compression = None, cc_language = None, cc_fullVerify = None, cc_imageLevel = None\<rparr>"

lemma same_game_twice:
  "length (filter (convert_busy (demo_game ''/a'' (Some ''h''))) (cq_items (convert_all
     [CvAdd ''a'' (demo_game ''/a'' (Some ''h'')), CvAdd ''b'' (demo_game ''/a'' (Some ''k'')), CvUpdate ''b'' (demo_host (Some ''h''))]))) = 2"
  by code_simp

end
