(* ===== verification/Archive_Parts.thy ===== *)
theory Archive_Parts
  imports Js_Prelude
begin

text \<open>
  Multi-part archives (\<^verbatim>\<open>client/src/lib/archiveParts.ts\<close>): which files beside a picked archive belong to it, what to tell the person about the
  set, and which rows of a listing are volumes another row opens. The regular expressions are read from the end of a name: what they capture ends at
  its last dots. Part numbers are exact (the code has them as doubles, and no file name is long enough for an infinite one).
\<close>

section \<open>Names\<close>

definition no_newline :: "string \<Rightarrow> bool" where
  "no_newline s \<longleftrightarrow> char_of (10 :: nat) \<notin> set s \<and> char_of (13 :: nat) \<notin> set s"

text \<open>A name cut at its last dot.\<close>

definition last_dot :: "string \<Rightarrow> (string \<times> string) option" where
  "last_dot s = (if CHR ''.'' \<in> set s
     then Some (rev (drop 1 (dropWhile (\<lambda>c. c \<noteq> CHR ''.'') (rev s))), rev (takeWhile (\<lambda>c. c \<noteq> CHR ''.'') (rev s))) else None)"

definition only_digits :: "string \<Rightarrow> bool" where
  "only_digits s \<longleftrightarrow> list_all is_digit s"

record ArchivePartInfo =
  ap_stem :: string
  ap_index :: nat
  ap_ext :: string

definition PART_EXTS :: "string list" where
  "PART_EXTS = [''zip'', ''7z'', ''rar'']"

definition parseArchivePart :: "string \<Rightarrow> ArchivePartInfo option" where
  "parseArchivePart filename =
     (case last_dot filename of
        None \<Rightarrow> None
      | Some (a, ext) \<Rightarrow>
          if to_lower ext \<notin> set PART_EXTS then None
          else case last_dot a of
            None \<Rightarrow> None
          | Some (stem, mark) \<Rightarrow>
              let digits = drop 4 mark in
              if to_lower (take 4 mark) = ''part'' \<and> digits \<noteq> [] \<and> only_digits digits \<and> no_newline stem
              then Some \<lparr>ap_stem = stem, ap_index = decimal digits, ap_ext = to_lower ext\<rparr> else None)"

datatype split_scheme = SchemeNumeric | SchemeZip | SchemeRar

record SplitVolumeInfo =
  sv_scheme :: split_scheme
  sv_index :: nat
  sv_entryName :: string

definition numeric_vol :: "string \<Rightarrow> (string \<times> string) option" where
  "numeric_vol f = (case last_dot f of
     Some (a, x) \<Rightarrow> if only_digits x \<and> length x \<ge> 3 \<and> no_newline a then Some (a, x) else None | None \<Rightarrow> None)"

definition zip_vol :: "string \<Rightarrow> (string \<times> string) option" where
  "zip_vol f = (case last_dot f of
     Some (a, x) \<Rightarrow> if to_lower (take 1 x) = ''z'' \<and> only_digits (drop 1 x) \<and> length x \<ge> 3 \<and> no_newline a then Some (a, drop 1 x) else None
   | None \<Rightarrow> None)"

definition rar_vol :: "string \<Rightarrow> (string \<times> char \<times> string) option" where
  "rar_vol f = (case last_dot f of
     Some (a, c # ds) \<Rightarrow> if lower_char c \<in> set ''rstuvwxy'' \<and> only_digits ds \<and> length ds = 2 \<and> no_newline a then Some (a, c, ds) else None
   | _ \<Rightarrow> None)"

definition parseSplitVolume :: "string \<Rightarrow> SplitVolumeInfo option" where
  "parseSplitVolume f =
     (if parseArchivePart f \<noteq> None then None
      else case numeric_vol f of
        Some (a, x) \<Rightarrow> Some \<lparr>sv_scheme = SchemeNumeric, sv_index = decimal x, sv_entryName = a\<rparr>
      | None \<Rightarrow> (case zip_vol f of
          Some (a, x) \<Rightarrow> Some \<lparr>sv_scheme = SchemeZip, sv_index = decimal x, sv_entryName = a @ ''.zip''\<rparr>
        | None \<Rightarrow> (case rar_vol f of
            Some (a, c, ds) \<Rightarrow> Some \<lparr>sv_scheme = SchemeRar, sv_index = (of_char (lower_char c) - 114) * 100 + decimal ds, sv_entryName = a @ ''.rar''\<rparr>
          | None \<Rightarrow> None)))"

section \<open>Sets of parts\<close>

text \<open>An insertion-ordered map that keeps the first value of a key.\<close>

fun first_by :: "('a \<Rightarrow> 'k) \<Rightarrow> 'a list \<Rightarrow> 'a list" where
  "first_by k [] = []"
| "first_by k (x # xs) = x # filter (\<lambda>y. k y \<noteq> k x) (first_by k xs)"

definition same_stem :: "ArchivePartInfo \<Rightarrow> ArchivePartInfo \<Rightarrow> bool" where
  "same_stem p q \<longleftrightarrow> to_lower (ap_stem p) = to_lower (ap_stem q)"

definition same_set :: "ArchivePartInfo \<Rightarrow> ArchivePartInfo \<Rightarrow> bool" where
  "same_set p q \<longleftrightarrow> ap_ext p = ap_ext q \<and> same_stem p q"

definition by_index :: "ArchivePartInfo \<Rightarrow> ArchivePartInfo \<Rightarrow> int" where
  "by_index a b = int (ap_index a) - int (ap_index b)"

definition siblingParts :: "string \<Rightarrow> string list \<Rightarrow> ArchivePartInfo list" where
  "siblingParts filename names =
     (case parseArchivePart filename of
        None \<Rightarrow> []
      | Some self \<Rightarrow>
          let found = filter (same_set self) (List.map_filter parseArchivePart names);
              all = js_sort by_index (first_by ap_index found)
          in if length all > 1 then all else [])"

definition needsManualPartUploads :: "string \<Rightarrow> string list \<Rightarrow> bool" where
  "needsManualPartUploads filename names \<longleftrightarrow>
     (case parseArchivePart filename of
        None \<Rightarrow> False | Some self \<Rightarrow> ap_ext self \<noteq> ''rar'' \<and> length (siblingParts filename names) > 1)"

definition path_sep :: "char \<Rightarrow> bool" where
  "path_sep c \<longleftrightarrow> c = CHR ''/'' \<or> c = char_of (92 :: nat)"

definition file_part :: "string \<Rightarrow> string" where
  "file_part p = rev (takeWhile (\<lambda>c. \<not> path_sep c) (rev p))"

text \<open>Up to the last separator, that included.\<close>

definition dir_part :: "string \<Rightarrow> string" where
  "dir_part p = rev (dropWhile (\<lambda>c. \<not> path_sep c) (rev p))"

definition name_at :: "ArchivePartInfo list \<Rightarrow> string list \<Rightarrow> nat \<Rightarrow> string option" where
  "name_at parts names i = find (\<lambda>n. case parseArchivePart n of None \<Rightarrow> False
     | Some info \<Rightarrow> ap_index info = i \<and> list_ex (\<lambda>p. ap_index p = ap_index info \<and> same_set p info) parts) names"

definition siblingPartPaths :: "string \<Rightarrow> string list \<Rightarrow> string list" where
  "siblingPartPaths selectedPath names =
     (if length (dir_part selectedPath) \<le> 1 then []
      else let parts = siblingParts (file_part selectedPath) names
           in map (\<lambda>n. dir_part selectedPath @ n) (List.map_filter (\<lambda>p. name_at parts names (ap_index p)) parts))"

definition stemMatesAnyExt :: "ArchivePartInfo \<Rightarrow> string list \<Rightarrow> ArchivePartInfo list" where
  "stemMatesAnyExt self names =
     first_by (\<lambda>p. (ap_ext p, ap_index p)) (filter (same_stem self) (List.map_filter parseArchivePart names))"

definition isManualPartSet :: "string list \<Rightarrow> bool" where
  "isManualPartSet filenames \<longleftrightarrow>
     (case filenames of
        [] \<Rightarrow> False
      | f # _ \<Rightarrow> (case parseArchivePart f of
          None \<Rightarrow> False
        | Some first \<Rightarrow> ap_ext first \<noteq> ''rar''
            \<and> list_all (\<lambda>n. case parseArchivePart n of None \<Rightarrow> False | Some p \<Rightarrow> same_set first p) filenames
            \<and> distinct (map (\<lambda>n. map_option ap_index (parseArchivePart n)) filenames)))"

section \<open>What to say about a set\<close>

definition isSpannedZip :: "string \<Rightarrow> string list \<Rightarrow> bool" where
  "isSpannedZip filename names \<longleftrightarrow>
     (case last_dot filename of
        None \<Rightarrow> False
      | Some (stem, x) \<Rightarrow> to_lower x = ''zip'' \<and> no_newline stem
          \<and> list_ex (\<lambda>n. case zip_vol n of None \<Rightarrow> False | Some (a, _) \<Rightarrow> to_lower a = to_lower stem) names)"

datatype ArchiveSetIssue =
    ManualParts nat
  | MixedExtensions string string nat "string option"
  | PickEntryVolume string
  | SplitUnsupported split_scheme "string option" nat

definition volume_count :: "SplitVolumeInfo \<Rightarrow> string list \<Rightarrow> nat" where
  "volume_count vol names = length (filter (\<lambda>n. case parseSplitVolume n of None \<Rightarrow> False
     | Some v \<Rightarrow> sv_scheme v = sv_scheme vol \<and> sv_entryName v = sv_entryName vol) names)"

definition spanned_name :: "string \<Rightarrow> string \<Rightarrow> bool" where
  "spanned_name stem n \<longleftrightarrow> (case last_dot n of None \<Rightarrow> False
     | Some (a, x) \<Rightarrow> to_lower a = to_lower stem \<and> to_lower (take 1 x) = ''z'' \<and> only_digits (drop 1 x) \<and> length x \<ge> 3)"

definition foreign_groups :: "ArchivePartInfo list \<Rightarrow> (string \<times> ArchivePartInfo list) list" where
  "foreign_groups others = map (\<lambda>p. (ap_ext p, filter (\<lambda>q. ap_ext q = ap_ext p) others)) (first_by ap_ext others)"

definition diagnoseArchiveSet :: "string \<Rightarrow> string list \<Rightarrow> ArchiveSetIssue option" where
  "diagnoseArchiveSet filename names =
     (case parseSplitVolume filename of
        Some vol \<Rightarrow>
          if sv_scheme vol = SchemeRar \<and> list_ex (\<lambda>n. to_lower n = to_lower (sv_entryName vol)) names
          then Some (PickEntryVolume (sv_entryName vol))
          else let volumeCount = volume_count vol names in
          if sv_scheme vol = SchemeNumeric \<and> volumeCount < 2 then None
          else if sv_scheme vol = SchemeRar \<and> sv_index vol \<ge> 100 \<and> volumeCount < 2 then None
          else Some (SplitUnsupported (if sv_scheme vol = SchemeZip then SchemeZip else SchemeNumeric)
                       (if sv_entryName vol = [] then None else Some (sv_entryName vol)) volumeCount)
      | None \<Rightarrow>
          if isSpannedZip filename names
          then Some (SplitUnsupported SchemeZip (Some filename)
                 (length (filter (spanned_name (take (length filename - 4) filename)) names) + 1))
          else case parseArchivePart filename of
            None \<Rightarrow> None
          | Some self \<Rightarrow>
              let others = filter (\<lambda>p. ap_ext p \<noteq> ap_ext self) (stemMatesAnyExt self names) in
              if others \<noteq> [] then
                (case js_sort (\<lambda>a b. int (length (snd b)) - int (length (snd a))) (foreign_groups others) of
                   [] \<Rightarrow> None
                 | (otherExt, grp) # _ \<Rightarrow>
                     Some (MixedExtensions (ap_ext self) otherExt (length grp)
                       (if list_ex (\<lambda>p. ap_index p = 1) grp then None else Some (ap_stem self @ ''.part01.'' @ otherExt))))
              else if needsManualPartUploads filename names then Some (ManualParts (length (siblingParts filename names)))
              else None)"

section \<open>Volumes in a listing\<close>

definition rar_part :: "string \<Rightarrow> ArchivePartInfo option" where
  "rar_part name = (case parseArchivePart name of Some p \<Rightarrow> if ap_ext p = ''rar'' then Some p else None | None \<Rightarrow> None)"

definition first_part :: "string \<Rightarrow> string option" where
  "first_part path = (case rar_part (file_part path) of
     Some p \<Rightarrow> if ap_index p = 1 then Some (to_lower (dir_part path) @ to_lower (ap_stem p)) else None | None \<Rightarrow> None)"

definition keep_entry :: "string list \<Rightarrow> string \<Rightarrow> bool" where
  "keep_entry paths path =
     (let d = to_lower (dir_part path); name = file_part path in
      case rar_part name of
        Some p \<Rightarrow> ap_index p = 1 \<or> d @ to_lower (ap_stem p) \<notin> set (List.map_filter first_part paths)
      | None \<Rightarrow> (case parseSplitVolume name of None \<Rightarrow> True
          | Some v \<Rightarrow> \<not> (sv_scheme v = SchemeRar \<and> d @ to_lower (sv_entryName v) \<in> set (map to_lower paths))))"

definition collapseRarVolumes :: "('a \<Rightarrow> string) \<Rightarrow> 'a list \<Rightarrow> 'a list" where
  "collapseRarVolumes path entries = filter (\<lambda>e. keep_entry (map path entries) (path e)) entries"

section \<open>Lemmas\<close>

lemma of_lower: "of_char (lower_char c) =
    (let n = of_char c :: nat in if 65 \<le> n \<and> n \<le> 90 \<or> 192 \<le> n \<and> n \<le> 222 \<and> n \<noteq> 215 then n + 32 else n)"
  by (auto simp: lower_char_def Let_def of_char_of)

lemma lower_keeps: "of_char d \<in> {46, 47, 92 :: nat} \<Longrightarrow> lower_char c = d \<longleftrightarrow> c = d"
proof -
  assume d: "of_char d \<in> {46, 47, 92 :: nat}"
  have "of_char (lower_char c) = (of_char d :: nat) \<longleftrightarrow> of_char c = (of_char d :: nat)" using d unfolding of_lower Let_def by auto
  then show ?thesis by simp
qed

lemma last_dot_iff: "last_dot s = Some (a, x) \<longleftrightarrow> s = a @ CHR ''.'' # x \<and> CHR ''.'' \<notin> set x"
proof
  assume l: "last_dot s = Some (a, x)"
  then have "CHR ''.'' \<in> set (rev s)" by (simp add: last_dot_def split: if_splits)
  then have "dropWhile (\<lambda>c. c \<noteq> CHR ''.'') (rev s) \<noteq> []" by (auto simp: dropWhile_eq_Nil_conv)
  then obtain y ys where y: "dropWhile (\<lambda>c. c \<noteq> CHR ''.'') (rev s) = y # ys" by (cases "dropWhile (\<lambda>c. c \<noteq> CHR ''.'') (rev s)") auto
  then have "y = CHR ''.''" using hd_dropWhile[of "\<lambda>c. c \<noteq> CHR ''.''" "rev s"] by simp
  with y have "rev s = takeWhile (\<lambda>c. c \<noteq> CHR ''.'') (rev s) @ CHR ''.'' # ys" by (metis takeWhile_dropWhile_id)
  then have "s = rev ys @ CHR ''.'' # rev (takeWhile (\<lambda>c. c \<noteq> CHR ''.'') (rev s))" by (metis rev.simps(2) rev_append rev_rev_ident append.assoc append_Cons append_Nil)
  moreover have "CHR ''.'' \<notin> set (takeWhile (\<lambda>c. c \<noteq> CHR ''.'') (rev s))" using set_takeWhileD by fastforce
  moreover have "a = rev ys" "x = rev (takeWhile (\<lambda>c. c \<noteq> CHR ''.'') (rev s))" using l y by (simp_all add: last_dot_def split: if_splits)
  ultimately show "s = a @ CHR ''.'' # x \<and> CHR ''.'' \<notin> set x" by (metis set_rev)
next
  assume s: "s = a @ CHR ''.'' # x \<and> CHR ''.'' \<notin> set x"
  then have "takeWhile (\<lambda>c. c \<noteq> CHR ''.'') (rev s) = rev x" "dropWhile (\<lambda>c. c \<noteq> CHR ''.'') (rev s) = CHR ''.'' # rev a"
    by (auto simp: takeWhile_tail, subst dropWhile_append2, auto)
  with s show "last_dot s = Some (a, x)" by (simp add: last_dot_def)
qed

lemma digits_no_dot: "only_digits d \<Longrightarrow> CHR ''.'' \<notin> set d"
  by (auto simp: only_digits_def list_all_iff is_digit_def)

lemma lower_no_dot: "CHR ''.'' \<notin> set (to_lower s) \<Longrightarrow> CHR ''.'' \<notin> set s"
proof
  assume no: "CHR ''.'' \<notin> set (to_lower s)" and "CHR ''.'' \<in> set s"
  then have "lower_char CHR ''.'' \<in> set (to_lower s)" by (simp add: to_lower_def)
  moreover have "lower_char CHR ''.'' = CHR ''.''" using lower_keeps[of "CHR ''.''" "CHR ''.''"] by simp
  ultimately show False using no by simp
qed

text \<open>A name is read as a part exactly when it has the form the pattern \<^verbatim>\<open>/^(.*)\.part(\d+)\.(zip|7z|rar)$/i\<close> describes, and then with the
  stem, the number and the extension that stand in it.\<close>

lemma part_pattern:
  "parseArchivePart f = Some p \<longleftrightarrow>
     (\<exists>mark d e. f = ap_stem p @ ''.'' @ mark @ d @ ''.'' @ e \<and> to_lower mark = ''part'' \<and> d \<noteq> [] \<and> list_all is_digit d
        \<and> to_lower e \<in> {''zip'', ''7z'', ''rar''} \<and> no_newline (ap_stem p) \<and> ap_index p = decimal d \<and> ap_ext p = to_lower e)"
proof
  assume "parseArchivePart f = Some p"
  then obtain a e stem mk where l: "last_dot f = Some (a, e)" "last_dot a = Some (stem, mk)" "to_lower e \<in> set PART_EXTS"
    and mk: "to_lower (take 4 mk) = ''part''" "drop 4 mk \<noteq> []" "only_digits (drop 4 mk)" "no_newline stem"
    and p: "p = \<lparr>ap_stem = stem, ap_index = decimal (drop 4 mk), ap_ext = to_lower e\<rparr>"
    unfolding parseArchivePart_def Let_def by (auto split: option.splits if_splits prod.splits)
  have "f = stem @ ''.'' @ take 4 mk @ drop 4 mk @ ''.'' @ e" using l(1,2) unfolding last_dot_iff by simp
  with mk p l(3) show "\<exists>mark d e. f = ap_stem p @ ''.'' @ mark @ d @ ''.'' @ e \<and> to_lower mark = ''part'' \<and> d \<noteq> [] \<and> list_all is_digit d
        \<and> to_lower e \<in> {''zip'', ''7z'', ''rar''} \<and> no_newline (ap_stem p) \<and> ap_index p = decimal d \<and> ap_ext p = to_lower e"
    by (intro exI[of _ "take 4 mk"] exI[of _ "drop 4 mk"] exI[of _ e]) (auto simp: only_digits_def PART_EXTS_def)
next
  assume "\<exists>mark d e. f = ap_stem p @ ''.'' @ mark @ d @ ''.'' @ e \<and> to_lower mark = ''part'' \<and> d \<noteq> [] \<and> list_all is_digit d
        \<and> to_lower e \<in> {''zip'', ''7z'', ''rar''} \<and> no_newline (ap_stem p) \<and> ap_index p = decimal d \<and> ap_ext p = to_lower e"
  then obtain mark d e where f: "f = ap_stem p @ ''.'' @ mark @ d @ ''.'' @ e" and m: "to_lower mark = ''part''" "d \<noteq> []" "only_digits d"
    and e: "to_lower e \<in> {''zip'', ''7z'', ''rar''}" and p: "no_newline (ap_stem p)" "ap_index p = decimal d" "ap_ext p = to_lower e"
    unfolding only_digits_def by blast
  have "CHR ''.'' \<notin> set (to_lower e)" using e by auto
  then have l1: "last_dot f = Some (ap_stem p @ CHR ''.'' # mark @ d, e)" unfolding last_dot_iff using f lower_no_dot by simp
  have "CHR ''.'' \<notin> set mark" by (rule lower_no_dot) (simp add: m(1))
  then have l2: "last_dot (ap_stem p @ CHR ''.'' # mark @ d) = Some (ap_stem p, mark @ d)" unfolding last_dot_iff using digits_no_dot[OF m(3)] by simp
  have len: "length mark = 4" using arg_cong[OF m(1), of length] by (simp add: to_lower_def)
  then show "parseArchivePart f = Some p" unfolding parseArchivePart_def l1 using l2 m e p
    by (auto simp: PART_EXTS_def Let_def)
qed

section \<open>The paths of a set\<close>

lemma first_by_subset: "set (first_by k xs) \<subseteq> set xs"
  by (induction xs) auto

lemma first_by_distinct: "distinct (map k (first_by k xs))"
  by (induction xs) (auto simp: distinct_map_filter)

lemma first_by_keys: "k ` set (first_by k xs) = k ` set xs"
proof (induction xs)
  case (Cons x xs)
  have "k ` set (filter (\<lambda>y. k y \<noteq> k x) (first_by k xs)) = k ` set (first_by k xs) - {k x}" by auto
  with Cons show ?case by auto
qed simp

lemma set_map_filter: "set (List.map_filter f xs) = {y. \<exists>x \<in> set xs. f x = Some y}"
  by (induction xs) (auto simp: map_filter_simps split: option.splits)

interpretation index_order: js_comparator by_index
  by unfold_locales (auto simp: by_index_def)

lemma sibling_sorted: "sorted_wrt (<) (map ap_index (siblingParts f names))"
proof (cases "siblingParts f names = []")
  case False
  then obtain self where s: "siblingParts f names = js_sort by_index (first_by ap_index (filter (same_set self) (List.map_filter parseArchivePart names)))"
    by (auto simp: siblingParts_def Let_def split: option.splits if_splits)
  let ?xs = "first_by ap_index (filter (same_set self) (List.map_filter parseArchivePart names))"
  have "sorted_wrt (\<lambda>a b. by_index a b \<le> 0) (js_sort by_index ?xs)" by (rule index_order.sorted_js_sort)
  then have "sorted (map ap_index (js_sort by_index ?xs))" unfolding sorted_map by (simp add: by_index_def)
  moreover have "mset (map ap_index (js_sort by_index ?xs)) = mset (map ap_index ?xs)" by (metis mset_js_sort mset_map)
  then have "distinct (map ap_index (js_sort by_index ?xs))" using first_by_distinct[of ap_index] mset_eq_imp_distinct_iff by blast
  ultimately show ?thesis unfolding s strict_sorted_iff by blast
qed simp

lemma sibling_set:
  assumes "siblingParts f names \<noteq> []"
  obtains self where "parseArchivePart f = Some self"
    "ap_index ` set (siblingParts f names) = ap_index ` {q. \<exists>n \<in> set names. parseArchivePart n = Some q \<and> same_set self q}"
    "\<forall>q \<in> set (siblingParts f names). same_set self q"
proof -
  from assms obtain self where self: "parseArchivePart f = Some self"
    and s: "siblingParts f names = js_sort by_index (first_by ap_index (filter (same_set self) (List.map_filter parseArchivePart names)))"
    by (auto simp: siblingParts_def Let_def split: option.splits if_splits)
  let ?found = "filter (same_set self) (List.map_filter parseArchivePart names)"
  have found: "set ?found = {q. \<exists>n \<in> set names. parseArchivePart n = Some q \<and> same_set self q}" by (auto simp: set_map_filter)
  show thesis
  proof (rule that[OF self])
    show "ap_index ` set (siblingParts f names) = ap_index ` {q. \<exists>n \<in> set names. parseArchivePart n = Some q \<and> same_set self q}"
      unfolding s set_js_sort first_by_keys found ..
    show "\<forall>q \<in> set (siblingParts f names). same_set self q"
      using first_by_subset[of ap_index ?found] unfolding s set_js_sort found by blast
  qed
qed

lemma same_set_sym: "same_set p q \<longleftrightarrow> same_set q p"
  by (auto simp: same_set_def same_stem_def)

lemma same_set_trans: "same_set p q \<Longrightarrow> same_set q r \<Longrightarrow> same_set p r"
  by (auto simp: same_set_def same_stem_def)

definition part_no :: "string \<Rightarrow> nat" where
  "part_no n = (case parseArchivePart n of None \<Rightarrow> 0 | Some p \<Rightarrow> ap_index p)"

lemma name_at_found:
  assumes parts: "parts = siblingParts f names" and p: "p \<in> set parts" and self: "parseArchivePart f = Some self"
    and sets: "\<forall>q \<in> set parts. same_set self q"
    and idx: "ap_index ` set parts = ap_index ` {q. \<exists>n \<in> set names. parseArchivePart n = Some q \<and> same_set self q}"
  shows "\<exists>n \<in> set names. \<exists>q. name_at parts names (ap_index p) = Some n \<and> parseArchivePart n = Some q \<and> ap_index q = ap_index p \<and> same_set self q"
proof -
  let ?P = "\<lambda>n. case parseArchivePart n of None \<Rightarrow> False
     | Some info \<Rightarrow> ap_index info = ap_index p \<and> list_ex (\<lambda>p. ap_index p = ap_index info \<and> same_set p info) parts"
  have "ap_index p \<in> ap_index ` set parts" using p by simp
  then obtain n q where n: "n \<in> set names" "parseArchivePart n = Some q" "same_set self q" "ap_index q = ap_index p" unfolding idx by auto
  then have "same_set p q" using sets p same_set_sym same_set_trans by blast
  with n p have "?P n" by (auto simp: list_ex_iff)
  with n(1) have "find ?P names \<noteq> None" unfolding find_None_iff by blast
  then obtain m where m: "find ?P names = Some m" by blast
  then have "m \<in> set names" "?P m" by (auto simp: find_Some_iff)
  moreover then obtain q' where "parseArchivePart m = Some q'" "ap_index q' = ap_index p" "\<exists>p \<in> set parts. same_set p q'"
    by (auto simp: list_ex_iff split: option.splits)
  ultimately show ?thesis using m sets same_set_trans unfolding name_at_def by blast
qed

lemma map_filter_total:
  assumes "\<And>x. x \<in> set xs \<Longrightarrow> f x \<noteq> None"
  shows "List.map_filter f xs = map (\<lambda>x. the (f x)) xs"
proof -
  have "filter (\<lambda>x. f x \<noteq> None) xs = xs" using assms by (simp add: filter_id_conv)
  then show ?thesis unfolding List.map_filter_def by (simp add: comp_def)
qed

text \<open>C39. The parts to upload. When a set is offered, the paths are in the folder of the picked file, whatever separator it is written with, and end in names as the folder has
  them; the part numbers grow from one to the next, so none comes twice; and every part of the picked file's set that is in the folder is there, by its number.\<close>

theorem part_paths_spec:
  assumes "siblingPartPaths sel names \<noteq> []"
  shows "\<exists>self ns. parseArchivePart (file_part sel) = Some self \<and> siblingPartPaths sel names = map (\<lambda>n. dir_part sel @ n) ns \<and> set ns \<subseteq> set names
    \<and> length ns > 1 \<and> sorted_wrt (<) (map part_no ns)
    \<and> (\<forall>n \<in> set ns. \<exists>q. parseArchivePart n = Some q \<and> same_set self q)
    \<and> (\<forall>n \<in> set names. \<forall>q. parseArchivePart n = Some q \<and> same_set self q \<longrightarrow> ap_index q \<in> part_no ` set ns)"
proof -
  define parts where "parts = siblingParts (file_part sel) names"
  have ne: "parts \<noteq> []" and paths: "siblingPartPaths sel names = map (\<lambda>n. dir_part sel @ n) (List.map_filter (\<lambda>p. name_at parts names (ap_index p)) parts)"
    using assms by (auto simp: siblingPartPaths_def Let_def parts_def map_filter_simps split: if_splits)
  obtain self where self: "parseArchivePart (file_part sel) = Some self"
    and idx: "ap_index ` set parts = ap_index ` {q. \<exists>n \<in> set names. parseArchivePart n = Some q \<and> same_set self q}"
    and sets: "\<forall>q \<in> set parts. same_set self q"
    by (rule sibling_set[OF ne[unfolded parts_def], folded parts_def])
  have found: "\<exists>n \<in> set names. \<exists>q. name_at parts names (ap_index p) = Some n \<and> parseArchivePart n = Some q \<and> ap_index q = ap_index p \<and> same_set self q"
    if "p \<in> set parts" for p using name_at_found[OF parts_def that self sets idx] .
  define name where "name p = the (name_at parts names (ap_index p))" for p :: ArchivePartInfo
  have name: "name p \<in> set names" "\<exists>q. parseArchivePart (name p) = Some q \<and> same_set self q" "part_no (name p) = ap_index p" if "p \<in> set parts" for p
    using found[OF that] by (auto simp: name_def part_no_def)
  have "List.map_filter (\<lambda>p. name_at parts names (ap_index p)) parts = map name parts"
    unfolding name_def using found by (intro map_filter_total) fastforce
  then have eq: "siblingPartPaths sel names = map (\<lambda>n. dir_part sel @ n) (map name parts)" using paths by simp
  have no: "map part_no (map name parts) = map ap_index parts" using name(3) by simp
  have "sorted_wrt (<) (map part_no (map name parts))" unfolding no using sibling_sorted by (simp add: parts_def)
  moreover have "length (map name parts) > 1" using ne by (auto simp: parts_def siblingParts_def Let_def split: option.splits if_splits)
  moreover have "ap_index q \<in> part_no ` set (map name parts)" if "n \<in> set names" "parseArchivePart n = Some q" "same_set self q" for n q
  proof -
    have "ap_index q \<in> ap_index ` set parts" unfolding idx using that by blast
    then show ?thesis using arg_cong[OF no, of set] by (metis list.set_map)
  qed
  ultimately show ?thesis using self eq name(1,2) by (intro exI[of _ self] exI[of _ "map name parts"]) auto
qed

definition demo_folder :: "string list" where
  "demo_folder = [''G.part2.zip'', ''g.PART01.zip'', ''G.part1.zip'', ''G.part3.rar'', ''x.txt'']"

lemma demo_paths: "siblingPartPaths ''/d/G.part2.zip'' demo_folder = [''/d/g.PART01.zip'', ''/d/G.part2.zip'']"
  by code_simp

theorem part_paths_spec_witness:
  "\<exists>ns. siblingPartPaths ''/d/G.part2.zip'' demo_folder = map (\<lambda>n. dir_part ''/d/G.part2.zip'' @ n) ns \<and> length ns > 1 \<and> sorted_wrt (<) (map part_no ns)"
proof -
  have "siblingPartPaths ''/d/G.part2.zip'' demo_folder \<noteq> []" unfolding demo_paths by simp
  from part_paths_spec[OF this] show ?thesis by blast
qed

section \<open>What a listing leaves out\<close>

text \<open>\<open>o'\<close> opens the set \<open>path\<close> is a volume of.\<close>

definition opened_by :: "string \<Rightarrow> string \<Rightarrow> bool" where
  "opened_by path o' \<longleftrightarrow> to_lower (dir_part path) = to_lower (dir_part o')
     \<and> ((\<exists>p q. rar_part (file_part path) = Some p \<and> rar_part (file_part o') = Some q \<and> ap_index q = 1 \<and> same_stem p q)
        \<or> (\<exists>v. parseSplitVolume (file_part path) = Some v \<and> sv_scheme v = SchemeRar \<and> to_lower (file_part o') = to_lower (sv_entryName v)))"

lemma dir_file: "dir_part p @ file_part p = p"
  unfolding dir_part_def file_part_def by (metis rev_append rev_rev_ident takeWhile_dropWhile_id)

lemma lower_sep: "path_sep (lower_char c) = path_sep c"
  unfolding path_sep_def using lower_keeps[of "CHR ''/''" c] lower_keeps[of "char_of (92 :: nat)" c] by simp

lemma takeWhile_lower: "map lower_char (takeWhile (\<lambda>c. \<not> path_sep c) s) = takeWhile (\<lambda>c. \<not> path_sep c) (map lower_char s)"
  by (induction s) (auto simp: lower_sep)

lemma file_lower: "to_lower (file_part p) = file_part (to_lower p)"
  unfolding file_part_def to_lower_def by (simp add: rev_map[symmetric] takeWhile_lower)

lemma dir_lower: "to_lower (dir_part p) = dir_part (to_lower p)"
proof -
  have "to_lower (dir_part p) @ to_lower (file_part p) = dir_part (to_lower p) @ file_part (to_lower p)"
    unfolding dir_file by (simp add: to_lower_def map_append[symmetric] dir_file del: map_append)
  then show ?thesis unfolding file_lower by simp
qed

lemma lower_letter:
  assumes "lower_char c = lower_char d" "97 \<le> (of_char d :: nat)" "(of_char d :: nat) \<le> 122"
  shows "of_char c = (of_char d :: nat) \<or> of_char c = (of_char d - 32 :: nat)"
proof -
  have "of_char (lower_char c) = (of_char d :: nat)" unfolding assms(1) of_lower using assms(2,3) by simp
  then show ?thesis unfolding of_lower Let_def by (auto split: if_splits)
qed

lemma rar_name_no_volume:
  assumes "to_lower name = to_lower (a @ ''.rar'')"
  shows "parseSplitVolume name = None"
proof -
  have "map lower_char name = map lower_char a @ map lower_char ''.rar''" using assms unfolding to_lower_def map_append .
  then obtain b x where bx: "name = b @ x \<and> map lower_char a = map lower_char b \<and> map lower_char ''.rar'' = map lower_char x"
    unfolding map_eq_append_conv by (elim exE)
  note n = bx[THEN conjunct1] bx[THEN conjunct2, THEN conjunct2, THEN sym]
  have "length x = 4" using arg_cong[OF n(2), of length] by simp
  then obtain c0 c1 c2 c3 where x: "x = [c0, c1, c2, c3]" by (auto simp: length_Suc_conv numeral_eq_Suc)
  have low: "lower_char c0 = lower_char CHR ''.''" "lower_char c1 = lower_char CHR ''r''" "lower_char c2 = lower_char CHR ''a''" "lower_char c3 = lower_char CHR ''r''"
    using n(2) unfolding x by simp_all
  have dot: "c0 = CHR ''.''" using low(1) lower_keeps[of "CHR ''.''" c0] lower_keeps[of "CHR ''.''" "CHR ''.''"] by simp
  have "of_char c1 = (114 :: nat) \<or> of_char c1 = (82 :: nat)" "of_char c2 = (97 :: nat) \<or> of_char c2 = (65 :: nat)"
    "of_char c3 = (114 :: nat) \<or> of_char c3 = (82 :: nat)"
    using lower_letter[OF low(2)] lower_letter[OF low(3)] lower_letter[OF low(4)] by simp_all
  then have nd: "\<not> is_digit c1" "\<not> is_digit c2" "c1 \<noteq> CHR ''.''" "c2 \<noteq> CHR ''.''" "c3 \<noteq> CHR ''.''" by (auto simp: is_digit_def)
  then have ld: "last_dot name = Some (b, [c1, c2, c3])" unfolding last_dot_iff n(1) x dot by simp
  with nd show ?thesis by (simp add: parseSplitVolume_def numeric_vol_def zip_vol_def rar_vol_def only_digits_def)
qed

lemma volume_entry: "parseSplitVolume f = Some v \<Longrightarrow> sv_scheme v = SchemeRar \<Longrightarrow> \<exists>a x. sv_entryName v = a @ ''.rar'' \<and> f = a @ CHR ''.'' # x"
  by (auto simp: parseSplitVolume_def rar_vol_def last_dot_iff split: option.splits if_splits list.splits)

lemma first_part_kept: "first_part o' = Some k \<Longrightarrow> keep_entry paths o'"
  by (auto simp: first_part_def keep_entry_def Let_def split: option.splits if_splits)

definition no_sep :: "string \<Rightarrow> bool" where
  "no_sep s \<longleftrightarrow> (\<forall>c \<in> set s. \<not> path_sep c)"

lemma file_dir:
  assumes "no_sep s"
  shows "file_part (dir_part p @ s) = s"
proof -
  have "takeWhile Q (dropWhile Q xs) = []" for Q :: "char \<Rightarrow> bool" and xs by (induction xs) auto
  then have "takeWhile (\<lambda>c. \<not> path_sep c) (rev s @ dropWhile (\<lambda>c. \<not> path_sep c) (rev p)) = rev s"
    using assms by (subst takeWhile_append2) (auto simp: no_sep_def)
  then show ?thesis by (simp add: file_part_def dir_part_def)
qed

lemma key_split: "no_sep s \<Longrightarrow> no_sep t \<Longrightarrow> dir_part p @ s = dir_part q @ t \<Longrightarrow> dir_part p = dir_part q \<and> s = t"
  by (metis append_same_eq file_dir)

lemma no_sep_lower: "no_sep (to_lower s) = no_sep s"
  by (auto simp: no_sep_def to_lower_def lower_sep)

lemma no_sep_file: "no_sep (file_part p)"
  by (auto simp: no_sep_def file_part_def dest: set_takeWhileD)

lemma no_sep_append [simp]: "no_sep (s @ t) \<longleftrightarrow> no_sep s \<and> no_sep t" "no_sep (c # t) \<longleftrightarrow> \<not> path_sep c \<and> no_sep t" "no_sep []"
  by (auto simp: no_sep_def)

lemma stem_no_sep: "rar_part (file_part p) = Some q \<Longrightarrow> no_sep (ap_stem q)"
proof -
  assume "rar_part (file_part p) = Some q"
  then have "parseArchivePart (file_part p) = Some q" by (auto simp: rar_part_def split: option.splits if_splits)
  then obtain t where "file_part p = ap_stem q @ t" unfolding part_pattern by blast
  then show ?thesis using no_sep_file[of p] by simp
qed

lemma entry_no_sep: "parseSplitVolume (file_part p) = Some v \<Longrightarrow> sv_scheme v = SchemeRar \<Longrightarrow> no_sep (sv_entryName v)"
proof -
  assume "parseSplitVolume (file_part p) = Some v" "sv_scheme v = SchemeRar"
  then obtain a x where "sv_entryName v = a @ ''.rar''" "file_part p = a @ CHR ''.'' # x" using volume_entry by blast
  moreover have "no_sep ''.rar''" by code_simp
  ultimately show ?thesis using no_sep_file[of p] by (metis no_sep_append(1))
qed

lemma left_out_part:
  assumes "rar_part (file_part p) = Some x" "\<not> keep_entry ps p"
  shows "ap_index x \<noteq> 1 \<and> (\<exists>c \<in> set ps. keep_entry ps c \<and> opened_by p c)"
proof -
  have no1: "ap_index x \<noteq> 1" and "to_lower (dir_part p) @ to_lower (ap_stem x) \<in> set (List.map_filter first_part ps)"
    using assms by (simp_all add: keep_entry_def Let_def)
  then obtain c where c: "c \<in> set ps" "first_part c = Some (to_lower (dir_part p) @ to_lower (ap_stem x))" by (auto simp: set_map_filter)
  then obtain q where q: "rar_part (file_part c) = Some q" "ap_index q = 1"
    and key: "to_lower (dir_part c) @ to_lower (ap_stem q) = to_lower (dir_part p) @ to_lower (ap_stem x)"
    by (auto simp: first_part_def split: option.splits if_splits)
  have "dir_part (to_lower c) = dir_part (to_lower p) \<and> to_lower (ap_stem q) = to_lower (ap_stem x)"
    using key stem_no_sep[OF q(1)] stem_no_sep[OF assms(1)] unfolding dir_lower by (intro key_split) (simp_all add: no_sep_lower)
  then have "opened_by p c" using assms(1) q unfolding opened_by_def dir_lower same_stem_def by auto
  with no1 c(1) first_part_kept[OF c(2)] show ?thesis by blast
qed

lemma left_out_volume:
  assumes "rar_part (file_part p) = None" "\<not> keep_entry ps p"
  obtains v c where "parseSplitVolume (file_part p) = Some v" "sv_scheme v = SchemeRar" "c \<in> set ps" "opened_by p c"
    "rar_part (file_part c) \<noteq> None \<or> keep_entry ps c"
proof -
  obtain v where v: "parseSplitVolume (file_part p) = Some v" "sv_scheme v = SchemeRar"
    and "to_lower (dir_part p) @ to_lower (sv_entryName v) \<in> set (map to_lower ps)"
    using assms by (auto simp: keep_entry_def Let_def split: option.splits)
  then obtain c where c: "c \<in> set ps" "to_lower c = to_lower (dir_part p) @ to_lower (sv_entryName v)" by auto
  have "dir_part (to_lower c) @ file_part (to_lower c) = dir_part (to_lower p) @ to_lower (sv_entryName v)" using c(2) by (simp add: dir_file dir_lower)
  then have e: "dir_part (to_lower c) = dir_part (to_lower p) \<and> file_part (to_lower c) = to_lower (sv_entryName v)"
    using entry_no_sep[OF v] no_sep_file by (intro key_split) (simp_all add: no_sep_lower)
  then have o: "opened_by p c" using v unfolding opened_by_def dir_lower file_lower by auto
  obtain a where "sv_entryName v = a @ ''.rar''" using volume_entry[OF v] by blast
  then have "parseSplitVolume (file_part c) = None" using e unfolding file_lower[symmetric] by (intro rar_name_no_volume) simp
  then have "rar_part (file_part c) \<noteq> None \<or> keep_entry ps c" by (cases "rar_part (file_part c)") (simp_all add: keep_entry_def Let_def)
  with that[OF v c(1) o] show thesis .
qed


definition demo_listing :: "string list" where
  "demo_listing = [''/d/G.part1.rar'', ''/d/G.part2.rar'', ''/d/x.rar'', ''/d/X.r00'', ''/e/X.r00'']"


end
