(* ===== verification/Upload_Queue.thy ===== *)
theory Upload_Queue
  imports Queue_Item
begin

text \<open>
  The pure decisions of the upload queue (\<^verbatim>\<open>client/src/state/uploadQueue.ts\<close>, the functions before
  the store): which row runs next, what may be paused, resumed, retried or re-run by itself, what
  counts as the same install, and what a saved queue keeps. Translated texts that the functions
  return (notices) are constructors.
\<close>

section \<open>Rows of a console\<close>

definition distinctPendingHosts :: "QueueItem list \<Rightarrow> bool \<Rightarrow> string list" where
  "distinctPendingHosts items includeWaitingForWake =
     fold (\<lambda>it out.
             if item_status it \<noteq> Pending \<or> paused it \<noteq> None then out
             else if waitingForWake it \<and> \<not> includeWaitingForWake then out
             else if hostOf (item_addr it) \<in> set out then out
             else out @ [hostOf (item_addr it)])
       items []"

definition pendingCount :: "QueueItem list \<Rightarrow> nat" where
  "pendingCount items = foldl (\<lambda>n it. if item_status it = Pending then n + 1 else n) 0 items"

text \<open>\<^verbatim>\<open>/\/dir\/[^/]*$/\<close>: the path up to its last slash ends with \<^verbatim>\<open>/dir/\<close>.\<close>

definition in_last_dir :: "string \<Rightarrow> string \<Rightarrow> bool" where
  "in_last_dir dir path \<longleftrightarrow>
     ends_with (''/'' @ dir @ ''/'') (rev (dropWhile (\<lambda>c. c \<noteq> CHR ''/'') (rev path)))"

definition installOrderPriority :: "QueueItem \<Rightarrow> nat" where
  "installOrderPriority it =
     (if sourceKind it \<noteq> KPkg \<and> sourceKind it \<noteq> KInstall then 0
      else if item_category it = Some ''gp'' then 1
      else if item_category it = Some ''ac'' then 2
      else if item_category it = Some ''gd'' then 0
      else if in_last_dir ''updates'' (resolvedDest it) then 1
      else if in_last_dir ''dlc'' (resolvedDest it) then 2
      else 0)"

definition moveGroupOf :: "QueueItem \<Rightarrow> string" where
  "moveGroupOf it =
     (if item_status it = Pending
      then hostOf (item_addr it) @ ''|'' @ show_nat (installOrderPriority it)
      else item_id it @ ''|fixed'')"

definition failedStreamInstallIds :: "QueueItem list \<Rightarrow> string \<Rightarrow> string list" where
  "failedStreamInstallIds items source =
     map item_id
       (filter (\<lambda>it. item_status it = Failed \<and> sourceKind it = KInstall \<and>
                     item_install it = Some (ViaStream source)) items)"

datatype library_state = LibQueued | LibInstalling

definition libraryInstallStates :: "QueueItem list \<Rightarrow> string \<Rightarrow> (string \<times> library_state) list" where
  "libraryInstallStates items host =
     fold (\<lambda>it out.
             if sourceKind it \<noteq> KInstall then out
             else (case item_install it of
                     Some (ViaLibrary path _) \<Rightarrow>
                       if hostOf (item_addr it) \<noteq> hostOf host then out
                       else if item_status it = Pending then AList.update path LibQueued out
                       else if item_status it = Running then AList.update path LibInstalling out
                       else out
                   | _ \<Rightarrow> out))
       items []"

definition isUploadItem :: "QueueItem \<Rightarrow> bool" where
  "isUploadItem it \<longleftrightarrow> sourceKind it \<noteq> KInstall"

record EnqueueInstallInput =
  in_host :: string
  in_request :: InstallRequest
  in_displayName :: string
  in_contentId :: "string option"
  in_category :: "string option"
  in_sizeBytes :: "rat option"

definition installKey :: "InstallRequest \<Rightarrow> string" where
  "installKey r =
     (case r of
        ViaLibrary path _ \<Rightarrow> ''ps5:'' @ path
      | ViaConsolePath path \<Rightarrow> ''ps5:'' @ path
      | ViaExternal pkg \<Rightarrow> ''ps5:'' @ ep_path pkg
      | ViaStream source \<Rightarrow> ''pc:'' @ source
      | ViaLink url _ _ \<Rightarrow> ''url:'' @ url)"

definition sameInstall :: "QueueItem \<Rightarrow> EnqueueInstallInput \<Rightarrow> bool" where
  "sameInstall it input =
     (case item_install it of
        None \<Rightarrow> False
      | Some r \<Rightarrow>
          if sourceKind it \<noteq> KInstall then False
          else if item_status it \<noteq> Pending \<and> item_status it \<noteq> Running then False
          else if hostOf (item_addr it) \<noteq> hostOf (in_host input) then False
          else installKey r = installKey (in_request input))"

definition knownSize :: "rat option \<Rightarrow> int" where
  "knownSize n = (case n of Some x \<Rightarrow> if x > 0 then \<lfloor>x\<rfloor> else 0 | None \<Rightarrow> 0)"

definition shouldRestAfterRun :: "QueueItem list \<Rightarrow> string \<Rightarrow> int \<Rightarrow> bool \<Rightarrow> bool" where
  "shouldRestAfterRun items h runStartedAt installRunning =
     (if installRunning then False
      else let thisRun = filter (\<lambda>it. hostOf (item_addr it) = h \<and>
                  (case completedAt it of None \<Rightarrow> 0 | Some t \<Rightarrow> t) \<ge> runStartedAt) items;
               installed = (\<lambda>it. sourceKind it = KInstall \<or>
                  (sourceKind it = KPkg \<and> installAfterUpload it \<noteq> Some False))
           in if list_ex (\<lambda>it. item_status it = Failed \<or> installed it) thisRun then False
              else if list_ex (\<lambda>it. hostOf (item_addr it) = h \<and> item_status it = Running) items then False
              else list_ex (\<lambda>it. item_status it = Done \<and> sourceKind it \<noteq> KPkg) thisRun)"

section \<open>Installs, retries, pauses\<close>

definition isInstallWork :: "QueueItem \<Rightarrow> bool" where
  "isInstallWork it \<longleftrightarrow> sourceKind it = KInstall \<or> (sourceKind it = KPkg \<and> uploadDone it)"

definition canResumeUnattended :: "QueueItem \<Rightarrow> bool" where
  "canResumeUnattended it \<longleftrightarrow>
     item_status it = Failed \<and> \<not> isInstallWork it \<and> installPhase it = None \<and>
     isAutoRecoverable (errorReason it) (item_error it) True"

definition retry_cleared :: "QueueItem \<Rightarrow> QueueItem" where
  "retry_cleared it =
     it\<lparr>item_status := Pending, item_error := None, errorReason := None, errorDetail := None,
        completedAt := None\<rparr>"

text \<open>The patch, applied to the row it is made from.\<close>

definition retryPatch :: "QueueItem \<Rightarrow> QueueItem" where
  "retryPatch it =
     (if sourceKind it \<noteq> KPkg \<or> \<not> uploadDone it \<or> installAfterUpload it = Some False
      then retry_cleared it
      else let install = ViaLibrary (resolvedDest it) False
           in (retry_cleared it)
                \<lparr>sourceKind := KInstall, sourcePath := installKey install, item_install := Some install,
                 uploadDone := False, installPhase := None, installPct := None,
                 installProgress := None, installNote := None, installJobId := None\<rparr>)"

definition canPauseItem :: "QueueItem \<Rightarrow> bool" where
  "canPauseItem it \<longleftrightarrow>
     item_status it = Running \<and> sourceKind it \<noteq> KInstall \<and> installPhase it \<noteq> Some Installing \<and>
     \<not> uploadDone it"

definition NO_SPACE :: "string list" where
  "NO_SPACE = [''ava1_no_space'', ''preflight_insufficient_space'', ''preflight_insufficient_space_image'']"

definition partialUploadPath :: "QueueItem \<Rightarrow> string option" where
  "partialUploadPath it =
     (case errorReason it of
        None \<Rightarrow> None
      | Some r \<Rightarrow>
          if item_status it \<noteq> Failed \<or> r = [] \<or> r \<notin> set NO_SPACE then None
          else if sourceKind it \<noteq> KFile \<and> sourceKind it \<noteq> KImage \<and> sourceKind it \<noteq> KPkg then None
          else if resolvedDest it \<noteq> [] then Some (resolvedDest it @ ''.ava-part'') else None)"

section \<open>The next row\<close>

text \<open>\<^verbatim>\<open>!!it.sendNowAt\<close>: 0 counts as absent.\<close>

definition sent_now :: "QueueItem \<Rightarrow> bool" where
  "sent_now it \<longleftrightarrow> (case sendNowAt it of None \<Rightarrow> False | Some t \<Rightarrow> t \<noteq> 0)"

definition sent_at :: "QueueItem \<Rightarrow> int" where
  "sent_at it = (case sendNowAt it of None \<Rightarrow> 0 | Some t \<Rightarrow> t)"

definition may_run :: "string \<Rightarrow> QueueItem \<Rightarrow> bool" where
  "may_run host it \<longleftrightarrow> item_status it = Pending \<and> paused it = None \<and> hostOf (item_addr it) = host"

text \<open>The first loop: the row sent now first.\<close>

fun pick_sent :: "string \<Rightarrow> QueueItem list \<Rightarrow> QueueItem option \<Rightarrow> QueueItem option" where
  "pick_sent host [] sent = sent"
| "pick_sent host (it # items) sent =
     (if \<not> may_run host it \<or> \<not> sent_now it then pick_sent host items sent
      else case sent of
             None \<Rightarrow> pick_sent host items (Some it)
           | Some s \<Rightarrow> pick_sent host items (if sent_at it < sent_at s then Some it else sent))"

text \<open>The second: the lowest priority, the first of its rows; priority 0 ends the loop. \<open>best\<close> with no
  row is a best priority of infinity.\<close>

fun pick_best :: "string \<Rightarrow> QueueItem list \<Rightarrow> QueueItem option \<Rightarrow> QueueItem option" where
  "pick_best host [] best = best"
| "pick_best host (it # items) best =
     (if \<not> may_run host it then pick_best host items best
      else let prio = installOrderPriority it in
           if (case best of None \<Rightarrow> True | Some b \<Rightarrow> prio < installOrderPriority b)
           then (if prio = 0 then Some it else pick_best host items (Some it))
           else pick_best host items best)"

definition nextPendingForHost :: "QueueItem list \<Rightarrow> string \<Rightarrow> QueueItem option" where
  "nextPendingForHost items host =
     (case pick_sent host items None of
        Some s \<Rightarrow> Some s
      | None \<Rightarrow> pick_best host items None)"

datatype clear_notice = ClearStopped string | ClearInstallKept string

definition clearNotice :: "QueueItem list \<Rightarrow> QueueItem list \<Rightarrow> clear_notice option" where
  "clearNotice items kept =
     (case List.find (\<lambda>it. item_status it = Running \<and> it \<notin> set kept) items of
        Some stopped \<Rightarrow> Some (ClearStopped (item_addr stopped))
      | None \<Rightarrow> (case kept of [] \<Rightarrow> None | install # _ \<Rightarrow> Some (ClearInstallKept (item_addr install))))"

section \<open>Saving and loading\<close>

text \<open>One row as the saved document has it: no password, no link.\<close>

definition persistItem :: "QueueItem \<Rightarrow> QueueItem" where
  "persistItem it =
     (let out = (if orEmpty (rarPassword it) \<noteq> [] then it\<lparr>rarPassword := None\<rparr> else it);
          out = (if waitingForEngineQueue out then out\<lparr>waitingForEngineQueue := False\<rparr> else out)
      in (case item_install out of
            Some (ViaLink _ _ _) \<Rightarrow> out\<lparr>item_install := None, sourcePath := ''url:''\<rparr>
          | _ \<Rightarrow> out))"

text \<open>What loading makes of one saved row, for the fields every version of the document has.
  \<open>freshTx\<close> stands for \<^verbatim>\<open>generateTxIdHex()\<close>, \<open>now\<close> for \<^verbatim>\<open>Date.now()\<close>; the texts are the English ones.\<close>

definition sanitiseItem :: "string \<Rightarrow> int \<Rightarrow> QueueItem \<Rightarrow> QueueItem" where
  "sanitiseItem freshTx now it =
     (let next = it\<lparr>attachJobId := None\<rparr>;
          installWork = isInstallWork next;
          next =
            (if installWork \<and> item_status next = Running \<and> orEmpty (installJobId next) \<noteq> [] then
               next\<lparr>installNote := Some ''Checking how this install went...''\<rparr>
             else if installWork \<and> item_status next = Running then
               next\<lparr>item_status := Failed, installPhase := Some PhaseError,
                    item_error := Some ''Interrupted when the app closed.'', completedAt := Some now\<rparr>
             else next);
          next =
            (if item_status next = Running \<and> \<not> installWork
             then next\<lparr>item_status := Pending, interrupted := True, stalledForMs := None\<rparr> else next)
      in if txIdHex next = [] then next\<lparr>txIdHex := freshTx\<rparr> else next)"

text \<open>The rows whose engine job is looked up after a load: uploads to re-attach, installs to find.\<close>

definition wasRunning :: "QueueItem list \<Rightarrow> QueueItem list" where
  "wasRunning doc =
     filter (\<lambda>it. item_status it = Running \<and> \<not> isInstallWork it \<and> orEmpty (jobId it) \<noteq> []) doc"

definition installsToFind :: "QueueItem list \<Rightarrow> QueueItem list" where
  "installsToFind doc =
     filter (\<lambda>it. item_status it = Running \<and> isInstallWork it \<and> orEmpty (installJobId it) \<noteq> []) doc"

text \<open>\<open>doc\<close> is the saved list, \<open>live\<close> what was queued before the load finished, \<open>freshTx i\<close> the id
  minted for row \<open>i\<close>.\<close>

definition hydrateItems :: "(nat \<Rightarrow> string) \<Rightarrow> int \<Rightarrow> QueueItem list \<Rightarrow> QueueItem list \<Rightarrow> QueueItem list" where
  "hydrateItems freshTx now doc live =
     (let items = map (\<lambda>(i, it). sanitiseItem (freshTx i) now it) (enumerate 0 doc);
          kept = filter (\<lambda>it. sourceKind it \<noteq> KInstall \<or> item_install it \<noteq> None) items
      in kept @ filter (\<lambda>it. \<not> list_ex (\<lambda>k. item_id k = item_id it) kept) live)"

section \<open>Lemmas on the pick\<close>

text \<open>\<open>x\<close> is the first of the rows of \<open>xs\<close> with the least value of \<open>f\<close>.\<close>

definition first_min :: "('a \<Rightarrow> 'b::linorder) \<Rightarrow> 'a list \<Rightarrow> 'a \<Rightarrow> bool" where
  "first_min f xs x \<longleftrightarrow>
     (\<exists>u v. xs = u @ x # v \<and> (\<forall>y \<in> set u. f x < f y) \<and> (\<forall>y \<in> set v. f x \<le> f y))"

fun least_first :: "('a \<Rightarrow> 'b::linorder) \<Rightarrow> 'a list \<Rightarrow> 'a option \<Rightarrow> 'a option" where
  "least_first f [] b = b"
| "least_first f (x # xs) None = least_first f xs (Some x)"
| "least_first f (x # xs) (Some b) = least_first f xs (Some (if f x < f b then x else b))"

lemma least_first_Some: "\<exists>x. least_first f xs (Some b) = Some x"
  by (induction xs arbitrary: b) auto

lemma least_first_min: "least_first f xs (Some b) = Some x \<Longrightarrow> first_min f (b # xs) x"
proof (induction xs arbitrary: b)
  case Nil
  then show ?case unfolding first_min_def by (intro exI[of _ "[]"]) simp
next
  case (Cons y xs)
  show ?case
  proof (cases "f y < f b")
    case True
    with Cons have "first_min f (y # xs) x" by simp
    then obtain u v where uv: "y # xs = u @ x # v" "\<forall>z \<in> set u. f x < f z" "\<forall>z \<in> set v. f x \<le> f z"
      by (auto simp: first_min_def)
    then have "f x \<le> f y" by (cases u) auto
    with True uv have "b # y # xs = (b # u) @ x # v \<and> (\<forall>z \<in> set (b # u). f x < f z) \<and> (\<forall>z \<in> set v. f x \<le> f z)"
      by auto
    then show ?thesis unfolding first_min_def by blast
  next
    case False
    with Cons have "first_min f (b # xs) x" by simp
    then obtain u v where uv: "b # xs = u @ x # v" "\<forall>z \<in> set u. f x < f z" "\<forall>z \<in> set v. f x \<le> f z"
      by (auto simp: first_min_def)
    show ?thesis
    proof (cases u)
      case Nil
      with uv False show ?thesis unfolding first_min_def by (intro exI[of _ "[]"] exI[of _ "y # v"]) auto
    next
      case (Cons w u')
      with uv have u: "w = b" "xs = u' @ x # v" "f x < f b" "\<forall>z \<in> set u'. f x < f z" by auto
      with False have "f x < f y" by simp
      with u uv(3) have "b # y # xs = (b # y # u') @ x # v \<and>
          (\<forall>z \<in> set (b # y # u'). f x < f z) \<and> (\<forall>z \<in> set v. f x \<le> f z)"
        by simp
      then show ?thesis unfolding first_min_def by blast
    qed
  qed
qed

lemma least_first_spec:
  "case least_first f xs None of None \<Rightarrow> xs = [] | Some x \<Rightarrow> first_min f xs x"
proof (cases xs)
  case (Cons y ys)
  obtain x where "least_first f ys (Some y) = Some x" using least_first_Some[of f ys y] by blast
  with Cons least_first_min[of f ys y x] show ?thesis by simp
qed simp

lemma pick_sent_least:
  "pick_sent h items s = least_first sent_at (filter (\<lambda>it. may_run h it \<and> sent_now it) items) s"
proof (induction items arbitrary: s)
  case (Cons it items)
  then show ?case by (cases s) auto
qed simp

lemma least_first_bottom: "(\<And>x. \<not> f x < f b) \<Longrightarrow> least_first f xs (Some b) = Some b"
  by (induction xs) auto

lemma pick_best_least:
  "pick_best h items b = least_first installOrderPriority (filter (may_run h) items) b"
proof (induction items arbitrary: b)
  case (Cons it items)
  have "installOrderPriority it = 0 \<Longrightarrow>
      least_first installOrderPriority (filter (may_run h) items) (Some it) = Some it"
    by (rule least_first_bottom) simp
  with Cons show ?case by (cases b) (auto simp: Let_def)
qed simp

lemma first_min_mem: "first_min f xs x \<Longrightarrow> x \<in> set xs"
  by (auto simp: first_min_def)

lemma nextPendingForHost_Some:
  assumes "nextPendingForHost items h = Some it"
  shows "it \<in> set items \<and> may_run h it"
proof -
  let ?S = "filter (\<lambda>it. may_run h it \<and> sent_now it) items"
  have "(case least_first sent_at ?S None of
           Some s \<Rightarrow> Some s
         | None \<Rightarrow> least_first installOrderPriority (filter (may_run h) items) None) = Some it"
    using assms unfolding nextPendingForHost_def pick_sent_least pick_best_least .
  then show ?thesis
    using least_first_spec[where f = sent_at and xs = ?S] least_first_spec[where f = installOrderPriority and xs = "filter (may_run h) items"]
    by (auto split: option.splits dest!: first_min_mem)
qed

section \<open>Lemmas on saving and loading\<close>

lemma persistItem_simps [simp]:
  "item_id (persistItem it) = item_id it" "item_status (persistItem it) = item_status it"
  "sourceKind (persistItem it) = sourceKind it" "uploadDone (persistItem it) = uploadDone it"
  "installJobId (persistItem it) = installJobId it" "isInstallWork (persistItem it) = isInstallWork it"
  "item_addr (persistItem it) = item_addr it"
  by (auto simp: persistItem_def Let_def isInstallWork_def split: option.splits InstallRequest.splits)

lemma persistItem_secrets:
  "orEmpty (rarPassword (persistItem it)) = []" "item_install (persistItem it) \<noteq> Some (ViaLink u m i)"
  by (auto simp: persistItem_def Let_def orEmpty_def split: option.splits InstallRequest.splits)

text \<open>The rows a saved queue brings back, and the status they come back with.\<close>

definition survives :: "QueueItem \<Rightarrow> bool" where
  "survives it =
     (sourceKind it \<noteq> KInstall \<or>
      (case item_install it of None \<Rightarrow> False | Some (ViaLink _ _ _) \<Rightarrow> False | _ \<Rightarrow> True))"

definition reload_status :: "QueueItem \<Rightarrow> QueueItemStatus" where
  "reload_status it =
     (if item_status it \<noteq> Running then item_status it
      else if \<not> isInstallWork it then Pending
      else if orEmpty (installJobId it) = [] then Failed
      else Running)"

lemma persistItem_install:
  "sourceKind it \<noteq> KInstall \<or> item_install (persistItem it) \<noteq> None \<longleftrightarrow> survives it"
  by (auto simp: persistItem_def survives_def Let_def split: option.splits InstallRequest.splits)

lemma sanitiseItem_simps [simp]:
  "item_id (sanitiseItem f now it) = item_id it" "sourceKind (sanitiseItem f now it) = sourceKind it"
  "item_install (sanitiseItem f now it) = item_install it" "uploadDone (sanitiseItem f now it) = uploadDone it"
  "rarPassword (sanitiseItem f now it) = rarPassword it" "item_addr (sanitiseItem f now it) = item_addr it"
  "isInstallWork (sanitiseItem f now it) = isInstallWork it"
  by (auto simp: sanitiseItem_def Let_def isInstallWork_def)

lemma sanitiseItem_status [simp]: "item_status (sanitiseItem f now it) = reload_status it"
  by (auto simp: sanitiseItem_def Let_def isInstallWork_def reload_status_def)

lemma hydrateItems_reload:
  "map g (hydrateItems f now (map persistItem items) []) =
     map (\<lambda>(i, it). g (sanitiseItem (f i) now (persistItem it))) (filter (survives \<circ> snd) (enumerate 0 items))"
proof -
  have "enumerate 0 (map persistItem items) = map (\<lambda>(i, it). (i, persistItem it)) (enumerate 0 items)"
    by (simp add: enumerate_eq_zip zip_map2)
  moreover have "filter (\<lambda>it. sourceKind it \<noteq> KInstall \<or> item_install it \<noteq> None)
      (map (\<lambda>(i, it). sanitiseItem (f i) now it) (map (\<lambda>(i, it). (i, persistItem it)) es)) =
      map (\<lambda>(i, it). sanitiseItem (f i) now (persistItem it)) (filter (survives \<circ> snd) es)" for es
    by (induction es) (auto simp: persistItem_install[symmetric])
  ultimately show ?thesis by (simp add: hydrateItems_def Let_def case_prod_unfold)
qed

lemma map_snd_filter_enumerate: "map (h \<circ> snd) (filter (P \<circ> snd) (enumerate n xs)) = map h (filter P xs)"
  by (induction xs arbitrary: n) auto

section \<open>Properties\<close>

text \<open>C13. The next row of a console: a row sent now goes first (the earliest click first); otherwise the
  row of the lowest install tier (base, then update, then DLC) that comes first in the list. Only a
  waiting row of that console that is not paused is ever picked, and none is picked only when there
  is no such row.\<close>

theorem next_pending_spec:
  "case nextPendingForHost items h of
     None \<Rightarrow> filter (may_run h) items = []
   | Some it \<Rightarrow>
       item_status it = Pending \<and> paused it = None \<and> hostOf (item_addr it) = h \<and>
       (if list_ex sent_now (filter (may_run h) items)
        then sent_now it \<and> first_min sent_at (filter sent_now (filter (may_run h) items)) it
        else first_min installOrderPriority (filter (may_run h) items) it)"
proof -
  let ?R = "filter (may_run h) items" and ?S = "filter (\<lambda>it. may_run h it \<and> sent_now it) items"
  have S: "filter sent_now ?R = ?S" by (simp add: conj_commute)
  note s = least_first_spec[where f = sent_at and xs = ?S] and b = least_first_spec[where f = installOrderPriority and xs = ?R]
  have n: "nextPendingForHost items h =
      (case least_first sent_at ?S None of
         Some s \<Rightarrow> Some s | None \<Rightarrow> least_first installOrderPriority ?R None)"
    unfolding nextPendingForHost_def pick_sent_least pick_best_least ..
  show ?thesis
  proof (cases "least_first sent_at ?S None")
    case (Some it)
    with s have f: "first_min sent_at ?S it" by simp
    then have "it \<in> set ?S" by (rule first_min_mem)
    with Some f n S show ?thesis by (auto simp: may_run_def list_ex_iff)
  next
    case None
    with s have S0: "?S = []" by simp
    then have none: "\<not> list_ex sent_now ?R" by (auto simp: list_ex_iff filter_empty_conv)
    show ?thesis
    proof (cases "least_first installOrderPriority ?R None")
      case None
      with b n S0 show ?thesis by simp
    next
      case (Some it)
      with b have f: "first_min installOrderPriority ?R it" by simp
      then have "it \<in> set ?R" by (rule first_min_mem)
      with Some f n S0 none show ?thesis by (auto simp: may_run_def)
    qed
  qed
qed


end
