(* ===== verification/Queue_Store.thy ===== *)
theory Queue_Store
  imports Upload_Queue
begin

text \<open>
  The state and the actions of the upload queue's store (\<^verbatim>\<open>client/src/state/uploadQueue.ts\<close>, from
  \<^verbatim>\<open>useUploadQueueStore\<close> on). The store's fields and the closure's own maps (generation counters, run
  scopes, pending restarts, engine jobs) are one record. An action is a function on it: everything the
  code does before its first \<^verbatim>\<open>await\<close>. What happens after an await is another function, run later by
  the runner (theory \<open>Queue_Runner\<close>). What an action reads elsewhere (the clock, the settings, a
  console's power state, a fresh id) is an argument.

  Left out: saving (\<^verbatim>\<open>scheduleSave\<close>; what is saved is \<open>persistItem\<close>), notifications and log lines, the
  waiters of an install's outcome, and deleting leftovers on the console.
\<close>

section \<open>State\<close>

record run_scope =
  sc_installs :: bool
  sc_ids :: "string list"

record run_opts =
  installsOnly :: bool
  onlyIds :: "string list"
  unattended :: bool

definition no_opts :: run_opts where
  "no_opts = \<lparr>installsOnly = False, onlyIds = [], unattended = False\<rparr>"

text \<open>A restart waiting for its stopped job (\<^verbatim>\<open>PendingRestart\<close>, with the console it is for).\<close>

record pending_restart =
  pr_host :: string
  pr_gen :: "nat option"
  pr_again :: "run_opts option"

text \<open>Where a console's run waits. The row is the one it picked, as it was then; \<open>RunOne\<close> has the number of
  recovery attempts and whether this run's upload is done (only then can an upload's run succeed).\<close>

datatype pc =
    Holding
  | Preflight
  | AwaitInstall
  | AwaitHold (pc_row: QueueItem)
  | Settling (pc_row: QueueItem)
  | RunOne (pc_row: QueueItem) nat bool
  | Backoff (pc_row: QueueItem) nat thrown
  | Healing (pc_row: QueueItem) nat

record run_loop =
  l_host :: string
  l_gen :: nat
  l_pc :: pc
  l_jobsRun :: nat
  l_unattended :: bool

record queue_state =
  items :: "QueueItem list"
  continueOnFailure :: bool
  runningHosts :: "string list"
  limitedHosts :: "string list"
  genCounter :: nat
  hostGen :: "string \<rightharpoonup> nat"
  runScope :: "string \<rightharpoonup> run_scope"
  wholeQueueStarted :: "string list"
  stoppingHosts :: "string \<rightharpoonup> nat"
  restarts :: "(nat \<times> pending_restart) list"
  runningJobByHost :: "string \<rightharpoonup> string"
  installInFlight :: "string \<rightharpoonup> string"
  reattaching :: "string list"
  cancelledJobs :: "string list"
  loops :: "run_loop list"

text \<open>What the code reads elsewhere at a moment: the time, two settings, and the consoles asleep.\<close>

record queue_env =
  now_ms :: int
  autoResume :: bool
  queueAutoStart :: bool
  asleep_hosts :: "string list"

definition hostAsleep :: "queue_env \<Rightarrow> string \<Rightarrow> bool" where
  "hostAsleep env addr \<longleftrightarrow>
     (let h = hostOf addr in (if h = [] then ''_'' else h) \<in> set (asleep_hosts env))"

abbreviation patch :: "string \<Rightarrow> (QueueItem \<Rightarrow> QueueItem) \<Rightarrow> queue_state \<Rightarrow> queue_state" where
  "patch i f st \<equiv> st\<lparr>items := patchItem item_id (items st) i f\<rparr>"

abbreviation find_row :: "queue_state \<Rightarrow> string \<Rightarrow> QueueItem option" where
  "find_row st i \<equiv> List.find (\<lambda>it. item_id it = i) (items st)"

section \<open>Runs and their scope\<close>

definition markLimited :: "string \<Rightarrow> bool \<Rightarrow> queue_state \<Rightarrow> queue_state" where
  "markLimited h on st =
     (if (h \<in> set (limitedHosts st)) = on then st
      else st\<lparr>limitedHosts := (if on then limitedHosts st @ [h] else removeAll h (limitedHosts st))\<rparr>)"

definition inScope :: "queue_state \<Rightarrow> string \<Rightarrow> QueueItem \<Rightarrow> bool" where
  "inScope st h it =
     (case runScope st h of
        None \<Rightarrow> True
      | Some scope \<Rightarrow> (sc_installs scope \<and> sourceKind it = KInstall) \<or> item_id it \<in> set (sc_ids scope))"

definition pickPending :: "queue_state \<Rightarrow> string \<Rightarrow> QueueItem option" where
  "pickPending st h =
     nextPendingForHost
       (filter (\<lambda>it. item_id it \<notin> set (reattaching st) \<and> inScope st h it) (items st)) h"

definition widen :: "run_opts \<Rightarrow> run_scope \<Rightarrow> run_scope" where
  "widen opts scope =
     \<lparr>sc_installs = sc_installs scope \<or> installsOnly opts,
      sc_ids = fold List.insert (onlyIds opts) (sc_ids scope)\<rparr>"

definition limited_opts :: "run_opts \<Rightarrow> bool" where
  "limited_opts opts \<longleftrightarrow> installsOnly opts \<or> onlyIds opts \<noteq> []"

text \<open>\<^verbatim>\<open>startHost\<close> on a console that already drains: the run's scope only.\<close>

definition startHost_running :: "string \<Rightarrow> run_opts \<Rightarrow> queue_state \<Rightarrow> queue_state" where
  "startHost_running h opts st =
     (if \<not> limited_opts opts then markLimited h False (st\<lparr>runScope := (runScope st)(h := None)\<rparr>)
      else (case runScope st h of
              Some scope \<Rightarrow> st\<lparr>runScope := (runScope st)(h \<mapsto> widen opts scope)\<rparr>
            | None \<Rightarrow> st))"

text \<open>And on an idle one: the scope, a new generation, the rows parked for a wake, and a loop that
  waits for the engine's own queue.\<close>

definition startHost_idle :: "string \<Rightarrow> run_opts \<Rightarrow> queue_state \<Rightarrow> queue_state" where
  "startHost_idle h opts st =
     (let st = markLimited h (limited_opts opts)
            (st\<lparr>runScope := (runScope st)
                 (h := if limited_opts opts then Some (widen opts \<lparr>sc_installs = False, sc_ids = []\<rparr>) else None)\<rparr>);
          gen = genCounter st + 1
      in st\<lparr>genCounter := gen,
            hostGen := (hostGen st)(h \<mapsto> gen),
            runningHosts := List.insert h (runningHosts st),
            items := map (\<lambda>it. if waitingForWake it \<and> hostOf (item_addr it) = h
                              then it\<lparr>waitingForWake := False\<rparr> else it) (items st),
            loops := loops st @ [\<lparr>l_host = h, l_gen = gen, l_pc = Holding, l_jobsRun = 0,
                                  l_unattended = unattended opts\<rparr>]\<rparr>)"

definition startHost :: "string \<Rightarrow> run_opts \<Rightarrow> queue_state \<Rightarrow> queue_state" where
  "startHost host opts st =
     (let h = hostOf host;
          st = (if \<not> limited_opts opts \<and> \<not> unattended opts
                then st\<lparr>wholeQueueStarted := List.insert h (wholeQueueStarted st)\<rparr> else st)
      in if h \<in> set (runningHosts st) then startHost_running h opts st
         else startHost_idle h opts st)"

definition cancelJobOf :: "string \<Rightarrow> queue_state \<Rightarrow> queue_state" where
  "cancelJobOf h st =
     (case runningJobByHost st h of
        None \<Rightarrow> st
      | Some jid \<Rightarrow>
          if jid = [] then st
          else st\<lparr>runningJobByHost := (runningJobByHost st)(h := None),
                  cancelledJobs := List.insert jid (cancelledJobs st)\<rparr>)"

definition stopHost :: "string \<Rightarrow> queue_state \<Rightarrow> queue_state" where
  "stopHost host st =
     (let h = hostOf host;
          st = cancelJobOf h st;
          st = st\<lparr>genCounter := genCounter st + 1, hostGen := (hostGen st)(h \<mapsto> genCounter st + 1)\<rparr>;
          st = markLimited h False st
      in st\<lparr>wholeQueueStarted := removeAll h (wholeQueueStarted st),
            runningHosts := removeAll h (runningHosts st),
            items := resetRunningToPending (items st)
                       (\<lambda>it. hostOf (item_addr it) = h \<and> \<not> isInstallWork it)\<rparr>)"

definition stop_all :: "queue_state \<Rightarrow> queue_state" where
  "stop_all st = (fold stopHost (runningHosts st) st)\<lparr>wholeQueueStarted := []\<rparr>"

text \<open>The consoles one pass of Start all starts. Later passes are the same, after the runs of the pass
  have ended, while \<open>continueOnFailure\<close> is set and the pass changed the number of waiting rows.\<close>

definition start_pass_hosts :: "queue_env \<Rightarrow> nat \<Rightarrow> queue_state \<Rightarrow> string list" where
  "start_pass_hosts env pass st =
     filter (\<lambda>h. h \<notin> set (runningHosts st) \<and> (pass = 0 \<or> \<not> hostAsleep env h))
       (distinctPendingHosts (items st) (pass = 0))"

definition start_pass :: "queue_env \<Rightarrow> nat \<Rightarrow> queue_state \<Rightarrow> queue_state" where
  "start_pass env pass st = fold (\<lambda>h. startHost h no_opts) (start_pass_hosts env pass st) st"

section \<open>Send now, pause, restart\<close>

definition settle_row :: "bool \<Rightarrow> string \<Rightarrow> QueueItem \<Rightarrow> QueueItem" where
  "settle_row live h it =
     (if hostOf (item_addr it) \<noteq> h then it
      else if sent_now it \<and> (item_status it = Done \<or> item_status it = Failed) then it\<lparr>sendNowAt := None\<rparr>
      else if \<not> live \<and> paused it = Some BySendNow \<and> item_status it = Pending then it\<lparr>paused := None\<rparr>
      else it)"

definition settle_live :: "QueueItem list \<Rightarrow> string \<Rightarrow> bool" where
  "settle_live its h \<longleftrightarrow>
     list_ex (\<lambda>it. hostOf (item_addr it) = h \<and> sent_now it \<and> paused it = None \<and>
                   (item_status it = Pending \<or> item_status it = Running)) its"

text \<open>The ids put back in line: the rows of the second branch.\<close>

definition settle_resumed :: "QueueItem list \<Rightarrow> string \<Rightarrow> string list" where
  "settle_resumed its h =
     (if settle_live its h then []
      else map item_id
             (filter (\<lambda>it. hostOf (item_addr it) = h \<and>
                           \<not> (sent_now it \<and> (item_status it = Done \<or> item_status it = Failed)) \<and>
                           paused it = Some BySendNow \<and> item_status it = Pending) its))"

definition settleSendNow :: "string \<Rightarrow> queue_state \<Rightarrow> queue_state" where
  "settleSendNow h st =
     (let resumed = settle_resumed (items st) h
      in st\<lparr>items := map (settle_row (settle_live (items st) h) h) (items st),
            runScope :=
              (case runScope st h of
                 None \<Rightarrow> runScope st
               | Some scope \<Rightarrow>
                   (runScope st)(h \<mapsto> scope\<lparr>sc_ids := fold List.insert resumed (sc_ids scope)\<rparr>))\<rparr>)"

text \<open>The token of a restart is its place in \<open>restarts\<close>, which never shrinks.\<close>

definition restartAfterStop :: "string \<Rightarrow> run_opts option \<Rightarrow> queue_state \<Rightarrow> queue_state" where
  "restartAfterStop h again st =
     (let t = length (restarts st)
      in st\<lparr>restarts := restarts st @ [(t, \<lparr>pr_host = h, pr_gen = hostGen st h, pr_again = again\<rparr>)],
            stoppingHosts := (stoppingHosts st)(h \<mapsto> t)\<rparr>)"

text \<open>Once the engine has let go of the stopped job.\<close>

definition restart_end :: "nat \<Rightarrow> queue_state \<Rightarrow> queue_state" where
  "restart_end t st =
     (case map_of (restarts st) t of
        None \<Rightarrow> st
      | Some p \<Rightarrow>
          (let h = pr_host p;
               st = (if stoppingHosts st h = Some t then st\<lparr>stoppingHosts := (stoppingHosts st)(h := None)\<rparr> else st)
           in if hostGen st h \<noteq> pr_gen p then st
              else if nextPendingForHost (items st) h \<noteq> None
                then startHost h (case pr_again p of None \<Rightarrow> no_opts | Some a \<Rightarrow> a) st
                else st))"

definition join_ids :: "string \<Rightarrow> pending_restart \<Rightarrow> pending_restart" where
  "join_ids i p =
     (case pr_again p of
        None \<Rightarrow> p
      | Some a \<Rightarrow>
          if i \<in> set (onlyIds a) then p else p\<lparr>pr_again := Some (a\<lparr>onlyIds := onlyIds a @ [i]\<rparr>)\<rparr>)"

definition joinPendingRestart :: "string \<Rightarrow> string \<Rightarrow> queue_state \<Rightarrow> bool \<times> queue_state" where
  "joinPendingRestart h i st =
     (case stoppingHosts st h of
        None \<Rightarrow> (False, st)
      | Some t \<Rightarrow>
          (case map_of (restarts st) t of
             None \<Rightarrow> (False, st)
           | Some p \<Rightarrow>
               if hostGen st h \<noteq> pr_gen p then (False, st)
               else (True, st\<lparr>restarts := map (\<lambda>(k, q). (k, if k = t then join_ids i q else q)) (restarts st)\<rparr>)))"

definition scope_opts :: "run_scope \<Rightarrow> string list \<Rightarrow> run_opts" where
  "scope_opts scope ids =
     \<lparr>installsOnly = sc_installs scope, onlyIds = sc_ids scope @ ids, unattended = False\<rparr>"

definition pauseRunning :: "QueueItem \<Rightarrow> paused_by \<Rightarrow> string list \<Rightarrow> queue_state \<Rightarrow> queue_state" where
  "pauseRunning item why alsoIds st =
     (let h = hostOf (item_addr item);
          scope = runScope st h;
          st1 = patch (item_id item) (\<lambda>it. it\<lparr>paused := Some why\<rparr>) (stopHost h st);
          resumed = (if why = ByUser then settle_resumed (items st1) h else []);
          st2 = (if why = ByUser then settleSendNow h st1 else st1)
      in restartAfterStop h (map_option (\<lambda>s. scope_opts s (alsoIds @ resumed)) scope) st2)"

definition pauseItem :: "string \<Rightarrow> queue_state \<Rightarrow> queue_state" where
  "pauseItem i st =
     (case find_row st i of
        Some item \<Rightarrow> if canPauseItem item then pauseRunning item ByUser [] st else st
      | None \<Rightarrow> st)"

definition resumeItem :: "string \<Rightarrow> queue_state \<Rightarrow> queue_state" where
  "resumeItem i st =
     (case find_row st i of
        None \<Rightarrow> st
      | Some item \<Rightarrow>
          if item_status item \<noteq> Pending \<or> paused item = None then st
          else let h = hostOf (item_addr item);
                   (joined, st') = joinPendingRestart h i (patch i (\<lambda>it. it\<lparr>paused := None\<rparr>) st)
               in if joined then st' else startHost h (no_opts\<lparr>onlyIds := [i]\<rparr>) st')"

definition sendNow :: "queue_env \<Rightarrow> string \<Rightarrow> queue_state \<Rightarrow> queue_state" where
  "sendNow env i st =
     (case find_row st i of
        None \<Rightarrow> st
      | Some item \<Rightarrow>
          if item_status item \<noteq> Pending \<or> paused item \<noteq> None then st
          else let h = hostOf (item_addr item);
                   stamp = fold max (map (\<lambda>it. sent_at it + 1) (items st)) (now_ms env);
                   st1 = patch i (\<lambda>it. it\<lparr>sendNowAt := Some stamp\<rparr>) st
               in (case List.find (\<lambda>it. item_status it = Running \<and> hostOf (item_addr it) = h) (items st1) of
                     Some running \<Rightarrow>
                       if canPauseItem running \<and> \<not> sent_now running
                       then pauseRunning running BySendNow [i] st1
                       else (let (joined, st2) = joinPendingRestart h i st1
                             in if joined then st2 else startHost h (no_opts\<lparr>onlyIds := [i]\<rparr>) st2)
                   | None \<Rightarrow>
                       (let (joined, st2) = joinPendingRestart h i st1
                        in if joined then st2 else startHost h (no_opts\<lparr>onlyIds := [i]\<rparr>) st2)))"

definition restartItem :: "string \<Rightarrow> queue_state \<Rightarrow> queue_state" where
  "restartItem i st =
     (case find_row st i of
        None \<Rightarrow> st
      | Some item \<Rightarrow>
          if item_status item \<noteq> Running \<or> sourceKind item = KInstall then st
          else let h = hostOf (item_addr item)
               in restartAfterStop h (map_option (\<lambda>s. scope_opts s [i]) (runScope st h)) (stopHost h st))"

section \<open>Adding, removing, ordering\<close>

record AddQueueItem =
  add_sourceKind :: QueueSourceKind
  add_sourcePath :: string
  add_displayName :: string
  add_resolvedDest :: string
  add_addr :: string
  add_fromConsole :: "string option"
  add_route :: "item_route option"
  add_directAddr :: "string option"
  add_strategy :: UploadStrategy
  add_reconcileMode :: ReconcileMode
  add_excludes :: "string list"
  add_rarPassword :: "string option"
  add_mountAfterUpload :: bool
  add_mountReadOnly :: bool
  add_registerAfterUpload :: bool
  add_contentId :: "string option"
  add_category :: "string option"
  add_estimatedBytes :: "int option"
  add_installAfterUpload :: "bool option"
  add_deletePkgAfterInstall :: "bool option"
  add_install :: "InstallRequest option"
  add_deleteSourceAfterUpload :: bool
  add_adopt :: "item_adopt option"
  add_txIdHex :: "string option"

text \<open>\<open>newId\<close> and \<open>freshTx\<close> are the ids the code generates.\<close>

definition new_row :: "string \<Rightarrow> string \<Rightarrow> int \<Rightarrow> AddQueueItem \<Rightarrow> QueueItem" where
  "new_row newId freshTx now input =
     \<lparr>item_id = newId, sourceKind = add_sourceKind input, sourcePath = add_sourcePath input,
      displayName = add_displayName input, resolvedDest = add_resolvedDest input,
      item_addr = add_addr input, fromConsole = add_fromConsole input, item_route = add_route input,
      directAddr = add_directAddr input, adopt = add_adopt input, strategy = add_strategy input,
      reconcileMode = add_reconcileMode input, excludes = add_excludes input,
      rarPassword = add_rarPassword input, mountAfterUpload = add_mountAfterUpload input,
      mountReadOnly = add_mountReadOnly input, registerAfterUpload = add_registerAfterUpload input,
      contentId = add_contentId input, item_category = add_category input,
      item_install = add_install input, fallbackToUpload = False,
      installAfterUpload = add_installAfterUpload input,
      deletePkgAfterInstall = add_deletePkgAfterInstall input, installPhase = None, installPct = None,
      installProgress = None, installNote = None, installJobId = None, stopping = False,
      deleteSourceAfterUpload = add_deleteSourceAfterUpload input, installedTitle = None,
      txIdHex = (if orEmpty (add_txIdHex input) \<noteq> [] then orEmpty (add_txIdHex input) else freshTx),
      item_status = Pending, interrupted = False, paused = None, sendNowAt = None, uploadDone = False,
      waitingForWake = False, waitingForEngineQueue = False, stalledForMs = None, verifying = None,
      bytesSent = 0, resumedBytes = 0, totalBytes = 0,
      estimatedBytes = (case add_estimatedBytes input of None \<Rightarrow> 0 | Some n \<Rightarrow> n), bytesPerSec = 0,
      filesFinalized = 0, filesFinalizingTotal = 0, item_live = None, jobId = None, attachJobId = None,
      mountedAt = None, registeredAs = None, mountWarnings = [], recovering = False,
      recoverAttempt = 0, item_error = None, errorReason = None, errorDetail = None, addedAt = now,
      startedAt = None, completedAt = None\<rparr>"

definition add_item :: "string \<Rightarrow> string \<Rightarrow> int \<Rightarrow> AddQueueItem \<Rightarrow> queue_state \<Rightarrow> queue_state" where
  "add_item newId freshTx now input st = st\<lparr>items := items st @ [new_row newId freshTx now input]\<rparr>"

definition startAdded :: "queue_env \<Rightarrow> string \<Rightarrow> queue_state \<Rightarrow> queue_state" where
  "startAdded env host st = (if queueAutoStart env then startHost (hostOf host) no_opts st else st)"

definition install_input :: "EnqueueInstallInput \<Rightarrow> AddQueueItem" where
  "install_input input =
     \<lparr>add_sourceKind = KInstall, add_sourcePath = installKey (in_request input),
      add_displayName = in_displayName input, add_resolvedDest = [],
      add_addr = consoleAddr (hostOf (in_host input)), add_fromConsole = None, add_route = None,
      add_directAddr = None, add_strategy = Overwrite, add_reconcileMode = Fast, add_excludes = [],
      add_rarPassword = None, add_mountAfterUpload = False, add_mountReadOnly = True,
      add_registerAfterUpload = False, add_contentId = in_contentId input,
      add_category = in_category input, add_estimatedBytes = Some (knownSize (in_sizeBytes input)),
      add_installAfterUpload = None, add_deletePkgAfterInstall = None,
      add_install = Some (in_request input), add_deleteSourceAfterUpload = False, add_adopt = None,
      add_txIdHex = None\<rparr>"

text \<open>The id of the row the caller waits for, and the state.\<close>

definition enqueueInstall ::
  "queue_env \<Rightarrow> string \<Rightarrow> string \<Rightarrow> EnqueueInstallInput \<Rightarrow> queue_state \<Rightarrow> string \<times> queue_state" where
  "enqueueInstall env newId freshTx input st =
     (case List.find (\<lambda>it. sameInstall it input) (items st) of
        Some existing \<Rightarrow> (item_id existing, st)
      | None \<Rightarrow>
          (newId, startAdded env (hostOf (in_host input))
                    (add_item newId freshTx (now_ms env) (install_input input) st)))"

definition remove_item :: "string \<Rightarrow> queue_state \<Rightarrow> queue_state" where
  "remove_item i st =
     (let st' = st\<lparr>items := removeItem item_id (items st) i\<rparr>
      in (case find_row st i of
            None \<Rightarrow> st'
          | Some removed \<Rightarrow> settleSendNow (hostOf (item_addr removed)) st'))"

definition noteSourceSize :: "string \<Rightarrow> rat \<Rightarrow> queue_state \<Rightarrow> queue_state" where
  "noteSourceSize i bytes st =
     (let size = knownSize (Some bytes) in
      if size = 0 then st
      else (case find_row st i of
              None \<Rightarrow> st
            | Some it \<Rightarrow>
                if item_status it \<noteq> Pending \<or> estimatedBytes it > 0 then st
                else patch i (\<lambda>it. it\<lparr>estimatedBytes := size\<rparr>) st))"

definition moveUp :: "string \<Rightarrow> queue_state \<Rightarrow> queue_state" where
  "moveUp i st = st\<lparr>items := moveItemUpWithinGroup item_id (items st) i moveGroupOf\<rparr>"

definition moveDown :: "string \<Rightarrow> queue_state \<Rightarrow> queue_state" where
  "moveDown i st = st\<lparr>items := moveItemDownWithinGroup item_id (items st) i moveGroupOf\<rparr>"

definition moveTo :: "string \<Rightarrow> string \<Rightarrow> queue_state \<Rightarrow> queue_state" where
  "moveTo i t st = st\<lparr>items := moveItemToWithinGroup item_id (items st) i t moveGroupOf\<rparr>"

definition setContinueOnFailure :: "bool \<Rightarrow> queue_state \<Rightarrow> queue_state" where
  "setContinueOnFailure b st = st\<lparr>continueOnFailure := b\<rparr>"

section \<open>Cancelling, clearing, retrying\<close>

text \<open>\<^verbatim>\<open>cancelItem\<close>. A running install only gets its mark here; \<open>cancel_install_stop\<close> (no job id turned
  up) and \<open>cancel_install_end\<close> are what its asynchronous part does later.\<close>

definition cancelItem :: "string \<Rightarrow> queue_state \<Rightarrow> queue_state" where
  "cancelItem i st =
     (case find_row st i of
        None \<Rightarrow> st
      | Some item \<Rightarrow>
          (let h = hostOf (item_addr item) in
           if isInstallWork item \<and> item_status item = Running then
             (if stopping item then st else patch i (\<lambda>it. it\<lparr>stopping := True\<rparr>) st)
           else if item_status item \<noteq> Running then
             settleSendNow h (st\<lparr>items := removeItem item_id (items st) i\<rparr>)
           else
             (let drained = h \<in> set (runningHosts st);
                  st1 = stopHost h st;
                  st2 = settleSendNow h (st1\<lparr>items := removeItem item_id (items st1) i\<rparr>)
              in if drained then restartAfterStop h None st2 else st2)))"

definition cancel_install_stop :: "QueueItem \<Rightarrow> queue_state \<Rightarrow> queue_state" where
  "cancel_install_stop item st = stopHost (hostOf (item_addr item)) st"

definition cancel_install_end :: "QueueItem \<Rightarrow> bool \<Rightarrow> bool \<Rightarrow> queue_state \<Rightarrow> queue_state" where
  "cancel_install_end item hadJob stopFailed st =
     (case find_row st (item_id item) of
        Some after \<Rightarrow>
          if item_status after = Running then
            patch (item_id item)
              (\<lambda>it. it\<lparr>stopping := False,
                       installNote := Some (if stopFailed then ''The stop did not go through''
                                            else ''This install has not stopped yet'')\<rparr>) st
          else (let st1 = st\<lparr>items := removeItem item_id (items st) (item_id item)\<rparr>;
                    h = hostOf (item_addr item)
                in if \<not> hadJob \<and> nextPendingForHost (items st1) h \<noteq> None then startHost h no_opts st1 else st1)
      | None \<Rightarrow>
          (let h = hostOf (item_addr item)
           in if \<not> hadJob \<and> nextPendingForHost (items st) h \<noteq> None then startHost h no_opts st else st))"

text \<open>\<open>host\<close> empty is \<^verbatim>\<open>clear()\<close> with none: every console.\<close>

definition of_host :: "string \<Rightarrow> QueueItem \<Rightarrow> bool" where
  "of_host host it \<longleftrightarrow> host = [] \<or> hostOf (item_addr it) = hostOf host"

definition clear_host :: "string \<Rightarrow> queue_state \<Rightarrow> queue_state" where
  "clear_host rhost st =
     cancelJobOf rhost
       (st\<lparr>genCounter := genCounter st + 1, hostGen := (hostGen st)(rhost \<mapsto> genCounter st + 1),
           runningHosts := removeAll rhost (runningHosts st)\<rparr>)"

definition clear_queue :: "string \<Rightarrow> queue_state \<Rightarrow> queue_state" where
  "clear_queue host st =
     (let cleared = filter (of_host host) (items st);
          keptOfMine = filter (\<lambda>it. isInstallWork it \<and> item_status it = Running) cleared;
          keep = filter (\<lambda>it. \<not> of_host host it \<or> it \<in> set keptOfMine) (items st);
          st' = fold clear_host (filter (\<lambda>r. host = [] \<or> r = hostOf host) (runningHosts st)) st
      in st'\<lparr>items := keep\<rparr>)"

definition retry_failed_row :: "QueueItem \<Rightarrow> QueueItem" where
  "retry_failed_row it =
     (if sourceKind it = KInstall \<and> installPhase it \<noteq> None
      then it\<lparr>item_status := Pending, installPhase := None, installPct := None, installProgress := None,
              installNote := None, fallbackToUpload := False\<rparr>
      else it\<lparr>item_status := Pending\<rparr>)"

definition retryFailed :: "queue_env \<Rightarrow> string \<Rightarrow> queue_state \<Rightarrow> queue_state" where
  "retryFailed env host st =
     (let st' = st\<lparr>items := map (\<lambda>it. if \<not> of_host host it \<or> item_status it \<noteq> Failed then it
                                     else retry_failed_row it) (items st)\<rparr>
      in if host \<noteq> [] then startHost (hostOf host) no_opts st' else start_pass env 0 st')"

definition retryItem :: "string \<Rightarrow> queue_state \<Rightarrow> bool \<times> queue_state" where
  "retryItem i st =
     (case find_row st i of
        None \<Rightarrow> (False, st)
      | Some item \<Rightarrow>
          if item_status item \<noteq> Failed then (False, st)
          else (True, st\<lparr>items := map (\<lambda>c. if item_id c = i then retryPatch c else c) (items st)\<rparr>))"

definition retry_install_row :: "QueueItem \<Rightarrow> QueueItem" where
  "retry_install_row it =
     it\<lparr>item_status := Pending, item_error := None, errorReason := None, errorDetail := None,
        installPhase := None, installPct := None, installProgress := None, installNote := None,
        fallbackToUpload := False, completedAt := None\<rparr>"

definition retryInstall :: "string \<Rightarrow> queue_state \<Rightarrow> queue_state" where
  "retryInstall i st =
     (case find_row st i of
        None \<Rightarrow> st
      | Some it \<Rightarrow>
          if sourceKind it \<noteq> KInstall \<or> item_status it \<noteq> Failed then st
          else startHost (hostOf (item_addr it)) no_opts (patch i retry_install_row st))"

definition retryWithPassword :: "string \<Rightarrow> string \<Rightarrow> queue_state \<Rightarrow> bool \<times> queue_state" where
  "retryWithPassword i password st =
     (case find_row st i of
        None \<Rightarrow> (False, st)
      | Some item \<Rightarrow>
          if password = [] \<or> item_status item \<noteq> Failed \<or>
             rarPasswordProblem (errorReason item) (item_error item) = None then (False, st)
          else let st1 = st\<lparr>items := map (\<lambda>c. if item_id c = i then c\<lparr>rarPassword := Some password\<rparr> else c) (items st)\<rparr>;
                   (retried, st2) = retryItem i st1
               in if retried then (True, startHost (hostOf (item_addr item)) no_opts st2) else (False, st2))"

text \<open>\<open>freshTx\<close> is the new id; the partial file is deleted on the console first.\<close>

definition discardPartial :: "string \<Rightarrow> string \<Rightarrow> queue_state \<Rightarrow> queue_state" where
  "discardPartial freshTx i st =
     (case find_row st i of
        None \<Rightarrow> st
      | Some item \<Rightarrow>
          if partialUploadPath item = None then st
          else st\<lparr>items := map (\<lambda>c. if item_id c = i then c\<lparr>txIdHex := freshTx\<rparr> else c) (items st)\<rparr>)"

definition resumeFailedRecoverable :: "queue_env \<Rightarrow> string \<Rightarrow> queue_state \<Rightarrow> nat \<times> queue_state" where
  "resumeFailedRecoverable env host st =
     (if \<not> autoResume env then (0, st)
      else let h = hostOf host;
               candidates = filter (\<lambda>it. hostOf (item_addr it) = h \<and> canResumeUnattended it) (items st);
               (ids, st1) = fold (\<lambda>it (ids, s). let (retried, s') = retryItem (item_id it) s
                                                in (if retried then ids @ [item_id it] else ids, s'))
                              candidates ([], st);
               ids = ids @ map item_id
                 (filter (\<lambda>it. hostOf (item_addr it) = h \<and> item_status it = Pending \<and> waitingForWake it) (items st1));
               opts = (if h \<in> set (wholeQueueStarted st1) then no_opts\<lparr>unattended := True\<rparr>
                       else \<lparr>installsOnly = False, onlyIds = ids, unattended = True\<rparr>)
           in (length ids, if ids \<noteq> [] then startHost host opts st1 else st1))"

end
