(* ===== verification/Queue_Runner.thy ===== *)
theory Queue_Runner
  imports Queue_Store Paths
begin

text \<open>
  The runner of the upload queue: the drain loops of \<^verbatim>\<open>startHost\<close> and \<^verbatim>\<open>runDrainLoop\<close>
  (\<^verbatim>\<open>client/src/state/uploadQueue.ts\<close>), one per console, interleaved with each other and with the
  user's actions at every \<^verbatim>\<open>await\<close>. A loop is a record with the place it waits at; a definition below
  is the code from one await to the next. What an awaited call returns (the engine, the console) is an
  argument. \<open>qstep\<close> is one such piece or one action of the store; reachable states are all the
  interleavings.

  The lemmas are an inductive invariant (\<open>q_inv\<close>, through the prelude's \<open>invariant_system\<close>): a console
  is marked running exactly while one loop of it is live, and every row that is sending bytes belongs
  to the live loop of its console. Not modelled: the election between browser tabs (a tab that loses
  it drops its loops) and loading the queue while loops run.
\<close>

section \<open>A loop and its end\<close>

definition loop_live :: "queue_state \<Rightarrow> run_loop \<Rightarrow> bool" where
  "loop_live st l \<longleftrightarrow> hostGen st (l_host l) = Some (l_gen l)"

definition set_loop :: "run_loop \<Rightarrow> (run_loop \<Rightarrow> run_loop) \<Rightarrow> queue_state \<Rightarrow> queue_state" where
  "set_loop l f st = st\<lparr>loops := map (\<lambda>k. if l_gen k = l_gen l then f k else k) (loops st)\<rparr>"

abbreviation set_pc :: "run_loop \<Rightarrow> pc \<Rightarrow> queue_state \<Rightarrow> queue_state" where
  "set_pc l p \<equiv> set_loop l (\<lambda>k. k\<lparr>l_pc := p\<rparr>)"

text \<open>The \<^verbatim>\<open>finally\<close> of \<^verbatim>\<open>startHost\<close> (the standby call after it is \<open>shouldRestAfterRun\<close>'s decision).\<close>

definition end_loop :: "run_loop \<Rightarrow> queue_state \<Rightarrow> queue_state" where
  "end_loop l st =
     (let h = l_host l;
          st1 = (if loop_live st l
                 then markLimited h False (st\<lparr>runningHosts := removeAll h (runningHosts st)\<rparr>) else st);
          st2 = (if loop_live st l \<and> nextPendingForHost (items st) h = None
                 then st1\<lparr>wholeQueueStarted := removeAll h (wholeQueueStarted st1)\<rparr> else st1)
      in st2\<lparr>loops := filter (\<lambda>k. l_gen k \<noteq> l_gen l) (loops st2)\<rparr>)"

section \<open>Picking a row\<close>

definition drain_top :: "run_loop \<Rightarrow> queue_state \<Rightarrow> queue_state" where
  "drain_top l st =
     (if \<not> loop_live st l then end_loop l st
      else (case pickPending st (l_host l) of
              None \<Rightarrow> end_loop l st
            | Some next \<Rightarrow>
                (let nh = hostOf (item_addr next) in
                 if installInFlight st nh \<noteq> None \<and>
                    list_ex (\<lambda>it. isInstallWork it \<and> item_status it = Running \<and> hostOf (item_addr it) = nh) (items st)
                 then set_pc l AwaitInstall st
                 else set_pc l (AwaitHold next) st)))"

text \<open>After the engine's queue gave the console up: the payload check, unless it is needless.\<close>

definition after_holding :: "queue_env \<Rightarrow> run_loop \<Rightarrow> queue_state \<Rightarrow> queue_state" where
  "after_holding env l st =
     (if \<not> loop_live st l then end_loop l st
      else (case pickPending st (l_host l) of
              Some head \<Rightarrow>
                if orEmpty (attachJobId head) = [] \<and> \<not> hostAsleep env (item_addr head)
                then set_pc l Preflight st else drain_top l st
            | None \<Rightarrow> drain_top l st))"

definition after_wait :: "run_loop \<Rightarrow> queue_state \<Rightarrow> queue_state" where
  "after_wait l st = (if \<not> loop_live st l then end_loop l st else drain_top l st)"

definition parked_row :: "QueueItem \<Rightarrow> QueueItem" where
  "parked_row it =
     it\<lparr>item_status := Pending, waitingForWake := True, interrupted := True, item_live := None,
        bytesPerSec := 0, stalledForMs := None, recovering := False, recoverAttempt := 0,
        item_error := None, errorReason := None, errorDetail := None\<rparr>"

definition parkForWake :: "QueueItem \<Rightarrow> queue_state \<Rightarrow> queue_state" where
  "parkForWake item st = patch (item_id item) parked_row st"

definition started_row :: "int \<Rightarrow> QueueItem \<Rightarrow> QueueItem" where
  "started_row now it =
     it\<lparr>item_status := Running, interrupted := False, waitingForWake := False, uploadDone := False,
        stalledForMs := None, installJobId := None, installPhase := None, installPct := None,
        installProgress := None, installNote := None, startedAt := Some now, bytesSent := 0,
        resumedBytes := 0, totalBytes := 0, bytesPerSec := 0, recovering := False, recoverAttempt := 0,
        item_error := None, errorReason := None, errorDetail := None\<rparr>"

definition start_row :: "queue_env \<Rightarrow> run_loop \<Rightarrow> QueueItem \<Rightarrow> queue_state \<Rightarrow> queue_state" where
  "start_row env l next st =
     set_loop l (\<lambda>k. k\<lparr>l_pc := RunOne next 0 False, l_jobsRun := l_jobsRun k + 1\<rparr>)
       (patch (item_id next) (started_row (now_ms env)) st)"

definition after_hold :: "queue_env \<Rightarrow> run_loop \<Rightarrow> QueueItem \<Rightarrow> queue_state \<Rightarrow> queue_state" where
  "after_hold env l next st =
     (if \<not> loop_live st l then end_loop l st
      else if sourceKind next \<noteq> KInstall \<and> orEmpty (attachJobId next) = [] \<and> autoResume env \<and>
              hostAsleep env (item_addr next)
        then end_loop l (parkForWake next st)
      else if l_jobsRun l > 0 then set_pc l (Settling next) st
      else start_row env l next st)"

definition after_settle :: "queue_env \<Rightarrow> run_loop \<Rightarrow> QueueItem \<Rightarrow> queue_state \<Rightarrow> queue_state" where
  "after_settle env l next st =
     (if \<not> loop_live st l then end_loop l st else start_row env l next st)"

section \<open>The end of a row's run\<close>

record run_result =
  r_bytesSent :: int
  r_bytesPerSec :: rat
  r_mountedAt :: "string option"
  r_mountWarnings :: "string list"
  r_registeredAs :: "string option"
  r_installPhase :: "install_phase option"
  r_installedTitle :: "string option"
  r_installNote :: "string option"
  r_live :: "JobLive option"

definition done_row :: "int \<Rightarrow> run_result \<Rightarrow> QueueItem \<Rightarrow> QueueItem" where
  "done_row now r it =
     it\<lparr>item_status := Done, bytesSent := r_bytesSent r, bytesPerSec := r_bytesPerSec r,
        mountedAt := r_mountedAt r, mountWarnings := r_mountWarnings r, registeredAs := r_registeredAs r,
        installPhase := r_installPhase r, installedTitle := r_installedTitle r,
        installNote := r_installNote r, item_live := r_live r, recovering := False,
        recoverAttempt := 0, completedAt := Some now\<rparr>"

definition run_success :: "queue_env \<Rightarrow> run_loop \<Rightarrow> QueueItem \<Rightarrow> run_result \<Rightarrow> queue_state \<Rightarrow> queue_state" where
  "run_success env l next r st =
     drain_top l (settleSendNow (hostOf (item_addr next))
       (patch (item_id next) (done_row (now_ms env) r) st))"

definition offer_upload :: "thrown \<Rightarrow> QueueItem \<Rightarrow> bool" where
  "offer_upload e next =
     (case e of
        InstallItemError r \<Rightarrow>
          stagedFallbackRecommended r \<and>
          (case item_install next of Some (ViaStream source) \<Rightarrow> \<not> isRemotePath source | _ \<Rightarrow> False)
      | _ \<Rightarrow> False)"

definition failed_row :: "int \<Rightarrow> bool \<Rightarrow> QueueItem \<Rightarrow> thrown \<Rightarrow> QueueItem \<Rightarrow> QueueItem" where
  "failed_row now isInstall next e it =
     (let it1 = it\<lparr>item_status := Failed, item_live := None, bytesPerSec := 0, recovering := False,
                   recoverAttempt := 0, item_error := Some (thrown_message e),
                   errorReason := thrown_reason e, errorDetail := thrown_detail e,
                   completedAt := Some now\<rparr>;
          it2 = (if isInstall then it1\<lparr>installPhase := Some PhaseError, installNote := None\<rparr> else it1)
      in if isInstall \<and> offer_upload e next then it2\<lparr>fallbackToUpload := True\<rparr> else it2)"

definition recovering_row :: "nat \<Rightarrow> thrown \<Rightarrow> QueueItem \<Rightarrow> QueueItem" where
  "recovering_row n e it =
     it\<lparr>item_status := Running, recovering := True, recoverAttempt := n, bytesPerSec := 0,
        item_error := Some (thrown_message e), errorReason := thrown_reason e,
        errorDetail := thrown_detail e\<rparr>"

definition can_recover :: "queue_env \<Rightarrow> bool \<Rightarrow> nat \<Rightarrow> thrown \<Rightarrow> bool" where
  "can_recover env isInstall n e \<longleftrightarrow>
     \<not> isInstall \<and> autoResume env \<and> n < MAX_AUTO_RECOVER_ATTEMPTS \<and>
     shouldAutoRecover (isPostUploadStep e) (thrown_reason e) (Some (thrown_message e)) True"

text \<open>The terminal failure: the row, the rows a Send now paused, then the next row or the end.\<close>

definition run_failed :: "queue_env \<Rightarrow> run_loop \<Rightarrow> QueueItem \<Rightarrow> bool \<Rightarrow> thrown \<Rightarrow> queue_state \<Rightarrow> queue_state" where
  "run_failed env l next isInstall e st =
     (let nh = hostOf (item_addr next);
          st1 = settleSendNow nh
                  (patch (item_id next) (failed_row (now_ms env) isInstall next e) st)
      in if \<not> loop_live st1 l then end_loop l st1
         else if \<not> isInstall \<and> \<not> sent_now next \<and> \<not> shouldContinueAfterFailure (continueOnFailure st1) then
           end_loop l
             (if (case find_row st1 (item_id next) of None \<Rightarrow> True | Some f \<Rightarrow> \<not> canResumeUnattended f)
              then st1\<lparr>wholeQueueStarted := removeAll nh (wholeQueueStarted st1)\<rparr> else st1)
         else drain_top l st1)"

definition run_threw ::
  "queue_env \<Rightarrow> run_loop \<Rightarrow> QueueItem \<Rightarrow> nat \<Rightarrow> thrown \<Rightarrow> queue_state \<Rightarrow> queue_state" where
  "run_threw env l next n e st =
     (let current = (case find_row st (item_id next) of Some it \<Rightarrow> it | None \<Rightarrow> next);
          isInstall = isInstallWork current
      in if \<not> loop_live st l \<and> \<not> isInstall then end_loop l st
         else if \<not> isInstall \<and> autoResume env \<and>
                 shouldParkForWake (isPostUploadStep e) (thrown_reason e) (Some (thrown_message e))
                   (hostAsleep env (item_addr next))
           then end_loop l (parkForWake next st)
         else if \<not> can_recover env isInstall n e then run_failed env l next isInstall e st
         else set_pc l (Backoff next (n + 1) e)
                (patch (item_id next) (recovering_row (n + 1) e) st))"

definition after_backoff :: "queue_env \<Rightarrow> run_loop \<Rightarrow> QueueItem \<Rightarrow> nat \<Rightarrow> queue_state \<Rightarrow> queue_state" where
  "after_backoff env l next n st =
     (if \<not> loop_live st l then end_loop l st
      else if hostAsleep env (item_addr next) then end_loop l (parkForWake next st)
      else set_pc l (Healing next n) st)"

definition retried_row :: "QueueItem \<Rightarrow> QueueItem" where
  "retried_row it =
     it\<lparr>item_status := Running, recovering := False, bytesSent := 0, resumedBytes := 0, totalBytes := 0,
        bytesPerSec := 0, item_error := None, errorReason := None, errorDetail := None\<rparr>"

definition after_healing :: "run_loop \<Rightarrow> QueueItem \<Rightarrow> nat \<Rightarrow> queue_state \<Rightarrow> queue_state" where
  "after_healing l next n st =
     (if \<not> loop_live st l then end_loop l st
      else set_pc l (RunOne next n False) (patch (item_id next) retried_row st))"

text \<open>Whether the recovery re-sends the helper by force.\<close>

definition forceRedeploy :: "thrown \<Rightarrow> bool" where
  "forceRedeploy e \<longleftrightarrow>
     \<not> (case e of OtherError _ lost \<Rightarrow> lost | _ \<Rightarrow> False) \<and> recoveryResendsHelper (thrown_reason e)"

section \<open>What a running row does to the store\<close>

text \<open>The engine answered a start: a loop that is no longer live cancels the job.\<close>

definition job_started :: "run_loop \<Rightarrow> QueueItem \<Rightarrow> string \<Rightarrow> queue_state \<Rightarrow> queue_state" where
  "job_started l item job st =
     (if \<not> loop_live st l then st\<lparr>cancelledJobs := List.insert job (cancelledJobs st)\<rparr>
      else patch (item_id item) (\<lambda>it. it\<lparr>jobId := Some job\<rparr>)
             (st\<lparr>runningJobByHost := (runningJobByHost st)(hostOf (item_addr item) \<mapsto> job)\<rparr>))"

definition STALL_AFTER_MS :: int where
  "STALL_AFTER_MS = 90000"

record job_snap =
  snap_bytes :: int
  snap_resumed :: int
  snap_total :: int
  snap_files :: int
  snap_files_total :: int
  snap_verify :: "(int \<times> int) option"
  snap_live :: "JobLive option"
  snap_dest :: "string option"

definition progress_row :: "int \<Rightarrow> int \<Rightarrow> rat \<Rightarrow> job_snap \<Rightarrow> QueueItem \<Rightarrow> QueueItem" where
  "progress_row now lastMoveAt rate snap it =
     (let sending = snap_total snap > 0 \<and> snap_bytes snap < snap_total snap
      in it\<lparr>bytesSent := snap_bytes snap, resumedBytes := snap_resumed snap, totalBytes := snap_total snap,
            bytesPerSec := rate,
            stalledForMs := (if sending \<and> now - lastMoveAt \<ge> STALL_AFTER_MS then Some (now - lastMoveAt) else None),
            verifying := (case snap_verify snap of Some (d, t) \<Rightarrow> if t > 0 then Some (d, t) else None | None \<Rightarrow> None),
            filesFinalized := snap_files snap, filesFinalizingTotal := snap_files_total snap,
            item_live := snap_live snap\<rparr>)"

text \<open>The job is done: the row is past its upload, and a package's install is in flight from here on.\<close>

definition upload_done_row :: "job_snap \<Rightarrow> bool \<Rightarrow> QueueItem \<Rightarrow> QueueItem" where
  "upload_done_row snap installs it =
     (let it1 = it\<lparr>uploadDone := True, resolvedDest := (case snap_dest snap of Some d \<Rightarrow> if d = [] then resolvedDest it else d
                                                           | None \<Rightarrow> resolvedDest it)\<rparr>
      in if installs then it1\<lparr>installPhase := Some Installing, installPct := Some 0\<rparr> else it1)"

definition upload_done :: "QueueItem \<Rightarrow> job_snap \<Rightarrow> queue_state \<Rightarrow> queue_state" where
  "upload_done item snap st =
     (let installs = (sourceKind item = KPkg \<and> installAfterUpload item \<noteq> Some False);
          st1 = patch (item_id item) (upload_done_row snap installs) st
      in if installs then st1\<lparr>installInFlight := (installInFlight st1)(hostOf (item_addr item) \<mapsto> item_id item)\<rparr>
         else st1)"

definition install_begin :: "QueueItem \<Rightarrow> queue_state \<Rightarrow> queue_state" where
  "install_begin item st =
     (let st1 = patch (item_id item)
            (\<lambda>it. it\<lparr>installPhase := Some Installing, installPct := Some 0, installProgress := None,
                     installNote := None\<rparr>) st
      in st1\<lparr>installInFlight := (installInFlight st1)(hostOf (item_addr item) \<mapsto> item_id item)\<rparr>)"

definition install_progress_row :: "rat \<Rightarrow> InstallProgress option \<Rightarrow> QueueItem \<Rightarrow> QueueItem" where
  "install_progress_row pct progress it =
     it\<lparr>installPct := Some pct, installNote := None,
        installProgress := (case progress of None \<Rightarrow> installProgress it | Some p \<Rightarrow> Some p)\<rparr>"

definition install_over :: "QueueItem \<Rightarrow> queue_state \<Rightarrow> queue_state" where
  "install_over item st =
     (let h = hostOf (item_addr item)
      in if installInFlight st h = Some (item_id item)
         then st\<lparr>installInFlight := (installInFlight st)(h := None)\<rparr> else st)"

text \<open>An install found again after a reload.\<close>

definition found_row :: "int \<Rightarrow> InstallResult option \<Rightarrow> QueueItem \<Rightarrow> QueueItem" where
  "found_row now r it =
     (case r of
        Some res \<Rightarrow>
          if ok res then
            it\<lparr>item_status := Done, installPhase := Some (if mayNotLaunch res then PhaseWarn else PhaseDone),
               installPct := Some 100, item_error := None,
               installNote := Some ''Finished while the page was closed.'', completedAt := Some now\<rparr>
          else it\<lparr>item_status := Failed, installPhase := Some PhaseError, item_error := message res,
                  installNote := None, completedAt := Some now\<rparr>
      | None \<Rightarrow>
          it\<lparr>item_status := Failed, installPhase := Some PhaseError,
             item_error := Some ''Interrupted when the app closed.'', installNote := None,
             completedAt := Some now\<rparr>)"

definition reattach_found :: "string \<Rightarrow> string option \<Rightarrow> queue_state \<Rightarrow> queue_state" where
  "reattach_found i job st =
     (let st1 = (case job of None \<Rightarrow> st | Some j \<Rightarrow> patch i (\<lambda>it. it\<lparr>attachJobId := Some j\<rparr>) st)
      in st1\<lparr>reattaching := removeAll i (reattaching st1)\<rparr>)"

section \<open>The invariant\<close>

fun pc_rows :: "pc \<Rightarrow> QueueItem list" where
  "pc_rows Holding = []"
| "pc_rows Preflight = []"
| "pc_rows AwaitInstall = []"
| "pc_rows (AwaitHold n) = [n]"
| "pc_rows (Settling n) = [n]"
| "pc_rows (RunOne n _ _) = [n]"
| "pc_rows (Backoff n _ _) = [n]"
| "pc_rows (Healing n _) = [n]"

text \<open>The row a loop is running.\<close>

fun cur_id :: "pc \<Rightarrow> string option" where
  "cur_id (RunOne n _ _) = Some (item_id n)"
| "cur_id (Backoff n _ _) = Some (item_id n)"
| "cur_id (Healing n _) = Some (item_id n)"
| "cur_id _ = None"

text \<open>A row that is sending bytes: running, and not an install.\<close>

definition sending :: "QueueItem \<Rightarrow> bool" where
  "sending it \<longleftrightarrow> item_status it = Running \<and> \<not> isInstallWork it"

definition live_at :: "(string \<rightharpoonup> nat) \<Rightarrow> run_loop \<Rightarrow> bool" where
  "live_at hg l \<longleftrightarrow> hg (l_host l) = Some (l_gen l)"

definition gens_ok :: "run_loop list \<Rightarrow> (string \<rightharpoonup> nat) \<Rightarrow> nat \<Rightarrow> bool" where
  "gens_ok ls hg gc \<longleftrightarrow>
     distinct (map l_gen ls) \<and> (\<forall>l \<in> set ls. l_gen l \<le> gc) \<and> (\<forall>h g. hg h = Some g \<longrightarrow> g \<le> gc)"

definition marks_ok :: "run_loop list \<Rightarrow> (string \<rightharpoonup> nat) \<Rightarrow> string list \<Rightarrow> bool" where
  "marks_ok ls hg rh \<longleftrightarrow> (\<forall>h. h \<in> set rh \<longleftrightarrow> (\<exists>l \<in> set ls. l_host l = h \<and> live_at hg l))"

definition picks_ok :: "QueueItem list \<Rightarrow> run_loop list \<Rightarrow> bool" where
  "picks_ok its ls \<longleftrightarrow>
     (\<forall>l \<in> set ls. \<forall>n \<in> set (pc_rows (l_pc l)).
        hostOf (item_addr n) = l_host l \<and>
        (\<forall>it \<in> set its. item_id it = item_id n \<longrightarrow> item_addr it = item_addr n))"

definition sends_ok :: "QueueItem list \<Rightarrow> run_loop list \<Rightarrow> (string \<rightharpoonup> nat) \<Rightarrow> bool" where
  "sends_ok its ls hg \<longleftrightarrow>
     (\<forall>it \<in> set its. sending it \<longrightarrow>
        (\<exists>l \<in> set ls. l_host l = hostOf (item_addr it) \<and> live_at hg l \<and> cur_id (l_pc l) = Some (item_id it)))"

text \<open>A row a live loop has picked but not started is not running; one whose failed upload it is
  recovering is not an install.\<close>

fun calm :: "pc \<Rightarrow> QueueItem \<Rightarrow> bool" where
  "calm (AwaitHold n) it = (item_id it = item_id n \<longrightarrow> item_status it \<noteq> Running)"
| "calm (Settling n) it = (item_id it = item_id n \<longrightarrow> item_status it \<noteq> Running)"
| "calm (Backoff n _ _) it = (item_id it = item_id n \<longrightarrow> \<not> isInstallWork it)"
| "calm (Healing n _) it = (item_id it = item_id n \<longrightarrow> \<not> isInstallWork it)"
| "calm _ it = True"

definition waits_ok :: "QueueItem list \<Rightarrow> run_loop list \<Rightarrow> (string \<rightharpoonup> nat) \<Rightarrow> bool" where
  "waits_ok its ls hg \<longleftrightarrow> (\<forall>l \<in> set ls. live_at hg l \<longrightarrow> (\<forall>it \<in> set its. calm (l_pc l) it))"

definition q_inv :: "queue_state \<Rightarrow> bool" where
  "q_inv st \<longleftrightarrow>
     distinct (map item_id (items st)) \<and> gens_ok (loops st) (hostGen st) (genCounter st) \<and>
     marks_ok (loops st) (hostGen st) (runningHosts st) \<and> picks_ok (items st) (loops st) \<and>
     sends_ok (items st) (loops st) (hostGen st) \<and> waits_ok (items st) (loops st) (hostGen st)"

lemmas inv_defs = q_inv_def gens_ok_def marks_ok_def picks_ok_def sends_ok_def waits_ok_def

lemma loop_live_at: "loop_live st l = live_at (hostGen st) l"
  by (simp add: loop_live_def live_at_def)

text \<open>One live loop per console.\<close>

lemma live_unique:
  assumes "gens_ok ls hg gc" "l \<in> set ls" "k \<in> set ls" "live_at hg l" "live_at hg k" "l_host l = l_host k"
  shows "l = k"
proof -
  have "l_gen l = l_gen k" using assms(4-6) by (simp add: live_at_def)
  with assms(1-3) show ?thesis unfolding gens_ok_def by (auto simp: distinct_map inj_on_def)
qed

subsection \<open>Rows that stay, stop sending or go\<close>

text \<open>\<open>x\<close> is \<open>it\<close> changed so that nothing starts: the same row of the same console, sending, running or
  an install only if \<open>it\<close> was.\<close>

definition tamer :: "QueueItem \<Rightarrow> QueueItem \<Rightarrow> bool" where
  "tamer it x \<longleftrightarrow>
     item_id x = item_id it \<and> item_addr x = item_addr it \<and> (sending x \<longrightarrow> sending it) \<and>
     (item_status x = Running \<longrightarrow> item_status it = Running) \<and> (isInstallWork x \<longrightarrow> isInstallWork it)"

definition keeps :: "(QueueItem \<Rightarrow> QueueItem) \<Rightarrow> bool" where
  "keeps f \<longleftrightarrow> (\<forall>it. tamer it (f it))"

lemma tamer_calm: "tamer it x \<Longrightarrow> calm p it \<Longrightarrow> calm p x"
  by (cases p) (auto simp: tamer_def)

lemma tamer_refl [simp]: "tamer it it"
  by (simp add: tamer_def)

lemma inv_rows:
  assumes "q_inv st" "distinct (map item_id its)"
    and "\<forall>x \<in> set its. \<exists>it \<in> set (items st). tamer it x"
  shows "q_inv (st\<lparr>items := its\<rparr>)"
proof -
  have "picks_ok its (loops st)"
    unfolding picks_ok_def
  proof (intro ballI conjI impI)
    fix l n assume l: "l \<in> set (loops st)" "n \<in> set (pc_rows (l_pc l))"
    with assms(1) show "hostOf (item_addr n) = l_host l" by (simp add: inv_defs)
    fix x assume "x \<in> set its" "item_id x = item_id n"
    with assms(3) obtain it where "it \<in> set (items st)" "item_id it = item_id n" "item_addr x = item_addr it"
      by (metis tamer_def)
    with l assms(1) show "item_addr x = item_addr n" unfolding q_inv_def picks_ok_def by metis
  qed
  moreover have "sends_ok its (loops st) (hostGen st)"
    unfolding sends_ok_def
  proof (intro ballI impI)
    fix x assume x: "x \<in> set its" "sending x"
    with assms(3) obtain it where it: "it \<in> set (items st)" "item_id x = item_id it" "item_addr x = item_addr it" "sending it"
      unfolding tamer_def by blast
    with assms(1) show "\<exists>l \<in> set (loops st). l_host l = hostOf (item_addr x) \<and> live_at (hostGen st) l \<and>
        cur_id (l_pc l) = Some (item_id x)"
      unfolding q_inv_def sends_ok_def by metis
  qed
  moreover have "waits_ok its (loops st) (hostGen st)"
    using assms(1,3) tamer_calm unfolding q_inv_def waits_ok_def by blast
  ultimately show ?thesis using assms(1,2) by (simp add: q_inv_def)
qed

lemma inv_map:
  assumes "q_inv st" "keeps f"
  shows "q_inv (st\<lparr>items := map f (items st)\<rparr>)"
proof (rule inv_rows[OF assms(1)])
  have "map item_id (map f (items st)) = map item_id (items st)" using assms(2) by (simp add: keeps_def tamer_def)
  with assms(1) show "distinct (map item_id (map f (items st)))" by (simp only: q_inv_def)
  show "\<forall>x \<in> set (map f (items st)). \<exists>it \<in> set (items st). tamer it x"
    using assms(2) by (auto simp: keeps_def)
qed

lemma keeps_if: "keeps f \<Longrightarrow> keeps (\<lambda>it. if P it then f it else it)"
  by (simp add: keeps_def)

lemma inv_patch: "q_inv st \<Longrightarrow> keeps f \<Longrightarrow> q_inv (patch i f st)"
  using inv_map[OF _ keeps_if[of f "\<lambda>it. item_id it = i"]] by (simp add: patchItem_map q_inv_def)

lemma inv_subset:
  "q_inv st \<Longrightarrow> distinct (map item_id its) \<Longrightarrow> set its \<subseteq> set (items st) \<Longrightarrow> q_inv (st\<lparr>items := its\<rparr>)"
  by (rule inv_rows) (auto intro: tamer_refl)

lemma inv_filter: "q_inv st \<Longrightarrow> q_inv (st\<lparr>items := filter P (items st)\<rparr>)"
  by (rule inv_subset) (auto simp: q_inv_def distinct_map_filter)

lemma inv_removeItem: "q_inv st \<Longrightarrow> q_inv (st\<lparr>items := removeItem item_id (items st) i\<rparr>)"
  using inv_filter[of st "\<lambda>it. item_id it \<noteq> i"] by (simp add: removeItem_filter q_inv_def)

lemmas row_defs = sending_def isInstallWork_def keeps_def tamer_def

lemma keeps_rows:
  "keeps reset_row" "keeps parked_row" "keeps retryPatch" "keeps retry_failed_row" "keeps retry_install_row"
  "keeps (settle_row live h)" "keeps (done_row now r)" "keeps (failed_row now b n e)"
  "keeps (progress_row now moved rate snap)"
  "keeps (install_progress_row pct p)" "keeps (found_row now res)"
  by (simp_all add: row_defs reset_row_def parked_row_def retryPatch_def retry_cleared_def
      retry_failed_row_def retry_install_row_def settle_row_def done_row_def failed_row_def
      progress_row_def install_progress_row_def found_row_def Let_def split: option.split)

subsection \<open>Actions\<close>

lemma inv_irrelevant [simp]:
  "q_inv (st\<lparr>runScope := a\<rparr>) = q_inv st" "q_inv (st\<lparr>limitedHosts := b\<rparr>) = q_inv st"
  "q_inv (st\<lparr>wholeQueueStarted := c\<rparr>) = q_inv st" "q_inv (st\<lparr>stoppingHosts := d\<rparr>) = q_inv st"
  "q_inv (st\<lparr>restarts := e\<rparr>) = q_inv st" "q_inv (st\<lparr>runningJobByHost := f\<rparr>) = q_inv st"
  "q_inv (st\<lparr>installInFlight := g\<rparr>) = q_inv st" "q_inv (st\<lparr>reattaching := h\<rparr>) = q_inv st"
  "q_inv (st\<lparr>cancelledJobs := i\<rparr>) = q_inv st" "q_inv (st\<lparr>continueOnFailure := j\<rparr>) = q_inv st"
  by (simp_all add: q_inv_def)

lemma inv_markLimited [simp]: "q_inv (markLimited h b st) = q_inv st"
  by (simp add: markLimited_def)

lemma inv_cancelJobOf [simp]: "q_inv (cancelJobOf h st) = q_inv st"
  by (simp add: cancelJobOf_def q_inv_def split: option.split)

lemma markLimited_sel [simp]:
  "items (markLimited h b st) = items st" "loops (markLimited h b st) = loops st"
  "hostGen (markLimited h b st) = hostGen st" "genCounter (markLimited h b st) = genCounter st"
  "runningHosts (markLimited h b st) = runningHosts st"
  by (simp_all add: markLimited_def)

lemma cancelJobOf_sel [simp]:
  "items (cancelJobOf h st) = items st" "loops (cancelJobOf h st) = loops st"
  "hostGen (cancelJobOf h st) = hostGen st" "genCounter (cancelJobOf h st) = genCounter st"
  "runningHosts (cancelJobOf h st) = runningHosts st"
  by (simp_all add: cancelJobOf_def split: option.split)

text \<open>Re-stamping a console's generation, with none of its rows sending: its loop is no longer live.\<close>

definition restamp :: "string \<Rightarrow> queue_state \<Rightarrow> queue_state" where
  "restamp h st =
     st\<lparr>genCounter := genCounter st + 1, hostGen := (hostGen st)(h \<mapsto> genCounter st + 1),
        runningHosts := removeAll h (runningHosts st)\<rparr>"

lemma live_at_restamp:
  assumes "gens_ok ls hg gc" "l \<in> set ls"
  shows "live_at (hg(h \<mapsto> gc + 1)) l \<longleftrightarrow> live_at hg l \<and> l_host l \<noteq> h"
  using assms by (auto simp: live_at_def gens_ok_def)

lemma inv_restamp:
  assumes inv: "q_inv st" and quiet: "\<forall>it \<in> set (items st). hostOf (item_addr it) = h \<longrightarrow> \<not> sending it"
  shows "q_inv (restamp h st)"
proof -
  have g: "gens_ok (loops st) (hostGen st) (genCounter st)" using inv by (simp add: q_inv_def)
  note live = live_at_restamp[OF g, of _ h]
  have "gens_ok (loops st) ((hostGen st)(h \<mapsto> genCounter st + 1)) (genCounter st + 1)"
    using g by (auto simp: gens_ok_def le_Suc_eq)
  moreover have "marks_ok (loops st) ((hostGen st)(h \<mapsto> genCounter st + 1)) (removeAll h (runningHosts st))"
    using inv live by (auto simp: q_inv_def marks_ok_def)
  moreover have "sends_ok (items st) (loops st) ((hostGen st)(h \<mapsto> genCounter st + 1))"
    unfolding sends_ok_def
  proof (intro ballI impI)
    fix it assume it: "it \<in> set (items st)" "sending it"
    with inv obtain l where l: "l \<in> set (loops st)" "l_host l = hostOf (item_addr it)" "live_at (hostGen st) l"
        "cur_id (l_pc l) = Some (item_id it)"
      unfolding q_inv_def sends_ok_def by blast
    moreover have "l_host l \<noteq> h" using quiet it l(2) by auto
    ultimately show "\<exists>l \<in> set (loops st). l_host l = hostOf (item_addr it) \<and>
        live_at ((hostGen st)(h \<mapsto> genCounter st + 1)) l \<and> cur_id (l_pc l) = Some (item_id it)"
      using live by blast
  qed
  moreover have "waits_ok (items st) (loops st) ((hostGen st)(h \<mapsto> genCounter st + 1))"
    using inv live unfolding q_inv_def waits_ok_def by blast
  ultimately show ?thesis using inv by (simp add: restamp_def q_inv_def)
qed

lemma keeps_reset_match: "keeps (\<lambda>it. if item_status it = Running \<and> P it then reset_row it else it)"
  using keeps_rows(1) by (rule keeps_if)

lemma inv_stopHost:
  assumes "q_inv st"
  shows "q_inv (stopHost host st)"
proof -
  let ?h = "hostOf host"
  let ?f = "\<lambda>it. if item_status it = Running \<and> hostOf (item_addr it) = ?h \<and> \<not> isInstallWork it then reset_row it else it"
  let ?st = "st\<lparr>items := map ?f (items st)\<rparr>"
  have "\<forall>it \<in> set (items ?st). hostOf (item_addr it) = ?h \<longrightarrow> \<not> sending it"
    by (auto simp: sending_def reset_row_def)
  with inv_map[OF assms keeps_reset_match] have "q_inv (restamp ?h ?st)" by (intro inv_restamp) auto
  then show ?thesis
    by (simp add: stopHost_def resetRunningToPending_def restamp_def Let_def q_inv_def)
qed

lemma inv_startHost_running [simp]: "q_inv (startHost_running h opts st) = q_inv st"
  by (simp add: startHost_running_def split: option.split)

lemma inv_new_loop:
  assumes inv: "q_inv st" and idle: "h \<notin> set (runningHosts st)"
  shows "q_inv (st\<lparr>genCounter := genCounter st + 1, hostGen := (hostGen st)(h \<mapsto> genCounter st + 1),
            runningHosts := List.insert h (runningHosts st),
            loops := loops st @ [\<lparr>l_host = h, l_gen = genCounter st + 1, l_pc = Holding, l_jobsRun = 0,
                                  l_unattended = u\<rparr>]\<rparr>)"
    (is "q_inv (_\<lparr>genCounter := _, hostGen := ?hg, runningHosts := _, loops := _ @ [?l]\<rparr>)")
proof -
  have g: "gens_ok (loops st) (hostGen st) (genCounter st)" using inv by (simp add: q_inv_def)
  note live = live_at_restamp[OF g, of _ h]
  have none: "\<not> live_at (hostGen st) l" if "l \<in> set (loops st)" "l_host l = h" for l
    using inv idle that by (auto simp: q_inv_def marks_ok_def)
  have "gens_ok (loops st @ [?l]) ?hg (genCounter st + 1)"
    using g by (force simp: gens_ok_def le_Suc_eq)
  moreover have "marks_ok (loops st @ [?l]) ?hg (List.insert h (runningHosts st))"
    using inv live none by (auto simp: q_inv_def marks_ok_def live_at_def)
  moreover have "picks_ok (items st) (loops st @ [?l])"
    using inv by (auto simp: q_inv_def picks_ok_def)
  moreover have "sends_ok (items st) (loops st @ [?l]) ?hg"
    using inv live none by (fastforce simp: q_inv_def sends_ok_def)
  moreover have "waits_ok (items st) (loops st @ [?l]) ?hg"
    using inv live none by (auto simp: q_inv_def waits_ok_def)
  ultimately show ?thesis using inv by (simp add: q_inv_def)
qed

lemma keeps_wake: "keeps (\<lambda>it. if waitingForWake it \<and> P it then it\<lparr>waitingForWake := False\<rparr> else it)"
  by (simp add: row_defs)

lemma inv_startHost_idle:
  assumes "q_inv st" "h \<notin> set (runningHosts st)"
  shows "q_inv (startHost_idle h opts st)"
proof -
  have "q_inv (st\<lparr>items := map (\<lambda>it. if waitingForWake it \<and> hostOf (item_addr it) = h
              then it\<lparr>waitingForWake := False\<rparr> else it) (items st)\<rparr>)"
    using assms(1) keeps_wake by (rule inv_map)
  from inv_new_loop[OF this, of h "unattended opts"] assms(2) show ?thesis
    by (simp add: startHost_idle_def Let_def q_inv_def)
qed

lemma inv_startHost: "q_inv st \<Longrightarrow> q_inv (startHost host opts st)"
  by (simp add: startHost_def Let_def inv_startHost_idle)

lemma inv_fold: "q_inv st \<Longrightarrow> (\<And>x s. q_inv s \<Longrightarrow> q_inv (f x s)) \<Longrightarrow> q_inv (fold f xs st)"
  by (induction xs arbitrary: st) auto

lemma inv_stop_all: "q_inv st \<Longrightarrow> q_inv (stop_all st)"
  by (simp add: stop_all_def inv_fold inv_stopHost)

lemma inv_start_pass: "q_inv st \<Longrightarrow> q_inv (start_pass env pass st)"
  unfolding start_pass_def by (rule inv_fold) (simp_all add: inv_startHost)

lemma inv_settleSendNow: "q_inv st \<Longrightarrow> q_inv (settleSendNow h st)"
  using inv_map[OF _ keeps_rows(6)] by (simp add: settleSendNow_def Let_def q_inv_def)

lemma inv_restartAfterStop [simp]: "q_inv (restartAfterStop h again st) = q_inv st"
  by (simp add: restartAfterStop_def Let_def)

lemma inv_restart_end: "q_inv st \<Longrightarrow> q_inv (restart_end t st)"
  by (simp add: restart_end_def Let_def inv_startHost split: option.split)

lemma inv_joinPendingRestart: "joinPendingRestart h i st = (b, st') \<Longrightarrow> q_inv st' = q_inv st"
  by (auto simp: joinPendingRestart_def split: option.splits if_splits)

lemma keeps_fields:
  "keeps (\<lambda>it. it\<lparr>paused := p\<rparr>)" "keeps (\<lambda>it. it\<lparr>sendNowAt := s\<rparr>)" "keeps (\<lambda>it. it\<lparr>estimatedBytes := n\<rparr>)"
  "keeps (\<lambda>it. it\<lparr>stopping := b\<rparr>)" "keeps (\<lambda>it. it\<lparr>stopping := b, installNote := t\<rparr>)"
  "keeps (\<lambda>it. it\<lparr>rarPassword := t\<rparr>)" "keeps (\<lambda>it. it\<lparr>txIdHex := x\<rparr>)" "keeps (\<lambda>it. it\<lparr>jobId := t\<rparr>)"
  "keeps (\<lambda>it. it\<lparr>attachJobId := t\<rparr>)" "keeps (\<lambda>it. it\<lparr>installNote := t\<rparr>)" "keeps (\<lambda>it. it\<lparr>installJobId := t\<rparr>)"
  "keeps (\<lambda>it. it\<lparr>installPhase := ph, installPct := q, installProgress := pr, installNote := t\<rparr>)"
  by (simp_all add: row_defs)

lemmas keeps_intros = keeps_rows keeps_fields keeps_if

lemma inv_pauseRunning: "q_inv st \<Longrightarrow> q_inv (pauseRunning item why ids st)"
  by (simp add: pauseRunning_def Let_def inv_settleSendNow inv_patch keeps_fields inv_stopHost)

lemma inv_pauseItem: "q_inv st \<Longrightarrow> q_inv (pauseItem i st)"
  by (simp add: pauseItem_def inv_pauseRunning split: option.split)

lemma inv_resumeItem: "q_inv st \<Longrightarrow> q_inv (resumeItem i st)"
  using inv_patch[of st "\<lambda>it. it\<lparr>paused := None\<rparr>" i]
  by (auto simp: resumeItem_def Let_def keeps_fields inv_startHost dest: inv_joinPendingRestart
      split: option.split prod.split)

lemma inv_sendNow: "q_inv st \<Longrightarrow> q_inv (sendNow env i st)"
  by (auto simp: sendNow_def Let_def keeps_fields inv_startHost inv_pauseRunning inv_patch
      dest: inv_joinPendingRestart split: option.split prod.split)

lemma inv_restartItem: "q_inv st \<Longrightarrow> q_inv (restartItem i st)"
  by (simp add: restartItem_def Let_def inv_stopHost split: option.split)

text \<open>An id is fresh when no row and no loop knows it.\<close>

definition fresh_id :: "string \<Rightarrow> queue_state \<Rightarrow> bool" where
  "fresh_id i st \<longleftrightarrow>
     i \<notin> item_id ` set (items st) \<and> (\<forall>l \<in> set (loops st). \<forall>n \<in> set (pc_rows (l_pc l)). item_id n \<noteq> i)"

lemma fresh_calm: "\<forall>n \<in> set (pc_rows p). item_id n \<noteq> item_id it \<Longrightarrow> calm p it"
  by (cases p) auto

lemma inv_add_item:
  assumes "q_inv st" "fresh_id newId st"
  shows "q_inv (add_item newId tx now input st)"
proof -
  have "item_id (new_row newId tx now input) = newId" "\<not> sending (new_row newId tx now input)"
    by (simp_all add: new_row_def sending_def)
  with assms show ?thesis
    by (auto simp: add_item_def fresh_id_def q_inv_def picks_ok_def sends_ok_def waits_ok_def fresh_calm)
qed

lemma inv_startAdded: "q_inv st \<Longrightarrow> q_inv (startAdded env h st)"
  by (simp add: startAdded_def inv_startHost)

lemma inv_enqueueInstall:
  "q_inv st \<Longrightarrow> fresh_id newId st \<Longrightarrow> q_inv (snd (enqueueInstall env newId tx input st))"
  by (simp add: enqueueInstall_def inv_startAdded inv_add_item split: option.split)

lemma inv_remove_item: "q_inv st \<Longrightarrow> q_inv (remove_item i st)"
  by (simp add: remove_item_def Let_def inv_settleSendNow inv_removeItem split: option.split)

lemma inv_noteSourceSize: "q_inv st \<Longrightarrow> q_inv (noteSourceSize i n st)"
  by (simp add: noteSourceSize_def Let_def inv_patch keeps_fields split: option.split)

lemma inv_moves: "q_inv st \<Longrightarrow> q_inv (moveUp i st)" "q_inv st \<Longrightarrow> q_inv (moveDown i st)"
  "q_inv st \<Longrightarrow> q_inv (moveTo i t st)"
  unfolding moveUp_def moveDown_def moveTo_def
  by (rule inv_subset; simp add: q_inv_def move_up.ids_stay_distinct move_down.ids_stay_distinct move_to.ids_stay_distinct)+

lemma inv_cancelItem: "q_inv st \<Longrightarrow> q_inv (cancelItem i st)"
  by (simp add: cancelItem_def Let_def inv_settleSendNow inv_removeItem inv_stopHost inv_patch keeps_fields
      split: option.split)

lemma inv_cancel_install_end: "q_inv st \<Longrightarrow> q_inv (cancel_install_end item b c st)"
  by (simp add: cancel_install_end_def Let_def inv_startHost inv_removeItem inv_patch keeps_fields split: option.split)

lemma clear_host_restamp: "clear_host h st = cancelJobOf h (restamp h st)"
  by (simp add: clear_host_def restamp_def)

lemma clear_host_sel [simp]: "items (clear_host h st) = items st"
  by (simp add: clear_host_def)

lemma clear_host_items: "(fold clear_host hs st)\<lparr>items := its\<rparr> = fold clear_host hs (st\<lparr>items := its\<rparr>)"
proof (induction hs arbitrary: st)
  case (Cons h hs)
  have "(clear_host h st)\<lparr>items := its\<rparr> = clear_host h (st\<lparr>items := its\<rparr>)"
    by (cases st) (simp add: clear_host_def cancelJobOf_def split: option.split)
  with Cons show ?case by simp
qed simp

lemma inv_fold_clear:
  "q_inv st \<Longrightarrow> \<forall>it \<in> set (items st). hostOf (item_addr it) \<in> set hs \<longrightarrow> \<not> sending it \<Longrightarrow> q_inv (fold clear_host hs st)"
proof (induction hs arbitrary: st)
  case (Cons h hs)
  have "q_inv (clear_host h st)"
    unfolding clear_host_restamp using inv_restamp[OF Cons.prems(1)] Cons.prems(2) by simp
  with Cons show ?case by simp
qed simp

lemma inv_clear_queue:
  assumes "q_inv st"
  shows "q_inv (clear_queue host st)"
proof -
  let ?P = "\<lambda>it. \<not> of_host host it \<or> it \<in> set (filter (\<lambda>it. isInstallWork it \<and> item_status it = Running) (filter (of_host host) (items st)))"
  let ?hs = "filter (\<lambda>r. host = [] \<or> r = hostOf host) (runningHosts st)"
  have "q_inv (fold clear_host ?hs (st\<lparr>items := filter ?P (items st)\<rparr>))"
    by (rule inv_fold_clear[OF inv_filter[OF assms]]) (auto simp: of_host_def sending_def)
  then show ?thesis by (simp only: clear_queue_def Let_def clear_host_items)
qed

lemma inv_retryFailed:
  assumes inv: "q_inv st"
  shows "q_inv (retryFailed env host st)"
proof -
  let ?f = "\<lambda>it. if \<not> of_host host it \<or> item_status it \<noteq> Failed then it else retry_failed_row it"
  have "keeps ?f" using keeps_rows(4) by (simp add: keeps_def)
  then have "q_inv (st\<lparr>items := map ?f (items st)\<rparr>)" by (rule inv_map[OF inv])
  then show ?thesis
    unfolding retryFailed_def Let_def by (auto simp only: inv_startHost inv_start_pass split: if_split)
qed

lemma inv_retryItem: "q_inv st \<Longrightarrow> q_inv (snd (retryItem i st))"
  using inv_map[OF _ keeps_if[OF keeps_rows(3)]] by (simp add: retryItem_def split: option.split)

lemma inv_retryInstall: "q_inv st \<Longrightarrow> q_inv (retryInstall i st)"
  by (simp add: retryInstall_def inv_startHost inv_patch keeps_rows split: option.split)

lemma inv_retryWithPassword: "q_inv st \<Longrightarrow> q_inv (snd (retryWithPassword i pw st))"
proof -
  assume "q_inv st"
  then have "q_inv (st\<lparr>items := map (\<lambda>c. if item_id c = i then c\<lparr>rarPassword := Some pw\<rparr> else c) (items st)\<rparr>)"
    by (intro inv_map keeps_intros)
  from inv_retryItem[OF this, of i] \<open>q_inv st\<close> show ?thesis
    by (auto simp: retryWithPassword_def Let_def inv_startHost split: option.split prod.split)
qed

lemma inv_discardPartial: "q_inv st \<Longrightarrow> q_inv (discardPartial tx i st)"
  by (simp add: discardPartial_def inv_map keeps_intros split: option.split)

lemma inv_resume_fold:
  "q_inv s \<Longrightarrow> q_inv (snd (fold (\<lambda>it (ids, s). let (retried, s') = retryItem (item_id it) s
       in (if retried then ids @ [item_id it] else ids, s')) cs (ids, s)))"
proof (induction cs arbitrary: ids s)
  case (Cons c cs)
  obtain b s' where r: "retryItem (item_id c) s = (b, s')" by fastforce
  with inv_retryItem[OF Cons.prems, of "item_id c"] have "q_inv s'" by simp
  with Cons.IH r show ?case by simp
qed simp

lemma inv_resumeFailedRecoverable:
  assumes "q_inv st"
  shows "q_inv (snd (resumeFailedRecoverable env host st))"
proof (cases "autoResume env")
  case True
  let ?cs = "filter (\<lambda>it. hostOf (item_addr it) = hostOf host \<and> canResumeUnattended it) (items st)"
  obtain ids s1 where f: "fold (\<lambda>it (ids, s). let (retried, s') = retryItem (item_id it) s
       in (if retried then ids @ [item_id it] else ids, s')) ?cs ([], st) = (ids, s1)" by fastforce
  have "q_inv s1" using inv_resume_fold[OF assms, of ?cs "[]"] unfolding f by simp
  then show ?thesis using True unfolding resumeFailedRecoverable_def Let_def f[unfolded Let_def]
    by (auto simp: inv_startHost)
qed (simp add: resumeFailedRecoverable_def assms)

subsection \<open>Loops\<close>

text \<open>A loop may leave its row: it is not live any more, or the row is not sending.\<close>

definition quiet :: "run_loop \<Rightarrow> queue_state \<Rightarrow> bool" where
  "quiet l st \<longleftrightarrow>
     (loop_live st l \<longrightarrow> (\<forall>it \<in> set (items st). cur_id (l_pc l) = Some (item_id it) \<longrightarrow> \<not> sending it))"

text \<open>The rows a loop holds are of its console and have the address they had.\<close>

definition holds :: "run_loop \<Rightarrow> QueueItem \<Rightarrow> queue_state \<Rightarrow> bool" where
  "holds l n st \<longleftrightarrow>
     hostOf (item_addr n) = l_host l \<and>
     (\<forall>it \<in> set (items st). item_id it = item_id n \<longrightarrow> item_addr it = item_addr n)"

lemma inv_holds: "q_inv st \<Longrightarrow> l \<in> set (loops st) \<Longrightarrow> n \<in> set (pc_rows (l_pc l)) \<Longrightarrow> holds l n st"
  by (simp add: q_inv_def picks_ok_def holds_def)

lemma same_gen:
  "gens_ok ls hg gc \<Longrightarrow> l \<in> set ls \<Longrightarrow> k \<in> set ls \<Longrightarrow> l_gen k = l_gen l \<Longrightarrow> k = l"
  by (auto simp: gens_ok_def distinct_map inj_on_def)

lemma inv_set_loop:
  assumes inv: "q_inv st" and l: "l \<in> set (loops st)"
    and f: "\<And>k. l_host (f k) = l_host k \<and> l_gen (f k) = l_gen k" "l_pc (f l) = p"
    and hold: "\<forall>n \<in> set (pc_rows p). holds l n st"
    and cur: "loop_live st l \<longrightarrow> (\<forall>it \<in> set (items st).
                sending it \<longrightarrow> cur_id (l_pc l) = Some (item_id it) \<longrightarrow> cur_id p = Some (item_id it))"
    and calm: "loop_live st l \<longrightarrow> (\<forall>it \<in> set (items st). calm p it)"
  shows "q_inv (set_loop l f st)"
proof -
  let ?F = "\<lambda>k. if l_gen k = l_gen l then f k else k"
  have g: "gens_ok (loops st) (hostGen st) (genCounter st)" using inv by (simp add: q_inv_def)
  have F: "l_host (?F k) = l_host k" "l_gen (?F k) = l_gen k" "live_at hg (?F k) = live_at hg k" for k hg
    using f(1) by (simp_all add: live_at_def)
  have same: "k = l" if "k \<in> set (loops st)" "l_gen k = l_gen l" for k using same_gen[OF g l that] .
  have "map l_gen (map ?F (loops st)) = map l_gen (loops st)" using F(2) by simp
  then have "gens_ok (map ?F (loops st)) (hostGen st) (genCounter st)"
    using g f(1) by (simp only: gens_ok_def) auto
  moreover have "marks_ok (map ?F (loops st)) (hostGen st) (runningHosts st)"
    using inv unfolding q_inv_def marks_ok_def set_map bex_simps F by blast
  moreover have "picks_ok (items st) (map ?F (loops st))"
    unfolding picks_ok_def
  proof
    fix k' assume "k' \<in> set (map ?F (loops st))"
    then obtain k where k: "k \<in> set (loops st)" "k' = ?F k" by auto
    show "\<forall>n \<in> set (pc_rows (l_pc k')). hostOf (item_addr n) = l_host k' \<and>
        (\<forall>it \<in> set (items st). item_id it = item_id n \<longrightarrow> item_addr it = item_addr n)"
    proof (cases "l_gen k = l_gen l")
      case True
      then have "k = l" using same k(1) by blast
      with hold f k show ?thesis by (simp add: holds_def)
    next
      case False
      with inv k show ?thesis by (simp add: q_inv_def picks_ok_def)
    qed
  qed
  moreover have "sends_ok (items st) (map ?F (loops st)) (hostGen st)"
    unfolding sends_ok_def
  proof (intro ballI impI)
    fix it assume it: "it \<in> set (items st)" "sending it"
    with inv obtain k where k: "k \<in> set (loops st)" "l_host k = hostOf (item_addr it)" "live_at (hostGen st) k"
        "cur_id (l_pc k) = Some (item_id it)"
      unfolding q_inv_def sends_ok_def by blast
    have "cur_id (l_pc (?F k)) = Some (item_id it)"
    proof (cases "l_gen k = l_gen l")
      case True
      then have "k = l" using same k(1) by blast
      with k it cur f(2) show ?thesis by (simp add: loop_live_at)
    qed (use k(4) in simp)
    with k F show "\<exists>l \<in> set (map ?F (loops st)). l_host l = hostOf (item_addr it) \<and>
        live_at (hostGen st) l \<and> cur_id (l_pc l) = Some (item_id it)"
      by (intro bexI[of _ "?F k"]) auto
  qed
  moreover have "waits_ok (items st) (map ?F (loops st)) (hostGen st)"
    unfolding waits_ok_def
  proof (intro ballI impI)
    fix k' it assume k': "k' \<in> set (map ?F (loops st))" "live_at (hostGen st) k'" "it \<in> set (items st)"
    then obtain k where k: "k \<in> set (loops st)" "k' = ?F k" by auto
    show "calm (l_pc k') it"
    proof (cases "l_gen k = l_gen l")
      case True
      then have "k = l" using same k(1) by blast
      with k k' f calm show ?thesis by (simp add: loop_live_at live_at_def)
    next
      case False
      with inv k k' show ?thesis by (auto simp: q_inv_def waits_ok_def)
    qed
  qed
  ultimately show ?thesis using inv by (simp add: set_loop_def q_inv_def)
qed

lemma inv_set_pc:
  assumes "q_inv st" "l \<in> set (loops st)" "\<forall>n \<in> set (pc_rows p). holds l n st" "quiet l st \<or> cur_id p = cur_id (l_pc l)"
    "loop_live st l \<longrightarrow> (\<forall>it \<in> set (items st). calm p it)"
  shows "q_inv (set_pc l p st)"
  by (rule inv_set_loop[OF assms(1,2), where p = p]) (use assms(3-5) in \<open>auto simp: quiet_def\<close>)

lemma inv_end_loop:
  assumes inv: "q_inv st" and l: "l \<in> set (loops st)" and q: "quiet l st"
  shows "q_inv (end_loop l st)"
proof -
  let ?ls = "filter (\<lambda>k. l_gen k \<noteq> l_gen l) (loops st)"
  let ?rh = "if loop_live st l then removeAll (l_host l) (runningHosts st) else runningHosts st"
  have g: "gens_ok (loops st) (hostGen st) (genCounter st)" using inv by (simp add: q_inv_def)
  note same = same_gen[OF g l] and uniq = live_unique[OF g]
  have "gens_ok ?ls (hostGen st) (genCounter st)"
    using g by (auto simp: gens_ok_def distinct_map_filter)
  moreover have "marks_ok ?ls (hostGen st) ?rh"
  proof -
    have "h \<in> set ?rh \<longleftrightarrow> (\<exists>k \<in> set ?ls. l_host k = h \<and> live_at (hostGen st) k)" for h
    proof -
      have m: "h \<in> set (runningHosts st) \<longleftrightarrow> (\<exists>k \<in> set (loops st). l_host k = h \<and> live_at (hostGen st) k)"
        using inv by (simp add: q_inv_def marks_ok_def)
      show ?thesis
      proof (cases "loop_live st l")
        case True
        then have "live_at (hostGen st) l" by (simp add: loop_live_at)
        then have u: "k = l" if "k \<in> set (loops st)" "live_at (hostGen st) k" "l_host k = l_host l" for k
          using uniq[OF l that(1)] that(2,3) by simp
        show ?thesis
        proof (cases "h = l_host l")
          case True
          with u \<open>loop_live st l\<close> show ?thesis by auto
        next
          case False
          with m same \<open>loop_live st l\<close> show ?thesis by auto
        qed
      next
        case False
        then have "\<not> live_at (hostGen st) l" by (simp add: loop_live_at)
        with m same False show ?thesis by auto
      qed
    qed
    then show ?thesis by (simp add: marks_ok_def)
  qed
  moreover have "picks_ok (items st) ?ls"
    using inv by (auto simp: q_inv_def picks_ok_def)
  moreover have "sends_ok (items st) ?ls (hostGen st)"
    unfolding sends_ok_def
  proof (intro ballI impI)
    fix it assume it: "it \<in> set (items st)" "sending it"
    with inv obtain k where k: "k \<in> set (loops st)" "l_host k = hostOf (item_addr it)" "live_at (hostGen st) k"
        "cur_id (l_pc k) = Some (item_id it)"
      unfolding q_inv_def sends_ok_def by blast
    moreover have "k \<noteq> l" using q it k by (auto simp: quiet_def loop_live_at)
    ultimately show "\<exists>l \<in> set ?ls. l_host l = hostOf (item_addr it) \<and> live_at (hostGen st) l \<and>
        cur_id (l_pc l) = Some (item_id it)"
      using same by auto
  qed
  moreover have "waits_ok (items st) ?ls (hostGen st)"
    using inv by (auto simp: q_inv_def waits_ok_def)
  ultimately show ?thesis using inv by (cases "loop_live st l") (simp_all add: end_loop_def Let_def q_inv_def)
qed

lemma pickPending_row:
  "pickPending st h = Some n \<Longrightarrow> n \<in> set (items st) \<and> hostOf (item_addr n) = h \<and> item_status n = Pending"
  unfolding pickPending_def by (auto dest!: nextPendingForHost_Some simp: may_run_def)

lemma row_unique:
  "distinct (map item_id its) \<Longrightarrow> a \<in> set its \<Longrightarrow> b \<in> set its \<Longrightarrow> item_id a = item_id b \<Longrightarrow> a = b"
  by (auto simp: distinct_map inj_on_def)

lemma picked_holds: "q_inv st \<Longrightarrow> pickPending st (l_host l) = Some n \<Longrightarrow> holds l n st"
  using pickPending_row[of st "l_host l" n] unfolding holds_def q_inv_def by (metis row_unique)

lemma picked_calm:
  assumes "q_inv st" "pickPending st (l_host l) = Some n" "it \<in> set (items st)"
  shows "calm (AwaitHold n) it"
proof -
  have "it = n" if "item_id it = item_id n"
    using row_unique[of "items st" it n] assms pickPending_row[OF assms(2)] that by (simp add: q_inv_def)
  then show ?thesis using pickPending_row[OF assms(2)] by auto
qed

lemma inv_drain_top:
  assumes "q_inv st" "l \<in> set (loops st)" "quiet l st"
  shows "q_inv (drain_top l st)"
  using assms picked_holds[OF assms(1)] picked_calm[OF assms(1)]
  by (auto simp: drain_top_def Let_def simp del: calm.simps(1) intro!: inv_end_loop inv_set_pc split: option.split)

lemma inv_after_holding:
  "q_inv st \<Longrightarrow> l \<in> set (loops st) \<Longrightarrow> quiet l st \<Longrightarrow> q_inv (after_holding env l st)"
  by (auto simp: after_holding_def intro!: inv_end_loop inv_set_pc inv_drain_top split: option.split)

lemma inv_after_wait:
  "q_inv st \<Longrightarrow> l \<in> set (loops st) \<Longrightarrow> quiet l st \<Longrightarrow> q_inv (after_wait l st)"
  by (simp add: after_wait_def inv_end_loop inv_drain_top)

lemma quiet_no_cur: "cur_id (l_pc l) = None \<Longrightarrow> quiet l st"
  by (simp add: quiet_def)

text \<open>A row patched so that it does not send: the loop that ran it may leave it.\<close>

lemma quiet_patch:
  assumes "q_inv st" "cur_id (l_pc l) = None \<or> cur_id (l_pc l) = Some i" "\<And>it. \<not> sending (f it)" "keeps f"
  shows "quiet l (patch i f st)"
  using assms by (auto simp: quiet_def patchItem_map q_inv_def keeps_def tamer_def)

lemma quiet_settle:
  assumes "quiet l st"
  shows "quiet l (settleSendNow h st)"
  using assms keeps_rows(6)[of "settle_live (items st) h" h]
  by (auto simp: quiet_def settleSendNow_def loop_live_def Let_def keeps_def tamer_def)

lemma not_sending_rows [simp]:
  "\<not> sending (parked_row it)" "\<not> sending (done_row now r it)" "\<not> sending (failed_row now b n e it)"
  by (simp_all add: sending_def parked_row_def done_row_def failed_row_def Let_def)

lemma loops_patch [simp]: "loops (settleSendNow h st) = loops st" "hostGen (settleSendNow h st) = hostGen st"
  by (simp_all add: settleSendNow_def Let_def)

text \<open>A live loop starts (or goes on with) the row it holds.\<close>

lemma inv_run:
  assumes inv: "q_inv st" and l: "l \<in> set (loops st)" and live: "loop_live st l"
    and n: "n \<in> set (pc_rows (l_pc l))" and c: "cur_id (l_pc l) = None \<or> cur_id (l_pc l) = Some (item_id n)"
    and f: "\<And>k. l_host (f k) = l_host k \<and> l_gen (f k) = l_gen k" "\<And>k. l_pc (f k) = p"
    and p: "pc_rows p = [n]" "cur_id p = Some (item_id n)"
    and r: "\<And>it. item_id (row it) = item_id it \<and> item_addr (row it) = item_addr it"
    and calm: "\<And>it. it \<in> set (items st) \<Longrightarrow> item_id it = item_id n \<Longrightarrow> calm p it \<and> calm p (row it)"
  shows "q_inv (set_loop l f (patch (item_id n) row st))"
proof -
  let ?R = "\<lambda>it. if item_id it = item_id n then row it else it"
  have d: "distinct (map item_id (items st))" and g: "gens_ok (loops st) (hostGen st) (genCounter st)"
    using inv by (simp_all add: q_inv_def)
  have h: "holds l n st" by (rule inv_holds[OF inv l n])
  have calm_other: "calm p it" if "it \<in> set (items st)" for it
    using calm[OF that] fresh_calm[of p it] p(1) by (cases "item_id it = item_id n") auto
  let ?s1 = "set_loop l f st"
  have s1: "q_inv ?s1"
    by (rule inv_set_loop[OF inv l f(1) f(2)]) (use h c p calm_other in auto)
  have ids: "map item_id (map ?R (items st)) = map item_id (items st)" using r by simp
  have "q_inv (?s1\<lparr>items := map ?R (items st)\<rparr>)"
  proof -
    have "picks_ok (map ?R (items st)) (loops ?s1)"
      unfolding picks_ok_def
    proof (intro ballI conjI impI)
      fix k m assume k: "k \<in> set (loops ?s1)" "m \<in> set (pc_rows (l_pc k))"
      then have km: "holds k m ?s1" by (rule inv_holds[OF s1])
      then show "hostOf (item_addr m) = l_host k" by (simp add: holds_def)
      fix x assume "x \<in> set (map ?R (items st))" "item_id x = item_id m"
      moreover from this obtain it where "it \<in> set (items st)" "item_id x = item_id it" "item_addr x = item_addr it"
        using r by auto
      ultimately show "item_addr x = item_addr m" using km by (simp add: holds_def set_loop_def)
    qed
    moreover have "sends_ok (map ?R (items st)) (loops ?s1) (hostGen ?s1)"
      unfolding sends_ok_def
    proof (intro ballI impI)
      fix x assume x: "x \<in> set (map ?R (items st))" "sending x"
      then obtain it where it: "it \<in> set (items st)" "x = ?R it" by auto
      show "\<exists>l \<in> set (loops ?s1). l_host l = hostOf (item_addr x) \<and> live_at (hostGen ?s1) l \<and>
          cur_id (l_pc l) = Some (item_id x)"
      proof (cases "item_id it = item_id n")
        case True
        have "f l \<in> set (loops ?s1)" using l by (force simp: set_loop_def)
        moreover have "l_host (f l) = hostOf (item_addr x)" using True it h r f(1) by (auto simp: holds_def)
        moreover have "live_at (hostGen ?s1) (f l)"
          using live f(1) by (simp add: set_loop_def live_at_def loop_live_def)
        ultimately show ?thesis using True it r f(2) p(2) by (intro bexI[of _ "f l"]) auto
      next
        case False
        with it x have "x \<in> set (items ?s1)" by (simp add: set_loop_def)
        with x(2) s1 show ?thesis unfolding q_inv_def sends_ok_def by blast
      qed
    qed
    moreover have "waits_ok (map ?R (items st)) (loops ?s1) (hostGen ?s1)"
      unfolding waits_ok_def
    proof (intro ballI impI)
      fix k x assume k: "k \<in> set (loops ?s1)" "live_at (hostGen ?s1) k" and x: "x \<in> set (map ?R (items st))"
      then obtain it where it: "it \<in> set (items st)" "x = ?R it" by auto
      have old: "calm (l_pc k) it" using s1 k it(1) by (auto simp: q_inv_def waits_ok_def set_loop_def)
      show "calm (l_pc k) x"
      proof (cases "item_id it = item_id n \<and> (\<exists>m \<in> set (pc_rows (l_pc k)). item_id m = item_id n)")
        case True
        then obtain m where m: "m \<in> set (pc_rows (l_pc k))" "item_id m = item_id n" by blast
        have "l_host k = hostOf (item_addr it)"
          using inv_holds[OF s1 k(1) m(1)] it(1) True m(2) by (auto simp: holds_def set_loop_def)
        moreover have "l_host (f l) = hostOf (item_addr it)" using True it h f(1) by (auto simp: holds_def)
        moreover have "f l \<in> set (loops ?s1)" using l by (force simp: set_loop_def)
        moreover have "live_at (hostGen ?s1) (f l)"
          using live f(1) by (simp add: set_loop_def live_at_def loop_live_def)
        ultimately have "k = f l" using live_unique[of "loops ?s1"] s1 k by (metis q_inv_def)
        with f(2) calm[OF it(1)] True it(2) show ?thesis by simp
      next
        case False
        then show ?thesis
          using old it(2) r fresh_calm[of "l_pc k" x] by (cases "item_id it = item_id n") auto
      qed
    qed
    moreover have "distinct (map item_id (map ?R (items st)))" using d unfolding ids .
    ultimately show ?thesis using s1 unfolding q_inv_def by simp
  qed
  then show ?thesis using d by (simp add: patchItem_map set_loop_def q_inv_def)
qed

lemma inv_start_row:
  assumes "q_inv st" "l \<in> set (loops st)" "loop_live st l" "pc_rows (l_pc l) = [n]" "cur_id (l_pc l) = None"
  shows "q_inv (start_row env l n st)"
  unfolding start_row_def by (rule inv_run[OF assms(1-3), where p = "RunOne n 0 False"]) (use assms in \<open>auto simp: started_row_def\<close>)

lemma inv_park:
  assumes "q_inv st" "l \<in> set (loops st)" "n \<in> set (pc_rows (l_pc l))"
  shows "q_inv (end_loop l (parkForWake n st))"
proof (rule inv_end_loop)
  show "q_inv (parkForWake n st)" unfolding parkForWake_def by (rule inv_patch[OF assms(1) keeps_rows(2)])
  show "l \<in> set (loops (parkForWake n st))" using assms(2) by (simp add: parkForWake_def)
  have "cur_id (l_pc l) = None \<or> cur_id (l_pc l) = Some (item_id n)"
    using assms(3) by (cases "l_pc l") auto
  then show "quiet l (parkForWake n st)"
    unfolding parkForWake_def by (intro quiet_patch[OF assms(1)]) (simp_all add: keeps_rows)
qed

lemma inv_after_hold:
  assumes "q_inv st" "l \<in> set (loops st)" "l_pc l = AwaitHold n"
  shows "q_inv (after_hold env l n st)"
proof -
  have q: "quiet l st" using assms(3) by (simp add: quiet_no_cur)
  have h: "holds l n st" using inv_holds[OF assms(1,2)] assms(3) by simp
  have "q_inv (set_pc l (Settling n) st)"
    by (rule inv_set_pc[OF assms(1,2)])
       (use q h assms in \<open>auto simp: q_inv_def waits_ok_def loop_live_at\<close>)
  with assms q show ?thesis
    by (simp add: after_hold_def inv_end_loop inv_park inv_start_row)
qed

lemma inv_after_settle:
  assumes "q_inv st" "l \<in> set (loops st)" "l_pc l = Settling n"
  shows "q_inv (after_settle env l n st)"
  using assms by (simp add: after_settle_def inv_end_loop inv_start_row quiet_no_cur)

lemma inv_finish:
  assumes "q_inv st" "l \<in> set (loops st)" "cur_id (l_pc l) = Some (item_id n)"
    and "\<And>it. \<not> sending (f it)" "keeps f"
  shows "q_inv (settleSendNow h (patch (item_id n) f st)) \<and> l \<in> set (loops (settleSendNow h (patch (item_id n) f st))) \<and>
         quiet l (settleSendNow h (patch (item_id n) f st))"
  using assms by (simp add: inv_settleSendNow inv_patch quiet_settle quiet_patch)

lemma inv_run_success:
  assumes "q_inv st" "l \<in> set (loops st)" "cur_id (l_pc l) = Some (item_id n)"
  shows "q_inv (run_success env l n r st)"
  using inv_finish[OF assms not_sending_rows(2) keeps_rows(7)] by (simp add: run_success_def inv_drain_top)

lemma inv_run_failed:
  assumes "q_inv st" "l \<in> set (loops st)" "cur_id (l_pc l) = Some (item_id n)"
  shows "q_inv (run_failed env l n b e st)"
proof -
  let ?s = "settleSendNow (hostOf (item_addr n)) (patch (item_id n) (failed_row (now_ms env) b n e) st)"
  have s: "q_inv ?s" "l \<in> set (loops ?s)" "quiet l ?s"
    using inv_finish[OF assms not_sending_rows(3) keeps_rows(8)] by auto
  have w: "quiet l (?s\<lparr>wholeQueueStarted := c\<rparr>)" for c using s(3) by (simp add: quiet_def loop_live_def)
  show ?thesis unfolding run_failed_def Let_def
    using s w by (auto intro!: inv_end_loop inv_drain_top)
qed

lemma row_of: "q_inv st \<Longrightarrow> it \<in> set (items st) \<Longrightarrow> find_row st (item_id it) = Some it"
  by (simp add: q_inv_def find_distinct)

lemma inv_run_threw:
  assumes inv: "q_inv st" and l: "l \<in> set (loops st)" and pc: "l_pc l = RunOne n k b"
  shows "q_inv (run_threw env l n k e st)"
proof -
  let ?cur = "case find_row st (item_id n) of Some it \<Rightarrow> it | None \<Rightarrow> n"
  show ?thesis
  proof (cases "\<not> loop_live st l \<and> \<not> isInstallWork ?cur")
    case True
    then show ?thesis using inv l by (simp add: run_threw_def Let_def inv_end_loop quiet_def)
  next
    case live: False
    have rec: "q_inv (set_pc l (Backoff n (k + 1) e) (patch (item_id n) (recovering_row (k + 1) e) st))"
      if "can_recover env (isInstallWork ?cur) k e"
    proof (rule inv_run[OF inv l])
      show "loop_live st l" using live that by (auto simp: can_recover_def)
      fix it assume it: "it \<in> set (items st)" "item_id it = item_id n"
      then have "find_row st (item_id n) = Some it" using row_of[OF inv it(1)] by simp
      then show "calm (Backoff n (k + 1) e) it \<and> calm (Backoff n (k + 1) e) (recovering_row (k + 1) e it)"
        using that by (simp add: can_recover_def recovering_row_def isInstallWork_def)
    qed (use pc in \<open>auto simp: recovering_row_def\<close>)
    show ?thesis
      using rec inv_run_failed[OF inv l, of n] inv_park[OF inv l, of n] pc live
      by (auto simp: run_threw_def Let_def)
  qed
qed

lemma inv_after_backoff:
  assumes "q_inv st" "l \<in> set (loops st)" "l_pc l = Backoff n k e"
  shows "q_inv (after_backoff env l n k st)"
proof -
  have h: "holds l n st" using inv_holds[OF assms(1,2)] assms(3) by simp
  have "q_inv (set_pc l (Healing n k) st)"
    by (rule inv_set_pc[OF assms(1,2)]) (use h assms in \<open>auto simp: q_inv_def waits_ok_def loop_live_at\<close>)
  with assms show ?thesis by (simp add: after_backoff_def inv_end_loop inv_park quiet_def)
qed

lemma inv_after_healing:
  assumes "q_inv st" "l \<in> set (loops st)" "l_pc l = Healing n k"
  shows "q_inv (after_healing l n k st)"
proof (cases "loop_live st l")
  case True
  have "q_inv (set_pc l (RunOne n k False) (patch (item_id n) retried_row st))"
    by (rule inv_run[OF assms(1,2) True]) (use assms(3) in \<open>auto simp: retried_row_def\<close>)
  with True show ?thesis by (simp add: after_healing_def)
qed (use assms in \<open>simp add: after_healing_def inv_end_loop quiet_def\<close>)

end
