(* ===== verification/Queue_Machine.thy ===== *)
theory Queue_Machine
  imports Queue_Runner
begin

text \<open>
  The upload queue as a machine: every action of the store and every piece of every loop is an event,
  \<open>q_next\<close> applies one (or refuses it when the loop does not wait for it), and the reachable states
  are all the interleavings from an idle queue. \<open>q_inv\<close> holds of all of them (the interpretation of
  \<open>invariant_system\<close>), which gives the properties of the runner: one upload per console at a time, a
  console marked running exactly while its loop lives, and no running install ever queued again.
\<close>

section \<open>Events\<close>

datatype user_act =
    DoAdd string string int AddQueueItem
  | DoEnqueueInstall queue_env string string EnqueueInstallInput
  | DoRemove string
  | DoCancel string
  | DoCancelInstallStop QueueItem
  | DoCancelInstallEnd QueueItem bool bool
  | DoPause string
  | DoResume string
  | DoSendNow queue_env string
  | DoNoteSize string rat
  | DoMoveUp string
  | DoMoveDown string
  | DoMoveTo string string
  | DoClear string
  | DoRetryFailed queue_env string
  | DoRestartItem string
  | DoRetry string
  | DoRetryInstall string
  | DoRetryWithPassword string string
  | DoDiscardPartial string string
  | DoWake queue_env string
  | DoSetContinue bool
  | DoStartAdded queue_env string
  | DoStart queue_env nat
  | DoStop
  | DoStartHost string run_opts
  | DoStopHost string

fun act :: "user_act \<Rightarrow> queue_state \<Rightarrow> queue_state" where
  "act (DoAdd i t now input) st = add_item i t now input st"
| "act (DoEnqueueInstall env i t input) st = snd (enqueueInstall env i t input st)"
| "act (DoRemove i) st = remove_item i st"
| "act (DoCancel i) st = cancelItem i st"
| "act (DoCancelInstallStop item) st = cancel_install_stop item st"
| "act (DoCancelInstallEnd item j f) st = cancel_install_end item j f st"
| "act (DoPause i) st = pauseItem i st"
| "act (DoResume i) st = resumeItem i st"
| "act (DoSendNow env i) st = sendNow env i st"
| "act (DoNoteSize i n) st = noteSourceSize i n st"
| "act (DoMoveUp i) st = moveUp i st"
| "act (DoMoveDown i) st = moveDown i st"
| "act (DoMoveTo i t) st = moveTo i t st"
| "act (DoClear h) st = clear_queue h st"
| "act (DoRetryFailed env h) st = retryFailed env h st"
| "act (DoRestartItem i) st = restartItem i st"
| "act (DoRetry i) st = snd (retryItem i st)"
| "act (DoRetryInstall i) st = retryInstall i st"
| "act (DoRetryWithPassword i p) st = snd (retryWithPassword i p st)"
| "act (DoDiscardPartial t i) st = discardPartial t i st"
| "act (DoWake env h) st = snd (resumeFailedRecoverable env h st)"
| "act (DoSetContinue b) st = setContinueOnFailure b st"
| "act (DoStartAdded env h) st = startAdded env h st"
| "act (DoStart env pass) st = start_pass env pass st"
| "act DoStop st = stop_all st"
| "act (DoStartHost h opts) st = startHost h opts st"
| "act (DoStopHost h) st = stopHost h st"

text \<open>The ids the code generates are new.\<close>

fun act_ok :: "user_act \<Rightarrow> queue_state \<Rightarrow> bool" where
  "act_ok (DoAdd i _ _ _) st = fresh_id i st"
| "act_ok (DoEnqueueInstall _ i _ _) st = fresh_id i st"
| "act_ok _ st = True"

text \<open>What a loop waits for: the engine's queue, the payload check, an install, its turn, the pause
  between jobs, the end of a run, a backoff, the healing; and what a run does to its row meanwhile.\<close>

datatype loop_ev =
    EvHeld queue_env
  | EvChecked
  | EvInstallOver
  | EvTurn queue_env
  | EvSettled queue_env
  | EvDone queue_env run_result
  | EvThrew queue_env thrown
  | EvBackoff queue_env
  | EvHealed
  | EvJob string
  | EvProgress int int rat job_snap
  | EvUploadDone job_snap
  | EvInstallBegin
  | EvInstallProgress rat "InstallProgress option"
  | EvInstallNote "string option"
  | EvInstallJob string
  | EvInstallEnds

fun loop_event :: "loop_ev \<Rightarrow> run_loop \<Rightarrow> queue_state \<Rightarrow> queue_state option" where
  "loop_event (EvHeld env) l st = (case l_pc l of Holding \<Rightarrow> Some (after_holding env l st) | _ \<Rightarrow> None)"
| "loop_event EvChecked l st = (case l_pc l of Preflight \<Rightarrow> Some (after_wait l st) | _ \<Rightarrow> None)"
| "loop_event EvInstallOver l st = (case l_pc l of AwaitInstall \<Rightarrow> Some (after_wait l st) | _ \<Rightarrow> None)"
| "loop_event (EvTurn env) l st = (case l_pc l of AwaitHold n \<Rightarrow> Some (after_hold env l n st) | _ \<Rightarrow> None)"
| "loop_event (EvSettled env) l st = (case l_pc l of Settling n \<Rightarrow> Some (after_settle env l n st) | _ \<Rightarrow> None)"
| "loop_event (EvDone env r) l st =
     (case l_pc l of
        RunOne n k past \<Rightarrow> if past \<or> sourceKind n = KInstall then Some (run_success env l n r st) else None
      | _ \<Rightarrow> None)"
| "loop_event (EvThrew env e) l st =
     (case l_pc l of RunOne n k past \<Rightarrow> Some (run_threw env l n k e st) | _ \<Rightarrow> None)"
| "loop_event (EvBackoff env) l st =
     (case l_pc l of Backoff n k e \<Rightarrow> Some (after_backoff env l n k st) | _ \<Rightarrow> None)"
| "loop_event EvHealed l st = (case l_pc l of Healing n k \<Rightarrow> Some (after_healing l n k st) | _ \<Rightarrow> None)"
| "loop_event (EvJob job) l st = (case l_pc l of RunOne n _ False \<Rightarrow> Some (job_started l n job st) | _ \<Rightarrow> None)"
| "loop_event (EvProgress now moved rate snap) l st =
     (case l_pc l of
        RunOne n _ False \<Rightarrow>
          if loop_live st l then Some (patch (item_id n) (progress_row now moved rate snap) st) else None
      | _ \<Rightarrow> None)"
| "loop_event (EvUploadDone snap) l st =
     (case l_pc l of
        RunOne n k False \<Rightarrow>
          if loop_live st l \<and> sourceKind n \<noteq> KInstall
          then Some (set_pc l (RunOne n k True) (upload_done n snap st)) else None
      | _ \<Rightarrow> None)"
| "loop_event EvInstallBegin l st =
     (case l_pc l of RunOne n _ _ \<Rightarrow> if sourceKind n = KInstall then Some (install_begin n st) else None | _ \<Rightarrow> None)"
| "loop_event (EvInstallProgress pct p) l st =
     (case l_pc l of RunOne n _ _ \<Rightarrow> Some (patch (item_id n) (install_progress_row pct p) st) | _ \<Rightarrow> None)"
| "loop_event (EvInstallNote t) l st =
     (case l_pc l of RunOne n _ _ \<Rightarrow> Some (patch (item_id n) (\<lambda>it. it\<lparr>installNote := t\<rparr>) st) | _ \<Rightarrow> None)"
| "loop_event (EvInstallJob j) l st =
     (case l_pc l of RunOne n _ _ \<Rightarrow> Some (patch (item_id n) (\<lambda>it. it\<lparr>installJobId := Some j\<rparr>) st) | _ \<Rightarrow> None)"
| "loop_event EvInstallEnds l st =
     (case l_pc l of RunOne n _ _ \<Rightarrow> Some (install_over n st) | _ \<Rightarrow> None)"

datatype q_event =
    User user_act
  | Loop nat loop_ev
  | Restart nat
  | Found string int "InstallResult option"
  | Reattach string "string option"

definition q_next :: "q_event \<Rightarrow> queue_state \<Rightarrow> queue_state option" where
  "q_next ev st =
     (case ev of
        User a \<Rightarrow> if act_ok a st then Some (act a st) else None
      | Loop g e \<Rightarrow> Option.bind (List.find (\<lambda>l. l_gen l = g) (loops st)) (\<lambda>l. loop_event e l st)
      | Restart t \<Rightarrow> Some (restart_end t st)
      | Found i now res \<Rightarrow> Some (patch i (found_row now res) st)
      | Reattach i job \<Rightarrow> Some (reattach_found i job st))"

inductive qstep :: "queue_state \<Rightarrow> queue_state \<Rightarrow> bool" where
  qstep: "q_next ev st = Some st' \<Longrightarrow> qstep st st'"

text \<open>An idle queue: rows with distinct ids, none of them an upload that is running (what loading a
  saved queue leaves), and no run.\<close>

definition q_init :: "queue_state \<Rightarrow> bool" where
  "q_init st \<longleftrightarrow>
     distinct (map item_id (items st)) \<and> (\<forall>it \<in> set (items st). \<not> sending it) \<and>
     runningHosts st = [] \<and> loops st = [] \<and> hostGen st = Map.empty \<and> genCounter st = 0"

definition q_reach :: "queue_state \<Rightarrow> bool" where
  "q_reach = reach q_init qstep"

text \<open>A sequence of events, \<open>None\<close> when one is refused.\<close>

fun q_run :: "q_event list \<Rightarrow> queue_state \<Rightarrow> queue_state option" where
  "q_run [] st = Some st"
| "q_run (e # es) st = (case q_next e st of None \<Rightarrow> None | Some st' \<Rightarrow> q_run es st')"

text \<open>The store before anything is loaded or added.\<close>

definition idle_queue :: queue_state where
  "idle_queue =
     \<lparr>items = [], continueOnFailure = False, runningHosts = [], limitedHosts = [], genCounter = 0,
      hostGen = Map.empty, runScope = Map.empty, wholeQueueStarted = [], stoppingHosts = Map.empty,
      restarts = [], runningJobByHost = Map.empty, installInFlight = Map.empty, reattaching = [],
      cancelledJobs = [], loops = []\<rparr>"

lemma q_reach_run: "q_run es st = Some st' \<Longrightarrow> q_reach st \<Longrightarrow> q_reach st'"
proof (induction es arbitrary: st)
  case (Cons e es)
  then obtain s where s: "q_next e st = Some s" "q_run es s = Some st'" by (auto split: option.splits)
  then have "q_reach s" using Cons.prems(2) unfolding q_reach_def by (blast intro: reach_step qstep)
  with Cons.IH s(2) show ?case by blast
qed simp

lemma q_reach_idle: "q_reach idle_queue"
  unfolding q_reach_def by (rule reach_init) (simp add: q_init_def idle_queue_def)

section \<open>Every event keeps the invariant\<close>

lemma inv_act: "q_inv st \<Longrightarrow> act_ok a st \<Longrightarrow> q_inv (act a st)"
  by (cases a)
     (simp_all add: inv_add_item inv_enqueueInstall inv_remove_item inv_cancelItem cancel_install_stop_def
        inv_stopHost inv_cancel_install_end inv_pauseItem inv_resumeItem inv_sendNow inv_noteSourceSize
        inv_moves inv_clear_queue inv_retryFailed inv_restartItem inv_retryItem inv_retryInstall
        inv_retryWithPassword inv_discardPartial inv_resumeFailedRecoverable setContinueOnFailure_def
        inv_startAdded inv_start_pass inv_stop_all inv_startHost)

lemma inv_upload_done:
  assumes "q_inv st" "l \<in> set (loops st)" "loop_live st l" "l_pc l = RunOne n k False"
  shows "q_inv (set_pc l (RunOne n k True) (upload_done n snap st))"
proof -
  have "q_inv (set_pc l (RunOne n k True) (patch (item_id n) (upload_done_row snap b) st))" for b
    by (rule inv_run[OF assms(1-3)]) (use assms(4) in \<open>auto simp: upload_done_row_def Let_def\<close>)
  then show ?thesis by (simp add: upload_done_def Let_def set_loop_def q_inv_def)
qed

lemma inv_install_begin: "q_inv st \<Longrightarrow> q_inv (install_begin n st)"
  by (simp add: install_begin_def Let_def inv_patch keeps_fields)

lemma inv_job_started: "q_inv st \<Longrightarrow> q_inv (job_started l n job st)"
  using inv_patch[of "st\<lparr>runningJobByHost := r\<rparr>" "\<lambda>it. it\<lparr>jobId := Some job\<rparr>" for r]
  by (simp add: job_started_def keeps_fields)

lemma inv_install_over: "q_inv st \<Longrightarrow> q_inv (install_over n st)"
  by (simp add: install_over_def Let_def)

lemma inv_reattach_found: "q_inv st \<Longrightarrow> q_inv (reattach_found i job st)"
  by (simp add: reattach_found_def Let_def inv_patch keeps_fields split: option.split)

lemma inv_loop_event:
  assumes inv: "q_inv st" and l: "l \<in> set (loops st)" and e: "loop_event e l st = Some st'"
  shows "q_inv st'"
  using e inv_after_holding[OF inv l quiet_no_cur] inv_after_wait[OF inv l quiet_no_cur]
    inv_after_hold[OF inv l] inv_after_settle[OF inv l] inv_run_success[OF inv l] inv_run_threw[OF inv l]
    inv_after_backoff[OF inv l] inv_after_healing[OF inv l] inv_upload_done[OF inv l]
    inv_install_begin[OF inv] inv_job_started[OF inv] inv_install_over[OF inv]
  by (cases e)
     (auto simp: inv inv_patch keeps_rows keeps_fields split: pc.splits if_splits bool.splits)

lemma q_next_cases:
  assumes "q_next ev st = Some st'"
  obtains (user) a where "ev = User a" "act_ok a st" "st' = act a st"
  | (loop) g e l where "ev = Loop g e" "l \<in> set (loops st)" "loop_event e l st = Some st'"
  | (restart) t where "ev = Restart t" "st' = restart_end t st"
  | (found) i now res where "ev = Found i now res" "st' = patch i (found_row now res) st"
  | (reattach) i job where "ev = Reattach i job" "st' = reattach_found i job st"
proof (cases ev)
  case (Loop g e)
  with assms obtain l where l: "List.find (\<lambda>l. l_gen l = g) (loops st) = Some l" "loop_event e l st = Some st'"
    by (auto simp: q_next_def split: Option.bind_splits)
  then have "l \<in> set (loops st)" by (auto simp: find_Some_iff)
  with l Loop show ?thesis using loop by blast
qed (use assms in \<open>auto simp: q_next_def split: if_splits intro: that\<close>)

lemma inv_q_next:
  assumes "q_inv st" "q_next ev st = Some st'"
  shows "q_inv st'"
  using assms(2)
proof (cases rule: q_next_cases)
  case (loop g e l)
  then show ?thesis by (intro inv_loop_event[OF assms(1)])
qed (simp_all add: assms(1) inv_act inv_restart_end inv_patch keeps_rows inv_reattach_found)

interpretation queue: invariant_system q_init qstep q_inv
proof
  show "q_init st \<Longrightarrow> q_inv st" for st
    by (auto simp: q_init_def inv_defs)
  show "q_inv st \<Longrightarrow> qstep st st' \<Longrightarrow> q_inv st'" for st st'
    by (auto elim!: qstep.cases intro: inv_q_next)
qed

lemma q_reach_inv: "q_reach st \<Longrightarrow> q_inv st"
  unfolding q_reach_def by (rule queue.reach_inv)

section \<open>Rows of an event\<close>

text \<open>Every row of \<open>st'\<close> is a row of \<open>st\<close>, and \<open>T\<close> of it still holds if it held.\<close>

definition stays :: "(QueueItem \<Rightarrow> bool) \<Rightarrow> queue_state \<Rightarrow> queue_state \<Rightarrow> bool" where
  "stays T st st' \<longleftrightarrow>
     (\<forall>x \<in> set (items st'). \<exists>y \<in> set (items st). item_id y = item_id x \<and> (T y \<longrightarrow> T x))"

lemma stays_trans: "stays T a b \<Longrightarrow> stays T b c \<Longrightarrow> stays T a c"
  unfolding stays_def by metis

lemma stays_same: "set (items st') \<subseteq> set (items st) \<Longrightarrow> stays T st st'"
  unfolding stays_def by blast

lemma stays_map:
  "(\<And>it. item_id (f it) = item_id it \<and> (T it \<longrightarrow> T (f it))) \<Longrightarrow> items st' = map f (items st) \<Longrightarrow> stays T st st'"
  unfolding stays_def by auto

text \<open>What stays true of rows that no action changes: a predicate on the id, the console, the status
  and the kind of work, false of the rows that are sending.\<close>

definition resting :: "(QueueItem \<Rightarrow> bool) \<Rightarrow> bool" where
  "resting T \<longleftrightarrow>
     (\<forall>it x. item_id x = item_id it \<longrightarrow> item_status x = item_status it \<longrightarrow> isInstallWork x = isInstallWork it \<longrightarrow>
        T it \<longrightarrow> T x) \<and> (\<forall>it. T it \<longrightarrow> \<not> sending it)"

lemma restingD:
  "resting T \<Longrightarrow> T it \<Longrightarrow> item_id x = item_id it \<Longrightarrow> item_status x = item_status it \<Longrightarrow>
     isInstallWork x = isInstallWork it \<Longrightarrow> T x"
  unfolding resting_def by blast

lemma stays_patch:
  assumes "q_inv st" "\<And>it. item_id (f it) = item_id it" "\<And>it. it \<in> set (items st) \<Longrightarrow> item_id it = i \<Longrightarrow> T it \<Longrightarrow> T (f it)"
  shows "stays T st (patch i f st)"
  using assms by (auto simp: stays_def patchItem_map q_inv_def)

lemma items_startHost:
  "items (startHost h opts st) =
     (if hostOf h \<in> set (runningHosts st) then items st
      else map (\<lambda>it. if waitingForWake it \<and> hostOf (item_addr it) = hostOf h
                     then it\<lparr>waitingForWake := False\<rparr> else it) (items st))"
  by (simp add: startHost_def startHost_running_def startHost_idle_def Let_def split: option.split)

lemma stays_startHost:
  assumes "resting T"
  shows "stays T st (startHost h opts st)"
proof (cases "hostOf h \<in> set (runningHosts st)")
  case True
  then show ?thesis by (intro stays_same) (simp add: items_startHost)
next
  case False
  have "T it \<longrightarrow> T (it\<lparr>waitingForWake := False\<rparr>)" for it
    using restingD[OF assms, of it "it\<lparr>waitingForWake := False\<rparr>"] by (simp add: isInstallWork_def)
  with False show ?thesis
    by (intro stays_map[where f = "\<lambda>it. if waitingForWake it \<and> hostOf (item_addr it) = hostOf h
          then it\<lparr>waitingForWake := False\<rparr> else it"]) (simp_all add: items_startHost)
qed

lemma stays_stopHost:
  assumes "resting T"
  shows "stays T st (stopHost h st)"
proof -
  have "T it \<Longrightarrow> \<not> sending it" for it using assms unfolding resting_def by blast
  then show ?thesis
    by (intro stays_map[of "\<lambda>it. if item_status it = Running \<and> hostOf (item_addr it) = hostOf h \<and> \<not> isInstallWork it
          then reset_row it else it"])
       (auto simp: stopHost_def Let_def resetRunningToPending_def reset_row_def sending_def)
qed

lemma stays_settleSendNow:
  assumes "resting T"
  shows "stays T st (settleSendNow h st)"
proof -
  have "item_id (settle_row b h it) = item_id it \<and> (T it \<longrightarrow> T (settle_row b h it))" for b it
    using restingD[OF assms, of it "settle_row b h it"] by (auto simp: settle_row_def isInstallWork_def)
  then show ?thesis
    by (intro stays_map[where f = "settle_row (settle_live (items st) h) h"])
       (simp_all add: settleSendNow_def Let_def)
qed

lemma stays_fold: "(\<And>x s. stays T s (f x s)) \<Longrightarrow> stays T st (fold f xs st)"
  by (induction xs arbitrary: st) (auto intro: stays_trans stays_same)

lemma stays_end_loop: "stays T st (end_loop l st)"
  by (rule stays_same) (simp add: end_loop_def Let_def)

lemma stays_set_loop: "stays T st (set_loop l f st)"
  by (rule stays_same) (simp add: set_loop_def)

lemma stays_drain_top: "stays T st (drain_top l st)"
  by (auto simp: drain_top_def Let_def intro: stays_end_loop stays_set_loop split: option.split)

text \<open>The same as rules that build a chain of operations from its end.\<close>

lemma stays_refl: "stays T st st"
  by (rule stays_same) simp

lemma stays_row_patch:
  assumes "stays T st s" "\<And>it. item_id (f it) = item_id it \<and> (T it \<longrightarrow> T (f it))"
  shows "stays T st (patch i f s)"
proof -
  have "x \<in> set (items s) \<or> (\<exists>y \<in> set (items s). x = f y)" if "x \<in> set (patchItem item_id (items s) i f)" for x
    using that set_update_subset_insert[of "items s"]
    by (auto simp: patchItem_def split: option.splits) (metis find_index_length insert_iff nth_mem subset_iff)
  then have "stays T s (patch i f s)" using assms(2) unfolding stays_def by fastforce
  with assms(1) show ?thesis by (rule stays_trans)
qed

lemma stays_chain:
  "resting T \<Longrightarrow> stays T st s \<Longrightarrow> stays T st (settleSendNow h s)"
  "resting T \<Longrightarrow> stays T st s \<Longrightarrow> stays T st (startHost h opts s)"
  "resting T \<Longrightarrow> stays T st s \<Longrightarrow> stays T st (stopHost h s)"
  "stays T st s \<Longrightarrow> stays T st (end_loop l s)"
  "stays T st s \<Longrightarrow> stays T st (set_loop l f s)"
  "stays T st s \<Longrightarrow> stays T st (drain_top l s)"
  by (blast intro: stays_trans stays_settleSendNow stays_startHost stays_stopHost stays_end_loop
        stays_set_loop stays_drain_top)+

lemma stays_removed: "stays T st s \<Longrightarrow> stays T st (s\<lparr>items := removeItem item_id (items s) i\<rparr>)"
  by (erule stays_trans, rule stays_same)
     (auto simp: removeItem_def dest: subsetD[OF set_remove_at_subset] split: option.splits)

lemma stays_items: "items s' = items s \<Longrightarrow> stays T st s \<Longrightarrow> stays T st s'"
  by (simp add: stays_def)

lemma stays_mapped:
  "stays T st s \<Longrightarrow> (\<And>it. item_id (f it) = item_id it \<and> (T it \<longrightarrow> T (f it))) \<Longrightarrow>
     stays T st (s\<lparr>items := map f (items s)\<rparr>)"
  by (erule stays_trans, rule stays_map[of f]) simp_all

lemma stays_restartAfterStop: "stays T st s \<Longrightarrow> stays T st (restartAfterStop h again s)"
  by (rule stays_items[of _ s]) (simp_all add: restartAfterStop_def Let_def)

lemma items_joinPendingRestart: "joinPendingRestart h i s = (b, s') \<Longrightarrow> items s' = items s"
  by (auto simp: joinPendingRestart_def split: option.splits if_splits)

section \<open>A running install\<close>

definition installing :: "QueueItem \<Rightarrow> bool" where
  "installing it \<longleftrightarrow> item_status it = Running \<and> isInstallWork it"

lemma resting_installing [simp]: "resting installing"
  by (simp add: resting_def installing_def sending_def)

lemmas installing_simps = installing_def isInstallWork_def

lemma stays_pauseRunning: "stays installing st s \<Longrightarrow> stays installing st (pauseRunning item why ids s)"
  by (simp add: pauseRunning_def Let_def)
     (auto intro!: stays_restartAfterStop stays_chain stays_row_patch simp: installing_simps)

lemma stays_joined: "joinPendingRestart h i s = (b, s') \<Longrightarrow> stays T st s \<Longrightarrow> stays T st s'"
  using items_joinPendingRestart stays_items by blast

lemma stays_sendNow: "stays installing st (sendNow env i st)"
proof -
  have p: "stays installing st (patch i (\<lambda>it. it\<lparr>sendNowAt := t\<rparr>) st)" for t
    by (rule stays_row_patch[OF stays_refl]) (simp add: installing_simps)
  show ?thesis
    by (auto simp: sendNow_def Let_def stays_refl
        intro!: stays_pauseRunning[OF p] stays_chain(2) intro: stays_joined[OF _ p] split: option.split prod.split)
qed

lemma stays_resumeItem: "stays installing st (resumeItem i st)"
proof -
  have p: "stays installing st (patch i (\<lambda>it. it\<lparr>paused := t\<rparr>) st)" for t
    by (rule stays_row_patch[OF stays_refl]) (simp add: installing_simps)
  show ?thesis
    by (auto simp: resumeItem_def Let_def stays_refl intro!: stays_chain(2) intro: stays_joined[OF _ p] split: option.split prod.split)
qed

lemma stays_retryItem: "q_inv st \<Longrightarrow> stays installing st (snd (retryItem i st))"
proof (cases "find_row st i")
  case (Some item)
  assume inv: "q_inv st"
  have "it = item" if "it \<in> set (items st)" "item_id it = i" for it
    using row_of[OF inv that(1)] that(2) Some by simp
  then show ?thesis
    using Some keeps_rows(3) by (auto simp: retryItem_def stays_def installing_def keeps_def tamer_def)
qed (simp add: retryItem_def stays_refl)

lemma stays_resume_fold:
  "q_inv s \<Longrightarrow> stays installing st s \<Longrightarrow>
     stays installing st (snd (fold (\<lambda>it (ids, s). let (retried, s') = retryItem (item_id it) s
       in (if retried then ids @ [item_id it] else ids, s')) cs (ids, s)))"
proof (induction cs arbitrary: ids s)
  case (Cons c cs)
  obtain b s' where r: "retryItem (item_id c) s = (b, s')" by fastforce
  have "q_inv s'" using inv_retryItem[OF Cons.prems(1), of "item_id c"] r by simp
  moreover have "stays installing st s'"
    using stays_trans[OF Cons.prems(2) stays_retryItem[OF Cons.prems(1), of "item_id c"]] r by simp
  ultimately show ?case using Cons.IH r by simp
qed simp

lemma stays_wake: "q_inv st \<Longrightarrow> stays installing st (snd (resumeFailedRecoverable env host st))"
proof (cases "autoResume env")
  case True
  assume inv: "q_inv st"
  let ?cs = "filter (\<lambda>it. hostOf (item_addr it) = hostOf host \<and> canResumeUnattended it) (items st)"
  obtain ids s1 where f: "fold (\<lambda>it (ids, s). let (retried, s') = retryItem (item_id it) s
       in (if retried then ids @ [item_id it] else ids, s')) ?cs ([], st) = (ids, s1)" by fastforce
  have "stays installing st s1" using stays_resume_fold[OF inv stays_refl, of ?cs "[]"] unfolding f by simp
  then show ?thesis using True unfolding resumeFailedRecoverable_def Let_def f[unfolded Let_def]
    by (auto intro: stays_chain)
qed (simp add: resumeFailedRecoverable_def stays_refl)

lemma stays_cleared: "stays T st (clear_queue host st)"
  by (rule stays_same) (auto simp: clear_queue_def Let_def)

lemma stays_retryFailed: "stays installing st (retryFailed env host st)"
proof -
  let ?f = "\<lambda>it. if \<not> of_host host it \<or> item_status it \<noteq> Failed then it else retry_failed_row it"
  have "item_id (?f it) = item_id it \<and> (installing it \<longrightarrow> installing (?f it))" for it
    by (simp add: retry_failed_row_def installing_def)
  then have "stays installing st (st\<lparr>items := map ?f (items st)\<rparr>)" by (rule stays_mapped[OF stays_refl])
  then have "stays installing st (startHost (hostOf host) no_opts (st\<lparr>items := map ?f (items st)\<rparr>))"
    "stays installing st (start_pass env 0 (st\<lparr>items := map ?f (items st)\<rparr>))"
    by (simp_all add: stays_chain start_pass_def stays_trans[OF _ stays_fold] stays_startHost)
  then show ?thesis unfolding retryFailed_def Let_def by (simp only: split: if_split) blast
qed

lemma stays_retryWithPassword: "q_inv st \<Longrightarrow> stays installing st (snd (retryWithPassword i pw st))"
proof -
  assume inv: "q_inv st"
  let ?s = "st\<lparr>items := map (\<lambda>c. if item_id c = i then c\<lparr>rarPassword := Some pw\<rparr> else c) (items st)\<rparr>"
  have "q_inv ?s" by (rule inv_map[OF inv]) (intro keeps_intros)
  moreover have "stays installing st ?s" by (rule stays_mapped[OF stays_refl]) (simp add: installing_simps)
  ultimately have "stays installing st (snd (retryItem i ?s))"
    using stays_retryItem stays_trans by blast
  then show ?thesis
    by (auto simp: retryWithPassword_def Let_def stays_refl intro: stays_chain split: option.split prod.split)
qed

lemma stays_retryInstall: "q_inv st \<Longrightarrow> stays installing st (retryInstall i st)"
proof -
  assume inv: "q_inv st"
  have "stays installing st (patch i retry_install_row st)" if "find_row st i = Some it" "item_status it = Failed" for it
  proof (rule stays_patch[OF inv])
    show "x \<in> set (items st) \<Longrightarrow> item_id x = i \<Longrightarrow> installing x \<Longrightarrow> installing (retry_install_row x)" for x
      using row_of[OF inv, of x] that by (simp add: installing_def)
  qed (simp add: retry_install_row_def)
  then show ?thesis by (auto simp: retryInstall_def stays_refl intro!: stays_chain split: option.split)
qed

lemmas stays_acts = stays_refl stays_removed stays_chain stays_row_patch stays_mapped stays_restartAfterStop

lemma stays_act:
  assumes inv: "q_inv st" and a: "\<forall>i t n inp. a \<noteq> DoAdd i t n inp" "\<forall>env i t inp. a \<noteq> DoEnqueueInstall env i t inp"
  shows "stays installing st (act a st)"
proof (cases a)
  case (DoCancel i)
  show ?thesis unfolding DoCancel
    by (auto simp: cancelItem_def Let_def installing_simps intro!: stays_acts split: option.split)
next
  case (DoCancelInstallEnd item j f)
  show ?thesis unfolding DoCancelInstallEnd
    by (auto simp: cancel_install_end_def Let_def installing_simps intro!: stays_acts split: option.split)
next
  case (DoNoteSize i n)
  show ?thesis unfolding DoNoteSize
    by (auto simp: noteSourceSize_def Let_def installing_simps intro!: stays_acts split: option.split)
next
  case (DoDiscardPartial t i)
  show ?thesis unfolding DoDiscardPartial
    by (auto simp: discardPartial_def installing_simps intro!: stays_acts split: option.split)
next
  case DoStop
  have "stays installing st (fold stopHost (runningHosts st) st)" by (rule stays_fold) (simp add: stays_stopHost)
  then show ?thesis unfolding DoStop by (auto simp: stop_all_def intro: stays_items[rotated])
qed (use a inv in \<open>auto simp: remove_item_def Let_def cancel_install_stop_def pauseItem_def restartItem_def
      setContinueOnFailure_def startAdded_def start_pass_def moveUp_def moveDown_def moveTo_def
      stays_sendNow stays_resumeItem stays_retryItem stays_wake stays_cleared stays_retryFailed
      stays_retryWithPassword stays_retryInstall stays_startHost
      intro!: stays_acts stays_pauseRunning stays_fold intro: stays_same split: option.split\<close>)

text \<open>Neither waiting nor sending: installing, done or failed.\<close>

definition past_upload :: "QueueItem \<Rightarrow> bool" where
  "past_upload it \<longleftrightarrow> item_status it \<noteq> Pending \<and> \<not> sending it"

lemma resting_past [simp]: "resting past_upload"
  by (simp add: resting_def past_upload_def sending_def)

lemma installing_past: "installing it \<Longrightarrow> past_upload it"
  by (simp add: installing_def past_upload_def sending_def)

definition turns :: "queue_state \<Rightarrow> queue_state \<Rightarrow> bool" where
  "turns st st' \<longleftrightarrow>
     (\<forall>x \<in> set (items st'). \<exists>y \<in> set (items st). item_id y = item_id x \<and> (installing y \<longrightarrow> past_upload x))"

lemma turns_stays: "stays installing st st' \<Longrightarrow> turns st st'"
  unfolding stays_def turns_def using installing_past by blast

lemma turns_then: "turns st s \<Longrightarrow> stays past_upload s s' \<Longrightarrow> turns st s'"
  unfolding stays_def turns_def by metis

lemma turns_chain:
  "turns st s \<Longrightarrow> turns st (settleSendNow h s)" "turns st s \<Longrightarrow> turns st (end_loop l s)"
  "turns st s \<Longrightarrow> turns st (set_loop l f s)" "turns st s \<Longrightarrow> turns st (drain_top l s)"
  by (simp_all add: turns_then stays_settleSendNow stays_end_loop stays_set_loop stays_drain_top)

lemma turns_items: "items s' = items s \<Longrightarrow> turns st s \<Longrightarrow> turns st s'"
  by (simp add: turns_def)

lemma turns_patch:
  assumes "q_inv st" "\<And>it. item_id (f it) = item_id it"
    and "\<And>it. it \<in> set (items st) \<Longrightarrow> item_id it = i \<Longrightarrow> installing it \<Longrightarrow> past_upload (f it)"
  shows "turns st (patch i f st)"
proof -
  have "\<exists>y \<in> set (items st). item_id y = item_id x \<and> (installing y \<longrightarrow> past_upload x)"
    if "x \<in> set (map (\<lambda>y. if item_id y = i then f y else y) (items st))" for x
    using that assms(2,3) installing_past by auto
  with assms(1) show ?thesis by (simp add: turns_def patchItem_map q_inv_def)
qed

text \<open>A live loop that waits with a picked row, or recovers one, has no running install there.\<close>

lemma waiting_row:
  assumes "q_inv st" "l \<in> set (loops st)" "loop_live st l" "it \<in> set (items st)" "item_id it = item_id n"
    and "l_pc l \<in> {AwaitHold n, Settling n} \<or> (\<exists>k e. l_pc l = Backoff n k e) \<or> (\<exists>k. l_pc l = Healing n k)"
  shows "\<not> installing it"
proof -
  have "calm (l_pc l) it" using assms(1-4) by (simp add: q_inv_def waits_ok_def loop_live_at)
  with assms(5,6) show ?thesis by (auto simp: installing_def)
qed

lemma turns_rows: "\<And>it. past_upload (done_row now r it)" "\<And>it. past_upload (failed_row now b n e it)"
  "\<And>it. past_upload (found_row now res it)"
  by (simp_all add: past_upload_def sending_def done_row_def failed_row_def found_row_def Let_def split: option.split)

lemma row_ids: "item_id (done_row now r it) = item_id it" "item_id (failed_row now b n e it) = item_id it"
  "item_id (found_row now res it) = item_id it" "item_id (parked_row it) = item_id it"
  "item_id (started_row now it) = item_id it" "item_id (recovering_row k e it) = item_id it"
  "item_id (retried_row it) = item_id it" "item_id (upload_done_row snap b it) = item_id it"
  by (simp_all add: done_row_def failed_row_def found_row_def parked_row_def started_row_def recovering_row_def
      retried_row_def upload_done_row_def Let_def split: option.split)

lemma turns_refl: "turns st st"
  by (rule turns_stays[OF stays_refl])

lemma turns_run_threw:
  assumes inv: "q_inv st"
  shows "turns st (run_threw env l n k e st)"
proof -
  have cur: "isInstallWork (case find_row st (item_id n) of Some x \<Rightarrow> x | None \<Rightarrow> n)"
    if "it \<in> set (items st)" "item_id it = item_id n" "installing it" for it
    using row_of[OF inv that(1)] that(2,3) by (simp add: installing_def)
  have patch: "turns st (patch (item_id n) f st)"
    if "\<not> isInstallWork (case find_row st (item_id n) of Some x \<Rightarrow> x | None \<Rightarrow> n)" "\<And>it. item_id (f it) = item_id it" for f
    using that cur by (intro turns_patch[OF inv]) blast+
  have failed: "turns st (run_failed env l n b e st)" for b
  proof -
    let ?s = "settleSendNow (hostOf (item_addr n)) (patch (item_id n) (failed_row (now_ms env) b n e) st)"
    have "turns st ?s" by (intro turns_chain turns_patch[OF inv]) (simp_all add: turns_rows row_ids)
    then have "turns st (?s\<lparr>wholeQueueStarted := c\<rparr>)" "turns st ?s" for c by (auto intro: turns_items[rotated])
    then show ?thesis unfolding run_failed_def Let_def by (auto intro!: turns_chain(2,4))
  qed
  show ?thesis
    using failed by (auto simp: run_threw_def Let_def parkForWake_def row_ids can_recover_def turns_refl
        intro!: turns_chain patch)
qed

lemma turns_upload_done: "q_inv st \<Longrightarrow> turns st (upload_done n snap st)"
proof -
  assume inv: "q_inv st"
  have "turns st (patch (item_id n) (upload_done_row snap b) st)" for b
    by (rule turns_patch[OF inv])
       (auto simp: upload_done_row_def Let_def installing_simps past_upload_def sending_def)
  then have "turns st ((patch (item_id n) (upload_done_row snap b) st)\<lparr>installInFlight := g\<rparr>)" for b g
    by (intro turns_items[OF _ \<open>turns st (patch (item_id n) (upload_done_row snap b) st)\<close>]) simp
  with \<open>\<And>b. turns st (patch (item_id n) (upload_done_row snap b) st)\<close> show ?thesis
    by (simp add: upload_done_def Let_def)
qed

lemma turns_start_row:
  assumes "q_inv st" "\<And>it. it \<in> set (items st) \<Longrightarrow> item_id it = item_id n \<Longrightarrow> \<not> installing it"
  shows "turns st (start_row env l n st)"
  unfolding start_row_def by (intro turns_chain turns_patch[OF assms(1)]) (use assms(2) row_ids in auto)

lemma turns_park:
  assumes "q_inv st" "\<And>it. it \<in> set (items st) \<Longrightarrow> item_id it = item_id n \<Longrightarrow> \<not> installing it"
  shows "turns st (parkForWake n st)"
  unfolding parkForWake_def by (intro turns_patch[OF assms(1)]) (use assms(2) row_ids in auto)

lemma turns_loop_event:
  assumes inv: "q_inv st" and l: "l \<in> set (loops st)" and e: "loop_event e l st = Some st'"
  shows "turns st st'"
proof -
  note w = waiting_row[OF inv l]
  show ?thesis
  proof (cases e)
    case (EvHeld env)
    with e show ?thesis
      by (auto simp: after_holding_def turns_refl intro!: turns_chain split: pc.splits option.splits if_splits)
  next
    case (EvTurn env)
    with e w show ?thesis
      by (auto simp: after_hold_def turns_refl intro!: turns_chain turns_park[OF inv] turns_start_row[OF inv]
          split: pc.splits if_splits)
  next
    case (EvSettled env)
    with e w show ?thesis
      by (auto simp: after_settle_def turns_refl intro!: turns_chain turns_start_row[OF inv] split: pc.splits if_splits)
  next
    case (EvDone env r)
    with e show ?thesis
      by (auto simp: run_success_def turns_rows row_ids intro!: turns_chain turns_patch[OF inv] split: pc.splits if_splits)
  next
    case (EvThrew env t)
    with e show ?thesis by (auto simp: turns_run_threw[OF inv] split: pc.splits)
  next
    case (EvBackoff env)
    with e w show ?thesis
      by (auto simp: after_backoff_def turns_refl intro!: turns_chain turns_park[OF inv] split: pc.splits if_splits)
  next
    case EvHealed
    with e w show ?thesis
      by (auto simp: after_healing_def turns_refl row_ids intro!: turns_chain turns_patch[OF inv] split: pc.splits if_splits)
  next
    case (EvUploadDone snap)
    with e show ?thesis
      by (auto simp: turns_upload_done[OF inv] intro!: turns_chain split: pc.splits if_splits bool.splits)
  next
    case (EvJob job)
    have "stays installing st (patch (item_id n) (\<lambda>it. it\<lparr>jobId := Some job\<rparr>) st)" for n
      by (rule stays_row_patch[OF stays_refl]) (simp add: installing_simps)
    then have "stays installing st (job_started l n job st)" for n
      by (auto simp: job_started_def stays_def)
    with EvJob e show ?thesis by (auto intro: turns_stays split: pc.splits bool.splits)
  next
    case EvInstallBegin
    have "stays installing st (install_begin n st)" for n
      by (rule stays_items[of _ "patch (item_id n) (\<lambda>it. it\<lparr>installPhase := Some Installing, installPct := Some 0,
            installProgress := None, installNote := None\<rparr>) st"])
         (auto simp: install_begin_def Let_def installing_simps intro!: stays_row_patch stays_refl)
    with EvInstallBegin e show ?thesis by (auto intro: turns_stays split: pc.splits if_splits)
  next
    case EvInstallEnds
    with e show ?thesis
      by (auto simp: install_over_def Let_def intro!: turns_stays stays_same split: pc.splits if_splits)
  qed (use e in \<open>auto simp: after_wait_def turns_refl installing_simps progress_row_def install_progress_row_def Let_def
        intro!: turns_chain turns_stays[OF stays_row_patch[OF stays_refl]] split: pc.splits if_splits bool.splits\<close>)
qed

lemma turns_row:
  assumes "turns st st'" "q_inv st" "x \<in> set (items st')" "y \<in> set (items st)" "item_id y = item_id x" "installing y"
  shows "past_upload x"
proof -
  from assms(1,3) obtain z where z: "z \<in> set (items st)" "item_id z = item_id x" "installing z \<longrightarrow> past_upload x"
    unfolding turns_def by blast
  then have "z = y" using row_unique[of "items st" z y] assms(2,4,5) by (simp add: q_inv_def)
  with z(3) assms(6) show ?thesis by simp
qed

lemma turns_act:
  assumes inv: "q_inv st" and ok: "act_ok a st"
    and x: "x \<in> set (items (act a st))" and y: "y \<in> set (items st)" "item_id y = item_id x" "installing y"
  shows "past_upload x"
proof -
  have old: "turns (add_item i t n inp st) s \<Longrightarrow> fresh_id i st \<Longrightarrow> x \<in> set (items s) \<Longrightarrow> past_upload x" for i t n inp s
  proof -
    fix s i t n inp
    assume t: "turns (add_item i t n inp st) s" "fresh_id i st" "x \<in> set (items s)"
    then obtain z where z: "z \<in> set (items (add_item i t n inp st))" "item_id z = item_id x" "installing z \<longrightarrow> past_upload x"
      unfolding turns_def by blast
    have "item_id (new_row i t n inp) = i" by (simp add: new_row_def)
    moreover have "item_id z \<in> item_id ` set (items st)" using y z(2) by (metis image_eqI)
    ultimately have "z \<noteq> new_row i t n inp" using t(2) unfolding fresh_id_def by metis
    with z(1) have "z \<in> set (items st)" by (simp add: add_item_def)
    then have "z = y" using row_unique[of "items st" z y] y z(2) inv by (simp add: q_inv_def)
    with y(3) z(3) show "past_upload x" by simp
  qed
  show ?thesis
  proof (cases "(\<exists>i t n inp. a = DoAdd i t n inp) \<or> (\<exists>env i t inp. a = DoEnqueueInstall env i t inp)")
    case True
    then show ?thesis
    proof (elim disjE exE)
      fix i t n inp assume a: "a = DoAdd i t n inp"
      with ok x show ?thesis using old[OF turns_refl, of i] by simp
    next
      fix env i t inp assume a: "a = DoEnqueueInstall env i t inp"
      show ?thesis
      proof (cases "List.find (\<lambda>it. sameInstall it inp) (items st)")
        case None
        have "turns (add_item i t (now_ms env) (install_input inp) st)
            (startAdded env (hostOf (in_host inp)) (add_item i t (now_ms env) (install_input inp) st))"
          by (rule turns_stays) (simp add: startAdded_def stays_startHost stays_refl)
        from old[OF this] ok x a None show ?thesis by (simp add: enqueueInstall_def)
      next
        case (Some e)
        with x a have "x \<in> set (items st)" by (simp add: enqueueInstall_def)
        with y row_unique[of "items st" x y] inv show ?thesis by (auto simp: q_inv_def installing_past)
      qed
    qed
  next
    case False
    then have "turns st (act a st)" by (intro turns_stays stays_act[OF inv]) auto
    from turns_row[OF this inv x y] show ?thesis .
  qed
qed

section \<open>Properties\<close>

text \<open>C1. One upload per console at a time: in every state the queue can reach, whatever the user and the
  engine do and in whatever order, two rows that are sending to the same console are the same row.\<close>

theorem one_upload_per_console:
  assumes "q_reach st" and "a \<in> set (items st)" "b \<in> set (items st)" and "sending a" "sending b"
    and "hostOf (item_addr a) = hostOf (item_addr b)"
  shows "a = b"
proof -
  have inv: "q_inv st" using assms(1) by (rule q_reach_inv)
  then obtain l k where "l \<in> set (loops st)" "l_host l = hostOf (item_addr a)" "live_at (hostGen st) l"
      "cur_id (l_pc l) = Some (item_id a)"
    and "k \<in> set (loops st)" "l_host k = hostOf (item_addr b)" "live_at (hostGen st) k"
      "cur_id (l_pc k) = Some (item_id b)"
    using assms unfolding q_inv_def sends_ok_def by meson
  moreover from this have "l = k" using live_unique inv assms(6) unfolding q_inv_def by metis
  ultimately have "item_id a = item_id b" by simp
  then show ?thesis using row_unique assms(2,3) inv unfolding q_inv_def by blast
qed


text \<open>C2. A running install is never put back in the queue: after any event, the row of an install that
  was running is still installing, or done, or failed, or gone. (Sony's install cannot be taken back,
  and repeating one can undo it.)\<close>

theorem running_install_never_requeued:
  assumes "q_reach st" and "q_next ev st = Some st'"
    and "it \<in> set (items st)" "item_status it = Running" "isInstallWork it"
    and "it' \<in> set (items st')" "item_id it' = item_id it"
  shows "item_status it' \<noteq> Pending \<and> (item_status it' = Running \<longrightarrow> isInstallWork it')"
proof -
  have inv: "q_inv st" using assms(1) by (rule q_reach_inv)
  have i: "installing it" using assms(4,5) by (simp add: installing_def)
  have t: "turns st st' \<Longrightarrow> past_upload it'"
    using turns_row[of st st' it' it] inv assms(3,6,7) i by simp
  have "past_upload it'" using assms(2)
  proof (cases rule: q_next_cases)
    case (user a)
    with turns_act[OF inv, of a it' it] assms(3,6,7) i show ?thesis by simp
  next
    case (loop g e l)
    then show ?thesis by (intro t turns_loop_event[OF inv])
  next
    case (restart r)
    have "stays installing st (restart_end r st)"
      by (auto simp: restart_end_def Let_def intro!: stays_chain stays_refl intro: stays_same split: option.split)
    with restart show ?thesis by (intro t turns_stays) simp
  next
    case (found i now res)
    have "turns st (patch i (found_row now res) st)"
      by (rule turns_patch[OF inv]) (simp_all add: row_ids turns_rows)
    with found show ?thesis by (intro t) simp
  next
    case (reattach i job)
    have "stays installing st (patch i (\<lambda>it. it\<lparr>attachJobId := Some j\<rparr>) st)" for j
      by (rule stays_row_patch[OF stays_refl]) (simp add: installing_simps)
    with reattach show ?thesis
      by (intro t turns_stays) (auto simp: reattach_found_def Let_def stays_refl stays_def split: option.splits)
  qed
  then show ?thesis by (auto simp: past_upload_def sending_def)
qed

section \<open>Runs of two rows\<close>

definition demo_input :: "QueueSourceKind \<Rightarrow> string \<Rightarrow> AddQueueItem" where
  "demo_input kind path =
     \<lparr>add_sourceKind = kind, add_sourcePath = path, add_displayName = path, add_resolvedDest = ''/data/'' @ path,
      add_addr = ''10.0.0.5'', add_fromConsole = None, add_route = None, add_directAddr = None,
      add_strategy = Overwrite, add_reconcileMode = Fast, add_excludes = [], add_rarPassword = None,
      add_mountAfterUpload = False, add_mountReadOnly = True, add_registerAfterUpload = False,
      add_contentId = None, add_category = None, add_estimatedBytes = None, add_installAfterUpload = None,
      add_deletePkgAfterInstall = None, add_install = None, add_deleteSourceAfterUpload = False,
      add_adopt = None, add_txIdHex = None\<rparr>"

definition demo_env :: queue_env where
  "demo_env = \<lparr>now_ms = 1000, autoResume = True, queueAutoStart = True, asleep_hosts = []\<rparr>"

definition demo_snap :: job_snap where
  "demo_snap = \<lparr>snap_bytes = 9, snap_resumed = 0, snap_total = 9, snap_files = 0, snap_files_total = 0,
                snap_verify = None, snap_live = None, snap_dest = None\<rparr>"

definition demo_result :: run_result where
  "demo_result = \<lparr>r_bytesSent = 9, r_bytesPerSec = 3, r_mountedAt = None, r_mountWarnings = [],
                  r_registeredAs = None, r_installPhase = None, r_installedTitle = None,
                  r_installNote = None, r_live = None\<rparr>"

text \<open>A package is added, its console started, and its upload done: it is installing.\<close>

definition demo_install :: "q_event list" where
  "demo_install =
     [User (DoAdd ''p'' ''t'' 1 (demo_input KPkg ''game.pkg'')),
      User (DoStartHost ''10.0.0.5'' no_opts), Loop 1 (EvHeld demo_env), Loop 1 EvChecked,
      Loop 1 (EvTurn demo_env), Loop 1 (EvUploadDone demo_snap)]"

text \<open>Two files for one console: the first is sent, and the second is about to start when it is
  cancelled.\<close>

definition demo_cancelled :: "q_event list" where
  "demo_cancelled =
     [User (DoAdd ''a'' ''t'' 1 (demo_input KFile ''a'')), User (DoAdd ''b'' ''u'' 2 (demo_input KFile ''b'')),
      User (DoStartHost ''10.0.0.5'' no_opts), Loop 1 (EvHeld demo_env), Loop 1 EvChecked,
      Loop 1 (EvTurn demo_env), Loop 1 (EvUploadDone demo_snap), Loop 1 (EvDone demo_env demo_result),
      Loop 1 (EvTurn demo_env), User (DoCancel ''b''), Loop 1 (EvSettled demo_env)]"

text \<open>A package is sent, its console stopped and started again: the second run finishes the upload and
  installs it, and only then the first run notices that it was stopped.\<close>

definition demo_stopped :: "q_event list" where
  "demo_stopped =
     [User (DoAdd ''p'' ''t'' 1 (demo_input KPkg ''game.pkg'')),
      User (DoStartHost ''10.0.0.5'' no_opts), Loop 1 (EvHeld demo_env), Loop 1 EvChecked,
      Loop 1 (EvTurn demo_env), User (DoStopHost ''10.0.0.5''),
      User (DoStartHost ''10.0.0.5'' no_opts), Loop 3 (EvHeld demo_env), Loop 3 EvChecked,
      Loop 3 (EvTurn demo_env), Loop 3 (EvUploadDone demo_snap)]"

definition demo_state :: "q_event list \<Rightarrow> queue_state" where
  "demo_state es = the (q_run es idle_queue)"

definition demo_runs :: "q_event list \<Rightarrow> bool" where
  "demo_runs es \<longleftrightarrow> \<not> Option.is_none (q_run es idle_queue)"

lemma reach_demo_state: "demo_runs es \<Longrightarrow> q_reach (demo_state es)"
  unfolding demo_runs_def demo_state_def
  using q_reach_run[OF _ q_reach_idle] by (cases "q_run es idle_queue") auto

definition demo_sending :: "q_event list" where
  "demo_sending = take 7 demo_cancelled @ [User (DoAdd ''c'' ''v'' 3 (demo_input KFile ''c''))]"

lemma demo_runs_all:
  "demo_runs demo_install" "demo_runs demo_sending" "demo_runs demo_cancelled" "demo_runs demo_stopped"
  "demo_runs (demo_stopped @ [Loop 1 (EvThrew demo_env (OtherError ''queue stopped'' False))])"
  by code_simp+

theorem one_upload_per_console_witness:
  "q_reach (demo_state demo_sending) \<and> length (items (demo_state demo_sending)) = 3 \<and>
   the (List.find sending (items (demo_state demo_sending))) = hd (items (demo_state demo_sending))"
proof (intro conjI)
  let ?s = "demo_state demo_sending" let ?x = "the (List.find sending (items (demo_state demo_sending)))"
  show r: "q_reach ?s" by (rule reach_demo_state) (rule demo_runs_all)
  show "length (items ?s) = 3" by code_simp
  have "?x \<in> set (items ?s)" "hd (items ?s) \<in> set (items ?s)" "sending ?x" "sending (hd (items ?s))"
    "hostOf (item_addr ?x) = hostOf (item_addr (hd (items ?s)))" by code_simp+
  then show "?x = hd (items ?s)" by (rule one_upload_per_console[OF r])
qed


theorem running_install_never_requeued_witness:
  "q_reach (demo_state demo_install) \<and> isInstallWork (hd (items (demo_state demo_install))) \<and>
   item_status (hd (items (act (DoStopHost ''10.0.0.5'') (demo_state demo_install)))) \<noteq> Pending"
proof (intro conjI)
  let ?s = "demo_state demo_install"
  show r: "q_reach ?s" by (rule reach_demo_state) (rule demo_runs_all)
  show w: "isInstallWork (hd (items ?s))" by code_simp
  have e: "q_next (User (DoStopHost ''10.0.0.5'')) ?s = Some (act (DoStopHost ''10.0.0.5'') ?s)"
    by (simp add: q_next_def)
  have m: "hd (items ?s) \<in> set (items ?s)" "item_status (hd (items ?s)) = Running"
    "hd (items (act (DoStopHost ''10.0.0.5'') ?s)) \<in> set (items (act (DoStopHost ''10.0.0.5'') ?s))"
    "item_id (hd (items (act (DoStopHost ''10.0.0.5'') ?s))) = item_id (hd (items ?s))" by code_simp+
  from running_install_never_requeued[OF r e m(1,2) w m(3,4)]
  show "item_status (hd (items (act (DoStopHost ''10.0.0.5'') ?s))) \<noteq> Pending" by simp
qed

section \<open>Interleavings the code does not guard\<close>


text \<open>A run that was stopped reads the row as it is by then: when a later run is already installing it,
  the row is marked failed although that install is still running.\<close>

theorem stopped_run_fails_later_install:
  "q_reach (demo_state demo_stopped) \<and>
   map (\<lambda>it. (item_status it, isInstallWork it)) (items (demo_state demo_stopped)) = [(Running, True)] \<and>
   map item_status (items (demo_state (demo_stopped @ [Loop 1 (EvThrew demo_env (OtherError ''queue stopped'' False))])))
     = [Failed]"
proof (intro conjI)
  show "q_reach (demo_state demo_stopped)" by (rule reach_demo_state) (rule demo_runs_all)
qed code_simp+

text \<open>Retry of one failed package that reached its install installs the copy on the console; Retry of
  all failed rows puts the same package back as an upload.\<close>

lemma retry_all_sends_package_again:
  assumes "sourceKind it = KPkg" "uploadDone it" "installAfterUpload it \<noteq> Some False"
  shows "sourceKind (retryPatch it) = KInstall" and "item_status (retry_failed_row it) = Pending"
    and "sourceKind (retry_failed_row it) = KPkg"
  using assms by (simp_all add: retryPatch_def retry_failed_row_def Let_def retry_cleared_def)

text \<open>Clear ends the runs and leaves them marked as limited runs.\<close>

lemma clear_keeps_limited: "limitedHosts (clear_queue h st) = limitedHosts st"
proof -
  have "limitedHosts (fold clear_host hs st) = limitedHosts st" for hs
    by (induction hs arbitrary: st) (auto simp: clear_host_def cancelJobOf_def split: option.split)
  then show ?thesis by (simp add: clear_queue_def Let_def)
qed

end
