(* ===== verification/Queue_Leader.thy ===== *)
theory Queue_Leader
  imports Js_Prelude
begin

text \<open>
  The election of the tab that runs the upload queue (\<^verbatim>\<open>client/src/lib/queueLeader.ts\<close>): a lease in
  \<^verbatim>\<open>localStorage\<close>, rewritten by its holder, taken over when it has expired or was given up.

  The tabs run in processes of their own, so a claim is split where another tab can come between: it
  reads the lease and decides (\<open>claim_read\<close>), writes it (\<open>claim_write\<close>), and, when it was not its own,
  reads it back after a pause (\<open>claim_settle\<close>). A write that changes the value queues a storage event in
  every other tab. The model lets these steps of any number of tabs interleave in any order and time pass
  between them, so nothing rests on the pause being long enough.
\<close>

section \<open>The lease\<close>

definition LEASE_TTL_MS :: rat where
  "LEASE_TTL_MS = 6000"

record Lease =
  lease_id :: string
  lease_ts :: rat

text \<open>\<open>raw\<close> is the parsed text, \<open>None\<close> when there is none or it is not JSON.\<close>

definition parseLease :: "json option \<Rightarrow> Lease option" where
  "parseLease raw =
     (case raw of
        Some (JObj fs) \<Rightarrow>
          (case (map_of fs ''id'', map_of fs ''ts'') of
             (Some (JStr i), Some (JNum (Some t))) \<Rightarrow> Some \<lparr>lease_id = i, lease_ts = t\<rparr>
           | _ \<Rightarrow> None)
      | _ \<Rightarrow> None)"

definition lease_text :: "string \<Rightarrow> rat \<Rightarrow> json" where
  "lease_text i t = JObj [(''id'', JStr i), (''ts'', JNum (Some t))]"

section \<open>Tabs\<close>

text \<open>Where a tab's claim is: none under way, decided to rewrite its own lease, decided to take the lease, or
  waiting to read it back.\<close>

datatype claim_phase = Idle | Beating | Taking | Settling

record tab =
  tb_leader :: bool
  tb_phase :: claim_phase
  tb_event :: bool

record election =
  el_storage :: "json option"
  el_now :: rat
  el_tabs :: "string \<Rightarrow> tab"

definition read_lease :: "election \<Rightarrow> Lease option" where
  "read_lease s = parseLease (el_storage s)"

definition holder :: "election \<Rightarrow> string option" where
  "holder s = map_option lease_id (read_lease s)"

definition upd_tab :: "string \<Rightarrow> (tab \<Rightarrow> tab) \<Rightarrow> election \<Rightarrow> election" where
  "upd_tab i f s = s\<lparr>el_tabs := (el_tabs s)(i := f (el_tabs s i))\<rparr>"

text \<open>Changing the stored value queues a storage event in the other tabs.\<close>

definition store :: "string \<Rightarrow> json option \<Rightarrow> election \<Rightarrow> election" where
  "store i v s =
     (if v = el_storage s then s
      else s\<lparr>el_storage := v,
             el_tabs := (\<lambda>j. if j = i then el_tabs s j else (el_tabs s j)\<lparr>tb_event := True\<rparr>)\<rparr>)"

definition write_lease :: "string \<Rightarrow> election \<Rightarrow> election" where
  "write_lease i s = store i (Some (lease_text i (el_now s))) s"

text \<open>\<^verbatim>\<open>claim()\<close>, from the heartbeat or a storage event, up to the write. A claim already under way is joined, not
  started again. \<open>has\<close>: the browser has a storage.\<close>

definition claim_read :: "bool \<Rightarrow> string \<Rightarrow> election \<Rightarrow> election" where
  "claim_read has i s =
     (if tb_phase (el_tabs s i) \<noteq> Idle then s
      else if \<not> has then upd_tab i (\<lambda>t. t\<lparr>tb_leader := True\<rparr>) s
      else case read_lease s of
             Some cur \<Rightarrow>
               if lease_id cur \<noteq> i \<and> el_now s - lease_ts cur < LEASE_TTL_MS
               then upd_tab i (\<lambda>t. t\<lparr>tb_leader := False\<rparr>) s
               else if lease_id cur = i \<and> tb_leader (el_tabs s i) then upd_tab i (\<lambda>t. t\<lparr>tb_phase := Beating\<rparr>) s
               else upd_tab i (\<lambda>t. t\<lparr>tb_phase := Taking\<rparr>) s
           | None \<Rightarrow> upd_tab i (\<lambda>t. t\<lparr>tb_phase := Taking\<rparr>) s)"

text \<open>The write; \<open>ok\<close>: it did not throw. A write that fails leaves nothing to coordinate with.\<close>

definition claim_write :: "bool \<Rightarrow> string \<Rightarrow> election \<Rightarrow> election" where
  "claim_write ok i s =
     (case tb_phase (el_tabs s i) of
        Beating \<Rightarrow>
          if \<not> ok then upd_tab i (\<lambda>t. t\<lparr>tb_leader := True, tb_phase := Idle\<rparr>) s
          else upd_tab i (\<lambda>t. t\<lparr>tb_phase := Idle\<rparr>) (write_lease i s)
      | Taking \<Rightarrow>
          if \<not> ok then upd_tab i (\<lambda>t. t\<lparr>tb_leader := True, tb_phase := Idle\<rparr>) s
          else upd_tab i (\<lambda>t. t\<lparr>tb_phase := Settling\<rparr>) (write_lease i s)
      | _ \<Rightarrow> s)"

definition claim_settle :: "string \<Rightarrow> election \<Rightarrow> election" where
  "claim_settle i s =
     (if tb_phase (el_tabs s i) = Settling
      then upd_tab i (\<lambda>t. t\<lparr>tb_leader := (holder s = Some i), tb_phase := Idle\<rparr>) s
      else s)"

definition onStorage :: "bool \<Rightarrow> string \<Rightarrow> election \<Rightarrow> election" where
  "onStorage has i s =
     (if tb_event (el_tabs s i) then claim_read has i (upd_tab i (\<lambda>t. t\<lparr>tb_event := False\<rparr>) s) else s)"

definition relinquish :: "string \<Rightarrow> election \<Rightarrow> election" where
  "relinquish i s =
     upd_tab i (\<lambda>t. t\<lparr>tb_leader := False\<rparr>) (if holder s = Some i then store i None s else s)"

section \<open>The machine\<close>

definition new_tab :: tab where
  "new_tab = \<lparr>tb_leader = False, tb_phase = Idle, tb_event = False\<rparr>"

definition el_init :: "election \<Rightarrow> bool" where
  "el_init s \<longleftrightarrow> (\<forall>i. el_tabs s i = new_tab)"

text \<open>Time passes; a heartbeat; a storage event; the write; the reading back; a tab that goes away. All the tabs
  have a storage that can be written.\<close>

inductive el_step :: "election \<Rightarrow> election \<Rightarrow> bool" where
  el_time: "0 \<le> d \<Longrightarrow> el_step s (s\<lparr>el_now := el_now s + d\<rparr>)"
| el_beat: "el_step s (claim_read True i s)"
| el_event: "el_step s (onStorage True i s)"
| el_write: "el_step s (claim_write True i s)"
| el_settle: "el_step s (claim_settle i s)"
| el_leave: "el_step s (relinquish i s)"

inductive_cases el_stepE: "el_step s t"

text \<open>A tab that leads holds the lease, or is about to look again.\<close>

definition el_fine :: "election \<Rightarrow> string \<Rightarrow> bool" where
  "el_fine s i \<longleftrightarrow>
     (tb_leader (el_tabs s i) \<longrightarrow> holder s = Some i \<or> tb_event (el_tabs s i) \<or> tb_phase (el_tabs s i) \<noteq> Idle)"

definition el_inv :: "election \<Rightarrow> bool" where
  "el_inv s \<longleftrightarrow> (\<forall>i. el_fine s i)"

lemmas el_defs = el_inv_def el_fine_def holder_def read_lease_def upd_tab_def

lemma parse_lease_text [simp]: "parseLease (Some (lease_text i t)) = Some \<lparr>lease_id = i, lease_ts = t\<rparr>"
  by (simp add: parseLease_def lease_text_def)

lemma parseLease_None [simp]: "parseLease None = None"
  by (simp add: parseLease_def)

text \<open>What a tab does to itself leaves the others as they were, and after any change of the stored value they have
  an event queued.\<close>

lemma upd_tab_fine: "j \<noteq> i \<Longrightarrow> el_fine (upd_tab i f s) j = el_fine s j"
  by (simp add: el_defs)

lemma store_fine: "el_fine s j \<Longrightarrow> j \<noteq> i \<Longrightarrow> el_fine (store i v s) j"
  by (simp add: el_defs store_def)

lemma claim_read_fine:
  "el_fine (claim_read True i s) i" "j \<noteq> i \<Longrightarrow> el_fine s j \<Longrightarrow> el_fine (claim_read True i s) j"
  unfolding claim_read_def by (auto simp: el_defs split: option.splits)

lemma claim_read_inv: "el_inv s \<Longrightarrow> el_inv (claim_read True i s)"
  unfolding el_inv_def using claim_read_fine by metis

lemma onStorage_inv: "el_inv s \<Longrightarrow> el_inv (onStorage True i s)"
  unfolding el_inv_def onStorage_def using claim_read_fine upd_tab_fine by metis

lemma write_lease_holder [simp]: "el_storage (write_lease i s) = Some (lease_text i (el_now s))" "holder (write_lease i s) = Some i"
  by (auto simp: write_lease_def store_def holder_def read_lease_def) (metis option.map(2) Lease.select_convs(1) parse_lease_text)+

lemma upd_tab_holder [simp]: "holder (upd_tab i f s) = holder s" "el_tabs (upd_tab i f s) i = f (el_tabs s i)"
  by (simp_all add: holder_def read_lease_def upd_tab_def)

lemma claim_write_inv:
  assumes "el_inv s"
  shows "el_inv (claim_write True i s)"
  unfolding el_inv_def
proof
  show "el_fine (claim_write True i s) j" for j
  proof (cases "j = i")
    case True
    with assms show ?thesis by (cases "tb_phase (el_tabs s i)") (auto simp: claim_write_def el_inv_def el_fine_def)
  next
    case False
    with assms store_fine[of s j i] show ?thesis
      by (cases "tb_phase (el_tabs s i)") (auto simp: claim_write_def write_lease_def el_inv_def upd_tab_fine)
  qed
qed

lemma claim_settle_inv: "el_inv s \<Longrightarrow> el_inv (claim_settle i s)"
  unfolding claim_settle_def by (auto simp: el_defs)

lemma relinquish_inv:
  assumes "el_inv s"
  shows "el_inv (relinquish i s)"
  unfolding el_inv_def
proof
  show "el_fine (relinquish i s) j" for j
  proof (cases "j = i")
    case True
    then show ?thesis by (simp add: relinquish_def el_fine_def upd_tab_def)
  next
    case False
    with assms store_fine[of s j i None] show ?thesis by (simp add: relinquish_def upd_tab_fine el_inv_def)
  qed
qed

interpretation election: invariant_system el_init el_step el_inv
proof
  show "el_inv s" if "el_init s" for s
    using that by (simp add: el_init_def el_inv_def el_fine_def new_tab_def)
  show "el_inv t" if "el_inv s" "el_step s t" for s t
    using that(2,1)
  proof (cases rule: el_step.cases)
    case (el_time d)
    with that(1) show ?thesis by (simp add: el_defs)
  qed (simp_all add: claim_read_inv onStorage_inv claim_write_inv claim_settle_inv relinquish_inv)
qed

section \<open>Properties\<close>


text \<open>The queue is never left without a runner: a lease that is free, unreadable or has expired goes to the tab
  that claims it, which leads as soon as it has read its own claim back; and a lease another tab keeps fresh is not
  touched.\<close>

theorem free_lease_is_taken:
  assumes "tb_phase (el_tabs s i) = Idle"
    and "case read_lease s of None \<Rightarrow> True | Some cur \<Rightarrow> lease_id cur = i \<or> LEASE_TTL_MS \<le> el_now s - lease_ts cur"
    and "t = claim_settle i (claim_write True i (claim_read True i s))"
  shows "tb_leader (el_tabs t i) \<and> read_lease t = Some \<lparr>lease_id = i, lease_ts = el_now s\<rparr>
    \<and> (\<forall>j. j \<noteq> i \<longrightarrow> tb_phase (el_tabs s j) = Idle \<longrightarrow>
          (let u = claim_read True j t in el_storage u = el_storage t \<and> \<not> tb_leader (el_tabs u j) \<and> tb_phase (el_tabs u j) = Idle))"
proof -
  define r where "r = claim_read True i s"
  have r: "el_storage r = el_storage s" "el_now r = el_now s" "\<And>j. j \<noteq> i \<Longrightarrow> el_tabs r j = el_tabs s j"
      "tb_phase (el_tabs r i) = Beating \<and> tb_leader (el_tabs r i) \<or> tb_phase (el_tabs r i) = Taking"
    using assms(1,2) by (auto simp: r_def claim_read_def upd_tab_def split: option.splits)
  define w where "w = claim_write True i r"
  have w: "el_storage w = Some (lease_text i (el_now s))" "el_now w = el_now s"
      "tb_phase (el_tabs w i) = Idle \<and> tb_leader (el_tabs w i) \<or> tb_phase (el_tabs w i) = Settling"
      "\<And>j. j \<noteq> i \<Longrightarrow> tb_phase (el_tabs w j) = tb_phase (el_tabs s j)"
    using r by (auto simp: w_def claim_write_def write_lease_def store_def upd_tab_def)
  have t: "t = claim_settle i w" using assms(3) by (simp add: w_def r_def)
  then have t': "el_storage t = Some (lease_text i (el_now s))" "el_now t = el_now s" "tb_leader (el_tabs t i)"
      "\<And>j. j \<noteq> i \<Longrightarrow> tb_phase (el_tabs t j) = tb_phase (el_tabs s j)"
    using w by (auto simp: claim_settle_def upd_tab_def holder_def read_lease_def)
  then have "read_lease t = Some \<lparr>lease_id = i, lease_ts = el_now s\<rparr>" by (simp add: read_lease_def)
  moreover have "let u = claim_read True j t in el_storage u = el_storage t \<and> \<not> tb_leader (el_tabs u j) \<and> tb_phase (el_tabs u j) = Idle"
    if "j \<noteq> i" "tb_phase (el_tabs s j) = Idle" for j
    using that t' by (simp add: claim_read_def read_lease_def upd_tab_def LEASE_TTL_MS_def Let_def)
  ultimately show ?thesis using t'(3) by blast
qed

section \<open>Witnesses\<close>

definition el0 :: election where
  "el0 = \<lparr>el_storage = None, el_now = 0, el_tabs = (\<lambda>_. new_tab)\<rparr>"


theorem free_lease_is_taken_witness:
  "tb_leader (el_tabs (claim_settle ''A'' (claim_write True ''A'' (claim_read True ''A'' el0))) ''A'')"
  using free_lease_is_taken[of el0 "''A''"] by (simp add: el0_def new_tab_def read_lease_def)

end
