(* ===== verification/Rp_Sps.thy ===== *)
theory Rp_Sps
  imports Js_Prelude "HOL-Library.Word"
begin

unbundle bit_operations_syntax

text \<open>
  The visible size of a remote-play picture, read from the stream's sequence parameter set
  (\<^verbatim>\<open>client/src/lib/rpSps.ts\<close>): the units of an Annex-B stream, their payload without the
  emulation-prevention bytes, the bit reader with Exp-Golomb codes, the parameter sets of HEVC and AVC, and
  when a frame's own visible rectangle is replaced.

  Bytes are \<open>8 word\<close>. A read returns the value and the reader moved on, or the error it throws.
\<close>

type_synonym bytes = "8 word list"

section \<open>The program\<close>

record VisibleRect =
  vr_x :: int
  vr_y :: int
  vr_w :: int
  vr_h :: int

fun rbsp_loop :: "bytes \<Rightarrow> nat \<Rightarrow> bytes" where
  "rbsp_loop [] zeros = []"
| "rbsp_loop (b # bs) zeros =
     (if zeros \<ge> 2 \<and> b = 3 then rbsp_loop bs 0
      else b # rbsp_loop bs (if b = 0 then zeros + 1 else 0))"

definition rbsp :: "bytes \<Rightarrow> bytes" where
  "rbsp nal = rbsp_loop nal 0"

text \<open>The positions after the start codes, and the units between them.\<close>

fun nal_starts :: "bytes \<Rightarrow> nat \<Rightarrow> nat list" where
  "nal_starts (a # b # c # r) i =
     (if a = 0 \<and> b = 0 \<and> c = 1 then (i + 3) # nal_starts r (i + 3) else nal_starts (b # c # r) (i + 1))"
| "nal_starts _ i = []"

fun nal_end :: "bytes \<Rightarrow> nat \<Rightarrow> nat \<Rightarrow> nat" where
  "nal_end stream s 0 = 0"
| "nal_end stream s (Suc e) = (if Suc e > s \<and> stream ! e = 0 then nal_end stream s e else Suc e)"

fun nal_units :: "bytes \<Rightarrow> nat list \<Rightarrow> bytes list" where
  "nal_units stream [] = []"
| "nal_units stream (s # ss) =
     (let e = nal_end stream s (case ss of [] \<Rightarrow> length stream | t # _ \<Rightarrow> t - 3)
      in take (e - s) (drop s stream) # nal_units stream ss)"

definition nals :: "bytes \<Rightarrow> bytes list" where
  "nals stream = nal_units stream (nal_starts stream 0)"

record Bits =
  bt_b :: bytes
  bt_pos :: nat

type_synonym 'a reader = "Bits \<Rightarrow> js_error + ('a \<times> Bits)"

definition rret :: "'a \<Rightarrow> 'a reader" where
  "rret v r = Inr (v, r)"

definition rbind :: "'a reader \<Rightarrow> ('a \<Rightarrow> 'b reader) \<Rightarrow> 'b reader" where
  "rbind m f r = (case m r of Inl e \<Rightarrow> Inl e | Inr (v, r') \<Rightarrow> f v r')"

definition early :: js_error where
  "early = JsError ''SPS ended early''"

fun u_loop :: "nat \<Rightarrow> nat \<Rightarrow> nat reader" where
  "u_loop 0 v r = Inr (v, r)"
| "u_loop (Suc n) v r =
     (if bt_pos r div 8 < length (bt_b r)
      then u_loop n (2 * v + unat (drop_bit (7 - bt_pos r mod 8) (bt_b r ! (bt_pos r div 8)) AND 1))
             (r\<lparr>bt_pos := bt_pos r + 1\<rparr>)
      else Inl early)"

definition u :: "nat \<Rightarrow> nat reader" where
  "u n = u_loop n 0"

definition skip :: "nat \<Rightarrow> unit reader" where
  "skip n r =
     (if bt_pos r + n > length (bt_b r) * 8 then Inl early else Inr ((), r\<lparr>bt_pos := bt_pos r + n\<rparr>))"

text \<open>\<^verbatim>\<open>while (this.u(1) === 0)\<close>: at most 32 rounds, the last of which throws.\<close>

fun ue_zeros :: "nat \<Rightarrow> nat \<Rightarrow> nat reader" where
  "ue_zeros fuel zeros =
     rbind (u 1) (\<lambda>b.
       if b \<noteq> 0 then rret zeros
       else case fuel of
              0 \<Rightarrow> (\<lambda>_. Inl (JsError ''bad Exp-Golomb code''))
            | Suc f \<Rightarrow> ue_zeros f (zeros + 1))"

declare ue_zeros.simps [simp del]

definition ue :: "nat reader" where
  "ue = rbind (ue_zeros 31 0) (\<lambda>zeros. rbind (u zeros) (\<lambda>v. rret (2 ^ zeros - 1 + v)))"

definition se :: "int reader" where
  "se = rbind ue (\<lambda>k. rret (if k mod 2 = 1 then (int k + 1) div 2 else - (int k div 2)))"

fun repeat_r :: "nat \<Rightarrow> 'a reader \<Rightarrow> 'a list reader" where
  "repeat_r 0 m = rret []"
| "repeat_r (Suc n) m = rbind m (\<lambda>v. rbind (repeat_r n m) (\<lambda>vs. rret (v # vs)))"

fun skip_all :: "nat list \<Rightarrow> unit reader" where
  "skip_all [] = rret ()"
| "skip_all (n # ns) = rbind (skip n) (\<lambda>_. skip_all ns)"

text \<open>The flags of the sub-layers and what they say is there.\<close>

definition sub_layer_flags :: "(bool \<times> bool) reader" where
  "sub_layer_flags = rbind (u 1) (\<lambda>p. rbind (u 1) (\<lambda>l. rret (p = 1, l = 1)))"

definition sub_layer_skips :: "(bool \<times> bool) list \<Rightarrow> nat list" where
  "sub_layer_skips fs = concat (map (\<lambda>(p, l). (if p then [88] else []) @ (if l then [8] else [])) fs)"

definition hevc_window :: "nat \<Rightarrow> bool \<Rightarrow> nat \<Rightarrow> nat \<Rightarrow> VisibleRect reader" where
  "hevc_window chroma separate w h =
     (let subW = if \<not> separate \<and> (chroma = 1 \<or> chroma = 2) then 2 else 1;
          subH = if \<not> separate \<and> chroma = 1 then 2 else 1
      in rbind (u 1) (\<lambda>flag.
         if flag = 0 then rret \<lparr>vr_x = 0, vr_y = 0, vr_w = int w, vr_h = int h\<rparr>
         else rbind ue (\<lambda>left. rbind ue (\<lambda>right. rbind ue (\<lambda>top. rbind ue (\<lambda>bottom.
           rret \<lparr>vr_x = subW * int left, vr_y = subH * int top,
                 vr_w = int w - subW * (int left + int right), vr_h = int h - subH * (int top + int bottom)\<rparr>))))))"

definition hevcSps :: "VisibleRect reader" where
  "hevcSps =
     rbind (skip 16) (\<lambda>_. rbind (skip 4) (\<lambda>_. rbind (u 3) (\<lambda>subs. rbind (skip 1) (\<lambda>_. rbind (skip 96) (\<lambda>_.
     rbind (repeat_r subs sub_layer_flags) (\<lambda>flags.
     rbind (skip_all (if subs > 0 then replicate (8 - subs) 2 else [])) (\<lambda>_.
     rbind (skip_all (sub_layer_skips flags)) (\<lambda>_.
     rbind ue (\<lambda>_. rbind ue (\<lambda>chroma.
     rbind (if chroma = 3 then rbind (u 1) (\<lambda>b. rret (b = 1)) else rret False) (\<lambda>separate.
     rbind ue (\<lambda>w. rbind ue (\<lambda>h. hevc_window chroma separate w h)))))))))))))"

definition AVC_HIGH_PROFILES :: "nat set" where
  "AVC_HIGH_PROFILES = {100, 110, 122, 244, 44, 83, 86, 118, 128, 138, 139, 134, 135}"

text \<open>\<^verbatim>\<open>%\<close>: the remainder has the sign of the dividend.\<close>

definition js_rem :: "int \<Rightarrow> int \<Rightarrow> int" where
  "js_rem a m = (if a < 0 then - ((- a) mod m) else a mod m)"

text \<open>One scaling list: \<open>last\<close> and \<open>next\<close> run on, and once \<open>next\<close> is zero nothing more is read.\<close>

fun scaling_list :: "nat \<Rightarrow> int \<Rightarrow> int \<Rightarrow> unit reader" where
  "scaling_list 0 lst nxt = rret ()"
| "scaling_list (Suc n) lst nxt =
     (if nxt \<noteq> 0
      then rbind se (\<lambda>d. let nxt' = js_rem (lst + d + 256) 256
                         in scaling_list n (if nxt' = 0 then lst else nxt') nxt')
      else scaling_list n lst nxt)"

fun scaling_lists :: "nat list \<Rightarrow> unit reader" where
  "scaling_lists [] = rret ()"
| "scaling_lists (sz # sizes) =
     rbind (u 1) (\<lambda>b. if b = 0 then scaling_lists sizes
                      else rbind (scaling_list sz 8 8) (\<lambda>_. scaling_lists sizes))"

definition avc_high :: "(nat \<times> bool) reader" where
  "avc_high =
     rbind ue (\<lambda>chroma.
     rbind (if chroma = 3 then rbind (u 1) (\<lambda>b. rret (b = 1)) else rret False) (\<lambda>separate.
     rbind ue (\<lambda>_. rbind ue (\<lambda>_. rbind (skip 1) (\<lambda>_. rbind (u 1) (\<lambda>b.
     rbind (if b = 1 then scaling_lists (replicate 6 16 @ replicate (if chroma \<noteq> 3 then 2 else 6) 64) else rret ()) (\<lambda>_.
     rret (chroma, separate))))))))"

definition avc_poc :: "unit reader" where
  "avc_poc =
     rbind ue (\<lambda>pocType.
       if pocType = 0 then rbind ue (\<lambda>_. rret ())
       else if pocType = 1 then
         rbind (skip 1) (\<lambda>_. rbind se (\<lambda>_. rbind se (\<lambda>_. rbind ue (\<lambda>n. rbind (repeat_r n se) (\<lambda>_. rret ())))))
       else rret ())"

definition avc_window :: "nat \<Rightarrow> bool \<Rightarrow> nat \<Rightarrow> nat \<Rightarrow> nat \<Rightarrow> VisibleRect reader" where
  "avc_window chroma separate frameMbsOnly mbsW mapH =
     (let w = int mbsW * 16; h = (2 - int frameMbsOnly) * int mapH * 16;
          arrayType = if separate then 0 else chroma;
          cropX = (if arrayType = 0 \<or> arrayType = 3 then 1 else 2) :: int;
          cropY = (if arrayType = 0 then 1 else if arrayType = 1 then 2 else 1) * (2 - int frameMbsOnly)
      in rbind (u 1) (\<lambda>flag.
         if flag = 0 then rret \<lparr>vr_x = 0, vr_y = 0, vr_w = w, vr_h = h\<rparr>
         else rbind ue (\<lambda>left. rbind ue (\<lambda>right. rbind ue (\<lambda>top. rbind ue (\<lambda>bottom.
           rret \<lparr>vr_x = cropX * int left, vr_y = cropY * int top,
                 vr_w = w - cropX * (int left + int right), vr_h = h - cropY * (int top + int bottom)\<rparr>))))))"

definition avcSps :: "VisibleRect reader" where
  "avcSps =
     rbind (skip 8) (\<lambda>_. rbind (u 8) (\<lambda>profileIdc. rbind (skip 16) (\<lambda>_. rbind ue (\<lambda>_.
     rbind (if profileIdc \<in> AVC_HIGH_PROFILES then avc_high else rret (1, False)) (\<lambda>(chroma, separate).
     rbind ue (\<lambda>_. rbind avc_poc (\<lambda>_. rbind ue (\<lambda>_. rbind (skip 1) (\<lambda>_.
     rbind ue (\<lambda>mw. rbind ue (\<lambda>mh. rbind (u 1) (\<lambda>frameMbsOnly.
     rbind (if frameMbsOnly = 0 then skip 1 else rret ()) (\<lambda>_. rbind (skip 1) (\<lambda>_.
     avc_window chroma separate frameMbsOnly (mw + 1) (mh + 1)))))))))))))))"

definition is_sps :: "bool \<Rightarrow> bytes \<Rightarrow> bool" where
  "is_sps hevc nal \<longleftrightarrow>
     length nal \<ge> 2 \<and> (if hevc then drop_bit 1 (nal ! 0) AND 0x3f = 33 else nal ! 0 AND 0x1f = 7)"

definition spsVisibleRect :: "bytes \<Rightarrow> bool \<Rightarrow> VisibleRect option" where
  "spsVisibleRect header hevc =
     (case List.find (is_sps hevc) (nals header) of
        None \<Rightarrow> None
      | Some nal \<Rightarrow>
          (case (if hevc then hevcSps else avcSps) \<lparr>bt_b = rbsp nal, bt_pos = 0\<rparr> of
             Inl _ \<Rightarrow> None
           | Inr (v, _) \<Rightarrow> if vr_w v > 0 \<and> vr_h v > 0 \<and> vr_x v \<ge> 0 \<and> vr_y v \<ge> 0 then Some v else None))"

record video_frame =
  codedWidth :: int
  codedHeight :: int
  visibleRect :: "(int \<times> int) option"

definition visibleFix :: "video_frame \<Rightarrow> VisibleRect option \<Rightarrow> VisibleRect option" where
  "visibleFix frame sps =
     (case (sps, visibleRect frame) of
        (Some s, Some (w, h)) \<Rightarrow>
          if w \<ge> vr_w s - 16 \<and> h \<ge> vr_h s - 16 then None
          else if vr_x s + vr_w s > codedWidth frame \<or> vr_y s + vr_h s > codedHeight frame then None
          else Some s
      | _ \<Rightarrow> None)"

text \<open>\<^verbatim>\<open>toString(16).toUpperCase()\<close>.\<close>

fun show_hex :: "nat \<Rightarrow> string" where
  "show_hex n =
     (if n < 16 then [char_of (if n < 10 then 48 + n else 55 + n)]
      else show_hex (n div 16) @ [char_of (if n mod 16 < 10 then 48 + n mod 16 else 55 + n mod 16)])"

declare show_hex.simps [simp del]

fun drop_zeros :: "nat list \<Rightarrow> nat list" where
  "drop_zeros [] = []"
| "drop_zeros [b] = [b]"
| "drop_zeros (b # c # bs) =
     (case drop_zeros (c # bs) of [d] \<Rightarrow> if d = 0 then [b] else [b, d] | ds \<Rightarrow> b # ds)"

fun join_dots :: "string list \<Rightarrow> string" where
  "join_dots [] = []"
| "join_dots [w] = w"
| "join_dots (w # v # ws) = w @ ''.'' @ join_dots (v # ws)"

definition codec_reader :: "string reader" where
  "codec_reader =
     rbind (skip 16) (\<lambda>_. rbind (skip 8) (\<lambda>_. rbind (u 2) (\<lambda>space. rbind (u 1) (\<lambda>tier. rbind (u 5) (\<lambda>profile.
     rbind (repeat_r 32 (u 1)) (\<lambda>flags. rbind (repeat_r 6 (u 8)) (\<lambda>constraint. rbind (u 8) (\<lambda>level.
     rret (''hev1.'' @ [[], ''A'', ''B'', ''C''] ! space @ show_nat profile @ ''.''
           @ show_hex (\<Sum>i < 32. flags ! i * 2 ^ i) @ ''.'' @ (if tier \<noteq> 0 then ''H'' else ''L'') @ show_nat level @ ''.''
           @ join_dots (map show_hex (drop_zeros constraint)))))))))))"

definition hevcCodecString :: "bytes \<Rightarrow> string option" where
  "hevcCodecString header =
     (case List.find (is_sps True) (nals header) of
        None \<Rightarrow> None
      | Some nal \<Rightarrow>
          (case codec_reader \<lparr>bt_b = rbsp nal, bt_pos = 0\<rparr> of Inl _ \<Rightarrow> None | Inr (c, _) \<Rightarrow> Some c))"

section \<open>What the reader reads\<close>

text \<open>The bits of bytes, first bit first.\<close>

definition byte_bits :: "8 word \<Rightarrow> bool list" where
  "byte_bits b = map (\<lambda>i. bit b (7 - i)) [0 ..< 8]"

definition bits_of :: "bytes \<Rightarrow> bool list" where
  "bits_of bs = concat (map byte_bits bs)"

fun bits_value :: "bool list \<Rightarrow> nat \<Rightarrow> nat" where
  "bits_value [] v = v"
| "bits_value (b # bs) v = bits_value bs (2 * v + (if b then 1 else 0))"

text \<open>\<open>reads m bs v\<close>: on any stream that goes on with the bits \<open>bs\<close> the reader returns \<open>v\<close> and stands behind them.\<close>

definition reads :: "'a reader \<Rightarrow> bool list \<Rightarrow> 'a \<Rightarrow> bool" where
  "reads m bs v \<longleftrightarrow>
     (\<forall>r rest. bt_pos r \<le> 8 * length (bt_b r) \<longrightarrow> drop (bt_pos r) (bits_of (bt_b r)) = bs @ rest \<longrightarrow>
        m r = Inr (v, r\<lparr>bt_pos := bt_pos r + length bs\<rparr>))"

named_theorems reads_intro \<open>what the pieces of a reader read\<close>

lemma length_byte_bits [simp]: "length (byte_bits b) = 8"
  by (simp add: byte_bits_def)

lemma length_bits_of [simp]: "length (bits_of bs) = 8 * length bs"
  by (induction bs) (simp_all add: bits_of_def)

lemma bits_of_nth: "i < 8 * length bs \<Longrightarrow> bits_of bs ! i = bit (bs ! (i div 8)) (7 - i mod 8)"
proof (induction bs arbitrary: i)
  case (Cons b bs)
  show ?case
  proof (cases "i < 8")
    case True
    then show ?thesis by (simp add: bits_of_def nth_append byte_bits_def)
  next
    case False
    then have "i div 8 = Suc ((i - 8) div 8)" "i mod 8 = (i - 8) mod 8" by (simp_all add: le_div_geq le_mod_geq)
    with False Cons show ?thesis by (simp add: bits_of_def nth_append)
  qed
qed simp

lemma bit_and_one: "unat (drop_bit n b AND 1 :: 8 word) = (if bit b n then 1 else 0)"
  by (simp add: and_one_eq odd_iff_mod_2_eq_one bit_iff_odd_drop_bit flip: unat_mod)

lemma u_loop_reads:
  "drop (bt_pos r) (bits_of (bt_b r)) = bs @ rest \<Longrightarrow> length bs = n \<Longrightarrow>
     u_loop n v r = Inr (bits_value bs v, r\<lparr>bt_pos := bt_pos r + n\<rparr>)"
proof (induction n arbitrary: r bs v)
  case (Suc n)
  then obtain b cs where bs: "bs = b # cs" "length cs = n" by (cases bs) auto
  let ?p = "bt_pos r" and ?B = "bits_of (bt_b r)"
  have d: "drop ?p ?B = b # cs @ rest" using Suc.prems bs by simp
  then have p: "?p < length ?B" by (metis drop_all leI list.distinct(1))
  then have "?B ! ?p = b" "drop (Suc ?p) ?B = cs @ rest"
    using d by (metis Cons_nth_drop_Suc list.inject)+
  moreover from p have "?p div 8 < length (bt_b r)" by (simp add: less_mult_imp_div_less mult.commute)
  ultimately show ?case
    using Suc.IH[of "r\<lparr>bt_pos := Suc ?p\<rparr>" cs "2 * v + (if b then 1 else 0)"] bs p bits_of_nth[of ?p "bt_b r"]
    by (simp add: bit_and_one)
qed simp

lemma reads_u [reads_intro]: "length bs = n \<Longrightarrow> reads (u n) bs (bits_value bs 0)"
  unfolding reads_def u_def using u_loop_reads by fastforce

lemma reads_room: "p \<le> 8 * length b \<Longrightarrow> drop p (bits_of b) = bs @ rest \<Longrightarrow> p + length bs \<le> 8 * length b"
  by (drule arg_cong[of _ _ length]) auto

lemma reads_skip [reads_intro]: "length bs = n \<Longrightarrow> reads (skip n) bs ()"
  unfolding reads_def skip_def using reads_room by (fastforce simp: mult.commute)

lemma reads_rret [reads_intro]: "reads (rret v) [] v"
  by (simp add: reads_def rret_def)

lemma reads_rbind [reads_intro]: "reads m bs v \<Longrightarrow> reads (f v) cs w \<Longrightarrow> reads (rbind m f) (bs @ cs) w"
proof (unfold reads_def, intro allI impI)
  fix r :: Bits and rest
  assume m: "\<forall>r rest. bt_pos r \<le> 8 * length (bt_b r) \<longrightarrow> drop (bt_pos r) (bits_of (bt_b r)) = bs @ rest \<longrightarrow>
      m r = Inr (v, r\<lparr>bt_pos := bt_pos r + length bs\<rparr>)"
    and f: "\<forall>r rest. bt_pos r \<le> 8 * length (bt_b r) \<longrightarrow> drop (bt_pos r) (bits_of (bt_b r)) = cs @ rest \<longrightarrow>
      f v r = Inr (w, r\<lparr>bt_pos := bt_pos r + length cs\<rparr>)"
    and p: "bt_pos r \<le> 8 * length (bt_b r)" and d: "drop (bt_pos r) (bits_of (bt_b r)) = (bs @ cs) @ rest"
  let ?r = "r\<lparr>bt_pos := bt_pos r + length bs\<rparr>"
  have "m r = Inr (v, ?r)" using m p d by (metis append.assoc)
  moreover have "f v ?r = Inr (w, ?r\<lparr>bt_pos := bt_pos ?r + length cs\<rparr>)"
  proof -
    have "drop (bt_pos ?r) (bits_of (bt_b ?r)) = drop (length bs) (drop (bt_pos r) (bits_of (bt_b r)))"
      by (simp add: add.commute)
    also have "\<dots> = cs @ rest" unfolding d by simp
    finally show ?thesis using f[rule_format, of ?r rest] reads_room[OF p d] by simp
  qed
  ultimately show "rbind m f r = Inr (w, r\<lparr>bt_pos := bt_pos r + length (bs @ cs)\<rparr>)"
    by (simp add: rbind_def add.assoc)
qed

lemma reads_cong: "reads m bs v \<Longrightarrow> bs = cs \<Longrightarrow> v = w \<Longrightarrow> reads m cs w"
  by simp

lemma reads_repeat:
  "(\<And>x. x \<in> set xs \<Longrightarrow> reads m (code x) (f x)) \<Longrightarrow> reads (repeat_r (length xs) m) (concat (map code xs)) (map f xs)"
proof (induction xs)
  case (Cons x xs)
  have "reads (rbind m (\<lambda>v. rbind (repeat_r (length xs) m) (\<lambda>vs. rret (v # vs)))) (code x @ (concat (map code xs) @ [])) (f x # map f xs)"
    by (rule reads_rbind[where v = "f x"], use Cons.prems in simp, rule reads_rbind[where v = "map f xs"], use Cons in simp, rule reads_rret)
  then show ?case by simp
qed (simp add: reads_rret)

lemma reads_skip_all: "map length bss = ns \<Longrightarrow> reads (skip_all ns) (concat bss) ()"
proof (induction ns arbitrary: bss)
  case (Cons n ns)
  then obtain b bs where "bss = b # bs" "length b = n" "map length bs = ns" by (cases bss) auto
  with Cons.IH show ?case by (auto intro!: reads_intro)
qed (simp add: reads_rret)

section \<open>Exp-Golomb codes\<close>

text \<open>The code of \<open>k\<close>: as many zeros as \<open>k + 1\<close> has bits behind its first one, then \<open>k + 1\<close> in binary.\<close>

fun binary :: "nat \<Rightarrow> bool list" where
  "binary n = (if n < 2 then [n = 1] else binary (n div 2) @ [odd n])"

declare binary.simps [simp del]

definition ue_code :: "nat \<Rightarrow> bool list" where
  "ue_code k = replicate (length (binary (k + 1)) - 1) False @ binary (k + 1)"

lemma bits_value_append: "bits_value (bs @ cs) v = bits_value cs (bits_value bs v)"
  by (induction bs arbitrary: v) auto

lemma bits_value_shift: "bits_value bs v = v * 2 ^ length bs + bits_value bs 0"
proof (induction bs arbitrary: v)
  case (Cons b bs)
  show ?case using Cons[of "2 * v + (if b then 1 else 0)"] Cons[of "if b then 1 else 0"] by (simp add: algebra_simps)
qed simp

lemma binary_value: "bits_value (binary n) 0 = n"
proof (induction n rule: binary.induct)
  case (1 n)
  show ?case
  proof (cases "n < 2")
    case True
    then show ?thesis by (subst binary.simps) auto
  next
    case False
    have "2 * (n div 2) + (if odd n then 1 else 0) = n" by (cases "odd n") presburger+
    with 1 False show ?thesis by (subst binary.simps) (simp add: bits_value_append)
  qed
qed

lemma binary_hd: "n > 0 \<Longrightarrow> \<exists>bs. binary n = True # bs"
proof (induction n rule: binary.induct)
  case (1 n)
  show ?case
  proof (cases "n < 2")
    case True
    with 1 show ?thesis by (subst binary.simps) auto
  next
    case False
    with 1 obtain bs where "binary (n div 2) = True # bs" by fastforce
    with False show ?thesis by (subst binary.simps) simp
  qed
qed

lemma reads_ue_zeros:
  "z \<le> f \<Longrightarrow> reads (ue_zeros f k) (replicate z False @ [True]) (k + z)"
proof (induction z arbitrary: f k)
  case 0
  have "reads (ue_zeros f k) ([True] @ []) k"
    by (subst ue_zeros.simps, rule reads_rbind, rule reads_u) (auto intro: reads_rret)
  then show ?case by simp
next
  case (Suc z)
  then obtain f' where f: "f = Suc f'" "z \<le> f'" by (cases f) auto
  have "reads (ue_zeros f k) ([False] @ (replicate z False @ [True])) (Suc k + z)"
    unfolding f by (subst ue_zeros.simps, rule reads_rbind, rule reads_u) (use Suc.IH[OF f(2), of "Suc k"] in auto)
  then show ?case by simp
qed

lemma reads_ue [reads_intro]:
  assumes "k + 1 < 2 ^ 32"
  shows "reads ue (ue_code k) k"
proof -
  obtain bs where bs: "binary (k + 1) = True # bs" using binary_hd[of "k + 1"] by auto
  let ?z = "length bs"
  have v: "2 ^ ?z + bits_value bs 0 = k + 1"
    using binary_value[of "k + 1"] bits_value_shift[of bs 1] bs by simp
  have "(2 :: nat) ^ ?z < 2 ^ 32" using v assms by linarith
  then have z: "?z \<le> 31" using power_less_imp_less_exp[of "2 :: nat" ?z 32] by simp
  have "reads ue ((replicate ?z False @ [True]) @ (bs @ [])) (2 ^ ?z - 1 + bits_value bs 0)"
    unfolding ue_def
    by (rule reads_rbind[where v = "?z"], use reads_ue_zeros[OF z, of 0] in simp, rule reads_rbind, rule reads_u, rule refl, rule reads_rret)
  moreover have "2 ^ ?z - 1 + bits_value bs 0 = k" using v by (metis add.commute add_diff_assoc2 add_diff_cancel_right' one_le_numeral one_le_power)
  ultimately show ?thesis unfolding ue_code_def bs by simp
qed

section \<open>A written stream\<close>

text \<open>The writer's side, from the standards: emulation prevention puts a 3 before a byte of at most 3 behind two zeros; a
  stream is its units, each behind a start code.\<close>

fun escape :: "bytes \<Rightarrow> nat \<Rightarrow> bytes" where
  "escape [] z = []"
| "escape (b # bs) z =
     (if z \<ge> 2 \<and> b \<le> 3 then 3 # b # escape bs (if b = 0 then 1 else 0)
      else b # escape bs (if b = 0 then z + 1 else 0))"

fun annexb :: "bytes list \<Rightarrow> bytes" where
  "annexb [] = []"
| "annexb (e # es) = 0 # 0 # 0 # 1 # e @ annexb es"

text \<open>No start code in what follows \<open>z\<close> zeros.\<close>

fun clean :: "nat \<Rightarrow> bytes \<Rightarrow> bool" where
  "clean z [] = True"
| "clean z (b # bs) = ((z \<ge> 2 \<longrightarrow> b \<noteq> 1) \<and> clean (if b = 0 then z + 1 else 0) bs)"

definition good_unit :: "bytes \<Rightarrow> bool" where
  "good_unit e \<longleftrightarrow> e \<noteq> [] \<and> last e \<noteq> 0 \<and> clean 0 e"

lemma rbsp_escape: "rbsp_loop (escape bs z) z = bs"
  by (induction bs arbitrary: z) auto

lemma escape_clean: "clean z (escape bs z)"
  by (induction bs z rule: escape.induct) auto

lemma escape_last: "bs \<noteq> [] \<Longrightarrow> escape bs z \<noteq> [] \<and> last (escape bs z) = last bs"
  by (induction bs z rule: escape.induct) auto

lemma good_escape: "b \<noteq> [] \<Longrightarrow> last b \<noteq> 0 \<Longrightarrow> good_unit (escape b 0)"
  using escape_last escape_clean by (simp add: good_unit_def)

lemma clean_mono: "clean z xs \<Longrightarrow> z' \<le> z \<Longrightarrow> clean z' xs"
proof (induction xs arbitrary: z z')
  case (Cons b xs)
  then show ?case using Cons.IH[of "Suc z" "Suc z'"] by (auto split: if_splits)
qed simp

lemma annexb_cases: "annexb es = [] \<or> (\<exists>r. annexb es = 0 # 0 # 0 # 1 # r)"
  by (cases es) auto

text \<open>The search for a start code runs over a unit without finding one.\<close>

lemma starts_skip:
  "clean 0 xs \<Longrightarrow> xs \<noteq> [] \<Longrightarrow> last xs \<noteq> 0 \<Longrightarrow> nal_starts (xs @ annexb es) i = nal_starts (annexb es) (i + length xs)"
proof (induction xs arbitrary: i)
  case (Cons x xs)
  show ?case
  proof (cases xs)
    case Nil
    then show ?thesis using Cons.prems annexb_cases[of es] by auto
  next
    case (Cons y ys)
    have "clean 0 xs" using Cons.prems(1) clean_mono by auto
    then have IH: "nal_starts (xs @ annexb es) (i + 1) = nal_starts (annexb es) (i + 1 + length xs)"
      using Cons.IH Cons.prems Cons by simp
    show ?thesis
    proof (cases ys)
      case Nil
      then show ?thesis using Cons.prems \<open>xs = y # ys\<close> IH annexb_cases[of es] by auto
    next
      case (Cons z zs)
      then have "\<not> (x = 0 \<and> y = 0 \<and> z = 1)" using Cons.prems(1) \<open>xs = y # ys\<close> by auto
      then show ?thesis using Cons \<open>xs = y # ys\<close> IH by auto
    qed
  qed
qed simp

lemma nal_end_nonzero: "e > 0 \<Longrightarrow> stream ! (e - 1) \<noteq> 0 \<Longrightarrow> nal_end stream s e = e"
  by (cases e) auto

lemma nal_end_zero: "s \<le> e \<Longrightarrow> stream ! e = 0 \<Longrightarrow> nal_end stream s (e + 1) = nal_end stream s e"
  by simp

declare nal_end.simps [simp del]

lemma nal_units_annexb:
  "(\<And>e. e \<in> set es \<Longrightarrow> good_unit e) \<Longrightarrow> length pre = i \<Longrightarrow>
     nal_units (pre @ annexb es) (nal_starts (annexb es) i) = es"
proof (induction es arbitrary: pre i)
  case (Cons e es)
  let ?stream = "pre @ annexb (e # es)" and ?s = "i + 4"
  have g: "e \<noteq> []" "last e \<noteq> 0" "clean 0 e" using Cons.prems(1)[of e] by (auto simp: good_unit_def)
  have st: "nal_starts (annexb (e # es)) i = ?s # nal_starts (annexb es) (?s + length e)"
    using starts_skip[OF g(3,1,2), of es "i + 4"] by (simp add: numeral_eq_Suc)
  have IH: "nal_units ((pre @ [0, 0, 0, 1] @ e) @ annexb es) (nal_starts (annexb es) (?s + length e)) = es"
    by (rule Cons.IH) (use Cons.prems in auto)
  have unit: "take (length e) (drop ?s ?stream) = e" using Cons.prems(2) by simp
  have last: "?stream ! (?s + length e - 1) \<noteq> 0"
    using g(1,2) Cons.prems(2) by (simp add: nth_append last_conv_nth)
  have end0: "nal_end ?stream ?s (?s + length e) = ?s + length e"
    using last by (intro nal_end_nonzero) auto
  have en: "nal_end ?stream ?s (case nal_starts (annexb es) (?s + length e) of [] \<Rightarrow> length ?stream | t # _ \<Rightarrow> t - 3) = ?s + length e"
  proof (cases es)
    case Nil
    then have "length ?stream = ?s + length e" "nal_starts (annexb es) (?s + length e) = []" using Cons.prems(2) by simp_all
    with end0 show ?thesis by (simp only: list.case)
  next
    case (Cons d ds)
    then have "nal_starts (annexb es) (?s + length e) = (?s + length e + 4) # nal_starts (d @ annexb ds) (?s + length e + 4)"
      by (simp add: numeral_eq_Suc)
    moreover have "?stream ! (?s + length e) = 0" using Cons Cons.prems(2) by (simp add: nth_append)
    moreover have "?s + length e + 4 - 3 = (?s + length e) + 1" by simp
    ultimately show ?thesis using end0 nal_end_zero[of ?s "?s + length e" ?stream] by (simp only: list.case le_add1)
  qed
  have stream: "(pre @ [0, 0, 0, 1] @ e) @ annexb es = ?stream" by simp
  show ?case
    unfolding st nal_units.simps Let_def en diff_add_inverse unit IH[unfolded stream] ..
qed simp

lemma nals_annexb: "\<forall>e \<in> set es. good_unit e \<Longrightarrow> nals (annexb es) = es"
  using nal_units_annexb[of es "[]" 0] by (simp add: nals_def)

section \<open>A written HEVC parameter set\<close>

text \<open>The fields of the syntax up to the conformance window; bits that are skipped are given as bits, a sub-layer as its
  profile and its level where present.\<close>

record hevc_fields =
  hf_header :: "bool list"
  hf_vps :: "bool list"
  hf_nesting :: bool
  hf_ptl :: "bool list"
  hf_layers :: "(bool list option \<times> bool list option) list"
  hf_pad :: "bool list"
  hf_id :: nat
  hf_chroma :: nat
  hf_separate :: bool
  hf_width :: nat
  hf_height :: nat
  hf_window :: "(nat \<times> nat \<times> nat \<times> nat) option"

definition opt_bits :: "bool list option \<Rightarrow> bool list" where
  "opt_bits o' = (case o' of None \<Rightarrow> [] | Some bs \<Rightarrow> bs)"

definition three_bits :: "nat \<Rightarrow> bool list" where
  "three_bits n = [bit n 2, bit n 1, bit n 0]"

definition window_code :: "(nat \<times> nat \<times> nat \<times> nat) option \<Rightarrow> bool list" where
  "window_code win =
     (case win of None \<Rightarrow> [False] | Some (l, r, t, b) \<Rightarrow> [True] @ ue_code l @ ue_code r @ ue_code t @ ue_code b @ [])"

definition hevc_code :: "hevc_fields \<Rightarrow> bool list" where
  "hevc_code f =
     hf_header f @ hf_vps f @ three_bits (length (hf_layers f)) @ [hf_nesting f] @ hf_ptl f
     @ concat (map (\<lambda>(p, l). [p \<noteq> None, l \<noteq> None]) (hf_layers f)) @ hf_pad f
     @ concat (map (\<lambda>(p, l). opt_bits p @ opt_bits l) (hf_layers f))
     @ ue_code (hf_id f) @ ue_code (hf_chroma f) @ (if hf_chroma f = 3 then [hf_separate f] else [])
     @ ue_code (hf_width f) @ ue_code (hf_height f) @ window_code (hf_window f)"

definition hevc_ok :: "hevc_fields \<Rightarrow> bool" where
  "hevc_ok f \<longleftrightarrow>
     length (hf_header f) = 16 \<and> length (hf_vps f) = 4 \<and> length (hf_ptl f) = 96 \<and> length (hf_layers f) < 8
     \<and> length (hf_pad f) = (if hf_layers f = [] then 0 else 2 * (8 - length (hf_layers f)))
     \<and> list_all (\<lambda>(p, l). (\<forall>bs. p = Some bs \<longrightarrow> length bs = 88) \<and> (\<forall>bs. l = Some bs \<longrightarrow> length bs = 8)) (hf_layers f)
     \<and> list_all (\<lambda>k. k + 1 < 2 ^ 32)
         ([hf_id f, hf_chroma f, hf_width f, hf_height f]
          @ (case hf_window f of None \<Rightarrow> [] | Some (l, r, t, b) \<Rightarrow> [l, r, t, b]))"

text \<open>The visible picture of the standard: the coded size less the window, in units of the chroma subsampling.\<close>

definition hevc_visible :: "hevc_fields \<Rightarrow> VisibleRect" where
  "hevc_visible f =
     (let separate = (hf_chroma f = 3 \<and> hf_separate f);
          sw = (if \<not> separate \<and> (hf_chroma f = 1 \<or> hf_chroma f = 2) then 2 else 1);
          sh = (if \<not> separate \<and> hf_chroma f = 1 then 2 else 1)
      in case hf_window f of
           None \<Rightarrow> \<lparr>vr_x = 0, vr_y = 0, vr_w = int (hf_width f), vr_h = int (hf_height f)\<rparr>
         | Some (l, r, t, b) \<Rightarrow>
             \<lparr>vr_x = sw * int l, vr_y = sh * int t, vr_w = int (hf_width f) - sw * (int l + int r),
              vr_h = int (hf_height f) - sh * (int t + int b)\<rparr>)"

lemma reads_flag: "reads (u 1) [b] (if b then 1 else 0)"
  using reads_u[of "[b]" 1] by simp

lemma reads_u3: "n < 8 \<Longrightarrow> reads (u 3) (three_bits n) n"
proof -
  assume "n < 8"
  then have "n \<in> {0, 1, 2, 3, 4, 5, 6, 7}" by auto
  then have "bits_value (three_bits n) 0 = n" by (auto simp: three_bits_def bit_iff_odd)
  with reads_u[of "three_bits n" 3] show ?thesis by (simp add: three_bits_def)
qed

lemma flag_one: "(if b then 1 else 0) = (1 :: nat) \<longleftrightarrow> b"
  by simp

lemma reads_flags: "reads sub_layer_flags [a, b] (a, b)"
proof -
  have "reads sub_layer_flags ([a] @ [b] @ []) ((if a then 1 else 0) = (1 :: nat), (if b then 1 else 0) = (1 :: nat))"
    unfolding sub_layer_flags_def by (rule reads_rbind, rule reads_flag, rule reads_rbind, rule reads_flag, rule reads_rret)
  then show ?thesis unfolding flag_one by simp
qed

lemma reads_pad: "length bs = 2 * k \<Longrightarrow> reads (skip_all (replicate k 2)) bs ()"
proof (induction k arbitrary: bs)
  case (Suc k)
  then obtain a b cs where bs: "bs = [a, b] @ cs" "length cs = 2 * k"
    by (cases bs; cases "tl bs") auto
  have "reads (rbind (skip 2) (\<lambda>_. skip_all (replicate k 2))) ([a, b] @ cs) ()"
    by (rule reads_rbind, rule reads_skip) (use Suc.IH bs in auto)
  then show ?case by (simp add: bs)
qed (simp add: reads_rret)

definition layer_parts :: "bool list option \<times> bool list option \<Rightarrow> bool list list" where
  "layer_parts = (\<lambda>(p, l). (case p of None \<Rightarrow> [] | Some bs \<Rightarrow> [bs]) @ (case l of None \<Rightarrow> [] | Some bs \<Rightarrow> [bs]))"

lemma reads_layers:
  assumes "list_all (\<lambda>(p, l). (\<forall>bs. p = Some bs \<longrightarrow> length bs = 88) \<and> (\<forall>bs. l = Some bs \<longrightarrow> length bs = 8)) ls"
  shows "reads (skip_all (sub_layer_skips (map (\<lambda>(p, l). (p \<noteq> None, l \<noteq> None)) ls)))
    (concat (map (\<lambda>(p, l). opt_bits p @ opt_bits l) ls)) ()"
proof -
  have "map length (concat (map layer_parts ls)) = sub_layer_skips (map (\<lambda>(p, l). (p \<noteq> None, l \<noteq> None)) ls)"
    using assms by (induction ls) (auto simp: layer_parts_def sub_layer_skips_def split: option.splits)
  moreover have "concat (concat (map layer_parts ls)) = concat (map (\<lambda>(p, l). opt_bits p @ opt_bits l) ls)"
    by (induction ls) (auto simp: layer_parts_def opt_bits_def split: option.splits)
  ultimately show ?thesis using reads_skip_all[of "concat (map layer_parts ls)"] by metis
qed

lemma reads_layer_flags:
  "reads (repeat_r (length ls) sub_layer_flags) (concat (map (\<lambda>(p, l). [p \<noteq> None, l \<noteq> None]) ls))
     (map (\<lambda>(p, l). (p \<noteq> None, l \<noteq> None)) ls)"
  by (rule reads_repeat) (auto intro: reads_flags)

lemma reads_separate:
  "reads (if chroma = 3 then rbind (u 1) (\<lambda>b. rret (b = 1)) else rret False)
     (if chroma = 3 then [sep] else []) (chroma = (3 :: nat) \<and> sep)"
proof -
  have "reads (rbind (u 1) (\<lambda>b. rret (b = 1))) ([sep] @ []) ((if sep then 1 else 0) = (1 :: nat))"
    by (rule reads_rbind, rule reads_flag, rule reads_rret)
  then show ?thesis unfolding flag_one by (auto intro: reads_rret)
qed

lemma reads_window:
  assumes "hevc_ok f"
  shows "reads (hevc_window (hf_chroma f) (hf_chroma f = 3 \<and> hf_separate f) (hf_width f) (hf_height f))
    (window_code (hf_window f)) (hevc_visible f)"
proof (cases "hf_window f")
  case None
  have "reads (hevc_window (hf_chroma f) (hf_chroma f = 3 \<and> hf_separate f) (hf_width f) (hf_height f)) ([False] @ []) (hevc_visible f)"
    unfolding hevc_window_def Let_def
    by (rule reads_rbind, rule reads_flag) (simp add: hevc_visible_def None Let_def reads_rret)
  then show ?thesis by (simp add: window_code_def None)
next
  case (Some w)
  then obtain l r t b where w: "hf_window f = Some (l, r, t, b)" by (metis prod_cases4)
  have k: "l + 1 < 2 ^ 32" "r + 1 < 2 ^ 32" "t + 1 < 2 ^ 32" "b + 1 < 2 ^ 32" using assms w by (simp_all add: hevc_ok_def)
  show ?thesis
    unfolding hevc_window_def Let_def window_code_def w option.case prod.case
    by (rule reads_rbind, rule reads_flag, simp only: if_True one_neq_zero if_False)
      (rule reads_rbind, rule reads_ue, rule k, rule reads_rbind, rule reads_ue, rule k, rule reads_rbind, rule reads_ue,
        rule k, rule reads_rbind, rule reads_ue, rule k, rule reads_cong[OF reads_rret], simp_all add: hevc_visible_def w Let_def)
qed

lemma reads_hevc:
  assumes ok: "hevc_ok f"
  shows "reads hevcSps (hevc_code f) (hevc_visible f)"
proof -
  let ?ls = "hf_layers f"
  have len: "length (hf_header f) = 16" "length (hf_vps f) = 4" "length (hf_ptl f) = 96" "length ?ls < 8"
    using ok by (simp_all add: hevc_ok_def)
  have k: "hf_id f + 1 < 2 ^ 32" "hf_chroma f + 1 < 2 ^ 32" "hf_width f + 1 < 2 ^ 32" "hf_height f + 1 < 2 ^ 32"
    using ok by (simp_all add: hevc_ok_def)
  have pad: "reads (skip_all (if length ?ls > 0 then replicate (8 - length ?ls) 2 else [])) (hf_pad f) ()"
    using ok reads_pad[of "hf_pad f" "8 - length ?ls"] reads_rret[of "()"] by (auto simp: hevc_ok_def)
  have layers: "reads (skip_all (sub_layer_skips (map (\<lambda>(p, l). (p \<noteq> None, l \<noteq> None)) ?ls)))
      (concat (map (\<lambda>(p, l). opt_bits p @ opt_bits l) ?ls)) ()"
    using ok by (intro reads_layers) (simp add: hevc_ok_def)
  show ?thesis
    unfolding hevcSps_def hevc_code_def
    by (rule reads_rbind[OF reads_skip[OF len(1)]], rule reads_rbind[OF reads_skip[OF len(2)]],
        rule reads_rbind[OF reads_u3[OF len(4)]], rule reads_rbind[OF reads_skip], simp, rule reads_rbind[OF reads_skip[OF len(3)]],
        rule reads_rbind[OF reads_layer_flags], rule reads_rbind[OF pad], rule reads_rbind[OF layers],
        rule reads_rbind[OF reads_ue[OF k(1)]], rule reads_rbind[OF reads_ue[OF k(2)]], rule reads_rbind[OF reads_separate],
        rule reads_rbind[OF reads_ue[OF k(3)]], rule reads_rbind[OF reads_ue[OF k(4)]], rule reads_window[OF ok])
qed

section \<open>Properties\<close>

text \<open>C33. The visible size of an HEVC picture is the one its parameter set was written with: for every parameter set of the
  syntax (any sub-layers, any chroma format, with or without a conformance window), escaped and put in a stream between
  other units, the reader finds it and gives the coded size less the window.\<close>

theorem hevc_size_read_back:
  assumes "hevc_ok f" "bits_of b = hevc_code f @ rest" "last b \<noteq> 0"
    and "is_sps True (escape b 0)" "\<forall>e \<in> set es. good_unit e \<and> \<not> is_sps True e" "\<forall>d \<in> set ds. good_unit d"
    and "vr_w (hevc_visible f) > 0" "vr_h (hevc_visible f) > 0"
  shows "spsVisibleRect (annexb (es @ escape b 0 # ds)) True = Some (hevc_visible f)"
proof -
  have "b \<noteq> []" using assms(1,2) by (auto simp: bits_of_def hevc_code_def hevc_ok_def)
  then have "nals (annexb (es @ escape b 0 # ds)) = es @ escape b 0 # ds"
    using assms(3,5,6) good_escape by (intro nals_annexb) auto
  moreover have "List.find (is_sps True) (es @ escape b 0 # ds) = Some (escape b 0)"
    using assms(4,5) by (induction es) auto
  moreover have "rbsp (escape b 0) = b" by (simp add: rbsp_def rbsp_escape)
  moreover have "hevcSps \<lparr>bt_b = b, bt_pos = 0\<rparr> = Inr (hevc_visible f, \<lparr>bt_b = b, bt_pos = length (hevc_code f)\<rparr>)"
    using reads_hevc[OF assms(1)] assms(2) unfolding reads_def by simp
  moreover have "vr_x (hevc_visible f) \<ge> 0" "vr_y (hevc_visible f) \<ge> 0"
    by (auto simp: hevc_visible_def Let_def split: option.splits)
  ultimately show ?thesis using assms(7,8) by (simp add: spsVisibleRect_def)
qed

text \<open>Whatever bytes the stream has, a frame is only ever cut to a rectangle with a size, inside its coded picture, and
  only when its own visible rectangle is more than a macroblock smaller.\<close>

theorem visible_fix_inside:
  assumes "visibleFix frame (spsVisibleRect header hevc) = Some v"
  shows "0 \<le> vr_x v \<and> 0 \<le> vr_y v \<and> 0 < vr_w v \<and> 0 < vr_h v
    \<and> vr_x v + vr_w v \<le> codedWidth frame \<and> vr_y v + vr_h v \<le> codedHeight frame
    \<and> (\<exists>w h. visibleRect frame = Some (w, h) \<and> (w + 16 < vr_w v \<or> h + 16 < vr_h v))"
  using assms by (auto simp: visibleFix_def spsVisibleRect_def split: option.splits sum.splits if_splits prod.splits)

section \<open>Witnesses\<close>

definition sps1 :: hevc_fields where
  "sps1 = \<lparr>hf_header = byte_bits 66 @ byte_bits 1, hf_vps = replicate 4 False, hf_nesting = True,
     hf_ptl = bits_of [1, 96, 0, 0, 0, 176, 0, 0, 0, 0, 0, 93], hf_layers = [], hf_pad = [], hf_id = 0, hf_chroma = 1,
     hf_separate = False, hf_width = 64, hf_height = 40, hf_window = Some (0, 0, 0, 2)\<rparr>"

definition sps1_bytes :: bytes where
  "sps1_bytes = [66, 1, 1, 1, 96, 0, 0, 0, 176, 0, 0, 0, 0, 0, 93, 160, 32, 130, 159, 112]"

theorem hevc_size_read_back_witness:
  "spsVisibleRect (annexb [escape sps1_bytes 0]) True = Some \<lparr>vr_x = 0, vr_y = 0, vr_w = 64, vr_h = 36\<rparr>"
proof -
  have "hevc_ok sps1" by (simp add: hevc_ok_def sps1_def)
  moreover have "bits_of sps1_bytes = hevc_code sps1 @ [True, False, False, False, False]" by code_simp
  moreover have "last sps1_bytes \<noteq> 0" "is_sps True (escape sps1_bytes 0)" by code_simp+
  moreover have "hevc_visible sps1 = \<lparr>vr_x = 0, vr_y = 0, vr_w = 64, vr_h = 36\<rparr>" by code_simp
  ultimately show ?thesis using hevc_size_read_back[of sps1 sps1_bytes _ "[]" "[]"] by simp
qed

theorem visible_fix_inside_witness:
  "visibleFix \<lparr>codedWidth = 64, codedHeight = 40, visibleRect = Some (32, 20)\<rparr> (spsVisibleRect (annexb [escape sps1_bytes 0]) True)
     = Some \<lparr>vr_x = 0, vr_y = 0, vr_w = 64, vr_h = 36\<rparr> \<and> (0 :: int) + 64 \<le> 64"
proof -
  have "visibleFix \<lparr>codedWidth = 64, codedHeight = 40, visibleRect = Some (32, 20)\<rparr> (spsVisibleRect (annexb [escape sps1_bytes 0]) True)
      = Some \<lparr>vr_x = 0, vr_y = 0, vr_w = 64, vr_h = 36\<rparr>" by code_simp
  from visible_fix_inside[OF this] this show ?thesis by simp
qed

end
