(* ===== verification/Playlist_Ops.thy ===== *)
theory Playlist_Ops
  imports Js_Number
begin

text \<open>
  Payload playlists: the rules on the documents (\<^verbatim>\<open>client/src/lib/playlistOps.ts\<close>) and their export and
  import (\<^verbatim>\<open>client/src/lib/playlistShare.ts\<close>).

  The time of an edit is an argument, as are the answers of the catalogue a repo step is resolved with. A file
  that is imported is the JSON value its text parses to, \<open>None\<close> when it is not JSON; the new ids of an import
  are a list, taken in order.
\<close>

section \<open>Documents\<close>

record PlaylistStep =
  st_path :: string
  st_payloadId :: "string option"
  st_payloadLabel :: "string option"
  st_sleepMs :: rat
  st_ip :: "string option"
  st_port :: "rat option"

record Playlist =
  py_id :: string
  py_name :: string
  py_steps :: "PlaylistStep list"
  py_continueOnFailure :: bool
  py_createdAt :: rat
  py_updatedAt :: rat
  py_lastRunAt :: "rat option"

record AutoLoaderConfig =
  al_enabled :: bool
  al_playlistId :: "string option"
  al_bringUpPlaylistId :: "string option"

definition DEFAULT_AUTO_LOADER :: AutoLoaderConfig where
  "DEFAULT_AUTO_LOADER = \<lparr>al_enabled = False, al_playlistId = None, al_bringUpPlaylistId = None\<rparr>"

definition PAYLOAD_EXTENSIONS :: "string set" where
  "PAYLOAD_EXTENSIONS = {''elf'', ''bin'', ''js'', ''lua'', ''jar''}"

definition alnum :: "char \<Rightarrow> bool" where
  "alnum c \<longleftrightarrow> (let n = of_char (lower_char c) :: nat in 97 \<le> n \<and> n \<le> 122) \<and> (of_char c :: nat) < 128 \<or> is_digit c"

text \<open>\<^verbatim>\<open>/\.([a-z0-9]+)$/i\<close>: the letters and digits at the end, behind a dot.\<close>

definition isPayloadPath :: "string \<Rightarrow> bool" where
  "isPayloadPath path =
     (let r = rev (trim path); e = takeWhile alnum r; d = dropWhile alnum r
      in e \<noteq> [] \<and> d \<noteq> [] \<and> hd d = CHR ''.'' \<and> to_lower (rev e) \<in> PAYLOAD_EXTENSIONS)"

definition isRepoStep :: "PlaylistStep \<Rightarrow> bool" where
  "isRepoStep st \<longleftrightarrow> (case st_payloadId st of None \<Rightarrow> False | Some i \<Rightarrow> i \<noteq> [] \<and> length (trim i) > 0)"

record cached_payload =
  cp_payload_id :: string
  cp_path :: string
  cp_version :: string

text \<open>\<open>inventory\<close>: the local copies (\<open>[]\<close> when listing them failed); \<open>latest\<close>: the latest release, its tag and the
  address of its asset; \<open>download\<close>: where the asset was stored.\<close>

definition resolveRepoStepPath ::
  "string \<Rightarrow> cached_payload list \<Rightarrow> (string \<times> string) result \<Rightarrow> string result \<Rightarrow> bool \<Rightarrow> string result" where
  "resolveRepoStepPath payloadId inventory latest download preferCached =
     (let cached = (case List.find (\<lambda>e. cp_payload_id e = payloadId) inventory of
                      Some e \<Rightarrow> if cp_path e = [] then None else Some e | None \<Rightarrow> None);
          fallback = (\<lambda>e. case cached of Some c \<Rightarrow> Inr (cp_path c) | None \<Rightarrow> Inl e)
      in case (preferCached, cached) of
           (True, Some c) \<Rightarrow> Inr (cp_path c)
         | _ \<Rightarrow>
             (case latest of
                Inl e \<Rightarrow> fallback e
              | Inr (tag, url) \<Rightarrow>
                  if url = [] then
                    fallback (JsError (''no downloadable payload asset in the latest release of '' @ [CHR 0x22] @ payloadId @ [CHR 0x22]))
                  else if (case cached of Some c \<Rightarrow> cp_version c = tag | None \<Rightarrow> False) then Inr (cp_path (the cached))
                  else (case download of Inl e \<Rightarrow> fallback e | Inr p \<Rightarrow> Inr p)))"

section \<open>Edits\<close>

definition patchPlaylist :: "rat \<Rightarrow> Playlist list \<Rightarrow> string \<Rightarrow> (Playlist \<Rightarrow> Playlist) \<Rightarrow> Playlist list" where
  "patchPlaylist now pls i patch =
     (case find_index (\<lambda>p. py_id p = i) pls of
        None \<Rightarrow> pls
      | Some k \<Rightarrow> pls[k := (patch (pls ! k))\<lparr>py_updatedAt := now\<rparr>])"

definition find_playlist :: "Playlist list \<Rightarrow> string \<Rightarrow> Playlist option" where
  "find_playlist pls i = List.find (\<lambda>p. py_id p = i) pls"

definition set_steps :: "rat \<Rightarrow> Playlist list \<Rightarrow> string \<Rightarrow> PlaylistStep list \<Rightarrow> Playlist list" where
  "set_steps now pls i sts = patchPlaylist now pls i (\<lambda>p. p\<lparr>py_steps := sts\<rparr>)"

definition appendStep :: "rat \<Rightarrow> Playlist list \<Rightarrow> string \<Rightarrow> PlaylistStep \<Rightarrow> Playlist list" where
  "appendStep now pls i st =
     set_steps now pls i ((case find_playlist pls i of None \<Rightarrow> [] | Some p \<Rightarrow> py_steps p) @ [st])"

definition removeStep :: "rat \<Rightarrow> Playlist list \<Rightarrow> string \<Rightarrow> int \<Rightarrow> Playlist list" where
  "removeStep now pls i index =
     (case find_playlist pls i of
        None \<Rightarrow> pls
      | Some p \<Rightarrow>
          if index < 0 \<or> index \<ge> int (length (py_steps p)) then pls
          else set_steps now pls i (remove_at (nat index) (py_steps p)))"

definition moveStepUp :: "rat \<Rightarrow> Playlist list \<Rightarrow> string \<Rightarrow> int \<Rightarrow> Playlist list" where
  "moveStepUp now pls i index =
     (case find_playlist pls i of
        None \<Rightarrow> pls
      | Some p \<Rightarrow>
          if index \<le> 0 \<or> index \<ge> int (length (py_steps p)) then pls
          else set_steps now pls i (swap_at (nat index - 1) (nat index) (py_steps p)))"

definition moveStepDown :: "rat \<Rightarrow> Playlist list \<Rightarrow> string \<Rightarrow> int \<Rightarrow> Playlist list" where
  "moveStepDown now pls i index =
     (case find_playlist pls i of
        None \<Rightarrow> pls
      | Some p \<Rightarrow>
          if index < 0 \<or> index \<ge> int (length (py_steps p)) - 1 then pls
          else set_steps now pls i (swap_at (nat index) (nat index + 1) (py_steps p)))"

definition removePlaylist :: "Playlist list \<Rightarrow> string \<Rightarrow> Playlist list" where
  "removePlaylist pls i =
     (case find_index (\<lambda>p. py_id p = i) pls of None \<Rightarrow> pls | Some k \<Rightarrow> remove_at k pls)"

definition movePlaylistUp :: "Playlist list \<Rightarrow> string \<Rightarrow> Playlist list" where
  "movePlaylistUp pls i =
     (case find_index (\<lambda>p. py_id p = i) pls of
        None \<Rightarrow> pls
      | Some k \<Rightarrow> if k = 0 then pls else swap_at (k - 1) k pls)"

definition movePlaylistDown :: "Playlist list \<Rightarrow> string \<Rightarrow> Playlist list" where
  "movePlaylistDown pls i =
     (case find_index (\<lambda>p. py_id p = i) pls of
        None \<Rightarrow> pls
      | Some k \<Rightarrow> if k + 1 \<ge> length pls then pls else swap_at k (k + 1) pls)"

text \<open>\<open>raw\<close>: what the number box holds, as text or as a number (\<open>None\<close> not finite).\<close>

definition sanitiseSleepMs :: "string + rat option \<Rightarrow> int" where
  "sanitiseSleepMs raw =
     (case (case raw of Inl s \<Rightarrow> js_number s | Inr n \<Rightarrow> n) of
        None \<Rightarrow> 0
      | Some n \<Rightarrow> if n < 0 then 0 else \<lfloor>n\<rfloor>)"

definition last_part :: "string \<Rightarrow> string" where
  "last_part path = rev (takeWhile (\<lambda>c. c \<noteq> CHR ''/'' \<and> c \<noteq> char_of (92 :: nat)) (rev path))"

definition names_helper :: "string \<Rightarrow> bool" where
  "names_helper v \<longleftrightarrow>
     starts_with ''ps5upload'' v \<and> (length v = 9 \<or> v ! 9 = CHR ''.'' \<or> v ! 9 = CHR ''-'' \<or> v ! 9 = CHR ''_'')"

definition stepSendsOurHelper :: "PlaylistStep \<Rightarrow> bool" where
  "stepSendsOurHelper st \<longleftrightarrow>
     names_helper (to_lower (last_part (st_path st))) \<or>
     names_helper (to_lower (case st_payloadId st of None \<Rightarrow> [] | Some i \<Rightarrow> i))"

definition playlistResendsOurHelper :: "PlaylistStep list \<Rightarrow> PlaylistStep option" where
  "playlistResendsOurHelper sts = List.find stepSendsOurHelper sts"

section \<open>Export and import\<close>

record SharedRepo =
  sr_id :: string
  sr_host :: string
  sr_owner :: string
  sr_name :: string
  sr_displayName :: string

record PlaylistExport =
  ex_exportedAt :: rat
  ex_playlists :: "Playlist list"
  ex_autoLoader :: "AutoLoaderConfig option"
  ex_customRepos :: "SharedRepo list"

definition PLAYLIST_EXPORT_FORMAT :: string where
  "PLAYLIST_EXPORT_FORMAT = ''ps5upload-playlists''"

text \<open>A field of a value: \<open>None\<close> for \<^verbatim>\<open>undefined\<close>. Objects read from JSON have only the properties the text gives
  them under the names read here.\<close>

definition jprop :: "json \<Rightarrow> string \<Rightarrow> json option" where
  "jprop v k = (case v of JObj fs \<Rightarrow> map_of fs k | _ \<Rightarrow> None)"

definition str_of :: "json option \<Rightarrow> string" where
  "str_of v = (case v of Some (JStr s) \<Rightarrow> s | _ \<Rightarrow> [])"

definition num_of :: "json option \<Rightarrow> rat" where
  "num_of v = (case v of Some (JNum (Some n)) \<Rightarrow> n | _ \<Rightarrow> 0)"

text \<open>\<^verbatim>\<open>v && typeof v === "object"\<close>.\<close>

definition is_object :: "json \<Rightarrow> bool" where
  "is_object v = (case v of JObj _ \<Rightarrow> True | JArr _ \<Rightarrow> True | _ \<Rightarrow> False)"

definition nonempty :: "string \<Rightarrow> string option" where
  "nonempty s = (if s = [] then None else Some s)"

definition cleanStep :: "json \<Rightarrow> PlaylistStep option" where
  "cleanStep v =
     (if \<not> is_object v then None
      else let st = \<lparr>st_path = str_of (jprop v ''path''), st_payloadId = nonempty (str_of (jprop v ''payloadId'')),
                     st_payloadLabel = nonempty (str_of (jprop v ''payloadLabel'')),
                     st_sleepMs = max 0 (num_of (jprop v ''sleepMs'')), st_ip = nonempty (str_of (jprop v ''ip'')),
                     st_port = (if num_of (jprop v ''port'') > 0 then Some (num_of (jprop v ''port'')) else None)\<rparr>
           in if st_path st \<noteq> [] \<or> st_payloadId st \<noteq> None then Some st else None)"

definition clean_playlist :: "json \<Rightarrow> Playlist option" where
  "clean_playlist raw =
     (if \<not> is_object raw then None
      else let steps = (case jprop raw ''steps'' of Some (JArr vs) \<Rightarrow> List.map_filter cleanStep vs | _ \<Rightarrow> []) in
           if str_of (jprop raw ''id'') = [] \<or> str_of (jprop raw ''name'') = [] then None
           else Some \<lparr>py_id = str_of (jprop raw ''id''), py_name = str_of (jprop raw ''name''), py_steps = steps,
                      py_continueOnFailure = (jprop raw ''continueOnFailure'' = Some (JBool True)),
                      py_createdAt = num_of (jprop raw ''createdAt''), py_updatedAt = num_of (jprop raw ''updatedAt''),
                      py_lastRunAt = None\<rparr>)"

definition clean_auto :: "json option \<Rightarrow> AutoLoaderConfig option" where
  "clean_auto a =
     (case a of
        None \<Rightarrow> None
      | Some v \<Rightarrow>
          if is_object v
          then Some \<lparr>al_enabled = (jprop v ''enabled'' = Some (JBool True)),
                     al_playlistId = nonempty (str_of (jprop v ''playlistId'')),
                     al_bringUpPlaylistId = nonempty (str_of (jprop v ''bringUpPlaylistId''))\<rparr>
          else None)"

definition clean_repo :: "json \<Rightarrow> SharedRepo option" where
  "clean_repo r =
     (if str_of (jprop r ''owner'') = [] \<or> str_of (jprop r ''name'') = [] then None
      else Some \<lparr>sr_id = str_of (jprop r ''id''),
                 sr_host = (if str_of (jprop r ''host'') = [] then ''github.com'' else str_of (jprop r ''host'')),
                 sr_owner = str_of (jprop r ''owner''), sr_name = str_of (jprop r ''name''),
                 sr_displayName = str_of (jprop r ''displayName'')\<rparr>)"

definition parsePlaylistExport :: "json option \<Rightarrow> PlaylistExport result" where
  "parsePlaylistExport file =
     (case file of
        None \<Rightarrow> Inl (JsError ''not a ps5upload playlists file (not JSON)'')
      | Some d \<Rightarrow>
          (case (jprop d ''format'', jprop d ''playlists'') of
             (Some (JStr fm), Some (JArr raws)) \<Rightarrow>
               if fm \<noteq> PLAYLIST_EXPORT_FORMAT then Inl (JsError ''not a ps5upload playlists file'')
               else Inr \<lparr>ex_exportedAt = num_of (jprop d ''exportedAt''),
                         ex_playlists = List.map_filter clean_playlist raws,
                         ex_autoLoader = clean_auto (jprop d ''autoLoader''),
                         ex_customRepos = (case jprop d ''customRepos'' of Some (JArr rs) \<Rightarrow> List.map_filter clean_repo rs | _ \<Rightarrow> [])\<rparr>
           | _ \<Rightarrow> Inl (JsError ''not a ps5upload playlists file'')))"

record payload_info =
  pi_id :: string
  pi_custom :: bool
  pi_host :: "string option"
  pi_owner :: string
  pi_name :: string
  pi_display :: string

text \<open>\<open>pi_host\<close>: the host of the homepage, \<open>None\<close> when it is no address.\<close>

definition repoHostOf :: "payload_info \<Rightarrow> string" where
  "repoHostOf p = (case pi_host p of None \<Rightarrow> ''github.com'' | Some h \<Rightarrow> if h = [] then ''github.com'' else h)"

definition buildPlaylistExport :: "Playlist list \<Rightarrow> AutoLoaderConfig option \<Rightarrow> payload_info list \<Rightarrow> rat \<Rightarrow> PlaylistExport" where
  "buildPlaylistExport pls auto catalog now =
     \<lparr>ex_exportedAt = now, ex_playlists = map (\<lambda>p. p\<lparr>py_lastRunAt := None\<rparr>) pls, ex_autoLoader = auto,
      ex_customRepos = map (\<lambda>p. \<lparr>sr_id = pi_id p, sr_host = repoHostOf p, sr_owner = pi_owner p, sr_name = pi_name p,
                                 sr_displayName = pi_display p\<rparr>) (filter pi_custom catalog)\<rparr>"

text \<open>\<^verbatim>\<open>for (let n = 2; names.has(name); n++)\<close>: the loop ends when a name is free; \<open>fuel\<close> bounds it by one more
  than the number of names taken, which is always enough.\<close>

fun free_name :: "nat \<Rightarrow> string set \<Rightarrow> string \<Rightarrow> string \<Rightarrow> nat \<Rightarrow> string option" where
  "free_name fuel names base name n =
     (if name \<notin> names then Some name
      else case fuel of
             0 \<Rightarrow> None
           | Suc f \<Rightarrow> free_name f names base (base @ '' ('' @ show_nat n @ '')'') (n + 1))"

declare free_name.simps [simp del]

fun import_loop :: "Playlist list \<Rightarrow> string list \<Rightarrow> string list \<Rightarrow> rat \<Rightarrow> (Playlist list \<times> (string \<times> string) list) option" where
  "import_loop [] names ids now = Some ([], [])"
| "import_loop (p # ps) names ids now =
     (case (free_name (length names + 1) (set names) (py_name p) (py_name p) 2, ids) of
        (Some name, i # is) \<Rightarrow>
          (case import_loop ps (name # names) is now of
             None \<Rightarrow> None
           | Some (pls, m) \<Rightarrow>
               Some (p\<lparr>py_id := i, py_name := name, py_createdAt := now, py_updatedAt := now\<rparr> # pls, (py_id p, i) # m))
      | _ \<Rightarrow> None)"

text \<open>The pairs of the map are in the order they were set: a repeated key counts with its last value.\<close>

definition importedPlaylists :: "Playlist list \<Rightarrow> Playlist list \<Rightarrow> string list \<Rightarrow> rat \<Rightarrow> (Playlist list \<times> (string \<rightharpoonup> string)) option" where
  "importedPlaylists existing incoming ids now =
     map_option (\<lambda>(pls, m). (pls, map_of (rev m))) (import_loop incoming (map py_name existing) ids now)"

section \<open>Names of an import\<close>

definition numbered_name :: "string \<Rightarrow> nat \<Rightarrow> string" where
  "numbered_name base n = base @ '' ('' @ show_nat n @ '')''"

lemma numbered_name_inj: "numbered_name base n = numbered_name base m \<longleftrightarrow> n = m"
  by (simp add: numbered_name_def)

lemma numbered_name_base: "numbered_name base n \<noteq> base"
  by (simp add: numbered_name_def)

lemma free_name_None:
  "free_name f names base name n = None \<Longrightarrow> name \<in> names \<and> (\<forall>k < f. numbered_name base (n + k) \<in> names)"
proof (induction f arbitrary: name n)
  case 0
  then show ?case by (auto simp: free_name.simps[of 0] split: if_splits)
next
  case (Suc f)
  from Suc.prems have "name \<in> names" "free_name f names base (numbered_name base n) (n + 1) = None"
    by (auto simp: free_name.simps[of "Suc f"] numbered_name_def split: if_splits)
  from this(1) Suc.IH[OF this(2)] show ?case by (auto simp: less_Suc_eq_0_disj)
qed

lemma free_name_Some: "free_name f names base name n = Some x \<Longrightarrow> x \<notin> names"
proof (induction f arbitrary: name n)
  case 0
  then show ?case by (auto simp: free_name.simps[of 0] split: if_splits)
next
  case (Suc f)
  then show ?case by (auto simp: free_name.simps[of "Suc f"] split: if_splits)
qed

text \<open>More candidates than names taken: one of them is free.\<close>

lemma free_name_exists: "\<exists>x. free_name (length names + 1) (set names) base base n = Some x \<and> x \<notin> set names"
proof (cases "free_name (length names + 1) (set names) base base n")
  case None
  let ?C = "(\<lambda>k. numbered_name base (n + k)) ` {..< length names + 1}"
  from free_name_None[OF None] have "?C \<subseteq> set names" by auto
  then have "card ?C \<le> card (set names)" by (intro card_mono) auto
  moreover have "card ?C = length names + 1"
    by (subst card_image) (auto simp: inj_on_def numbered_name_inj)
  moreover have "card (set names) \<le> length names" by (rule card_length)
  ultimately show ?thesis by simp
next
  case (Some x)
  then show ?thesis using free_name_Some by blast
qed

lemma import_loop_spec:
  assumes "length ps \<le> length ids"
  shows "\<exists>pls m. import_loop ps names ids now = Some (pls, m)
    \<and> map py_id pls = take (length ps) ids \<and> map py_steps pls = map py_steps ps
    \<and> distinct (map py_name pls) \<and> set (map py_name pls) \<inter> set names = {}
    \<and> m = zip (map py_id ps) ids"
  using assms
proof (induction ps arbitrary: names ids)
  case (Cons p ps)
  then obtain i js where ids: "ids = i # js" "length ps \<le> length js" by (cases ids) auto
  obtain x where x: "free_name (length names + 1) (set names) (py_name p) (py_name p) 2 = Some x" "x \<notin> set names"
    using free_name_exists by blast
  from Cons.IH[OF ids(2), of "x # names"] obtain pls m where
    r: "import_loop ps (x # names) js now = Some (pls, m)" "map py_id pls = take (length ps) js"
      "map py_steps pls = map py_steps ps" "distinct (map py_name pls)" "set (map py_name pls) \<inter> set (x # names) = {}"
      "m = zip (map py_id ps) js" by blast
  then show ?case using x ids by auto
qed simp

section \<open>What an import file becomes\<close>

text \<open>The types of the document: an id and a name, a path or a payload for each step, a pause and a port that are numbers
  in range, and no empty text where a text is optional.\<close>

definition wf_text :: "string option \<Rightarrow> bool" where
  "wf_text t \<longleftrightarrow> t \<noteq> Some []"

definition wf_step :: "PlaylistStep \<Rightarrow> bool" where
  "wf_step st \<longleftrightarrow>
     (st_path st \<noteq> [] \<or> st_payloadId st \<noteq> None) \<and> wf_text (st_payloadId st) \<and> wf_text (st_payloadLabel st)
     \<and> wf_text (st_ip st) \<and> st_sleepMs st \<ge> 0 \<and> (case st_port st of None \<Rightarrow> True | Some n \<Rightarrow> n > 0)"

definition wf_playlist :: "Playlist \<Rightarrow> bool" where
  "wf_playlist p \<longleftrightarrow> py_id p \<noteq> [] \<and> py_name p \<noteq> [] \<and> list_all wf_step (py_steps p) \<and> py_lastRunAt p = None"

definition wf_auto :: "AutoLoaderConfig \<Rightarrow> bool" where
  "wf_auto a \<longleftrightarrow> wf_text (al_playlistId a) \<and> wf_text (al_bringUpPlaylistId a)"

definition wf_repo :: "SharedRepo \<Rightarrow> bool" where
  "wf_repo r \<longleftrightarrow> sr_owner r \<noteq> [] \<and> sr_name r \<noteq> [] \<and> sr_host r \<noteq> []"

definition wf_export :: "PlaylistExport \<Rightarrow> bool" where
  "wf_export d \<longleftrightarrow>
     list_all wf_playlist (ex_playlists d) \<and> (\<forall>a. ex_autoLoader d = Some a \<longrightarrow> wf_auto a) \<and> list_all wf_repo (ex_customRepos d)"

text \<open>\<^verbatim>\<open>JSON.stringify\<close> of a document: a property that is \<^verbatim>\<open>undefined\<close> is left out.\<close>

definition opt_prop :: "string \<Rightarrow> ('a \<Rightarrow> json) \<Rightarrow> 'a option \<Rightarrow> (string \<times> json) list" where
  "opt_prop k f v = (case v of None \<Rightarrow> [] | Some x \<Rightarrow> [(k, f x)])"

definition step_json :: "PlaylistStep \<Rightarrow> json" where
  "step_json st =
     JObj ([(''path'', JStr (st_path st)), (''sleepMs'', JNum (Some (st_sleepMs st)))]
       @ opt_prop ''payloadId'' JStr (st_payloadId st) @ opt_prop ''payloadLabel'' JStr (st_payloadLabel st)
       @ opt_prop ''ip'' JStr (st_ip st) @ opt_prop ''port'' (\<lambda>n. JNum (Some n)) (st_port st))"

definition playlist_json :: "Playlist \<Rightarrow> json" where
  "playlist_json p =
     JObj ([(''id'', JStr (py_id p)), (''name'', JStr (py_name p)), (''steps'', JArr (map step_json (py_steps p))),
            (''continueOnFailure'', JBool (py_continueOnFailure p)), (''createdAt'', JNum (Some (py_createdAt p))),
            (''updatedAt'', JNum (Some (py_updatedAt p)))]
       @ opt_prop ''lastRunAt'' (\<lambda>n. JNum (Some n)) (py_lastRunAt p))"

definition text_json :: "string option \<Rightarrow> json" where
  "text_json t = (case t of None \<Rightarrow> JNull | Some s \<Rightarrow> JStr s)"

definition auto_json :: "AutoLoaderConfig \<Rightarrow> json" where
  "auto_json a =
     JObj [(''enabled'', JBool (al_enabled a)), (''playlistId'', text_json (al_playlistId a)),
           (''bringUpPlaylistId'', text_json (al_bringUpPlaylistId a))]"

definition repo_json :: "SharedRepo \<Rightarrow> json" where
  "repo_json r =
     JObj [(''id'', JStr (sr_id r)), (''host'', JStr (sr_host r)), (''owner'', JStr (sr_owner r)), (''name'', JStr (sr_name r)),
           (''displayName'', JStr (sr_displayName r))]"

definition export_json :: "PlaylistExport \<Rightarrow> json" where
  "export_json d =
     JObj ([(''format'', JStr PLAYLIST_EXPORT_FORMAT), (''version'', JNum (Some 1)), (''exportedAt'', JNum (Some (ex_exportedAt d))),
            (''playlists'', JArr (map playlist_json (ex_playlists d)))]
       @ opt_prop ''autoLoader'' auto_json (ex_autoLoader d)
       @ [(''customRepos'', JArr (map repo_json (ex_customRepos d)))])"

lemmas share_defs = jprop_def str_of_def num_of_def is_object_def nonempty_def opt_prop_def

lemma clean_step_wf: "cleanStep v = Some st \<Longrightarrow> wf_step st"
  by (auto simp: cleanStep_def wf_step_def wf_text_def nonempty_def Let_def split: if_splits)

lemma clean_step_json: "wf_step st \<Longrightarrow> cleanStep (step_json st) = Some st"
  by (cases st; cases "st_payloadId st"; cases "st_payloadLabel st"; cases "st_ip st"; cases "st_port st")
    (auto simp: cleanStep_def step_json_def wf_step_def wf_text_def share_defs Let_def)

lemma map_filter_clean:
  assumes "\<And>x. P x \<Longrightarrow> f (g x) = Some x" "list_all P xs"
  shows "List.map_filter f (map g xs) = xs"
  using assms(2) by (induction xs) (auto simp: List.map_filter_def assms(1))

lemma map_filter_all:
  assumes "\<And>v x. f v = Some x \<Longrightarrow> P x"
  shows "list_all P (List.map_filter f vs)"
  by (induction vs) (auto simp: List.map_filter_def intro: assms)

lemma clean_playlist_wf: "clean_playlist v = Some p \<Longrightarrow> wf_playlist p"
  by (auto simp: clean_playlist_def wf_playlist_def Let_def split: if_splits option.splits json.splits
      intro!: map_filter_all intro: clean_step_wf)

lemma clean_playlist_json: "wf_playlist p \<Longrightarrow> clean_playlist (playlist_json p) = Some p"
  using map_filter_clean[of wf_step cleanStep step_json "py_steps p", OF clean_step_json]
  by (cases p) (auto simp: clean_playlist_def playlist_json_def wf_playlist_def share_defs)

lemma clean_auto_json: "wf_auto a \<Longrightarrow> clean_auto (Some (auto_json a)) = Some a"
  by (cases a; cases "al_playlistId a"; cases "al_bringUpPlaylistId a")
    (auto simp: clean_auto_def auto_json_def text_json_def wf_auto_def wf_text_def share_defs)

lemma clean_auto_wf: "clean_auto v = Some a \<Longrightarrow> wf_auto a"
  by (auto simp: clean_auto_def wf_auto_def wf_text_def nonempty_def split: option.splits if_splits)

lemma clean_repo_json: "wf_repo r \<Longrightarrow> clean_repo (repo_json r) = Some r"
  by (cases r) (auto simp: clean_repo_def repo_json_def wf_repo_def share_defs)

lemma clean_repo_wf: "clean_repo v = Some r \<Longrightarrow> wf_repo r"
  by (auto simp: clean_repo_def wf_repo_def split: if_splits)

lemma export_reads_back:
  assumes "wf_export d"
  shows "parsePlaylistExport (Some (export_json d)) = Inr d"
proof -
  have "List.map_filter clean_playlist (map playlist_json (ex_playlists d)) = ex_playlists d"
    "List.map_filter clean_repo (map repo_json (ex_customRepos d)) = ex_customRepos d"
    using assms by (auto simp: wf_export_def intro!: map_filter_clean clean_playlist_json clean_repo_json)
  moreover have "clean_auto (case ex_autoLoader d of None \<Rightarrow> None | Some a \<Rightarrow> Some (auto_json a)) = ex_autoLoader d"
    using assms by (cases "ex_autoLoader d") (auto simp: wf_export_def clean_auto_json, simp add: clean_auto_def)
  ultimately show ?thesis
    by (cases d; cases "ex_autoLoader d") (auto simp: parsePlaylistExport_def export_json_def share_defs)
qed

section \<open>Properties\<close>


text \<open>An import always comes back and replaces nothing: every imported playlist keeps its steps, gets an id of its own
  and a name that no playlist here and no other imported one has; the search for a free name ends.\<close>

theorem import_keeps_apart:
  assumes "length incoming \<le> length ids"
  shows "\<exists>pls m. importedPlaylists existing incoming ids now = Some (pls, m)
    \<and> map py_id pls = take (length incoming) ids \<and> map py_steps pls = map py_steps incoming
    \<and> distinct (map py_name pls) \<and> set (map py_name pls) \<inter> set (map py_name existing) = {}
    \<and> (distinct (map py_id incoming) \<longrightarrow> (\<forall>i < length incoming. m (py_id (incoming ! i)) = Some (ids ! i)))"
proof -
  from import_loop_spec[OF assms, of "map py_name existing" now] obtain pls m where
    r: "import_loop incoming (map py_name existing) ids now = Some (pls, m)" "map py_id pls = take (length incoming) ids"
      "map py_steps pls = map py_steps incoming" "distinct (map py_name pls)" "set (map py_name pls) \<inter> set (map py_name existing) = {}"
      "m = zip (map py_id incoming) ids" by blast
  have "map_of (rev m) (py_id (incoming ! i)) = Some (ids ! i)" if "distinct (map py_id incoming)" "i < length incoming" for i
  proof -
    have fst: "map fst m = map py_id incoming" using assms r(6) by (simp add: map_fst_zip_take min_def)
    then have "distinct (map fst (rev m))" using that(1) by (metis distinct_rev rev_map)
    moreover have "(py_id (incoming ! i), ids ! i) \<in> set (rev m)"
      using that(2) assms r(6) by (auto simp: in_set_zip intro!: exI[of _ i])
    ultimately show ?thesis by (simp add: map_of_eq_Some_iff)
  qed
  with r show ?thesis by (auto simp: importedPlaylists_def)
qed

section \<open>Witnesses\<close>

definition playlist1 :: Playlist where
  "playlist1 = \<lparr>py_id = ''a'', py_name = ''Boot'',
     py_steps = [\<lparr>st_path = ''/a.elf'', st_payloadId = None, st_payloadLabel = None, st_sleepMs = 500, st_ip = None, st_port = Some 9020\<rparr>], py_continueOnFailure = False, py_createdAt = 0, py_updatedAt = 0,
     py_lastRunAt = None\<rparr>"


theorem import_keeps_apart_witness:
  "\<exists>pls m. importedPlaylists [playlist1] [playlist1] [''b''] 7 = Some (pls, m) \<and> set (map py_name pls) \<inter> {''Boot''} = {} \<and> m ''a'' = Some ''b''"
  using import_keeps_apart[of "[playlist1]" "[''b'']" "[playlist1]" 7] by (auto simp: playlist1_def)

end
