(* ===== verification/Async_Tools.thy ===== *)
theory Async_Tools
  imports Js_Prelude
begin

text \<open>
  Two small tools the stores share: the gate that bounds how many operations run at once
  (\<^verbatim>\<open>client/src/lib/limitConcurrency.ts\<close>) and the generation counter that makes a stopped run stale
  (\<^verbatim>\<open>client/src/lib/runGen.ts\<close>).

  The gate is modelled between two turns of the event loop: a call joins the queue and may be woken at
  once; a woken call starts its operation in a later turn; a finished operation frees its place and wakes
  the next. What it promises is stated as a counting semaphore that serves in order of arrival, and the
  gate refines it.
\<close>

section \<open>The gate\<close>

text \<open>\<open>lm_woken\<close>: the calls whose promise is resolved and whose operation has not started; \<open>lm_running\<close>: those whose
  operation has.\<close>

record limiter =
  lm_active :: nat
  lm_queue :: "nat list"
  lm_woken :: "nat list"
  lm_running :: "nat list"

definition next_call :: "nat \<Rightarrow> limiter \<Rightarrow> limiter" where
  "next_call mx s =
     (if lm_active s \<ge> mx then s
      else case lm_queue s of
             [] \<Rightarrow> s
           | c # q \<Rightarrow> s\<lparr>lm_active := lm_active s + 1, lm_queue := q, lm_woken := lm_woken s @ [c]\<rparr>)"

definition limited_enter :: "nat \<Rightarrow> nat \<Rightarrow> limiter \<Rightarrow> limiter" where
  "limited_enter mx c s = next_call mx (s\<lparr>lm_queue := lm_queue s @ [c]\<rparr>)"

definition limited_run :: "nat \<Rightarrow> limiter \<Rightarrow> limiter" where
  "limited_run c s = s\<lparr>lm_woken := removeAll c (lm_woken s), lm_running := lm_running s @ [c]\<rparr>"

definition limited_finally :: "nat \<Rightarrow> nat \<Rightarrow> limiter \<Rightarrow> limiter" where
  "limited_finally mx c s =
     next_call mx (s\<lparr>lm_running := removeAll c (lm_running s), lm_active := lm_active s - 1\<rparr>)"

definition createLimiter :: limiter where
  "createLimiter = \<lparr>lm_active = 0, lm_queue = [], lm_woken = [], lm_running = []\<rparr>"

inductive lm_step :: "nat \<Rightarrow> limiter \<Rightarrow> limiter \<Rightarrow> bool" for mx where
  lm_enter: "c \<notin> set (lm_queue s) \<union> set (lm_woken s) \<union> set (lm_running s) \<Longrightarrow> lm_step mx s (limited_enter mx c s)"
| lm_run: "c \<in> set (lm_woken s) \<Longrightarrow> lm_step mx s (limited_run c s)"
| lm_finally: "c \<in> set (lm_running s) \<Longrightarrow> lm_step mx s (limited_finally mx c s)"

section \<open>The semaphore it implements\<close>

text \<open>The calls waiting, in order of arrival, and those let in. A call that arrives is let in when there is a free place
  and nobody waits; a call that leaves hands its place to the first that waits.\<close>

record semaphore =
  sm_waiting :: "nat list"
  sm_inside :: "nat set"

inductive sm_step :: "nat \<Rightarrow> semaphore \<Rightarrow> semaphore \<Rightarrow> bool" for mx where
  sm_in: "sm_waiting a = [] \<Longrightarrow> card (sm_inside a) < mx \<Longrightarrow> c \<notin> sm_inside a \<Longrightarrow>
    sm_step mx a (a\<lparr>sm_inside := insert c (sm_inside a)\<rparr>)"
| sm_wait: "card (sm_inside a) = mx \<Longrightarrow> c \<notin> sm_inside a \<Longrightarrow> c \<notin> set (sm_waiting a) \<Longrightarrow>
    sm_step mx a (a\<lparr>sm_waiting := sm_waiting a @ [c]\<rparr>)"
| sm_out: "sm_waiting a = [] \<Longrightarrow> c \<in> sm_inside a \<Longrightarrow> sm_step mx a (a\<lparr>sm_inside := sm_inside a - {c}\<rparr>)"
| sm_hand: "sm_waiting a = w # ws \<Longrightarrow> c \<in> sm_inside a \<Longrightarrow>
    sm_step mx a (a\<lparr>sm_waiting := ws, sm_inside := insert w (sm_inside a - {c})\<rparr>)"

definition sm_init :: "semaphore \<Rightarrow> bool" where
  "sm_init a \<longleftrightarrow> sm_waiting a = [] \<and> sm_inside a = {}"

definition lm_abs :: "limiter \<Rightarrow> semaphore" where
  "lm_abs s = \<lparr>sm_waiting = lm_queue s, sm_inside = set (lm_woken s) \<union> set (lm_running s)\<rparr>"

text \<open>The counter counts the calls let in, never more than the bound, and nobody waits while there is a free place.\<close>

definition lm_inv :: "nat \<Rightarrow> limiter \<Rightarrow> bool" where
  "lm_inv mx s \<longleftrightarrow>
     lm_active s = length (lm_woken s @ lm_running s) \<and> lm_active s \<le> mx \<and>
     distinct (lm_queue s @ lm_woken s @ lm_running s) \<and> (lm_queue s \<noteq> [] \<longrightarrow> lm_active s = mx)"

lemma lm_inv_card: "lm_inv mx s \<Longrightarrow> card (sm_inside (lm_abs s)) = lm_active s"
proof -
  assume i: "lm_inv mx s"
  then have "distinct (lm_woken s @ lm_running s)" by (auto simp: lm_inv_def)
  from distinct_card[OF this] i show ?thesis by (simp add: lm_inv_def lm_abs_def)
qed

lemma enter_step:
  assumes "lm_inv mx s" "c \<notin> set (lm_queue s) \<union> set (lm_woken s) \<union> set (lm_running s)"
  shows "lm_inv mx (limited_enter mx c s) \<and> sm_step mx (lm_abs s) (lm_abs (limited_enter mx c s))"
proof (cases "lm_active s < mx")
  case True
  then have q: "lm_queue s = []" using assms(1) by (auto simp: lm_inv_def)
  with True assms have "lm_inv mx (limited_enter mx c s)"
    by (auto simp: limited_enter_def next_call_def lm_inv_def)
  moreover have "lm_abs (limited_enter mx c s) = (lm_abs s)\<lparr>sm_inside := insert c (sm_inside (lm_abs s))\<rparr>"
    using True q by (auto simp: limited_enter_def next_call_def lm_abs_def)
  moreover have "sm_step mx (lm_abs s) ((lm_abs s)\<lparr>sm_inside := insert c (sm_inside (lm_abs s))\<rparr>)"
    by (rule sm_in) (use True q assms lm_inv_card[OF assms(1)] in \<open>auto simp: lm_abs_def\<close>)
  ultimately show ?thesis by simp
next
  case False
  then have full: "lm_active s = mx" using assms(1) by (simp add: lm_inv_def)
  then have e: "limited_enter mx c s = s\<lparr>lm_queue := lm_queue s @ [c]\<rparr>" by (simp add: limited_enter_def next_call_def)
  have "sm_step mx (lm_abs s) ((lm_abs s)\<lparr>sm_waiting := sm_waiting (lm_abs s) @ [c]\<rparr>)"
    by (rule sm_wait) (use full assms lm_inv_card[OF assms(1)] in \<open>auto simp: lm_abs_def\<close>)
  moreover have "lm_inv mx (s\<lparr>lm_queue := lm_queue s @ [c]\<rparr>)"
    using assms unfolding lm_inv_def by (simp add: full)
  ultimately show ?thesis unfolding e by (simp add: lm_abs_def)
qed

lemma length_removeAll_distinct:
  "distinct xs \<Longrightarrow> c \<in> set xs \<Longrightarrow> length xs = Suc (length (removeAll c xs))"
  by (induction xs) auto

lemma run_step:
  assumes "lm_inv mx s" "c \<in> set (lm_woken s)"
  shows "lm_inv mx (limited_run c s) \<and> lm_abs (limited_run c s) = lm_abs s"
proof -
  have "distinct (lm_woken s)" using assms(1) by (simp add: lm_inv_def)
  from length_removeAll_distinct[OF this assms(2)] assms show ?thesis
    by (auto simp: limited_run_def lm_inv_def lm_abs_def distinct_removeAll)
qed

lemma finally_step:
  assumes "lm_inv mx s" "c \<in> set (lm_running s)"
  shows "lm_inv mx (limited_finally mx c s) \<and> sm_step mx (lm_abs s) (lm_abs (limited_finally mx c s))"
proof -
  have d: "distinct (lm_running s)" "c \<notin> set (lm_woken s)" using assms by (auto simp: lm_inv_def)
  have l: "length (lm_running s) = Suc (length (removeAll c (lm_running s)))"
    by (rule length_removeAll_distinct[OF d(1) assms(2)])
  have "lm_active s = length (lm_woken s) + length (lm_running s)" "lm_active s \<le> mx" using assms(1) by (simp_all add: lm_inv_def)
  then have free: "lm_active s - 1 < mx" "lm_active s > 0" using l by linarith+
  obtain n where n: "length (lm_running s) = Suc n" "length (removeAll c (lm_running s)) = n" using l by blast
  have dr: "distinct (removeAll c (lm_running s))" using d(1) by (rule distinct_removeAll)
  show ?thesis
  proof (cases "lm_queue s")
    case Nil
    then have f: "limited_finally mx c s = s\<lparr>lm_running := removeAll c (lm_running s), lm_active := lm_active s - 1\<rparr>"
      by (simp add: limited_finally_def next_call_def)
    have "sm_step mx (lm_abs s) ((lm_abs s)\<lparr>sm_inside := sm_inside (lm_abs s) - {c}\<rparr>)"
      by (rule sm_out) (use Nil assms in \<open>auto simp: lm_abs_def\<close>)
    moreover have "(lm_abs s)\<lparr>sm_inside := sm_inside (lm_abs s) - {c}\<rparr> = lm_abs (limited_finally mx c s)"
      using d by (auto simp: f lm_abs_def)
    moreover have "lm_inv mx (limited_finally mx c s)" using assms(1) Nil n dr unfolding f lm_inv_def by auto
    ultimately show ?thesis by simp
  next
    case (Cons w ws)
    then have f: "limited_finally mx c s = s\<lparr>lm_running := removeAll c (lm_running s), lm_queue := ws, lm_woken := lm_woken s @ [w]\<rparr>"
      using free by (simp add: limited_finally_def next_call_def)
    have "sm_step mx (lm_abs s) ((lm_abs s)\<lparr>sm_waiting := ws, sm_inside := insert w (sm_inside (lm_abs s) - {c})\<rparr>)"
      by (rule sm_hand) (use Cons assms in \<open>auto simp: lm_abs_def\<close>)
    moreover have "(lm_abs s)\<lparr>sm_waiting := ws, sm_inside := insert w (sm_inside (lm_abs s) - {c})\<rparr> = lm_abs (limited_finally mx c s)"
      using d by (auto simp: f lm_abs_def)
    moreover have "lm_inv mx (limited_finally mx c s)" using assms(1) Cons n dr unfolding f lm_inv_def by auto
    ultimately show ?thesis by simp
  qed
qed

interpretation gate: simulation "\<lambda>s. s = createLimiter" "lm_step mx" "lm_inv mx" sm_init "sm_step mx" lm_abs for mx
proof
  show "lm_inv mx s" if "s = createLimiter" for s using that by (simp add: lm_inv_def createLimiter_def)
  show "sm_init (lm_abs s)" if "s = createLimiter" for s using that by (simp add: sm_init_def lm_abs_def createLimiter_def)
  show "lm_inv mx t" if "lm_inv mx s" "lm_step mx s t" for s t
    using that(2,1) by (cases rule: lm_step.cases) (simp_all add: enter_step run_step finally_step)
  show "lm_abs t = lm_abs s \<or> sm_step mx (lm_abs s) (lm_abs t)" if "lm_inv mx s" "lm_step mx s t" for s t
    using that(2,1) by (cases rule: lm_step.cases) (simp_all add: enter_step run_step finally_step)
qed

section \<open>The generation counter\<close>

definition createRunGen :: nat where
  "createRunGen = 0"

definition gen_next :: "nat \<Rightarrow> nat \<times> nat" where
  "gen_next runId = (runId + 1, runId + 1)"

definition isLive :: "nat \<Rightarrow> nat \<Rightarrow> bool" where
  "isLive runId thisRun \<longleftrightarrow> runId = thisRun"

definition gen_current :: "nat \<Rightarrow> nat" where
  "gen_current runId = runId"

text \<open>The numbers \<open>k\<close> calls of \<open>next\<close> give from a counter on, and the counter after them.\<close>

fun gen_issue :: "nat \<Rightarrow> nat \<Rightarrow> nat list \<times> nat" where
  "gen_issue 0 runId = ([], runId)"
| "gen_issue (Suc k) runId =
     (case gen_next runId of (g, r) \<Rightarrow> case gen_issue k r of (gs, r') \<Rightarrow> (g # gs, r'))"

lemma gen_issue_upt: "gen_issue k r = ([r + 1 ..< r + 1 + k], r + k)"
proof (induction k arbitrary: r)
  case (Suc k)
  have "[r + 1 ..< r + 1 + Suc k] = (r + 1) # [r + 2 ..< r + 2 + k]" by (subst upt_conv_Cons) simp_all
  with Suc show ?case by (simp add: gen_next_def)
qed simp

text \<open>Of all the runs ever given a generation exactly the last one is live.\<close>

lemma only_last_run_live:
  assumes "gen_issue k createRunGen = (gs, r)" "i < k"
  shows "isLive r (gs ! i) \<longleftrightarrow> i = k - 1"
  using assms by (auto simp: gen_issue_upt createRunGen_def isLive_def nth_append simp del: upt_Suc)

section \<open>Properties\<close>

text \<open>C9. The gate is a counting semaphore served in order of arrival: whatever the interleaving of calls, wake-ups and
  finished operations, its states are those the semaphore reaches, never more operations run than the bound, the
  counter is exact, and a call waits only while every place is taken, so no wake-up is lost.\<close>

theorem gate_refines_semaphore:
  assumes "reach (\<lambda>s. s = createLimiter) (lm_step mx) s"
  shows "reach sm_init (sm_step mx) (lm_abs s)
    \<and> length (lm_running s) \<le> lm_active s \<and> lm_active s = card (sm_inside (lm_abs s)) \<and> lm_active s \<le> mx
    \<and> (lm_queue s \<noteq> [] \<longrightarrow> lm_active s = mx)"
proof -
  have inv: "lm_inv mx s" using assms by (rule gate.reach_inv)
  from inv have "length (lm_running s) \<le> lm_active s" "lm_active s \<le> mx" "lm_queue s \<noteq> [] \<longrightarrow> lm_active s = mx"
    unfolding lm_inv_def length_append by linarith+
  with gate.reach_abst[OF assms] lm_inv_card[OF inv] show ?thesis by metis
qed

section \<open>Witnesses\<close>

theorem gate_refines_semaphore_witness:
  "let s = limited_enter 1 8 (limited_enter 1 7 createLimiter) in lm_active s = card (sm_inside (lm_abs s)) \<and> lm_queue s = [8]"
proof -
  have "reach (\<lambda>s. s = createLimiter) (lm_step 1) createLimiter" by (rule reach_init) simp
  then have "reach (\<lambda>s. s = createLimiter) (lm_step 1) (limited_enter 1 7 createLimiter)"
    by (rule reach_step) (rule lm_enter, simp add: createLimiter_def)
  then have "reach (\<lambda>s. s = createLimiter) (lm_step 1) (limited_enter 1 8 (limited_enter 1 7 createLimiter))"
    by (rule reach_step) (rule lm_enter, simp add: createLimiter_def limited_enter_def next_call_def)
  from gate_refines_semaphore[OF this] show ?thesis
    by (simp add: createLimiter_def limited_enter_def next_call_def)
qed

end
