(* ===== verification/Playlist_Run.thy ===== *)
theory Playlist_Run
  imports Playlist_Ops Async_Tools
begin

text \<open>
  The playlist store and its runner (\<^verbatim>\<open>client/src/state/payloadPlaylists.ts\<close>): the edits, and runs that send
  the steps of a playlist to a console one after another, with pauses, at most one for each console.

  A run is cut at its awaits: resolving a repo step, sending a step, a pause. Between them the code runs to
  the next await in one go, which is one function here (\<open>begin_step\<close>, \<open>after_step\<close>, \<open>step_failed\<close>,
  \<open>resolved\<close>, \<open>sent\<close>, \<open>slept\<close>). The answers are arguments; a pause may end at any time, as a stop makes it.
  A run that has started is kept in \<open>pls_runs\<close> with the playlist as it was and what it has sent. Saving to the
  file, the log and the abort controllers are left out.
\<close>

section \<open>State\<close>

datatype PlaylistRunStatus =
    RsIdle
  | RsRunning string nat string
  | RsSleeping string string nat rat rat
  | RsDone string string nat nat "(nat \<times> string) list"
  | RsFailed string string nat string

datatype run_phase = AtResolve | AtSend string | AtSleep | RunEnded

record playlist_run =
  rn_key :: string
  rn_gen :: nat
  rn_playlist :: Playlist
  rn_host :: string
  rn_port :: rat
  rn_i :: nat
  rn_succ :: nat
  rn_fails :: "(nat \<times> string) list"
  rn_phase :: run_phase
  rn_sent :: "(nat \<times> string \<times> string \<times> rat) list"

record PlaylistState =
  pls_playlists :: "Playlist list"
  pls_loaded :: bool
  pls_autoLoader :: AutoLoaderConfig
  pls_status :: "string \<rightharpoonup> PlaylistRunStatus"
  pls_gens :: "string \<Rightarrow> nat"
  pls_runs :: "playlist_run list"

definition keyOf :: "string option \<Rightarrow> string" where
  "keyOf host = (case host of None \<Rightarrow> [] | Some h \<Rightarrow> if trim h \<noteq> [] then hostOf h else [])"

definition runStatusForHost :: "PlaylistState \<Rightarrow> string option \<Rightarrow> PlaylistRunStatus" where
  "runStatusForHost s host = (case pls_status s (keyOf host) of None \<Rightarrow> RsIdle | Some st \<Rightarrow> st)"

definition initial_playlists :: PlaylistState where
  "initial_playlists =
     \<lparr>pls_playlists = [], pls_loaded = False, pls_autoLoader = DEFAULT_AUTO_LOADER, pls_status = Map.empty,
      pls_gens = (\<lambda>_. createRunGen), pls_runs = []\<rparr>"

section \<open>Edits\<close>

abbreviation set_lists :: "(Playlist list \<Rightarrow> Playlist list) \<Rightarrow> PlaylistState \<Rightarrow> PlaylistState" where
  "set_lists f s \<equiv> s\<lparr>pls_playlists := f (pls_playlists s)\<rparr>"

text \<open>\<open>doc\<close>: what the file gave, \<open>None\<close> when reading it threw.\<close>

definition hydratePlaylists :: "bool \<Rightarrow> (Playlist list option \<times> (AutoLoaderConfig \<Rightarrow> AutoLoaderConfig)) option \<Rightarrow> PlaylistState \<Rightarrow> PlaylistState" where
  "hydratePlaylists desktop doc s =
     (case (desktop, doc) of
        (True, Some (pls, auto)) \<Rightarrow>
          s\<lparr>pls_playlists := (case pls of None \<Rightarrow> [] | Some l \<Rightarrow> l), pls_autoLoader := auto DEFAULT_AUTO_LOADER, pls_loaded := True\<rparr>
      | _ \<Rightarrow> s\<lparr>pls_loaded := True\<rparr>)"

definition titled :: "string \<Rightarrow> string" where
  "titled name = (if name = [] then ''Untitled playlist'' else name)"

definition createPlaylist :: "string \<Rightarrow> rat \<Rightarrow> string \<Rightarrow> PlaylistState \<Rightarrow> PlaylistState" where
  "createPlaylist i now name =
     set_lists (\<lambda>pls. pls @ [\<lparr>py_id = i, py_name = titled name, py_steps = [], py_continueOnFailure = False,
                              py_createdAt = now, py_updatedAt = now, py_lastRunAt = None\<rparr>])"

definition renamePlaylist :: "rat \<Rightarrow> string \<Rightarrow> string \<Rightarrow> PlaylistState \<Rightarrow> PlaylistState" where
  "renamePlaylist now i name = set_lists (\<lambda>pls. patchPlaylist now pls i (\<lambda>p. p\<lparr>py_name := titled name\<rparr>))"

definition deletePlaylist :: "string \<Rightarrow> PlaylistState \<Rightarrow> PlaylistState" where
  "deletePlaylist i = set_lists (\<lambda>pls. removePlaylist pls i)"

definition setPlaylistContinueOnFailure :: "rat \<Rightarrow> string \<Rightarrow> bool \<Rightarrow> PlaylistState \<Rightarrow> PlaylistState" where
  "setPlaylistContinueOnFailure now i b = set_lists (\<lambda>pls. patchPlaylist now pls i (\<lambda>p. p\<lparr>py_continueOnFailure := b\<rparr>))"

definition addStep :: "rat \<Rightarrow> string \<Rightarrow> PlaylistStep \<Rightarrow> PlaylistState \<Rightarrow> PlaylistState" where
  "addStep now i st = set_lists (\<lambda>pls. appendStep now pls i st)"

definition updateStep :: "rat \<Rightarrow> string \<Rightarrow> int \<Rightarrow> (PlaylistStep \<Rightarrow> PlaylistStep) \<Rightarrow> PlaylistState \<Rightarrow> PlaylistState" where
  "updateStep now i index patch s =
     (case find_playlist (pls_playlists s) i of
        None \<Rightarrow> s
      | Some p \<Rightarrow>
          if index < 0 \<or> index \<ge> int (length (py_steps p)) then s
          else set_lists (\<lambda>pls. set_steps now pls i ((py_steps p)[nat index := patch (py_steps p ! nat index)])) s)"

definition setAutoLoader :: "(AutoLoaderConfig \<Rightarrow> AutoLoaderConfig) \<Rightarrow> PlaylistState \<Rightarrow> PlaylistState" where
  "setAutoLoader patch s = s\<lparr>pls_autoLoader := patch (pls_autoLoader s)\<rparr>"

definition mapped :: "(string \<rightharpoonup> string) \<Rightarrow> string option \<Rightarrow> string option" where
  "mapped m i = (case i of None \<Rightarrow> None | Some k \<Rightarrow> if k = [] then None else m k)"

definition importPlaylists :: "PlaylistExport \<Rightarrow> string list \<Rightarrow> rat \<Rightarrow> PlaylistState \<Rightarrow> PlaylistState" where
  "importPlaylists doc ids now s =
     (case importedPlaylists (pls_playlists s) (ex_playlists doc) ids now of
        None \<Rightarrow> s
      | Some (pls, m) \<Rightarrow>
          s\<lparr>pls_playlists := pls_playlists s @ pls,
            pls_autoLoader :=
              (case ex_autoLoader doc of
                 Some there \<Rightarrow>
                   if al_playlistId (pls_autoLoader s) = None \<and> al_bringUpPlaylistId (pls_autoLoader s) = None
                   then \<lparr>al_enabled = al_enabled there, al_playlistId = mapped m (al_playlistId there),
                         al_bringUpPlaylistId = mapped m (al_bringUpPlaylistId there)\<rparr>
                   else pls_autoLoader s
               | None \<Rightarrow> pls_autoLoader s)\<rparr>)"

section \<open>Runs\<close>

definition run_live :: "PlaylistState \<Rightarrow> playlist_run \<Rightarrow> bool" where
  "run_live s r \<longleftrightarrow> isLive (pls_gens s (rn_key r)) (rn_gen r)"

definition setRunStatus :: "string \<Rightarrow> PlaylistRunStatus \<Rightarrow> PlaylistState \<Rightarrow> PlaylistState" where
  "setRunStatus key st s = s\<lparr>pls_status := (pls_status s)(key \<mapsto> st)\<rparr>"

abbreviation run_steps :: "playlist_run \<Rightarrow> PlaylistStep list" where
  "run_steps r \<equiv> py_steps (rn_playlist r)"

abbreviation run_id :: "playlist_run \<Rightarrow> string" where
  "run_id r \<equiv> py_id (rn_playlist r)"

text \<open>Where a step is sent: its own address and port, else the ones of the run.\<close>

definition step_target :: "playlist_run \<Rightarrow> PlaylistStep \<Rightarrow> string \<times> rat" where
  "step_target r st =
     (case st_ip st of Some a \<Rightarrow> if trim a \<noteq> [] then trim a else rn_host r | None \<Rightarrow> rn_host r,
      case st_port st of Some n \<Rightarrow> if n > 0 then n else rn_port r | None \<Rightarrow> rn_port r)"

definition send_step :: "string \<Rightarrow> playlist_run \<Rightarrow> playlist_run" where
  "send_step path r =
     (case step_target r (run_steps r ! rn_i r) of
        (h, p) \<Rightarrow> r\<lparr>rn_phase := AtSend path, rn_sent := rn_sent r @ [(rn_i r, path, h, p)]\<rparr>)"

text \<open>The head of the loop, up to the next await, or the end of the run.\<close>

definition begin_step :: "playlist_run \<Rightarrow> PlaylistState \<Rightarrow> playlist_run \<times> PlaylistState" where
  "begin_step r s =
     (if rn_i r < length (run_steps r) then
        if \<not> run_live s r then (r\<lparr>rn_phase := RunEnded\<rparr>, s)
        else let s' = setRunStatus (rn_key r) (RsRunning (run_id r) (rn_i r) (rn_host r)) s;
                 st = run_steps r ! rn_i r
             in if isRepoStep st then (r\<lparr>rn_phase := AtResolve\<rparr>, s') else (send_step (st_path st) r, s')
      else (r\<lparr>rn_phase := RunEnded\<rparr>,
            if run_live s r
            then setRunStatus (rn_key r) (RsDone (run_id r) (rn_host r) (rn_succ r) (length (rn_fails r)) (rn_fails r)) s
            else s))"

definition after_step :: "rat \<Rightarrow> playlist_run \<Rightarrow> PlaylistState \<Rightarrow> playlist_run \<times> PlaylistState" where
  "after_step now r s =
     (if \<not> run_live s r then (r\<lparr>rn_phase := RunEnded\<rparr>, s)
      else let ms = st_sleepMs (run_steps r ! rn_i r) in
           if ms > 0 \<and> rn_i r + 1 < length (run_steps r)
           then (r\<lparr>rn_phase := AtSleep\<rparr>, setRunStatus (rn_key r) (RsSleeping (run_id r) (rn_host r) (rn_i r) now ms) s)
           else begin_step (r\<lparr>rn_i := rn_i r + 1\<rparr>) s)"

definition step_failed :: "rat \<Rightarrow> string \<Rightarrow> playlist_run \<Rightarrow> PlaylistState \<Rightarrow> playlist_run \<times> PlaylistState" where
  "step_failed now err r s =
     (let r' = r\<lparr>rn_fails := rn_fails r @ [(rn_i r, err)]\<rparr> in
      if \<not> py_continueOnFailure (rn_playlist r)
      then (r'\<lparr>rn_phase := RunEnded\<rparr>,
            if run_live s r then setRunStatus (rn_key r) (RsFailed (run_id r) (rn_host r) (rn_i r) err) s else s)
      else after_step now r' s)"

text \<open>The path found for a repo step is written to the step at its index in the playlist as it is now.\<close>

definition cache_path :: "string \<Rightarrow> nat \<Rightarrow> string \<Rightarrow> Playlist list \<Rightarrow> Playlist list" where
  "cache_path i k path =
     map (\<lambda>p. if py_id p = i
              then p\<lparr>py_steps := (py_steps p)[k := (py_steps p ! k)\<lparr>st_path := path\<rparr>]\<rparr>
              else p)"

definition resolved :: "rat \<Rightarrow> string + string \<Rightarrow> playlist_run \<Rightarrow> PlaylistState \<Rightarrow> playlist_run \<times> PlaylistState" where
  "resolved now answer r s =
     (case answer of
        Inl err \<Rightarrow> step_failed now err r s
      | Inr path \<Rightarrow>
          let s' = (if run_live s r \<and> path \<noteq> [] \<and> path \<noteq> st_path (run_steps r ! rn_i r)
                    then set_lists (cache_path (run_id r) (rn_i r) path) s else s)
          in if \<not> run_live s r then (r\<lparr>rn_phase := RunEnded\<rparr>, s') else (send_step path r, s'))"

definition sent :: "rat \<Rightarrow> string + unit \<Rightarrow> playlist_run \<Rightarrow> PlaylistState \<Rightarrow> playlist_run \<times> PlaylistState" where
  "sent now answer r s =
     (case answer of
        Inl err \<Rightarrow> step_failed now err r s
      | Inr _ \<Rightarrow> after_step now (r\<lparr>rn_succ := rn_succ r + 1\<rparr>) s)"

definition slept :: "playlist_run \<Rightarrow> PlaylistState \<Rightarrow> playlist_run \<times> PlaylistState" where
  "slept r s =
     (if \<not> run_live s r then (r\<lparr>rn_phase := RunEnded\<rparr>, s) else begin_step (r\<lparr>rn_i := rn_i r + 1\<rparr>) s)"

text \<open>One event of the run at position \<open>k\<close>; an event the run does not wait for changes nothing.\<close>

datatype run_event = Resolved "string + string" | Sent "string + unit" | Slept

definition run_next :: "rat \<Rightarrow> run_event \<Rightarrow> playlist_run \<Rightarrow> PlaylistState \<Rightarrow> playlist_run \<times> PlaylistState" where
  "run_next now ev r s =
     (case (rn_phase r, ev) of
        (AtResolve, Resolved a) \<Rightarrow> resolved now a r s
      | (AtSend _, Sent a) \<Rightarrow> sent now a r s
      | (AtSleep, Slept) \<Rightarrow> slept r s
      | _ \<Rightarrow> (r, s))"

definition run_event_at :: "rat \<Rightarrow> nat \<Rightarrow> run_event \<Rightarrow> PlaylistState \<Rightarrow> PlaylistState" where
  "run_event_at now k ev s =
     (if k < length (pls_runs s)
      then (case run_next now ev (pls_runs s ! k) s of (r, s') \<Rightarrow> s'\<lparr>pls_runs := (pls_runs s)[k := r]\<rparr>)
      else s)"

definition busy :: "PlaylistRunStatus option \<Rightarrow> bool" where
  "busy st = (case st of Some (RsRunning _ _ _) \<Rightarrow> True | Some (RsSleeping _ _ _ _ _) \<Rightarrow> True | _ \<Rightarrow> False)"

definition runPlaylist :: "rat \<Rightarrow> string \<Rightarrow> string \<Rightarrow> rat \<Rightarrow> PlaylistState \<Rightarrow> PlaylistState" where
  "runPlaylist now i host port s =
     (case find_playlist (pls_playlists s) i of
        None \<Rightarrow> s
      | Some p \<Rightarrow>
          let key = keyOf (Some host) in
          if busy (pls_status s key) then s
          else let s1 = set_lists (map (\<lambda>q. if py_id q = i then q\<lparr>py_lastRunAt := Some now\<rparr> else q)) s;
                   myRun = fst (gen_next (pls_gens s key));
                   s2 = s1\<lparr>pls_gens := (pls_gens s)(key := snd (gen_next (pls_gens s key)))\<rparr>
               in case begin_step \<lparr>rn_key = key, rn_gen = myRun, rn_playlist = p, rn_host = host, rn_port = port, rn_i = 0,
                                   rn_succ = 0, rn_fails = [], rn_phase = AtSleep, rn_sent = []\<rparr> s2 of
                    (r, s3) \<Rightarrow> s3\<lparr>pls_runs := pls_runs s @ [r]\<rparr>)"

definition stopPlaylist :: "string \<Rightarrow> PlaylistState \<Rightarrow> PlaylistState" where
  "stopPlaylist host s =
     (let key = keyOf (Some host) in
      setRunStatus key RsIdle (s\<lparr>pls_gens := (pls_gens s)(key := snd (gen_next (pls_gens s key)))\<rparr>))"

section \<open>The machine\<close>

inductive edit_step :: "PlaylistState \<Rightarrow> PlaylistState \<Rightarrow> bool" where
  "edit_step s (hydratePlaylists desktop doc s)"
| "edit_step s (createPlaylist i now name s)"
| "edit_step s (renamePlaylist now i name s)"
| "edit_step s (deletePlaylist i s)"
| "edit_step s (setPlaylistContinueOnFailure now i b s)"
| "edit_step s (set_lists (\<lambda>pls. movePlaylistUp pls i) s)"
| "edit_step s (set_lists (\<lambda>pls. movePlaylistDown pls i) s)"
| "edit_step s (addStep now i st s)"
| "edit_step s (set_lists (\<lambda>pls. removeStep now pls i index) s)"
| "edit_step s (set_lists (\<lambda>pls. moveStepUp now pls i index) s)"
| "edit_step s (set_lists (\<lambda>pls. moveStepDown now pls i index) s)"
| "edit_step s (updateStep now i index patch s)"
| "edit_step s (setAutoLoader apatch s)"
| "edit_step s (importPlaylists file ids now s)"

inductive pl_step :: "PlaylistState \<Rightarrow> PlaylistState \<Rightarrow> bool" where
  pl_edit: "edit_step s t \<Longrightarrow> pl_step s t"
| pl_run: "pl_step s (runPlaylist now i host port s)"
| pl_stop: "pl_step s (stopPlaylist host s)"
| pl_event: "pl_step s (run_event_at now k ev s)"

text \<open>An edit touches no run.\<close>

lemma edit_runs: "edit_step s t \<Longrightarrow> pls_status t = pls_status s \<and> pls_gens t = pls_gens s \<and> pls_runs t = pls_runs s"
  by (induction rule: edit_step.induct)
    (auto simp: hydratePlaylists_def createPlaylist_def renamePlaylist_def deletePlaylist_def setPlaylistContinueOnFailure_def addStep_def
      updateStep_def setAutoLoader_def importPlaylists_def split: option.splits prod.splits bool.splits)

section \<open>The banner\<close>

text \<open>What the banner of a console shows of a run that is under way.\<close>

definition shows_run :: "playlist_run \<Rightarrow> PlaylistRunStatus \<Rightarrow> bool" where
  "shows_run r st \<longleftrightarrow>
     (case rn_phase r of
        RunEnded \<Rightarrow> \<not> busy (Some st)
      | AtSleep \<Rightarrow> \<exists>t ms. st = RsSleeping (run_id r) (rn_host r) (rn_i r) t ms
      | _ \<Rightarrow> st = RsRunning (run_id r) (rn_i r) (rn_host r))"

text \<open>What one go of a run may change: a stale run changes no banner and ends; a live one leaves the banner of its console
  showing where it is.\<close>

definition moves :: "playlist_run \<Rightarrow> PlaylistState \<Rightarrow> playlist_run \<times> PlaylistState \<Rightarrow> bool" where
  "moves r s res =
     (case res of
        (r', s') \<Rightarrow>
          rn_key r' = rn_key r \<and> rn_gen r' = rn_gen r \<and> rn_playlist r' = rn_playlist r
          \<and> pls_gens s' = pls_gens s \<and> pls_runs s' = pls_runs s
          \<and> (if run_live s r
             then \<exists>st. pls_status s' = (pls_status s)(rn_key r \<mapsto> st) \<and> shows_run r' st
             else pls_status s' = pls_status s \<and> rn_phase r' = RunEnded))"

lemma send_step_sel [simp]:
  "rn_key (send_step path r) = rn_key r" "rn_gen (send_step path r) = rn_gen r" "rn_playlist (send_step path r) = rn_playlist r"
  "rn_phase (send_step path r) = AtSend path" "rn_i (send_step path r) = rn_i r" "rn_host (send_step path r) = rn_host r"
  "rn_succ (send_step path r) = rn_succ r" "rn_fails (send_step path r) = rn_fails r" "rn_port (send_step path r) = rn_port r"
  by (simp_all add: send_step_def split: prod.splits)

lemma run_live_upd [simp]:
  "run_live (setRunStatus k st s) r = run_live s r" "run_live s (r\<lparr>rn_i := i\<rparr>) = run_live s r"
  "run_live s (r\<lparr>rn_fails := fs\<rparr>) = run_live s r" "run_live s (r\<lparr>rn_succ := n\<rparr>) = run_live s r"
  "run_live (s\<lparr>pls_playlists := pls\<rparr>) r = run_live s r"
  by (simp_all add: run_live_def setRunStatus_def)

lemma moves_begin: "moves r s (begin_step r s)"
  by (auto simp: moves_def begin_step_def shows_run_def setRunStatus_def busy_def Let_def)

lemma moves_upd:
  "moves (r\<lparr>rn_i := i\<rparr>) s res \<Longrightarrow> moves r s res" "moves (r\<lparr>rn_fails := fs\<rparr>) s res \<Longrightarrow> moves r s res"
  "moves (r\<lparr>rn_succ := n\<rparr>) s res \<Longrightarrow> moves r s res"
  by (cases "run_live s r"; simp add: moves_def split: prod.splits)+

lemma moves_after: "moves r s (after_step now r s)"
  using moves_upd(1)[OF moves_begin, of r s "rn_i r + 1"]
  by (auto simp: after_step_def moves_def shows_run_def setRunStatus_def Let_def split: prod.splits)

lemma moves_failed: "moves r s (step_failed now err r s)"
  using moves_upd(2)[OF moves_after, of r s now "rn_fails r @ [(rn_i r, err)]"]
  by (auto simp: step_failed_def Let_def)
    (auto simp: moves_def shows_run_def setRunStatus_def busy_def)

lemma moves_resolved:
  assumes "rn_phase r = AtResolve" "run_live s r \<Longrightarrow> \<exists>st. pls_status s (rn_key r) = Some st \<and> shows_run r st"
  shows "moves r s (resolved now answer r s)"
proof (cases answer)
  case (Inl err)
  then show ?thesis by (simp add: resolved_def moves_failed)
next
  case (Inr path)
  have "\<exists>st. pls_status s = (pls_status s)(rn_key r \<mapsto> st) \<and> st = RsRunning (run_id r) (rn_i r) (rn_host r)" if "run_live s r"
    using assms(2)[OF that] assms(1) by (auto simp: shows_run_def fun_upd_idem_iff)
  with Inr show ?thesis
    by (auto simp: resolved_def moves_def shows_run_def Let_def)
qed

lemma moves_sent: "moves r s (sent now answer r s)"
  using moves_upd(3)[OF moves_after, of r s now "rn_succ r + 1"] by (simp add: sent_def moves_failed split: sum.split)

lemma moves_slept: "moves r s (slept r s)"
  using moves_upd(1)[OF moves_begin, of r s "rn_i r + 1"] by (auto simp: slept_def) (simp add: moves_def)

text \<open>An event a run waits for moves it; any other leaves everything as it was.\<close>

lemma run_next_moves:
  assumes "run_live s r \<Longrightarrow> rn_phase r \<noteq> RunEnded \<Longrightarrow> \<exists>st. pls_status s (rn_key r) = Some st \<and> shows_run r st"
  shows "run_next now ev r s = (r, s) \<or> rn_phase r \<noteq> RunEnded \<and> moves r s (run_next now ev r s)"
  using assms moves_resolved[of r s now] moves_sent[of r s now] moves_slept[of r s]
  by (auto simp: run_next_def split: run_phase.splits run_event.splits)

definition pl_live :: "PlaylistState \<Rightarrow> nat \<Rightarrow> bool" where
  "pl_live s k \<longleftrightarrow> k < length (pls_runs s) \<and> rn_phase (pls_runs s ! k) \<noteq> RunEnded \<and> run_live s (pls_runs s ! k)"

definition banner_inv :: "PlaylistState \<Rightarrow> bool" where
  "banner_inv s \<longleftrightarrow>
     (\<forall>r \<in> set (pls_runs s). rn_gen r \<le> pls_gens s (rn_key r))
     \<and> distinct (map (\<lambda>r. (rn_key r, rn_gen r)) (pls_runs s))
     \<and> (\<forall>k. pl_live s k \<longrightarrow> (\<exists>st. pls_status s (rn_key (pls_runs s ! k)) = Some st \<and> shows_run (pls_runs s ! k) st))
     \<and> (\<forall>key. busy (pls_status s key) \<longrightarrow> (\<exists>k. pl_live s k \<and> rn_key (pls_runs s ! k) = key))"

lemma pl_live_unique:
  assumes "banner_inv s" "pl_live s j" "pl_live s k" "rn_key (pls_runs s ! j) = rn_key (pls_runs s ! k)"
  shows "j = k"
proof -
  have "rn_gen (pls_runs s ! j) = rn_gen (pls_runs s ! k)"
    using assms(2-4) by (simp add: pl_live_def run_live_def isLive_def)
  with assms show ?thesis
    unfolding banner_inv_def pl_live_def by (auto simp: distinct_conv_nth)
qed

lemma event_banner:
  assumes inv: "banner_inv s"
  shows "banner_inv (run_event_at now k ev s)"
proof (cases "k < length (pls_runs s)")
  case False
  then show ?thesis using inv by (simp add: run_event_at_def)
next
  case True
  let ?r = "pls_runs s ! k"
  obtain r' s' where res: "run_next now ev ?r s = (r', s')" by fastforce
  have sh: "run_live s ?r \<Longrightarrow> rn_phase ?r \<noteq> RunEnded \<Longrightarrow> \<exists>st. pls_status s (rn_key ?r) = Some st \<and> shows_run ?r st"
    using inv True by (auto simp: banner_inv_def pl_live_def)
  show ?thesis
  proof (cases "(r', s') = (?r, s)")
    case True
    then have "run_event_at now k ev s = s" using res \<open>k < length (pls_runs s)\<close> by (simp add: run_event_at_def)
    with inv show ?thesis by simp
  next
    case False
    with run_next_moves[OF sh, of now ev] res have p: "rn_phase ?r \<noteq> RunEnded" and m: "moves ?r s (r', s')" by auto
    define t where "t = s'\<lparr>pls_runs := (pls_runs s)[k := r']\<rparr>"
    have t: "run_event_at now k ev s = t" using True res by (simp add: run_event_at_def t_def)
    from m have same: "rn_key r' = rn_key ?r" "rn_gen r' = rn_gen ?r" "pls_gens t = pls_gens s" by (auto simp: moves_def t_def)
    have kg: "map (\<lambda>r. (rn_key r, rn_gen r)) (pls_runs t) = map (\<lambda>r. (rn_key r, rn_gen r)) (pls_runs s)"
      using same True by (simp add: t_def map_update list_update_same_conv)
    have live: "run_live t (pls_runs t ! j) = run_live s (pls_runs s ! j)" if "j < length (pls_runs s)" for j
      using same True that by (simp add: run_live_def t_def nth_list_update)
    have other: "pl_live t j = pl_live s j" "pls_runs t ! j = pls_runs s ! j" if "j \<noteq> k" for j
    proof -
      show "pls_runs t ! j = pls_runs s ! j" using that by (simp add: t_def)
      then show "pl_live t j = pl_live s j" using same(3) by (simp add: pl_live_def run_live_def) (simp add: t_def)
    qed
    have kept: "pls_status t key = pls_status s key" if "key \<noteq> rn_key ?r \<or> \<not> run_live s ?r" for key
      using m that by (auto simp: moves_def t_def split: if_splits)
    have mine: "\<exists>st. pls_status t (rn_key ?r) = Some st \<and> shows_run r' st" if "run_live s ?r"
      using m that by (auto simp: moves_def t_def)
    have "\<exists>st. pls_status t (rn_key (pls_runs t ! j)) = Some st \<and> shows_run (pls_runs t ! j) st" if j: "pl_live t j" for j
    proof (cases "j = k")
      case True
      then show ?thesis using mine j live[of k] \<open>k < length (pls_runs s)\<close> same by (auto simp: pl_live_def t_def)
    next
      case False
      have "rn_key (pls_runs s ! j) \<noteq> rn_key ?r \<or> \<not> run_live s ?r"
        using pl_live_unique[OF inv, of j k] False j other(1)[OF False] p \<open>k < length (pls_runs s)\<close> by (auto simp: pl_live_def)
      then show ?thesis using kept other[OF False] j inv by (auto simp: banner_inv_def)
    qed
    moreover have "\<exists>j. pl_live t j \<and> rn_key (pls_runs t ! j) = key" if b: "busy (pls_status t key)" for key
    proof (cases "key = rn_key ?r \<and> run_live s ?r")
      case True
      with mine b have "rn_phase r' \<noteq> RunEnded" by (auto simp: shows_run_def)
      then have "pl_live t k" using True live[of k] \<open>k < length (pls_runs s)\<close> by (simp add: pl_live_def t_def)
      then show ?thesis using True same \<open>k < length (pls_runs s)\<close> by (auto simp: t_def intro!: exI[of _ k])
    next
      case False
      then have "busy (pls_status s key)" using b kept by auto
      then obtain j where j: "pl_live s j" "rn_key (pls_runs s ! j) = key" using inv by (auto simp: banner_inv_def)
      with False have "j \<noteq> k" by (auto simp: pl_live_def)
      with other j show ?thesis by metis
    qed
    moreover have "\<forall>r \<in> set (pls_runs t). rn_gen r \<le> pls_gens t (rn_key r)"
    proof -
      have "(rn_key r, rn_gen r) \<in> set (map (\<lambda>r. (rn_key r, rn_gen r)) (pls_runs s))" if "r \<in> set (pls_runs t)" for r
        using that unfolding kg[symmetric] by auto
      then show ?thesis using inv same(3) by (fastforce simp: banner_inv_def)
    qed
    moreover have "distinct (map (\<lambda>r. (rn_key r, rn_gen r)) (pls_runs t))" unfolding kg using inv by (simp add: banner_inv_def)
    ultimately show ?thesis unfolding t banner_inv_def by blast
  qed
qed

text \<open>Raising the generation of a console makes all its runs stale.\<close>

lemma bump_stale:
  assumes "banner_inv s" "k < length (pls_runs s)" "pls_gens t = (pls_gens s)(key := pls_gens s key + 1)"
  shows "run_live t (pls_runs s ! k) \<longleftrightarrow> rn_key (pls_runs s ! k) \<noteq> key \<and> run_live s (pls_runs s ! k)"
proof -
  have "rn_gen (pls_runs s ! k) \<le> pls_gens s (rn_key (pls_runs s ! k))" using assms(1,2) by (auto simp: banner_inv_def)
  then show ?thesis using assms(3) by (auto simp: run_live_def isLive_def)
qed

lemma stop_banner:
  assumes inv: "banner_inv s"
  shows "banner_inv (stopPlaylist host s)"
proof -
  let ?key = "keyOf (Some host)" and ?t = "stopPlaylist host s"
  have t: "pls_gens ?t = (pls_gens s)(?key := pls_gens s ?key + 1)" "pls_runs ?t = pls_runs s" "pls_status ?t = (pls_status s)(?key \<mapsto> RsIdle)"
    by (simp_all add: stopPlaylist_def setRunStatus_def gen_next_def Let_def)
  have live: "pl_live ?t k \<longleftrightarrow> pl_live s k \<and> rn_key (pls_runs s ! k) \<noteq> ?key" for k
    using bump_stale[OF inv _ t(1)] t(2) by (auto simp: pl_live_def)
  have g: "rn_gen r \<le> pls_gens s (rn_key r)" if "r \<in> set (pls_runs s)" for r using inv that by (simp add: banner_inv_def)
  show ?thesis
    using inv unfolding banner_inv_def live t by (auto simp: busy_def dest!: g intro: le_SucI)
qed

lemma start_banner:
  assumes inv: "banner_inv s"
  shows "banner_inv (runPlaylist now i host port s)"
proof (cases "find_playlist (pls_playlists s) i = None \<or> busy (pls_status s (keyOf (Some host)))")
  case True
  then show ?thesis using inv by (auto simp: runPlaylist_def Let_def split: option.splits)
next
  case False
  then obtain p where p: "find_playlist (pls_playlists s) i = Some p" by auto
  let ?key = "keyOf (Some host)"
  define r0 where "r0 = \<lparr>rn_key = ?key, rn_gen = pls_gens s ?key + 1, rn_playlist = p, rn_host = host, rn_port = port, rn_i = 0,
     rn_succ = 0, rn_fails = [], rn_phase = AtSleep, rn_sent = []\<rparr>"
  define s2 where "s2 = s\<lparr>pls_playlists := map (\<lambda>q. if py_id q = i then q\<lparr>py_lastRunAt := Some now\<rparr> else q) (pls_playlists s),
     pls_gens := (pls_gens s)(?key := pls_gens s ?key + 1)\<rparr>"
  obtain r s3 where b: "begin_step r0 s2 = (r, s3)" by fastforce
  define t where "t = s3\<lparr>pls_runs := pls_runs s @ [r]\<rparr>"
  have run: "runPlaylist now i host port s = t"
    using p False b by (simp add: runPlaylist_def Let_def gen_next_def r0_def s2_def t_def)
  have lv: "run_live s2 r0" by (simp add: run_live_def isLive_def r0_def s2_def)
  from moves_begin[of r0 s2] b lv obtain st where m: "rn_key r = ?key" "rn_gen r = pls_gens s ?key + 1" "pls_gens t = (pls_gens s)(?key := pls_gens s ?key + 1)"
      "pls_status t = (pls_status s)(?key \<mapsto> st)" "shows_run r st"
    by (auto simp: moves_def r0_def s2_def t_def)
  have runs: "pls_runs t = pls_runs s @ [r]" by (simp add: t_def)
  let ?n = "length (pls_runs s)"
  have old: "pl_live t k \<longleftrightarrow> pl_live s k \<and> rn_key (pls_runs s ! k) \<noteq> ?key" if "k < ?n" for k
    using bump_stale[OF inv that m(3)] that by (auto simp: pl_live_def runs nth_append)
  have new: "pl_live t ?n \<longleftrightarrow> rn_phase r \<noteq> RunEnded"
    using m by (simp add: pl_live_def runs run_live_def isLive_def)
  have g: "rn_gen q \<le> pls_gens s (rn_key q)" if "q \<in> set (pls_runs s)" for q using inv that by (simp add: banner_inv_def)
  have "\<exists>st. pls_status t (rn_key (pls_runs t ! k)) = Some st \<and> shows_run (pls_runs t ! k) st" if k: "pl_live t k" for k
  proof (cases "k = ?n")
    case True
    then show ?thesis using m by (simp add: runs)
  next
    case False
    then have "k < ?n" using k by (simp add: pl_live_def runs)
    then show ?thesis using old[of k] k inv m(4) by (auto simp: banner_inv_def runs nth_append)
  qed
  moreover have "\<exists>k. pl_live t k \<and> rn_key (pls_runs t ! k) = key" if b: "busy (pls_status t key)" for key
  proof (cases "key = ?key")
    case True
    with b m(4,5) have "rn_phase r \<noteq> RunEnded" by (auto simp: shows_run_def)
    with new m(1) True show ?thesis by (auto simp: runs intro!: exI[of _ ?n])
  next
    case False
    with b m(4) have "busy (pls_status s key)" by simp
    then obtain k where k: "pl_live s k" "rn_key (pls_runs s ! k) = key" using inv by (auto simp: banner_inv_def)
    then have "k < ?n" by (simp add: pl_live_def)
    with old k False show ?thesis by (auto simp: runs nth_append intro!: exI[of _ k])
  qed
  moreover have "\<forall>q \<in> set (pls_runs t). rn_gen q \<le> pls_gens t (rn_key q)"
    using g m by (auto simp: runs) (metis g le_SucI)
  moreover have "distinct (map (\<lambda>r. (rn_key r, rn_gen r)) (pls_runs t))"
    using inv g m(1,2) by (fastforce simp: runs banner_inv_def)
  ultimately show ?thesis unfolding run banner_inv_def by blast
qed

interpretation banner: invariant_system "\<lambda>s. s = initial_playlists" pl_step banner_inv
proof
  show "banner_inv s" if "s = initial_playlists" for s
    using that by (simp add: banner_inv_def initial_playlists_def pl_live_def busy_def)
  show "banner_inv t" if "banner_inv s" "pl_step s t" for s t
    using that(2,1)
  proof (cases rule: pl_step.cases)
    case pl_edit
    from edit_runs[OF this] have "pls_status t = pls_status s" "pls_gens t = pls_gens s" "pls_runs t = pls_runs s" by auto
    with that(1) show ?thesis by (simp add: banner_inv_def pl_live_def run_live_def)
  qed (simp_all add: start_banner stop_banner event_banner)
qed

section \<open>What a run sends\<close>

text \<open>The sends and the failures of the first \<open>n\<close> steps: in order, none twice, each send to the place and with the file of its
  step; and no failure that the playlist does not go on after.\<close>

definition run_sends_ok :: "playlist_run \<Rightarrow> nat \<Rightarrow> bool" where
  "run_sends_ok r n \<longleftrightarrow>
     sorted_wrt (<) (map fst (rn_sent r))
     \<and> (\<forall>(j, path, h, p) \<in> set (rn_sent r). j < n \<and> (h, p) = step_target r (run_steps r ! j)
           \<and> (\<not> isRepoStep (run_steps r ! j) \<longrightarrow> path = st_path (run_steps r ! j)))
     \<and> sorted_wrt (<) (map fst (rn_fails r)) \<and> (\<forall>f \<in> set (rn_fails r). fst f < n)"

definition run_ok :: "playlist_run \<Rightarrow> bool" where
  "run_ok r \<longleftrightarrow>
     (case rn_phase r of
        AtResolve \<Rightarrow> rn_i r < length (run_steps r) \<and> isRepoStep (run_steps r ! rn_i r) \<and> rn_succ r + length (rn_fails r) = rn_i r
                     \<and> (py_continueOnFailure (rn_playlist r) \<or> rn_fails r = []) \<and> run_sends_ok r (rn_i r)
      | AtSend _ \<Rightarrow> rn_i r < length (run_steps r) \<and> rn_succ r + length (rn_fails r) = rn_i r
                     \<and> (py_continueOnFailure (rn_playlist r) \<or> rn_fails r = []) \<and> run_sends_ok r (rn_i r + 1) \<and> (\<forall>f \<in> set (rn_fails r). fst f < rn_i r)
      | AtSleep \<Rightarrow> rn_i r < length (run_steps r) \<and> rn_succ r + length (rn_fails r) = rn_i r + 1
                     \<and> (py_continueOnFailure (rn_playlist r) \<or> rn_fails r = []) \<and> run_sends_ok r (rn_i r + 1)
      | RunEnded \<Rightarrow> rn_succ r + length (rn_fails r) \<le> length (run_steps r)
                     \<and> (py_continueOnFailure (rn_playlist r)
                          \<or> length (rn_fails r) \<le> 1 \<and> (\<forall>f \<in> set (rn_fails r). \<forall>x \<in> set (rn_sent r). fst x \<le> fst f))
                     \<and> run_sends_ok r (length (run_steps r)))"

text \<open>A banner that says a run is done tells what the run did with every step.\<close>

definition done_by :: "playlist_run \<Rightarrow> PlaylistRunStatus \<Rightarrow> bool" where
  "done_by r st \<longleftrightarrow>
     rn_phase r = RunEnded \<and> st = RsDone (run_id r) (rn_host r) (rn_succ r) (length (rn_fails r)) (rn_fails r)
     \<and> rn_succ r + length (rn_fails r) = length (run_steps r)"

definition is_done :: "PlaylistRunStatus \<Rightarrow> bool" where
  "is_done st = (case st of RsDone _ _ _ _ _ \<Rightarrow> True | _ \<Rightarrow> False)"

definition good_res :: "playlist_run \<Rightarrow> PlaylistState \<Rightarrow> playlist_run \<times> PlaylistState \<Rightarrow> bool" where
  "good_res r s res =
     (case res of
        (r', s') \<Rightarrow> run_ok r' \<and>
          (pls_status s' = pls_status s \<or> (\<exists>st. pls_status s' = (pls_status s)(rn_key r \<mapsto> st) \<and> (is_done st \<longrightarrow> done_by r' st))))"

lemma step_target_upd [simp]:
  "step_target (r\<lparr>rn_phase := ph\<rparr>) st = step_target r st" "step_target (r\<lparr>rn_i := i\<rparr>) st = step_target r st"
  "step_target (r\<lparr>rn_succ := k\<rparr>) st = step_target r st" "step_target (r\<lparr>rn_fails := fs\<rparr>) st = step_target r st"
  "step_target (send_step path r) st = step_target r st"
  by (simp_all add: step_target_def split: option.split)

lemma run_sends_ok_mono: "run_sends_ok r n \<Longrightarrow> n \<le> m \<Longrightarrow> run_sends_ok r m"
  by (fastforce simp: run_sends_ok_def)

lemma run_sends_ok_upd [simp]:
  "run_sends_ok (r\<lparr>rn_phase := ph\<rparr>) n = run_sends_ok r n" "run_sends_ok (r\<lparr>rn_i := i\<rparr>) n = run_sends_ok r n"
  "run_sends_ok (r\<lparr>rn_succ := k\<rparr>) n = run_sends_ok r n"
  by (simp_all add: run_sends_ok_def)

lemma run_sends_ok_fail:
  "run_sends_ok r n \<Longrightarrow> \<forall>f \<in> set (rn_fails r). fst f < i \<Longrightarrow> i < n \<Longrightarrow> run_sends_ok (r\<lparr>rn_fails := rn_fails r @ [(i, err)]\<rparr>) n"
  by (fastforce simp: run_sends_ok_def sorted_wrt_append)

lemma run_sends_ok_send:
  assumes "run_sends_ok r (rn_i r)" "\<not> isRepoStep (run_steps r ! rn_i r) \<Longrightarrow> path = st_path (run_steps r ! rn_i r)"
  shows "run_sends_ok (send_step path r) (rn_i r + 1)"
proof -
  have "rn_sent (send_step path r) = rn_sent r @ [(rn_i r, path, step_target r (run_steps r ! rn_i r))]"
    by (simp add: send_step_def split: prod.splits)
  with assms show ?thesis by (fastforce simp: run_sends_ok_def sorted_wrt_append)
qed

lemma good_begin:
  assumes "rn_succ r + length (rn_fails r) = rn_i r" "rn_i r \<le> length (run_steps r)"
    "py_continueOnFailure (rn_playlist r) \<or> rn_fails r = []" "run_sends_ok r (rn_i r)"
  shows "good_res r s (begin_step r s)"
proof (cases "rn_i r < length (run_steps r)")
  case True
  let ?st = "run_steps r ! rn_i r"
  have f: "\<forall>f \<in> set (rn_fails r). fst f < rn_i r" using assms(4) by (simp add: run_sends_ok_def)
  have "run_ok (r\<lparr>rn_phase := RunEnded\<rparr>)" "isRepoStep ?st \<Longrightarrow> run_ok (r\<lparr>rn_phase := AtResolve\<rparr>)"
    using assms True run_sends_ok_mono[OF assms(4), of "length (run_steps r)"] by (auto simp: run_ok_def)
  moreover have "run_ok (send_step (st_path ?st) r)"
    using assms True run_sends_ok_send[OF assms(4), of "st_path ?st"] f by (simp add: run_ok_def)
  ultimately show ?thesis using True by (auto simp: good_res_def begin_step_def setRunStatus_def is_done_def Let_def)
next
  case False
  then have i: "rn_i r = length (run_steps r)" using assms(2) by simp
  have "run_ok (r\<lparr>rn_phase := RunEnded\<rparr>)" using assms i by (auto simp: run_ok_def)
  then show ?thesis using False i assms(1) by (auto simp: good_res_def begin_step_def setRunStatus_def is_done_def done_by_def)
qed

lemma good_upd:
  "good_res (r\<lparr>rn_i := i\<rparr>) s res = good_res r s res" "good_res (r\<lparr>rn_fails := fs\<rparr>) s res = good_res r s res"
  "good_res (r\<lparr>rn_succ := n\<rparr>) s res = good_res r s res"
  by (simp_all add: good_res_def split: prod.splits)

lemma good_after:
  assumes "rn_succ r + length (rn_fails r) = rn_i r + 1" "rn_i r < length (run_steps r)"
    "py_continueOnFailure (rn_playlist r) \<or> rn_fails r = []" "run_sends_ok r (rn_i r + 1)"
  shows "good_res r s (after_step now r s)"
proof -
  have "good_res r s (begin_step (r\<lparr>rn_i := rn_i r + 1\<rparr>) s)"
    using good_begin[of "r\<lparr>rn_i := rn_i r + 1\<rparr>" s] assms by (simp add: good_upd)
  moreover have "run_ok (r\<lparr>rn_phase := RunEnded\<rparr>)" "run_ok (r\<lparr>rn_phase := AtSleep\<rparr>)"
    using assms run_sends_ok_mono[OF assms(4), of "length (run_steps r)"] by (auto simp: run_ok_def)
  ultimately show ?thesis by (auto simp: after_step_def good_res_def setRunStatus_def is_done_def Let_def)
qed

lemma good_failed:
  assumes "rn_succ r + length (rn_fails r) = rn_i r" "rn_i r < length (run_steps r)"
    "py_continueOnFailure (rn_playlist r) \<or> rn_fails r = []" "run_sends_ok r (rn_i r + 1)" "\<forall>f \<in> set (rn_fails r). fst f < rn_i r"
  shows "good_res r s (step_failed now err r s)"
proof -
  let ?r = "r\<lparr>rn_fails := rn_fails r @ [(rn_i r, err)]\<rparr>"
  have so: "run_sends_ok ?r (rn_i r + 1)" using run_sends_ok_fail[OF assms(4,5)] by simp
  then have "run_sends_ok ?r (length (run_steps r))" using run_sends_ok_mono[of ?r] assms(2) by simp
  moreover have "\<forall>x \<in> set (rn_sent r). fst x \<le> rn_i r" using assms(4) by (fastforce simp: run_sends_ok_def)
  ultimately have "run_ok (?r\<lparr>rn_phase := RunEnded\<rparr>)" using assms by (auto simp: run_ok_def)
  moreover have "good_res r s (after_step now ?r s)" if "py_continueOnFailure (rn_playlist r)"
    using good_after[of ?r s now] assms(1,2) so that by (simp add: good_upd)
  ultimately show ?thesis by (auto simp: step_failed_def good_res_def setRunStatus_def is_done_def Let_def)
qed

lemma good_next:
  assumes "run_ok r"
  shows "good_res r s (run_next now ev r s)"
proof -
  have same: "good_res r s (r, s)" using assms by (simp add: good_res_def)
  have res: "good_res r s (resolved now a r s)" if "rn_phase r = AtResolve" for a
  proof (cases a)
    case (Inl err)
    then show ?thesis
      using good_failed[of r s now err] assms that run_sends_ok_mono[of r "rn_i r" "rn_i r + 1"]
      by (auto simp: resolved_def run_ok_def run_sends_ok_def)
  next
    case (Inr path)
    have "run_ok (send_step path r)" "run_ok (r\<lparr>rn_phase := RunEnded\<rparr>)"
      using run_sends_ok_send[of r path] assms that run_sends_ok_mono[of r "rn_i r" "length (run_steps r)"]
      by (auto simp: run_ok_def run_sends_ok_def)
    then show ?thesis using Inr by (auto simp: resolved_def good_res_def Let_def)
  qed
  have snt: "good_res r s (sent now a r s)" if "rn_phase r = AtSend path" for a path
  proof (cases a)
    case (Inl err)
    then show ?thesis using good_failed[of r s now err] assms that by (auto simp: sent_def run_ok_def)
  next
    case (Inr _)
    then show ?thesis
      using good_after[of "r\<lparr>rn_succ := rn_succ r + 1\<rparr>" s now] assms that by (simp add: sent_def run_ok_def good_upd)
  qed
  have slp: "good_res r s (slept r s)" if "rn_phase r = AtSleep"
  proof (cases "run_live s r")
    case True
    then show ?thesis
      using good_begin[of "r\<lparr>rn_i := rn_i r + 1\<rparr>" s] assms that by (simp add: slept_def run_ok_def good_upd)
  next
    case False
    have "run_ok (r\<lparr>rn_phase := RunEnded\<rparr>)"
      using assms that run_sends_ok_mono[of r "rn_i r + 1" "length (run_steps r)"] by (auto simp: run_ok_def)
    with False show ?thesis by (simp add: slept_def good_res_def)
  qed
  show ?thesis
    by (cases "rn_phase r"; cases ev) (simp_all add: run_next_def same res snt slp)
qed

definition done_inv :: "PlaylistState \<Rightarrow> bool" where
  "done_inv s \<longleftrightarrow>
     (\<forall>r \<in> set (pls_runs s). run_ok r)
     \<and> (\<forall>key st. pls_status s key = Some st \<longrightarrow> is_done st \<longrightarrow> (\<exists>r \<in> set (pls_runs s). rn_key r = key \<and> done_by r st))"

lemma event_done:
  assumes inv: "done_inv s" "banner_inv s"
  shows "done_inv (run_event_at now k ev s)"
proof (cases "k < length (pls_runs s)")
  case False
  then show ?thesis using inv by (simp add: run_event_at_def)
next
  case True
  let ?r = "pls_runs s ! k"
  obtain r' s' where res: "run_next now ev ?r s = (r', s')" by fastforce
  have ok: "run_ok ?r" using inv True by (simp add: done_inv_def)
  have g: "good_res ?r s (r', s')" using good_next[OF ok, of s now ev] res by simp
  have ended: "rn_phase ?r = RunEnded \<Longrightarrow> r' = ?r" using res by (auto simp: run_next_def split: run_event.splits)
  have key: "rn_key r' = rn_key ?r"
  proof -
    have "run_live s ?r \<Longrightarrow> rn_phase ?r \<noteq> RunEnded \<Longrightarrow> \<exists>st. pls_status s (rn_key ?r) = Some st \<and> shows_run ?r st"
      using inv(2) True by (auto simp: banner_inv_def pl_live_def)
    from run_next_moves[OF this, of now ev] res show ?thesis by (auto simp: moves_def)
  qed
  define t where "t = s'\<lparr>pls_runs := (pls_runs s)[k := r']\<rparr>"
  have t: "run_event_at now k ev s = t" using True res by (simp add: run_event_at_def t_def)
  have ok': "\<forall>r \<in> set (pls_runs t). run_ok r"
    using inv(1) g set_update_subset_insert[of "pls_runs s" k r'] by (auto simp: t_def done_inv_def good_res_def)
  have in_t: "r' \<in> set (pls_runs t)" using True by (simp add: t_def set_update_memI)
  have "\<exists>r \<in> set (pls_runs t). rn_key r = key' \<and> done_by r st" if st: "pls_status t key' = Some st" "is_done st" for key' st
  proof (cases "pls_status s key' = Some st")
    case True
    then obtain r where r: "r \<in> set (pls_runs s)" "rn_key r = key'" "done_by r st" using inv(1) st(2) unfolding done_inv_def by blast
    then obtain j where j: "j < length (pls_runs s)" "pls_runs s ! j = r" by (auto simp: in_set_conv_nth)
    show ?thesis
    proof (cases "j = k")
      case True
      then have "rn_phase ?r = RunEnded" using r(3) j by (simp add: done_by_def)
      with ended True j r in_t show ?thesis by auto
    next
      case False
      then have "r \<in> set (pls_runs t)" using j by (metis t_def PlaylistState.select_convs(6) PlaylistState.surjective PlaylistState.update_convs(6) length_list_update nth_list_update_neq nth_mem)
      with r show ?thesis by blast
    qed
  next
    case False
    then have "key' = rn_key ?r \<and> done_by r' st"
      using g st by (auto simp: good_res_def t_def split: if_splits)
    with key in_t show ?thesis by auto
  qed
  with ok' show ?thesis unfolding t done_inv_def by blast
qed


lemma start_done:
  assumes inv: "done_inv s"
  shows "done_inv (runPlaylist now i host port s)"
proof (cases "find_playlist (pls_playlists s) i = None \<or> busy (pls_status s (keyOf (Some host)))")
  case True
  then show ?thesis using inv by (auto simp: runPlaylist_def Let_def split: option.splits)
next
  case False
  then obtain p where p: "find_playlist (pls_playlists s) i = Some p" by auto
  let ?key = "keyOf (Some host)"
  define r0 where "r0 = \<lparr>rn_key = ?key, rn_gen = pls_gens s ?key + 1, rn_playlist = p, rn_host = host, rn_port = port, rn_i = 0,
     rn_succ = 0, rn_fails = [], rn_phase = AtSleep, rn_sent = []\<rparr>"
  define s2 where "s2 = s\<lparr>pls_playlists := map (\<lambda>q. if py_id q = i then q\<lparr>py_lastRunAt := Some now\<rparr> else q) (pls_playlists s),
     pls_gens := (pls_gens s)(?key := pls_gens s ?key + 1)\<rparr>"
  obtain r s3 where b: "begin_step r0 s2 = (r, s3)" by fastforce
  have run: "runPlaylist now i host port s = s3\<lparr>pls_runs := pls_runs s @ [r]\<rparr>"
    using p False b by (simp add: runPlaylist_def Let_def gen_next_def r0_def s2_def)
  have "good_res r0 s2 (begin_step r0 s2)" by (rule good_begin) (simp_all add: r0_def run_sends_ok_def)
  moreover have "rn_key r = ?key" using moves_begin[of r0 s2] b by (simp add: moves_def r0_def)
  ultimately have r: "run_ok r" "rn_key r = ?key"
    "pls_status s3 = pls_status s \<or> (\<exists>st. pls_status s3 = (pls_status s)(?key \<mapsto> st) \<and> (is_done st \<longrightarrow> done_by r st))"
    using b by (auto simp: good_res_def r0_def s2_def)
  from r(3) show ?thesis
  proof
    assume "pls_status s3 = pls_status s"
    with inv r show ?thesis unfolding run done_inv_def by auto
  next
    assume "\<exists>st. pls_status s3 = (pls_status s)(?key \<mapsto> st) \<and> (is_done st \<longrightarrow> done_by r st)"
    with inv r show ?thesis unfolding run done_inv_def by (auto split: if_splits) (blast+)
  qed
qed

lemma stop_done: "done_inv s \<Longrightarrow> done_inv (stopPlaylist host s)"
  by (auto simp: done_inv_def stopPlaylist_def setRunStatus_def Let_def is_done_def split: if_splits)

interpretation runs: invariant_system "\<lambda>s. s = initial_playlists" pl_step "\<lambda>s. banner_inv s \<and> done_inv s"
proof
  show "banner_inv s \<and> done_inv s" if "s = initial_playlists" for s
    using that banner.init_inv[of s] by (simp add: done_inv_def initial_playlists_def)
  show "banner_inv t \<and> done_inv t" if inv: "banner_inv s \<and> done_inv s" and st: "pl_step s t" for s t
  proof
    show "banner_inv t" using banner.step_inv inv st by blast
    show "done_inv t" using st inv
    proof (cases rule: pl_step.cases)
      case pl_edit
      from edit_runs[OF this] have "pls_status t = pls_status s" "pls_runs t = pls_runs s" by auto
      with inv show ?thesis by (simp add: done_inv_def)
    qed (simp_all add: start_done stop_done event_done)
  qed
qed

section \<open>Properties\<close>

text \<open>C8. The banner of a console never lies about its playlist run, whatever edits, starts, stops and answers of the consoles
  come in whatever order: it says running or sleeping exactly when a run of that console is still under way, there is only
  one such run, and the banner names its playlist, its target and the step it is at. So two runs never send to one console
  at once, and the answers of a run that was stopped change no banner.\<close>

theorem playlist_banner:
  assumes "reach (\<lambda>s. s = initial_playlists) pl_step s"
  shows "(busy (pls_status s key) \<longleftrightarrow> (\<exists>!k. pl_live s k \<and> rn_key (pls_runs s ! k) = key))
    \<and> (pl_live s k \<longrightarrow> (\<exists>st. pls_status s (rn_key (pls_runs s ! k)) = Some st \<and> shows_run (pls_runs s ! k) st))
    \<and> (k < length (pls_runs s) \<longrightarrow> \<not> pl_live s k \<longrightarrow> pls_status (run_event_at now k ev s) = pls_status s)"
proof -
  have inv: "banner_inv s" using assms by (rule banner.reach_inv)
  have busy: "busy (pls_status s (rn_key (pls_runs s ! j)))" if "pl_live s j" for j
  proof -
    obtain st where "pls_status s (rn_key (pls_runs s ! j)) = Some st" "shows_run (pls_runs s ! j) st"
      using inv \<open>pl_live s j\<close> by (auto simp: banner_inv_def)
    with that show ?thesis by (auto simp: shows_run_def pl_live_def busy_def split: run_phase.splits)
  qed
  have "pls_status (run_event_at now k ev s) = pls_status s" if "k < length (pls_runs s)" "\<not> pl_live s k"
    using run_next_moves[of s "pls_runs s ! k" now ev] that
    by (auto simp: run_event_at_def moves_def pl_live_def run_next_def split: prod.splits run_event.splits)
  moreover have "busy (pls_status s key) \<longleftrightarrow> (\<exists>!k. pl_live s k \<and> rn_key (pls_runs s ! k) = key)" (is "?b \<longleftrightarrow> ?u")
  proof
    assume ?b
    then obtain j where j: "pl_live s j" "rn_key (pls_runs s ! j) = key" using inv unfolding banner_inv_def by blast
    then show ?u using pl_live_unique[OF inv] by (intro ex1I[of _ j]) auto
  qed (use busy in auto)
  ultimately show ?thesis
    using inv unfolding banner_inv_def by blast
qed


text \<open>A playlist with a repo step and a local one.\<close>

definition repo_then_local :: PlaylistState where
  "repo_then_local =
     addStep 2 ''p'' \<lparr>st_path = ''/local/b.elf'', st_payloadId = None, st_payloadLabel = None, st_sleepMs = 0, st_ip = None, st_port = None\<rparr>
       (addStep 1 ''p'' \<lparr>st_path = [], st_payloadId = Some ''repo-a'', st_payloadLabel = None, st_sleepMs = 0, st_ip = None, st_port = None\<rparr>
          (createPlaylist ''p'' 0 ''mine'' initial_playlists))"

text \<open>A repo step's file is kept at the wrong step when the playlist is edited while the repo is asked: the answer is
  written to the step at the old position. Here a playlist has a repo step and a local one, its first step is being
  resolved for one console, and the user moves that step down; the answer then replaces the file of the local step.
  From then on the playlist sends the repo's file in its place.\<close>

theorem resolve_overwrites_moved_step:
  "(let s1 = runPlaylist 3 ''p'' ''10.0.0.5'' 9021 repo_then_local;
        s2 = set_lists (\<lambda>pls. moveStepDown 4 pls ''p'' 0) s1;
        s3 = run_event_at 5 0 (Resolved (Inr ''/cache/a.elf'')) s2
    in map rn_phase (pls_runs s1) = [AtResolve]
       \<and> map (map st_path \<circ> py_steps) (pls_playlists s2) = [[''/local/b.elf'', []]]
       \<and> map (map st_path \<circ> py_steps) (pls_playlists s3) = [[''/cache/a.elf'', []]])"
  by code_simp

section \<open>Witnesses\<close>

definition under_way :: PlaylistState where
  "under_way = runPlaylist 3 ''p'' ''10.0.0.5'' 9021 repo_then_local"

lemma reach_run: "reach init pl_step s \<Longrightarrow> reach init pl_step (runPlaylist now i host port s)"
  by (erule reach_step) (rule pl_run)

lemma reach_event: "reach init pl_step s \<Longrightarrow> reach init pl_step (run_event_at now k ev s)"
  by (erule reach_step) (rule pl_event)

lemma reach_add: "reach init pl_step s \<Longrightarrow> reach init pl_step (addStep now i st s)"
  by (erule reach_step) (rule pl_edit, rule edit_step.intros(8))

lemma reach_create: "reach init pl_step s \<Longrightarrow> reach init pl_step (createPlaylist i now name s)"
  by (erule reach_step) (rule pl_edit, rule edit_step.intros(2))

lemma under_way_reach: "reach (\<lambda>s. s = initial_playlists) pl_step under_way"
proof -
  have "reach (\<lambda>s. s = initial_playlists) pl_step initial_playlists" by (rule reach_init) simp
  then show ?thesis
    unfolding under_way_def repo_then_local_def by (intro reach_run reach_add reach_create)
qed

theorem playlist_banner_witness:
  "busy (pls_status under_way ''10.0.0.5'') \<and> (\<exists>!k. pl_live under_way k \<and> rn_key (pls_runs under_way ! k) = ''10.0.0.5'')"
proof -
  have "busy (pls_status under_way ''10.0.0.5'')" by code_simp
  with playlist_banner[OF under_way_reach, of "''10.0.0.5''"] show ?thesis by blast
qed

definition ran :: PlaylistState where
  "ran = run_event_at 6 0 (Sent (Inl ''refused'')) (run_event_at 5 0 (Resolved (Inr ''/cache/a.elf'')) under_way)"


end
