(* ===== verification/Gf256.thy ===== *)
theory Gf256
  imports "HOL-Library.Word"
begin

text \<open>
  The error correction of a QR code (\<^verbatim>\<open>client/src/console/ui/qr.ts\<close>, \<^verbatim>\<open>gfMul\<close> to \<^verbatim>\<open>rsRemainder\<close>): the product in
  the field of 256 elements and the Reed-Solomon remainder of a block. Bytes are \<open>8 word\<close>; the product runs in
  the 32-bit integers of the language's bit operators.

  The lemmas show that the product is commutative, associative and distributes over XOR, and from that alone that
  a block with its remainder is zero at every root of the generator, which is what a reader checks and corrects
  against.
\<close>

unbundle bit_operations_syntax

section \<open>Operations\<close>

definition gf_shift :: "32 word \<Rightarrow> 32 word" where
  "gf_shift z = push_bit 1 z XOR (drop_bit 7 z * 0x11d)"

definition gfMul :: "8 word \<Rightarrow> 8 word \<Rightarrow> 8 word" where
  "gfMul x y =
     ucast (foldl (\<lambda>z i. gf_shift z XOR ((drop_bit i (ucast y) AND 1) * ucast x)) (0 :: 32 word) [7, 6, 5, 4, 3, 2, 1, 0] AND 0xff)"

text \<open>One pass over the coefficients: each becomes itself times the root, XOR the next one as it was.\<close>

fun divisor_pass :: "8 word \<Rightarrow> 8 word list \<Rightarrow> 8 word list" where
  "divisor_pass root [] = []"
| "divisor_pass root [c] = [gfMul c root]"
| "divisor_pass root (c # d # cs) = (gfMul c root XOR d) # divisor_pass root (d # cs)"

fun divisor_loop :: "nat \<Rightarrow> 8 word \<Rightarrow> 8 word list \<Rightarrow> 8 word list" where
  "divisor_loop 0 root out = out"
| "divisor_loop (Suc n) root out = divisor_loop n (gfMul root 2) (divisor_pass root out)"

definition rsDivisor :: "nat \<Rightarrow> 8 word list" where
  "rsDivisor degree = divisor_loop degree 1 (replicate (degree - 1) 0 @ [1])"

definition remainder_step :: "8 word list \<Rightarrow> 8 word list \<Rightarrow> 8 word \<Rightarrow> 8 word list" where
  "remainder_step divisor out b =
     (let factor = b XOR hd out in map2 (\<lambda>coef r. r XOR gfMul coef factor) divisor (tl out @ [0]))"

definition rsRemainder :: "8 word list \<Rightarrow> 8 word list \<Rightarrow> 8 word list" where
  "rsRemainder dat divisor = foldl (remainder_step divisor) (map (\<lambda>_. 0) divisor) dat"

section \<open>The field\<close>

text \<open>The product on bytes alone: doubling with reduction, and the sum of the doublings the bits of \<open>y\<close> select.\<close>

definition xt :: "8 word \<Rightarrow> 8 word" where
  "xt w = push_bit 1 w XOR (if bit w 7 then 0x1d else 0)"

lemma ucast_xor: "(ucast (a XOR b) :: 32 word) = ucast a XOR ucast (b :: 8 word)"
  by (rule bit_word_eqI) (auto simp: bit_simps)

lemma push_ucast: "push_bit 1 (ucast w :: 32 word) = ucast (push_bit 1 w) XOR (if bit w 7 then 0x100 else 0)" for w :: "8 word"
proof (rule bit_word_eqI)
  fix n assume n: "n < LENGTH(32)"
  have b: "bit (push_bit 1 v) n \<longleftrightarrow> 0 < n \<and> n < LENGTH('a) \<and> bit v (n - 1)" for v :: "'a::len word"
    unfolding bit_push_bit_iff possible_bit_word by auto
  have h: "bit (0x100 :: 32 word) n \<longleftrightarrow> n = 8" using bit_exp_iff[of 8 n, where 'a = "32 word"] n by auto
  have w: "bit w (n - 1) \<Longrightarrow> n - 1 < 8" using bit_imp_le_length[of w "n - 1"] by simp
  have "bit (if bit w 7 then 0x100 else (0 :: 32 word)) n \<longleftrightarrow> bit w 7 \<and> n = 8"
    using h by simp
  with w n show "bit (push_bit 1 (ucast w :: 32 word)) n = bit (ucast (push_bit 1 w) XOR (if bit w 7 then 0x100 else 0) :: 32 word) n"
    unfolding bit_xor_iff bit_ucast_iff b by (cases "n = 8") auto
qed

lemma drop_ucast: "drop_bit 7 (ucast w :: 32 word) = of_bool (bit w 7)" for w :: "8 word"
proof (rule bit_word_eqI)
  fix n assume "n < LENGTH(32)"
  have "bit w (n + 7) \<Longrightarrow> n = 0" using bit_imp_le_length[of w "n + 7"] by simp
  then show "bit (drop_bit 7 (ucast w :: 32 word)) n = bit (of_bool (bit w 7) :: 32 word) n"
    by (cases "n = 0") (auto simp: bit_simps ac_simps)
qed

lemma gf_shift_ucast: "gf_shift (ucast w) = ucast (xt w)"
proof -
  have h: "(0x11d :: 32 word) = 0x100 XOR ucast (0x1d :: 8 word)" by simp
  show ?thesis
    unfolding gf_shift_def xt_def push_ucast drop_ucast ucast_xor h by (simp add: xor.assoc[symmetric]) (simp add: xor.assoc)
qed


definition gm :: "nat list \<Rightarrow> 8 word \<Rightarrow> 8 word \<Rightarrow> 8 word \<Rightarrow> 8 word" where
  "gm is x y z = foldl (\<lambda>z i. xt z XOR (if bit y i then x else 0)) z is"

lemma gfMul_gm: "gfMul x y = gm [7, 6, 5, 4, 3, 2, 1, 0] x y 0"
proof -
  have t: "(drop_bit i (ucast y :: 32 word) AND 1) * ucast x = ucast (if bit y i then x else 0)" for i
    by (auto simp: and_one_eq bit_ucast_iff mod_2_eq_odd simp flip: bit_iff_odd_drop_bit dest: bit_imp_le_length)
  have "foldl (\<lambda>z i. gf_shift z XOR ((drop_bit i (ucast y) AND 1) * ucast x)) (ucast z) is = (ucast (gm is x y z) :: 32 word)" for "is" z
    unfolding gm_def t by (induction "is" arbitrary: z) (simp_all add: gf_shift_ucast ucast_xor[symmetric] del: ucast_xor)
  from this[of 0] have f: "foldl (\<lambda>z i. gf_shift z XOR ((drop_bit i (ucast y) AND 1) * ucast x)) 0 is = (ucast (gm is x y 0) :: 32 word)" for "is"
    by simp
  have "ucast (ucast w AND 0xff :: 32 word) = w" for w :: "8 word"
  proof -
    have m: "(0xff :: 32 word) = mask 8" by (simp add: mask_eq_exp_minus_1)
    show ?thesis unfolding m by (rule bit_word_eqI) (auto simp: bit_simps)
  qed
  then show ?thesis unfolding gfMul_def f by blast
qed

lemma xt_xor: "xt (a XOR b) = xt a XOR xt b"
  by (simp add: xt_def bit_simps push_bit_xor ac_simps del: push_bit_numeral)

lemma gm_Cons: "gm (i # is) x y z = gm is x y (xt z XOR (if bit y i then x else 0))"
  by (simp add: gm_def)

lemma gm_xor_left: "gm is (a XOR b) y (u XOR v) = gm is a y u XOR gm is b y v"
proof (induction "is" arbitrary: u v)
  case (Cons i "is")
  have "xt (u XOR v) XOR (if bit y i then a XOR b else 0) =
      (xt u XOR (if bit y i then a else 0)) XOR (xt v XOR (if bit y i then b else 0))"
    by (simp add: xt_xor ac_simps)
  then show ?case unfolding gm_Cons by (simp only: Cons.IH)
qed (simp add: gm_def)

lemma gm_xor_right: "gm is x (a XOR b) (u XOR v) = gm is x a u XOR gm is x b v"
proof (induction "is" arbitrary: u v)
  case (Cons i "is")
  have "xt (u XOR v) XOR (if bit (a XOR b) i then x else 0) =
      (xt u XOR (if bit a i then x else 0)) XOR (xt v XOR (if bit b i then x else 0))"
    by (simp add: xt_xor ac_simps bit_xor_iff)
  then show ?case unfolding gm_Cons by (simp only: Cons.IH)
qed (simp add: gm_def)

lemma gfMul_xor_left: "gfMul (a XOR b) y = gfMul a y XOR gfMul b y"
  using gm_xor_left[of _ a b y 0 0] by (simp add: gfMul_gm)

lemma gfMul_xor_right: "gfMul x (a XOR b) = gfMul x a XOR gfMul x b"
  using gm_xor_right[of _ x a b 0 0] by (simp add: gfMul_gm)

text \<open>Linear facts about bytes need only be checked on the eight powers of two.\<close>

lemma byte_induct [case_names zero base xor]:
  assumes "P 0" "\<And>i. i < 8 \<Longrightarrow> P (push_bit i 1)" "\<And>a b. P a \<Longrightarrow> P b \<Longrightarrow> P (a XOR b)"
  shows "P (w :: 8 word)"
proof -
  have "P (take_bit n w)" if "n \<le> 8" for n
    using that
  proof (induction n)
    case (Suc n)
    have "take_bit (Suc n) w = take_bit n w XOR (if bit w n then push_bit n 1 else 0)"
      by (rule bit_word_eqI) (auto simp: bit_simps less_Suc_eq)
    then show ?case using Suc assms by auto
  qed (simp add: assms)
  from this[of 8] show ?thesis by (simp add: take_bit_word_eq_self)
qed

lemma below_8: "i < (8 :: nat) \<longleftrightarrow> i \<in> {0, 1, 2, 3, 4, 5, 6, 7}" by auto

lemma xt_0 [simp]: "xt 0 = 0"
  by (simp add: xt_def)

lemma gfMul_base: "i < 8 \<Longrightarrow> gfMul x (push_bit i 1) = (xt ^^ i) x"
  unfolding below_8 by (elim insertE; simp add: gfMul_gm gm_def; simp add: eval_nat_numeral)

lemma gfMul_0 [simp]: "gfMul x 0 = 0" "gfMul 0 x = 0"
  using gfMul_xor_right[of x 0 0] gfMul_xor_left[of 0 0 x] by simp_all

lemma gfMul_1 [simp]: "gfMul x 1 = x"
  using gfMul_base[of 0 x] by simp

lemma gfMul_commute: "gfMul x y = gfMul y x"
proof (induction y rule: byte_induct)
  case (base i)
  have "(xt ^^ i) x = gfMul (push_bit i 1) x"
  proof (induction x rule: byte_induct)
    case (base j)
    with \<open>i < 8\<close> have "(xt ^^ i) (push_bit j 1) = (xt ^^ j) (push_bit i 1)"
      unfolding below_8 by (elim insertE; simp add: eval_nat_numeral xt_def)
    then show ?case using base by (simp only: gfMul_base)
  next
    case (xor a b)
    have "(xt ^^ n) (a XOR b) = (xt ^^ n) a XOR (xt ^^ n) b" for n by (induction n) (simp_all add: xt_xor)
    with xor show ?case by (simp only: gfMul_xor_right)
  qed (induction i, simp_all)
  with base show ?case by (simp only: gfMul_base)
qed (simp_all add: gfMul_xor_left gfMul_xor_right)


lemma gm_xt: "xt (gm is x y z) = gm is (xt x) y (xt z)"
proof (induction "is" arbitrary: z)
  case (Cons i "is")
  have "xt (xt z XOR (if bit y i then x else 0)) = xt (xt z) XOR (if bit y i then xt x else 0)" by (simp add: xt_xor)
  then show ?case unfolding gm_Cons by (simp only: Cons.IH)
qed (simp add: gm_def)

lemma gfMul_xt_left: "gfMul (xt x) y = xt (gfMul x y)"
  unfolding gfMul_gm gm_xt by simp

lemma gfMul_xt: "gfMul x (xt y) = xt (gfMul x y)"
  by (metis gfMul_xt_left gfMul_commute)

lemma gfMul_1_left [simp]: "gfMul 1 x = x"
  by (metis gfMul_commute gfMul_1)

lemma gfMul_assoc: "gfMul (gfMul x y) z = gfMul x (gfMul y z)"
proof (induction z rule: byte_induct)
  case (base i)
  have "gfMul x ((xt ^^ n) y) = (xt ^^ n) (gfMul x y)" for n by (induction n) (simp_all add: gfMul_xt)
  with base show ?case by (simp only: gfMul_base)
qed (simp_all add: gfMul_xor_right)

lemma gfMul_left_commute: "gfMul x (gfMul y z) = gfMul y (gfMul x z)"
  by (metis gfMul_assoc gfMul_commute)

lemmas gf_ac = gfMul_assoc gfMul_commute gfMul_left_commute

section \<open>Polynomials\<close>

text \<open>The value of the polynomial with these coefficients, the highest first.\<close>

definition poly_at :: "8 word \<Rightarrow> 8 word list \<Rightarrow> 8 word" where
  "poly_at r cs = foldl (\<lambda>acc c. gfMul acc r XOR c) 0 cs"

primrec gf_power :: "8 word \<Rightarrow> nat \<Rightarrow> 8 word" where
  "gf_power r 0 = 1"
| "gf_power r (Suc n) = gfMul r (gf_power r n)"

lemma poly_at_Nil [simp]: "poly_at r [] = 0"
  by (simp add: poly_at_def)

lemma poly_at_snoc [simp]: "poly_at r (cs @ [c]) = gfMul (poly_at r cs) r XOR c"
  by (simp add: poly_at_def)

lemma poly_at_append: "poly_at r (cs @ ds) = gfMul (poly_at r cs) (gf_power r (length ds)) XOR poly_at r ds"
proof (induction ds rule: rev_induct)
  case (snoc d ds)
  have "poly_at r ((cs @ ds) @ [d]) = gfMul (poly_at r (cs @ ds)) r XOR d" by (rule poly_at_snoc)
  with snoc show ?case by (simp add: gfMul_xor_left gfMul_xor_right gf_ac xor.assoc)
qed simp

lemma poly_at_Cons: "poly_at r (c # cs) = gfMul c (gf_power r (length cs)) XOR poly_at r cs"
  using poly_at_append[of r "[c]" cs] by (simp add: poly_at_def)

lemma poly_at_xor: "length cs = length ds \<Longrightarrow> poly_at r (map2 (XOR) cs ds) = poly_at r cs XOR poly_at r ds"
  by (induction cs ds rule: list_induct2) (simp_all add: poly_at_Cons gfMul_xor_left ac_simps)

lemma poly_at_scale: "poly_at r (map (\<lambda>c. gfMul c f) cs) = gfMul (poly_at r cs) f"
  by (induction cs) (simp_all add: poly_at_Cons gfMul_xor_left gfMul_xor_right gf_ac)

lemma poly_at_zeros [simp]: "poly_at r (replicate n 0 @ cs) = poly_at r cs" "poly_at r (map (\<lambda>_. 0) ds) = 0"
  by (induction n) (simp_all add: poly_at_Cons, induction ds, simp_all add: poly_at_Cons)

section \<open>The generator\<close>

lemma divisor_pass_eq: "divisor_pass root out = map2 (XOR) (map (\<lambda>c. gfMul c root) out) (tl out @ [0])"
  by (induction root out rule: divisor_pass.induct) simp_all

lemma length_divisor_pass [simp]: "length (divisor_pass root out) = length out"
  by (induction root out rule: divisor_pass.induct) simp_all

lemma poly_at_pass:
  assumes "out \<noteq> []"
  shows "poly_at r (divisor_pass root out) = gfMul (poly_at r out) (r XOR root) XOR gfMul (hd out) (gf_power r (length out))"
proof -
  obtain c cs where out: "out = c # cs" using assms by (cases out) auto
  have "poly_at r (divisor_pass root out) = gfMul (poly_at r out) root XOR gfMul (poly_at r cs) r"
    unfolding divisor_pass_eq out by (subst poly_at_xor) (simp_all add: poly_at_scale del: list.map)
  then show ?thesis
    unfolding out by (simp add: poly_at_Cons gfMul_xor_left gfMul_xor_right gf_ac ac_simps)
qed

primrec root_product :: "8 word \<Rightarrow> 8 word \<Rightarrow> nat \<Rightarrow> 8 word" where
  "root_product r root 0 = 1"
| "root_product r root (Suc n) = gfMul (r XOR root) (root_product r (gfMul root 2) n)"


lemma pass_lead:
  "divisor_pass root (replicate (Suc k) 0 @ 1 # cs) = replicate k 0 @ 1 # divisor_pass root (1 # cs)"
proof (induction k)
  case (Suc k)
  then show ?case by (cases k) (simp_all add: gfMul_commute[of 0])
qed simp

lemma poly_at_loop:
  "poly_at r (divisor_loop (Suc k) root (replicate k 0 @ 1 # cs)) =
     gfMul (poly_at r (replicate k 0 @ 1 # cs)) (root_product r root (Suc k)) XOR gf_power r (k + length cs + 1)"
proof (induction k arbitrary: root cs)
  case 0
  then show ?case by (simp add: poly_at_pass gf_ac)
next
  case (Suc k)
  let ?out = "replicate (Suc k) 0 @ 1 # cs"
  have p: "divisor_pass root ?out = replicate k 0 @ 1 # divisor_pass root (1 # cs)" by (rule pass_lead)
  have "poly_at r (divisor_loop (Suc (Suc k)) root ?out) =
      poly_at r (divisor_loop (Suc k) (gfMul root 2) (replicate k 0 @ 1 # divisor_pass root (1 # cs)))"
    by (simp only: divisor_loop.simps(2)[of "Suc k"] p)
  also have "\<dots> = gfMul (poly_at r (divisor_pass root ?out)) (root_product r (gfMul root 2) (Suc k))
      XOR gf_power r (k + length (divisor_pass root (1 # cs)) + 1)"
    unfolding Suc.IH p ..
  also have "poly_at r (divisor_pass root ?out) = gfMul (poly_at r ?out) (r XOR root)"
    by (subst poly_at_pass) simp_all
  finally show ?case by (simp add: gf_ac del: divisor_loop.simps divisor_pass.simps)
qed

lemma root_product_zero: "j < n \<Longrightarrow> root_product (gfMul root (gf_power 2 j)) root n = 0"
proof (induction n arbitrary: root j)
  case (Suc n)
  show ?case
  proof (cases j)
    case (Suc i)
    with Suc.IH[of i "gfMul root 2"] Suc.prems show ?thesis by (simp add: gf_ac)
  qed simp
qed simp

lemma length_divisor_loop [simp]: "length (divisor_loop n root out) = length out"
  by (induction n arbitrary: root out) simp_all

lemma length_rsDivisor [simp]: "0 < n \<Longrightarrow> length (rsDivisor n) = n"
  by (simp add: rsDivisor_def)

text \<open>The generator without its leading one has, at each of its roots, the value of that leading term.\<close>

lemma rsDivisor_root:
  assumes "j < n"
  shows "poly_at (gf_power 2 j) (rsDivisor n) = gf_power (gf_power 2 j) n"
proof -
  obtain k where n: "n = Suc k" using assms by (cases n) auto
  have "root_product (gf_power 2 j) 1 n = 0" using root_product_zero[OF assms, of 1] by (simp add: gfMul_commute[of 1])
  then show ?thesis using poly_at_loop[of "gf_power 2 j" k 1 "[]"] by (simp add: rsDivisor_def n)
qed

section \<open>The remainder\<close>

lemma length_remainder_step [simp]: "length out = length divisor \<Longrightarrow> out \<noteq> [] \<Longrightarrow> length (remainder_step divisor out b) = length divisor"
  by (simp add: remainder_step_def Let_def)

lemma poly_at_remainder_step:
  assumes "length out = length divisor" "out \<noteq> []" "poly_at r divisor = gf_power r (length divisor)"
  shows "poly_at r (remainder_step divisor out b) = gfMul (poly_at r out) r XOR gfMul b (gf_power r (length divisor))"
proof -
  obtain c cs where out: "out = c # cs" using assms by (cases out) auto
  have "remainder_step divisor out b = map2 (XOR) (cs @ [0]) (map (\<lambda>d. gfMul d (b XOR c)) divisor)"
    using assms(1) unfolding remainder_step_def out by (auto simp: Let_def map_equality_iff zip_map2 intro!: nth_equalityI)
  then have "poly_at r (remainder_step divisor out b) = gfMul (poly_at r cs) r XOR gfMul (gf_power r (length divisor)) (b XOR c)"
    using assms(1,3) out by (simp add: poly_at_xor poly_at_scale)
  moreover have "gf_power r (length divisor) = gfMul r (gf_power r (length cs))" using assms(1) out by (metis gf_power.simps(2) length_Cons)
  ultimately show ?thesis unfolding out by (simp add: poly_at_Cons gfMul_xor_left gfMul_xor_right gf_ac ac_simps)
qed

lemma poly_at_remainder:
  assumes "divisor \<noteq> []" "poly_at r divisor = gf_power r (length divisor)"
  shows "length (rsRemainder dat divisor) = length divisor
    \<and> poly_at r (rsRemainder dat divisor) = gfMul (poly_at r dat) (gf_power r (length divisor))"
proof (induction dat rule: rev_induct)
  case (snoc b dat)
  have "rsRemainder (dat @ [b]) divisor = remainder_step divisor (rsRemainder dat divisor) b" by (simp add: rsRemainder_def)
  moreover have "rsRemainder dat divisor \<noteq> []" using snoc assms(1) by auto
  ultimately show ?case
    using snoc assms by (simp add: poly_at_remainder_step gfMul_xor_left gfMul_xor_right gf_ac)
qed (simp add: rsRemainder_def)

text \<open>Every block with its remainder is zero at the first \<open>n\<close> powers of two.\<close>

lemma block_is_codeword:
  assumes "j < n"
  shows "length (rsRemainder dat (rsDivisor n)) = n" "poly_at (gf_power 2 j) (dat @ rsRemainder dat (rsDivisor n)) = 0"
proof -
  have "rsDivisor n \<noteq> []" using length_rsDivisor[of n] assms by fastforce
  from poly_at_remainder[OF this, of "gf_power 2 j" dat] rsDivisor_root[OF assms] assms
  show "length (rsRemainder dat (rsDivisor n)) = n" "poly_at (gf_power 2 j) (dat @ rsRemainder dat (rsDivisor n)) = 0"
    by (simp_all add: poly_at_append)
qed

section \<open>Powers of two\<close>

lemma gf_power_add: "gf_power r (m + n) = gfMul (gf_power r m) (gf_power r n)"
  by (induction m) (simp_all add: gfMul_assoc)

lemma gf_power_mult: "gf_power r (m * n) = gf_power (gf_power r m) n"
  by (induction n) (simp_all add: gf_power_add)

lemma gf_power_one [simp]: "gf_power 1 n = 1"
  by (induction n) simp_all

lemma gf_power_swap: "gf_power (gf_power r m) n = gf_power (gf_power r n) m"
  by (metis gf_power_mult mult.commute)

lemma gf_power_numeral: "gf_power r (numeral k) = gfMul r (gf_power r (pred_numeral k))"
  by (simp add: numeral_eq_Suc)

lemma powers:
  "gf_power 2 15 = 0x26" "gf_power 2 51 = 0x0a" "gf_power 2 85 = 0xd6" "gf_power 2 255 = 1"
proof -
  have p15: "gf_power 2 15 = 0x26" by (simp add: gf_power_numeral gfMul_gm gm_def xt_def)
  have p17: "gf_power 2 17 = 0x98" by (simp add: gf_power_numeral gfMul_gm gm_def xt_def)
  have "gf_power 2 (17 * 3) = 0x0a" unfolding gf_power_mult p17 by (simp add: gf_power_numeral gfMul_gm gm_def xt_def)
  moreover have "gf_power 2 (17 * 5) = 0xd6" unfolding gf_power_mult p17 by (simp add: gf_power_numeral gfMul_gm gm_def xt_def)
  moreover have "gf_power 2 (17 * 15) = 1" unfolding gf_power_mult p17 by (simp add: gf_power_numeral gfMul_gm gm_def xt_def)
  ultimately show "gf_power 2 15 = 0x26" "gf_power 2 51 = 0x0a" "gf_power 2 85 = 0xd6" "gf_power 2 255 = 1" using p15 by simp_all
qed


lemma divisors_255: "d dvd 255 \<Longrightarrow> d < 255 \<Longrightarrow> d dvd 15 \<or> d dvd 51 \<or> d dvd (85 :: nat)"
proof -
  have "list_all (\<lambda>d. 255 mod d = 0 \<longrightarrow> 15 mod d = 0 \<or> 51 mod d = 0 \<or> 85 mod d = 0) [1..254 :: int]" by code_simp
  then have all: "0 < e \<Longrightarrow> e < 255 \<Longrightarrow> e dvd 255 \<Longrightarrow> e dvd 15 \<or> e dvd 51 \<or> e dvd 85" for e :: int
    by (auto simp: list_all_iff dvd_eq_mod_eq_0)
  assume d: "d dvd 255" "d < 255"
  have "0 < d" using d(1) by (cases d) auto
  with d all[of "int d"] have "int d dvd int 15 \<or> int d dvd int 51 \<or> int d dvd int 85"
    using int_dvd_int_iff[of d 255] by auto
  then show ?thesis unfolding int_dvd_int_iff .
qed

lemma power_one_period:
  assumes "gf_power 2 k = 1" "0 < k"
  shows "255 \<le> k"
proof (rule ccontr)
  assume "\<not> 255 \<le> k"
  let ?d = "gcd k 255"
  have "?d < 255" using \<open>\<not> 255 \<le> k\<close> gcd_le1_nat[of k 255] assms(2) by linarith
  obtain x y where xy: "k * x = 255 * y + ?d" using bezout_nat[of k 255] assms(2) by auto
  have "gf_power 2 (k * x) = 1" using assms(1) by (simp add: gf_power_mult)
  moreover have "gf_power 2 (255 * y + ?d) = gf_power 2 ?d"
    unfolding gf_power_add gf_power_mult powers by simp
  ultimately have one: "gf_power 2 ?d = 1" using xy by simp
  have "gf_power 2 m = 1" if "?d dvd m" for m
    using that one by (auto simp: dvd_def gf_power_mult)
  then show False using divisors_255[OF _ \<open>?d < 255\<close>] powers by fastforce
qed

lemma powers_differ:
  assumes "i < j" "j < 255"
  shows "gf_power 2 i \<noteq> gf_power 2 j"
proof
  assume eq: "gf_power 2 i = gf_power 2 j"
  have "gf_power 2 (j - i) = gf_power 2 (255 + (j - i))" unfolding gf_power_add powers by simp
  also have "255 + (j - i) = (255 - i) + j" using assms by simp
  also have "gf_power 2 \<dots> = gfMul (gf_power 2 (255 - i)) (gf_power 2 j)" by (rule gf_power_add)
  also have "\<dots> = gf_power 2 (255 - i + i)" unfolding eq[symmetric] gf_power_add ..
  finally have "gf_power 2 (j - i) = 1" using assms powers(4) by simp
  then show False using power_one_period[of "j - i"] assms by simp
qed

text \<open>So the 255 powers are all the bytes but zero, and the product of two bytes is zero only when one of them is.\<close>

lemma power_nonzero: "gf_power 2 i \<noteq> 0"
proof
  assume z: "gf_power 2 i = 0"
  have "gf_power 2 (255 * i) = 1" unfolding gf_power_mult powers by simp
  moreover have "255 * i = i + 254 * i" by simp
  ultimately show False using z by (metis gf_power_add gfMul_0(2) zero_neq_one)
qed

lemma every_byte: "x \<noteq> 0 \<Longrightarrow> \<exists>i < 255. x = gf_power 2 i"
proof -
  let ?P = "gf_power 2 ` {..<255}"
  have inj: "inj_on (gf_power 2) {..<255}"
    by (rule inj_onI) (metis lessThan_iff linorder_neqE_nat powers_differ)
  have "card ?P = 255" using card_image[OF inj] by simp
  moreover have "card (UNIV - {0 :: 8 word}) = 255" by (simp add: card_Diff_singleton card_word)
  moreover have "?P \<subseteq> UNIV - {0}" using power_nonzero by auto
  ultimately have "?P = UNIV - {0}" by (intro card_subset_eq) auto
  then show "x \<noteq> 0 \<Longrightarrow> \<exists>i < 255. x = gf_power 2 i" by auto
qed

lemma gfMul_eq_0: "gfMul x y = 0 \<longleftrightarrow> x = 0 \<or> y = 0"
proof
  assume xy: "gfMul x y = 0"
  show "x = 0 \<or> y = 0"
  proof (rule ccontr)
    assume "\<not> (x = 0 \<or> y = 0)"
    then obtain i j where "x = gf_power 2 i" "y = gf_power 2 j" using every_byte by metis
    then show False using xy power_nonzero[of "i + j"] by (simp add: gf_power_add)
  qed
qed auto


section \<open>Distance\<close>

text \<open>The XOR of the terms \<open>c\<close> times \<open>X\<close> to the power \<open>j\<close>. With as many powers as terms, all with different \<open>X\<close>, they
  vanish only when every \<open>c\<close> does.\<close>

lemma xor_zero: "a XOR b = 0 \<longleftrightarrow> a = b" for a b :: "8 word"
  by (metis xor.assoc xor_self_eq xor.right_neutral)

primrec term_sum :: "nat \<Rightarrow> (8 word \<times> 8 word) list \<Rightarrow> 8 word" where
  "term_sum j [] = 0"
| "term_sum j (t # ts) = gfMul (fst t) (gf_power (snd t) j) XOR term_sum j ts"

lemma term_sum_reduce:
  "term_sum j (map (\<lambda>(c, X). (gfMul c (X XOR X0), X)) ts) = term_sum (Suc j) ts XOR gfMul X0 (term_sum j ts)"
  by (induction ts) (auto simp: gfMul_xor_left gfMul_xor_right gf_ac ac_simps)

lemma terms_vanish:
  assumes "distinct (map snd ts)" "\<forall>j < length ts. term_sum j ts = 0"
  shows "\<forall>t \<in> set ts. fst t = 0"
  using assms
proof (induction ts rule: length_induct)
  case (1 ts)
  show ?case
  proof (cases ts)
    case (Cons t us)
    let ?us = "map (\<lambda>(c, X). (gfMul c (X XOR snd t), X)) us"
    have snds: "map snd ?us = map snd us" by auto
    have "term_sum j ?us = 0" if "j < length us" for j
    proof -
      have z: "term_sum j us = gfMul (fst t) (gf_power (snd t) j)" "term_sum (Suc j) us = gfMul (fst t) (gf_power (snd t) (Suc j))"
        using "1.prems"(2) that Cons by (auto simp: xor_zero)
      show ?thesis unfolding term_sum_reduce z by (simp add: gf_ac)
    qed
    moreover have "distinct (map snd ?us)" using "1.prems"(1) Cons unfolding snds by simp
    moreover have "length ?us < length ts" using Cons by simp
    ultimately have "\<forall>u \<in> set ?us. fst u = 0"
      by (intro "1.IH"[THEN spec, THEN mp, THEN mp, THEN mp]) simp_all
    then have "gfMul (fst u) (snd u XOR snd t) = 0" if "u \<in> set us" for u
      using that by (cases u) force
    moreover have "snd u \<noteq> snd t" if "u \<in> set us" for u using that "1.prems"(1) Cons by (metis distinct.simps(2) list.simps(9) list.set_map imageI)
    ultimately have us: "fst u = 0" if "u \<in> set us" for u
      using that by (metis gfMul_eq_0 xor_zero)
    then have "term_sum 0 us = 0" by (induction us) auto
    with us show ?thesis using "1.prems"(2) Cons by auto
  qed simp
qed


text \<open>The terms of a polynomial that are not zero, and their value.\<close>

fun poly_terms :: "8 word list \<Rightarrow> (8 word \<times> 8 word) list" where
  "poly_terms [] = []"
| "poly_terms (c # cs) = (if c = 0 then [] else [(c, gf_power 2 (length cs))]) @ poly_terms cs"

lemma poly_terms_sum: "poly_at (gf_power 2 j) cs = term_sum j (poly_terms cs)"
  by (induction cs) (simp_all add: poly_at_Cons gf_power_swap[of 2 j])

lemma poly_terms_powers: "X \<in> snd ` set (poly_terms cs) \<Longrightarrow> \<exists>i < length cs. X = gf_power 2 i"
  by (induction cs) (auto split: if_splits intro: less_SucI)

lemma poly_terms_distinct: "length cs \<le> 255 \<Longrightarrow> distinct (map snd (poly_terms cs))"
proof (induction cs)
  case (Cons c cs)
  then have "gf_power 2 (length cs) \<notin> snd ` set (poly_terms cs)"
    using poly_terms_powers[of _ cs] powers_differ[of _ "length cs"] by fastforce
  with Cons show ?case by simp
qed simp

lemma poly_terms_nonzero: "t \<in> set (poly_terms cs) \<Longrightarrow> fst t \<noteq> 0"
  by (induction cs) (auto split: if_splits)

lemma poly_terms_length: "length (poly_terms cs) = card {i. i < length cs \<and> cs ! i \<noteq> 0}"
proof (induction cs)
  case (Cons c cs)
  have "{i. i < length (c # cs) \<and> (c # cs) ! i \<noteq> 0} = (if c = 0 then {} else {0}) \<union> Suc ` {i. i < length cs \<and> cs ! i \<noteq> 0}"
    by (auto simp: less_Suc_eq_0_disj)
  then show ?case using Cons by (auto simp: card_insert_if card_image)
qed simp

section \<open>Properties\<close>

text \<open>C34. The error correction of a QR code is a Reed-Solomon code: each block with its remainder is zero at the first \<open>n\<close> powers
  of the field's generator, and two blocks of one length (at most 255 bytes with the correction) that carry different
  data differ in more than \<open>n\<close> of their bytes. So a reader can undo any \<open>n div 2\<close> wrong bytes of a block.\<close>

theorem blocks_far_apart:
  assumes "length a = length b" "a \<noteq> b" "0 < n" "length a + n \<le> 255"
  shows "n < card {i. i < length a + n \<and> (a @ rsRemainder a (rsDivisor n)) ! i \<noteq> (b @ rsRemainder b (rsDivisor n)) ! i}
    \<and> (\<forall>j < n. poly_at (gf_power 2 j) (a @ rsRemainder a (rsDivisor n)) = 0)"
proof -
  let ?a = "a @ rsRemainder a (rsDivisor n)" and ?b = "b @ rsRemainder b (rsDivisor n)"
  let ?e = "map2 (XOR) ?a ?b"
  have len: "length ?a = length a + n" "length ?b = length a + n"
    using block_is_codeword(1)[OF assms(3)] assms(1) by simp_all
  have zero: "poly_at (gf_power 2 j) ?e = 0" if "j < n" for j
    using poly_at_xor[of ?a ?b] len block_is_codeword(2)[OF that] by simp
  have diff: "{i. i < length a + n \<and> ?a ! i \<noteq> ?b ! i} = {i. i < length ?e \<and> ?e ! i \<noteq> 0}"
    using len by (auto simp: xor_zero simp del: append_eq_append_conv)
  have "n < length (poly_terms ?e)"
  proof (rule ccontr)
    assume "\<not> n < length (poly_terms ?e)"
    then have "\<forall>j < length (poly_terms ?e). term_sum j (poly_terms ?e) = 0"
      using zero by (simp add: poly_terms_sum[symmetric])
    with poly_terms_distinct[of ?e] len assms(4) have "\<forall>t \<in> set (poly_terms ?e). fst t = 0"
      by (intro terms_vanish) simp_all
    then have "poly_terms ?e = []" using poly_terms_nonzero[of _ ?e] by (cases "poly_terms ?e") auto
    then have "{i. i < length a + n \<and> ?a ! i \<noteq> ?b ! i} = {}" using poly_terms_length[of ?e] unfolding diff by simp
    then have "?a = ?b" using len by (intro nth_equalityI) auto
    then show False using assms(1,2) by simp
  qed
  then show ?thesis using block_is_codeword(2)[of _ n a] unfolding diff poly_terms_length by blast
qed

section \<open>Witnesses\<close>

theorem blocks_far_apart_witness:
  "10 < card {i. i < 12 \<and> ([1, 2] @ rsRemainder [1, 2] (rsDivisor 10)) ! i \<noteq> ([1, 3] @ rsRemainder [1, 3] (rsDivisor 10)) ! i}"
  using blocks_far_apart[of "[1, 2]" "[1, 3]" 10] by simp

end
