(* ===== verification/Qr_Code.thy ===== *)
theory Qr_Code
  imports Gf256 Form_Url
begin

text \<open>
  The QR code encoder of "Continue on your phone" (\<^verbatim>\<open>client/src/console/ui/qr.ts\<close>): the version, the bit stream, the
  blocks and their interleaving, the function patterns, the placement of the codewords, the masks and their penalty.

  A symbol is two grids of rows, the modules and which of them are function patterns; \<open>x\<close> is the column. The patterns
  are lists of the \<^verbatim>\<open>setFn\<close> calls the code makes, in order; that each falls inside the symbol is a lemma. No number of
  the encoder reaches 31 bits, so the bit operations on them are those on natural numbers. A text is Latin-1, as everywhere
  in this development; a negative forced mask is the same as none.

  The lemmas say where the patterns are, that the cells outside them are enough for the codewords, what the placement and a
  mask write, and that the mask chosen has the lowest penalty. \<^verbatim>\<open>Qr_Read\<close> reads the symbol back.
\<close>

section \<open>Tables\<close>

datatype Ecl = EclL | EclM

text \<open>Index 0 (\<open>-1\<close> in the code) is not read: the versions start at 1.\<close>

definition ECC_PER_BLOCK :: "Ecl \<Rightarrow> nat list" where
  "ECC_PER_BLOCK ecl =
     (case ecl of EclL \<Rightarrow> [0, 7, 10, 15, 20, 26, 18, 20, 24, 30, 18] | EclM \<Rightarrow> [0, 10, 16, 26, 18, 24, 16, 18, 22, 22, 26])"

definition BLOCKS :: "Ecl \<Rightarrow> nat list" where
  "BLOCKS ecl = (case ecl of EclL \<Rightarrow> [0, 1, 1, 1, 1, 1, 2, 2, 2, 2, 4] | EclM \<Rightarrow> [0, 1, 1, 1, 2, 2, 4, 4, 4, 5, 5])"

definition FORMAT_BITS :: "Ecl \<Rightarrow> nat" where
  "FORMAT_BITS ecl = (case ecl of EclL \<Rightarrow> 1 | EclM \<Rightarrow> 0)"

definition MAX_VERSION :: nat where
  "MAX_VERSION = 10"

definition rawModules :: "nat \<Rightarrow> nat" where
  "rawModules ver =
     (let n = (16 * ver + 128) * ver + 64 in
      if ver \<ge> 2
      then let align = ver div 7 + 2; n' = n - ((25 * align - 10) * align - 55) in if ver \<ge> 7 then n' - 36 else n'
      else n)"

definition dataCodewords :: "nat \<Rightarrow> Ecl \<Rightarrow> nat" where
  "dataCodewords ver ecl = rawModules ver div 8 - ECC_PER_BLOCK ecl ! ver * BLOCKS ecl ! ver"

section \<open>The bit stream\<close>

definition qr_utf8 :: "string \<Rightarrow> nat list" where
  "qr_utf8 text = concat (map utf8_char text)"

definition qr_put :: "nat \<Rightarrow> nat \<Rightarrow> bool list" where
  "qr_put val len = map (bit val) (rev [0..<len])"

definition count_bits :: "nat \<Rightarrow> nat" where
  "count_bits ver = (if ver \<le> 9 then 8 else 16)"

definition qr_version :: "nat list \<Rightarrow> Ecl \<Rightarrow> nat option" where
  "qr_version bytes ecl =
     List.find (\<lambda>ver. 4 + count_bits ver + length bytes * 8 \<le> dataCodewords ver ecl * 8) [1..<Suc MAX_VERSION]"

function pad_loop :: "nat \<Rightarrow> nat \<Rightarrow> bool list \<Rightarrow> bool list" where
  "pad_loop capBits pad bits =
     (if length bits < capBits then pad_loop capBits (pad XOR (0xec XOR 0x11)) (bits @ qr_put pad 8) else bits)"
  by auto
termination
  by (relation "measure (\<lambda>(capBits, pad, bits). capBits - length bits)") (auto simp: qr_put_def)

declare pad_loop.simps [simp del]

definition bit_stream :: "nat \<Rightarrow> Ecl \<Rightarrow> nat list \<Rightarrow> bool list" where
  "bit_stream ver ecl bytes =
     (let capBits = dataCodewords ver ecl * 8;
          b1 = qr_put 4 4 @ qr_put (length bytes) (count_bits ver) @ concat (map (\<lambda>b. qr_put b 8) bytes);
          b2 = b1 @ qr_put 0 (min 4 (capBits - length b1));
          b3 = b2 @ qr_put 0 ((8 - length b2 mod 8) mod 8)
      in pad_loop capBits 0xec b3)"

fun bytes_of_bits :: "bool list \<Rightarrow> 8 word list" where
  "bytes_of_bits (a # b # c # d # e # f # g # h # bits) =
     foldl (\<lambda>w x. push_bit 1 w OR of_bool x) 0 [a, b, c, d, e, f, g, h] # bytes_of_bits bits"
| "bytes_of_bits _ = []"

section \<open>Blocks\<close>

definition block_lens :: "nat \<Rightarrow> Ecl \<Rightarrow> nat \<times> nat" where
  "block_lens ver ecl =
     (let nBlocks = BLOCKS ecl ! ver; raw = rawModules ver div 8 in (nBlocks - raw mod nBlocks, raw div nBlocks))"

text \<open>\<open>nShort\<close> and \<open>shortLen\<close> of the code; a short block gets a zero before its correction bytes.\<close>

fun ec_blocks :: "nat \<Rightarrow> nat \<Rightarrow> nat \<Rightarrow> nat list \<Rightarrow> 8 word list \<Rightarrow> 8 word list list" where
  "ec_blocks nShort shortLen eccLen [] dat = []"
| "ec_blocks nShort shortLen eccLen (i # is) dat =
     (let len = shortLen - eccLen + (if i < nShort then 0 else 1); d = take len dat; ecc = rsRemainder d (rsDivisor eccLen)
      in ((if i < nShort then d @ [0] else d) @ ecc) # ec_blocks nShort shortLen eccLen is (drop len dat))"

definition interleave :: "nat \<Rightarrow> nat \<Rightarrow> 8 word list list \<Rightarrow> 8 word list" where
  "interleave nShort gap blocks =
     concat (map (\<lambda>i. map (\<lambda>j. blocks ! j ! i) (filter (\<lambda>j. i \<noteq> gap \<or> j \<ge> nShort) [0..<length blocks]))
                 [0..<length (blocks ! 0)])"

definition qr_blocks :: "nat \<Rightarrow> Ecl \<Rightarrow> 8 word list \<Rightarrow> 8 word list list" where
  "qr_blocks ver ecl dat =
     (case block_lens ver ecl of (nShort, shortLen) \<Rightarrow>
        ec_blocks nShort shortLen (ECC_PER_BLOCK ecl ! ver) [0..<BLOCKS ecl ! ver] dat)"

definition qr_codewords :: "nat \<Rightarrow> Ecl \<Rightarrow> 8 word list \<Rightarrow> 8 word list" where
  "qr_codewords ver ecl dat =
     (case block_lens ver ecl of (nShort, shortLen) \<Rightarrow>
        interleave nShort (shortLen - ECC_PER_BLOCK ecl ! ver) (qr_blocks ver ecl dat))"

section \<open>Function patterns\<close>

record symbol =
  modules :: "bool list list"
  isFn :: "bool list list"

type_synonym fn_call = "nat \<times> nat \<times> bool"

definition grid_put :: "nat \<Rightarrow> nat \<Rightarrow> bool \<Rightarrow> bool list list \<Rightarrow> bool list list" where
  "grid_put x y v g = g[y := (g ! y)[x := v]]"

definition setFn :: "fn_call \<Rightarrow> symbol \<Rightarrow> symbol" where
  "setFn c s = (case c of (x, y, dark) \<Rightarrow> s\<lparr>modules := grid_put x y dark (modules s), isFn := grid_put x y True (isFn s)\<rparr>)"

definition timing :: "nat \<Rightarrow> fn_call list" where
  "timing sz = concat (map (\<lambda>i. [(6, i, i mod 2 = 0), (i, 6, i mod 2 = 0)]) [0..<sz])"

definition finder :: "nat \<Rightarrow> int \<Rightarrow> int \<Rightarrow> fn_call list" where
  "finder sz cx cy =
     concat (map (\<lambda>dy. concat (map (\<lambda>dx.
       let d = max (abs dx) (abs dy); x = cx + dx; y = cy + dy
       in if x \<ge> 0 \<and> x < int sz \<and> y \<ge> 0 \<and> y < int sz then [(nat x, nat y, d \<noteq> 2 \<and> d \<noteq> 4)] else []) [-4..4])) [-4..4])"

text \<open>The positions left, each put right after the 6 the list starts with.\<close>

fun align_loop :: "nat \<Rightarrow> int \<Rightarrow> int \<Rightarrow> int list \<Rightarrow> int list" where
  "align_loop 0 pos step al = al"
| "align_loop (Suc n) pos step al = align_loop n (pos - step) step (take 1 al @ [pos] @ drop 1 al)"

definition align_positions :: "nat \<Rightarrow> int list" where
  "align_positions ver =
     (if ver > 1
      then let n = ver div 7 + 2; step = ((int ver * 4 + 4 + (int n * 2 - 3)) div (int n * 2 - 2)) * 2
           in align_loop (n - 1) (int ver * 4 + 10) step [6]
      else [])"

definition align_cells :: "nat \<Rightarrow> fn_call list" where
  "align_cells ver =
     (let al = align_positions ver; n = length al in
      concat (map (\<lambda>i. concat (map (\<lambda>j.
        if i = 0 \<and> j = 0 \<or> i = 0 \<and> j = n - 1 \<or> i = n - 1 \<and> j = 0 then []
        else concat (map (\<lambda>dy. map (\<lambda>dx. (nat (al ! i + dx), nat (al ! j + dy), max (abs dx) (abs dy) \<noteq> 1)) [-2..2]) [-2..2]))
        [0..<n])) [0..<n]))"

definition format_value :: "Ecl \<Rightarrow> nat \<Rightarrow> nat" where
  "format_value ecl m =
     (let d = push_bit 3 (FORMAT_BITS ecl) OR m;
          r = ((\<lambda>rem. push_bit 1 rem XOR (drop_bit 9 rem * 0x537)) ^^ 10) d
      in (push_bit 10 d OR r) XOR 0x5412)"

definition format_cells :: "nat \<Rightarrow> nat \<Rightarrow> fn_call list" where
  "format_cells sz f =
     map (\<lambda>i. (8, i, bit f i)) [0..<6] @ [(8, 7, bit f 6), (8, 8, bit f 7), (7, 8, bit f 8)]
     @ map (\<lambda>i. (14 - i, 8, bit f i)) [9..<15] @ map (\<lambda>i. (sz - 1 - i, 8, bit f i)) [0..<8]
     @ map (\<lambda>i. (8, sz - 15 + i, bit f i)) [8..<15] @ [(8, sz - 8, True)]"

definition version_value :: "nat \<Rightarrow> nat" where
  "version_value ver =
     push_bit 12 ver OR ((\<lambda>rem. push_bit 1 rem XOR (drop_bit 11 rem * 0x1f25)) ^^ 12) ver"

definition version_cells :: "nat \<Rightarrow> nat \<Rightarrow> fn_call list" where
  "version_cells ver sz =
     (if ver \<ge> 7
      then concat (map (\<lambda>i. let dark = bit (version_value ver) i; a = sz - 11 + i mod 3; b = i div 3
                            in [(a, b, dark), (b, a, dark)]) [0..<18])
      else [])"

definition qr_size :: "nat \<Rightarrow> nat" where
  "qr_size ver = ver * 4 + 17"

definition drawFormat :: "nat \<Rightarrow> Ecl \<Rightarrow> nat \<Rightarrow> symbol \<Rightarrow> symbol" where
  "drawFormat sz ecl m = fold setFn (format_cells sz (format_value ecl m))"

definition draw_patterns :: "nat \<Rightarrow> Ecl \<Rightarrow> symbol" where
  "draw_patterns ver ecl =
     (let sz = qr_size ver; blank = replicate sz (replicate sz False);
          s1 = fold setFn (timing sz @ finder sz 3 3 @ finder sz (int sz - 4) 3 @ finder sz 3 (int sz - 4) @ align_cells ver)
                 \<lparr>modules = blank, isFn = blank\<rparr>
      in fold setFn (version_cells ver sz) (drawFormat sz ecl 0 s1))"

section \<open>Codewords and masks\<close>

fun zigzag_columns :: "nat \<Rightarrow> nat list" where
  "zigzag_columns right =
     (if right < 1 then [] else let r = if right = 6 then 5 else right in r # zigzag_columns (r - 2))"

declare zigzag_columns.simps [simp del]

definition zigzag :: "nat \<Rightarrow> (nat \<times> nat) list" where
  "zigzag sz =
     concat (map (\<lambda>right. concat (map (\<lambda>vert. map (\<lambda>j.
       (right - j, if (right + 1) AND 2 = 0 then sz - 1 - vert else vert)) [0, 1]) [0..<sz])) (zigzag_columns (sz - 1)))"

definition place :: "8 word list \<Rightarrow> nat \<times> nat \<Rightarrow> symbol \<times> nat \<Rightarrow> symbol \<times> nat" where
  "place codewords c st =
     (case (c, st) of ((x, y), (s, pos)) \<Rightarrow>
        if \<not> isFn s ! y ! x \<and> pos < length codewords * 8
        then (s\<lparr>modules := grid_put x y (bit (codewords ! (pos div 8)) (7 - pos mod 8)) (modules s)\<rparr>, pos + 1)
        else (s, pos))"

definition place_all :: "nat \<Rightarrow> 8 word list \<Rightarrow> symbol \<Rightarrow> symbol" where
  "place_all sz codewords s = fst (fold (place codewords) (zigzag sz) (s, 0))"

definition mask_at :: "nat \<Rightarrow> nat \<Rightarrow> nat \<Rightarrow> bool" where
  "mask_at m x y =
     (if m = 0 then (x + y) mod 2 = 0
      else if m = 1 then y mod 2 = 0
      else if m = 2 then x mod 3 = 0
      else if m = 3 then (x + y) mod 3 = 0
      else if m = 4 then (x div 3 + y div 2) mod 2 = 0
      else if m = 5 then (x * y) mod 2 + (x * y) mod 3 = 0
      else if m = 6 then ((x * y) mod 2 + (x * y) mod 3) mod 2 = 0
      else ((x + y) mod 2 + (x * y) mod 3) mod 2 = 0)"

definition applyMask :: "nat \<Rightarrow> nat \<Rightarrow> symbol \<Rightarrow> symbol" where
  "applyMask sz m s =
     s\<lparr>modules := map (\<lambda>y. map (\<lambda>x.
         if isFn s ! y ! x then modules s ! y ! x else modules s ! y ! x \<noteq> mask_at m x y) [0..<sz]) [0..<sz]\<rparr>"

section \<open>The penalty\<close>

definition addHistory :: "nat \<Rightarrow> nat \<Rightarrow> nat list \<Rightarrow> nat list" where
  "addHistory sz run hist = (if hist ! 0 = 0 then run + sz else run) # butlast hist"

definition countFinders :: "nat list \<Rightarrow> int" where
  "countFinders hist =
     (let n = hist ! 1; core = n > 0 \<and> hist ! 2 = n \<and> hist ! 3 = n * 3 \<and> hist ! 4 = n \<and> hist ! 5 = n
      in of_bool (core \<and> hist ! 0 \<ge> n * 4 \<and> hist ! 6 \<ge> n) + of_bool (core \<and> hist ! 6 \<ge> n * 4 \<and> hist ! 0 \<ge> n))"

definition terminate :: "nat \<Rightarrow> bool \<Rightarrow> nat \<Rightarrow> nat list \<Rightarrow> int" where
  "terminate sz color run hist =
     (case (if color then (addHistory sz run hist, 0) else (hist, run)) of
        (hist', run') \<Rightarrow> countFinders (addHistory sz (run' + sz) hist'))"

text \<open>One row or column: the colour, length and history of the runs, and the score so far.\<close>

fun penalty_line :: "nat \<Rightarrow> bool list \<Rightarrow> bool \<Rightarrow> nat \<Rightarrow> nat list \<Rightarrow> int \<Rightarrow> int" where
  "penalty_line sz [] color run hist score = score + terminate sz color run hist * 40"
| "penalty_line sz (v # vs) color run hist score =
     (if v = color
      then penalty_line sz vs color (run + 1) hist (if run + 1 = 5 then score + 3 else if run + 1 > 5 then score + 1 else score)
      else let hist' = addHistory sz run hist
           in penalty_line sz vs v 1 hist' (if \<not> color then score + countFinders hist' * 40 else score))"

definition penalty :: "bool list list \<Rightarrow> int" where
  "penalty m =
     (let sz = length m;
          line = (\<lambda>vs score. penalty_line sz vs False 0 [0, 0, 0, 0, 0, 0, 0] score);
          s1 = fold (\<lambda>a. line (map (\<lambda>b. m ! a ! b) [0..<sz])) [0..<sz] 0;
          s2 = fold (\<lambda>a. line (map (\<lambda>b. m ! b ! a) [0..<sz])) [0..<sz] s1;
          cells = concat (map (\<lambda>y. map (\<lambda>x. (x, y)) [0..<sz]) [0..<sz]);
          dark = length (filter (\<lambda>(x, y). m ! y ! x) cells);
          s3 = s2 + 3 * int (length (filter (\<lambda>(x, y). y < sz - 1 \<and> x < sz - 1 \<and>
                  m ! y ! x = m ! y ! (x + 1) \<and> m ! y ! x = m ! (y + 1) ! x \<and> m ! y ! x = m ! (y + 1) ! (x + 1)) cells));
          total = int (sz * sz);
          k = (abs (int dark * 20 - total * 10) + total - 1) div total - 1
      in s3 + k * 10)"

section \<open>The encoder\<close>

record QrCode =
  qr_ver :: nat
  qr_ecl :: Ecl
  qr_mask :: nat
  qr_sz :: nat
  qr_modules :: "bool list list"

text \<open>The choice of the mask: each is drawn, scored and undone.\<close>

definition try_mask :: "nat \<Rightarrow> Ecl \<Rightarrow> nat \<Rightarrow> symbol \<times> (int \<times> nat) option \<Rightarrow> symbol \<times> (int \<times> nat) option" where
  "try_mask sz ecl m st =
     (case st of (s, best) \<Rightarrow>
        let s' = drawFormat sz ecl m (applyMask sz m s); p = penalty (modules s')
        in (applyMask sz m s',
            case best of None \<Rightarrow> Some (p, m) | Some (b, c) \<Rightarrow> if p < b then Some (p, m) else Some (b, c)))"

definition finish_qr :: "nat \<Rightarrow> Ecl \<Rightarrow> nat option \<Rightarrow> symbol \<Rightarrow> symbol \<times> nat" where
  "finish_qr sz ecl forced s =
     (case (case forced of
              Some m \<Rightarrow> (s, m)
            | None \<Rightarrow> (case fold (try_mask sz ecl) [0..<8] (s, None) of (s', best) \<Rightarrow> (s', snd (the best)))) of
        (s', chosen) \<Rightarrow> (drawFormat sz ecl chosen (applyMask sz chosen s'), chosen))"

definition encodeQr :: "string \<Rightarrow> Ecl \<Rightarrow> nat option \<Rightarrow> QrCode result" where
  "encodeQr text ecl forced =
     (let bytes = qr_utf8 text in
      case qr_version bytes ecl of
        None \<Rightarrow> Inl (JsError ''qr: text too long'')
      | Some ver \<Rightarrow>
          let dat = bytes_of_bits (bit_stream ver ecl bytes);
              sz = qr_size ver;
              s = place_all sz (qr_codewords ver ecl dat) (draw_patterns ver ecl)
          in case finish_qr sz ecl forced s of
               (s', chosen) \<Rightarrow>
                 Inr \<lparr>qr_ver = ver, qr_ecl = ecl, qr_mask = chosen, qr_sz = sz, qr_modules = modules s'\<rparr>)"

definition qrPath :: "QrCode \<Rightarrow> nat \<Rightarrow> string" where
  "qrPath code quiet =
     concat (map (\<lambda>y. concat (map (\<lambda>x.
       if qr_modules code ! y ! x then ''M'' @ show_nat (x + quiet) @ '' '' @ show_nat (y + quiet) @ ''h1v1h-1z'' else [])
       [0..<qr_sz code])) [0..<qr_sz code])"


section \<open>Grids\<close>

definition square :: "nat \<Rightarrow> bool list list \<Rightarrow> bool" where
  "square n g \<longleftrightarrow> length g = n \<and> (\<forall>row \<in> set g. length row = n)"

lemma square_row [simp]: "square n g \<Longrightarrow> y < n \<Longrightarrow> length (g ! y) = n"
  by (simp add: square_def)

lemma square_put [simp]: "square n g \<Longrightarrow> square n (grid_put x y v g)"
  by (cases "y < length g") (auto simp: square_def grid_put_def list_update_beyond dest!: set_update_subset_insert[THEN subsetD])

lemma grid_put_nth:
  "square n g \<Longrightarrow> x < n \<Longrightarrow> y < n \<Longrightarrow> grid_put x y v g ! y' ! x' = (if x' = x \<and> y' = y then v else g ! y' ! x')"
  by (auto simp: grid_put_def square_def nth_list_update)

lemma square_eq:
  "square n g \<Longrightarrow> square n h \<Longrightarrow> (\<And>x y. x < n \<Longrightarrow> y < n \<Longrightarrow> g ! y ! x = h ! y ! x) \<Longrightarrow> g = h"
  by (auto simp: square_def intro!: nth_equalityI)

lemma square_blank: "square n (replicate n (replicate n v))"
  by (simp add: square_def)

definition sym_ok :: "nat \<Rightarrow> symbol \<Rightarrow> bool" where
  "sym_ok n s \<longleftrightarrow> square n (modules s) \<and> square n (isFn s)"

definition call_at :: "fn_call \<Rightarrow> nat \<times> nat" where
  "call_at c = (fst c, fst (snd c))"

abbreviation inside :: "nat \<Rightarrow> nat \<times> nat \<Rightarrow> bool" where
  "inside n p \<equiv> fst p < n \<and> snd p < n"

text \<open>What the last call to a cell wrote.\<close>

definition last_call :: "fn_call list \<Rightarrow> nat \<times> nat \<Rightarrow> bool option" where
  "last_call cs = map_of (rev (map (\<lambda>c. (call_at c, snd (snd c))) cs))"

lemma last_call_None: "last_call cs p = None \<longleftrightarrow> p \<notin> call_at ` set cs"
  by (auto simp: last_call_def map_of_eq_None_iff image_image)

lemma last_call_snoc: "last_call (cs @ [c]) p = (if p = call_at c then Some (snd (snd c)) else last_call cs p)"
  by (simp add: last_call_def)

lemma setFn_ok [simp]: "sym_ok n s \<Longrightarrow> sym_ok n (setFn c s)"
  by (simp add: sym_ok_def setFn_def split: prod.split)

lemma setFn_cell:
  assumes "sym_ok n s" "inside n (call_at c)"
  shows "modules (setFn c s) ! y ! x = (if (x, y) = call_at c then snd (snd c) else modules s ! y ! x)"
    "isFn (setFn c s) ! y ! x = ((x, y) = call_at c \<or> isFn s ! y ! x)"
  using assms by (auto simp: sym_ok_def setFn_def call_at_def grid_put_nth split: prod.splits if_splits)

lemma fold_setFn:
  assumes "sym_ok n s" "\<forall>c \<in> set cs. inside n (call_at c)"
  shows "sym_ok n (fold setFn cs s)
    \<and> modules (fold setFn cs s) ! y ! x = (case last_call cs (x, y) of None \<Rightarrow> modules s ! y ! x | Some d \<Rightarrow> d)
    \<and> isFn (fold setFn cs s) ! y ! x = (isFn s ! y ! x \<or> (x, y) \<in> call_at ` set cs)"
  using assms
proof (induction cs rule: rev_induct)
  case (snoc c cs)
  have IH: "sym_ok n (fold setFn cs s)"
      "modules (fold setFn cs s) ! y ! x = (case last_call cs (x, y) of None \<Rightarrow> modules s ! y ! x | Some d \<Rightarrow> d)"
      "isFn (fold setFn cs s) ! y ! x = (isFn s ! y ! x \<or> (x, y) \<in> call_at ` set cs)"
    using snoc by auto
  have "inside n (call_at c)" using snoc.prems(2) by simp
  with IH show ?case by (simp add: setFn_cell[OF IH(1)] last_call_snoc)
qed (simp add: last_call_def)


section \<open>Where the patterns are\<close>

text \<open>Rectangles (column, width, row, height) that hold every function pattern: the finders with the format bits, the timing
  lines between them, the version bits and the alignment patterns (the two on the timing lines without their crossing).\<close>

definition rect :: "nat \<times> nat \<times> nat \<times> nat \<Rightarrow> (nat \<times> nat) set" where
  "rect r = (case r of (x, w, y, h) \<Rightarrow> {x..<x + w} \<times> {y..<y + h})"

definition fn_rects :: "nat \<Rightarrow> (nat \<times> nat \<times> nat \<times> nat) list" where
  "fn_rects ver =
     (let sz = qr_size ver; a = 2 * ver + 6; b = sz - 9 in
      [(0, 9, 0, 9), (sz - 8, 8, 0, 9), (0, 9, sz - 8, 8), (9, sz - 17, 6, 1), (6, 1, 9, sz - 17)]
      @ (if ver \<ge> 7
         then [(sz - 11, 3, 0, 6), (0, 6, sz - 11, 3), (a, 5, a, 5), (a, 5, b, 5), (b, 5, a, 5), (b, 5, b, 5),
               (4, 2, a, 5), (7, 2, a, 5), (a, 5, 4, 2), (a, 5, 7, 2)]
         else if ver \<ge> 2 then [(b, 5, b, 5)] else []))"

definition fn_area :: "nat \<Rightarrow> (nat \<times> nat) set" where
  "fn_area ver = (\<Union>r \<in> set (fn_rects ver). rect r)"

abbreviation version_ok :: "nat \<Rightarrow> bool" where
  "version_ok ver \<equiv> 1 \<le> ver \<and> ver \<le> 10"

lemma version_cases: "version_ok ver \<longleftrightarrow> ver \<in> {1, 2, 3, 4, 5, 6, 7, 8, 9, 10}"
  by (auto simp: le_Suc_eq numeral_eq_Suc)

lemma in_rect: "p \<in> rect (x, w, y, h) \<longleftrightarrow> x \<le> fst p \<and> fst p < x + w \<and> y \<le> snd p \<and> snd p < y + h"
  by (cases p) (auto simp: rect_def)

lemma in_fn_area: "r \<in> set (fn_rects ver) \<Longrightarrow> p \<in> rect r \<Longrightarrow> p \<in> fn_area ver"
  by (auto simp: fn_area_def)

lemma corners:
  "x < 9 \<Longrightarrow> y < 9 \<Longrightarrow> (x, y) \<in> fn_area ver"
  "qr_size ver - 8 \<le> x \<Longrightarrow> x < qr_size ver \<Longrightarrow> y < 9 \<Longrightarrow> (x, y) \<in> fn_area ver"
  "x < 9 \<Longrightarrow> qr_size ver - 8 \<le> y \<Longrightarrow> y < qr_size ver \<Longrightarrow> (x, y) \<in> fn_area ver"
proof -
  show "x < 9 \<Longrightarrow> y < 9 \<Longrightarrow> (x, y) \<in> fn_area ver"
    by (rule in_fn_area[of "(0, 9, 0, 9)"]; simp add: fn_rects_def Let_def in_rect)
  show "qr_size ver - 8 \<le> x \<Longrightarrow> x < qr_size ver \<Longrightarrow> y < 9 \<Longrightarrow> (x, y) \<in> fn_area ver"
    by (rule in_fn_area[of "(qr_size ver - 8, 8, 0, 9)"]; simp add: fn_rects_def Let_def in_rect)
  show "x < 9 \<Longrightarrow> qr_size ver - 8 \<le> y \<Longrightarrow> y < qr_size ver \<Longrightarrow> (x, y) \<in> fn_area ver"
    by (rule in_fn_area[of "(0, 9, qr_size ver - 8, 8)"]; simp add: fn_rects_def Let_def in_rect)
qed

lemma lines:
  "x < qr_size ver \<Longrightarrow> (x, 6) \<in> fn_area ver" "y < qr_size ver \<Longrightarrow> (6, y) \<in> fn_area ver"
proof -
  have m: "9 \<le> z \<Longrightarrow> z < 9 + (qr_size ver - 17) \<Longrightarrow> (z, 6) \<in> fn_area ver \<and> (6, z) \<in> fn_area ver" for z
    using in_fn_area[of "(9, qr_size ver - 17, 6, 1)" ver "(z, 6)"] in_fn_area[of "(6, 1, 9, qr_size ver - 17)" ver "(6, z)"]
    by (simp add: fn_rects_def Let_def in_rect)
  have "(z, 6) \<in> fn_area ver \<and> (6, z) \<in> fn_area ver" if z: "z < qr_size ver" for z
  proof -
    consider "z < 9" | "qr_size ver - 8 \<le> z" | "9 \<le> z" "z < 9 + (qr_size ver - 17)"
      unfolding qr_size_def by linarith
    then show ?thesis by cases (use m[of z] z in \<open>auto intro: corners\<close>)
  qed
  then show "x < qr_size ver \<Longrightarrow> (x, 6) \<in> fn_area ver" "y < qr_size ver \<Longrightarrow> (6, y) \<in> fn_area ver" by simp_all
qed

lemma timing_area: "c \<in> set (timing (qr_size ver)) \<Longrightarrow> call_at c \<in> fn_area ver"
  by (auto simp: timing_def call_at_def intro: lines)

lemma finder_at:
  assumes "c \<in> set (finder sz cx cy)"
  shows "\<exists>dx dy. call_at c = (nat (cx + dx), nat (cy + dy)) \<and> 0 \<le> cx + dx \<and> cx + dx < int sz \<and> 0 \<le> cy + dy \<and> cy + dy < int sz
     \<and> -4 \<le> dx \<and> dx \<le> 4 \<and> -4 \<le> dy \<and> dy \<le> 4"
  using assms by (auto simp: finder_def Let_def call_at_def simp del: upto_rec_numeral split: if_splits)
    (intro exI conjI; (rule refl | assumption))

lemma finders_area:
  "c \<in> set (finder (qr_size ver) 3 3) \<Longrightarrow> call_at c \<in> fn_area ver"
  "c \<in> set (finder (qr_size ver) (int (qr_size ver) - 4) 3) \<Longrightarrow> call_at c \<in> fn_area ver"
  "c \<in> set (finder (qr_size ver) 3 (int (qr_size ver) - 4)) \<Longrightarrow> call_at c \<in> fn_area ver"
  by (drule finder_at, elim exE conjE, simp, rule corners; linarith)+

lemma format_area: "c \<in> set (format_cells (qr_size ver) f) \<Longrightarrow> call_at c \<in> fn_area ver"
  using corners(1)[of _ _ ver] corners(2)[of ver] corners(3)[of _ ver]
  by (auto simp: format_cells_def call_at_def qr_size_def)

lemma version_area:
  assumes "c \<in> set (version_cells ver (qr_size ver))"
  shows "call_at c \<in> fn_area ver"
proof -
  obtain i where i: "ver \<ge> 7" "i < 18" "call_at c = (qr_size ver - 11 + i mod 3, i div 3) \<or> call_at c = (i div 3, qr_size ver - 11 + i mod 3)"
    using assms by (auto simp: version_cells_def call_at_def Let_def split: if_splits)
  then have "call_at c \<in> rect (qr_size ver - 11, 3, 0, 6) \<or> call_at c \<in> rect (0, 6, qr_size ver - 11, 3)"
    by (auto simp: in_rect less_mult_imp_div_less)
  then show ?thesis
    using in_fn_area[of _ ver "call_at c"] i(1) by (auto simp: fn_rects_def Let_def)
qed


lemma align_positions_eq:
  assumes "version_ok ver"
  shows "align_positions ver = (if ver \<ge> 7 then [6, 2 * int ver + 8, 4 * int ver + 10] else if ver \<ge> 2 then [6, 4 * int ver + 10] else [])"
  using assms unfolding version_cases by (elim insertE emptyE; simp add: align_positions_def numeral_eq_Suc[of "Num.One"])


lemma align_at:
  assumes "c \<in> set (align_cells ver)"
  obtains i j dx dy where "i < length (align_positions ver)" "j < length (align_positions ver)"
    "\<not> (i = 0 \<and> j = 0 \<or> i = 0 \<and> j = length (align_positions ver) - 1 \<or> i = length (align_positions ver) - 1 \<and> j = 0)"
    "-2 \<le> dx" "dx \<le> 2" "-2 \<le> dy" "dy \<le> 2"
    "call_at c = (nat (align_positions ver ! i + dx), nat (align_positions ver ! j + dy))"
  using assms by (auto simp: align_cells_def Let_def call_at_def simp del: upto_rec_numeral split: if_splits)

lemma align_area:
  assumes "version_ok ver" "c \<in> set (align_cells ver)"
  shows "call_at c \<in> fn_area ver"
proof -
  obtain i j dx dy where *: "i < length (align_positions ver)" "j < length (align_positions ver)"
    "\<not> (i = 0 \<and> j = 0 \<or> i = 0 \<and> j = length (align_positions ver) - 1 \<or> i = length (align_positions ver) - 1 \<and> j = 0)"
    "-2 \<le> dx" "dx \<le> 2" "-2 \<le> dy" "dy \<le> 2"
    "call_at c = (nat (align_positions ver ! i + dx), nat (align_positions ver ! j + dy))"
    using align_at[OF assms(2)] .
  let ?a = "2 * ver + 6" and ?b = "qr_size ver - 9"
  have box: "(x, 5, y, 5) \<in> set (fn_rects ver) \<Longrightarrow> int x = al - 2 \<Longrightarrow> int y = al' - 2 \<Longrightarrow> (nat (al + dx), nat (al' + dy)) \<in> fn_area ver"
    for x y al al'
    using *(4-7) by (intro in_fn_area[of "(x, 5, y, 5)"]) (auto simp: in_rect)
  have b: "int ?b = 4 * int ver + 8" by (simp add: qr_size_def)
  consider (one) "ver = 1" | (two) "2 \<le> ver" "ver < 7" | (three) "7 \<le> ver" using assms(1) by linarith
  then show ?thesis
  proof cases
    case one
    then show ?thesis using * assms(1) by (simp add: align_positions_eq)
  next
    case two
    then have al: "align_positions ver = [6, 4 * int ver + 10]" using assms(1) by (simp add: align_positions_eq)
    then have "i = 1" "j = 1" using * by (auto simp: less_Suc_eq)
    moreover have "(?b, 5, ?b, 5) \<in> set (fn_rects ver)" using two by (simp add: fn_rects_def Let_def)
    ultimately show ?thesis using box[of ?b ?b "4 * int ver + 10" "4 * int ver + 10"] b al *(8) by simp
  next
    case three
    then have al: "align_positions ver = [6, 2 * int ver + 8, 4 * int ver + 10]" using assms(1) by (simp add: align_positions_eq)
    have r: "set [(?a, 5, ?a, 5), (?a, 5, ?b, 5), (?b, 5, ?a, 5), (?b, 5, ?b, 5), (4, 2, ?a, 5), (7, 2, ?a, 5), (?a, 5, 4, 2), (?a, 5, 7, 2)] \<subseteq> set (fn_rects ver)"
      using three by (auto simp: fn_rects_def Let_def)
    have m: "(nat (6 + dx), nat (2 * int ver + 8 + dy)) \<in> fn_area ver"
    proof (cases "dx = 0")
      case True
      then show ?thesis using lines(2)[of "nat (2 * int ver + 8 + dy)" ver] *(4-7) assms(1) by (simp add: qr_size_def)
    next
      case False
      then have "(nat (6 + dx), nat (2 * int ver + 8 + dy)) \<in> rect (4, 2, ?a, 5) \<or> (nat (6 + dx), nat (2 * int ver + 8 + dy)) \<in> rect (7, 2, ?a, 5)"
        using *(4-7) by (auto simp: in_rect)
      then show ?thesis using r by (auto intro: in_fn_area)
    qed
    have m': "(nat (2 * int ver + 8 + dx), nat (6 + dy)) \<in> fn_area ver"
    proof (cases "dy = 0")
      case True
      then show ?thesis using lines(1)[of "nat (2 * int ver + 8 + dx)" ver] *(4-7) assms(1) by (simp add: qr_size_def)
    next
      case False
      then have "(nat (2 * int ver + 8 + dx), nat (6 + dy)) \<in> rect (?a, 5, 4, 2) \<or> (nat (2 * int ver + 8 + dx), nat (6 + dy)) \<in> rect (?a, 5, 7, 2)"
        using *(4-7) by (auto simp: in_rect)
      then show ?thesis using r by (auto intro: in_fn_area)
    qed
    have "i = 0 \<and> j = 1 \<or> i = 1 \<and> j = 0 \<or> i = 1 \<and> j = 1 \<or> i = 1 \<and> j = 2 \<or> i = 2 \<and> j = 1 \<or> i = 2 \<and> j = 2"
      using *(1-3) al by (auto simp: less_Suc_eq numeral_2_eq_2)
    then show ?thesis
      using *(8) al m m' box[of ?a ?a "2 * int ver + 8" "2 * int ver + 8"] box[of ?a ?b "2 * int ver + 8" "4 * int ver + 10"]
        box[of ?b ?a "4 * int ver + 10" "2 * int ver + 8"] box[of ?b ?b "4 * int ver + 10" "4 * int ver + 10"] r b by auto
  qed
qed


lemma card_rects: "card (\<Union>r \<in> set rs. rect r) \<le> sum_list (map (\<lambda>(x, w, y, h). w * h) rs)"
proof (induction rs)
  case (Cons r rs)
  obtain x w y h where r: "r = (x, w, y, h)" by (cases r) auto
  have "card (\<Union>r \<in> set (r # rs). rect r) \<le> card (rect r) + card (\<Union>r \<in> set rs. rect r)" by (simp add: card_Un_le)
  also have "card (rect r) = w * h" by (simp add: r rect_def card_cartesian_product)
  finally show ?case using Cons by (simp add: r)
qed simp

lemma rects_inside: "version_ok ver \<Longrightarrow> p \<in> fn_area ver \<Longrightarrow> inside (qr_size ver) p"
  by (auto simp: fn_area_def fn_rects_def Let_def in_rect qr_size_def split: if_splits)

lemma rects_size: "version_ok ver \<Longrightarrow> sum_list (map (\<lambda>(x, w, y, h). w * h) (fn_rects ver)) + rawModules ver = qr_size ver * qr_size ver"
  unfolding version_cases by (elim insertE emptyE; simp add: fn_rects_def rawModules_def qr_size_def)

lemma card_fn_area: "version_ok ver \<Longrightarrow> card (fn_area ver) + rawModules ver \<le> qr_size ver * qr_size ver"
  using card_rects[of "fn_rects ver"] rects_size[of ver] unfolding fn_area_def by linarith

text \<open>The symbol before the codewords go in.\<close>

definition pattern_calls :: "nat \<Rightarrow> Ecl \<Rightarrow> fn_call list" where
  "pattern_calls ver ecl =
     (let sz = qr_size ver in
      (timing sz @ finder sz 3 3 @ finder sz (int sz - 4) 3 @ finder sz 3 (int sz - 4) @ align_cells ver)
      @ format_cells sz (format_value ecl 0) @ version_cells ver sz)"

lemma draw_patterns_eq:
  "draw_patterns ver ecl = fold setFn (pattern_calls ver ecl)
     \<lparr>modules = replicate (qr_size ver) (replicate (qr_size ver) False), isFn = replicate (qr_size ver) (replicate (qr_size ver) False)\<rparr>"
  by (simp add: draw_patterns_def pattern_calls_def drawFormat_def Let_def)

lemma pattern_calls_area: "version_ok ver \<Longrightarrow> c \<in> set (pattern_calls ver ecl) \<Longrightarrow> call_at c \<in> fn_area ver"
  unfolding pattern_calls_def Let_def
  by (auto intro: timing_area finders_area align_area format_area version_area)

lemma draw_patterns_ok: "version_ok ver \<Longrightarrow> sym_ok (qr_size ver) (draw_patterns ver ecl)"
  and draw_patterns_fn:
    "version_ok ver \<Longrightarrow> inside (qr_size ver) (x, y) \<Longrightarrow> isFn (draw_patterns ver ecl) ! y ! x = ((x, y) \<in> call_at ` set (pattern_calls ver ecl))"
proof -
  assume v: "version_ok ver"
  have i: "\<forall>c \<in> set (pattern_calls ver ecl). inside (qr_size ver) (call_at c)"
    using rects_inside[OF v] pattern_calls_area[OF v] by blast
  have b: "sym_ok (qr_size ver) \<lparr>modules = replicate (qr_size ver) (replicate (qr_size ver) False), isFn = replicate (qr_size ver) (replicate (qr_size ver) False)\<rparr>"
    by (simp add: sym_ok_def square_blank)
  show "sym_ok (qr_size ver) (draw_patterns ver ecl)" using fold_setFn[OF b i] by (simp add: draw_patterns_eq)
  show "isFn (draw_patterns ver ecl) ! y ! x = ((x, y) \<in> call_at ` set (pattern_calls ver ecl))" if "inside (qr_size ver) (x, y)"
    using fold_setFn[OF b i, of y x] that by (simp add: draw_patterns_eq)
qed


section \<open>The order of the cells\<close>

definition pair_columns :: "nat \<Rightarrow> nat list" where
  "pair_columns n = concat (map (\<lambda>r. [r, r - 1]) (zigzag_columns n))"

lemma pair_columns_rec:
  "pair_columns n = (if n < 1 then [] else let r = if n = 6 then 5 else n in r # (r - 1) # pair_columns (r - 2))"
  by (subst pair_columns_def, subst zigzag_columns.simps) (simp add: pair_columns_def Let_def)

lemma pair_columns_spec: "even n \<Longrightarrow> 6 \<le> n \<Longrightarrow> distinct (pair_columns n) \<and> set (pair_columns n) = {..n} - {6}"
proof (induction n rule: less_induct)
  case (less n)
  show ?case
  proof (cases "n = 6")
    case True
    have "pair_columns 6 = [5, 4, 3, 2, 1, 0]" by (subst pair_columns_rec, simp)+
    then show ?thesis using True by auto
  next
    case False
    then have n: "8 \<le> n" using less.prems by (auto elim!: evenE)
    then have "pair_columns n = n # (n - 1) # pair_columns (n - 2)" by (subst pair_columns_rec) simp
    with less.IH[of "n - 2"] less.prems n show ?thesis by auto
  qed
qed

lemma columns_positive: "r \<in> set (zigzag_columns n) \<Longrightarrow> 1 \<le> r"
  by (induction n rule: zigzag_columns.induct) (subst (asm) (2) zigzag_columns.simps, auto simp: Let_def split: if_splits)

definition column_cells :: "nat \<Rightarrow> bool \<Rightarrow> nat \<Rightarrow> (nat \<times> nat) list" where
  "column_cells sz up r = concat (map (\<lambda>vert. map (\<lambda>j. (r - j, if up then sz - 1 - vert else vert)) [0, 1]) [0..<sz])"

lemma zigzag_columns_cells: "zigzag sz = concat (map (\<lambda>r. column_cells sz ((r + 1) AND 2 = 0) r) (zigzag_columns (sz - 1)))"
  by (simp add: zigzag_def column_cells_def)

lemma column_cells_set: "set (column_cells sz up r) = {r, r - 1} \<times> {..<sz}"
proof -
  have y: "(\<lambda>vert. if up then sz - 1 - vert else vert) ` {..<sz} = {..<sz}"
  proof (cases up)
    case True
    have "y \<in> (\<lambda>vert. sz - 1 - vert) ` {..<sz}" if "y < sz" for y
      using that by (intro image_eqI[of _ _ "sz - 1 - y"]) auto
    with True show ?thesis by auto
  qed simp
  have "set (column_cells sz up r) = {r, r - 1} \<times> (\<lambda>vert. if up then sz - 1 - vert else vert) ` {..<sz}"
    unfolding column_cells_def by (auto simp del: upt_Suc simp: atLeast0LessThan)
  then show ?thesis unfolding y .
qed

lemma column_cells_length [simp]: "length (column_cells sz up r) = 2 * sz"
  by (simp add: column_cells_def length_concat comp_def sum_list_triv)

lemma zigzag_set:
  assumes "even (sz - 1)" "6 \<le> sz - 1"
  shows "set (zigzag sz) = ({..<sz} - {6}) \<times> {..<sz}"
proof -
  have "set (zigzag sz) = set (pair_columns (sz - 1)) \<times> {..<sz}"
    by (auto simp: zigzag_columns_cells column_cells_set pair_columns_def)
  moreover have "{..sz - 1} = {..<sz}" using assms(2) by (auto simp: less_eq_Suc_le)
  ultimately show ?thesis using pair_columns_spec[OF assms] by (simp del: atMost_iff)
qed

lemma zigzag_distinct:
  assumes "even (sz - 1)" "6 \<le> sz - 1"
  shows "distinct (zigzag sz)"
proof (rule card_distinct)
  have "length (zigzag sz) = 2 * sz * length (zigzag_columns (sz - 1))"
    by (simp add: zigzag_columns_cells length_concat comp_def sum_list_triv)
  moreover have "2 * length (zigzag_columns (sz - 1)) = length (pair_columns (sz - 1))"
    by (simp add: pair_columns_def length_concat comp_def sum_list_triv)
  moreover have "length (pair_columns (sz - 1)) = sz - 1"
    using pair_columns_spec[OF assms] distinct_card[of "pair_columns (sz - 1)"] assms(2) by simp
  ultimately have "length (zigzag sz) = (sz - 1) * sz" by (simp add: algebra_simps)
  moreover have "card (set (zigzag sz)) = (sz - 1) * sz"
    unfolding zigzag_set[OF assms] using assms(2) by (simp add: card_cartesian_product card_Diff_singleton)
  ultimately show "card (set (zigzag sz)) = length (zigzag sz)" by simp
qed

lemma zigzag_version:
  "set (zigzag (qr_size ver)) = ({..<qr_size ver} - {6}) \<times> {..<qr_size ver}" "distinct (zigzag (qr_size ver))"
  by (rule zigzag_set zigzag_distinct; simp add: qr_size_def)+

definition data_cells :: "nat \<Rightarrow> Ecl \<Rightarrow> (nat \<times> nat) list" where
  "data_cells ver ecl = filter (\<lambda>(x, y). \<not> isFn (draw_patterns ver ecl) ! y ! x) (zigzag (qr_size ver))"

lemma data_cells_enough:
  assumes "version_ok ver"
  shows "rawModules ver \<le> length (data_cells ver ecl)"
proof -
  let ?n = "qr_size ver"
  have "{..<?n} \<times> {..<?n} - fn_area ver \<subseteq> set (data_cells ver ecl)"
  proof
    fix p assume p: "p \<in> {..<?n} \<times> {..<?n} - fn_area ver"
    obtain x y where xy: "p = (x, y)" by (cases p)
    from p xy have "x \<noteq> 6" using lines(2)[of y ver] by auto
    moreover have "\<not> isFn (draw_patterns ver ecl) ! y ! x"
      using p xy pattern_calls_area[OF assms] draw_patterns_fn[OF assms, of x y ecl] by auto
    ultimately show "p \<in> set (data_cells ver ecl)" using p xy by (simp add: data_cells_def zigzag_version)
  qed
  then have "card ({..<?n} \<times> {..<?n} - fn_area ver) \<le> length (data_cells ver ecl)"
    by (meson List.finite_set card_length card_mono le_trans)
  moreover have "card ({..<?n} \<times> {..<?n}) - card (fn_area ver) \<le> card ({..<?n} \<times> {..<?n} - fn_area ver)"
    by (rule diff_card_le_card_Diff) (auto simp: fn_area_def rect_def)
  ultimately show ?thesis using card_fn_area[OF assms] by (simp add: card_cartesian_product)
qed


section \<open>What is written where\<close>

abbreviation bit_at :: "8 word list \<Rightarrow> nat \<Rightarrow> bool" where
  "bit_at cw k \<equiv> bit (cw ! (k div 8)) (7 - k mod 8)"

lemma place_at:
  "place cw (x, y) (s, k) =
     (if \<not> isFn s ! y ! x \<and> k < length cw * 8 then (s\<lparr>modules := grid_put x y (bit_at cw k) (modules s)\<rparr>, k + 1) else (s, k))"
  by (simp add: place_def)

lemma place_fold:
  assumes "sym_ok n s" "\<forall>p \<in> set cells. inside n p" "distinct cells" "fold (place cw) cells (s, k) = (s', k')"
  shows "sym_ok n s' \<and> isFn s' = isFn s
    \<and> (\<forall>i < length (filter (\<lambda>(x, y). \<not> isFn s ! y ! x) cells). k + i < length cw * 8 \<longrightarrow>
         (case filter (\<lambda>(x, y). \<not> isFn s ! y ! x) cells ! i of (x, y) \<Rightarrow> modules s' ! y ! x = bit_at cw (k + i)))
    \<and> (\<forall>x y. (x, y) \<notin> set cells \<or> isFn s ! y ! x \<longrightarrow> modules s' ! y ! x = modules s ! y ! x)"
  using assms
proof (induction cells arbitrary: s k)
  case (Cons p cells)
  obtain a b where p: "p = (a, b)" by (cases p)
  show ?case
  proof (cases "\<not> isFn s ! b ! a \<and> k < length cw * 8")
    case True
    let ?t = "s\<lparr>modules := grid_put a b (bit_at cw k) (modules s)\<rparr>"
    have t: "fold (place cw) cells (?t, k + 1) = (s', k')" using Cons.prems(4) True by (simp add: p place_at)
    have in_ab: "a < n" "b < n" using Cons.prems(2) p by auto
    have ok: "sym_ok n ?t" using Cons.prems(1) by (simp add: sym_ok_def)
    have cell: "modules ?t ! y ! x = (if x = a \<and> y = b then bit_at cw k else modules s ! y ! x)" for x y
      using Cons.prems(1) in_ab by (simp add: grid_put_nth[of n] sym_ok_def)
    note IH = Cons.IH[OF ok _ _ t]
    have new: "(a, b) \<notin> set cells" using Cons.prems(3) p by simp
    have "modules s' ! b ! a = bit_at cw k" using IH Cons.prems new cell by auto
    moreover have "(case (p # filter (\<lambda>(x, y). \<not> isFn s ! y ! x) cells) ! i of (x, y) \<Rightarrow> modules s' ! y ! x = bit_at cw (k + i))"
      if "i < Suc (length (filter (\<lambda>(x, y). \<not> isFn s ! y ! x) cells))" "k + i < length cw * 8" for i
      using that IH Cons.prems(2,3) calculation p by (cases i) auto
    moreover have "modules s' ! y ! x = modules s ! y ! x" if "(x, y) \<notin> set (p # cells) \<or> isFn s ! y ! x" for x y
    proof -
      have "\<not> (x = a \<and> y = b)" using that True p by auto
      then have "modules ?t ! y ! x = modules s ! y ! x" using cell by metis
      moreover have "modules s' ! y ! x = modules ?t ! y ! x" using that IH Cons.prems(2,3) by auto
      ultimately show ?thesis by simp
    qed
    ultimately show ?thesis using IH Cons.prems True p by simp
  next
    case False
    have t: "fold (place cw) cells (s, k) = (s', k')" using Cons.prems(4) False by (simp add: p place_at)
    note IH = Cons.IH[OF Cons.prems(1) _ _ t]
    show ?thesis
    proof (cases "isFn s ! b ! a")
      case True
      then show ?thesis using IH Cons.prems by (simp add: p)
    next
      case False
      then have "length cw * 8 \<le> k" using \<open>\<not> (\<not> isFn s ! b ! a \<and> k < length cw * 8)\<close> by simp
      then show ?thesis using IH Cons.prems by (simp add: p)
    qed
  qed
qed simp

lemma applyMask_ok: "sym_ok n s \<Longrightarrow> sym_ok n (applyMask n m s) \<and> isFn (applyMask n m s) = isFn s"
  by (simp add: sym_ok_def applyMask_def square_def)

lemma applyMask_cell:
  "x < n \<Longrightarrow> y < n \<Longrightarrow> modules (applyMask n m s) ! y ! x = (if isFn s ! y ! x then modules s ! y ! x else modules s ! y ! x \<noteq> mask_at m x y)"
  by (simp add: applyMask_def)


section \<open>Masks\<close>

text \<open>The format bits go to the same cells whatever they are, and these are reserved before the codewords go in.\<close>

definition format_at :: "nat \<Rightarrow> (nat \<times> nat) set" where
  "format_at sz = call_at ` set (format_cells sz 0)"

lemma format_cells_at: "call_at ` set (format_cells sz f) = format_at sz"
proof -
  have "map call_at (format_cells sz f) = map call_at (format_cells sz 0)" by (simp add: format_cells_def call_at_def)
  then show ?thesis unfolding format_at_def set_map[symmetric] by simp
qed

definition base_ok :: "nat \<Rightarrow> Ecl \<Rightarrow> symbol \<Rightarrow> bool" where
  "base_ok ver ecl s \<longleftrightarrow> sym_ok (qr_size ver) s \<and> isFn s = isFn (draw_patterns ver ecl)"

definition masked :: "nat \<Rightarrow> Ecl \<Rightarrow> nat \<Rightarrow> symbol \<Rightarrow> symbol" where
  "masked ver ecl m s = drawFormat (qr_size ver) ecl m (applyMask (qr_size ver) m s)"

lemma format_at_fn:
  assumes "version_ok ver" "p \<in> format_at (qr_size ver)"
  shows "inside (qr_size ver) p" "isFn (draw_patterns ver ecl) ! snd p ! fst p"
proof -
  have p: "p \<in> call_at ` set (format_cells (qr_size ver) (format_value ecl 0))" using assms(2) by (simp only: format_cells_at)
  then have "p \<in> fn_area ver" using format_area by blast
  then show i: "inside (qr_size ver) p" by (rule rects_inside[OF assms(1)])
  show "isFn (draw_patterns ver ecl) ! snd p ! fst p"
    using draw_patterns_fn[OF assms(1), of "fst p" "snd p" ecl] i p by (auto simp: pattern_calls_def Let_def image_Un)
qed

lemma masked_spec:
  assumes "version_ok ver" "base_ok ver ecl s"
  shows "base_ok ver ecl (masked ver ecl m s)"
    and "x < qr_size ver \<Longrightarrow> y < qr_size ver \<Longrightarrow> modules (masked ver ecl m s) ! y ! x =
      (case last_call (format_cells (qr_size ver) (format_value ecl m)) (x, y) of
         Some d \<Rightarrow> d
       | None \<Rightarrow> if isFn (draw_patterns ver ecl) ! y ! x then modules s ! y ! x else modules s ! y ! x \<noteq> mask_at m x y)"
proof -
  let ?n = "qr_size ver" and ?fs = "format_cells (qr_size ver) (format_value ecl m)"
  let ?t = "applyMask ?n m s"
  have t: "sym_ok ?n ?t" "isFn ?t = isFn (draw_patterns ver ecl)"
    using applyMask_ok[of ?n s m] assms(2) by (auto simp: base_ok_def)
  have i: "\<forall>c \<in> set ?fs. inside ?n (call_at c)"
    by (metis format_at_fn(1)[OF assms(1)] format_cells_at imageI)
  note f = fold_setFn[OF t(1) i]
  have "isFn (masked ver ecl m s) = isFn (draw_patterns ver ecl)"
  proof (rule square_eq)
    show "square ?n (isFn (masked ver ecl m s))" "square ?n (isFn (draw_patterns ver ecl))"
      using f t draw_patterns_ok[OF assms(1)] by (auto simp: sym_ok_def masked_def drawFormat_def)
    show "isFn (masked ver ecl m s) ! y ! x = isFn (draw_patterns ver ecl) ! y ! x" if "x < ?n" "y < ?n" for x y
      using f[of y x] t(2) format_at_fn(2)[OF assms(1), of "(x, y)" ecl]
      unfolding masked_def drawFormat_def format_cells_at by auto
  qed
  then show "base_ok ver ecl (masked ver ecl m s)" using f by (simp add: base_ok_def masked_def drawFormat_def)
  show "modules (masked ver ecl m s) ! y ! x = (case last_call ?fs (x, y) of Some d \<Rightarrow> d
       | None \<Rightarrow> if isFn (draw_patterns ver ecl) ! y ! x then modules s ! y ! x else modules s ! y ! x \<noteq> mask_at m x y)"
    if "x < ?n" "y < ?n"
    using f[of y x] applyMask_cell[OF that, of m s] assms(2) by (auto simp: masked_def drawFormat_def base_ok_def split: option.split)
qed

text \<open>Symbols that differ in their format bits only: any mask makes them the same.\<close>

definition agree :: "nat \<Rightarrow> Ecl \<Rightarrow> symbol \<Rightarrow> symbol \<Rightarrow> bool" where
  "agree ver ecl s t \<longleftrightarrow> base_ok ver ecl s \<and> base_ok ver ecl t
     \<and> (\<forall>x < qr_size ver. \<forall>y < qr_size ver. (x, y) \<notin> format_at (qr_size ver) \<longrightarrow> modules s ! y ! x = modules t ! y ! x)"

lemma last_format: "last_call (format_cells sz f) p = None \<longleftrightarrow> p \<notin> format_at sz"
  by (simp only: last_call_None format_cells_at)

lemma masked_agree:
  assumes "version_ok ver" "agree ver ecl s t"
  shows "masked ver ecl m s = masked ver ecl m t"
proof -
  have ok: "base_ok ver ecl s" "base_ok ver ecl t" using assms(2) by (auto simp: agree_def)
  note ms = masked_spec[OF assms(1) ok(1)] and mt = masked_spec[OF assms(1) ok(2)]
  have "modules (masked ver ecl m s) = modules (masked ver ecl m t)"
  proof (rule square_eq)
    show "square (qr_size ver) (modules (masked ver ecl m s))" "square (qr_size ver) (modules (masked ver ecl m t))"
      using ms(1) mt(1) by (auto simp: base_ok_def sym_ok_def)
    show "modules (masked ver ecl m s) ! y ! x = modules (masked ver ecl m t) ! y ! x" if "x < qr_size ver" "y < qr_size ver" for x y
      using that assms(2) last_format[of "qr_size ver" "format_value ecl m" "(x, y)"]
      by (auto simp: ms(2) mt(2) agree_def split: option.split)
  qed
  moreover have "isFn (masked ver ecl m s) = isFn (masked ver ecl m t)" using ms(1) mt(1) by (simp add: base_ok_def)
  ultimately show ?thesis by (simp add: symbol.equality)
qed

lemma unmask_agree:
  assumes "version_ok ver" "agree ver ecl s t"
  shows "agree ver ecl s (applyMask (qr_size ver) m (masked ver ecl m t))"
proof -
  have ok: "base_ok ver ecl t" using assms(2) by (auto simp: agree_def)
  note mt = masked_spec[OF assms(1) ok]
  have "base_ok ver ecl (applyMask (qr_size ver) m (masked ver ecl m t))"
    using mt(1) applyMask_ok[of "qr_size ver" "masked ver ecl m t" m] by (simp add: base_ok_def)
  moreover have "modules (applyMask (qr_size ver) m (masked ver ecl m t)) ! y ! x = modules s ! y ! x"
    if "x < qr_size ver" "y < qr_size ver" "(x, y) \<notin> format_at (qr_size ver)" for x y
    using that assms(2) mt(1) mt(2)[of x y m] last_format[of "qr_size ver" "format_value ecl m" "(x, y)"]
    by (auto simp: applyMask_cell base_ok_def agree_def)
  ultimately show ?thesis using assms(2) by (auto simp: agree_def)
qed

lemma try_mask_masked:
  "try_mask (qr_size ver) ecl m (t, best) =
     (applyMask (qr_size ver) m (masked ver ecl m t),
      case best of
        None \<Rightarrow> Some (penalty (modules (masked ver ecl m t)), m)
      | Some (b, c) \<Rightarrow> if penalty (modules (masked ver ecl m t)) < b then Some (penalty (modules (masked ver ecl m t)), m) else Some (b, c))"
  by (simp add: try_mask_def masked_def Let_def split: option.split)

lemma try_masks:
  assumes "version_ok ver" "base_ok ver ecl s"
  shows "\<exists>t best. fold (try_mask (qr_size ver) ecl) [0..<k] (s, None) = (t, best) \<and> agree ver ecl s t
    \<and> (k = 0 \<longrightarrow> best = None)
    \<and> (0 < k \<longrightarrow> (\<exists>c < k. best = Some (penalty (modules (masked ver ecl c s)), c)
         \<and> (\<forall>m < k. penalty (modules (masked ver ecl c s)) \<le> penalty (modules (masked ver ecl m s)))))"
proof (induction k)
  case 0
  then show ?case using assms(2) by (simp add: agree_def)
next
  case (Suc k)
  then obtain t best where t: "fold (try_mask (qr_size ver) ecl) [0..<k] (s, None) = (t, best)" "agree ver ecl s t"
    "k = 0 \<longrightarrow> best = None"
    "0 < k \<longrightarrow> (\<exists>c < k. best = Some (penalty (modules (masked ver ecl c s)), c)
         \<and> (\<forall>m < k. penalty (modules (masked ver ecl c s)) \<le> penalty (modules (masked ver ecl m s))))" by blast
  let ?p = "\<lambda>m. penalty (modules (masked ver ecl m s))"
  have "fold (try_mask (qr_size ver) ecl) [0..<Suc k] (s, None) =
      (applyMask (qr_size ver) k (masked ver ecl k t),
       case best of None \<Rightarrow> Some (?p k, k) | Some (b, c) \<Rightarrow> if ?p k < b then Some (?p k, k) else Some (b, c))"
    using t(1) masked_agree[OF assms(1) t(2), of k] by (simp add: try_mask_masked split: option.split)
  moreover have "agree ver ecl s (applyMask (qr_size ver) k (masked ver ecl k t))" by (rule unmask_agree[OF assms(1) t(2)])
  moreover have "\<exists>c < Suc k. (case best of None \<Rightarrow> Some (?p k, k) | Some (b, c) \<Rightarrow> if ?p k < b then Some (?p k, k) else Some (b, c)) = Some (?p c, c)
      \<and> (\<forall>m < Suc k. ?p c \<le> ?p m)"
  proof (cases "k = 0")
    case False
    then obtain c where "c < k" "best = Some (?p c, c)" "\<forall>m < k. ?p c \<le> ?p m" using t(4) by auto
    then show ?thesis by (cases "?p k < ?p c") (fastforce simp: less_Suc_eq)+
  qed (use t(3) in simp)
  ultimately show ?case by simp
qed

text \<open>The symbol that comes out is the one with the chosen mask, and without a forced mask none has a lower penalty.\<close>

lemma finish_spec:
  assumes "version_ok ver" "base_ok ver ecl s" "\<forall>m. forced = Some m \<longrightarrow> m < 8"
  shows "\<exists>c < 8. finish_qr (qr_size ver) ecl forced s = (masked ver ecl c s, c) \<and> (\<forall>m. forced = Some m \<longrightarrow> c = m)
    \<and> (forced = None \<longrightarrow> (\<forall>m < 8. penalty (modules (masked ver ecl c s)) \<le> penalty (modules (masked ver ecl m s))))"
proof (cases forced)
  case (Some m)
  then show ?thesis using assms(3) by (simp add: finish_qr_def masked_def)
next
  case None
  obtain t c where t: "fold (try_mask (qr_size ver) ecl) [0..<8] (s, None) = (t, Some (penalty (modules (masked ver ecl c s)), c))"
    "agree ver ecl s t" "c < 8" "\<forall>m < 8. penalty (modules (masked ver ecl c s)) \<le> penalty (modules (masked ver ecl m s))"
    using try_masks[OF assms(1,2), of 8] by auto
  then have "finish_qr (qr_size ver) ecl forced s = (masked ver ecl c t, c)" using None by (simp add: finish_qr_def masked_def)
  with t None masked_agree[OF assms(1) t(2), of c] show ?thesis by auto
qed

end
