(* ===== verification/Qr_Read.thy ===== *)
theory Qr_Read
  imports Qr_Code
begin

text \<open>
  A reader of QR codes and the proof that it gets the text back from what \<^verbatim>\<open>encodeQr\<close> draws: the stream, the blocks, the
  cells and the format bits, each read back by a lemma of its own, and the two properties of the encoder.
\<close>

section \<open>A reader\<close>

text \<open>What a reader makes of a symbol without damage: the mask and the level from the format bits by the upper left finder,
  the codewords from the cells outside the patterns in the standard's order, the bytes of each block in their place,
  and the text of the stream. It is given the size alone.\<close>

definition format_pos :: "(nat \<times> nat) list" where
  "format_pos = map (\<lambda>i. (8, i)) [0..<6] @ [(8, 7), (8, 8), (7, 8)] @ map (\<lambda>i. (14 - i, 8)) [9..<15]"

definition read_format :: "bool list list \<Rightarrow> nat" where
  "read_format g = horner_sum of_bool 2 (map (\<lambda>(x, y). g ! y ! x) format_pos)"

lemma upt_15:
  "[0..<6] = [0, 1, 2, 3, 4, 5]" "[0..<8] = [0, 1, 2, 3, 4, 5, 6, 7]" "[9..<15] = [9, 10, 11, 12, 13, 14]"
  "[8..<15] = [8, 9, 10, 11, 12, 13, 14]" "[0..<15] = [0, 1, 2, 3, 4, 5, 6, 7, 8, 9, 10, 11, 12, 13, 14]"
  by (simp_all add: upt_rec)

lemma format_read_cells:
  "map (last_call (format_cells (qr_size ver) f)) format_pos = map (\<lambda>i. Some (bit f i)) [0..<15]"
  unfolding last_call_def format_cells_def format_pos_def upt_15 by (simp add: call_at_def qr_size_def)

definition slots :: "nat \<Rightarrow> nat \<Rightarrow> nat \<Rightarrow> nat \<Rightarrow> (nat \<times> nat) list" where
  "slots nShort gap nb len = concat (map (\<lambda>i. map (Pair i) (filter (\<lambda>j. i \<noteq> gap \<or> j \<ge> nShort) [0..<nb])) [0..<len])"

definition read_data :: "nat \<Rightarrow> Ecl \<Rightarrow> 8 word list \<Rightarrow> 8 word list" where
  "read_data ver ecl cw =
     (case block_lens ver ecl of (nShort, shortLen) \<Rightarrow>
        let gap = shortLen - ECC_PER_BLOCK ecl ! ver; nb = BLOCKS ecl ! ver; sl = slots nShort gap nb (shortLen + 1)
        in concat (map (\<lambda>j. map (\<lambda>i. the (map_of (zip sl cw) (i, j))) [0..<gap + (if j < nShort then 0 else 1)]) [0..<nb]))"

definition byte_bits_of :: "8 word \<Rightarrow> bool list" where
  "byte_bits_of w = map (bit w) (rev [0..<8])"

definition read_text :: "nat \<Rightarrow> bool list \<Rightarrow> string option" where
  "read_text ver bits =
     (if take 4 bits = [False, True, False, False]
      then let n = horner_sum of_bool 2 (rev (take (count_bits ver) (drop 4 bits)))
           in utf8_decode (map unat (bytes_of_bits (take (8 * n) (drop (4 + count_bits ver) bits))))
      else None)"

definition read_qr :: "bool list list \<Rightarrow> string option" where
  "read_qr g =
     (let ver = (length g - 17) div 4; d = drop_bit 10 (read_format g XOR 0x5412); m = take_bit 3 d;
          ecl = if drop_bit 3 d = 1 then EclL else EclM;
          bits = map (\<lambda>(x, y). g ! y ! x \<noteq> mask_at m x y) (data_cells ver ecl);
          cw = bytes_of_bits (take (8 * (rawModules ver div 8)) bits)
      in read_text ver (concat (map byte_bits_of (read_data ver ecl cw))))"

section \<open>Bits and bytes\<close>

lemma fold_byte: "foldl (\<lambda>w x. push_bit 1 w OR of_bool x) 0 bs = (horner_sum of_bool 2 (rev bs) :: 8 word)"
proof (induction bs rule: rev_induct)
  case (snoc b bs)
  have "push_bit 1 w OR of_bool b = of_bool b + w * 2" for w :: "8 word"
    by (cases b) (simp_all add: or_one_eq)
  with snoc show ?case by simp
qed simp

lemma byte_bits_fold: "length bs = 8 \<Longrightarrow> byte_bits_of (foldl (\<lambda>w x. push_bit 1 w OR of_bool x) 0 bs) = bs"
  unfolding fold_byte byte_bits_of_def
  by (rule nth_equalityI) (auto simp: bit_horner_sum_bit_iff rev_nth)

lemma bits_of_bytes: "8 dvd length bs \<Longrightarrow> concat (map byte_bits_of (bytes_of_bits bs)) = bs"
proof (induction bs rule: bytes_of_bits.induct)
  case (1 a b c d e f g h bits)
  have "length (a # b # c # d # e # f # g # h # bits) = length bits + 8" by simp
  then have "8 dvd length bits" using "1.prems" by (simp only: dvd_add_left_iff dvd_refl)
  with 1 show ?case using byte_bits_fold[of "[a, b, c, d, e, f, g, h]"] by simp
qed (auto dest: dvd_imp_le)

lemma fold_byte_bits: "foldl (\<lambda>w x. push_bit 1 w OR of_bool x) 0 (byte_bits_of w) = w"
proof -
  have "rev (byte_bits_of w) = map (bit w) [0..<8]" by (simp add: byte_bits_of_def rev_map)
  then show ?thesis unfolding fold_byte by (simp only: horner_sum_bit_eq_take_bit) (simp add: take_bit_word_eq_self)
qed

lemma bytes_of_bits_append: "length b = 8 \<Longrightarrow> bytes_of_bits (b @ bs) = foldl (\<lambda>w x. push_bit 1 w OR of_bool x) 0 b # bytes_of_bits bs"
  by (auto simp: length_Suc_conv eval_nat_numeral)

lemma length_byte_bits_of [simp]: "length (byte_bits_of w) = 8"
  by (simp add: byte_bits_of_def)

lemma bytes_bits_bytes: "bytes_of_bits (concat (map byte_bits_of ws)) = ws"
  by (induction ws) (simp_all only: list.map concat.simps bytes_of_bits_append length_byte_bits_of fold_byte_bits bytes_of_bits.simps)

lemma codeword_bits: "map (bit_at cw) [0..<8 * length cw] = concat (map byte_bits_of cw)"
proof (induction cw)
  case (Cons w cw)
  have "[0..<8 * length (w # cw)] = [0..<8] @ map (\<lambda>k. k + 8) [0..<8 * length cw]"
    using upt_add_eq_append[of 0 8 "8 * length cw"] by (simp add: map_add_upt add.commute)
  moreover have "bit_at (w # cw) (k + 8) = bit_at cw k" for k by simp
  moreover have "map (bit_at (w # cw)) [0..<8] = byte_bits_of w" by (simp add: byte_bits_of_def upt_15)
  ultimately show ?case using Cons by (simp add: comp_def)
qed simp


lemma length_concat_bytes: "length (concat (map byte_bits_of ws)) = 8 * length ws"
  by (induction ws) simp_all

lemma put_bits: "qr_put b 8 = byte_bits_of (of_nat b)"
  by (auto simp: qr_put_def byte_bits_of_def bit_simps)

lemma length_put [simp]: "length (qr_put v n) = n"
  by (simp add: qr_put_def)

lemma read_put: "horner_sum of_bool 2 (rev (qr_put v n)) = take_bit n (v :: nat)"
proof -
  have "rev (qr_put v n) = map (bit v) [0..<n]" by (simp add: qr_put_def rev_map)
  then show ?thesis by (simp only: horner_sum_bit_eq_take_bit)
qed

section \<open>The stream is read back\<close>

lemma pad_loop_spec:
  "8 dvd length bits \<Longrightarrow> 8 dvd capBits \<Longrightarrow> length bits \<le> capBits \<Longrightarrow>
   length (pad_loop capBits pad bits) = capBits \<and> (\<exists>r. pad_loop capBits pad bits = bits @ r)"
proof (induction capBits pad bits rule: pad_loop.induct)
  case (1 capBits pad bits)
  show ?case
  proof (cases "length bits < capBits")
    case True
    have "length bits + 8 \<le> capBits" using True "1.prems" by (auto elim!: dvdE)
    then have "length (pad_loop capBits (pad XOR (0xec XOR 0x11)) (bits @ qr_put pad 8)) = capBits
        \<and> (\<exists>r. pad_loop capBits (pad XOR (0xec XOR 0x11)) (bits @ qr_put pad 8) = (bits @ qr_put pad 8) @ r)"
      using "1.prems" by (intro "1.IH"[OF True]) simp_all
    then show ?thesis using True by (subst pad_loop.simps, subst pad_loop.simps) auto
  next
    case False
    then show ?thesis using "1.prems" by (subst pad_loop.simps, subst pad_loop.simps) simp
  qed
qed

lemma concat_put: "length (concat (map (\<lambda>b. qr_put b 8) bytes)) = 8 * length bytes"
  by (induction bytes) simp_all

lemma round_up_8:
  fixes l k :: nat
  shows "8 dvd l + (8 - l mod 8) mod 8" "l \<le> k * 8 \<Longrightarrow> l + (8 - l mod 8) mod 8 \<le> k * 8"
proof -
  define q r where "q = l div 8" and "r = l mod 8"
  then have l: "l = 8 * q + r" "r < 8" by simp_all
  have up: "l + (8 - r) mod 8 = 8 * (q + 1)" if "r \<noteq> 0" using that l by simp
  show "8 dvd l + (8 - l mod 8) mod 8" unfolding r_def[symmetric]
  proof (cases "r = 0")
    case False
    show "8 dvd l + (8 - r) mod 8" unfolding up[OF False] by (rule dvd_triv_left)
  qed (use l in simp)
  show "l + (8 - l mod 8) mod 8 \<le> k * 8" if "l \<le> k * 8" unfolding r_def[symmetric]
  proof (cases "r = 0")
    case False
    then have "q < k" using that l by linarith
    then show "l + (8 - r) mod 8 \<le> k * 8" unfolding up[OF False] by simp
  qed (use that in simp)
qed

lemma bit_stream_spec:
  assumes "4 + count_bits ver + length bytes * 8 \<le> dataCodewords ver ecl * 8"
  shows "length (bit_stream ver ecl bytes) = dataCodewords ver ecl * 8"
    and "\<exists>r. bit_stream ver ecl bytes = qr_put 4 4 @ qr_put (length bytes) (count_bits ver) @ concat (map (\<lambda>b. qr_put b 8) bytes) @ r"
proof -
  define b1 where "b1 = qr_put 4 4 @ qr_put (length bytes) (count_bits ver) @ concat (map (\<lambda>b. qr_put b 8) bytes)"
  define b2 where "b2 = b1 @ qr_put 0 (min 4 (dataCodewords ver ecl * 8 - length b1))"
  define b3 where "b3 = b2 @ qr_put 0 ((8 - length b2 mod 8) mod 8)"
  have l1: "length b1 \<le> dataCodewords ver ecl * 8" using assms by (simp add: b1_def concat_put)
  then have l2: "length b2 \<le> dataCodewords ver ecl * 8" by (simp add: b2_def)
  have d: "8 dvd length b3" unfolding b3_def by (simp only: length_append length_put round_up_8)
  have "length b3 \<le> dataCodewords ver ecl * 8" using l2 unfolding b3_def by (simp only: length_append length_put round_up_8)
  with d pad_loop_spec[of b3 "dataCodewords ver ecl * 8" "0xec"] obtain r where
    r: "length (pad_loop (dataCodewords ver ecl * 8) 0xec b3) = dataCodewords ver ecl * 8" "pad_loop (dataCodewords ver ecl * 8) 0xec b3 = b3 @ r"
    by auto
  have s: "bit_stream ver ecl bytes = pad_loop (dataCodewords ver ecl * 8) 0xec b3"
    unfolding bit_stream_def Let_def b3_def b2_def b1_def by (rule refl)
  show "length (bit_stream ver ecl bytes) = dataCodewords ver ecl * 8" using r(1) s by simp
  show "\<exists>r. bit_stream ver ecl bytes = qr_put 4 4 @ qr_put (length bytes) (count_bits ver) @ concat (map (\<lambda>b. qr_put b 8) bytes) @ r"
    unfolding s r(2) unfolding b3_def b2_def b1_def append_assoc by blast
qed

lemma utf8_decode_text: "utf8_decode (qr_utf8 text) = Some text"
  by (induction "text") (simp_all add: qr_utf8_def utf8_decode_char)

lemma utf8_bytes: "b \<in> set (qr_utf8 text) \<Longrightarrow> b < 256"
  using utf8_byte by (auto simp: qr_utf8_def)

lemma capacity_count: "version_ok ver \<Longrightarrow> 4 + count_bits ver + n * 8 \<le> dataCodewords ver ecl * 8 \<Longrightarrow> n < 2 ^ count_bits ver"
  unfolding version_cases
  by (elim insertE emptyE; cases ecl; simp add: count_bits_def dataCodewords_def rawModules_def ECC_PER_BLOCK_def BLOCKS_def)

lemma read_stream:
  assumes "version_ok ver" "4 + count_bits ver + length (qr_utf8 text) * 8 \<le> dataCodewords ver ecl * 8"
  shows "read_text ver (bit_stream ver ecl (qr_utf8 text)) = Some text"
proof -
  let ?b = "qr_utf8 text"
  obtain r where r: "bit_stream ver ecl ?b = qr_put 4 4 @ qr_put (length ?b) (count_bits ver) @ concat (map (\<lambda>b. qr_put b 8) ?b) @ r"
    using bit_stream_spec(2)[OF assms(2)] by blast
  have "qr_put 4 4 = [False, True, False, False]" by (simp add: qr_put_def upt_rec bit_0)
  moreover have "horner_sum of_bool 2 (rev (qr_put (length ?b) (count_bits ver))) = length ?b"
    using capacity_count[OF assms] by (simp add: read_put take_bit_nat_eq_self)
  moreover have "bytes_of_bits (concat (map (\<lambda>b. qr_put b 8) ?b)) = map of_nat ?b"
    using bytes_bits_bytes[of "map of_nat ?b"] by (simp add: put_bits comp_def)
  moreover have "map unat (map of_nat ?b :: 8 word list) = ?b"
    using utf8_bytes[of _ "text"] by (auto simp: unat_of_nat intro!: map_idI)
  moreover have "drop (4 + count_bits ver) (qr_put 4 4 @ qr_put (length ?b) (count_bits ver) @ concat (map (\<lambda>b. qr_put b 8) ?b) @ r)
      = concat (map (\<lambda>b. qr_put b 8) ?b) @ r" by simp
  ultimately show ?thesis
    unfolding read_text_def r by (simp add: Let_def concat_put utf8_decode_text del: drop_append)
qed

section \<open>The format is read back\<close>

lemma funpow_numeral: "(f ^^ numeral k) x = f ((f ^^ pred_numeral k) x)"
  by (simp add: numeral_eq_Suc)

lemma format_decode:
  assumes "m < 8"
  shows "take_bit 3 (drop_bit 10 (take_bit 15 (format_value ecl m) XOR 0x5412)) = m"
    and "drop_bit 3 (drop_bit 10 (take_bit 15 (format_value ecl m) XOR 0x5412)) = FORMAT_BITS ecl"
proof -
  have m: "m \<in> {0, 1, 2, 3, 4, 5, 6, 7}" using assms by (auto simp: less_Suc_eq numeral_eq_Suc)
  show "take_bit 3 (drop_bit 10 (take_bit 15 (format_value ecl m) XOR 0x5412)) = m"
    using m by (elim insertE emptyE; cases ecl; simp add: format_value_def FORMAT_BITS_def funpow_numeral)
  show "drop_bit 3 (drop_bit 10 (take_bit 15 (format_value ecl m) XOR 0x5412)) = FORMAT_BITS ecl"
    using m by (elim insertE emptyE; cases ecl; simp add: format_value_def FORMAT_BITS_def funpow_numeral)
qed

lemma read_format_masked:
  assumes "version_ok ver" "base_ok ver ecl s"
  shows "read_format (modules (masked ver ecl m s)) = take_bit 15 (format_value ecl m)"
proof -
  let ?lc = "last_call (format_cells (qr_size ver) (format_value ecl m))"
  have cell: "(case p of (x, y) \<Rightarrow> modules (masked ver ecl m s) ! y ! x) = the (?lc p)" if p: "p \<in> set format_pos" for p
  proof -
    have "?lc p \<in> set (map (\<lambda>i. Some (bit (format_value ecl m) i)) [0..<15])"
      using p format_read_cells[of ver "format_value ecl m"] by (metis image_eqI set_map)
    then obtain d where d: "?lc p = Some d" by auto
    moreover have "fst p < qr_size ver" "snd p < qr_size ver" using p by (auto simp: format_pos_def qr_size_def)
    ultimately show ?thesis using masked_spec(2)[OF assms, of "fst p" "snd p" m] by (simp add: case_prod_unfold)
  qed
  have "map (\<lambda>(x, y). modules (masked ver ecl m s) ! y ! x) format_pos = map the (map ?lc format_pos)"
    using cell by (simp add: comp_def)
  also have "\<dots> = map (bit (format_value ecl m)) [0..<15]" unfolding format_read_cells by simp
  finally show ?thesis unfolding read_format_def by (simp only: horner_sum_bit_eq_take_bit)
qed

section \<open>The blocks are read back\<close>

abbreviation data_len :: "nat \<Rightarrow> nat \<Rightarrow> nat \<Rightarrow> nat \<Rightarrow> nat" where
  "data_len nShort shortLen eccLen i \<equiv> shortLen - eccLen + (if i < nShort then 0 else 1)"

lemma ec_blocks_spec:
  assumes "0 < e" "e \<le> sl" "length dat = sum_list (map (data_len ns sl e) is)"
  shows "length (ec_blocks ns sl e is dat) = length is
    \<and> (\<forall>b \<in> set (ec_blocks ns sl e is dat). length b = sl + 1)
    \<and> concat (map2 (\<lambda>i. take (data_len ns sl e i)) is (ec_blocks ns sl e is dat)) = dat"
  using assms(3)
proof (induction "is" arbitrary: dat)
  case (Cons i "is")
  let ?l = "data_len ns sl e i"
  define t where "t = take ?l dat"
  have d: "length (drop ?l dat) = sum_list (map (data_len ns sl e) is)" using Cons.prems by simp
  have t: "length t = ?l" using Cons.prems by (simp add: t_def)
  define b where "b = (if i < ns then t @ [0] else t) @ rsRemainder t (rsDivisor e)"
  have b: "length b = sl + 1" "take ?l b = t"
    using assms(1,2) block_is_codeword(1)[of 0 e t] t by (cases "i < ns"; simp add: b_def)+
  have e: "ec_blocks ns sl e (i # is) dat = b # ec_blocks ns sl e is (drop ?l dat)" by (simp add: b_def t_def Let_def)
  show ?case unfolding e using Cons.IH[OF d] b by (simp add: t_def)
qed simp

lemma sum_data_len: "sum_list (map (data_len ns sl e) [0..<nb]) = nb * (sl - e) + (nb - ns)"
  by (induction nb) auto

lemma block_table:
  assumes "version_ok ver"
  shows "0 < ECC_PER_BLOCK ecl ! ver" "0 < BLOCKS ecl ! ver" "ECC_PER_BLOCK ecl ! ver \<le> rawModules ver div 8 div BLOCKS ecl ! ver"
  using assms unfolding version_cases
  by (elim insertE emptyE; cases ecl; simp add: rawModules_def ECC_PER_BLOCK_def BLOCKS_def)+

lemma block_facts:
  assumes "version_ok ver" "block_lens ver ecl = (ns, sl)"
  shows "ECC_PER_BLOCK ecl ! ver \<le> sl" "ns \<le> BLOCKS ecl ! ver" "(sl + 1) * BLOCKS ecl ! ver = rawModules ver div 8 + ns"
    "sum_list (map (data_len ns sl (ECC_PER_BLOCK ecl ! ver)) [0..<BLOCKS ecl ! ver]) = dataCodewords ver ecl"
proof -
  define raw e nb where d: "raw = rawModules ver div 8" "e = ECC_PER_BLOCK ecl ! ver" "nb = BLOCKS ecl ! ver"
  have l: "ns = nb - raw mod nb" "sl = raw div nb" using assms(2) by (auto simp: block_lens_def Let_def d)
  have t: "0 < nb" "e \<le> sl" using block_table[OF assms(1), of ecl] by (simp_all add: d l)
  have r: "raw = sl * nb + raw mod nb" "raw mod nb < nb" using t(1) by (simp_all add: l)
  show "ECC_PER_BLOCK ecl ! ver \<le> sl" "ns \<le> BLOCKS ecl ! ver" using t l unfolding d(3)[symmetric] d(2)[symmetric] by simp_all
  have "(sl + 1) * nb = sl * nb + nb" by simp
  then show "(sl + 1) * BLOCKS ecl ! ver = rawModules ver div 8 + ns" using r l(1) unfolding d(3)[symmetric] d(1)[symmetric] by linarith
  have "nb * (sl - e) + (nb - ns) = raw - e * nb"
    using r l(1) t(2) by (simp add: diff_mult_distrib2 mult.commute)
  then show "sum_list (map (data_len ns sl (ECC_PER_BLOCK ecl ! ver)) [0..<BLOCKS ecl ! ver]) = dataCodewords ver ecl"
    unfolding sum_data_len dataCodewords_def d[symmetric] .
qed

lemma interleave_slots:
  "interleave ns gap blocks = map (\<lambda>(i, j). blocks ! j ! i) (slots ns gap (length blocks) (length (blocks ! 0)))"
  by (simp add: interleave_def slots_def map_concat comp_def)

lemma slots_set: "set (slots ns gap nb len) = {(i, j). i < len \<and> j < nb \<and> (i \<noteq> gap \<or> ns \<le> j)}"
  by (auto simp: slots_def)

lemma filter_upt_ge: "length (filter (\<lambda>j. ns \<le> j) [0..<nb]) = nb - ns"
  by (induction nb) auto

lemma slots_length:
  assumes "gap < len" "ns \<le> nb"
  shows "length (slots ns gap nb len) + ns = len * nb"
proof -
  have "length (filter (\<lambda>j. i \<noteq> gap \<or> ns \<le> j) [0..<nb]) = (if i = gap then nb - ns else nb)" for i
    using filter_upt_ge[of ns nb] by (auto simp: filter_True)
  then have "length (slots ns gap nb len) = sum_list (map (\<lambda>i. if i = gap then nb - ns else nb) [0..<len])"
    by (simp add: slots_def length_concat comp_def)
  also have "\<dots> + (if gap < len then ns else 0) = len * nb" using assms(2) by (induction len) auto
  finally show ?thesis using assms(1) by simp
qed

lemma qr_blocks_spec:
  assumes "version_ok ver" "block_lens ver ecl = (ns, sl)" "length dat = dataCodewords ver ecl"
  shows "length (qr_blocks ver ecl dat) = BLOCKS ecl ! ver"
    "j < BLOCKS ecl ! ver \<Longrightarrow> length (qr_blocks ver ecl dat ! j) = sl + 1"
    "concat (map (\<lambda>j. take (data_len ns sl (ECC_PER_BLOCK ecl ! ver) j) (qr_blocks ver ecl dat ! j)) [0..<BLOCKS ecl ! ver]) = dat"
proof -
  let ?bs = "qr_blocks ver ecl dat" and ?nb = "BLOCKS ecl ! ver"
  have eq: "?bs = ec_blocks ns sl (ECC_PER_BLOCK ecl ! ver) [0..<?nb] dat" by (simp add: qr_blocks_def assms(2))
  note f = block_facts[OF assms(1,2)]
  have "length dat = sum_list (map (data_len ns sl (ECC_PER_BLOCK ecl ! ver)) [0..<?nb])" using f(4) assms(3) by simp
  note spec = ec_blocks_spec[OF block_table(1)[OF assms(1), of ecl] f(1) this, folded eq]
  then show l: "length ?bs = ?nb" by simp
  show "length (?bs ! j) = sl + 1" if "j < ?nb" using spec that l by (metis nth_mem)
  have "map2 (\<lambda>i. take (data_len ns sl (ECC_PER_BLOCK ecl ! ver) i)) [0..<?nb] ?bs
      = map (\<lambda>j. take (data_len ns sl (ECC_PER_BLOCK ecl ! ver) j) (?bs ! j)) [0..<?nb]"
    by (rule nth_equalityI) (simp_all add: l)
  then show "concat (map (\<lambda>j. take (data_len ns sl (ECC_PER_BLOCK ecl ! ver) j) (?bs ! j)) [0..<?nb]) = dat" using spec by simp
qed

lemma codewords_spec:
  assumes "version_ok ver" "length dat = dataCodewords ver ecl"
  shows "length (qr_codewords ver ecl dat) = rawModules ver div 8" "read_data ver ecl (qr_codewords ver ecl dat) = dat"
proof -
  obtain ns sl where b: "block_lens ver ecl = (ns, sl)" by (cases "block_lens ver ecl")
  let ?bs = "qr_blocks ver ecl dat" and ?nb = "BLOCKS ecl ! ver" and ?e = "ECC_PER_BLOCK ecl ! ver"
  let ?s = "slots ns (sl - ?e) ?nb (sl + 1)"
  note f = block_facts[OF assms(1) b] and t = block_table[OF assms(1), of ecl] and q = qr_blocks_spec[OF assms(1) b assms(2)]
  have cw: "qr_codewords ver ecl dat = map (\<lambda>(i, j). ?bs ! j ! i) ?s"
    using q(2)[OF t(2)] by (simp add: qr_codewords_def b interleave_slots q(1))
  show "length (qr_codewords ver ecl dat) = rawModules ver div 8"
    using slots_length[of "sl - ?e" "sl + 1" ns ?nb] f(2,3) by (simp add: cw)
  have m: "map_of (zip ?s (map (\<lambda>(i, j). ?bs ! j ! i) ?s)) (i, j) = Some (?bs ! j ! i)" if "j < ?nb" "i < data_len ns sl ?e j" for i j
    using that f(1) by (auto simp: map_of_zip_map slots_set split: if_splits)
  have "read_data ver ecl (qr_codewords ver ecl dat)
      = concat (map (\<lambda>j. map (\<lambda>i. the (map_of (zip ?s (map (\<lambda>(i, j). ?bs ! j ! i) ?s)) (i, j))) [0..<data_len ns sl ?e j]) [0..<?nb])"
    by (simp only: read_data_def b cw prod.case Let_def)
  also have "\<dots> = concat (map (\<lambda>j. take (data_len ns sl ?e j) (?bs ! j)) [0..<?nb])"
  proof (intro arg_cong[of _ _ concat] map_cong refl)
    fix j assume j: "j \<in> set [0..<?nb]"
    have "data_len ns sl ?e j \<le> length (?bs ! j)" using q(2)[of j] j t(1) f(1) by auto
    then show "map (\<lambda>i. the (map_of (zip ?s (map (\<lambda>(i, j). ?bs ! j ! i) ?s)) (i, j))) [0..<data_len ns sl ?e j] = take (data_len ns sl ?e j) (?bs ! j)"
      using m j by (intro nth_equalityI) simp_all
  qed
  finally show "read_data ver ecl (qr_codewords ver ecl dat) = dat" using q(3) by simp
qed

section \<open>The cells are read back\<close>

lemma place_all_spec:
  fixes ecl :: Ecl
  assumes "version_ok ver"
  defines "s' \<equiv> \<lambda>cw. place_all (qr_size ver) cw (draw_patterns ver ecl)"
  shows "base_ok ver ecl (s' cw)"
    "i < length (data_cells ver ecl) \<Longrightarrow> i < length cw * 8 \<Longrightarrow> data_cells ver ecl ! i = (x, y) \<Longrightarrow> modules (s' cw) ! y ! x = bit_at cw i"
proof -
  let ?n = "qr_size ver" and ?d = "draw_patterns ver ecl"
  obtain t k where t: "fold (place cw) (zigzag ?n) (?d, 0) = (t, k)" by (cases "fold (place cw) (zigzag ?n) (?d, 0)")
  have s: "s' cw = t" by (simp add: s'_def place_all_def t)
  have "\<forall>p \<in> set (zigzag ?n). inside ?n p" by (auto simp: zigzag_version)
  note f = place_fold[OF draw_patterns_ok[OF assms(1)] this zigzag_version(2) t, folded data_cells_def]
  show "base_ok ver ecl (s' cw)" using f by (simp add: base_ok_def s)
  show "modules (s' cw) ! y ! x = bit_at cw i"
    if "i < length (data_cells ver ecl)" "i < length cw * 8" "data_cells ver ecl ! i = (x, y)"
    using f that by (auto simp: s)
qed

lemma data_cell:
  assumes "(x, y) \<in> set (data_cells ver ecl)"
  shows "x < qr_size ver" "y < qr_size ver" "\<not> isFn (draw_patterns ver ecl) ! y ! x"
  using assms by (auto simp: data_cells_def zigzag_version)

lemma read_cells:
  fixes ecl :: Ecl and m :: nat
  assumes "version_ok ver" "8 * length cw \<le> rawModules ver"
  defines "g \<equiv> modules (masked ver ecl m (place_all (qr_size ver) cw (draw_patterns ver ecl)))"
  shows "take (8 * length cw) (map (\<lambda>(x, y). g ! y ! x \<noteq> mask_at m x y) (data_cells ver ecl)) = concat (map byte_bits_of cw)"
proof -
  let ?s = "place_all (qr_size ver) cw (draw_patterns ver ecl)"
  have enough: "8 * length cw \<le> length (data_cells ver ecl)" using assms(2) data_cells_enough[OF assms(1), of ecl] by linarith
  have "(case data_cells ver ecl ! i of (x, y) \<Rightarrow> g ! y ! x \<noteq> mask_at m x y) = bit_at cw i" if i: "i < 8 * length cw" for i
  proof -
    obtain x y where xy: "data_cells ver ecl ! i = (x, y)" by (cases "data_cells ver ecl ! i")
    then have "(x, y) \<in> set (data_cells ver ecl)" using i enough by (metis nth_mem order_less_le_trans)
    note d = data_cell[OF this]
    have "last_call (format_cells (qr_size ver) (format_value ecl m)) (x, y) = None"
      unfolding last_format using format_at_fn(2)[OF assms(1), of "(x, y)" ecl] d(3) by auto
    then have "g ! y ! x = (modules ?s ! y ! x \<noteq> mask_at m x y)"
      using masked_spec(2)[OF assms(1) place_all_spec(1)[OF assms(1)] d(1,2), where m = m] d(3) by (simp add: g_def)
    moreover have "modules ?s ! y ! x = bit_at cw i"
      using place_all_spec(2)[OF assms(1) _ _ xy] i enough by (simp add: mult.commute)
    ultimately show ?thesis by (auto simp: xy)
  qed
  then have "take (8 * length cw) (map (\<lambda>(x, y). g ! y ! x \<noteq> mask_at m x y) (data_cells ver ecl)) = map (bit_at cw) [0..<8 * length cw]"
    using enough by (intro nth_equalityI) simp_all
  then show ?thesis by (simp only: codeword_bits)
qed

section \<open>The code is read back\<close>

lemma FORMAT_BITS_level: "(if FORMAT_BITS ecl = 1 then EclL else EclM) = ecl"
  by (cases ecl) (simp_all add: FORMAT_BITS_def)

lemma read_masked:
  assumes v: "version_ok ver" and m: "m < 8" and fits: "4 + count_bits ver + length (qr_utf8 text) * 8 \<le> dataCodewords ver ecl * 8"
  defines "dat \<equiv> bytes_of_bits (bit_stream ver ecl (qr_utf8 text))"
  shows "read_qr (modules (masked ver ecl m (place_all (qr_size ver) (qr_codewords ver ecl dat) (draw_patterns ver ecl)))) = Some text"
proof -
  let ?cw = "qr_codewords ver ecl dat" and ?s = "place_all (qr_size ver) (qr_codewords ver ecl dat) (draw_patterns ver ecl)"
  let ?g = "modules (masked ver ecl m ?s)"
  have bits: "concat (map byte_bits_of dat) = bit_stream ver ecl (qr_utf8 text)"
    unfolding dat_def by (rule bits_of_bytes) (simp add: bit_stream_spec(1)[OF fits])
  then have "8 * length dat = dataCodewords ver ecl * 8"
    using bit_stream_spec(1)[OF fits] by (metis length_concat_bytes)
  then have len: "length dat = dataCodewords ver ecl" by simp
  note cw = codewords_spec[OF v len]
  note base = place_all_spec(1)[OF v, of ecl ?cw]
  have "length ?g = qr_size ver" using masked_spec(1)[OF v base, of m] by (simp add: base_ok_def sym_ok_def square_def)
  then have ver: "(length ?g - 17) div 4 = ver" by (simp add: qr_size_def)
  have "take (8 * length ?cw) (map (\<lambda>(x, y). ?g ! y ! x \<noteq> mask_at m x y) (data_cells ver ecl)) = concat (map byte_bits_of ?cw)"
    by (rule read_cells[OF v]) (simp add: cw(1))
  then have "bytes_of_bits (take (8 * (rawModules ver div 8)) (map (\<lambda>(x, y). ?g ! y ! x \<noteq> mask_at m x y) (data_cells ver ecl))) = ?cw"
    by (simp only: cw(1) bytes_bits_bytes)
  then show ?thesis
    unfolding read_qr_def Let_def ver read_format_masked[OF v base] format_decode[OF m] FORMAT_BITS_level
    by (simp only: cw(2) bits read_stream[OF v fits])
qed

lemma fits_last: "version_ok ver \<Longrightarrow> 4 + count_bits ver + n * 8 \<le> dataCodewords ver ecl * 8 \<Longrightarrow> 20 + n * 8 \<le> dataCodewords 10 ecl * 8"
  unfolding version_cases
  by (elim insertE emptyE; cases ecl; simp add: count_bits_def dataCodewords_def rawModules_def ECC_PER_BLOCK_def BLOCKS_def)

lemma qr_version_None: "qr_version bytes ecl = None \<longleftrightarrow> dataCodewords 10 ecl * 8 < 20 + length bytes * 8"
proof -
  let ?fits = "\<lambda>ver. 4 + count_bits ver + length bytes * 8 \<le> dataCodewords ver ecl * 8"
  have "qr_version bytes ecl = None \<longleftrightarrow> \<not> (\<exists>ver. version_ok ver \<and> ?fits ver)"
    by (auto simp: qr_version_def find_None_iff MAX_VERSION_def)
  also have "(\<exists>ver. version_ok ver \<and> ?fits ver) \<longleftrightarrow> 20 + length bytes * 8 \<le> dataCodewords 10 ecl * 8"
  proof
    assume "20 + length bytes * 8 \<le> dataCodewords 10 ecl * 8"
    then have "version_ok 10 \<and> ?fits 10" by (simp add: count_bits_def)
    then show "\<exists>ver. version_ok ver \<and> ?fits ver" by blast
  qed (use fits_last in blast)
  finally show ?thesis by (simp only: not_le)
qed

lemma qr_version_Some:
  "qr_version bytes ecl = Some ver \<Longrightarrow> version_ok ver \<and> 4 + count_bits ver + length bytes * 8 \<le> dataCodewords ver ecl * 8"
  by (auto simp: qr_version_def find_Some_iff MAX_VERSION_def nth_append dest!: sym[of "_ ! _"])

lemma encodeQr_spec:
  assumes "\<forall>m. forced = Some m \<longrightarrow> m < 8" "qr_version (qr_utf8 text) ecl = Some ver"
  defines "s \<equiv> place_all (qr_size ver) (qr_codewords ver ecl (bytes_of_bits (bit_stream ver ecl (qr_utf8 text)))) (draw_patterns ver ecl)"
  obtains c where "c < 8"
    "encodeQr text ecl forced = Inr \<lparr>qr_ver = ver, qr_ecl = ecl, qr_mask = c, qr_sz = qr_size ver, qr_modules = modules (masked ver ecl c s)\<rparr>"
    "\<forall>m. forced = Some m \<longrightarrow> c = m"
    "forced = None \<longrightarrow> (\<forall>m < 8. penalty (modules (masked ver ecl c s)) \<le> penalty (modules (masked ver ecl m s)))"
proof -
  have v: "version_ok ver" using qr_version_Some[OF assms(2)] by simp
  have "base_ok ver ecl s" unfolding s_def by (rule place_all_spec(1)[OF v])
  from finish_spec[OF v this assms(1)] obtain c where c: "c < 8" "finish_qr (qr_size ver) ecl forced s = (masked ver ecl c s, c)"
    "\<forall>m. forced = Some m \<longrightarrow> c = m"
    "forced = None \<longrightarrow> (\<forall>m < 8. penalty (modules (masked ver ecl c s)) \<le> penalty (modules (masked ver ecl m s)))" by blast
  have "encodeQr text ecl forced = Inr \<lparr>qr_ver = ver, qr_ecl = ecl, qr_mask = c, qr_sz = qr_size ver, qr_modules = modules (masked ver ecl c s)\<rparr>"
    using c(2) by (simp add: encodeQr_def assms(2) Let_def s_def)
  with c that show ?thesis by blast
qed



text \<open>The best mask wins. When no mask is forced, the code that comes out has the lowest penalty: encoding the same text with
  any of the eight masks forced gives a symbol whose penalty is at least as high, although each trial draws over the format bits of
  the one before and undoes only its mask.\<close>

theorem qr_mask_best:
  assumes "m < 8" "encodeQr text ecl None = Inr q" "encodeQr text ecl (Some m) = Inr q'"
  shows "qr_ver q = qr_ver q' \<and> qr_mask q' = m \<and> qr_mask q < 8 \<and> penalty (qr_modules q) \<le> penalty (qr_modules q')
    \<and> encodeQr text ecl (Some (qr_mask q)) = Inr q"
proof -
  obtain ver where v: "qr_version (qr_utf8 text) ecl = Some ver"
    using assms(2) by (cases "qr_version (qr_utf8 text) ecl") (simp_all add: encodeQr_def)
  have "\<forall>k. Some m = Some k \<longrightarrow> k < 8" using assms(1) by simp
  note forced = encodeQr_spec[OF this v] and free = encodeQr_spec[OF _ v, of None]
  obtain c where c: "c < 8" "q = \<lparr>qr_ver = ver, qr_ecl = ecl, qr_mask = c, qr_sz = qr_size ver,
      qr_modules = modules (masked ver ecl c (place_all (qr_size ver)
        (qr_codewords ver ecl (bytes_of_bits (bit_stream ver ecl (qr_utf8 text)))) (draw_patterns ver ecl)))\<rparr>"
    "\<forall>k < 8. penalty (qr_modules q) \<le> penalty (modules (masked ver ecl k (place_all (qr_size ver)
        (qr_codewords ver ecl (bytes_of_bits (bit_stream ver ecl (qr_utf8 text)))) (draw_patterns ver ecl))))"
    using free assms(2) by (metis Inr_inject QrCode.simps(5) option.distinct(1))
  have "q' = \<lparr>qr_ver = ver, qr_ecl = ecl, qr_mask = m, qr_sz = qr_size ver,
      qr_modules = modules (masked ver ecl m (place_all (qr_size ver)
        (qr_codewords ver ecl (bytes_of_bits (bit_stream ver ecl (qr_utf8 text)))) (draw_patterns ver ecl)))\<rparr>"
    using forced assms(3) by (metis Inr_inject)
  moreover have "encodeQr text ecl (Some c) = Inr q"
    using encodeQr_spec[OF _ v, of "Some c"] c(1,2) by (metis option.inject)
  ultimately show ?thesis using c assms(1) by simp
qed

theorem qr_mask_best_witness:
  "\<exists>q q'. encodeQr ''ps5'' EclL None = Inr q \<and> encodeQr ''ps5'' EclL (Some 3) = Inr q' \<and> penalty (qr_modules q) \<le> penalty (qr_modules q')"
proof -
  have "qr_version (qr_utf8 ''ps5'') EclL \<noteq> None"
    by (simp add: qr_version_None dataCodewords_def rawModules_def ECC_PER_BLOCK_def BLOCKS_def qr_utf8_def utf8_char_def)
  then obtain q q' where "encodeQr ''ps5'' EclL None = Inr q" "encodeQr ''ps5'' EclL (Some 3) = Inr q'"
    by (auto simp: encodeQr_def Let_def case_prod_unfold)
  then show ?thesis using qr_mask_best[of 3 "''ps5''" EclL q q'] by auto
qed

end
