(* ===== verification/Spec2Isabelle.thy ===== *)
theory Spec2Isabelle
  imports Mesh_Share Task_Store Fs_Upload_Run Fs_Upload_Line Space_Run Back_History Convert_Queue Archive_Parts Queue_Ops Queue_Machine Queue_Leader Versions Rp_Sps Playlist_Run Qr_Read
begin

text \<open>
  A verification development for the client of ps5upload (the TypeScript under \<^verbatim>\<open>client/src\<close>).

  \<^bold>\<open>The program.\<close> ps5upload sends games, packages, folders and payloads to PS5 consoles. A transfer engine and a
  payload on the console move the bytes; the client decides what is sent, when, to which console and under which
  name, and keeps that in stores that survive a restart. The client's parts meet in a few places: a console is
  always known by the bare host of its address; a store action runs to its first \<^verbatim>\<open>await\<close> in one go and goes on
  later in a state others may have changed, guarded by a generation counter; what a store saves is read back
  through checks; and settings travel between devices as registers of one merged map.

  \<^bold>\<open>Theories and sources\<close> (files under \<^verbatim>\<open>client/src\<close>).

  \<^item> \<^verbatim>\<open>Js_Prelude\<close>, \<^verbatim>\<open>Js_Number\<close>, \<^verbatim>\<open>Form_Url\<close>: what the code uses of the language. Objects as association lists with the
    inherited names, JSON values, comparators and stable sorting, strings, \<^verbatim>\<open>Number(text)\<close>, \<^verbatim>\<open>URLSearchParams\<close>. The
    locales of the library are here: \<open>js_comparator\<close>, \<open>invariant_system\<close> (a step relation with an invariant),
    \<open>simulation\<close> (an invariant system that implements an abstract machine) and \<open>event_machine\<close>.
  \<^item> \<^verbatim>\<open>Addr\<close> (\<^verbatim>\<open>lib/addr.ts\<close>) and \<^verbatim>\<open>Paths\<close> (\<^verbatim>\<open>lib/consolePath.ts\<close>, \<^verbatim>\<open>lib/remotePath.ts\<close>): the keys of consoles and the names of
    files. Lemmas: the host is recovered from every address the app builds; different numbers give different names.
  \<^item> \<^verbatim>\<open>Mesh_Crdt\<close> (\<^verbatim>\<open>lib/meshCrdt.ts\<close>): the last-writer-wins map with hybrid clocks. The locale \<open>lww_merge\<close>, interpreted
    on \<open>merge\<close>, gives convergence; the clock's stamps are later than all it made or saw.
  \<^item> \<^verbatim>\<open>Mesh_Share\<close> (\<^verbatim>\<open>lib/meshShare.ts\<close>, parts of \<^verbatim>\<open>lib/sharedPrefs.ts\<close> and \<^verbatim>\<open>state/roster.ts\<close>): one sync with a console and the
    console list that a map describes.
  \<^item> \<^verbatim>\<open>Upload_Recovery\<close>, \<^verbatim>\<open>Queue_Ops\<close>, \<^verbatim>\<open>Queue_Item\<close>, \<^verbatim>\<open>Upload_Queue\<close>, \<^verbatim>\<open>Queue_Store\<close>, \<^verbatim>\<open>Queue_Runner\<close>, \<^verbatim>\<open>Queue_Machine\<close>
    (\<^verbatim>\<open>lib/uploadRecovery.ts\<close>, \<^verbatim>\<open>lib/queueOps.ts\<close>, \<^verbatim>\<open>state/uploadQueue.ts\<close> and what they call): the upload queue. Its rows
    and pure decisions, the store's record and actions, the drain loops cut at their awaits, and the machine of all
    interleavings, whose invariant gives: one upload for each console at a time, a console marked running exactly
    while its loop lives, and no running install put back in the queue. The locale \<open>group_reorder\<close> carries the moves of
    rows.
  \<^item> \<^verbatim>\<open>Queue_Leader\<close> (\<^verbatim>\<open>lib/queueLeader.ts\<close>): which browser tab runs the queue, with the reads, writes and events of any
    number of tabs interleaved.
  \<^item> \<^verbatim>\<open>Task_Store\<close> (\<^verbatim>\<open>state/tasks.ts\<close>): the task list, an \<open>event_machine\<close>.
  \<^item> \<^verbatim>\<open>Fs_Upload_Plan\<close> (\<^verbatim>\<open>state/fsUploadPlan.ts\<close>): names and conflicts of an upload from the Files screen.
  \<^item> \<^verbatim>\<open>Fs_Upload\<close>, \<^verbatim>\<open>Fs_Upload_Run\<close> (\<^verbatim>\<open>state/fsUpload.ts\<close>): the loop that sends a pick to a console, with its Stop and
    Resume, what it saves for a restart, and the machine of a screen whose engine answers at any time.
  \<^item> \<^verbatim>\<open>Fs_Upload_Queue\<close>, \<^verbatim>\<open>Fs_Upload_Line\<close> (\<^verbatim>\<open>state/fsUploadQueue.ts\<close>, \<^verbatim>\<open>state/fsUploadRuntime.ts\<close>): the picks that wait behind a
    copy, over the model of the copies; an \<open>event_machine\<close> whose invariant gives what an event may do to a line.
  \<^item> \<^verbatim>\<open>Space_Plan\<close> (\<^verbatim>\<open>lib/spacePlan.ts\<close>): what to clear, move and uninstall so that a game fits.
  \<^item> \<^verbatim>\<open>Library_Move\<close> (\<^verbatim>\<open>state/libraryMove.ts\<close>), \<^verbatim>\<open>Space_Run\<close> (\<^verbatim>\<open>state/spacePlanRun.ts\<close>, \<^verbatim>\<open>lib/moveTarget.ts\<close>): a game is copied to another drive
    and then removed, shown over the contents of the consoles; and the run of a space plan, an \<open>event_machine\<close>.
  \<^item> \<^verbatim>\<open>Convert_Queue\<close> (\<^verbatim>\<open>state/convertQueue.ts\<close>): games built on this computer one after another, with their hand-off to a console's queue; an
    \<open>invariant_system\<close>. \<^verbatim>\<open>Archive_Parts\<close> (\<^verbatim>\<open>lib/archiveParts.ts\<close>): sets of archives that belong together.
  \<^item> \<^verbatim>\<open>Back_History\<close> (\<^verbatim>\<open>console/backHistory.ts\<close>): the Back button of the console's browser, with the browser's history.
  \<^item> \<^verbatim>\<open>Async_Tools\<close> (\<^verbatim>\<open>lib/limitConcurrency.ts\<close>, \<^verbatim>\<open>lib/runGen.ts\<close>): the gate, shown to refine a counting semaphore through
    \<open>simulation\<close>, and the generation counter.
  \<^item> \<^verbatim>\<open>Playlist_Ops\<close>, \<^verbatim>\<open>Playlist_Run\<close> (\<^verbatim>\<open>lib/playlistOps.ts\<close>, \<^verbatim>\<open>lib/playlistShare.ts\<close>, \<^verbatim>\<open>state/payloadPlaylists.ts\<close>): payload
    playlists, their export and import, and the runner that sends them, one run for each console.
  \<^item> \<^verbatim>\<open>Versions\<close> (\<^verbatim>\<open>lib/semver.ts\<close>, \<^verbatim>\<open>lib/movePollerPolicy.ts\<close>): the order of versions and the poller of a move.
  \<^item> \<^verbatim>\<open>Gf256\<close>, \<^verbatim>\<open>Qr_Code\<close>, \<^verbatim>\<open>Qr_Read\<close> (\<^verbatim>\<open>console/ui/qr.ts\<close>): the QR codes that carry a link to the phone, their error
    correction, a Reed-Solomon code, and a reader that gets the text back.
  \<^item> \<^verbatim>\<open>Rp_Sps\<close> (\<^verbatim>\<open>lib/rpSps.ts\<close>): the picture size of remote play, read from the stream bit by bit.

  \<^bold>\<open>Conventions.\<close> A definition has the name of the function it models. A record has a field for each field the code
  reads or writes, with a prefix. What a function takes from outside (the clock, fresh ids, the engine's and the
  console's answers, the person's choices) is an argument. A thrown error is an \<open>Inl\<close> of the result. Code after an
  \<^verbatim>\<open>await\<close> is a function of its own, and a machine lets the pieces of all runs interleave, so an invariant of its
  reachable states holds for every schedule. Strings are lists of Latin-1 characters. Numbers are \<open>int\<close> where the
  code has whole numbers below 2 to the power 53 and \<open>rat\<close> elsewhere; rounding to doubles is not modelled.

  \<^bold>\<open>Loops.\<close> Loops over a list are structural. The search for a free "Keep both" name is a \<open>partial_function\<close>, and that
  it always returns is part of the property on it. The search for a free playlist name and the count of zeros of an
  Exp-Golomb code have fuel: one more than the names there are, and the 32 the code itself allows; that the first
  is enough is proved with it.

  \<^bold>\<open>Not modelled.\<close> The engine (Rust), the payload (C) and the desktop shell, which are other programs; the screens and
  components, which draw the stores' state; the translations, which are data; the bindings of the engine's calls;
  the media pipelines of remote play, which are the browser's; of the stores above, saving to disk after a pause, log
  lines and notifications; of the queue leader the registration of timers and listeners; of the console list what
  sharing does not touch. The inputs a space plan is made from and the rest of \<^verbatim>\<open>lib\<close> are open.
\<close>

end
